(* ===== verification/Prelude.thy ===== *)
theory Prelude
  imports Main "HOL-Library.Word" "HOL-Library.Monad_Syntax"
begin

unbundle bit_operations_syntax

text \<open>
  Shared vocabulary of the development: the machine integer types of the C code, reads and
  writes of C arrays that may fall outside the array, copying of memory blocks, and the
  little-endian layout in which the code stores 32-bit values in byte buffers.

  A computation that the C code does not complete (a kernel panic through \<open>sys_fatal\<close>, an
  access outside an array or a loop that never ends) is \<open>None\<close>; one that completes is
  \<open>Some\<close> of its return value and of the new state.
\<close>

section \<open>Machine integers\<close>

type_synonym byte = "8 word"
type_synonym u16 = "16 word"
type_synonym u32 = "32 word"
type_synonym u64 = "64 word"

lemma unat_word_of_nat:
  "n < 2 ^ LENGTH('a::len) \<Longrightarrow> unat (word_of_nat n :: 'a word) = n"
  by (simp add: unsigned_of_nat take_bit_nat_eq_self)

lemma signed_take_bit_31:
  "n < 2 ^ 31 \<Longrightarrow> signed_take_bit 31 (int n) = int n"
  "n < 2 ^ 31 \<Longrightarrow> signed_take_bit 31 (- int n) = - int n"
  by (auto intro!: signed_take_bit_int_eq_self)

lemma sint_small: "unat (w :: u32) < 2 ^ 31 \<Longrightarrow> sint w = int (unat w)"
  using signed_take_bit_31(1) [of "unat w"] by (simp add: sint_uint)

lemma sint_neg_small:
  assumes "unat (w :: u32) < 2 ^ 31"
  shows "sint (- w) = - int (unat w)"
proof -
  have "- w = word_of_int (- int (unat w))"
    by simp
  also have "sint \<dots> = signed_take_bit 31 (- int (unat w))"
    by (subst sint_sbintrunc') simp
  also have "\<dots> = - int (unat w)"
    using assms by (rule signed_take_bit_31)
  finally show ?thesis .
qed

lemma ucast_byte_u32 [simp]: "ucast (ucast (b :: byte) :: u32) = b"
  by (rule bit_word_eqI) (auto simp: bit_simps)

named_theorems mem_simps \<open>reads and writes of memory blocks\<close>

section \<open>C arrays as lists\<close>

text \<open>Reading or writing outside the array is undefined behaviour in C: \<open>None\<close>.\<close>

definition rd :: "'a list \<Rightarrow> nat \<Rightarrow> 'a option" where
  "rd xs i = (if i < length xs then Some (xs ! i) else None)"

definition wr :: "'a list \<Rightarrow> nat \<Rightarrow> 'a \<Rightarrow> 'a list option" where
  "wr xs i v = (if i < length xs then Some (xs[i := v]) else None)"

lemma rd_in [simp]: "i < length xs \<Longrightarrow> rd xs i = Some (xs ! i)"
  by (simp add: rd_def)

lemma rd_out [simp]: "length xs \<le> i \<Longrightarrow> rd xs i = None"
  by (simp add: rd_def)

lemma rd_eq_Some: "rd xs i = Some x \<longleftrightarrow> i < length xs \<and> xs ! i = x"
  by (simp add: rd_def)

lemma wr_in [simp]: "i < length xs \<Longrightarrow> wr xs i v = Some (xs[i := v])"
  by (simp add: wr_def)

lemma wr_out [simp]: "length xs \<le> i \<Longrightarrow> wr xs i v = None"
  by (simp add: wr_def)

lemma wr_eq_Some: "wr xs i v = Some ys \<longleftrightarrow> i < length xs \<and> ys = xs[i := v]"
  by (auto simp: wr_def)

section \<open>Memory blocks\<close>

text \<open>
  \<open>mread xs p n\<close> are the \<open>n\<close> elements from position \<open>p\<close> on; \<open>mwrite xs p ys\<close> overwrites the
  block from \<open>p\<close> on with \<open>ys\<close>: \<open>mem_copy(xs + p, ys, length ys)\<close> when the block fits.
\<close>

definition mread :: "'a list \<Rightarrow> nat \<Rightarrow> nat \<Rightarrow> 'a list" where
  "mread xs p n = take n (drop p xs)"

definition mwrite :: "'a list \<Rightarrow> nat \<Rightarrow> 'a list \<Rightarrow> 'a list" where
  "mwrite xs p ys = take p xs @ ys @ drop (p + length ys) xs"

lemma length_mread [simp]: "p + n \<le> length xs \<Longrightarrow> length (mread xs p n) = n"
  by (simp add: mread_def)

lemma length_mread_min: "length (mread xs p n) = min n (length xs - p)"
  by (simp add: mread_def min.commute)

lemma mread_zero [simp]: "mread xs p 0 = []"
  by (simp add: mread_def)

lemma mread_all: "n = length xs \<Longrightarrow> mread xs 0 n = xs"
  by (simp add: mread_def)

lemma nth_mread [simp]: "i < n \<Longrightarrow> p + n \<le> length xs \<Longrightarrow> mread xs p n ! i = xs ! (p + i)"
  by (simp add: mread_def)

lemma mread_split: "mread xs p (m + n) = mread xs p m @ mread xs (p + m) n"
  by (simp add: mread_def take_add add.commute)

lemma take_mread: "m \<le> n \<Longrightarrow> take m (mread xs p n) = mread xs p m"
  by (simp add: mread_def)

lemma drop_mread: "drop m (mread xs p n) = mread xs (p + m) (n - m)"
  by (simp add: mread_def drop_take add.commute)

lemma length_mwrite [simp]: "p + length ys \<le> length xs \<Longrightarrow> length (mwrite xs p ys) = length xs"
  by (simp add: mwrite_def)

lemma mwrite_Nil [simp]: "mwrite xs p [] = xs"
  by (simp add: mwrite_def)

lemma mwrite_all: "length ys = length xs \<Longrightarrow> mwrite xs 0 ys = ys"
  by (simp add: mwrite_def)

lemma nth_mwrite:
  "p + length ys \<le> length xs \<Longrightarrow> i < length xs \<Longrightarrow>
   mwrite xs p ys ! i = (if p \<le> i \<and> i < p + length ys then ys ! (i - p) else xs ! i)"
  by (auto simp: mwrite_def nth_append)

lemma mread_mwrite_same [mem_simps]:
  "p + length ys \<le> length xs \<Longrightarrow> n = length ys \<Longrightarrow> mread (mwrite xs p ys) p n = ys"
  by (simp add: mread_def mwrite_def)

lemma mread_mwrite_disjoint [mem_simps]:
  assumes "p + length ys \<le> length xs" and "q + n \<le> p \<or> p + length ys \<le> q"
    and "q + n \<le> length xs"
  shows "mread (mwrite xs p ys) q n = mread xs q n"
  by (rule nth_equalityI) (use assms in \<open>auto simp: nth_mwrite\<close>)

lemma take_mwrite:
  "take n b = xs \<Longrightarrow> n \<le> length b \<Longrightarrow> p + length ys \<le> n \<Longrightarrow> take n (mwrite b p ys) = mwrite xs p ys"
  by (auto simp: mwrite_def min_absorb2 drop_take)

lemma mwrite_append_left:
  "p + length ys \<le> length as \<Longrightarrow> mwrite (as @ bs) p ys = mwrite as p ys @ bs"
  by (simp add: mwrite_def)

lemma mwrite_append_right:
  "length as \<le> p \<Longrightarrow> mwrite (as @ bs) p ys = as @ mwrite bs (p - length as) ys"
  by (simp add: mwrite_def)

lemma mwrite_append_both:
  assumes "p \<le> length as" and "length as < p + length ys"
  shows "mwrite (as @ bs) p ys =
    mwrite as p (take (length as - p) ys) @ mwrite bs 0 (drop (length as - p) ys)"
proof -
  let ?k = "length as - p"
  have "ys = take ?k ys @ drop ?k ys"
    by simp
  with assms show ?thesis
    by (simp add: mwrite_def min_def add.commute)
qed

lemma mwrite_append_exact:
  "length as = p + length ys \<Longrightarrow> mwrite (as @ bs) p (ys @ zs) = mwrite as p ys @ mwrite bs 0 zs"
  by (simp add: mwrite_def)

lemma mread_append_left: "p + n \<le> length as \<Longrightarrow> mread (as @ bs) p n = mread as p n"
  by (simp add: mread_def)

lemma mread_append_right: "length as \<le> p \<Longrightarrow> mread (as @ bs) p n = mread bs (p - length as) n"
  by (simp add: mread_def)

lemma mread_append_both:
  assumes "p \<le> length as" and "length as < p + n"
  shows "mread (as @ bs) p n = mread as p (length as - p) @ mread bs 0 (n - (length as - p))"
  using assms by (simp add: mread_def)

lemma mread_append_exact:
  "length as = p + m \<Longrightarrow> mread (as @ bs) p (m + n) = mread as p m @ mread bs 0 n"
  by (simp add: mread_def)

lemma mwrite_two:
  "p + length ys + length zs \<le> length xs \<Longrightarrow>
   mwrite (mwrite xs p ys) (p + length ys) zs = mwrite xs p (ys @ zs)"
  by (simp add: mwrite_def ac_simps)

section \<open>Little-endian 32-bit values in byte buffers\<close>

definition le32 :: "u32 \<Rightarrow> byte list" where
  "le32 w = [ucast w, ucast (drop_bit 8 w), ucast (drop_bit 16 w), ucast (drop_bit 24 w)]"

definition of_le32 :: "byte list \<Rightarrow> u32" where
  "of_le32 bs = ucast (bs ! 0) OR push_bit 8 (ucast (bs ! 1)) OR
     push_bit 16 (ucast (bs ! 2)) OR push_bit 24 (ucast (bs ! 3))"

text \<open>\<open>*(uint32_t *)(data + p)\<close> and \<open>mem_copy(data + p, &w, 4)\<close> on the i386.\<close>

definition get32 :: "byte list \<Rightarrow> nat \<Rightarrow> u32" where
  "get32 data p = of_le32 (mread data p 4)"

definition put32 :: "byte list \<Rightarrow> nat \<Rightarrow> u32 \<Rightarrow> byte list" where
  "put32 data p w = mwrite data p (le32 w)"

lemma length_le32 [simp]: "length (le32 w) = 4"
  by (simp add: le32_def)

lemma of_le32_le32 [simp]: "of_le32 (le32 w) = w"
proof (rule bit_word_eqI)
  fix n :: nat
  assume "n < LENGTH(32)"
  then consider "n < 8" | "8 \<le> n" "n < 16" | "16 \<le> n" "n < 24" | "24 \<le> n" "n < 32"
    by fastforce
  then show "bit (of_le32 (le32 w)) n \<longleftrightarrow> bit w n"
    by cases (auto simp: of_le32_def le32_def bit_simps)
qed

lemma length_put32 [simp]: "p + 4 \<le> length data \<Longrightarrow> length (put32 data p w) = length data"
  by (simp add: put32_def)

lemma get32_put32_same [mem_simps]: "p + 4 \<le> length data \<Longrightarrow> get32 (put32 data p w) p = w"
  by (simp add: get32_def put32_def mread_mwrite_same)

lemma get32_put32_other [mem_simps]:
  "p + 4 \<le> length data \<Longrightarrow> q + 4 \<le> length data \<Longrightarrow> q + 4 \<le> p \<or> p + 4 \<le> q \<Longrightarrow>
   get32 (put32 data p w) q = get32 data q"
  by (simp add: get32_def put32_def mread_mwrite_disjoint)

lemma nth_put32_other [mem_simps]:
  "p + 4 \<le> length data \<Longrightarrow> i < length data \<Longrightarrow> i < p \<or> p + 4 \<le> i \<Longrightarrow>
   put32 data p w ! i = data ! i"
  by (auto simp: put32_def nth_mwrite)

lemma put32_same_twice [mem_simps]:
  "p + 4 \<le> length data \<Longrightarrow> put32 (put32 data p v) p w = put32 data p w"
  by (simp add: put32_def mwrite_def)

lemma get32_zeros [mem_simps]: "p + 4 \<le> n \<Longrightarrow> get32 (replicate n 0) p = 0"
  by (simp add: get32_def mread_def of_le32_def)

lemma get32_mwrite_disjoint [mem_simps]:
  "p + length ys \<le> length xs \<Longrightarrow> q + 4 \<le> length xs \<Longrightarrow> q + 4 \<le> p \<or> p + length ys \<le> q \<Longrightarrow>
   get32 (mwrite xs p ys) q = get32 xs q"
  by (simp add: get32_def mread_mwrite_disjoint)

section \<open>The option monad\<close>

lemma bind_Some_iff: "Option.bind m f = Some y \<longleftrightarrow> (\<exists>x. m = Some x \<and> f x = Some y)"
  by (rule Option.bind_eq_Some_conv)

lemma bind_SomeI: "m = Some x \<Longrightarrow> f x = r \<Longrightarrow> Option.bind m f = r"
  by simp

end
