(* ===== verification/Vdisk.thy ===== *)
theory Vdisk
  imports Prelude
begin

text \<open>
  The virtual disk of the kernel file system (\<open>kernel/filesys/vdisk.c\<close>, types in
  \<open>include/kernel/ktype.h\<close>, sector identifiers in \<open>include/kernel/kernel/butterfly.h\<close>): an array
  of 512-byte sectors with a flag per sector and an array whose tail holds the free sectors.

  \<open>uint32_t\<close> counters of sectors are \<open>nat\<close>: the arrays they index would need more memory than
  the 256 MiB the kernel maps before they could wrap.  What \<open>malloc\<close> and \<open>realloc\<close> leave in
  sectors nobody has written yet is the field \<open>fresh\<close>, an arbitrary function fixed for the
  disk; \<open>malloc\<close> itself is assumed to succeed, as the code assumes everywhere but once.

  The interface \<open>cell_store\<close> states what the container code relies on; it is interpreted on the
  disk at the end.
\<close>

section \<open>Sector identifiers\<close>

definition FS_SECTOR_SIZE :: nat where "FS_SECTOR_SIZE = 512"

definition SID_FORMAT :: "u32 \<Rightarrow> u32 \<Rightarrow> u32" where
  "SID_FORMAT disk sector = push_bit 24 disk OR sector"

definition SID_DISK :: "u32 \<Rightarrow> u32" where
  "SID_DISK sid = drop_bit 24 sid"

definition SID_SECTOR :: "u32 \<Rightarrow> nat" where
  "SID_SECTOR sid = unat (sid AND 0xFFFFFF)"

definition SID_NULL :: u32 where "SID_NULL = 0"

definition SID_ROOT :: u32 where "SID_ROOT = SID_FORMAT 1 0"

lemmas sid_consts = FS_SECTOR_SIZE_def SID_NULL_def

lemma mask24: "(0xFFFFFF :: u32) = mask 24"
  by (simp add: mask_eq_exp_minus_1)

lemma SID_SECTOR_take: "SID_SECTOR sid = take_bit 24 (unat sid)"
  by (simp add: SID_SECTOR_def mask24 unsigned_take_bit_eq flip: take_bit_eq_mask)

lemma SID_SECTOR_bound: "SID_SECTOR sid < 2 ^ 24"
  unfolding SID_SECTOR_take by (rule take_bit_nat_less_exp)

lemma SID_inject:
  assumes "SID_DISK a = SID_DISK b" and "SID_SECTOR a = SID_SECTOR b"
  shows "a = b"
proof (rule bit_word_eqI)
  fix n :: nat
  show "bit a n \<longleftrightarrow> bit b n"
  proof (cases "n < 24")
    case True
    have "bit (take_bit 24 (unat a)) n \<longleftrightarrow> bit (take_bit 24 (unat b)) n"
      using assms(2) by (simp add: SID_SECTOR_take)
    with True show ?thesis by (simp add: bit_simps)
  next
    case False
    then have "bit a n \<longleftrightarrow> bit (SID_DISK a) (n - 24)" "bit b n \<longleftrightarrow> bit (SID_DISK b) (n - 24)"
      by (simp_all add: SID_DISK_def bit_simps)
    then show ?thesis using assms(1) by simp
  qed
qed

lemma bit_small_nat: "n < 2 ^ k \<Longrightarrow> bit (n :: nat) i \<Longrightarrow> i < k"
  by (metis bit_take_bit_iff take_bit_nat_eq_self)

lemma SID_DISK_FORMAT:
  assumes "n < 2 ^ 24"
  shows "SID_DISK (SID_FORMAT (ucast (dev :: byte)) (word_of_nat n)) = ucast dev"
proof (rule bit_word_eqI)
  fix k :: nat
  assume k: "k < LENGTH(32)"
  have "\<not> bit n (k + 24)"
    using bit_small_nat [OF assms] by fastforce
  with k show "bit (SID_DISK (SID_FORMAT (ucast dev) (word_of_nat n))) k \<longleftrightarrow> bit (ucast dev :: u32) k"
    by (auto simp: SID_DISK_def SID_FORMAT_def bit_simps add.commute dest: bit_imp_le_length)
qed

lemma SID_SECTOR_FORMAT:
  assumes "n < 2 ^ 24"
  shows "SID_SECTOR (SID_FORMAT d (word_of_nat n)) = n"
proof (rule bit_eqI)
  fix k :: nat
  show "bit (SID_SECTOR (SID_FORMAT d (word_of_nat n))) k \<longleftrightarrow> bit n k"
    using bit_small_nat [OF assms, of k]
    by (auto simp: SID_SECTOR_take SID_FORMAT_def bit_simps)
qed

section \<open>The disk and its operations\<close>

record vdisk =
  sectors :: "byte list list"
  vsize :: nat
  vused :: "bool list"
  vfree :: "nat list"
  used_count :: nat
  fresh :: "nat \<Rightarrow> byte list"

definition vdisk_create :: "(nat \<Rightarrow> byte list) \<Rightarrow> nat \<Rightarrow> vdisk" where
  "vdisk_create junk initsize =
     \<lparr>sectors = map junk [0..<initsize], vsize = initsize, vused = replicate initsize False,
      vfree = [0..<initsize], used_count = 0, fresh = junk\<rparr>"

text \<open>
  \<open>sys_fatal\<close> halts the kernel, and the flag and free arrays are indexed without a check: both
  are \<open>None\<close>.
\<close>

definition vdisk_note_sector_used :: "vdisk \<Rightarrow> u32 \<Rightarrow> (int \<times> vdisk) option" where
  "vdisk_note_sector_used d sid = do {
     u \<leftarrow> rd (vused d) (SID_SECTOR sid);
     if u then Some (1, d)
     else do {
       f \<leftarrow> rd (vfree d) (used_count d);
       if f \<noteq> SID_SECTOR sid then None
       else Some (0, d\<lparr>vfree := (vfree d)[used_count d := 42],
                       vused := (vused d)[SID_SECTOR sid := True],
                       used_count := Suc (used_count d)\<rparr>)
     }
   }"

definition vdisk_note_sector_unused :: "vdisk \<Rightarrow> u32 \<Rightarrow> (int \<times> vdisk) option" where
  "vdisk_note_sector_unused d sid = do {
     u \<leftarrow> rd (vused d) (SID_SECTOR sid);
     if \<not> u then Some (1, d)
     else if used_count d = 0 then None
     else do {
       free \<leftarrow> wr (vfree d) (used_count d - 1) (SID_SECTOR sid);
       Some (0, d\<lparr>used_count := used_count d - 1, vfree := free,
                  vused := (vused d)[SID_SECTOR sid := False]\<rparr>)
     }
   }"

definition vdisk_is_sector_used :: "vdisk \<Rightarrow> u32 \<Rightarrow> bool option" where
  "vdisk_is_sector_used d sid = rd (vused d) (SID_SECTOR sid)"

definition vdisk_extend :: "vdisk \<Rightarrow> nat \<Rightarrow> int \<times> vdisk" where
  "vdisk_extend d newsize =
     (if newsize \<le> vsize d then (1, d)
      else (0, d\<lparr>vfree := vfree d @ [vsize d..<newsize],
                 vused := vused d @ replicate (newsize - vsize d) False,
                 sectors := sectors d @ map (fresh d) [vsize d..<newsize],
                 vsize := newsize\<rparr>))"

text \<open>The result is an \<open>int\<close> the callers compare with \<open>-1\<close> and convert to \<open>uint32_t\<close>: its 32 bits.\<close>

definition vdisk_get_unused_sector :: "vdisk \<Rightarrow> (u32 \<times> vdisk) option" where
  "vdisk_get_unused_sector d =
     (let d' = (if used_count d \<ge> vsize d then snd (vdisk_extend d (vsize d + 1000)) else d)
      in do { n \<leftarrow> rd (vfree d') (used_count d'); Some (word_of_nat n, d') })"

definition vdisk_write_sector :: "vdisk \<Rightarrow> u32 \<Rightarrow> byte list \<Rightarrow> int \<times> vdisk" where
  "vdisk_write_sector d sid data =
     (if SID_SECTOR sid \<ge> vsize d then (1, d)
      else (0, d\<lparr>sectors := (sectors d)[SID_SECTOR sid := take FS_SECTOR_SIZE data]\<rparr>))"

definition vdisk_read_sector :: "vdisk \<Rightarrow> u32 \<Rightarrow> byte list \<Rightarrow> int \<times> byte list" where
  "vdisk_read_sector d sid data =
     (if SID_SECTOR sid \<ge> vsize d then (1, data)
      else (0, mwrite data 0 (sectors d ! SID_SECTOR sid)))"

text \<open>
  A sector out of range gives the null pointer; every caller that has not checked the range
  reads through the pointer at once, so the null pointer is \<open>None\<close> as well.
\<close>

definition vdisk_load_sector :: "vdisk \<Rightarrow> u32 \<Rightarrow> byte list option" where
  "vdisk_load_sector d sid =
     (if SID_SECTOR sid \<ge> vsize d then None else Some (sectors d ! SID_SECTOR sid))"

definition vdisk_unload_sector :: "vdisk \<Rightarrow> u32 \<Rightarrow> byte list \<Rightarrow> bool \<Rightarrow> int \<times> vdisk" where
  "vdisk_unload_sector d sid data save =
     (0, if save then snd (vdisk_write_sector d sid data) else d)"

section \<open>The invariant\<close>

text \<open>
  The three arrays have the length the disk says, every sector has 512 bytes, and the tail of
  the free array from \<open>used_count\<close> on lists every unused sector exactly once.
\<close>

definition vd_inv :: "vdisk \<Rightarrow> bool" where
  "vd_inv d \<longleftrightarrow>
     length (sectors d) = vsize d \<and> length (vused d) = vsize d \<and> length (vfree d) = vsize d \<and>
     used_count d \<le> vsize d \<and>
     (\<forall>s\<in>set (sectors d). length s = FS_SECTOR_SIZE) \<and> (\<forall>i. length (fresh d i) = FS_SECTOR_SIZE) \<and>
     distinct (drop (used_count d) (vfree d)) \<and>
     set (drop (used_count d) (vfree d)) = {i. i < vsize d \<and> \<not> vused d ! i}"

text \<open>The view of a disk that matters to its clients: the contents of the sectors in use.\<close>

definition vd_view :: "vdisk \<Rightarrow> nat \<Rightarrow> byte list option" where
  "vd_view d i = (if i < vsize d \<and> vused d ! i then Some (sectors d ! i) else None)"

lemma vd_inv_create:
  "(\<And>i. length (junk i) = FS_SECTOR_SIZE) \<Longrightarrow> vd_inv (vdisk_create junk n)"
  by (auto simp: vd_inv_def vdisk_create_def)

lemma vd_view_create: "vd_view (vdisk_create junk n) = Map.empty"
  by (auto simp: vd_view_def vdisk_create_def fun_eq_iff)

lemma vd_inv_extend: "vd_inv d \<Longrightarrow> vd_inv (snd (vdisk_extend d n))"
  by (auto simp: vd_inv_def vdisk_extend_def nth_append)

lemma vd_view_extend: "vd_inv d \<Longrightarrow> vd_view (snd (vdisk_extend d n)) = vd_view d"
  by (auto simp: vd_inv_def vdisk_extend_def vd_view_def nth_append fun_eq_iff)

lemma vd_card_unused:
  assumes "vd_inv d"
  shows "card {i. i < vsize d \<and> \<not> vused d ! i} = vsize d - used_count d"
  using assms distinct_card [of "drop (used_count d) (vfree d)"]
  by (auto simp: vd_inv_def)

text \<open>A used sector means the count is not zero: the decrement cannot wrap.\<close>

lemma vd_used_pos:
  assumes inv: "vd_inv d" and i: "i < vsize d" "vused d ! i"
  shows "0 < used_count d"
proof -
  have "{j. j < vsize d \<and> \<not> vused d ! j} \<subset> {..<vsize d}"
    using i by auto
  then have "card {j. j < vsize d \<and> \<not> vused d ! j} < card {..<vsize d}"
    by (rule psubset_card_mono [rotated]) simp
  then show ?thesis
    by (simp add: vd_card_unused [OF inv])
qed

text \<open>
  The sector the allocator hands out is unused and inside the disk; asking for it does not
  change what is stored.
\<close>

lemma vd_next_free:
  assumes "vd_inv d" and "used_count d < vsize d"
  shows "vfree d ! used_count d < vsize d \<and> \<not> vused d ! (vfree d ! used_count d)"
proof -
  have "drop (used_count d) (vfree d) = vfree d ! used_count d # drop (Suc (used_count d)) (vfree d)"
    using assms by (simp add: vd_inv_def Cons_nth_drop_Suc)
  then have "vfree d ! used_count d \<in> set (drop (used_count d) (vfree d))"
    by simp
  then show ?thesis
    using assms by (auto simp: vd_inv_def)
qed

lemma vd_get_unused:
  assumes "vd_inv d"
  obtains n d' where "vdisk_get_unused_sector d = Some (word_of_nat n, d')" "vd_inv d'"
    "vd_view d' = vd_view d" "used_count d' = used_count d" "used_count d' < vsize d'"
    "n = vfree d' ! used_count d'" "vsize d' \<le> max (vsize d) (used_count d + 1000)"
proof -
  define d' where "d' = (if used_count d \<ge> vsize d then snd (vdisk_extend d (vsize d + 1000)) else d)"
  have inv: "vd_inv d'" and view: "vd_view d' = vd_view d"
    using assms by (simp_all add: d'_def vd_inv_extend vd_view_extend)
  have cnt: "used_count d' = used_count d" "used_count d' < vsize d'"
    "vsize d' \<le> max (vsize d) (used_count d + 1000)"
    using assms by (auto simp: d'_def vdisk_extend_def vd_inv_def)
  have "vdisk_get_unused_sector d = Some (word_of_nat (vfree d' ! used_count d'), d')"
    using inv cnt(2) by (simp add: vdisk_get_unused_sector_def d'_def vd_inv_def Let_def)
  with inv view cnt show ?thesis
    by (intro that) auto
qed

lemma vd_note_used:
  assumes inv: "vd_inv d" and lt: "used_count d < vsize d"
    and nxt: "SID_SECTOR sid = vfree d ! used_count d"
  obtains d' where "vdisk_note_sector_used d sid = Some (0, d')" "vd_inv d'"
    "vd_view d' = (vd_view d)(SID_SECTOR sid \<mapsto> sectors d ! SID_SECTOR sid)"
    "vsize d' = vsize d" "used_count d' = Suc (used_count d)" "sectors d' = sectors d"
proof -
  let ?n = "vfree d ! used_count d"
  let ?d = "d\<lparr>vfree := (vfree d)[used_count d := 42], vused := (vused d)[?n := True],
               used_count := Suc (used_count d)\<rparr>"
  note n = vd_next_free [OF inv lt]
  have len: "length (vfree d) = vsize d" "length (vused d) = vsize d"
    using inv by (auto simp: vd_inv_def)
  have tail: "drop (used_count d) (vfree d) = ?n # drop (Suc (used_count d)) (vfree d)"
    using lt len by (simp add: Cons_nth_drop_Suc)
  have "vdisk_note_sector_used d sid = Some (0, ?d)"
    using n lt len by (simp add: vdisk_note_sector_used_def nxt)
  moreover have "set (drop (Suc (used_count d)) (vfree d)) =
      {i. i < vsize d \<and> \<not> vused d ! i} - {?n}"
    using inv by (auto simp: vd_inv_def tail)
  then have "vd_inv ?d"
    using inv lt n by (auto simp: vd_inv_def tail nth_list_update)
  moreover have "vd_view ?d = (vd_view d)(SID_SECTOR sid \<mapsto> sectors d ! SID_SECTOR sid)"
    using n len by (auto simp: vd_view_def fun_eq_iff nxt nth_list_update)
  ultimately show ?thesis
    by (intro that [of ?d]) auto
qed

lemma vd_note_unused:
  assumes inv: "vd_inv d" and used: "vd_view d (SID_SECTOR sid) = Some data"
  obtains d' where "vdisk_note_sector_unused d sid = Some (0, d')" "vd_inv d'"
    "vd_view d' = (vd_view d)(SID_SECTOR sid := None)" "vsize d' = vsize d"
    "used_count d' = used_count d - 1"
proof -
  let ?n = "SID_SECTOR sid" and ?c = "used_count d - Suc 0"
  let ?d = "d\<lparr>used_count := ?c, vfree := (vfree d)[?c := ?n], vused := (vused d)[?n := False]\<rparr>"
  have n: "?n < vsize d" "vused d ! ?n"
    using used by (auto simp: vd_view_def split: if_splits)
  note pos = vd_used_pos [OF inv n]
  have len: "length (vfree d) = vsize d" "length (vused d) = vsize d" "used_count d \<le> vsize d"
    using inv by (auto simp: vd_inv_def)
  have tail: "drop ?c ((vfree d)[?c := ?n]) = ?n # drop (used_count d) (vfree d)"
    using pos len by (subst Cons_nth_drop_Suc [symmetric]) auto
  have "?n \<notin> set (drop (used_count d) (vfree d))"
    using inv n by (auto simp: vd_inv_def)
  then have "vd_inv ?d"
    using inv n pos by (auto simp: vd_inv_def tail nth_list_update)
  moreover have "vdisk_note_sector_unused d sid = Some (0, ?d)"
    using n pos len by (simp add: vdisk_note_sector_unused_def)
  moreover have "vd_view ?d = (vd_view d)(?n := None)"
    using n len by (auto simp: vd_view_def fun_eq_iff nth_list_update)
  ultimately show ?thesis
    by (intro that [of ?d]) auto
qed

lemma vd_write:
  assumes inv: "vd_inv d" and len: "length data = FS_SECTOR_SIZE"
  shows "vd_inv (snd (vdisk_write_sector d sid data))"
    and "vd_view (snd (vdisk_write_sector d sid data)) =
      (if vd_view d (SID_SECTOR sid) = None then vd_view d
       else (vd_view d)(SID_SECTOR sid \<mapsto> data))"
    and "vsize (snd (vdisk_write_sector d sid data)) = vsize d"
    and "used_count (snd (vdisk_write_sector d sid data)) = used_count d"
  using assms set_update_subset_insert [of "sectors d" "SID_SECTOR sid" data]
  by (auto simp: vd_inv_def vdisk_write_sector_def vd_view_def fun_eq_iff nth_list_update)

lemma vd_view_length:
  "vd_inv d \<Longrightarrow> vd_view d i = Some data \<Longrightarrow> length data = FS_SECTOR_SIZE"
  by (auto simp: vd_inv_def vd_view_def split: if_splits)

lemma vd_view_used: "vd_inv d \<Longrightarrow> vd_view d (SID_SECTOR sid) = Some data \<Longrightarrow>
   vdisk_is_sector_used d sid = Some True \<and> vdisk_load_sector d sid = Some data"
  by (auto simp: vd_inv_def vd_view_def vdisk_is_sector_used_def vdisk_load_sector_def
      split: if_splits)

end
