(* ===== verification/Filesys.thy ===== *)
theory Filesys
  imports Vdisk
begin

text \<open>
  The table of mounted disks (\<open>filesys.c\<close>, \<open>fstools.c\<close>) and the initialisation of one sector
  (\<open>ctr_init.c\<close>).  The abstraction is \<open>fs_view\<close>: the map from sector identifiers to the contents
  of the sectors in use; every operation on the disks is a map update under it.

  The table has 256 slots and is indexed with a \<open>uint8_t\<close>, so it is a function of a byte: slot
  \<open>dev - 1\<close> with the byte's wrap-around, as in \<open>fs_get_vdisk\<close>.  A \<open>vdisk_t *\<close> that a function
  keeps across calls is the slot it came from.
\<close>

section \<open>The table of disks\<close>

record filesys =
  fs_vdisk :: "byte \<Rightarrow> vdisk option"
  vdisk_count :: nat

definition fs_create :: filesys where
  "fs_create = \<lparr>fs_vdisk = (\<lambda>_. None), vdisk_count = 0\<rparr>"

definition fs_get_vdisk :: "filesys \<Rightarrow> byte \<Rightarrow> vdisk option" where
  "fs_get_vdisk fs device_id = fs_vdisk fs (device_id - 1)"

text \<open>Writing through the disk pointer that \<open>fs_get_vdisk\<close> returned.\<close>

definition fs_put_vdisk :: "filesys \<Rightarrow> byte \<Rightarrow> vdisk \<Rightarrow> filesys" where
  "fs_put_vdisk fs device_id d = fs\<lparr>fs_vdisk := (fs_vdisk fs)(device_id - 1 := Some d)\<rparr>"

definition fs_mount_vdisk :: "filesys \<Rightarrow> vdisk \<Rightarrow> byte \<Rightarrow> int \<times> filesys" where
  "fs_mount_vdisk fs d device_id =
     (if fs_vdisk fs (device_id - 1) \<noteq> None then (-1, fs)
      else (uint device_id,
            fs\<lparr>fs_vdisk := (fs_vdisk fs)(device_id - 1 := Some d),
               vdisk_count := Suc (vdisk_count fs)\<rparr>))"

text \<open>The disk number of a sector identifier, converted to the \<open>uint8_t\<close> parameter.\<close>

definition sid_dev :: "u32 \<Rightarrow> byte" where
  "sid_dev sid = ucast (SID_DISK sid)"

lemma sid_dev_format: "n < 2 ^ 24 \<Longrightarrow> sid_dev (SID_FORMAT (ucast dev) (word_of_nat n)) = dev"
  by (simp add: sid_dev_def SID_DISK_FORMAT)

lemma SID_DISK_sid_dev: "SID_DISK sid = ucast (sid_dev sid)"
  by (rule bit_word_eqI) (auto simp: sid_dev_def SID_DISK_def bit_simps dest: bit_imp_le_length)

lemma sid_eqI: "sid_dev a = sid_dev b \<Longrightarrow> SID_SECTOR a = SID_SECTOR b \<Longrightarrow> a = b"
  by (rule SID_inject) (simp_all add: SID_DISK_sid_dev)

lemma fs_get_put [simp]:
  "fs_get_vdisk (fs_put_vdisk fs dev d) dev' = (if dev' = dev then Some d else fs_get_vdisk fs dev')"
  by (auto simp: fs_get_vdisk_def fs_put_vdisk_def)

lemma fs_put_put [simp]: "fs_put_vdisk (fs_put_vdisk fs dev d) dev d' = fs_put_vdisk fs dev d'"
  by (simp add: fs_put_vdisk_def)

section \<open>The view and the invariant\<close>

definition fs_view :: "filesys \<Rightarrow> u32 \<Rightarrow> byte list option" where
  "fs_view fs sid =
     (case fs_get_vdisk fs (sid_dev sid) of None \<Rightarrow> None | Some d \<Rightarrow> vd_view d (SID_SECTOR sid))"

text \<open>A sector number has 24 bits, so a disk of more than \<open>2^24\<close> sectors could not be addressed.\<close>

definition fs_inv :: "filesys \<Rightarrow> bool" where
  "fs_inv fs \<longleftrightarrow> (\<forall>dev d. fs_get_vdisk fs dev = Some d \<longrightarrow> vd_inv d \<and> vsize d \<le> 2 ^ 24)"

text \<open>The disk can take \<open>n\<close> more sectors, growing by 1000 at a time when it has to.\<close>

definition fs_room :: "filesys \<Rightarrow> byte \<Rightarrow> nat \<Rightarrow> bool" where
  "fs_room fs dev n \<longleftrightarrow>
     (case fs_get_vdisk fs dev of None \<Rightarrow> False | Some d \<Rightarrow> used_count d + n + 1000 \<le> 2 ^ 24)"

lemma fs_room_mono: "fs_room fs dev n \<Longrightarrow> m \<le> n \<Longrightarrow> fs_room fs dev m"
  by (auto simp: fs_room_def split: option.splits)

lemma fs_room_put:
  "fs_get_vdisk fs dev = Some d \<Longrightarrow> used_count d' \<le> used_count d \<Longrightarrow> fs_room fs dv k \<Longrightarrow>
   fs_room (fs_put_vdisk fs dev d') dv k"
  by (auto simp: fs_room_def split: option.splits)

lemma fs_inv_create: "fs_inv fs_create"
  by (simp add: fs_inv_def fs_create_def fs_get_vdisk_def)

lemma fs_view_create: "fs_view fs_create = Map.empty"
  by (simp add: fs_view_def fs_create_def fs_get_vdisk_def fun_eq_iff)

lemma fs_inv_put: "fs_inv fs \<Longrightarrow> vd_inv d \<Longrightarrow> vsize d \<le> 2 ^ 24 \<Longrightarrow> fs_inv (fs_put_vdisk fs dev d)"
  by (auto simp: fs_inv_def)

lemma fs_inv_get:
  "fs_inv fs \<Longrightarrow> fs_get_vdisk fs dev = Some d \<Longrightarrow> vd_inv d \<and> vsize d \<le> 2 ^ 24"
  by (simp add: fs_inv_def)

lemma fs_view_put_upd:
  assumes "fs_get_vdisk fs (sid_dev sid) = Some d"
    and "vd_view d' = (vd_view d)(SID_SECTOR sid := v)"
  shows "fs_view (fs_put_vdisk fs (sid_dev sid) d') = (fs_view fs)(sid := v)"
proof (rule ext)
  fix a
  show "fs_view (fs_put_vdisk fs (sid_dev sid) d') a = ((fs_view fs)(sid := v)) a"
    using assms sid_eqI [of a sid] by (auto simp: fs_view_def)
qed

lemma fs_view_put_same:
  "fs_get_vdisk fs dev = Some d \<Longrightarrow> vd_view d' = vd_view d \<Longrightarrow>
   fs_view (fs_put_vdisk fs dev d') = fs_view fs"
  by (auto simp: fs_view_def fun_eq_iff)

lemma fs_view_SomeD:
  assumes "fs_inv fs" and "fs_view fs sid = Some data"
  obtains d where "fs_get_vdisk fs (sid_dev sid) = Some d" "vd_inv d" "vsize d \<le> 2 ^ 24"
    "vd_view d (SID_SECTOR sid) = Some data" "vdisk_is_sector_used d sid = Some True"
    "vdisk_load_sector d sid = Some data" "SID_SECTOR sid < vsize d" "length data = FS_SECTOR_SIZE"
proof -
  from assms(2) obtain d where d: "fs_get_vdisk fs (sid_dev sid) = Some d"
    "vd_view d (SID_SECTOR sid) = Some data"
    by (auto simp: fs_view_def split: option.splits)
  with assms(1) have inv: "vd_inv d" "vsize d \<le> 2 ^ 24"
    by (auto dest: fs_inv_get)
  show ?thesis
    using that [OF d(1) inv d(2)] vd_view_used [OF inv(1) d(2)] vd_view_length [OF inv(1) d(2)]
      d(2) by (auto simp: vd_view_def split: if_splits)
qed

lemma fs_view_length: "fs_inv fs \<Longrightarrow> fs_view fs sid = Some data \<Longrightarrow> length data = FS_SECTOR_SIZE"
  by (erule fs_view_SomeD)

lemma vdisk_read_view:
  assumes "vdisk_load_sector d sid = Some data" and "length data = length buf"
  shows "vdisk_read_sector d sid buf = (0, data)"
  using assms by (auto simp: vdisk_load_sector_def vdisk_read_sector_def mwrite_all split: if_splits)

section \<open>Initialising a sector\<close>

definition SF_HEAD :: byte where "SF_HEAD = 1"
definition SF_LOCA :: byte where "SF_LOCA = 2"
definition SF_CORE :: byte where "SF_CORE = 3"

lemmas sf_defs = SF_HEAD_def SF_LOCA_def SF_CORE_def

definition blank :: "byte \<Rightarrow> byte list" where
  "blank type = (replicate FS_SECTOR_SIZE 0)[0 := type]"

definition fs_cnt_init_sector :: "vdisk \<Rightarrow> u32 \<Rightarrow> byte \<Rightarrow> (int \<times> vdisk) option" where
  "fs_cnt_init_sector d sid type = do {
     u \<leftarrow> vdisk_is_sector_used d sid;
     if u then Some (1, d)
     else do {
       (_, d) \<leftarrow> vdisk_note_sector_used d sid;
       Some (0, snd (vdisk_write_sector d sid (blank type)))
     }
   }"

lemma length_blank [simp]: "length (blank type) = FS_SECTOR_SIZE"
  by (simp add: blank_def)

lemma blank_0 [simp]: "blank type ! 0 = type"
  by (simp add: blank_def FS_SECTOR_SIZE_def)

lemma get32_blank: "4 \<le> p \<Longrightarrow> p + 4 \<le> FS_SECTOR_SIZE \<Longrightarrow> get32 (blank type) p = 0"
  by (simp add: blank_def get32_def mread_def of_le32_def drop_update_cancel)

text \<open>
  The code's way to take a sector: ask for an unused one, build its identifier, note it used.
  Under the invariant nothing on the way panics and the identifier is new and not null.
\<close>

lemma vd_take_sector:
  assumes inv: "vd_inv d" "vsize d \<le> 2 ^ 24" and room: "used_count d + 1000 \<le> 2 ^ 24"
    and dev: "dev \<noteq> 0"
  obtains n d1 d2 sid where "vdisk_get_unused_sector d = Some (word_of_nat n, d1)"
    "sid = SID_FORMAT (ucast dev) (word_of_nat n)" "sid_dev sid = dev" "SID_SECTOR sid = n" "sid \<noteq> 0"
    "word_of_nat n \<noteq> (-1 :: u32)" "vd_view d n = None" "vdisk_is_sector_used d1 sid = Some False"
    "vdisk_note_sector_used d1 sid = Some (0, d2)" "vd_inv d2" "vsize d2 \<le> 2 ^ 24"
    "vd_view d2 = (vd_view d)(n \<mapsto> sectors d2 ! n)" "used_count d2 = Suc (used_count d)"
    "vd_inv d1" "vsize d1 \<le> 2 ^ 24" "vd_view d1 = vd_view d" "used_count d1 = used_count d"
proof -
  obtain n d1 where g: "vdisk_get_unused_sector d = Some (word_of_nat n, d1)" "vd_inv d1"
    "vd_view d1 = vd_view d" "used_count d1 = used_count d" "used_count d1 < vsize d1"
    "n = vfree d1 ! used_count d1" "vsize d1 \<le> max (vsize d) (used_count d + 1000)"
    using vd_get_unused [OF inv(1)] .
  have size: "vsize d1 \<le> 2 ^ 24"
    using g(7) inv(2) room by simp
  have n: "n < vsize d1" "\<not> vused d1 ! n"
    using vd_next_free [OF g(2,5)] g(6) by auto
  then have n24: "n < 2 ^ 24"
    using size by linarith
  define sid where "sid = SID_FORMAT (ucast dev) (word_of_nat n)"
  have sid: "sid_dev sid = dev" "SID_SECTOR sid = n"
    using n24 by (simp_all add: sid_def sid_dev_format SID_SECTOR_FORMAT)
  have nz: "sid \<noteq> 0"
    using sid(1) dev by (auto simp: sid_dev_def SID_DISK_def)
  have "unat (word_of_nat n :: u32) < 2 ^ 24"
    using n24 by (simp add: unat_word_of_nat)
  moreover have "unat (-1 :: u32) = 2 ^ 32 - 1"
    by (simp add: unsigned_minus_1_eq_mask mask_eq_exp_minus_1)
  ultimately have m1: "word_of_nat n \<noteq> (-1 :: u32)"
    by (intro notI) simp
  obtain d2 where d2: "vdisk_note_sector_used d1 sid = Some (0, d2)" "vd_inv d2"
    "vd_view d2 = (vd_view d1)(SID_SECTOR sid \<mapsto> sectors d1 ! SID_SECTOR sid)"
    "vsize d2 = vsize d1" "used_count d2 = Suc (used_count d1)" "sectors d2 = sectors d1"
    using vd_note_used [OF g(2,5), of sid] sid(2) g(6) by auto
  have "vd_view d n = None"
    using n g(3) by (metis vd_view_def)
  moreover have "vdisk_is_sector_used d1 sid = Some False"
    using n sid(2) g(2) by (simp add: vdisk_is_sector_used_def vd_inv_def)
  ultimately show ?thesis
    using that [OF g(1) sid_def sid nz m1 _ _ d2(1,2)] d2 g size sid(2) by simp
qed

lemma vd_init_sector:
  assumes "vdisk_is_sector_used d1 sid = Some False" and "vdisk_note_sector_used d1 sid = Some (0, d2)"
    and "vd_inv d2" and "vd_view d2 = v(SID_SECTOR sid \<mapsto> x)"
  obtains d3 where "fs_cnt_init_sector d1 sid type = Some (0, d3)" "vd_inv d3"
    "vd_view d3 = v(SID_SECTOR sid \<mapsto> blank type)" "vsize d3 = vsize d2" "used_count d3 = used_count d2"
proof (rule that)
  let ?d = "snd (vdisk_write_sector d2 sid (blank type))"
  show "fs_cnt_init_sector d1 sid type = Some (0, ?d)"
    using assms by (simp add: fs_cnt_init_sector_def)
qed (use assms in \<open>auto simp: vd_write\<close>)

section \<open>The disk through a pointer kept across calls\<close>

definition get_unused_at :: "filesys \<Rightarrow> byte \<Rightarrow> (u32 \<times> filesys) option" where
  "get_unused_at fs dev = do {
     d \<leftarrow> fs_get_vdisk fs dev;
     (n, d) \<leftarrow> vdisk_get_unused_sector d;
     Some (n, fs_put_vdisk fs dev d)
   }"

definition init_sector_at :: "filesys \<Rightarrow> byte \<Rightarrow> u32 \<Rightarrow> byte \<Rightarrow> (int \<times> filesys) option" where
  "init_sector_at fs dev sid type = do {
     d \<leftarrow> fs_get_vdisk fs dev;
     (r, d) \<leftarrow> fs_cnt_init_sector d sid type;
     Some (r, fs_put_vdisk fs dev d)
   }"

definition note_unused_at :: "filesys \<Rightarrow> byte \<Rightarrow> u32 \<Rightarrow> (int \<times> filesys) option" where
  "note_unused_at fs dev sid = do {
     d \<leftarrow> fs_get_vdisk fs dev;
     (r, d) \<leftarrow> vdisk_note_sector_unused d sid;
     Some (r, fs_put_vdisk fs dev d)
   }"

definition unload_at :: "filesys \<Rightarrow> byte \<Rightarrow> u32 \<Rightarrow> byte list \<Rightarrow> bool \<Rightarrow> filesys option" where
  "unload_at fs dev sid data save = do {
     d \<leftarrow> fs_get_vdisk fs dev;
     Some (fs_put_vdisk fs dev (snd (vdisk_unload_sector d sid data save)))
   }"

section \<open>The interface: a store of sectors\<close>

text \<open>
  What the container code needs of the disks.  \<open>room s dev k\<close> says that the disk can take \<open>k\<close>
  more sectors; \<open>get\<close> followed by \<open>init\<close> takes one that nobody uses, \<open>release\<close> gives one
  back, \<open>save\<close> overwrites one, and nothing else in the view changes.
\<close>

text \<open>Taking \<open>n\<close> sectors, as the loops of the code do.\<close>

fun take_many ::
  "('s \<Rightarrow> byte \<Rightarrow> (u32 \<times> 's) option) \<Rightarrow> ('s \<Rightarrow> byte \<Rightarrow> u32 \<Rightarrow> byte \<Rightarrow> (int \<times> 's) option) \<Rightarrow>
   byte \<Rightarrow> byte \<Rightarrow> nat \<Rightarrow> 's \<Rightarrow> (u32 list \<times> 's) option" where
  "take_many get init dev type 0 s = Some ([], s)"
| "take_many get init dev type (Suc n) s = do {
     (r, s) \<leftarrow> get s dev;
     (_, s) \<leftarrow> init s dev (SID_FORMAT (ucast dev) r) type;
     (cs, s) \<leftarrow> take_many get init dev type n s;
     Some (SID_FORMAT (ucast dev) r # cs, s)
   }"

locale sector_store =
  fixes inv :: "'s \<Rightarrow> bool"
    and view :: "'s \<Rightarrow> u32 \<Rightarrow> byte list option"
    and room :: "'s \<Rightarrow> byte \<Rightarrow> nat \<Rightarrow> bool"
    and get :: "'s \<Rightarrow> byte \<Rightarrow> (u32 \<times> 's) option"
    and init :: "'s \<Rightarrow> byte \<Rightarrow> u32 \<Rightarrow> byte \<Rightarrow> (int \<times> 's) option"
    and release :: "'s \<Rightarrow> byte \<Rightarrow> u32 \<Rightarrow> (int \<times> 's) option"
    and save :: "'s \<Rightarrow> byte \<Rightarrow> u32 \<Rightarrow> byte list \<Rightarrow> 's option"
  assumes take_one: "inv s \<Longrightarrow> room s dev (Suc k) \<Longrightarrow> dev \<noteq> 0 \<Longrightarrow>
      \<exists>r s1 s2 sid. get s dev = Some (r, s1) \<and> sid = SID_FORMAT (ucast dev) r \<and>
        init s1 dev sid type = Some (0, s2) \<and> inv s2 \<and> view s2 = (view s)(sid \<mapsto> blank type) \<and>
        room s2 dev k \<and> view s sid = None \<and> sid \<noteq> 0 \<and> sid_dev sid = dev"
    and release_one: "inv s \<Longrightarrow> view s sid = Some data \<Longrightarrow>
      \<exists>s'. release s (sid_dev sid) sid = Some (0, s') \<and> inv s' \<and> view s' = (view s)(sid := None) \<and>
        (\<forall>dev k. room s dev k \<longrightarrow> room s' dev k)"
    and save_one: "inv s \<Longrightarrow> view s sid = Some old \<Longrightarrow> length data = FS_SECTOR_SIZE \<Longrightarrow>
      \<exists>s'. save s (sid_dev sid) sid data = Some s' \<and> inv s' \<and> view s' = (view s)(sid \<mapsto> data) \<and>
        (\<forall>dev k. room s dev k \<longrightarrow> room s' dev k)"
begin

lemma take_many_fresh:
  assumes "inv s" and "room s dev (n + k)" and "dev \<noteq> 0"
  shows "\<exists>cs s'. take_many get init dev type n s = Some (cs, s') \<and> inv s' \<and> room s' dev k \<and>
    length cs = n \<and> distinct cs \<and> 0 \<notin> set cs \<and> (\<forall>c\<in>set cs. view s c = None \<and> sid_dev c = dev) \<and>
    view s' = (\<lambda>c. if c \<in> set cs then Some (blank type) else view s c)"
  using assms
proof (induction n arbitrary: s)
  case 0
  then show ?case by auto
next
  case (Suc n)
  from Suc.prems obtain r s1 s2 where one: "get s dev = Some (r, s1)"
    "init s1 dev (SID_FORMAT (ucast dev) r) type = Some (0, s2)" "inv s2" "room s2 dev (n + k)"
    and new: "view s2 = (view s)(SID_FORMAT (ucast dev) r \<mapsto> blank type)"
      "view s (SID_FORMAT (ucast dev) r) = None" "SID_FORMAT (ucast dev) r \<noteq> 0"
      "sid_dev (SID_FORMAT (ucast dev) r) = dev"
    using take_one [of s dev "n + k" type] by auto
  from Suc.IH [OF one(3,4) Suc.prems(3)] obtain cs s' where
    rest: "take_many get init dev type n s2 = Some (cs, s')" "inv s'" "room s' dev k" "length cs = n"
      "distinct cs" "0 \<notin> set cs" "\<forall>c\<in>set cs. view s2 c = None \<and> sid_dev c = dev"
      "view s' = (\<lambda>c. if c \<in> set cs then Some (blank type) else view s2 c)"
    by blast
  let ?cs = "SID_FORMAT (ucast dev) r # cs"
  have "take_many get init dev type (Suc n) s = Some (?cs, s')"
    using one rest(1) by simp
  moreover have "view s' = (\<lambda>c. if c \<in> set ?cs then Some (blank type) else view s c)"
    using rest(7,8) new by (auto simp: fun_eq_iff)
  moreover have "distinct ?cs \<and> (\<forall>c\<in>set ?cs. view s c = None \<and> sid_dev c = dev)"
    using rest(5,7) new by (auto split: if_splits)
  ultimately show ?case
    using rest new(3) by (intro exI [of _ ?cs] exI [of _ s']) auto
qed

end

interpretation disks: sector_store fs_inv fs_view fs_room get_unused_at init_sector_at note_unused_at
  "\<lambda>fs dev sid data. unload_at fs dev sid data True"
proof (unfold_locales, goal_cases)
  case (1 fs dev k type)
  from 1(2) obtain d where d: "fs_get_vdisk fs dev = Some d" "used_count d + Suc k + 1000 \<le> 2 ^ 24"
    by (auto simp: fs_room_def split: option.splits)
  then have inv: "vd_inv d" "vsize d \<le> 2 ^ 24" "used_count d + 1000 \<le> 2 ^ 24"
    using fs_inv_get [OF 1(1) d(1)] by auto
  obtain n d1 d2 sid where t: "vdisk_get_unused_sector d = Some (word_of_nat n, d1)"
    "sid = SID_FORMAT (ucast dev) (word_of_nat n)" "sid_dev sid = dev" "SID_SECTOR sid = n" "sid \<noteq> 0"
    "vd_view d n = None" "vdisk_is_sector_used d1 sid = Some False"
    "vdisk_note_sector_used d1 sid = Some (0, d2)" "vd_inv d2" "vsize d2 \<le> 2 ^ 24"
    "vd_view d2 = (vd_view d)(n \<mapsto> sectors d2 ! n)" "used_count d2 = Suc (used_count d)"
    by (rule vd_take_sector [OF inv 1(3)]) blast
  obtain d3 where d3: "fs_cnt_init_sector d1 sid type = Some (0, d3)" "vd_inv d3"
    "vd_view d3 = (vd_view d)(SID_SECTOR sid \<mapsto> blank type)" "vsize d3 = vsize d2"
    "used_count d3 = used_count d2"
    by (rule vd_init_sector [OF t(7,8,9), of "vd_view d" _ type]) (use t(4,11) in auto)
  have "fs_view (fs_put_vdisk fs dev d3) = (fs_view fs)(sid \<mapsto> blank type)"
    using fs_view_put_upd [of fs sid d d3] d(1) d3(3) t(3) by simp
  moreover have "fs_view fs sid = None"
    using d(1) t(3,4,6) by (simp add: fs_view_def)
  ultimately show ?case
    using d t d3 1(1)
    by (intro exI [of _ "word_of_nat n"] exI [of _ "fs_put_vdisk fs dev d1"]
        exI [of _ "fs_put_vdisk fs dev d3"] exI [of _ sid])
      (auto simp: get_unused_at_def init_sector_at_def fs_inv_put fs_room_def)
next
  case (2 fs sid data)
  from fs_view_SomeD [OF 2] obtain d where d: "fs_get_vdisk fs (sid_dev sid) = Some d" "vd_inv d"
    "vsize d \<le> 2 ^ 24" "vd_view d (SID_SECTOR sid) = Some data"
    by blast
  from vd_note_unused [OF d(2,4)] obtain d' where d': "vdisk_note_sector_unused d sid = Some (0, d')"
    "vd_inv d'" "vd_view d' = (vd_view d)(SID_SECTOR sid := None)" "vsize d' = vsize d"
    "used_count d' = used_count d - 1"
    by blast
  show ?case
    using d d' fs_view_put_upd [OF d(1) d'(3)] 2(1)
    by (intro exI [of _ "fs_put_vdisk fs (sid_dev sid) d'"])
      (auto simp: note_unused_at_def fs_inv_put fs_room_def split: option.splits)
next
  case (3 fs sid old data)
  from fs_view_SomeD [OF 3(1,2)] obtain d where d: "fs_get_vdisk fs (sid_dev sid) = Some d" "vd_inv d"
    "vsize d \<le> 2 ^ 24" "vd_view d (SID_SECTOR sid) = Some old"
    by blast
  let ?d = "snd (vdisk_write_sector d sid data)"
  note w = vd_write [OF d(2) 3(3), of sid]
  show ?case
    using d w fs_view_put_upd [OF d(1), of ?d "Some data"] 3(1)
    by (intro exI [of _ "fs_put_vdisk fs (sid_dev sid) ?d"])
      (auto simp: unload_at_def vdisk_unload_sector_def fs_inv_put fs_room_def split: option.splits)
qed

end
