(* ===== verification/Container.thy ===== *)
theory Container
  imports Filesys
begin

text \<open>
  Containers: the files and directories of the file system as the disks store them
  (\<open>ctr_init.c\<close>, \<open>ctr_del.c\<close>, \<open>fs_cnt_get_size\<close> of \<open>ctr_size.c\<close>).  A container is a header
  sector, a chain of locator sectors and the core sectors the locators link.

  The header has the type in byte 0, the meta string from byte 1, the size at byte 65 and the
  first locator at byte 508; a locator has 126 links to cores from byte 4 and the next locator
  at byte 508; a core has 511 bytes of data from byte 1.
\<close>

definition META_MAXLEN :: nat where "META_MAXLEN = 64"
definition LAST_SID_OFFSET :: nat where "LAST_SID_OFFSET = FS_SECTOR_SIZE - 4"
definition LINKS_IN_LOCA :: nat where "LINKS_IN_LOCA = FS_SECTOR_SIZE div 4 - 2"
definition BYTE_IN_CORE :: nat where "BYTE_IN_CORE = FS_SECTOR_SIZE - 1"

lemmas layout = FS_SECTOR_SIZE_def META_MAXLEN_def LAST_SID_OFFSET_def LINKS_IN_LOCA_def
  BYTE_IN_CORE_def

definition links :: "byte list \<Rightarrow> u32 list" where
  "links data = map (\<lambda>i. get32 data ((i + 1) * 4)) [0..<LINKS_IN_LOCA]"

lemma length_links [simp]: "length (links data) = 126"
  by (simp add: links_def layout)

section \<open>Creation, meta string, size\<close>

text \<open>A C string argument is the list of its bytes before the terminating null byte.\<close>

definition fs_cnt_init :: "filesys \<Rightarrow> byte \<Rightarrow> byte list \<Rightarrow> (u32 \<times> filesys) option" where
  "fs_cnt_init fs device_id meta =
     (case fs_get_vdisk fs device_id of None \<Rightarrow> Some (SID_NULL, fs)
      | Some d \<Rightarrow> do {
          (ret, d) \<leftarrow> vdisk_get_unused_sector d;
          if ret = -1 then Some (SID_NULL, fs_put_vdisk fs device_id d)
          else do {
            let main_sid = SID_FORMAT (ucast device_id) ret;
            (_, d) \<leftarrow> vdisk_note_sector_used d main_sid;
            (ret, d) \<leftarrow> vdisk_get_unused_sector d;
            if ret = -1 then do {
              (_, d) \<leftarrow> vdisk_note_sector_unused d main_sid;
              Some (SID_NULL, fs_put_vdisk fs device_id d)
            }
            else do {
              let loca_sid = SID_FORMAT (SID_DISK main_sid) ret;
              (e, d) \<leftarrow> fs_cnt_init_sector d loca_sid SF_LOCA;
              if e \<noteq> 0 then do {
                (_, d) \<leftarrow> vdisk_note_sector_unused d main_sid;
                (_, d) \<leftarrow> vdisk_note_sector_unused d loca_sid;
                Some (SID_NULL, fs_put_vdisk fs device_id d)
              }
              else do {
                let data = blank SF_HEAD;
                let data = mwrite data 1 (take (min (length meta) (META_MAXLEN - 1)) meta);
                let data = put32 data LAST_SID_OFFSET loca_sid;
                Some (main_sid, fs_put_vdisk fs device_id (snd (vdisk_write_sector d main_sid data)))
              }
            }
          }
        })"

text \<open>
  The result \<open>None\<close> inside is the null pointer.  A new meta string is copied as 63 bytes, so
  the caller's buffer must have them.
\<close>

definition fs_cnt_meta ::
  "filesys \<Rightarrow> u32 \<Rightarrow> byte list option \<Rightarrow> (byte list option \<times> filesys) option" where
  "fs_cnt_meta fs sid meta =
     (case fs_get_vdisk fs (sid_dev sid) of None \<Rightarrow> Some (None, fs)
      | Some d \<Rightarrow>
          if SID_SECTOR sid \<ge> vsize d then Some (None, fs)
          else do {
            data \<leftarrow> vdisk_load_sector d sid;
            (data, meta) \<leftarrow> (case meta of
                Some m \<Rightarrow> if length m < META_MAXLEN - 1 then None
                          else Some (mwrite data 1 (take (META_MAXLEN - 1) m), m)
              | None \<Rightarrow> Some (data, mread data 1 (META_MAXLEN - 1) @ [0]));
            let (_, d) = vdisk_unload_sector d sid data True;
            Some (Some meta, fs_put_vdisk fs (sid_dev sid) d)
          })"

definition UINT32_MAX :: u32 where "UINT32_MAX = 0xffffffff"

definition fs_cnt_get_size :: "filesys \<Rightarrow> u32 \<Rightarrow> u32 option" where
  "fs_cnt_get_size fs head_sid =
     (case fs_get_vdisk fs (sid_dev head_sid) of None \<Rightarrow> Some UINT32_MAX
      | Some d \<Rightarrow> do {
          u \<leftarrow> vdisk_is_sector_used d head_sid;
          if \<not> u then Some UINT32_MAX
          else do {
            data \<leftarrow> vdisk_load_sector d head_sid;
            if data ! 0 \<noteq> SF_HEAD then Some UINT32_MAX
            else Some (get32 data (1 + META_MAXLEN))
          }
        })"

section \<open>Deletion\<close>

definition fs_cnt_delete_core :: "filesys \<Rightarrow> u32 \<Rightarrow> (int \<times> filesys) option" where
  "fs_cnt_delete_core fs core_sid =
     (case fs_get_vdisk fs (sid_dev core_sid) of None \<Rightarrow> Some (1, fs)
      | Some d \<Rightarrow> do {
          u \<leftarrow> vdisk_is_sector_used d core_sid;
          if \<not> u then Some (1, fs)
          else do {
            data \<leftarrow> vdisk_load_sector d core_sid;
            if data ! 0 \<noteq> SF_CORE then Some (1, fs)
            else do {
              (_, d) \<leftarrow> vdisk_note_sector_unused d core_sid;
              let (_, d) = vdisk_unload_sector d core_sid data True;
              Some (0, fs_put_vdisk fs (sid_dev core_sid) d)
            }
          }
        })"

text \<open>The loop over the links of a locator: it ends at the first null link.\<close>

fun delete_cores :: "filesys \<Rightarrow> u32 list \<Rightarrow> (int \<times> filesys) option" where
  "delete_cores fs [] = Some (0, fs)"
| "delete_cores fs (c # cs) =
     (if c = SID_NULL then Some (0, fs)
      else do {
        (r, fs) \<leftarrow> fs_cnt_delete_core fs c;
        if r \<noteq> 0 then Some (1, fs) else delete_cores fs cs
      })"

partial_function (option) fs_cnt_delete_loca_recur :: "filesys \<Rightarrow> u32 \<Rightarrow> (int \<times> filesys) option" where
  "fs_cnt_delete_loca_recur fs loca_sid =
     (case fs_get_vdisk fs (sid_dev loca_sid) of None \<Rightarrow> Some (1, fs)
      | Some d \<Rightarrow> do {
          u \<leftarrow> vdisk_is_sector_used d loca_sid;
          if \<not> u then Some (1, fs)
          else do {
            data \<leftarrow> vdisk_load_sector d loca_sid;
            if data ! 0 \<noteq> SF_LOCA then Some (1, fs)
            else do {
              (r, fs) \<leftarrow> delete_cores fs (links data);
              if r \<noteq> 0 then Some (1, fs)
              else do {
                let next_loca_sid = get32 data LAST_SID_OFFSET;
                (r, fs) \<leftarrow> (if next_loca_sid \<noteq> SID_NULL
                           then fs_cnt_delete_loca_recur fs next_loca_sid else Some (0, fs));
                if r \<noteq> 0 then Some (1, fs)
                else do {
                  (_, fs) \<leftarrow> note_unused_at fs (sid_dev loca_sid) loca_sid;
                  Some (0, fs)
                }
              }
            }
          }
        })"

definition fs_cnt_delete :: "filesys \<Rightarrow> u32 \<Rightarrow> (int \<times> filesys) option" where
  "fs_cnt_delete fs head_sid =
     (case fs_get_vdisk fs (sid_dev head_sid) of None \<Rightarrow> Some (1, fs)
      | Some d \<Rightarrow> do {
          u \<leftarrow> vdisk_is_sector_used d head_sid;
          if \<not> u then Some (1, fs)
          else do {
            data \<leftarrow> vdisk_load_sector d head_sid;
            if data ! 0 \<noteq> SF_HEAD then Some (1, fs)
            else do {
              let loca_sid = get32 data LAST_SID_OFFSET;
              (r, fs) \<leftarrow> (if loca_sid \<noteq> SID_NULL then fs_cnt_delete_loca_recur fs loca_sid
                         else Some (0, fs));
              if r \<noteq> 0 then Some (1, fs)
              else do {
                (_, fs) \<leftarrow> note_unused_at fs (sid_dev head_sid) head_sid;
                Some (0, fs)
              }
            }
          }
        })"

section \<open>What a container is\<close>

text \<open>
  The predicates are on the view (the map from sector identifiers to sector contents).
  \<open>loca_ok m l cs nxt\<close>: sector \<open>l\<close> is a locator with the cores \<open>cs\<close> and the next locator \<open>nxt\<close>.
  \<open>chain m first ls\<close>: \<open>ls\<close> is the chain of locators from \<open>first\<close> on, each with its cores;
  all but the last are full.
\<close>

type_synonym view = "u32 \<Rightarrow> byte list option"

definition loca_ok :: "view \<Rightarrow> u32 \<Rightarrow> u32 list \<Rightarrow> u32 \<Rightarrow> bool" where
  "loca_ok m l cs nxt \<longleftrightarrow>
     (\<exists>data. m l = Some data \<and> data ! 0 = SF_LOCA \<and> length cs \<le> 126 \<and> 0 \<notin> set cs \<and>
             links data = cs @ replicate (126 - length cs) 0 \<and> get32 data 508 = nxt)"

fun chain :: "view \<Rightarrow> u32 \<Rightarrow> (u32 \<times> u32 list) list \<Rightarrow> bool" where
  "chain m first [] \<longleftrightarrow> first = 0"
| "chain m first ((l, cs) # ls) \<longleftrightarrow>
     first = l \<and> l \<noteq> 0 \<and> (ls \<noteq> [] \<longrightarrow> length cs = 126) \<and>
     (\<exists>nxt. loca_ok m l cs nxt \<and> chain m nxt ls)"

definition core_ok :: "view \<Rightarrow> u32 \<Rightarrow> bool" where
  "core_ok m c \<longleftrightarrow> (\<exists>data. m c = Some data \<and> data ! 0 = SF_CORE)"

abbreviation cores :: "(u32 \<times> u32 list) list \<Rightarrow> u32 list" where
  "cores ls \<equiv> concat (map snd ls)"

abbreviation sids :: "(u32 \<times> u32 list) list \<Rightarrow> u32 list" where
  "sids ls \<equiv> map fst ls @ cores ls"

definition core_bytes :: "view \<Rightarrow> u32 \<Rightarrow> byte list" where
  "core_bytes m c = drop 1 (the (m c))"

definition cnt_bytes :: "view \<Rightarrow> u32 list \<Rightarrow> byte list" where
  "cnt_bytes m cs = concat (map (core_bytes m) cs)"

text \<open>
  \<open>container m head size ls\<close>: the header \<open>head\<close> records \<open>size\<close> and starts the chain \<open>ls\<close>; all
  sectors are different, on the same mounted disk, the cores are cores and there are enough of
  them for the size.
\<close>

definition container :: "view \<Rightarrow> u32 \<Rightarrow> nat \<Rightarrow> (u32 \<times> u32 list) list \<Rightarrow> bool" where
  "container m head n ls \<longleftrightarrow>
     (\<exists>data. m head = Some data \<and> data ! 0 = SF_HEAD \<and> unat (get32 data 65) = n \<and>
             chain m (get32 data 508) ls) \<and>
     ls \<noteq> [] \<and> distinct (head # sids ls) \<and> (\<forall>c\<in>set (cores ls). core_ok m c) \<and>
     (\<forall>s\<in>set (sids ls). sid_dev s = sid_dev head) \<and> sid_dev head \<noteq> 0 \<and>
     n \<le> 511 * length (cores ls)"

text \<open>
  The bound keeps every intermediate value of the read/write loops, which run on signed
  \<open>int\<close> positions up to one locator past the size, below \<open>2^31\<close>.
\<close>

definition cnt_max :: nat where "cnt_max = 2 ^ 31 - 2 ^ 16"

definition cnt_holds :: "filesys \<Rightarrow> u32 \<Rightarrow> (u32 \<times> u32 list) list \<Rightarrow> byte list \<Rightarrow> bool" where
  "cnt_holds fs head ls xs \<longleftrightarrow>
     fs_inv fs \<and> container (fs_view fs) head (length xs) ls \<and> length xs \<le> cnt_max \<and>
     take (length xs) (cnt_bytes (fs_view fs) (cores ls)) = xs"

subsection \<open>Frame rules\<close>

lemma loca_ok_cong: "m' l = m l \<Longrightarrow> loca_ok m' l cs nxt = loca_ok m l cs nxt"
  by (simp add: loca_ok_def)

lemma chain_cong: "(\<And>s. s \<in> set (map fst ls) \<Longrightarrow> m' s = m s) \<Longrightarrow> chain m' first ls = chain m first ls"
  by (induction m first ls rule: chain.induct) (auto simp: loca_ok_def)

lemma core_ok_cong: "m' c = m c \<Longrightarrow> core_ok m' c = core_ok m c"
  by (simp add: core_ok_def)

lemma cnt_bytes_cong: "(\<And>c. c \<in> set cs \<Longrightarrow> m' c = m c) \<Longrightarrow> cnt_bytes m' cs = cnt_bytes m cs"
  unfolding cnt_bytes_def core_bytes_def by (rule arg_cong [where f = concat]) simp

lemma cnt_bytes_Nil [simp]: "cnt_bytes m [] = []"
  by (simp add: cnt_bytes_def)

lemma cnt_bytes_Cons [simp]: "cnt_bytes m (c # cs) = core_bytes m c @ cnt_bytes m cs"
  by (simp add: cnt_bytes_def)

lemma cnt_bytes_append [simp]: "cnt_bytes m (cs @ cs') = cnt_bytes m cs @ cnt_bytes m cs'"
  by (simp add: cnt_bytes_def)

lemma container_cong:
  assumes "\<And>s. s \<in> set (head # sids ls) \<Longrightarrow> m' s = m s"
  shows "container m' head n ls = container m head n ls"
  using assms chain_cong [of ls m' m] core_ok_cong [of m'] unfolding container_def by auto

text \<open>A container is untouched by any change outside its own sectors.\<close>

lemma cnt_holds_frame:
  assumes "cnt_holds fs head ls xs" and "fs_inv fs'"
    and "\<And>s. s \<in> set (head # sids ls) \<Longrightarrow> fs_view fs' s = fs_view fs s"
  shows "cnt_holds fs' head ls xs"
  using assms container_cong [of head ls "fs_view fs'" "fs_view fs"]
    cnt_bytes_cong [of "cores ls" "fs_view fs'" "fs_view fs"]
  by (auto simp: cnt_holds_def)

lemma length_core_bytes:
  "fs_inv fs \<Longrightarrow> core_ok (fs_view fs) c \<Longrightarrow> length (core_bytes (fs_view fs) c) = 511"
  by (auto simp: core_ok_def core_bytes_def layout dest!: fs_view_length)

lemma length_cnt_bytes:
  "fs_inv fs \<Longrightarrow> \<forall>c\<in>set cs. core_ok (fs_view fs) c \<Longrightarrow>
   length (cnt_bytes (fs_view fs) cs) = 511 * length cs"
  by (induction cs) (auto simp: length_core_bytes)

section \<open>Reading the header\<close>

lemma cnt_holdsD:
  assumes "cnt_holds fs head ls xs"
  obtains data where "fs_inv fs" "fs_view fs head = Some data" "data ! 0 = SF_HEAD"
    "get32 data 65 = word_of_nat (length xs)" "chain (fs_view fs) (get32 data 508) ls" "ls \<noteq> []"
    "distinct (head # sids ls)" "\<forall>c\<in>set (cores ls). core_ok (fs_view fs) c"
    "\<forall>s\<in>set (sids ls). sid_dev s = sid_dev head" "sid_dev head \<noteq> 0"
    "length xs \<le> 511 * length (cores ls)" "length xs \<le> cnt_max"
    "take (length xs) (cnt_bytes (fs_view fs) (cores ls)) = xs" "length data = FS_SECTOR_SIZE"
proof -
  from assms obtain data where "fs_view fs head = Some data" "data ! 0 = SF_HEAD"
    "unat (get32 data 65) = length xs" "chain (fs_view fs) (get32 data 508) ls" "fs_inv fs"
    by (auto simp: cnt_holds_def container_def)
  moreover from this have "get32 data 65 = word_of_nat (length xs)"
    by (metis of_nat_unat ucast_id)
  ultimately show ?thesis
    using assms fs_view_length that by (auto simp: cnt_holds_def container_def)
qed

lemma get_size_holds:
  "cnt_holds fs head ls xs \<Longrightarrow> fs_cnt_get_size fs head = Some (word_of_nat (length xs))"
  by (erule cnt_holdsD, erule (1) fs_view_SomeD) (simp add: fs_cnt_get_size_def layout)

lemma size_not_max: "n \<le> cnt_max \<Longrightarrow> word_of_nat n \<noteq> UINT32_MAX"
proof
  assume n: "n \<le> cnt_max" and "word_of_nat n = UINT32_MAX"
  then have "unat (word_of_nat n :: u32) = unat UINT32_MAX"
    by simp
  with n show False
    by (simp add: unat_word_of_nat cnt_max_def UINT32_MAX_def)
qed

text \<open>The meta string read back: 63 bytes and a null byte.  Reading it changes nothing.\<close>

definition meta_of :: "byte list \<Rightarrow> byte list" where
  "meta_of data = mread data 1 63 @ [0]"

lemma meta_holds:
  assumes "fs_inv fs" and "fs_view fs sid = Some data"
  obtains fs' where "fs_cnt_meta fs sid None = Some (Some (meta_of data), fs')" "fs_inv fs'"
    "fs_view fs' = fs_view fs" "\<And>dev k. fs_room fs' dev k = fs_room fs dev k"
proof -
  from fs_view_SomeD [OF assms] obtain d where d: "fs_get_vdisk fs (sid_dev sid) = Some d" "vd_inv d"
    "vsize d \<le> 2 ^ 24" "vd_view d (SID_SECTOR sid) = Some data" "SID_SECTOR sid < vsize d"
    "vdisk_load_sector d sid = Some data" "length data = FS_SECTOR_SIZE"
    by blast
  let ?d = "snd (vdisk_write_sector d sid data)"
  note w = vd_write [OF d(2,7), of sid]
  have "fs_cnt_meta fs sid None = Some (Some (meta_of data), fs_put_vdisk fs (sid_dev sid) ?d)"
    using d by (simp add: fs_cnt_meta_def vdisk_unload_sector_def meta_of_def layout)
  moreover have "vd_view ?d = vd_view d"
    using w(2) d(4) by (simp add: fun_upd_idem)
  ultimately show ?thesis
    using d w assms(1)
    by (intro that [of "fs_put_vdisk fs (sid_dev sid) ?d"])
      (auto simp: fs_inv_put fs_room_def fs_view_put_same)
qed

section \<open>A new container\<close>

lemma links_blank: "links (blank type) = replicate 126 0"
  by (simp add: links_def layout get32_blank map_replicate_trivial
      list_eq_iff_nth_eq)

text \<open>The header that \<open>fs_cnt_init\<close> writes.\<close>

definition new_head :: "byte list \<Rightarrow> u32 \<Rightarrow> byte list" where
  "new_head meta loca = put32 (mwrite (blank SF_HEAD) 1 (take 63 meta)) 508 loca"

lemma new_head_fields:
  "length (new_head meta loca) = 512" "new_head meta loca ! 0 = SF_HEAD"
  "get32 (new_head meta loca) 65 = 0" "get32 (new_head meta loca) 508 = loca"
proof -
  let ?h = "mwrite (blank SF_HEAD) 1 (take 63 meta)"
  have len: "length ?h = 512"
    by (simp add: FS_SECTOR_SIZE_def)
  then show "length (new_head meta loca) = 512" "get32 (new_head meta loca) 508 = loca"
    by (simp_all add: new_head_def mem_simps)
  show "new_head meta loca ! 0 = SF_HEAD"
    using len by (simp add: new_head_def mem_simps nth_mwrite FS_SECTOR_SIZE_def)
  show "get32 (new_head meta loca) 65 = 0"
    using len by (simp add: new_head_def mem_simps get32_blank FS_SECTOR_SIZE_def)
qed

lemma meta_of_new_head:
  "meta_of (new_head meta loca) = take 63 (meta @ replicate 63 0) @ [0]"
proof -
  have "mread (new_head meta loca) 1 63 = take 63 (meta @ replicate 63 0)"
  proof (rule nth_equalityI)
    fix i assume "i < length (mread (new_head meta loca) 1 63)"
    then have i: "i < 63"
      by (simp add: new_head_fields(1))
    then show "mread (new_head meta loca) 1 63 ! i = take 63 (meta @ replicate 63 0) ! i"
      by (auto simp: new_head_fields(1) new_head_def mem_simps nth_mwrite FS_SECTOR_SIZE_def
          blank_def nth_append)
  qed (simp add: new_head_fields(1))
  then show ?thesis
    by (simp add: meta_of_def)
qed

lemma fs_cnt_init_holds:
  assumes inv: "fs_inv fs" and room: "fs_room fs dev (Suc (Suc k))" and dev: "dev \<noteq> 0"
  obtains sid loca fs' where "fs_cnt_init fs dev meta = Some (sid, fs')" "sid \<noteq> 0"
    "sid_dev sid = dev" "fs_view fs sid = None" "fs_view fs loca = None" "sid \<noteq> loca"
    "fs_view fs' = (fs_view fs)(sid \<mapsto> new_head meta loca, loca \<mapsto> blank SF_LOCA)"
    "fs_room fs' dev k" "cnt_holds fs' sid [(loca, [])] []"
proof -
  from room obtain d where d: "fs_get_vdisk fs dev = Some d" "used_count d + k + 1002 \<le> 2 ^ 24"
    by (auto simp: fs_room_def split: option.splits)
  have dinv: "vd_inv d" "vsize d \<le> 2 ^ 24" "used_count d + 1000 \<le> 2 ^ 24"
    using fs_inv_get [OF inv d(1)] d(2) by auto
  obtain n d1 d2 sid where t: "vdisk_get_unused_sector d = Some (word_of_nat n, d1)"
    "sid = SID_FORMAT (ucast dev) (word_of_nat n)" "sid_dev sid = dev" "SID_SECTOR sid = n" "sid \<noteq> 0"
    "word_of_nat n \<noteq> (-1 :: u32)" "vd_view d n = None"
    "vdisk_note_sector_used d1 sid = Some (0, d2)" "vd_inv d2" "vsize d2 \<le> 2 ^ 24"
    "vd_view d2 = (vd_view d)(n \<mapsto> sectors d2 ! n)" "used_count d2 = Suc (used_count d)"
    by (rule vd_take_sector [OF dinv dev]) blast
  have room2: "used_count d2 + 1000 \<le> 2 ^ 24"
    using t(12) d(2) by simp
  obtain n' e1 e2 loca where u: "vdisk_get_unused_sector d2 = Some (word_of_nat n', e1)"
    "loca = SID_FORMAT (ucast dev) (word_of_nat n')" "sid_dev loca = dev" "SID_SECTOR loca = n'"
    "loca \<noteq> 0" "word_of_nat n' \<noteq> (-1 :: u32)" "vd_view d2 n' = None"
    "vdisk_is_sector_used e1 loca = Some False"
    "vdisk_note_sector_used e1 loca = Some (0, e2)" "vd_inv e2" "vsize e2 \<le> 2 ^ 24"
    "vd_view e2 = (vd_view d2)(n' \<mapsto> sectors e2 ! n')" "used_count e2 = Suc (used_count d2)"
    by (rule vd_take_sector [OF t(9,10) room2 dev]) blast
  obtain e3 where e3: "fs_cnt_init_sector e1 loca SF_LOCA = Some (0, e3)" "vd_inv e3"
    "vd_view e3 = (vd_view d2)(SID_SECTOR loca \<mapsto> blank SF_LOCA)" "vsize e3 = vsize e2"
    "used_count e3 = used_count e2"
    by (rule vd_init_sector [OF u(8,9,10), of "vd_view d2" _ SF_LOCA]) (use u(4,12) in auto)
  let ?h = "new_head meta loca"
  let ?e = "snd (vdisk_write_sector e3 sid ?h)"
  have ne: "n' \<noteq> n" "sid \<noteq> loca"
    using t(4,11) u(4,7) by (auto split: if_splits)
  note w = vd_write [OF e3(2), of ?h sid]
  have view: "vd_view ?e = (vd_view d)(SID_SECTOR sid \<mapsto> ?h, SID_SECTOR loca \<mapsto> blank SF_LOCA)"
    using w(2) e3(3) t(4,11) u(4) ne by (auto simp: new_head_fields FS_SECTOR_SIZE_def fun_eq_iff)
  have einv: "vd_inv ?e" "vsize ?e \<le> 2 ^ 24" "used_count ?e = Suc (Suc (used_count d))"
    using w e3 u t by (auto simp: new_head_fields FS_SECTOR_SIZE_def)
  let ?fs = "fs_put_vdisk fs dev ?e"
  have run: "fs_cnt_init fs dev meta = Some (sid, ?fs)"
  proof -
    have "SID_DISK sid = ucast dev"
      using SID_DISK_sid_dev [of sid] t(3) by simp
    moreover have "take (min (length meta) 63) meta = take 63 meta"
      by (simp add: min_def)
    ultimately show ?thesis
      using d(1) t(1,6,8) u(1,6) e3(1)
      by (simp add: fs_cnt_init_def new_head_def layout flip: t(2) u(2))
  qed
  have fview: "fs_view ?fs = (fs_view fs)(sid \<mapsto> ?h, loca \<mapsto> blank SF_LOCA)"
  proof (rule ext)
    fix s
    show "fs_view ?fs s = ((fs_view fs)(sid \<mapsto> ?h, loca \<mapsto> blank SF_LOCA)) s"
      using d(1) view t(3) u(3) sid_eqI [of s sid] sid_eqI [of s loca] by (auto simp: fs_view_def)
  qed
  have finv: "fs_inv ?fs"
    using inv einv by (simp add: fs_inv_put)
  have old: "fs_view fs sid = None" "fs_view fs loca = None"
    using d(1) t(3,4,7,11) u(3,4,7) ne by (auto simp: fs_view_def split: if_splits)
  have "fs_room ?fs dev k"
    using einv(3) d(2) by (simp add: fs_room_def)
  moreover have "cnt_holds ?fs sid [(loca, [])] []"
    using finv ne dev t(3) u(3,5)
    by (auto simp: cnt_holds_def container_def fview new_head_fields loca_ok_def links_blank get32_blank
        FS_SECTOR_SIZE_def)
  ultimately show ?thesis
    using that run t(3,5) old ne fview by blast
qed

section \<open>Deleting a container\<close>

lemma delete_core_ok:
  assumes "fs_inv fs" and "core_ok (fs_view fs) c"
  obtains fs' where "fs_cnt_delete_core fs c = Some (0, fs')" "fs_inv fs'"
    "fs_view fs' = (fs_view fs)(c := None)"
proof -
  from assms(2) obtain data where data: "fs_view fs c = Some data" "data ! 0 = SF_CORE"
    by (auto simp: core_ok_def)
  from fs_view_SomeD [OF assms(1) data(1)] obtain d where
    d: "fs_get_vdisk fs (sid_dev c) = Some d" "vd_inv d" "vsize d \<le> 2 ^ 24"
    "vd_view d (SID_SECTOR c) = Some data" "vdisk_is_sector_used d c = Some True"
    "vdisk_load_sector d c = Some data" "length data = FS_SECTOR_SIZE"
    by blast
  from vd_note_unused [OF d(2,4)] obtain d' where d': "vdisk_note_sector_unused d c = Some (0, d')"
    "vd_inv d'" "vd_view d' = (vd_view d)(SID_SECTOR c := None)" "vsize d' = vsize d"
    by blast
  let ?d = "snd (vdisk_write_sector d' c data)"
  note w = vd_write [OF d'(2) d(7), of c]
  have "fs_cnt_delete_core fs c = Some (0, fs_put_vdisk fs (sid_dev c) ?d)"
    using d d'(1) data(2) by (simp add: fs_cnt_delete_core_def vdisk_unload_sector_def)
  moreover have "vd_view ?d = (vd_view d)(SID_SECTOR c := None)"
    using w(2) d'(3) by simp
  then have "fs_view (fs_put_vdisk fs (sid_dev c) ?d) = (fs_view fs)(c := None)"
    by (rule fs_view_put_upd [OF d(1)])
  ultimately show ?thesis
    using that w d'(4) d(3) assms(1) by (simp add: fs_inv_put)
qed

lemma delete_cores_ok:
  assumes "fs_inv fs" and "distinct cs" and "0 \<notin> set cs" and "\<forall>c\<in>set cs. core_ok (fs_view fs) c"
  shows "\<exists>fs'. delete_cores fs (cs @ replicate k 0) = Some (0, fs') \<and> fs_inv fs' \<and>
    fs_view fs' = (\<lambda>s. if s \<in> set cs then None else fs_view fs s)"
  using assms
proof (induction cs arbitrary: fs)
  case Nil
  then show ?case by (cases k) (auto simp: SID_NULL_def)
next
  case (Cons c cs)
  then obtain fs1 where fs1: "fs_cnt_delete_core fs c = Some (0, fs1)" "fs_inv fs1"
    "fs_view fs1 = (fs_view fs)(c := None)"
    using delete_core_ok [of fs c] by auto
  have "\<forall>x\<in>set cs. core_ok (fs_view fs1) x"
    using Cons.prems fs1(3) by (auto simp: core_ok_def)
  with Cons.IH [OF fs1(2)] Cons.prems obtain fs' where
    "delete_cores fs1 (cs @ replicate k 0) = Some (0, fs')" "fs_inv fs'"
    "fs_view fs' = (\<lambda>s. if s \<in> set cs then None else fs_view fs1 s)"
    by force
  with Cons.prems(3) fs1 show ?case
    by (auto simp: SID_NULL_def fun_eq_iff)
qed

lemma delete_loca_ok:
  assumes "fs_inv fs" and "chain (fs_view fs) first ls" and "ls \<noteq> []" and "distinct (sids ls)"
    and "\<forall>c\<in>set (cores ls). core_ok (fs_view fs) c"
  shows "\<exists>fs'. fs_cnt_delete_loca_recur fs first = Some (0, fs') \<and> fs_inv fs' \<and>
    fs_view fs' = (\<lambda>s. if s \<in> set (sids ls) then None else fs_view fs s)"
  using assms
proof (induction ls arbitrary: fs first)
  case Nil
  then show ?case by simp
next
  case (Cons lc ls)
  obtain l cs where lc: "lc = (l, cs)" by (cases lc)
  with Cons.prems obtain data where l: "first = l" "l \<noteq> 0" "fs_view fs l = Some data"
    "data ! 0 = SF_LOCA" "0 \<notin> set cs" "links data = cs @ replicate (126 - length cs) 0"
    and next_chain: "chain (fs_view fs) (get32 data 508) ls"
    by (auto simp: loca_ok_def)
  from fs_view_SomeD [OF Cons.prems(1) l(3)] obtain d where
    d: "fs_get_vdisk fs (sid_dev l) = Some d" "vdisk_is_sector_used d l = Some True"
    "vdisk_load_sector d l = Some data"
    by blast
  obtain fs1 where fs1: "delete_cores fs (links data) = Some (0, fs1)" "fs_inv fs1"
    "fs_view fs1 = (\<lambda>s. if s \<in> set cs then None else fs_view fs s)"
  proof -
    have "distinct cs" "\<forall>c\<in>set cs. core_ok (fs_view fs) c"
      using Cons.prems(4,5) by (auto simp: lc)
    from delete_cores_ok [OF Cons.prems(1) this(1) l(5) this(2)] that show ?thesis
      unfolding l(6) by blast
  qed
  have disj: "set cs \<inter> set (sids ls) = {}" "l \<notin> set (sids ls)" "l \<notin> set cs"
    using Cons.prems(4) by (auto simp: lc)
  have chain1: "chain (fs_view fs1) (get32 data 508) ls"
  proof -
    have same: "fs_view fs1 s = fs_view fs s" if "s \<in> set (map fst ls)" for s
      using that disj(1) fs1(3) by auto
    show ?thesis
      using chain_cong [of ls "fs_view fs1" "fs_view fs", OF same] next_chain by blast
  qed
  have cores1: "\<forall>c\<in>set (cores ls). core_ok (fs_view fs1) c"
    using Cons.prems(5) disj fs1(3) by (fastforce simp: core_ok_def lc)
  obtain fs2 where fs2: "(if get32 data 508 \<noteq> 0 then fs_cnt_delete_loca_recur fs1 (get32 data 508)
      else Some (0, fs1)) = Some (0, fs2)" "fs_inv fs2"
    "fs_view fs2 = (\<lambda>s. if s \<in> set (sids ls) then None else fs_view fs1 s)"
  proof (cases "ls = []")
    case True
    with chain1 fs1 that show ?thesis by simp
  next
    case False
    then have "get32 data 508 \<noteq> 0"
      using chain1 by (cases ls) auto
    moreover have "distinct (sids ls)"
      using Cons.prems(4) by (auto simp: lc)
    ultimately show ?thesis
      using Cons.IH [OF fs1(2) chain1 False _ cores1] that by auto
  qed
  have "fs_view fs2 l = Some data"
    using fs2(3) fs1(3) l(3) disj by simp
  from disks.release_one [OF fs2(2) this] obtain fs3 where
    fs3: "note_unused_at fs2 (sid_dev l) l = Some (0, fs3)" "fs_inv fs3"
    "fs_view fs3 = (fs_view fs2)(l := None)"
    by blast
  have "fs_cnt_delete_loca_recur fs first = Some (0, fs3)"
    using d l fs1(1) fs2(1) fs3(1)
    by (subst fs_cnt_delete_loca_recur.simps) (simp add: SID_NULL_def layout)
  moreover have "fs_view fs3 = (\<lambda>s. if s \<in> set (sids (lc # ls)) then None else fs_view fs s)"
    using fs3(3) fs2(3) fs1(3) by (auto simp: lc fun_eq_iff)
  ultimately show ?case
    using fs3(2) by blast
qed

lemma fs_cnt_delete_holds:
  assumes "cnt_holds fs head ls xs"
  shows "\<exists>fs'. fs_cnt_delete fs head = Some (0, fs') \<and> fs_inv fs' \<and>
    fs_view fs' = (\<lambda>s. if s \<in> set (head # sids ls) then None else fs_view fs s)"
proof -
  from assms obtain data where h: "fs_inv fs" "fs_view fs head = Some data" "data ! 0 = SF_HEAD"
    "chain (fs_view fs) (get32 data 508) ls" "ls \<noteq> []" "distinct (head # sids ls)"
    "\<forall>c\<in>set (cores ls). core_ok (fs_view fs) c"
    by (rule cnt_holdsD) blast
  from fs_view_SomeD [OF h(1,2)] obtain d where
    d: "fs_get_vdisk fs (sid_dev head) = Some d" "vdisk_is_sector_used d head = Some True"
    "vdisk_load_sector d head = Some data"
    by blast
  from delete_loca_ok [OF h(1,4,5) _ h(7)] h(6) obtain fs1 where
    fs1: "fs_cnt_delete_loca_recur fs (get32 data 508) = Some (0, fs1)" "fs_inv fs1"
    "fs_view fs1 = (\<lambda>s. if s \<in> set (sids ls) then None else fs_view fs s)"
    by auto
  have nz: "get32 data 508 \<noteq> 0"
    using h(4,5) by (cases ls) auto
  have "fs_view fs1 head = Some data"
    using fs1(3) h(2,6) by simp
  from disks.release_one [OF fs1(2) this] obtain fs2 where
    fs2: "note_unused_at fs1 (sid_dev head) head = Some (0, fs2)" "fs_inv fs2"
    "fs_view fs2 = (fs_view fs1)(head := None)"
    by blast
  have "fs_cnt_delete fs head = Some (0, fs2)"
    using d h(3) nz fs1(1) fs2(1) by (simp add: fs_cnt_delete_def SID_NULL_def layout)
  then show ?thesis
    using fs2 fs1(3) by (auto simp: fun_eq_iff)
qed

end
