(* ===== verification/ContainerRw.thy ===== *)
theory ContainerRw
  imports Container
begin

text \<open>
  Reading and writing the data of a container (\<open>ctr_rw.c\<close>).  Both directions share the code:
  \<open>is_read\<close> says which.  The caller's buffer is the list \<open>buf\<close>, returned updated by a read;
  \<open>mem_copy\<close> outside it is undefined behaviour, \<open>None\<close>.

  The loops run on a signed position \<open>index\<close> relative to the caller's buffer: it starts at
  \<open>-offset\<close> and the copy starts when it reaches 0.  The buffers \<open>alloc_buf\<close> and \<open>data\<close> come from
  \<open>malloc\<close>; each use is preceded by a read of a whole sector into them, so their initial
  contents do not matter.
\<close>

definition fs_cnt_rw_core ::
  "filesys \<Rightarrow> u32 \<Rightarrow> byte list \<Rightarrow> nat \<Rightarrow> nat \<Rightarrow> nat \<Rightarrow> bool \<Rightarrow> byte list \<Rightarrow>
   (int \<times> byte list \<times> filesys) option" where
  "fs_cnt_rw_core fs core_sid buf at offset n is_read alloc_buf =
     (if offset \<ge> BYTE_IN_CORE then Some (-1, buf, fs)
      else case fs_get_vdisk fs (sid_dev core_sid) of None \<Rightarrow> Some (-1, buf, fs)
      | Some d \<Rightarrow> do {
          u \<leftarrow> vdisk_is_sector_used d core_sid;
          if \<not> u then Some (-1, buf, fs)
          else do {
            let (_, alloc_buf) = vdisk_read_sector d core_sid alloc_buf;
            if alloc_buf ! 0 \<noteq> SF_CORE then Some (-1, buf, fs)
            else do {
              let n = min n (BYTE_IN_CORE - offset);
              if at + n > length buf then None
              else if \<not> is_read then do {
                let alloc_buf = mwrite alloc_buf (offset + 1) (mread buf at n);
                let (_, d) = vdisk_write_sector d core_sid alloc_buf;
                Some (int (n + offset), buf, fs_put_vdisk fs (sid_dev core_sid) d)
              }
              else Some (int (n + offset), mwrite buf at (mread alloc_buf (offset + 1) n), fs)
            }
          }
        })"

text \<open>
  The \<open>for\<close> loop over the links of one locator: \<open>Inl r\<close> is \<open>return r\<close> from the function,
  \<open>Inr index\<close> the position when the loop ends.
\<close>

fun rw_links ::
  "filesys \<Rightarrow> u32 list \<Rightarrow> byte list \<Rightarrow> int \<Rightarrow> bool \<Rightarrow> byte list \<Rightarrow> int \<Rightarrow>
   ((int + int) \<times> byte list \<times> filesys) option" where
  "rw_links fs [] buf sz is_read alloc_buf index = Some (Inr index, buf, fs)"
| "rw_links fs (core_sid # cs) buf sz is_read alloc_buf index =
     (if index \<ge> sz then Some (Inl 0, buf, fs)
      else if index + int BYTE_IN_CORE \<le> 0
      then rw_links fs cs buf sz is_read alloc_buf (index + int BYTE_IN_CORE)
      else if core_sid = SID_NULL then Some (Inl 1, buf, fs)
      else do {
        (tmp, buf, fs) \<leftarrow> fs_cnt_rw_core fs core_sid buf (nat (max index 0)) (nat (max 0 (- index)))
          (nat (sz - max index 0)) is_read alloc_buf;
        if tmp = -1 then Some (Inl 1, buf, fs)
        else rw_links fs cs buf sz is_read alloc_buf (index + tmp)
      })"

partial_function (option) rw_loop ::
  "filesys \<Rightarrow> byte \<Rightarrow> u32 \<Rightarrow> byte list \<Rightarrow> byte list \<Rightarrow> byte list \<Rightarrow> int \<Rightarrow> int \<Rightarrow> bool \<Rightarrow>
   (int \<times> byte list \<times> filesys) option" where
  "rw_loop fs dev loca_sid alloc_buf data buf index sz is_read =
     (if index \<ge> sz then Some (0, buf, fs)
      else do {
        d \<leftarrow> fs_get_vdisk fs dev;
        u \<leftarrow> vdisk_is_sector_used d loca_sid;
        if \<not> u then Some (1, buf, fs)
        else do {
          let (_, data) = vdisk_read_sector d loca_sid data;
          if data ! 0 \<noteq> SF_LOCA then Some (1, buf, fs)
          else do {
            (flow, buf, fs) \<leftarrow>
              (if index + int LINKS_IN_LOCA * int BYTE_IN_CORE < 0
               then Some (Inr (index + int LINKS_IN_LOCA * int BYTE_IN_CORE), buf, fs)
               else rw_links fs (links data) buf sz is_read alloc_buf index);
            case flow of Inl r \<Rightarrow> Some (r, buf, fs)
            | Inr index \<Rightarrow> do {
                let next_loca_sid = get32 data LAST_SID_OFFSET;
                if next_loca_sid = SID_NULL \<and> index < sz then Some (1, buf, fs)
                else rw_loop fs dev next_loca_sid alloc_buf data buf index sz is_read
              }
          }
        }
      })"

definition fs_cnt_rw_loca ::
  "filesys \<Rightarrow> u32 \<Rightarrow> byte list \<Rightarrow> u32 \<Rightarrow> int \<Rightarrow> bool \<Rightarrow> (int \<times> byte list \<times> filesys) option" where
  "fs_cnt_rw_loca fs loca_sid buf offset sz is_read =
     (case fs_get_vdisk fs (sid_dev loca_sid) of None \<Rightarrow> Some (1, buf, fs)
      | Some _ \<Rightarrow> rw_loop fs (sid_dev loca_sid) loca_sid (replicate FS_SECTOR_SIZE 0)
          (replicate FS_SECTOR_SIZE 0) buf (sint (- offset)) sz is_read)"

text \<open>The check \<open>offset + size > max\<close> is on \<open>uint32_t\<close> and wraps.\<close>

definition fs_cnt_rw ::
  "filesys \<Rightarrow> u32 \<Rightarrow> byte list \<Rightarrow> u32 \<Rightarrow> u32 \<Rightarrow> bool \<Rightarrow> (int \<times> byte list \<times> filesys) option" where
  "fs_cnt_rw fs head_sid buf offset sz is_read =
     (case fs_get_vdisk fs (sid_dev head_sid) of None \<Rightarrow> Some (1, buf, fs)
      | Some d \<Rightarrow> do {
          u \<leftarrow> vdisk_is_sector_used d head_sid;
          if \<not> u then Some (1, buf, fs)
          else do {
            data \<leftarrow> vdisk_load_sector d head_sid;
            if data ! 0 \<noteq> SF_HEAD then Some (1, buf, fs)
            else if offset + sz > get32 data (1 + META_MAXLEN) then Some (1, buf, fs)
            else do {
              let loca_sid = get32 data LAST_SID_OFFSET;
              if loca_sid \<noteq> 0 then do {
                (r, buf, fs) \<leftarrow> fs_cnt_rw_loca fs loca_sid buf offset (sint sz) is_read;
                if r \<noteq> 0 then Some (1, buf, fs) else Some (0, buf, fs)
              }
              else Some (1, buf, fs)
            }
          }
        })"

definition fs_cnt_read :: "filesys \<Rightarrow> u32 \<Rightarrow> byte list \<Rightarrow> u32 \<Rightarrow> u32 \<Rightarrow> (int \<times> byte list \<times> filesys) option" where
  "fs_cnt_read fs head_sid buf offset sz = fs_cnt_rw fs head_sid buf offset sz True"

definition fs_cnt_write :: "filesys \<Rightarrow> u32 \<Rightarrow> byte list \<Rightarrow> u32 \<Rightarrow> u32 \<Rightarrow> (int \<times> byte list \<times> filesys) option" where
  "fs_cnt_write fs head_sid buf offset sz = fs_cnt_rw fs head_sid buf offset sz False"

section \<open>One core\<close>

lemma nat_max_0 [simp]: "nat (max i 0) = nat i" "nat (max 0 i) = nat i"
  by (simp_all add: max_def)

lemma rw_core_access:
  assumes "fs_inv fs" and "core_ok (fs_view fs) c" and "length ab = 512"
  obtains d data where "fs_get_vdisk fs (sid_dev c) = Some d" "vdisk_is_sector_used d c = Some True"
    "vdisk_read_sector d c ab = (0, data)" "fs_view fs c = Some data" "data ! 0 = SF_CORE"
    "vd_inv d" "vsize d \<le> 2 ^ 24" "vd_view d (SID_SECTOR c) = Some data" "length data = 512"
proof -
  from assms(2) obtain data where data: "fs_view fs c = Some data" "data ! 0 = SF_CORE"
    by (auto simp: core_ok_def)
  from fs_view_SomeD [OF assms(1) data(1)] obtain d where
    d: "fs_get_vdisk fs (sid_dev c) = Some d" "vdisk_is_sector_used d c = Some True"
    "vdisk_load_sector d c = Some data" "vd_inv d" "vsize d \<le> 2 ^ 24"
    "vd_view d (SID_SECTOR c) = Some data" "length data = FS_SECTOR_SIZE"
    by blast
  then have "length data = 512"
    by (simp add: FS_SECTOR_SIZE_def)
  moreover from this d(3) assms(3) have "vdisk_read_sector d c ab = (0, data)"
    by (intro vdisk_read_view) auto
  ultimately show ?thesis
    using that d data by blast
qed

lemma core_bytes_mwrite:
  "m c = Some data \<Longrightarrow> length data = 512 \<Longrightarrow> off + length xs \<le> 511 \<Longrightarrow>
   core_bytes (m(c \<mapsto> mwrite data (off + 1) xs)) c = mwrite (core_bytes m c) off xs"
  by (simp add: core_bytes_def mwrite_def drop_take)

lemma rw_core_write:
  assumes "fs_inv fs" and "core_ok (fs_view fs) c" and "length ab = 512"
    and "off < 511" and "m = min n (511 - off)" and "at + m \<le> length buf"
  obtains fs' where "fs_cnt_rw_core fs c buf at off n False ab = Some (int (m + off), buf, fs')"
    "fs_inv fs'" "core_ok (fs_view fs') c" "\<And>s. s \<noteq> c \<Longrightarrow> fs_view fs' s = fs_view fs s"
    "core_bytes (fs_view fs') c = mwrite (core_bytes (fs_view fs) c) off (mread buf at m)"
    "\<And>dev k. fs_room fs dev k \<Longrightarrow> fs_room fs' dev k"
proof -
  from rw_core_access [OF assms(1-3)] obtain d data where
    d: "fs_get_vdisk fs (sid_dev c) = Some d" "vdisk_is_sector_used d c = Some True"
    "vdisk_read_sector d c ab = (0, data)" "fs_view fs c = Some data" "data ! 0 = SF_CORE"
    "vd_inv d" "vsize d \<le> 2 ^ 24" "vd_view d (SID_SECTOR c) = Some data" "length data = 512" .
  let ?data = "mwrite data (off + 1) (mread buf at m)"
  have len: "length (mread buf at m) = m" "length ?data = FS_SECTOR_SIZE"
    using assms(4-6) d(9) by (simp_all add: FS_SECTOR_SIZE_def)
  let ?d = "snd (vdisk_write_sector d c ?data)" and ?fs = "fs_put_vdisk fs (sid_dev c) (snd (vdisk_write_sector d c ?data))"
  note w = vd_write [OF d(6) len(2), of c]
  have view: "fs_view ?fs = (fs_view fs)(c \<mapsto> ?data)"
    using w(2) d(8) by (intro fs_view_put_upd [OF d(1)]) simp
  have "fs_cnt_rw_core fs c buf at off n False ab = Some (int (m + off), buf, ?fs)"
    using d assms(4-6) by (simp add: fs_cnt_rw_core_def BYTE_IN_CORE_def FS_SECTOR_SIZE_def split_beta Let_def)
  moreover have "?data ! 0 = SF_CORE"
    using d(5,9) len assms(4,5) by (simp add: nth_mwrite)
  moreover have "core_bytes (fs_view ?fs) c = mwrite (core_bytes (fs_view fs) c) off (mread buf at m)"
    unfolding view using d(4,9) len assms(4,5) by (intro core_bytes_mwrite) auto
  ultimately show ?thesis
    using w d(1,7) view assms(1)
    by (intro that [of ?fs]) (auto simp: fs_inv_put core_ok_def intro: fs_room_put)
qed

lemma rw_core_read:
  assumes "fs_inv fs" and "core_ok (fs_view fs) c" and "length ab = 512"
    and "off < 511" and "m = min n (511 - off)" and "at + m \<le> length buf"
  shows "fs_cnt_rw_core fs c buf at off n True ab =
    Some (int (m + off), mwrite buf at (mread (core_bytes (fs_view fs) c) off m), fs)"
proof -
  from rw_core_access [OF assms(1-3)] obtain d data where
    d: "fs_get_vdisk fs (sid_dev c) = Some d" "vdisk_is_sector_used d c = Some True"
    "vdisk_read_sector d c ab = (0, data)" "fs_view fs c = Some data" "data ! 0 = SF_CORE" .
  have "mread data (off + 1) m = mread (core_bytes (fs_view fs) c) off m"
    using d(4) by (simp add: core_bytes_def mread_def)
  then show ?thesis
    using d assms(4-6) by (simp add: fs_cnt_rw_core_def BYTE_IN_CORE_def FS_SECTOR_SIZE_def split_beta Let_def)
qed

section \<open>The links of a locator\<close>

text \<open>
  \<open>xfer index sz k\<close>: how many bytes the loops move over a part of the container of \<open>k\<close>
  bytes, entered at position \<open>index\<close>.  A part is either left before its end, or left exactly
  at its end with the position advanced by \<open>k\<close>.
\<close>

definition xfer :: "int \<Rightarrow> int \<Rightarrow> nat \<Rightarrow> nat" where
  "xfer index sz k = min (nat (sz - max index 0)) (k - nat (- index))"

lemma xfer_done: "sz \<le> index \<Longrightarrow> xfer index sz k = 0"
  by (simp add: xfer_def)

lemma xfer_skip: "index + int j \<le> 0 \<Longrightarrow> xfer index sz (j + k) = xfer (index + int j) sz k"
proof -
  assume "index + int j \<le> 0"
  then have "max (index + int j) 0 = max index 0" "j + k - nat (- index) = k - nat (- (index + int j))"
    by (simp_all add: max_def nat_diff_distrib')
  then show ?thesis by (simp add: xfer_def)
qed

lemma xfer_through:
  assumes "0 < index + int j" and "index + int j \<le> sz"
  shows "xfer index sz (j + k) = (j - nat (- index)) + xfer (index + int j) sz k"
    and "nat (index + int j) = nat index + (j - nat (- index))"
proof -
  obtain z where z: "sz = int z"
    using assms by (metis dual_order.strict_trans1 nonneg_int_cases order_less_imp_le)
  have "xfer index sz (j + k) = (j - nat (- index)) + xfer (index + int j) sz k \<and>
      nat (index + int j) = nat index + (j - nat (- index))"
  proof (cases "index \<le> 0")
    case True
    then obtain a where a: "index = - int a"
      by (metis neg_0_le_iff_le nonneg_int_cases minus_minus)
    with assms z have le: "a < j" "j \<le> z + a"
      by auto
    have "max index 0 = 0" "max (index + int j) 0 = int (j - a)" "index + int j = int (j - a)"
      using le by (simp_all add: a)
    moreover have "nat (int z - int (j - a)) = z - (j - a)"
      by simp
    ultimately show ?thesis
      using le by (simp add: xfer_def z) (simp add: a min_def, linarith)
  next
    case False
    then obtain b where b: "index = int b"
      by (metis linorder_not_le nonneg_int_cases order_less_imp_le)
    with assms z have "b + j \<le> z"
      by auto
    moreover have "nat (int z - int (b + j)) = z - (b + j)" "nat (int z - int b) = z - b"
      by simp_all
    ultimately show ?thesis
      by (simp add: xfer_def z b nat_add_distrib del: of_nat_add)
  qed
  then show "xfer index sz (j + k) = (j - nat (- index)) + xfer (index + int j) sz k"
    and "nat (index + int j) = nat index + (j - nat (- index))"
    by auto
qed

lemma xfer_inside:
  assumes "0 < index + int j" and "sz \<le> index + int j" and "index < sz"
  shows "xfer index sz (j + k) = nat (sz - max index 0)"
    and "nat (- index) + nat (sz - max index 0) \<le> j"
  using assms by (auto simp: xfer_def max_def)

lemma length_mread_le: "length (mread xs p n) \<le> n"
  by (simp add: length_mread_min)

lemma xfer_fits: "index \<le> sz \<Longrightarrow> nat index + xfer index sz k \<le> nat sz"
  by (auto simp: xfer_def max_def)

text \<open>What the loop over the links \<open>cs\<close> returns: it stops inside, or runs through all of them.\<close>

definition links_end :: "int \<Rightarrow> int \<Rightarrow> nat \<Rightarrow> int + int \<Rightarrow> bool" where
  "links_end index sz k r \<longleftrightarrow>
     (if sz \<le> index + int k then r = Inl 0 \<or> (\<exists>i\<ge>sz. r = Inr i) else r = Inr (index + int k))"

text \<open>A step into core \<open>c\<close>: the number of bytes it moves and the next position.\<close>

lemma core_step:
  assumes "\<not> sz \<le> index" and "\<not> index + 511 \<le> 0"
    and "m = min (nat (sz - max index 0)) (511 - nat (- index))" and "0 \<le> sz"
  shows "nat (- index) < 511" and "nat index + m \<le> nat sz" and "nat (- index) + m \<le> 511"
    and "sz < index + 511 \<Longrightarrow> index + int (m + nat (- index)) = sz \<and> m = xfer index sz (511 + k)"
    and "index + 511 \<le> sz \<Longrightarrow> index + int (m + nat (- index)) = index + 511 \<and> m = 511 - nat (- index) \<and>
      xfer index sz (511 + k) = m + xfer (index + 511) sz k \<and> nat (index + 511) = nat index + m"
proof -
  show lt: "nat (- index) < 511" and "nat index + m \<le> nat sz" "nat (- index) + m \<le> 511"
    using assms by (auto simp: max_def)
  show "index + int (m + nat (- index)) = sz \<and> m = xfer index sz (511 + k)" if "sz < index + 511"
    using assms that by (auto simp: xfer_def max_def min_def)
  show "index + int (m + nat (- index)) = index + 511 \<and> m = 511 - nat (- index) \<and>
      xfer index sz (511 + k) = m + xfer (index + 511) sz k \<and> nat (index + 511) = nat index + m"
    if "index + 511 \<le> sz"
  proof -
    have m: "m = 511 - nat (- index)"
      using assms that by (auto simp: max_def)
    then have "m + nat (- index) = 511"
      using lt by simp
    then have "index + int (m + nat (- index)) = index + 511"
      by simp
    then show ?thesis
      using assms that m xfer_through(1) [of index 511 sz k] xfer_through(2) [of index 511 sz] by auto
  qed
qed

lemma rw_links_write:
  assumes "fs_inv fs" and "distinct cs" and "0 \<notin> set cs" and "\<forall>c\<in>set cs. core_ok (fs_view fs) c"
    and "length ab = 512" and "nat sz \<le> length buf"
    and "sz \<le> index + 511 * int (length cs) \<or> z = 0" and "0 \<le> sz"
  shows "\<exists>r fs'. rw_links fs (cs @ replicate z 0) buf sz False ab index = Some (r, buf, fs') \<and>
    fs_inv fs' \<and> (\<forall>s. s \<notin> set cs \<longrightarrow> fs_view fs' s = fs_view fs s) \<and>
    (\<forall>c\<in>set cs. core_ok (fs_view fs') c) \<and> (\<forall>dev k. fs_room fs dev k \<longrightarrow> fs_room fs' dev k) \<and>
    cnt_bytes (fs_view fs') cs = mwrite (cnt_bytes (fs_view fs) cs) (nat (- index))
      (mread buf (nat index) (xfer index sz (511 * length cs))) \<and>
    links_end index sz (511 * length cs) r"
  using assms
proof (induction cs arbitrary: fs index)
  case Nil
  then show ?case
    by (cases z) (auto simp: xfer_def links_end_def)
next
  case (Cons c cs)
  let ?o = "nat (- index)" and ?bytes = "cnt_bytes (fs_view fs) cs"
  have lenc: "length (core_bytes (fs_view fs) c) = 511"
    using Cons.prems(1,4) by (simp add: length_core_bytes)
  show ?case
  proof (cases "sz \<le> index")
    case True
    then show ?thesis
      using Cons.prems by (auto simp: xfer_done links_end_def)
  next
    case False
    show ?thesis
    proof (cases "index + 511 \<le> 0")
      case True
      have "sz \<le> (index + 511) + 511 * int (length cs) \<or> z = 0"
        using Cons.prems(7) by auto
      with Cons.IH [of fs "index + 511"] Cons.prems obtain r fs' where
        IH: "rw_links fs (cs @ replicate z 0) buf sz False ab (index + 511) = Some (r, buf, fs')"
        "fs_inv fs'" "\<forall>s. s \<notin> set cs \<longrightarrow> fs_view fs' s = fs_view fs s" "\<forall>c\<in>set cs. core_ok (fs_view fs') c"
        "\<forall>dev k. fs_room fs dev k \<longrightarrow> fs_room fs' dev k"
        "cnt_bytes (fs_view fs') cs = mwrite ?bytes (nat (- (index + 511)))
          (mread buf (nat (index + 511)) (xfer (index + 511) sz (511 * length cs)))"
        "links_end (index + 511) sz (511 * length cs) r"
        by auto
      have c: "fs_view fs' c = fs_view fs c"
        using IH(3) Cons.prems(2) by simp
      have o: "?o = 511 + nat (- (index + 511))" "nat (index + 511) = nat index"
        using True by auto
      have "cnt_bytes (fs_view fs') (c # cs) = mwrite (cnt_bytes (fs_view fs) (c # cs)) ?o
          (mread buf (nat index) (xfer index sz (511 * length (c # cs))))"
        using IH(6) o c lenc xfer_skip [of index 511 sz "511 * length cs"] True
        by (simp add: core_bytes_def mwrite_append_right)
      moreover have "links_end index sz (511 * length (c # cs)) r"
        using IH(7) by (simp add: links_end_def algebra_simps)
      ultimately show ?thesis
        using IH(1-5) c Cons.prems(4) True False
        by (auto simp: BYTE_IN_CORE_def FS_SECTOR_SIZE_def core_ok_def)
    next
      case False2: False
      define m where "m = min (nat (sz - max index 0)) (511 - ?o)"
      note step = core_step(1-3) [OF False False2 m_def Cons.prems(8)]
      note pass = core_step(4,5) [OF False False2 m_def Cons.prems(8), where k = "511 * length cs"]
      obtain fs1 where fs1: "fs_cnt_rw_core fs c buf (nat index) ?o (nat (sz - max index 0)) False ab =
          Some (int (m + ?o), buf, fs1)" "fs_inv fs1" "core_ok (fs_view fs1) c"
        "\<And>s. s \<noteq> c \<Longrightarrow> fs_view fs1 s = fs_view fs s"
        "core_bytes (fs_view fs1) c = mwrite (core_bytes (fs_view fs) c) ?o (mread buf (nat index) m)"
        "\<And>dev k. fs_room fs dev k \<Longrightarrow> fs_room fs1 dev k"
        by (rule rw_core_write [OF Cons.prems(1) _ Cons.prems(5) step(1) m_def])
          (use Cons.prems step(2) in auto)
      let ?i = "index + int (m + ?o)"
      have i: "sz \<le> ?i + 511 * int (length cs) \<or> z = 0"
        using Cons.prems(7) pass by (cases "sz < index + 511") auto
      have bytes1: "cnt_bytes (fs_view fs1) cs = ?bytes"
        using fs1(4) Cons.prems(2) by (intro cnt_bytes_cong) (metis distinct.simps(2))
      have "\<forall>c\<in>set cs. core_ok (fs_view fs1) c"
        using fs1(4) Cons.prems(2,4) by (fastforce simp: core_ok_def)
      with Cons.IH [OF fs1(2), of ?i] Cons.prems i obtain r fs' where
        IH: "rw_links fs1 (cs @ replicate z 0) buf sz False ab ?i = Some (r, buf, fs')"
        "fs_inv fs'" "\<forall>s. s \<notin> set cs \<longrightarrow> fs_view fs' s = fs_view fs1 s" "\<forall>c\<in>set cs. core_ok (fs_view fs') c"
        "\<forall>dev k. fs_room fs1 dev k \<longrightarrow> fs_room fs' dev k"
        "cnt_bytes (fs_view fs') cs = mwrite ?bytes (nat (- ?i))
          (mread buf (nat ?i) (xfer ?i sz (511 * length cs)))"
        "links_end ?i sz (511 * length cs) r"
        unfolding bytes1 by auto
      have c: "fs_view fs' c = fs_view fs1 c"
        using IH(3) Cons.prems(2) by simp
      have lenm: "length (mread buf (nat index) m) = m"
        using step(2) Cons.prems(6) by simp
      have bytes: "cnt_bytes (fs_view fs') (c # cs) = mwrite (cnt_bytes (fs_view fs) (c # cs)) ?o
          (mread buf (nat index) (xfer index sz (511 * length (c # cs)))) \<and>
          links_end index sz (511 * length (c # cs)) r"
      proof (cases "sz < index + 511")
        case True
        note s = pass(1) [OF True]
        have "cnt_bytes (fs_view fs') cs = ?bytes" "r = Inl 0 \<or> (\<exists>i\<ge>sz. r = Inr i)"
          using IH(6,7) s by (auto simp: xfer_done links_end_def)
        then show ?thesis
          using s c fs1(5) step(3) lenm lenc True
          by (simp add: core_bytes_def mwrite_append_left links_end_def)
      next
        case False
        then have s: "?i = index + 511" "m = 511 - ?o"
          "xfer index sz (511 + 511 * length cs) = m + xfer (index + 511) sz (511 * length cs)"
          "nat (index + 511) = nat index + m"
          using pass(2) by auto
        let ?n = "xfer (index + 511) sz (511 * length cs)"
        have "nat (- (index + 511)) = 0"
          using False2 by simp
        then have rest: "cnt_bytes (fs_view fs') cs = mwrite ?bytes 0 (mread buf (nat index + m) ?n)"
          using IH(6) s(1,4) by simp
        have "length (core_bytes (fs_view fs) c) = ?o + length (mread buf (nat index) m)"
          using lenc lenm s(2) step(1) by simp
        from mwrite_append_exact [OF this, of ?bytes "mread buf (nat index + m) ?n"]
        have "cnt_bytes (fs_view fs') (c # cs) = mwrite (cnt_bytes (fs_view fs) (c # cs)) ?o
            (mread buf (nat index) (m + ?n))"
          using rest c fs1(5) by (simp add: core_bytes_def mread_split)
        moreover have "links_end index sz (511 * length (c # cs)) r"
          using IH(7) s(1) by (simp add: links_end_def algebra_simps)
        ultimately show ?thesis
          using s(3) by simp
      qed
      have run: "rw_links fs ((c # cs) @ replicate z 0) buf sz False ab index = Some (r, buf, fs')"
        using False False2 Cons.prems(3) fs1(1) IH(1) step(1)
        by (simp add: BYTE_IN_CORE_def FS_SECTOR_SIZE_def SID_NULL_def)
      show ?thesis
        using run bytes IH(2-5) fs1(3,4,6) c Cons.prems(2)
        by (intro exI [of _ r] exI [of _ fs']) (auto simp: core_ok_def)
    qed
  qed
qed

lemma rw_links_read:
  assumes "fs_inv fs" and "0 \<notin> set cs" and "\<forall>c\<in>set cs. core_ok (fs_view fs) c"
    and "length ab = 512" and "nat sz \<le> length buf"
    and "sz \<le> index + 511 * int (length cs) \<or> z = 0" and "0 \<le> sz"
  shows "\<exists>r. rw_links fs (cs @ replicate z 0) buf sz True ab index = Some (r,
      mwrite buf (nat index) (mread (cnt_bytes (fs_view fs) cs) (nat (- index))
        (xfer index sz (511 * length cs))), fs) \<and>
    links_end index sz (511 * length cs) r"
  using assms
proof (induction cs arbitrary: buf index)
  case Nil
  then show ?case
    by (cases z) (auto simp: xfer_def links_end_def)
next
  case (Cons c cs)
  let ?o = "nat (- index)" and ?bytes = "cnt_bytes (fs_view fs) cs"
  have lenc: "length (core_bytes (fs_view fs) c) = 511"
    using Cons.prems(1,3) by (simp add: length_core_bytes)
  show ?case
  proof (cases "sz \<le> index")
    case True
    then show ?thesis
      by (auto simp: xfer_done links_end_def)
  next
    case False
    show ?thesis
    proof (cases "index + 511 \<le> 0")
      case True
      have "sz \<le> (index + 511) + 511 * int (length cs) \<or> z = 0"
        using Cons.prems(6) by auto
      with Cons.IH [of buf "index + 511"] Cons.prems obtain r where
        IH: "rw_links fs (cs @ replicate z 0) buf sz True ab (index + 511) = Some (r,
          mwrite buf (nat (index + 511)) (mread ?bytes (nat (- (index + 511)))
            (xfer (index + 511) sz (511 * length cs))), fs)"
        "links_end (index + 511) sz (511 * length cs) r"
        by auto
      have o: "?o = 511 + nat (- (index + 511))" "nat (index + 511) = nat index"
        using True by auto
      have "mread (cnt_bytes (fs_view fs) (c # cs)) ?o (xfer index sz (511 * length (c # cs))) =
          mread ?bytes (nat (- (index + 511))) (xfer (index + 511) sz (511 * length cs))"
        using o lenc xfer_skip [of index 511 sz "511 * length cs"] True
        by (simp add: mread_append_right)
      moreover have "links_end index sz (511 * length (c # cs)) r"
        using IH(2) by (simp add: links_end_def algebra_simps)
      ultimately show ?thesis
        using IH(1) True False o(2) by (simp add: BYTE_IN_CORE_def FS_SECTOR_SIZE_def)
    next
      case False2: False
      define m where "m = min (nat (sz - max index 0)) (511 - ?o)"
      note step = core_step(1-3) [OF False False2 m_def Cons.prems(7)]
      note pass = core_step(4,5) [OF False False2 m_def Cons.prems(7), where k = "511 * length cs"]
      let ?A = "mread (core_bytes (fs_view fs) c) ?o m"
      let ?buf = "mwrite buf (nat index) ?A" and ?i = "index + int (m + ?o)"
      have one: "fs_cnt_rw_core fs c buf (nat index) ?o (nat (sz - max index 0)) True ab =
          Some (int (m + ?o), ?buf, fs)"
        using rw_core_read [OF Cons.prems(1) _ Cons.prems(4) step(1) m_def] Cons.prems step(2) by auto
      have lenA: "length ?A = m"
        using lenc step(3) by simp
      then have lenb: "length ?buf = length buf"
        using step(2) Cons.prems(5) by simp
      have i: "sz \<le> ?i + 511 * int (length cs) \<or> z = 0"
        using Cons.prems(6) pass by (cases "sz < index + 511") auto
      with Cons.IH [of ?buf ?i] Cons.prems lenb obtain r where
        IH: "rw_links fs (cs @ replicate z 0) ?buf sz True ab ?i = Some (r,
          mwrite ?buf (nat ?i) (mread ?bytes (nat (- ?i)) (xfer ?i sz (511 * length cs))), fs)"
        "links_end ?i sz (511 * length cs) r"
        by auto
      have "mwrite ?buf (nat ?i) (mread ?bytes (nat (- ?i)) (xfer ?i sz (511 * length cs))) =
          mwrite buf (nat index) (mread (cnt_bytes (fs_view fs) (c # cs)) ?o
            (xfer index sz (511 * length (c # cs)))) \<and>
          links_end index sz (511 * length (c # cs)) r"
      proof (cases "sz < index + 511")
        case True
        note s = pass(1) [OF True]
        have "r = Inl 0 \<or> (\<exists>i\<ge>sz. r = Inr i)"
          using IH(2) s by (auto simp: links_end_def)
        then show ?thesis
          using s step(3) lenc True by (simp add: xfer_done mread_append_left links_end_def)
      next
        case False
        then have s: "?i = index + 511" "m = 511 - ?o"
          "xfer index sz (511 + 511 * length cs) = m + xfer (index + 511) sz (511 * length cs)"
          "nat (index + 511) = nat index + m"
          using pass(2) by auto
        let ?n = "xfer (index + 511) sz (511 * length cs)"
        have z: "nat (- ?i) = 0"
          using False2 s(1) by simp
        have "length (core_bytes (fs_view fs) c) = ?o + m"
          using lenc s(2) step(1) by simp
        from mread_append_exact [OF this, of ?bytes ?n]
        have "mread (cnt_bytes (fs_view fs) (c # cs)) ?o (m + ?n) = ?A @ mread ?bytes 0 ?n"
          by simp
        moreover have "nat index + length ?A + length (mread ?bytes 0 ?n) \<le> length buf"
          using xfer_fits [of "index + 511" sz "511 * length cs"] Cons.prems(5) lenA s(4) False
            length_mread_le [of ?bytes 0 ?n] by linarith
        from mwrite_two [OF this]
        have "mwrite ?buf (nat index + m) (mread ?bytes 0 ?n) = mwrite buf (nat index) (?A @ mread ?bytes 0 ?n)"
          using lenA by simp
        moreover have "links_end index sz (511 * length (c # cs)) r"
          using IH(2) s(1) by (simp add: links_end_def algebra_simps)
        ultimately show ?thesis
          unfolding z using s(1,3,4) by simp
      qed
      moreover have "rw_links fs ((c # cs) @ replicate z 0) buf sz True ab index =
          rw_links fs (cs @ replicate z 0) ?buf sz True ab ?i"
        using False False2 Cons.prems(2) one step(1)
        by (simp add: BYTE_IN_CORE_def FS_SECTOR_SIZE_def SID_NULL_def)
      ultimately show ?thesis
        using IH(1) by auto
    qed
  qed
qed

section \<open>The chain of locators\<close>

text \<open>What one round of the outer loop reads of a locator that is in the chain.\<close>

lemma loca_access:
  assumes "fs_inv fs" and "loca_ok (fs_view fs) l cs nxt" and "length db = 512"
  obtains d data where "fs_get_vdisk fs (sid_dev l) = Some d" "vdisk_is_sector_used d l = Some True"
    "vdisk_read_sector d l db = (0, data)" "vdisk_load_sector d l = Some data"
    "fs_view fs l = Some data" "data ! 0 = SF_LOCA"
    "links data = cs @ replicate (126 - length cs) 0" "get32 data 508 = nxt" "length data = 512"
    "0 \<notin> set cs" "length cs \<le> 126"
proof -
  from assms(2) obtain data where data: "fs_view fs l = Some data" "data ! 0 = SF_LOCA"
    "links data = cs @ replicate (126 - length cs) 0" "get32 data 508 = nxt" "0 \<notin> set cs"
    "length cs \<le> 126"
    by (auto simp: loca_ok_def)
  from fs_view_SomeD [OF assms(1) data(1)] obtain d where
    d: "fs_get_vdisk fs (sid_dev l) = Some d" "vdisk_is_sector_used d l = Some True"
    "vdisk_load_sector d l = Some data" "length data = FS_SECTOR_SIZE"
    by blast
  moreover from this assms(3) have "vdisk_read_sector d l db = (0, data)" "length data = 512"
    by (auto simp: FS_SECTOR_SIZE_def intro: vdisk_read_view)
  ultimately show ?thesis
    using that data by blast
qed

lemma chain_next_nz: "chain m nxt ls \<Longrightarrow> ls \<noteq> [] \<Longrightarrow> nxt \<noteq> 0"
  by (cases ls) auto

text \<open>Passing one whole locator of \<open>k\<close> bytes and going on with the next.\<close>

lemma xfer_pass_nat:
  assumes "0 \<le> index + int k" and "index + int k < sz"
  shows "xfer index sz (k + j) = (k - nat (- index)) + xfer (index + int k) sz j"
    and "xfer index sz k = k - nat (- index)"
    and "nat (- index) + (k - nat (- index)) = k"
    and "nat (index + int k) = nat index + (k - nat (- index))" "nat (- (index + int k)) = 0"
proof -
  show "xfer index sz k = k - nat (- index)" "nat (- index) + (k - nat (- index)) = k"
    "nat (index + int k) = nat index + (k - nat (- index))" "nat (- (index + int k)) = 0"
    using assms by (auto simp: xfer_def max_def min_def nat_diff_distrib')
  show "xfer index sz (k + j) = (k - nat (- index)) + xfer (index + int k) sz j"
  proof (cases "index + int k = 0")
    case True
    then have "nat (- index) = k" by auto
    with True show ?thesis
      by (simp add: xfer_def max_def)
  next
    case False
    then show ?thesis
      using assms xfer_through(1) [of index k sz j] by simp
  qed
qed

lemma rw_loop_done: "sz \<le> index \<Longrightarrow> rw_loop fs dev l ab db buf index sz is_read = Some (0, buf, fs)"
  by (subst rw_loop.simps) simp

lemma rw_loop_read:
  assumes "fs_inv fs" and "chain (fs_view fs) first ls" and "\<forall>c\<in>set (cores ls). core_ok (fs_view fs) c"
    and "\<forall>s\<in>set (map fst ls). sid_dev s = dev" and "length ab = 512" and "length db = 512"
    and "nat sz \<le> length buf" and "sz \<le> index + int (511 * length (cores ls))" and "0 \<le> sz"
  shows "rw_loop fs dev first ab db buf index sz True = Some (0,
      mwrite buf (nat index) (mread (cnt_bytes (fs_view fs) (cores ls)) (nat (- index))
        (xfer index sz (511 * length (cores ls)))), fs)"
  using assms
proof (induction ls arbitrary: first db buf index)
  case Nil
  then show ?case by (subst rw_loop.simps) (simp add: xfer_done)
next
  case (Cons lc ls)
  obtain l cs where lc: "lc = (l, cs)" by (cases lc)
  with Cons.prems(2) obtain nxt where l: "first = l" "loca_ok (fs_view fs) l cs nxt"
    "chain (fs_view fs) nxt ls" "ls \<noteq> [] \<Longrightarrow> length cs = 126"
    by auto
  from loca_access [OF Cons.prems(1) l(2) Cons.prems(6)] obtain d data where
    d: "fs_get_vdisk fs (sid_dev l) = Some d" "vdisk_is_sector_used d l = Some True"
    "vdisk_read_sector d l db = (0, data)" "data ! 0 = SF_LOCA"
    "links data = cs @ replicate (126 - length cs) 0" "get32 data 508 = nxt" "length data = 512"
    "0 \<notin> set cs" "length cs \<le> 126" .
  have dev: "sid_dev l = dev"
    using Cons.prems(4) by (simp add: lc)
  have cok: "\<forall>c\<in>set cs. core_ok (fs_view fs) c"
    using Cons.prems(3) by (simp add: lc)
  let ?K = "511 * length cs" and ?bs = "cnt_bytes (fs_view fs) cs"
    and ?rest = "cnt_bytes (fs_view fs) (cores ls)"
  have lenK: "length ?bs = ?K"
    using length_cnt_bytes [OF Cons.prems(1) cok] .
  show ?case
  proof (cases "sz \<le> index")
    case True
    then show ?thesis
      by (subst rw_loop.simps) (simp add: xfer_done)
  next
    case False
    note unfold = rw_loop.simps [of fs dev first ab db buf index sz True]
    show ?thesis
    proof (cases "index + 64386 < 0")
      case True
      have "ls \<noteq> []"
        using Cons.prems(8,9) True d(9) by (auto simp: lc)
      then have K: "length cs = 126" "nxt \<noteq> 0"
        using l(3,4) chain_next_nz by auto
      have IH: "rw_loop fs dev nxt ab data buf (index + 64386) sz True = Some (0,
        mwrite buf (nat (index + 64386)) (mread ?rest (nat (- (index + 64386)))
          (xfer (index + 64386) sz (511 * length (cores ls)))), fs)"
        using Cons.IH [of nxt data buf "index + 64386"] Cons.prems l(3) d(7) K(1) by (auto simp: lc)
      have "nat (- index) = 64386 + nat (- (index + 64386))" "nat (index + 64386) = nat index"
        using True by auto
      then show ?thesis
        using unfold IH True d(1-6) dev False l(1) K lenK
          xfer_skip [of index 64386 sz "511 * length (cores ls)"]
        by (simp add: layout SID_NULL_def lc mread_append_right algebra_simps)
    next
      case False2: False
      have "sz \<le> index + 511 * int (length cs) \<or> 126 - length cs = 0"
        using l(4) Cons.prems(8) by (cases "ls = []") (auto simp: lc)
      from rw_links_read [OF Cons.prems(1) d(8) cok Cons.prems(5,7) this Cons.prems(9)]
      obtain r where r: "rw_links fs (links data) buf sz True ab index = Some (r,
          mwrite buf (nat index) (mread ?bs (nat (- index)) (xfer index sz ?K)), fs)"
        "links_end index sz ?K r"
        unfolding d(5) by auto
      let ?buf = "mwrite buf (nat index) (mread ?bs (nat (- index)) (xfer index sz ?K))"
      show ?thesis
      proof (cases "sz \<le> index + int ?K")
        case True
        have "xfer index sz (511 * length (cores (lc # ls))) = xfer index sz ?K"
          using True by (auto simp: xfer_def lc max_def min_def)
        moreover have "nat (- index) + xfer index sz ?K \<le> ?K"
          using True False Cons.prems(9) by (auto simp: xfer_def max_def)
        ultimately have eq: "mread (cnt_bytes (fs_view fs) (cores (lc # ls))) (nat (- index))
            (xfer index sz (511 * length (cores (lc # ls)))) = mread ?bs (nat (- index)) (xfer index sz ?K)"
          using lenK by (simp add: lc mread_append_left)
        from r(2) True have "r = Inl 0 \<or> (\<exists>i\<ge>sz. r = Inr i)"
          by (simp add: links_end_def)
        then show ?thesis
          unfolding eq using unfold r(1) d(1-6) dev False False2 l(1)
          by (auto simp: layout rw_loop_done)
      next
        case False3: False
        then have "ls \<noteq> []"
          using Cons.prems(8) by (auto simp: lc)
        then have K: "length cs = 126" "nxt \<noteq> 0"
          using l(3,4) chain_next_nz by auto
        have pos: "0 \<le> index + int ?K" "index + int ?K < sz"
          using False2 False3 K(1) by auto
        note y = xfer_pass_nat(1) [OF pos, of "511 * length (cores ls)"]
        note x = xfer_pass_nat(2-5) [OF pos]
        let ?A = "mread ?bs (nat (- index)) (xfer index sz ?K)"
          and ?B = "mread ?rest 0 (xfer (index + int ?K) sz (511 * length (cores ls)))"
        have A: "length ?A = ?K - nat (- index)"
          using x(1,2) lenK by simp
        have fits: "nat index + length ?A + length ?B \<le> length buf"
          using xfer_fits [of "index + int ?K" sz "511 * length (cores ls)"] Cons.prems(7) A x(3) pos(2)
            length_mread_le [of ?rest 0 "xfer (index + int ?K) sz (511 * length (cores ls))"] by linarith
        have "r = Inr (index + int ?K)"
          using r(2) False3 by (simp add: links_end_def)
        moreover have "rw_loop fs dev nxt ab data ?buf (index + int ?K) sz True = Some (0,
            mwrite ?buf (nat (index + int ?K)) ?B, fs)"
          using Cons.IH [of nxt data ?buf "index + int ?K"] Cons.prems l(3) d(7) x(4) fits
          by (auto simp: lc)
        ultimately have "rw_loop fs dev first ab db buf index sz True =
            Some (0, mwrite buf (nat index) (?A @ ?B), fs)"
          using unfold r(1) d(1-6) dev False False2 l(1) pos K mwrite_two [OF fits] A x(3)
          by (simp add: layout SID_NULL_def)
        moreover have "length ?bs = nat (- index) + (?K - nat (- index))"
          using lenK x(2) by simp
        from mread_append_exact [OF this, of ?rest "xfer (index + int ?K) sz (511 * length (cores ls))"]
        have "mread (cnt_bytes (fs_view fs) (cores (lc # ls))) (nat (- index))
            (xfer index sz (511 * length (cores (lc # ls)))) = ?A @ ?B"
          using y x(1) by (simp add: lc distrib_left)
        ultimately show ?thesis
          by simp
      qed
    qed
  qed
qed

end
