(* ===== verification/ContainerIo.thy ===== *)
theory ContainerIo
  imports ContainerRw
begin

text \<open>
  What \<open>fs_cnt_write\<close> and \<open>fs_cnt_read\<close> promise of a well-formed container: the chain of
  locators is walked to the end of the access, exactly the bytes asked for move, no other sector
  of any disk changes, and the errors leave the file system alone.
\<close>

section \<open>Writing along the chain of locators\<close>

lemma xfer_within: "sz \<le> index + int k \<Longrightarrow> 0 \<le> sz \<Longrightarrow> xfer index sz (k + j) = xfer index sz k"
  by (auto simp: xfer_def max_def min_def)

lemma xfer_bound: "index < sz \<Longrightarrow> - index \<le> int k \<Longrightarrow> nat (- index) + xfer index sz k \<le> k"
  by (auto simp: xfer_def)

lemma rw_loop_write:
  assumes "fs_inv fs" and "chain (fs_view fs) first ls" and "\<forall>c\<in>set (cores ls). core_ok (fs_view fs) c"
    and "\<forall>s\<in>set (map fst ls). sid_dev s = dev" and "distinct (sids ls)"
    and "length ab = 512" and "length db = 512" and "nat sz \<le> length buf"
    and "sz \<le> index + int (511 * length (cores ls))" and "0 \<le> sz"
  shows "\<exists>fs'. rw_loop fs dev first ab db buf index sz False = Some (0, buf, fs') \<and> fs_inv fs' \<and>
    (\<forall>s. s \<notin> set (cores ls) \<longrightarrow> fs_view fs' s = fs_view fs s) \<and>
    (\<forall>c\<in>set (cores ls). core_ok (fs_view fs') c) \<and> (\<forall>dev k. fs_room fs dev k \<longrightarrow> fs_room fs' dev k) \<and>
    cnt_bytes (fs_view fs') (cores ls) = mwrite (cnt_bytes (fs_view fs) (cores ls)) (nat (- index))
      (mread buf (nat index) (xfer index sz (511 * length (cores ls))))"
  using assms
proof (induction ls arbitrary: fs first db index)
  case Nil
  then show ?case by (simp add: rw_loop_done xfer_done)
next
  case (Cons lc ls)
  obtain l cs where lc: "lc = (l, cs)" by (cases lc)
  with Cons.prems(2) obtain nxt where l: "first = l" "loca_ok (fs_view fs) l cs nxt"
    "chain (fs_view fs) nxt ls" "ls \<noteq> [] \<Longrightarrow> length cs = 126"
    by auto
  from loca_access [OF Cons.prems(1) l(2) Cons.prems(7)] obtain d data where
    d: "fs_get_vdisk fs (sid_dev l) = Some d" "vdisk_is_sector_used d l = Some True"
    "vdisk_read_sector d l db = (0, data)" "data ! 0 = SF_LOCA"
    "links data = cs @ replicate (126 - length cs) 0" "get32 data 508 = nxt" "length data = 512"
    "0 \<notin> set cs" "length cs \<le> 126" .
  have dev: "sid_dev l = dev"
    using Cons.prems(4) by (simp add: lc)
  have cok: "\<forall>c\<in>set cs. core_ok (fs_view fs) c"
    using Cons.prems(3) by (simp add: lc)
  have dist: "distinct cs" "distinct (sids ls)" "set cs \<inter> set (sids ls) = {}"
    using Cons.prems(5) by (auto simp: lc)
  let ?K = "511 * length cs" and ?bs = "cnt_bytes (fs_view fs) cs"
    and ?rest = "cnt_bytes (fs_view fs) (cores ls)" and ?x = "xfer index sz (511 * length (cores (lc # ls)))"
  have lenK: "length ?bs = ?K"
    using length_cnt_bytes [OF Cons.prems(1) cok] .
  note unfold = rw_loop.simps [of fs dev first ab db buf index sz False]
  show ?case
  proof (cases "sz \<le> index")
    case True
    then show ?thesis
      using Cons.prems by (intro exI [of _ fs]) (auto simp: rw_loop_done xfer_done)
  next
    case False
    show ?thesis
    proof (cases "index + 64386 < 0")
      case True
      have "ls \<noteq> []"
        using Cons.prems(9,10) True d(9) by (auto simp: lc)
      then have K: "length cs = 126" "nxt \<noteq> 0"
        using l(3,4) chain_next_nz by auto
      obtain fs' where IH: "rw_loop fs dev nxt ab data buf (index + 64386) sz False = Some (0, buf, fs')"
        "fs_inv fs'" "\<forall>s. s \<notin> set (cores ls) \<longrightarrow> fs_view fs' s = fs_view fs s"
        "\<forall>c\<in>set (cores ls). core_ok (fs_view fs') c" "\<forall>dev k. fs_room fs dev k \<longrightarrow> fs_room fs' dev k"
        "cnt_bytes (fs_view fs') (cores ls) = mwrite ?rest (nat (- (index + 64386)))
          (mread buf (nat (index + 64386)) (xfer (index + 64386) sz (511 * length (cores ls))))"
        using Cons.IH [of fs nxt data "index + 64386"] Cons.prems l(3) d(7) K(1) dist(2) by (auto simp: lc)
      have cs: "fs_view fs' c = fs_view fs c" if "c \<in> set cs" for c
        using IH(3) dist(3) that by auto
      have "nat (- index) = 64386 + nat (- (index + 64386))" "nat (index + 64386) = nat index"
        using True by auto
      then have "cnt_bytes (fs_view fs') (cores (lc # ls)) =
          mwrite (cnt_bytes (fs_view fs) (cores (lc # ls))) (nat (- index)) (mread buf (nat index) ?x)"
        using IH(6) K(1) lenK cnt_bytes_cong [of cs "fs_view fs'" "fs_view fs", OF cs]
          xfer_skip [of index 64386 sz "511 * length (cores ls)"] True
        by (simp add: lc mwrite_append_right)
      moreover have "rw_loop fs dev first ab db buf index sz False = Some (0, buf, fs')"
        using unfold IH(1) True d(1-6) dev False l(1) K
        by (simp add: layout SID_NULL_def algebra_simps)
      moreover have "\<forall>c\<in>set cs. core_ok (fs_view fs') c"
        using cs cok core_ok_cong by metis
      ultimately show ?thesis
        using IH(2-5) by (intro exI [of _ fs']) (auto simp: lc)
    next
      case False2: False
      have "sz \<le> index + 511 * int (length cs) \<or> 126 - length cs = 0"
        using l(4) Cons.prems(9) by (cases "ls = []") (auto simp: lc)
      from rw_links_write [OF Cons.prems(1) dist(1) d(8) cok Cons.prems(6,8) this Cons.prems(10)]
      obtain r fs1 where r: "rw_links fs (links data) buf sz False ab index = Some (r, buf, fs1)"
        "links_end index sz ?K r"
        and fs1: "fs_inv fs1" "\<And>s. s \<notin> set cs \<Longrightarrow> fs_view fs1 s = fs_view fs s"
        "\<forall>c\<in>set cs. core_ok (fs_view fs1) c" "\<And>dev k. fs_room fs dev k \<Longrightarrow> fs_room fs1 dev k"
        "cnt_bytes (fs_view fs1) cs = mwrite ?bs (nat (- index)) (mread buf (nat index) (xfer index sz ?K))"
        unfolding d(5) by auto
      have same: "fs_view fs1 s = fs_view fs s" if "s \<in> set (sids ls)" for s
        using fs1(2) dist(3) that by auto
      have rest: "cnt_bytes (fs_view fs1) (cores ls) = ?rest"
        using same by (intro cnt_bytes_cong) auto
      have ok1: "\<forall>c\<in>set (cores ls). core_ok (fs_view fs1) c"
        using Cons.prems(3) same core_ok_cong [of "fs_view fs1" _ "fs_view fs"] by (auto simp: lc)
      show ?thesis
      proof (cases "sz \<le> index + int ?K")
        case True
        have x: "?x = xfer index sz ?K" "nat (- index) + xfer index sz ?K \<le> ?K"
          using xfer_within [OF True Cons.prems(10), of "511 * length (cores ls)"] True False Cons.prems(10)
          by (auto simp: lc distrib_left xfer_def max_def)
        have "length (mread buf (nat index) (xfer index sz ?K)) = xfer index sz ?K"
          using xfer_fits [of index sz ?K] Cons.prems(8) False by simp
        then have "cnt_bytes (fs_view fs1) (cores (lc # ls)) =
            mwrite (cnt_bytes (fs_view fs) (cores (lc # ls))) (nat (- index)) (mread buf (nat index) ?x)"
          unfolding x(1) using fs1(5) rest x(2) lenK by (simp add: lc mwrite_append_left)
        moreover from r(2) True have "r = Inl 0 \<or> (\<exists>i\<ge>sz. r = Inr i)"
          by (simp add: links_end_def)
        then have "rw_loop fs dev first ab db buf index sz False = Some (0, buf, fs1)"
          using unfold r(1) d(1-6) dev False False2 l(1) by (auto simp: layout rw_loop_done)
        ultimately show ?thesis
          using fs1 ok1 by (intro exI [of _ fs1]) (auto simp: lc)
      next
        case False3: False
        then have "ls \<noteq> []"
          using Cons.prems(9) by (auto simp: lc)
        then have K: "length cs = 126" "nxt \<noteq> 0"
          using l(3,4) chain_next_nz by auto
        have pos: "0 \<le> index + int ?K" "index + int ?K < sz"
          using False2 False3 K(1) by auto
        note y = xfer_pass_nat(1) [OF pos, of "511 * length (cores ls)"]
        note x = xfer_pass_nat(2-5) [OF pos]
        let ?n = "xfer (index + int ?K) sz (511 * length (cores ls))"
        have chain1: "chain (fs_view fs1) nxt ls"
          using l(3) chain_cong [of ls "fs_view fs1" "fs_view fs" nxt] same by auto
        have "r = Inr (index + int ?K)"
          using r(2) False3 by (simp add: links_end_def)
        moreover obtain fs' where IH: "rw_loop fs1 dev nxt ab data buf (index + int ?K) sz False = Some (0, buf, fs')"
          "fs_inv fs'" "\<forall>s. s \<notin> set (cores ls) \<longrightarrow> fs_view fs' s = fs_view fs1 s"
          "\<forall>c\<in>set (cores ls). core_ok (fs_view fs') c" "\<forall>dev k. fs_room fs1 dev k \<longrightarrow> fs_room fs' dev k"
          "cnt_bytes (fs_view fs') (cores ls) = mwrite ?rest (nat (- (index + int ?K)))
            (mread buf (nat (index + int ?K)) ?n)"
          using Cons.IH [OF fs1(1) chain1 ok1, of data "index + int ?K"] Cons.prems d(7) dist(2) rest
          by (auto simp: lc)
        ultimately have run: "rw_loop fs dev first ab db buf index sz False = Some (0, buf, fs')"
          using unfold r(1) d(1-6) dev False False2 l(1) pos K by (simp add: layout SID_NULL_def)
        have cs: "fs_view fs' c = fs_view fs1 c" if "c \<in> set cs" for c
          using IH(3) dist(3) that by auto
        let ?A = "mread buf (nat index) (?K - nat (- index))"
          and ?B = "mread buf (nat index + (?K - nat (- index))) ?n"
        have "length ?A = ?K - nat (- index)"
          using xfer_fits [of index sz ?K] x(1) Cons.prems(8) False by simp
        then have "length ?bs = nat (- index) + length ?A"
          using lenK x(2) by simp
        from mwrite_append_exact [OF this, of ?rest ?B]
        have "cnt_bytes (fs_view fs') (cores (lc # ls)) =
            mwrite (cnt_bytes (fs_view fs) (cores (lc # ls))) (nat (- index)) (?A @ ?B)"
          using IH(6) fs1(5) cnt_bytes_cong [of cs "fs_view fs'" "fs_view fs1", OF cs] x(1,3,4)
          by (simp add: lc)
        moreover have "mread buf (nat index) ?x = ?A @ ?B"
          using y by (simp add: lc distrib_left mread_split)
        moreover have "\<forall>c\<in>set cs. core_ok (fs_view fs') c"
          using cs fs1(3) core_ok_cong by metis
        ultimately show ?thesis
          using run IH(2-5) fs1(2,4) by (intro exI [of _ fs']) (auto simp: lc)
      qed
    qed
  qed
qed

section \<open>Reading and writing a container\<close>

lemma cnt_max_lt: "n \<le> cnt_max \<Longrightarrow> n < 2 ^ 31 - 1"
  by (simp add: cnt_max_def)

text \<open>What both directions find in the header of a container.\<close>

lemma fs_cnt_rw_header:
  assumes "cnt_holds fs head ls xs"
  obtains first where "chain (fs_view fs) first ls" "sid_dev first = sid_dev head" "first \<noteq> 0"
    "fs_get_vdisk fs (sid_dev head) \<noteq> None"
    "\<forall>buf off n b. fs_cnt_rw fs head buf off n b =
      (if off + n > word_of_nat (length xs) then Some (1, buf, fs)
       else do {
         (r, buf, fs) \<leftarrow> fs_cnt_rw_loca fs first buf off (sint n) b;
         if r \<noteq> 0 then Some (1, buf, fs) else Some (0, buf, fs)
       })"
proof -
  from assms obtain data where h: "fs_inv fs" "fs_view fs head = Some data" "data ! 0 = SF_HEAD"
    "get32 data 65 = word_of_nat (length xs)" "chain (fs_view fs) (get32 data 508) ls" "ls \<noteq> []"
    "\<forall>s\<in>set (sids ls). sid_dev s = sid_dev head"
    by (elim cnt_holdsD)
  from fs_view_SomeD [OF h(1,2)] obtain d where d: "fs_get_vdisk fs (sid_dev head) = Some d"
    "vdisk_is_sector_used d head = Some True" "vdisk_load_sector d head = Some data"
    by blast
  have nz: "get32 data 508 \<noteq> 0"
    using h(5,6) chain_next_nz by blast
  moreover have "sid_dev (get32 data 508) = sid_dev head"
    using h(5-7) by (cases ls) auto
  ultimately show ?thesis
    using that [of "get32 data 508"] h d by (simp add: fs_cnt_rw_def layout)
qed

lemma plus_no_wrap:
  "unat (off :: u32) + unat n < 2 ^ 32 \<Longrightarrow> k < 2 ^ 32 \<Longrightarrow>
   off + n > word_of_nat k \<longleftrightarrow> unat off + unat n > k"
  by (simp add: word_less_nat_alt unat_word_of_nat unat_word_ariths)

lemma fs_cnt_read_holds:
  assumes "cnt_holds fs head ls xs" and "unat off + unat n \<le> length xs" and "unat n \<le> length buf"
  shows "fs_cnt_read fs head buf off n = Some (0, mwrite buf 0 (mread xs (unat off) (unat n)), fs)"
proof -
  from fs_cnt_rw_header [OF assms(1)] obtain first where
    f: "chain (fs_view fs) first ls" "sid_dev first = sid_dev head"
      "first \<noteq> 0" "fs_get_vdisk fs (sid_dev head) \<noteq> None" and
    run: "\<forall>buf off n b. fs_cnt_rw fs head buf off n b =
      (if off + n > word_of_nat (length xs) then Some (1, buf, fs)
       else do {
         (r, buf, fs) \<leftarrow> fs_cnt_rw_loca fs first buf off (sint n) b;
         if r \<noteq> 0 then Some (1, buf, fs) else Some (0, buf, fs)
       })" .
  obtain data where h: "fs_inv fs" "\<forall>c\<in>set (cores ls). core_ok (fs_view fs) c"
    "\<forall>s\<in>set (sids ls). sid_dev s = sid_dev head" "length xs \<le> 511 * length (cores ls)"
    "length xs \<le> cnt_max" "take (length xs) (cnt_bytes (fs_view fs) (cores ls)) = xs"
    using assms(1) by (elim cnt_holdsD)
  have lt: "unat off < 2 ^ 31" "unat n < 2 ^ 31"
    using assms(2) cnt_max_lt [OF h(5)] by auto
  have le: "int (unat n) \<le> - int (unat off) + int (511 * length (cores ls))" "nat (int (unat n)) \<le> length buf"
    using assms(2,3) h(4) by linarith+
  let ?x = "xfer (- int (unat off)) (int (unat n)) (511 * length (cores ls))"
  have x: "?x = unat n"
    using assms(2) h(4) by (simp add: xfer_def)
  have z: "length (replicate FS_SECTOR_SIZE 0) = 512" "\<forall>s\<in>set (map fst ls). sid_dev s = sid_dev head"
    using h(3) by (simp_all add: layout)
  have "rw_loop fs (sid_dev head) first (replicate FS_SECTOR_SIZE 0) (replicate FS_SECTOR_SIZE 0) buf
      (- int (unat off)) (int (unat n)) True = Some (0, mwrite buf 0
        (mread (cnt_bytes (fs_view fs) (cores ls)) (unat off) (unat n)), fs)"
    using rw_loop_read [OF h(1) f(1) h(2) z(2,1,1) le(2,1)] unfolding x by simp
  moreover have "mread (cnt_bytes (fs_view fs) (cores ls)) (unat off) (unat n) = mread xs (unat off) (unat n)"
    using assms(2) arg_cong [OF h(6), of "\<lambda>b. mread b (unat off) (unat n)"]
    by (simp add: mread_def drop_take)
  moreover have "\<not> off + n > word_of_nat (length xs)"
    using plus_no_wrap [of off n "length xs"] assms(2) cnt_max_lt [OF h(5)] by simp
  ultimately show ?thesis
    using f lt by (auto simp: fs_cnt_read_def run fs_cnt_rw_loca_def sint_small sint_neg_small)
qed

lemma fs_cnt_write_holds:
  assumes "cnt_holds fs head ls xs" and "unat off + unat n \<le> length xs" and "unat n \<le> length buf"
  shows "\<exists>fs'. fs_cnt_write fs head buf off n = Some (0, buf, fs') \<and>
    cnt_holds fs' head ls (mwrite xs (unat off) (take (unat n) buf)) \<and>
    (\<forall>s. s \<notin> set (cores ls) \<longrightarrow> fs_view fs' s = fs_view fs s) \<and>
    (\<forall>dev k. fs_room fs dev k \<longrightarrow> fs_room fs' dev k)"
proof -
  from fs_cnt_rw_header [OF assms(1)] obtain first where
    f: "chain (fs_view fs) first ls" "sid_dev first = sid_dev head"
      "first \<noteq> 0" "fs_get_vdisk fs (sid_dev head) \<noteq> None" and
    run: "\<forall>buf off n b. fs_cnt_rw fs head buf off n b =
      (if off + n > word_of_nat (length xs) then Some (1, buf, fs)
       else do {
         (r, buf, fs) \<leftarrow> fs_cnt_rw_loca fs first buf off (sint n) b;
         if r \<noteq> 0 then Some (1, buf, fs) else Some (0, buf, fs)
       })" .
  from assms(1) obtain data where h: "fs_inv fs" "\<forall>c\<in>set (cores ls). core_ok (fs_view fs) c"
    "\<forall>s\<in>set (sids ls). sid_dev s = sid_dev head" "length xs \<le> 511 * length (cores ls)"
    "length xs \<le> cnt_max" "take (length xs) (cnt_bytes (fs_view fs) (cores ls)) = xs"
    and hd: "fs_view fs head = Some data" "data ! 0 = SF_HEAD" "ls \<noteq> []"
    "get32 data 65 = word_of_nat (length xs)" "chain (fs_view fs) (get32 data 508) ls"
    "distinct (head # sids ls)" "sid_dev head \<noteq> 0"
    by (elim cnt_holdsD)
  have lt: "unat off < 2 ^ 31" "unat n < 2 ^ 31"
    using assms(2) cnt_max_lt [OF h(5)] by auto
  have le: "int (unat n) \<le> - int (unat off) + int (511 * length (cores ls))" "nat (int (unat n)) \<le> length buf"
    using assms(2,3) h(4) by linarith+
  let ?x = "xfer (- int (unat off)) (int (unat n)) (511 * length (cores ls))"
  let ?xs = "mwrite xs (unat off) (take (unat n) buf)" and ?b = "cnt_bytes (fs_view fs) (cores ls)"
  have x: "?x = unat n"
    using assms(2) h(4) by (simp add: xfer_def)
  have z: "length (replicate FS_SECTOR_SIZE 0) = 512" "\<forall>s\<in>set (map fst ls). sid_dev s = sid_dev head"
    "distinct (sids ls)"
    using h(3) hd(6) by (simp_all add: layout)
  from rw_loop_write [OF h(1) f(1) h(2) z(2,3,1,1) le(2,1)]
  obtain fs' where w: "rw_loop fs (sid_dev head) first (replicate FS_SECTOR_SIZE 0)
      (replicate FS_SECTOR_SIZE 0) buf (- int (unat off)) (int (unat n)) False = Some (0, buf, fs')"
    "fs_inv fs'" "\<forall>s. s \<notin> set (cores ls) \<longrightarrow> fs_view fs' s = fs_view fs s"
    "\<forall>c\<in>set (cores ls). core_ok (fs_view fs') c" "\<forall>dev k. fs_room fs dev k \<longrightarrow> fs_room fs' dev k"
    "cnt_bytes (fs_view fs') (cores ls) = mwrite ?b (unat off) (mread buf 0 (unat n))"
    unfolding x by auto
  have len: "length ?xs = length xs" "mread buf 0 (unat n) = take (unat n) buf"
    using assms(2,3) by (simp_all add: mread_def)
  have "length xs \<le> length ?b"
    using length_cnt_bytes [OF h(1,2)] h(4) by simp
  then have "take (length xs) (mwrite ?b (unat off) (take (unat n) buf)) = ?xs"
    using assms(2,3) h(6) by (intro take_mwrite) auto
  moreover have "\<not> off + n > word_of_nat (length xs)"
    using plus_no_wrap [of off n "length xs"] assms(2) cnt_max_lt [OF h(5)] by simp
  then have "fs_cnt_write fs head buf off n = Some (0, buf, fs')"
    using f lt w(1) by (auto simp: fs_cnt_write_def run fs_cnt_rw_loca_def sint_small sint_neg_small)
  moreover have same: "fs_view fs' s = fs_view fs s" if "s = head \<or> s \<in> set (map fst ls)" for s
  proof -
    have "set (map fst ls) \<inter> set (cores ls) = {}" "head \<notin> set (cores ls)"
      using hd(6) by auto
    then show ?thesis
      using w(3) that by blast
  qed
  have "container (fs_view fs') head (length xs) ls"
    unfolding container_def
  proof (intro conjI exI)
    show "chain (fs_view fs') (get32 data 508) ls"
      using hd(5) chain_cong [of ls "fs_view fs'" "fs_view fs"] same by metis
    show "fs_view fs' head = Some data" "unat (get32 data 65) = length xs"
      using same hd(1,4) cnt_max_lt [OF h(5)] by (simp_all add: unat_word_of_nat)
  qed (use h(3,4) hd(2,3,6,7) w(4) in blast)+
  ultimately show ?thesis
    using w h(5) len by (intro exI [of _ fs']) (simp add: cnt_holds_def)
qed

end
