(* ===== verification/ContainerSize.thy ===== *)
theory ContainerSize
  imports ContainerIo
begin

text \<open>
  Changing the size of a container (\<open>ctr_size.c\<close>): sectors are added after the last core, in new
  locators when the last one is full, or removed from the end.  The size is measured in cores:
  the old one is rounded up, the new one is \<open>size / 511 + 1\<close>.

  The \<open>vdisk_t *\<close> that the functions keep is the slot \<open>dev\<close> of the table.
\<close>

definition load_at :: "filesys \<Rightarrow> byte \<Rightarrow> u32 \<Rightarrow> byte list option" where
  "load_at fs dev sid = do { d \<leftarrow> fs_get_vdisk fs dev; vdisk_load_sector d sid }"

definition is_used_at :: "filesys \<Rightarrow> byte \<Rightarrow> u32 \<Rightarrow> bool option" where
  "is_used_at fs dev sid = do { d \<leftarrow> fs_get_vdisk fs dev; vdisk_is_sector_used d sid }"

section \<open>Shrinking\<close>

text \<open>The loop that removes cores, from the last link (byte 504) down to the first (byte 4).\<close>

fun shrink_links :: "filesys \<Rightarrow> byte \<Rightarrow> byte list \<Rightarrow> nat \<Rightarrow> u32 \<Rightarrow> (u32 \<times> byte list \<times> filesys) option" where
  "shrink_links fs dev data 0 to_shrink = Some (to_shrink, data, fs)"
| "shrink_links fs dev data (Suc i) to_shrink =
     (if to_shrink = 0 then Some (to_shrink, data, fs)
      else do {
        let core_sid = get32 data (Suc i * 4);
        if core_sid = 0 then shrink_links fs dev data i to_shrink
        else do {
          (_, fs) \<leftarrow> note_unused_at fs dev core_sid;
          shrink_links fs dev (put32 data (Suc i * 4) 0) i (to_shrink - 1)
        }
      })"

partial_function (option) fs_cnt_shrink_size :: "filesys \<Rightarrow> u32 \<Rightarrow> u32 \<Rightarrow> (int \<times> filesys) option" where
  "fs_cnt_shrink_size fs loca_sid to_shrink =
     (case fs_get_vdisk fs (sid_dev loca_sid) of None \<Rightarrow> Some (-1, fs)
      | Some d \<Rightarrow> do {
          u \<leftarrow> vdisk_is_sector_used d loca_sid;
          if \<not> u then Some (-1, fs)
          else do {
            data \<leftarrow> vdisk_load_sector d loca_sid;
            if data ! 0 \<noteq> SF_LOCA then Some (-1, fs)
            else do {
              let next_sid = get32 data LAST_SID_OFFSET;
              (ret, fs) \<leftarrow> (if next_sid \<noteq> SID_NULL then fs_cnt_shrink_size fs next_sid to_shrink
                          else Some (1, fs));
              if ret \<le> 0 then do {
                fs \<leftarrow> unload_at fs (sid_dev loca_sid) loca_sid data False;
                Some (if ret = 0 then -2 else ret, fs)
              }
              else do {
                let (data, to_shrink) = (if next_sid \<noteq> SID_NULL
                  then (put32 data LAST_SID_OFFSET 0, word_of_int ret) else (data, to_shrink));
                (to_shrink, data, fs) \<leftarrow>
                  shrink_links fs (sid_dev loca_sid) data (LAST_SID_OFFSET div 4 - 1) to_shrink;
                (_, fs) \<leftarrow> (if to_shrink \<noteq> 0 then note_unused_at fs (sid_dev loca_sid) loca_sid
                          else Some (0, fs));
                fs \<leftarrow> unload_at fs (sid_dev loca_sid) loca_sid data True;
                Some (sint to_shrink, fs)
              }
            }
          }
        })"

section \<open>Growing\<close>

text \<open>The walk to the last locator: \<open>Inl r\<close> is \<open>return r\<close>.\<close>

partial_function (option) grow_last :: "filesys \<Rightarrow> byte \<Rightarrow> u32 \<Rightarrow> (int + u32) option" where
  "grow_last fs dev loca_sid = do {
     u \<leftarrow> is_used_at fs dev loca_sid;
     if \<not> u then Some (Inl (-1))
     else do {
       data \<leftarrow> load_at fs dev loca_sid;
       if data ! 0 \<noteq> SF_LOCA then Some (Inl (-1))
       else do {
         let next_sid = get32 data LAST_SID_OFFSET;
         if next_sid = SID_NULL then Some (Inr loca_sid) else grow_last fs dev next_sid
       }
     }
   }"

text \<open>
  The loop \<open>while (core_count < LINKS_IN_LOCA && to_grow > 0)\<close>: \<open>Inl r\<close> is \<open>return r\<close>,
  \<open>Inr (to_grow, data)\<close> the state when the loop ends.
\<close>

fun grow_fill :: "filesys \<Rightarrow> byte \<Rightarrow> u32 \<Rightarrow> byte list \<Rightarrow> nat \<Rightarrow> nat \<Rightarrow>
    ((int + nat \<times> byte list) \<times> filesys) option" where
  "grow_fill fs dev loca_sid data core_count 0 = Some (Inr (0, data), fs)"
| "grow_fill fs dev loca_sid data core_count (Suc to_grow) =
     (if core_count \<ge> LINKS_IN_LOCA then Some (Inr (Suc to_grow, data), fs)
      else do {
        (ret, fs) \<leftarrow> get_unused_at fs dev;
        let core_sid = SID_FORMAT (SID_DISK loca_sid) ret;
        if core_sid = SID_NULL then do {
          fs \<leftarrow> unload_at fs dev loca_sid data False;
          Some (Inl (-1), fs)
        }
        else do {
          (e, fs) \<leftarrow> init_sector_at fs dev core_sid SF_CORE;
          if e = -1 then do {
            fs \<leftarrow> unload_at fs dev loca_sid data False;
            Some (Inl (-1), fs)
          }
          else grow_fill fs dev loca_sid (put32 data ((core_count + 1) * 4) core_sid)
                 (core_count + 1) to_grow
        }
      })"

text \<open>The loop \<open>while (to_grow > 0)\<close> over new locators, with the statements after it.\<close>

partial_function (option) grow_loop :: "filesys \<Rightarrow> byte \<Rightarrow> u32 \<Rightarrow> byte list \<Rightarrow> nat \<Rightarrow>
    (int \<times> filesys) option" where
  "grow_loop fs dev loca_sid data to_grow =
     (if to_grow = 0 then do {
        fs \<leftarrow> unload_at fs dev loca_sid data True;
        Some (0, fs)
      }
      else do {
        (ret, fs) \<leftarrow> get_unused_at fs dev;
        let new_loca_sid = SID_FORMAT (SID_DISK loca_sid) ret;
        if new_loca_sid = SID_NULL then do {
          fs \<leftarrow> unload_at fs dev loca_sid data False;
          Some (-1, fs)
        }
        else do {
          (e, fs) \<leftarrow> init_sector_at fs dev new_loca_sid SF_LOCA;
          if e = -1 then do {
            fs \<leftarrow> unload_at fs dev loca_sid data False;
            Some (-1, fs)
          }
          else do {
            let data = put32 data LAST_SID_OFFSET new_loca_sid;
            fs \<leftarrow> unload_at fs dev loca_sid data True;
            data \<leftarrow> load_at fs dev new_loca_sid;
            (flow, fs) \<leftarrow> grow_fill fs dev new_loca_sid data 0 to_grow;
            case flow of Inl r \<Rightarrow> Some (r, fs)
            | Inr (to_grow, data) \<Rightarrow> grow_loop fs dev new_loca_sid data to_grow
          }
        }
      })"

definition fs_cnt_grow_size :: "filesys \<Rightarrow> u32 \<Rightarrow> u32 \<Rightarrow> (int \<times> filesys) option" where
  "fs_cnt_grow_size fs loca_sid to_grow =
     (let dev = sid_dev loca_sid in
      case fs_get_vdisk fs dev of None \<Rightarrow> Some (-1, fs)
      | Some _ \<Rightarrow> do {
          flow \<leftarrow> grow_last fs dev loca_sid;
          case flow of Inl r \<Rightarrow> Some (r, fs)
          | Inr loca_sid \<Rightarrow> do {
              data \<leftarrow> load_at fs dev loca_sid;
              let core_count = length (takeWhile (\<lambda>core_sid. core_sid \<noteq> SID_NULL) (links data));
              (flow, fs) \<leftarrow> grow_fill fs dev loca_sid data core_count (unat to_grow);
              case flow of Inl r \<Rightarrow> Some (r, fs)
              | Inr (to_grow, data) \<Rightarrow>
                  if to_grow = 0 then do {
                    fs \<leftarrow> unload_at fs dev loca_sid data True;
                    Some (0, fs)
                  }
                  else grow_loop fs dev loca_sid data to_grow
            }
        })"

definition fs_cnt_set_size :: "filesys \<Rightarrow> u32 \<Rightarrow> u32 \<Rightarrow> (int \<times> filesys) option" where
  "fs_cnt_set_size fs head_sid sz =
     (case fs_get_vdisk fs (sid_dev head_sid) of None \<Rightarrow> Some (1, fs)
      | Some d \<Rightarrow> do {
          u \<leftarrow> vdisk_is_sector_used d head_sid;
          if \<not> u then Some (1, fs)
          else do {
            data \<leftarrow> vdisk_load_sector d head_sid;
            if data ! 0 \<noteq> SF_HEAD then Some (1, fs)
            else do {
              let old_count = get32 data (1 + META_MAXLEN);
              let new_count = sz div word_of_nat BYTE_IN_CORE;
              let old_count = old_count div word_of_nat BYTE_IN_CORE +
                (if old_count mod word_of_nat BYTE_IN_CORE \<noteq> 0 then 1 else 0);
              let new_count = (if sz \<noteq> 0 then new_count + 1 else new_count);
              let loca_sid = get32 data LAST_SID_OFFSET;
              (ret, fs) \<leftarrow>
                (if old_count < new_count then fs_cnt_grow_size fs loca_sid (new_count - old_count)
                 else if old_count > new_count then do {
                   (ret, fs) \<leftarrow> fs_cnt_shrink_size fs loca_sid (old_count - new_count);
                   Some (if ret = -2 then 0 else ret, fs)
                 }
                 else Some (0, fs));
              if ret \<noteq> 0 then do {
                fs \<leftarrow> unload_at fs (sid_dev head_sid) head_sid data False;
                Some (1, fs)
              }
              else do {
                fs \<leftarrow> unload_at fs (sid_dev head_sid) head_sid
                  (put32 data (1 + META_MAXLEN) sz) True;
                Some (0, fs)
              }
            }
          }
        })"

section \<open>The links of a locator\<close>

lemma links_put32:
  assumes "length data = 512" and "i < 126"
  shows "links (put32 data (Suc i * 4) c) = (links data)[i := c]"
proof (rule nth_equalityI)
  fix j assume "j < length (links (put32 data (Suc i * 4) c))"
  then have j: "j < 126" by simp
  have "j = i \<or> Suc j * 4 + 4 \<le> Suc i * 4 \<or> Suc i * 4 + 4 \<le> Suc j * 4"
    by arith
  then show "links (put32 data (Suc i * 4) c) ! j = (links data)[i := c] ! j"
    using assms j by (auto simp: links_def layout mem_simps)
qed simp

lemma get32_link: "i < 126 \<Longrightarrow> get32 data (Suc i * 4) = links data ! i"
  by (simp add: links_def layout)

lemma put32_link_frame:
  assumes "length data = 512" and "i < 126"
  shows "length (put32 data (Suc i * 4) c) = 512" "put32 data (Suc i * 4) c ! 0 = data ! 0"
    "get32 (put32 data (Suc i * 4) c) 508 = get32 data 508"
  using assms by (simp_all add: mem_simps)

lemma links_put_next:
  assumes "length data = 512"
  shows "links (put32 data 508 c) = links data" "length (put32 data 508 c) = 512"
    "put32 data 508 c ! 0 = data ! 0" "get32 (put32 data 508 c) 508 = c"
proof -
  show "links (put32 data 508 c) = links data"
    by (rule nth_equalityI) (use assms in \<open>simp_all add: links_def layout mem_simps\<close>)
qed (use assms in \<open>simp_all add: mem_simps\<close>)

text \<open>A locator buffer: type, links, next.\<close>

definition loca_buf :: "byte list \<Rightarrow> u32 list \<Rightarrow> u32 \<Rightarrow> bool" where
  "loca_buf data cs nxt \<longleftrightarrow> length data = 512 \<and> data ! 0 = SF_LOCA \<and> length cs \<le> 126 \<and> 0 \<notin> set cs \<and>
     links data = cs @ replicate (126 - length cs) 0 \<and> get32 data 508 = nxt"

lemma loca_ok_buf:
  "fs_inv fs \<Longrightarrow> loca_ok (fs_view fs) l cs nxt \<longleftrightarrow> (\<exists>data. fs_view fs l = Some data \<and> loca_buf data cs nxt)"
  using fs_view_length by (fastforce simp: loca_ok_def loca_buf_def FS_SECTOR_SIZE_def)

lemma loca_okI: "m l = Some data \<Longrightarrow> loca_buf data cs nxt \<Longrightarrow> loca_ok m l cs nxt"
  by (auto simp: loca_ok_def loca_buf_def)

lemma loca_buf_blank: "loca_buf (blank SF_LOCA) [] 0"
  by (simp add: loca_buf_def links_blank get32_blank FS_SECTOR_SIZE_def)

lemma loca_buf_next: "loca_buf data cs nxt \<Longrightarrow> loca_buf (put32 data 508 l) cs l"
  by (auto simp: loca_buf_def links_put_next)

lemma loca_buf_add:
  assumes "loca_buf data cs nxt" and "length cs < 126" and "c \<noteq> 0"
  shows "loca_buf (put32 data (Suc (length cs) * 4) c) (cs @ [c]) nxt"
proof -
  have "126 - length cs = Suc (126 - Suc (length cs))"
    using assms(2) by simp
  then show ?thesis
    using assms put32_link_frame [of data "length cs" c] links_put32 [of data "length cs" c]
    by (auto simp: loca_buf_def list_update_append)
qed

lemma loca_buf_remove:
  assumes "loca_buf data (cs @ [c]) nxt"
  shows "loca_buf (put32 data (Suc (length cs) * 4) 0) cs nxt"
proof -
  have "126 - length cs = Suc (126 - Suc (length cs))" "length cs < 126"
    using assms by (auto simp: loca_buf_def)
  then show ?thesis
    using assms put32_link_frame [of data "length cs" 0] links_put32 [of data "length cs" 0]
    by (auto simp: loca_buf_def list_update_append)
qed

section \<open>Shrinking a chain\<close>

lemma at_view:
  assumes "fs_inv fs" and "fs_view fs s = Some data" and "sid_dev s = dev"
  shows "fs_get_vdisk fs dev \<noteq> None" "is_used_at fs dev s = Some True" "load_at fs dev s = Some data"
    "length data = 512"
proof -
  from fs_view_SomeD [OF assms(1,2)] obtain d where "fs_get_vdisk fs (sid_dev s) = Some d"
    "vdisk_is_sector_used d s = Some True" "vdisk_load_sector d s = Some data" "length data = FS_SECTOR_SIZE"
    by blast
  then show "fs_get_vdisk fs dev \<noteq> None" "is_used_at fs dev s = Some True" "load_at fs dev s = Some data"
    "length data = 512"
    using assms(3) by (simp_all add: is_used_at_def load_at_def FS_SECTOR_SIZE_def)
qed

lemma unload_no_save:
  assumes "fs_get_vdisk fs dev = Some d"
  shows "unload_at fs dev sid data False = Some (fs_put_vdisk fs dev d)"
    "fs_inv fs \<Longrightarrow> fs_inv (fs_put_vdisk fs dev d)" "fs_view (fs_put_vdisk fs dev d) = fs_view fs"
    "fs_room (fs_put_vdisk fs dev d) dev' k = fs_room fs dev' k"
  using assms fs_view_put_same [OF assms, of d] fs_inv_get [of fs dev d]
  by (auto simp: unload_at_def vdisk_unload_sector_def fs_room_def fs_inv_put)

lemma unload_unused:
  assumes "fs_inv fs" and "fs_get_vdisk fs (sid_dev sid) \<noteq> None" and "fs_view fs sid = None"
    and "length data = 512"
  shows "\<exists>fs'. unload_at fs (sid_dev sid) sid data True = Some fs' \<and> fs_inv fs' \<and>
    fs_view fs' = fs_view fs \<and> (\<forall>dev k. fs_room fs dev k \<longrightarrow> fs_room fs' dev k)"
proof -
  from assms(2) obtain d where d: "fs_get_vdisk fs (sid_dev sid) = Some d"
    by blast
  note inv = fs_inv_get [OF assms(1) d]
  let ?d = "snd (vdisk_write_sector d sid data)"
  have "length data = FS_SECTOR_SIZE"
    using assms(4) by (simp add: FS_SECTOR_SIZE_def)
  note w = vd_write [OF _ this, of d sid]
  have "vd_view ?d = vd_view d"
    using w(2) inv assms(3) d by (simp add: fs_view_def)
  then show ?thesis
    using d w inv assms(1) fs_view_put_same [OF d, of ?d]
    by (intro exI [of _ "fs_put_vdisk fs (sid_dev sid) ?d"])
      (auto simp: unload_at_def vdisk_unload_sector_def fs_inv_put fs_room_def split: option.splits)
qed

lemma shrink_links_ok:
  assumes "fs_inv fs" and "loca_buf data cs nxt" and "length cs \<le> i" and "i \<le> 126" and "distinct cs"
    and "\<forall>c\<in>set cs. core_ok (fs_view fs) c \<and> sid_dev c = dev"
    and "m = length cs - unat n"
  shows "\<exists>data' fs'. shrink_links fs dev data i n = Some (word_of_nat (unat n - length cs), data', fs') \<and>
    loca_buf data' (take m cs) nxt \<and> fs_inv fs' \<and>
    fs_view fs' = (\<lambda>s. if s \<in> set (drop m cs) then None else fs_view fs s) \<and>
    (\<forall>dev k. fs_room fs dev k \<longrightarrow> fs_room fs' dev k) \<and>
    (\<forall>dev. fs_get_vdisk fs dev \<noteq> None \<longrightarrow> fs_get_vdisk fs' dev \<noteq> None)"
  using assms
proof (induction i arbitrary: fs data cs n m)
  case 0
  then show ?case by (auto simp: ucast_id)
next
  case (Suc i)
  show ?case
  proof (cases "n = 0")
    case True
    then show ?thesis
      using Suc.prems by auto
  next
    case False
    have link: "get32 data (Suc i * 4) = links data ! i"
      using Suc.prems(4) by (intro get32_link) simp
    show ?thesis
    proof (cases "length cs \<le> i")
      case True
      then have "get32 data (Suc i * 4) = 0"
        using Suc.prems(2,4) link by (simp add: loca_buf_def nth_append)
      then show ?thesis
        using Suc.IH [OF Suc.prems(1,2) True _ Suc.prems(5-7)] Suc.prems(4) False by simp
    next
      case False2: False
      then have len: "length cs = Suc i"
        using Suc.prems(3) by simp
      then obtain cs' c where cs: "cs = cs' @ [c]" "length cs' = i"
        by (metis length_append_singleton nat.inject rev_exhaust length_0_conv nat.distinct(1))
      have c: "get32 data (Suc i * 4) = c" "c \<noteq> 0"
        using Suc.prems(2) link cs by (auto simp: loca_buf_def nth_append)
      from Suc.prems(6) cs obtain cd where cd: "fs_view fs c = Some cd" "sid_dev c = dev"
        by (auto simp: core_ok_def)
      from disks.release_one [OF Suc.prems(1) cd(1)] cd(2) obtain fs1 where
        fs1: "note_unused_at fs dev c = Some (0, fs1)" "fs_inv fs1" "fs_view fs1 = (fs_view fs)(c := None)"
          "\<forall>dev k. fs_room fs dev k \<longrightarrow> fs_room fs1 dev k"
        by blast
      have get1: "fs_get_vdisk fs1 dev' \<noteq> None" if "fs_get_vdisk fs dev' \<noteq> None" for dev'
        using fs1(1) that by (auto simp: note_unused_at_def bind_Some_iff)
      have buf: "loca_buf (put32 data (Suc i * 4) 0) cs' nxt"
        using loca_buf_remove [of data cs' c nxt] Suc.prems(2) cs by simp
      have n: "unat n = Suc (unat (n - 1))"
        using \<open>n \<noteq> 0\<close> by (simp add: unat_minus_one unat_gt_0 [symmetric] del: unat_gt_0)
      have ok1: "\<forall>c\<in>set cs'. core_ok (fs_view fs1) c \<and> sid_dev c = dev"
        using Suc.prems(5,6) fs1(3) cs by (auto simp: core_ok_def)
      from Suc.IH [OF fs1(2) buf _ _ _ ok1 refl, of "n - 1"] obtain data' fs' where
        IH: "shrink_links fs1 dev (put32 data (Suc i * 4) 0) i (n - 1) =
            Some (word_of_nat (unat (n - 1) - length cs'), data', fs')"
          "loca_buf data' (take (length cs' - unat (n - 1)) cs') nxt" "fs_inv fs'"
          "fs_view fs' = (\<lambda>s. if s \<in> set (drop (length cs' - unat (n - 1)) cs') then None else fs_view fs1 s)"
          "\<forall>dev k. fs_room fs1 dev k \<longrightarrow> fs_room fs' dev k"
          "\<forall>dev. fs_get_vdisk fs1 dev \<noteq> None \<longrightarrow> fs_get_vdisk fs' dev \<noteq> None"
        using Suc.prems(4,5) cs by auto
      have m: "m = length cs' - unat (n - 1)" "m \<le> length cs'" "unat n - length cs = unat (n - 1) - length cs'"
        using Suc.prems(7) cs n by simp_all
      have "shrink_links fs dev data (Suc i) n =
          Some (word_of_nat (unat n - length cs), data', fs')"
        using IH(1) fs1(1) c \<open>n \<noteq> 0\<close> unfolding m(3) by simp
      then show ?thesis
        using IH(2-) fs1(3,4) get1 m(2) cs unfolding m(1)
        by (intro exI [of _ data'] exI [of _ fs']) (auto simp: fun_eq_iff)
    qed
  qed
qed

text \<open>
  Removing \<open>n\<close> cores from the chain \<open>ls\<close>.  When there are more to remove than the chain has, all
  its sectors are given back and the rest is returned; otherwise a shorter chain remains, whose
  cores are the first ones.
\<close>

lemma shrink_ok:
  assumes "fs_inv fs" and "chain (fs_view fs) first ls" and "ls \<noteq> []" and "distinct (sids ls)"
    and "\<forall>c\<in>set (cores ls). core_ok (fs_view fs) c" and "\<forall>s\<in>set (sids ls). sid_dev s = dev"
    and "unat n < 2 ^ 31"
  shows "\<exists>r fs' ls'. fs_cnt_shrink_size fs first n = Some (r, fs') \<and> fs_inv fs' \<and>
    (\<forall>dev k. fs_room fs dev k \<longrightarrow> fs_room fs' dev k) \<and>
    (\<forall>s. s \<notin> set (sids ls) \<longrightarrow> fs_view fs' s = fs_view fs s) \<and>
    (\<forall>s\<in>set (sids ls) - set (sids ls'). fs_view fs' s = None) \<and>
    (\<forall>s\<in>set (cores ls'). fs_view fs' s = fs_view fs s) \<and>
    set (map fst ls') \<subseteq> set (map fst ls) \<and> distinct (sids ls') \<and>
    cores ls' = take (length (cores ls) - unat n) (cores ls) \<and>
    (\<forall>dev. fs_get_vdisk fs dev \<noteq> None \<longrightarrow> fs_get_vdisk fs' dev \<noteq> None) \<and>
    (if length (cores ls) < unat n then r = int (unat n - length (cores ls)) \<and> ls' = []
     else r \<in> {0, -2} \<and> ls' \<noteq> [] \<and> chain (fs_view fs') first ls')"
  using assms
proof (induction ls arbitrary: fs first n)
  case Nil
  then show ?case by simp
next
  case (Cons lc ls)
  obtain l cs where lc: "lc = (l, cs)" by (cases lc)
  with Cons.prems(2) obtain nxt where l: "first = l" "l \<noteq> 0" "loca_ok (fs_view fs) l cs nxt"
    "chain (fs_view fs) nxt ls" "ls \<noteq> [] \<Longrightarrow> length cs = 126"
    by auto
  from l(3) obtain data where data: "fs_view fs l = Some data" "loca_buf data cs nxt"
    using loca_ok_buf [OF Cons.prems(1)] by blast
  have dev: "sid_dev l = dev" "\<forall>s\<in>set (sids ls). sid_dev s = dev"
    using Cons.prems(6) by (auto simp: lc)
  from fs_view_SomeD [OF Cons.prems(1) data(1)] obtain d where
    d: "fs_get_vdisk fs (sid_dev l) = Some d" "vdisk_is_sector_used d l = Some True"
    "vdisk_load_sector d l = Some data"
    by blast
  have dist: "distinct cs" "distinct (sids ls)" "set cs \<inter> set (sids ls) = {}" "l \<notin> set cs"
    "l \<notin> set (sids ls)"
    using Cons.prems(4) by (auto simp: lc)
  have cok: "\<forall>c\<in>set cs. core_ok (fs_view fs) c \<and> sid_dev c = dev"
    using Cons.prems(5,6) by (auto simp: lc)
  have nxt: "nxt \<noteq> 0 \<longleftrightarrow> ls \<noteq> []"
    using l(4) chain_next_nz [OF l(4)] by auto
  have cokr: "\<forall>c\<in>set (cores ls). core_ok (fs_view fs) c"
    using Cons.prems(5) by (simp add: lc)
  define n1 where "n1 = (if ls = [] then n else word_of_nat (unat n - length (cores ls)))"
  define data1 where "data1 = (if ls = [] then data else put32 data 508 0)"
  text \<open>The recursive call either stops here or leaves this locator the last one.\<close>
  show ?case
  proof (cases "ls \<noteq> [] \<and> unat n \<le> length (cores ls)")
    case True
    from Cons.IH [OF Cons.prems(1) l(4) conjunct1 [OF True] dist(2) cokr dev(2) Cons.prems(7)]
    obtain r fs1 ls' where IH: "fs_cnt_shrink_size fs nxt n = Some (r, fs1)" "fs_inv fs1"
      "\<forall>dev k. fs_room fs dev k \<longrightarrow> fs_room fs1 dev k"
      "\<forall>s. s \<notin> set (sids ls) \<longrightarrow> fs_view fs1 s = fs_view fs s"
      "\<forall>s\<in>set (sids ls) - set (sids ls'). fs_view fs1 s = None"
      "\<forall>s\<in>set (cores ls'). fs_view fs1 s = fs_view fs s"
      "set (map fst ls') \<subseteq> set (map fst ls)" "distinct (sids ls')"
      "cores ls' = take (length (cores ls) - unat n) (cores ls)"
      "\<forall>dev. fs_get_vdisk fs dev \<noteq> None \<longrightarrow> fs_get_vdisk fs1 dev \<noteq> None"
      "if length (cores ls) < unat n then r = int (unat n - length (cores ls)) \<and> ls' = []
       else r \<in> {0, -2} \<and> ls' \<noteq> [] \<and> chain (fs_view fs1) nxt ls'"
      by blast
    then have end1: "r \<in> {0, -2}" "ls' \<noteq> []" "chain (fs_view fs1) nxt ls'"
      using True by simp_all
    from d(1) IH(10) obtain d1 where d1: "fs_get_vdisk fs1 (sid_dev l) = Some d1"
      by blast
    note un = unload_no_save [OF d1]
    let ?fs = "fs_put_vdisk fs1 (sid_dev l) d1"
    have "fs_cnt_shrink_size fs first n = Some (-2, ?fs)"
      using d data(2) IH(1) end1(1) un(1) True nxt l(1)
      by (subst fs_cnt_shrink_size.simps) (auto simp: loca_buf_def layout SID_NULL_def)
    moreover have "chain (fs_view ?fs) first ((l, cs) # ls')"
      using IH(4) end1(2,3) l dist(5) True loca_ok_cong [of "fs_view fs1" l "fs_view fs" cs nxt] un(3) by auto
    moreover have "distinct (sids ((l, cs) # ls'))"
    proof -
      have "set (cores ls') \<subseteq> set (cores ls)"
        unfolding IH(9) by (rule set_take_subset)
      then have "set (sids ls') \<subseteq> set (sids ls)"
        using IH(7) by auto
      then have "l \<notin> set (sids ls')" "set cs \<inter> set (sids ls') = {}"
        using dist(3,5) by blast+
      then show ?thesis
        using IH(8) dist(1,4) by auto
    qed
    moreover have "fs_view ?fs s = fs_view fs s" if "s \<in> set cs" for s
      using IH(4) dist(3) that un(3) by auto
    moreover have "length cs \<le> length cs + length (cores ls) - unat n"
      using True by linarith
    then have "cores ((l, cs) # ls') = take (length (cores (lc # ls)) - unat n) (cores (lc # ls))"
      using IH(9) True by (simp add: lc)
    moreover have "fs_view ?fs s = None" if "s \<in> set (sids (lc # ls)) - set (sids ((l, cs) # ls'))" for s
      using IH(5) un(3) that by (auto simp: lc)
    moreover have "fs_view ?fs s = fs_view fs s" if "s \<in> set (cores ((l, cs) # ls'))" for s
      using that calculation(4) IH(6) un(3) by auto
    moreover have "fs_view ?fs s = fs_view fs s" if "s \<notin> set (sids (lc # ls))" for s
      using that IH(4) un(3) by (auto simp: lc)
    moreover have "set (map fst ((l, cs) # ls')) \<subseteq> set (map fst (lc # ls))"
      using IH(7) by (auto simp: lc)
    moreover have "\<not> length (cores (lc # ls)) < unat n"
      using True by (simp add: lc)
    moreover have "fs_inv ?fs" "\<forall>dev k. fs_room fs dev k \<longrightarrow> fs_room ?fs dev k"
      "\<forall>dev. fs_get_vdisk fs dev \<noteq> None \<longrightarrow> fs_get_vdisk ?fs dev \<noteq> None"
      using un(2,4) IH(2,3,10) by auto
    ultimately show ?thesis
      by (intro exI [of _ "-2"] exI [of _ ?fs] exI [of _ "(l, cs) # ls'"]) (simp only: if_False, blast)
  next
    case False
    obtain r fs1 where rec: "(if nxt \<noteq> 0 then fs_cnt_shrink_size fs nxt n else Some (1, fs)) = Some (r, fs1)"
        "r > 0" "nxt \<noteq> 0 \<Longrightarrow> word_of_int r = n1" "fs_inv fs1"
      and view1: "fs_view fs1 = (\<lambda>s. if s \<in> set (sids ls) then None else fs_view fs s)"
      and room1: "\<forall>dev k. fs_room fs dev k \<longrightarrow> fs_room fs1 dev k"
        "\<forall>dev. fs_get_vdisk fs dev \<noteq> None \<longrightarrow> fs_get_vdisk fs1 dev \<noteq> None"
    proof (cases "ls = []")
      case True
      then show ?thesis
        using that [of 1 fs] nxt Cons.prems(1) by auto
    next
      case ne: False
      have lt: "length (cores ls) < unat n"
        using False ne by auto
      from Cons.IH [OF Cons.prems(1) l(4) ne dist(2) cokr dev(2) Cons.prems(7)] lt
      obtain r fs1 where IH: "fs_cnt_shrink_size fs nxt n = Some (r, fs1)" "fs_inv fs1"
        "\<forall>dev k. fs_room fs dev k \<longrightarrow> fs_room fs1 dev k"
        "\<forall>s. s \<notin> set (sids ls) \<longrightarrow> fs_view fs1 s = fs_view fs s"
        "\<forall>s\<in>set (sids ls). fs_view fs1 s = None"
        "\<forall>dev. fs_get_vdisk fs dev \<noteq> None \<longrightarrow> fs_get_vdisk fs1 dev \<noteq> None"
        "r = int (unat n - length (cores ls))"
        by (auto simp del: set_append)
      have "fs_view fs1 = (\<lambda>s. if s \<in> set (sids ls) then None else fs_view fs s)"
        using IH(4,5) by (auto simp: fun_eq_iff)
      then show ?thesis
        using that [of r fs1] IH(1,2,3,6,7) nxt ne lt by (simp add: n1_def del: of_nat_diff)
    qed
    have "unat n < 2 ^ LENGTH(32)"
      by (rule unsigned_less)
    then have small: "unat n - k < 2 ^ 32" for k
      by simp
    have n1: "unat n1 = unat n - length (cores ls)"
      using small by (simp add: n1_def unat_word_of_nat)
    have buf1: "loca_buf data1 cs 0"
      using data(2) nxt loca_buf_next [OF data(2), of 0] by (auto simp: data1_def)
    have cok1: "\<forall>c\<in>set cs. core_ok (fs_view fs1) c \<and> sid_dev c = dev"
      using cok dist(3) view1 by (auto simp: core_ok_def)
    define m where "m = length cs - unat n1"
    from shrink_links_ok [OF rec(4) buf1 _ _ dist(1) cok1 m_def, of 126] obtain data2 fs2 where
      s: "shrink_links fs1 dev data1 126 n1 = Some (word_of_nat (unat n1 - length cs), data2, fs2)"
      "loca_buf data2 (take m cs) 0" "fs_inv fs2"
      "fs_view fs2 = (\<lambda>s. if s \<in> set (drop m cs) then None else fs_view fs1 s)"
      "\<forall>dev k. fs_room fs1 dev k \<longrightarrow> fs_room fs2 dev k"
      "\<forall>dev. fs_get_vdisk fs1 dev \<noteq> None \<longrightarrow> fs_get_vdisk fs2 dev \<noteq> None"
      using buf1 by (auto simp: loca_buf_def)
    let ?n2 = "word_of_nat (unat n1 - length cs) :: u32"
    have n2: "unat ?n2 = unat n - length (cores (lc # ls))"
      using small [of "length (cores (lc # ls))"] n1 by (simp add: unat_word_of_nat lc)
    have tk: "take m cs = take (length (cores (lc # ls)) - unat n) (cores (lc # ls))"
      using False n1 by (cases "ls = []") (auto simp: m_def lc)
    have l2: "fs_view fs2 l = Some data"
      using s(4) view1 data(1) dist(4,5) by (auto dest: in_set_dropD)
    have run: "fs_cnt_shrink_size fs first n = do {
        (_, fs3) \<leftarrow> (if ?n2 \<noteq> 0 then note_unused_at fs2 (sid_dev l) l else Some (0, fs2));
        fs4 \<leftarrow> unload_at fs3 (sid_dev l) l data2 True;
        Some (sint ?n2, fs4) }"
      using d data(2) rec(1-3) s(1) l(1) dev(1) nxt unfolding data1_def n1_def
      by (subst fs_cnt_shrink_size.simps) (auto simp: loca_buf_def layout SID_NULL_def simp del: of_nat_diff)
    show ?thesis
    proof (cases "length (cores (lc # ls)) < unat n")
      case True
      then have "?n2 \<noteq> 0"
        using n2 by (metis unat_0 less_numeral_extra(3) zero_less_diff)
      have m0: "m = 0"
        using True n1 by (simp add: m_def lc)
      from disks.release_one [OF s(3) l2] obtain fs3 where
        fs3: "note_unused_at fs2 (sid_dev l) l = Some (0, fs3)" "fs_inv fs3"
          "fs_view fs3 = (fs_view fs2)(l := None)" "\<forall>dev k. fs_room fs2 dev k \<longrightarrow> fs_room fs3 dev k"
        by blast
      have get3: "fs_get_vdisk fs3 dev' \<noteq> None" if "fs_get_vdisk fs2 dev' \<noteq> None" for dev'
        using fs3(1) that by (auto simp: note_unused_at_def bind_Some_iff)
      have "fs_get_vdisk fs3 (sid_dev l) \<noteq> None"
        using d(1) room1(2) s(6) get3 by auto
      from unload_unused [OF fs3(2) this, of data2] fs3(3) s(2) obtain fs4 where
        fs4: "unload_at fs3 (sid_dev l) l data2 True = Some fs4" "fs_inv fs4" "fs_view fs4 = fs_view fs3"
          "\<forall>dev k. fs_room fs3 dev k \<longrightarrow> fs_room fs4 dev k"
        by (auto simp: loca_buf_def)
      have get4: "fs_get_vdisk fs4 dev' \<noteq> None" if "fs_get_vdisk fs3 dev' \<noteq> None" for dev'
        using fs4(1) that by (auto simp: unload_at_def bind_Some_iff)
      have "fs_cnt_shrink_size fs first n = Some (sint ?n2, fs4)"
        using run fs3(1) fs4(1) \<open>?n2 \<noteq> 0\<close> by simp
      moreover have "sint ?n2 = int (unat n - length (cores (lc # ls)))"
        using sint_small [of ?n2] n2 Cons.prems(7) by simp
      moreover have "fs_view fs4 = (\<lambda>s. if s \<in> set (sids (lc # ls)) then None else fs_view fs s)"
        using fs4(3) fs3(3) s(4) view1 m0 by (auto simp: fun_eq_iff lc)
      ultimately show ?thesis
        using True fs4(2,4) fs3(4) s(5,6) room1 get3 get4
        by (intro exI [of _ "sint ?n2"] exI [of _ fs4] exI [of _ "[]"]) auto
    next
      case le: False
      then have z: "?n2 = 0"
        using n2 by (metis diff_is_0_eq unat_eq_zero not_less)
      have "length data2 = FS_SECTOR_SIZE"
        using s(2) by (simp add: loca_buf_def FS_SECTOR_SIZE_def)
      from disks.save_one [OF s(3) l2 this] obtain fs4 where
        fs4: "unload_at fs2 (sid_dev l) l data2 True = Some fs4" "fs_inv fs4"
          "fs_view fs4 = (fs_view fs2)(l \<mapsto> data2)" "\<forall>dev k. fs_room fs2 dev k \<longrightarrow> fs_room fs4 dev k"
        by blast
      have get4: "fs_get_vdisk fs4 dev' \<noteq> None" if "fs_get_vdisk fs2 dev' \<noteq> None" for dev'
        using fs4(1) that by (auto simp: unload_at_def bind_Some_iff)
      let ?ls = "[(l, take m cs)]"
      have run4: "fs_cnt_shrink_size fs first n = Some (0, fs4)"
        using run fs4(1) z by simp
      have chain4: "chain (fs_view fs4) first ?ls"
        using l(1,2) loca_okI [of "fs_view fs4" l data2 "take m cs" 0] fs4(3) s(2) by auto
      have keep: "fs_view fs4 s = fs_view fs s" if "s \<in> set (take m cs) \<or> s \<notin> set (sids (lc # ls))" for s
        using that fs4(3) s(4) view1 dist(1,3,4) set_take_disj_set_drop_if_distinct [OF dist(1) order_refl, of m]
        by (auto simp: lc dest: in_set_takeD in_set_dropD)
      have gone: "fs_view fs4 s = None" if "s \<in> set (sids (lc # ls))" "s \<noteq> l" "s \<notin> set (take m cs)" for s
      proof -
        have "s \<in> set cs \<or> s \<in> set (sids ls)"
          using that(1,2) by (auto simp: lc)
        moreover have "s \<in> set (take m cs) \<or> s \<in> set (drop m cs)" if "s \<in> set cs"
          using that set_append [of "take m cs" "drop m cs"] by simp
        ultimately show ?thesis
          using that fs4(3) s(4) view1 by auto
      qed
      have f1: "\<forall>s. s \<notin> set (sids (lc # ls)) \<longrightarrow> fs_view fs4 s = fs_view fs s"
        and f2: "\<forall>s\<in>set (cores ?ls). fs_view fs4 s = fs_view fs s"
        using keep by auto
      have f3: "\<forall>s\<in>set (sids (lc # ls)) - set (sids ?ls). fs_view fs4 s = None"
        using gone by auto
      have f4: "set (map fst ?ls) \<subseteq> set (map fst (lc # ls))" and f5: "distinct (sids ?ls)"
        using dist(1,4) by (auto simp: lc dest: in_set_takeD)
      have f6: "cores ?ls = take (length (cores (lc # ls)) - unat n) (cores (lc # ls))"
        using tk by simp
      have f7: "\<forall>dev k. fs_room fs dev k \<longrightarrow> fs_room fs4 dev k"
        using fs4(4) s(5) room1(1) by simp
      have f8: "\<forall>dev. fs_get_vdisk fs dev \<noteq> None \<longrightarrow> fs_get_vdisk fs4 dev \<noteq> None"
        using s(6) room1(2) get4 by simp
      have f9: "(0::int) \<in> {0, -2}" and f10: "?ls \<noteq> []"
        by simp_all
      show ?thesis
        unfolding if_not_P [OF le]
        by (rule exI [of _ 0], rule exI [of _ fs4], rule exI [of _ ?ls],
            intro conjI run4 fs4(2) f7 f1 f3 f2 f4 f5 f6 f8 f9 f10 chain4)
    qed
  qed
qed

section \<open>Growing a chain\<close>

text \<open>A sector that the disk gives out and that is initialised at once.\<close>

lemma take_core:
  assumes "fs_inv fs" and "fs_room fs dev (Suc k)" and "dev \<noteq> 0" and "SID_DISK l = ucast dev"
  obtains ret fs1 fs2 s where "get_unused_at fs dev = Some (ret, fs1)" "SID_FORMAT (SID_DISK l) ret = s"
    "init_sector_at fs1 dev s type = Some (0, fs2)" "fs_inv fs2" "fs_view fs2 = (fs_view fs)(s \<mapsto> blank type)"
    "fs_room fs2 dev k" "fs_view fs s = None" "s \<noteq> 0" "sid_dev s = dev"
  using disks.take_one [OF assms(1-3), of type] assms(4) by auto

lemma grow_fill_ok:
  assumes "fs_inv fs" and "fs_room fs dev (n + k)" and "dev \<noteq> 0" and "sid_dev l = dev"
    and "loca_buf data cs nxt" and "fs_view fs l \<noteq> None" and "m = min n (126 - length cs)"
  shows "\<exists>new data' fs'. grow_fill fs dev l data (length cs) n = Some (Inr (n - m, data'), fs') \<and>
    loca_buf data' (cs @ new) nxt \<and> length new = m \<and> distinct new \<and>
    (\<forall>c\<in>set new. fs_view fs c = None \<and> sid_dev c = dev) \<and> fs_inv fs' \<and> fs_room fs' dev (n - m + k) \<and>
    fs_view fs' = (\<lambda>s. if s \<in> set new then Some (blank SF_CORE) else fs_view fs s)"
  using assms
proof (induction n arbitrary: fs data cs m)
  case 0
  then show ?case by simp
next
  case (Suc n)
  show ?case
  proof (cases "length cs < 126")
    case False
    then show ?thesis
      using Suc.prems by (auto simp: layout)
  next
    case True
    have disk: "SID_DISK l = ucast dev"
      using Suc.prems(4) SID_DISK_sid_dev [of l] by simp
    have room: "fs_room fs dev (Suc (n + k))"
      using Suc.prems(2) by simp
    obtain ret fs1 fs2 s where t: "get_unused_at fs dev = Some (ret, fs1)" "SID_FORMAT (SID_DISK l) ret = s"
      "init_sector_at fs1 dev s SF_CORE = Some (0, fs2)" "fs_inv fs2"
      "fs_view fs2 = (fs_view fs)(s \<mapsto> blank SF_CORE)"
      "fs_room fs2 dev (n + k)" "fs_view fs s = None" "s \<noteq> 0" "sid_dev s = dev"
      using take_core [OF Suc.prems(1) room Suc.prems(3) disk] by metis
    have buf: "loca_buf (put32 data ((length cs + 1) * 4) s) (cs @ [s]) nxt"
      using loca_buf_add [OF Suc.prems(5) True t(8)] by simp
    define m' where "m' = min n (126 - length (cs @ [s]))"
    have m: "m = Suc m'" "Suc n - m = n - m'"
      using Suc.prems(7) True by (simp_all add: m'_def)
    have "fs_view fs2 l \<noteq> None"
      using Suc.prems(6) t(5) by simp
    from Suc.IH [OF t(4,6) Suc.prems(3,4) buf this m'_def] obtain new data' fs' where
      IH: "grow_fill fs2 dev l (put32 data ((length cs + 1) * 4) s) (length cs + 1) n =
          Some (Inr (n - m', data'), fs')" "loca_buf data' (cs @ s # new) nxt" "length new = m'" "distinct new"
        "\<forall>c\<in>set new. fs_view fs2 c = None \<and> sid_dev c = dev" "fs_inv fs'" "fs_room fs' dev (n - m' + k)"
        "fs_view fs' = (\<lambda>a. if a \<in> set new then Some (blank SF_CORE) else fs_view fs2 a)"
      by auto
    have "grow_fill fs dev l data (length cs) (Suc n) = Some (Inr (Suc n - m, data'), fs')"
      using t(1-3,8) IH(1) True m(2) by (simp add: layout SID_NULL_def)
    then show ?thesis
      using IH(2-8) t(5,7,9) m by (intro exI [of _ "s # new"] exI [of _ data'] exI [of _ fs'])
        (auto simp: fun_eq_iff split: if_splits)
  qed
qed

text \<open>The new locators and their cores, hanging from the locator in the buffer.\<close>

lemma grow_loop_ok:
  assumes "fs_inv fs" and "fs_room fs dev (2 * n + k)" and "dev \<noteq> 0" and "sid_dev l = dev" and "l \<noteq> 0"
    and "loca_buf data cs 0" and "fs_view fs l \<noteq> None" and "0 < n \<Longrightarrow> length cs = 126"
  shows "\<exists>new fs'. grow_loop fs dev l data n = Some (0, fs') \<and> fs_inv fs' \<and> fs_room fs' dev k \<and>
    chain (fs_view fs') l ((l, cs) # new) \<and> length (cores new) = n \<and> distinct (sids new) \<and>
    (\<forall>s\<in>set (sids new). fs_view fs s = None \<and> sid_dev s = dev) \<and>
    (\<forall>c\<in>set (cores new). core_ok (fs_view fs') c) \<and>
    (\<forall>s. s \<noteq> l \<longrightarrow> s \<notin> set (sids new) \<longrightarrow> fs_view fs' s = fs_view fs s)"
  using assms
proof (induction n arbitrary: fs l data cs rule: less_induct)
  case (less n)
  from less.prems(7) obtain old where old: "fs_view fs l = Some old"
    by blast
  have len: "length data = FS_SECTOR_SIZE"
    using less.prems(6) by (simp add: loca_buf_def FS_SECTOR_SIZE_def)
  show ?case
  proof (cases "n = 0")
    case True
    from disks.save_one [OF less.prems(1) old len] less.prems(4) obtain fs' where
      "unload_at fs dev l data True = Some fs'" "fs_inv fs'" "fs_view fs' = (fs_view fs)(l \<mapsto> data)"
        "\<forall>dev k. fs_room fs dev k \<longrightarrow> fs_room fs' dev k"
      by auto
    then show ?thesis
      using True less.prems(2,5) loca_okI [of "fs_view fs'" l data cs 0] less.prems(6)
      by (intro exI [of _ "[]"] exI [of _ fs']) (subst grow_loop.simps, auto)
  next
    case False
    then obtain n0 where n0: "n = Suc n0"
      by (cases n) auto
    have disk: "SID_DISK l = ucast dev"
      using less.prems(4) SID_DISK_sid_dev [of l] by simp
    have room: "fs_room fs dev (Suc (2 * n0 + 1 + k))"
      using less.prems(2) n0 by simp
    obtain ret fs1 fs2 s where t: "get_unused_at fs dev = Some (ret, fs1)" "SID_FORMAT (SID_DISK l) ret = s"
      "init_sector_at fs1 dev s SF_LOCA = Some (0, fs2)" "fs_inv fs2"
      "fs_view fs2 = (fs_view fs)(s \<mapsto> blank SF_LOCA)"
      "fs_room fs2 dev (2 * n0 + 1 + k)" "fs_view fs s = None" "s \<noteq> 0" "sid_dev s = dev"
      using take_core [OF less.prems(1) room less.prems(3) disk] by metis
    have sl: "s \<noteq> l"
      using t(7) old by auto
    note buf = loca_buf_next [OF less.prems(6), of s]
    have len2: "length (put32 data 508 s) = FS_SECTOR_SIZE" "fs_view fs2 l = Some old"
      using len t(5) old sl by (simp_all add: FS_SECTOR_SIZE_def)
    from disks.save_one [OF t(4) len2(2,1)] less.prems(4) obtain fs3 where
      fs3: "unload_at fs2 dev l (put32 data 508 s) True = Some fs3" "fs_inv fs3"
        "fs_view fs3 = (fs_view fs2)(l \<mapsto> put32 data 508 s)" "\<forall>dev k. fs_room fs2 dev k \<longrightarrow> fs_room fs3 dev k"
      by auto
    have s3: "fs_view fs3 s = Some (blank SF_LOCA)"
      using fs3(3) t(5) sl by simp
    note load = at_view(3) [OF fs3(2) s3 t(9)]
    define m where "m = min n (126 - length ([] :: u32 list))"
    have "fs_room fs3 dev (2 * n0 + 1 + k)"
      using fs3(4) t(6) by blast
    then have "fs_room fs3 dev (n + (n0 + k))"
      by (rule fs_room_mono) (simp add: n0)
    from grow_fill_ok [OF fs3(2) this less.prems(3) t(9) loca_buf_blank _ m_def] s3 obtain c4 data4 fs4 where
      g: "grow_fill fs3 dev s (blank SF_LOCA) 0 n = Some (Inr (n - m, data4), fs4)"
        "loca_buf data4 c4 0" "length c4 = m" "distinct c4" "\<forall>c\<in>set c4. fs_view fs3 c = None \<and> sid_dev c = dev"
        "fs_inv fs4" "fs_room fs4 dev (n - m + (n0 + k))"
        "fs_view fs4 = (\<lambda>a. if a \<in> set c4 then Some (blank SF_CORE) else fs_view fs3 a)"
      by auto
    have m: "0 < m" "n - m < n" "0 < n - m \<Longrightarrow> m = 126" "m \<le> n"
      using n0 by (auto simp: m_def)
    have "fs_room fs4 dev (2 * (n - m) + k)"
      by (rule fs_room_mono [OF g(7)]) (use m n0 in simp)
    moreover have "fs_view fs4 s \<noteq> None"
      using g(8) s3 by simp
    ultimately obtain new fs' where IH: "grow_loop fs4 dev s data4 (n - m) = Some (0, fs')" "fs_inv fs'"
      "fs_room fs' dev k" "chain (fs_view fs') s ((s, c4) # new)" "length (cores new) = n - m" "distinct (sids new)"
      "\<forall>a\<in>set (sids new). fs_view fs4 a = None \<and> sid_dev a = dev"
      "\<forall>c\<in>set (cores new). core_ok (fs_view fs') c"
      "\<forall>a. a \<noteq> s \<longrightarrow> a \<notin> set (sids new) \<longrightarrow> fs_view fs' a = fs_view fs4 a"
      using less.IH [OF m(2) g(6) _ less.prems(3) t(9,8) g(2)] m(3) g(3) by blast
    have fresh: "fs_view fs a = None" "a \<noteq> l" "a \<noteq> s" "a \<notin> set c4" if "a \<in> set (sids new)" for a
    proof -
      from IH(7) that have "fs_view fs4 a = None"
        by blast
      then show "fs_view fs a = None" "a \<noteq> l" "a \<noteq> s" "a \<notin> set c4"
        using g(8) fs3(3) t(5) by (auto split: if_splits)
    qed
    have c4: "fs_view fs c = None" "c \<noteq> l" "c \<noteq> s" if "c \<in> set c4" for c
      using g(5) fs3(3) t(5) that by (auto split: if_splits)
    have "l \<notin> set (sids new)" "l \<notin> set c4"
      using fresh(2) c4(2) by blast+
    then have l': "fs_view fs' l = Some (put32 data 508 s)"
      using IH(9) sl g(8) fs3(3) by (simp del: set_append)
    let ?new = "(s, c4) # new"
    have "grow_loop fs dev l data n = Some (0, fs')"
      using t(1-3,8) fs3(1) load g(1) IH(1) False
      by (subst grow_loop.simps) (simp add: layout SID_NULL_def)
    moreover have "chain (fs_view fs') l ((l, cs) # ?new)"
      using IH(4) less.prems(5,8) n0 loca_okI [of "fs_view fs'" l _ cs s, OF l' buf] by auto
    moreover have "length (cores ?new) = n"
      using g(3) IH(5) m by simp
    moreover have "s \<notin> set c4"
      using c4(3) by blast
    then have "distinct (sids ?new)"
      using IH(6) g(4) fresh(3,4) c4(3) by auto
    moreover have "\<forall>a\<in>set (sids ?new). fs_view fs a = None \<and> sid_dev a = dev"
      using fresh(1) c4(1) t(7,9) g(5) IH(7) by auto
    moreover have "core_ok (fs_view fs') c" if "c \<in> set c4" for c
    proof -
      have "c \<notin> set (sids new)" "c \<noteq> s"
        using fresh(4) c4(3) that by blast+
      then show ?thesis
        using IH(9) g(8) that by (simp add: core_ok_def)
    qed
    then have "\<forall>c\<in>set (cores ?new). core_ok (fs_view fs') c"
      using IH(8) by auto
    moreover have "fs_view fs' a = fs_view fs a" if "a \<noteq> l" "a \<notin> set (sids ?new)" for a
      using that IH(9) g(8) fs3(3) t(5) by auto
    ultimately show ?thesis
      using IH(2,3) by blast
  qed
qed

lemma grow_last_ok:
  assumes "fs_inv fs" and "chain (fs_view fs) first (pre @ [(l, cs)])"
    and "\<forall>s\<in>set (map fst (pre @ [(l, cs)])). sid_dev s = dev"
  shows "grow_last fs dev first = Some (Inr l)"
  using assms(2,3)
proof (induction pre arbitrary: first)
  case Nil
  then obtain data where "fs_view fs l = Some data" "loca_buf data cs 0" "first = l"
    using loca_ok_buf [OF assms(1)] by auto
  then show ?case
    using at_view [OF assms(1), of l data dev] Nil.prems(2)
    by (subst grow_last.simps) (simp add: loca_buf_def layout SID_NULL_def)
next
  case (Cons lc pre)
  obtain l1 cs1 where lc: "lc = (l1, cs1)" by (cases lc)
  with Cons.prems(1) obtain data nxt where d: "fs_view fs l1 = Some data" "loca_buf data cs1 nxt" "first = l1"
    "chain (fs_view fs) nxt (pre @ [(l, cs)])"
    using loca_ok_buf [OF assms(1)] by auto
  moreover have "nxt \<noteq> 0"
    using chain_next_nz [OF d(4)] by simp
  ultimately show ?case
    using at_view [OF assms(1), of l1 data dev] Cons.prems(2) Cons.IH [OF d(4)]
    by (subst grow_last.simps) (simp add: lc loca_buf_def layout SID_NULL_def)
qed

text \<open>Replacing the last locator of a chain by a longer end.\<close>

lemma chain_last:
  assumes "chain m first (pre @ [(l, cs)])" and "\<forall>s\<in>set (map fst pre). m' s = m s"
    and "chain m' l ((l, cs') # rest)"
  shows "chain m' first (pre @ (l, cs') # rest)"
  using assms
proof (induction pre arbitrary: first)
  case Nil
  then show ?case by auto
next
  case (Cons lc pre)
  then show ?case
    using loca_ok_cong [of m' "fst lc" m] by (cases lc) (auto 0 4)
qed

lemma grow_ok:
  assumes "fs_inv fs" and "chain (fs_view fs) first ls" and "ls \<noteq> []" and "distinct (sids ls)"
    and "\<forall>c\<in>set (cores ls). core_ok (fs_view fs) c" and "\<forall>s\<in>set (sids ls). sid_dev s = dev" and "dev \<noteq> 0"
    and "fs_room fs dev (2 * unat n + k)"
  shows "\<exists>fs' ls' new. fs_cnt_grow_size fs first n = Some (0, fs') \<and> fs_inv fs' \<and> fs_room fs' dev k \<and>
    chain (fs_view fs') first ls' \<and> ls' \<noteq> [] \<and> cores ls' = cores ls @ new \<and> length new = unat n \<and>
    set (sids ls) \<subseteq> set (sids ls') \<and> distinct (sids ls') \<and>
    (\<forall>s\<in>set (sids ls') - set (sids ls). fs_view fs s = None \<and> sid_dev s = dev) \<and>
    (\<forall>c\<in>set (cores ls'). core_ok (fs_view fs') c) \<and>
    (\<forall>s. s \<notin> set (map fst ls) \<longrightarrow> s \<notin> set (sids ls') - set (sids ls) \<longrightarrow> fs_view fs' s = fs_view fs s)"
proof -
  obtain pre l cs where ls: "ls = pre @ [(l, cs)]"
    using assms(3) by (metis rev_exhaust surj_pair)
  have "loca_ok (fs_view fs) l cs 0 \<and> l \<noteq> 0"
    using assms(2) unfolding ls by (induction pre arbitrary: first) auto
  then obtain data where data: "fs_view fs l = Some data" "loca_buf data cs 0" "l \<noteq> 0"
    using loca_ok_buf [OF assms(1)] by blast
  have devs: "sid_dev first = dev" "sid_dev l = dev"
    using assms(2,3,6) unfolding ls by (cases pre; auto)+
  note at = at_view [OF assms(1) data(1) devs(2)]
  have cc: "length (takeWhile (\<lambda>c. c \<noteq> SID_NULL) (links data)) = length cs"
  proof -
    have "links data = cs @ replicate (126 - length cs) 0" "0 \<notin> set cs"
      using data(2) by (auto simp: loca_buf_def)
    moreover from this(2) have "takeWhile (\<lambda>c. c \<noteq> 0) (cs @ zs) = cs @ takeWhile (\<lambda>c. c \<noteq> 0) zs" for zs
      by (intro takeWhile_append2) auto
    ultimately show ?thesis
      by (simp add: SID_NULL_def)
  qed
  define m where "m = min (unat n) (126 - length cs)"
  have "fs_room fs dev (unat n + (unat n + k))"
    by (rule fs_room_mono [OF assms(8)]) simp
  from grow_fill_ok [OF assms(1) this assms(7) devs(2) data(2) _ m_def] data(1) obtain c1 data1 fs1 where
    g: "grow_fill fs dev l data (length cs) (unat n) = Some (Inr (unat n - m, data1), fs1)"
      "loca_buf data1 (cs @ c1) 0" "length c1 = m" "distinct c1"
      "\<forall>c\<in>set c1. fs_view fs c = None \<and> sid_dev c = dev" "fs_inv fs1" "fs_room fs1 dev (unat n - m + (unat n + k))"
      "fs_view fs1 = (\<lambda>s. if s \<in> set c1 then Some (blank SF_CORE) else fs_view fs s)"
    by auto
  have r1: "fs_room fs1 dev (2 * (unat n - m) + k)"
    by (rule fs_room_mono [OF g(7)]) simp
  have l1: "fs_view fs1 l \<noteq> None"
    using g(8) data(1) by simp
  have full: "length (cs @ c1) = 126" if "0 < unat n - m"
    using that g(2,3) by (auto simp: m_def loca_buf_def)
  from grow_loop_ok [OF g(6) r1 assms(7) devs(2) data(3) g(2) l1 full]
  obtain new fs' where G: "grow_loop fs1 dev l data1 (unat n - m) = Some (0, fs')" "fs_inv fs'"
    "fs_room fs' dev k" "chain (fs_view fs') l ((l, cs @ c1) # new)" "length (cores new) = unat n - m"
    "distinct (sids new)" "\<forall>s\<in>set (sids new). fs_view fs1 s = None \<and> sid_dev s = dev"
    "\<forall>c\<in>set (cores new). core_ok (fs_view fs') c"
    "\<forall>s. s \<noteq> l \<longrightarrow> s \<notin> set (sids new) \<longrightarrow> fs_view fs' s = fs_view fs1 s"
    by blast
  have loop: "(if unat n - m = 0 then do { fs \<leftarrow> unload_at fs1 dev l data1 True; Some (0, fs) }
      else grow_loop fs1 dev l data1 (unat n - m)) = Some (0, fs')"
    using G(1) by (cases "unat n - m = 0") (simp_all add: grow_loop.simps)
  have used: "fs_view fs s \<noteq> None" if "s \<in> set (sids ls)" for s
  proof -
    have "\<exists>cs nxt. loca_ok (fs_view fs) s cs nxt" if "s \<in> set (map fst ls)" for s
      using that assms(2) by (induction "fs_view fs" first ls rule: chain.induct) auto
    then show ?thesis
      using that assms(5) by (fastforce simp: loca_ok_def core_ok_def)
  qed
  have fresh: "fs_view fs s = None" "s \<notin> set c1" if "s \<in> set (sids new)" for s
    using G(7) g(8) that by (auto split: if_splits)
  let ?ls = "pre @ (l, cs @ c1) # new"
  have new: "set (sids ?ls) = set (sids ls) \<union> set c1 \<union> set (sids new)"
    by (auto simp: ls)
  obtain d where "fs_get_vdisk fs dev = Some d"
    using at(1) by blast
  then have run: "fs_cnt_grow_size fs first n = Some (0, fs')"
    using at(3) cc g(1) loop devs grow_last_ok [OF assms(1), of first pre l cs dev] assms(2,6) ls
    by (simp add: fs_cnt_grow_size_def Let_def)
  have pre: "fs_view fs' s = fs_view fs s" if "s \<in> set (sids ls)" "s \<noteq> l" for s
    using used [OF that(1)] that(2) G(9) g(5,8) fresh(1) by (metis (no_types, lifting))
  have "chain (fs_view fs') first ?ls"
    by (rule chain_last [OF assms(2) [unfolded ls] _ G(4)]) (use pre assms(4) in \<open>auto simp: ls\<close>)
  moreover have "distinct (sids ?ls)"
  proof -
    have "set (sids ls) \<inter> set c1 = {}" "set (sids ls) \<inter> set (sids new) = {}" "set c1 \<inter> set (sids new) = {}"
      using used g(5) fresh by blast+
    then show ?thesis
      using assms(4) g(4) G(6) unfolding ls by auto
  qed
  moreover have "core_ok (fs_view fs') c" if c: "c \<in> set (cores ?ls)" for c
  proof -
    consider "c \<in> set (cores ls)" | "c \<in> set c1" | "c \<in> set (cores new)"
      using c by (auto simp: ls)
    then show ?thesis
    proof cases
      case 1
      then have "c \<noteq> l" "c \<in> set (sids ls)"
        using assms(4) by (auto simp: ls)
      then show ?thesis
        using pre [of c] assms(5) 1 core_ok_cong by blast
    next
      case 2
      then have "c \<noteq> l" "c \<notin> set (sids new)"
        using g(5) data(1) fresh(2) by auto
      then show ?thesis
        using 2 G(9) g(8) by (simp add: core_ok_def)
    qed (use G(8) in blast)
  qed
  moreover have "\<forall>s\<in>set (sids ?ls) - set (sids ls). fs_view fs s = None \<and> sid_dev s = dev"
    using new g(5) fresh(1) G(7) by blast
  moreover have "fs_view fs' s = fs_view fs s"
    if "s \<notin> set (map fst ls)" "s \<notin> set (sids ?ls) - set (sids ls)" for s
    using that new G(9) g(8) pre by (cases "s \<in> set (sids ls)") (auto simp: ls)
  moreover have "cores ?ls = cores ls @ c1 @ cores new" "length (c1 @ cores new) = unat n" "?ls \<noteq> []"
    using g(3) G(5) by (simp_all add: ls m_def)
  ultimately show ?thesis
    using run G(2,3) new by (intro exI [of _ fs'] exI [of _ ?ls] exI [of _ "c1 @ cores new"]) blast
qed

section \<open>Setting the size\<close>

text \<open>The number of cores of the old and the new size, as the code computes them.\<close>

definition old_cores :: "nat \<Rightarrow> nat" where
  "old_cores n = n div 511 + (if n mod 511 \<noteq> 0 then 1 else 0)"

definition new_cores :: "nat \<Rightarrow> nat" where
  "new_cores n = (if n = 0 then 0 else n div 511 + 1)"

lemma div_511:
  obtains q r where "n = 511 * q + r" "r < 511" "n div 511 = q" "n mod 511 = (r :: nat)"
  by (rule that [of "n div 511" "n mod 511"]) simp_all

lemma old_cores_le: "n \<le> 511 * k \<Longrightarrow> old_cores n \<le> k"
  by (rule div_511 [of n]) (auto simp: old_cores_def)

lemma old_cores_ge: "n \<le> 511 * old_cores n"
  by (rule div_511 [of n]) (simp add: old_cores_def)

lemma new_cores_ge: "n \<le> 511 * new_cores n"
  by (rule div_511 [of n]) (simp add: new_cores_def)

lemma unat_div_511: "unat ((w :: u32) div 511) = unat w div 511" "unat ((w :: u32) mod 511) = unat w mod 511"
  by (simp_all add: unat_div unat_mod)

lemma unat_cores:
  assumes "unat (w :: u32) \<le> cnt_max"
  shows "unat (w div 511 + (if w mod 511 \<noteq> 0 then 1 else 0)) = old_cores (unat w)"
    and "unat (if w \<noteq> 0 then w div 511 + 1 else w div 511) = new_cores (unat w)"
proof -
  have le: "unat w div 511 \<le> cnt_max"
    using assms div_le_dividend [of "unat w" 511] by linarith
  then have "unat (w div 511) + unat (1 :: u32) < 2 ^ LENGTH(32)"
    by (simp add: unat_div_511 cnt_max_def)
  then have plus: "unat (w div 511 + 1) = unat w div 511 + 1"
    by (simp only: unat_add_lem) (simp add: unat_div_511)
  moreover have "w mod 511 \<noteq> 0 \<longleftrightarrow> unat w mod 511 \<noteq> 0"
    by (metis unat_div_511(2) unat_eq_zero)
  ultimately show "unat (w div 511 + (if w mod 511 \<noteq> 0 then 1 else 0)) = old_cores (unat w)"
    by (simp add: old_cores_def unat_div_511)
  show "unat (if w \<noteq> 0 then w div 511 + 1 else w div 511) = new_cores (unat w)"
    using plus by (simp add: new_cores_def unat_eq_zero)
qed

text \<open>
  What \<open>fs_cnt_set_size\<close> promises: only the size changes in the header, the contents up to the
  smaller of the two sizes stay, sectors
  are only taken from the free ones, those the container no longer has are free again, and no
  other sector changes.
\<close>

definition resized :: "filesys \<Rightarrow> u32 \<Rightarrow> (u32 \<times> u32 list) list \<Rightarrow> byte list \<Rightarrow>
    filesys \<Rightarrow> (u32 \<times> u32 list) list \<Rightarrow> byte list \<Rightarrow> bool" where
  "resized fs head ls xs fs' ls' ys \<longleftrightarrow>
     cnt_holds fs' head ls' ys \<and>
     fs_view fs' head = map_option (\<lambda>data. put32 data 65 (word_of_nat (length ys))) (fs_view fs head) \<and>
     take (min (length xs) (length ys)) ys = take (min (length xs) (length ys)) xs \<and>
     (\<forall>s\<in>set (sids ls') - set (sids ls). fs_view fs s = None) \<and>
     (\<forall>s\<in>set (sids ls) - set (sids ls'). fs_view fs' s = None) \<and>
     (\<forall>s. s \<noteq> head \<longrightarrow> s \<notin> set (sids ls) \<longrightarrow> s \<notin> set (sids ls') \<longrightarrow> fs_view fs' s = fs_view fs s)"

text \<open>After the chain has changed, the new size is stored in the header.\<close>

lemma resize_finish:
  assumes "cnt_holds fs head ls xs" and "fs_view fs head = Some data"
    and "fs_inv fs1" and "chain (fs_view fs1) (get32 data 508) ls'" and "ls' \<noteq> []" and "distinct (sids ls')"
    and "\<forall>s\<in>set (sids ls'). s \<in> set (sids ls) \<or> fs_view fs s = None \<and> sid_dev s = sid_dev head"
    and "\<forall>c\<in>set (cores ls'). core_ok (fs_view fs1) c"
    and "\<forall>s\<in>set (sids ls) - set (sids ls'). fs_view fs1 s = None"
    and "\<forall>s. s \<notin> set (sids ls) \<longrightarrow> s \<notin> set (sids ls') \<longrightarrow> fs_view fs1 s = fs_view fs s"
    and "\<forall>c\<in>set (cores ls) \<inter> set (cores ls'). fs_view fs1 c = fs_view fs c"
    and "cores ls' = cores ls @ new \<or> cores ls = cores ls' @ new"
    and "unat n \<le> 511 * length (cores ls')" and "unat n \<le> cnt_max"
  shows "\<exists>fs'. unload_at fs1 (sid_dev head) head (put32 data 65 n) True = Some fs' \<and>
    (\<forall>dev k. fs_room fs1 dev k \<longrightarrow> fs_room fs' dev k) \<and>
    (\<exists>ys. length ys = unat n \<and> resized fs head ls xs fs' ls' ys)"
proof -
  obtain data' where "fs_view fs head = Some data'" and h: "fs_inv fs" "data' ! 0 = SF_HEAD"
    "distinct (head # sids ls)" "\<forall>s\<in>set (sids ls). sid_dev s = sid_dev head" "sid_dev head \<noteq> 0"
    "length xs \<le> 511 * length (cores ls)" "take (length xs) (cnt_bytes (fs_view fs) (cores ls)) = xs"
    "length data' = FS_SECTOR_SIZE" "\<forall>c\<in>set (cores ls). core_ok (fs_view fs) c"
    using assms(1) by (elim cnt_holdsD)
  then have data: "data' = data"
    using assms(2) by simp
  have len: "length (put32 data 65 n) = FS_SECTOR_SIZE"
    using h(8) data by (simp add: FS_SECTOR_SIZE_def)
  have hd: "head \<notin> set (sids ls)" "head \<notin> set (sids ls')"
    using h(3) assms(2,7) by auto
  then have "fs_view fs1 head = Some data"
    using assms(2,10) by simp
  from disks.save_one [OF assms(3) this len] obtain fs' where
    fs': "unload_at fs1 (sid_dev head) head (put32 data 65 n) True = Some fs'" "fs_inv fs'"
      "fs_view fs' = (fs_view fs1)(head \<mapsto> put32 data 65 n)" "\<forall>dev k. fs_room fs1 dev k \<longrightarrow> fs_room fs' dev k"
    by auto
  have same: "fs_view fs' s = fs_view fs1 s" if "s \<in> set (sids ls) \<union> set (sids ls')" for s
    using fs'(3) hd that by auto
  have hdr: "put32 data 65 n ! 0 = SF_HEAD" "get32 (put32 data 65 n) 65 = n"
    "get32 (put32 data 65 n) 508 = get32 data 508"
    using h(2,8) data by (simp_all add: FS_SECTOR_SIZE_def mem_simps)
  have devs: "\<forall>s\<in>set (sids ls'). sid_dev s = sid_dev head"
    using assms(7) h(4) by blast
  let ?b = "cnt_bytes (fs_view fs') (cores ls')" and ?o = "cnt_bytes (fs_view fs) (cores ls)"
  have chain': "chain (fs_view fs') (get32 data 508) ls'"
    using assms(4) chain_cong [of ls' "fs_view fs'" "fs_view fs1"] same by auto
  have ok': "\<forall>c\<in>set (cores ls'). core_ok (fs_view fs') c"
    using assms(8) same core_ok_cong [of "fs_view fs'" _ "fs_view fs1"] by auto
  have "container (fs_view fs') head (unat n) ls'"
    unfolding container_def using fs'(3) hdr assms(5,6,13) hd(2) devs h(5) chain' ok' by auto
  moreover have lens: "length ?b = 511 * length (cores ls')" "length ?o = 511 * length (cores ls)"
    using length_cnt_bytes fs'(2) ok' h(1,9) by blast+
  ultimately have holds: "cnt_holds fs' head ls' (take (unat n) ?b)"
    using fs'(2) assms(13,14) by (simp add: cnt_holds_def min_absorb2)
  have common: "cnt_bytes (fs_view fs') cs = cnt_bytes (fs_view fs) cs"
    if "set cs \<subseteq> set (cores ls)" "set cs \<subseteq> set (cores ls')" for cs
  proof (rule cnt_bytes_cong)
    fix c assume "c \<in> set cs"
    then have "c \<in> set (cores ls)" "c \<in> set (cores ls')"
      using that by blast+
    then show "fs_view fs' c = fs_view fs c"
      using same [of c] assms(11) by (simp del: set_concat)
  qed
  let ?k = "min (length xs) (unat n)"
  have "take ?k ?b = take ?k ?o"
    using assms(12)
  proof
    assume c: "cores ls' = cores ls @ new"
    then have "?b = ?o @ cnt_bytes (fs_view fs') new"
      using common [of "cores ls"] by simp
    then show ?thesis
      using lens(2) h(6) by simp
  next
    assume c: "cores ls = cores ls' @ new"
    then have "?o = ?b @ cnt_bytes (fs_view fs) new"
      using common [of "cores ls'"] by simp
    then show ?thesis
      using lens(1) assms(13) by simp
  qed
  then have "take ?k ?b = take ?k xs"
    using arg_cong [OF h(7), of "take ?k"] by simp
  then have "resized fs head ls xs fs' ls' (take (unat n) ?b)"
    using holds assms(7,9,10) same fs'(3) lens(1) assms(13) hd unfolding resized_def
    by (auto simp: min_absorb2 ucast_id assms(2))
  moreover have "length (take (unat n) ?b) = unat n"
    using lens(1) assms(13) by simp
  ultimately show ?thesis
    using fs'(1,4) by blast
qed

lemma fs_cnt_set_size_holds:
  assumes "cnt_holds fs head ls xs" and "unat n \<le> cnt_max"
    and "fs_room fs (sid_dev head) (2 * new_cores (unat n) + k)"
  shows "\<exists>fs' ls' ys. fs_cnt_set_size fs head n = Some (0, fs') \<and> length ys = unat n \<and>
    resized fs head ls xs fs' ls' ys \<and> fs_room fs' (sid_dev head) k"
proof -
  obtain data where h: "fs_inv fs" "fs_view fs head = Some data" "data ! 0 = SF_HEAD"
    "get32 data 65 = word_of_nat (length xs)" "chain (fs_view fs) (get32 data 508) ls" "ls \<noteq> []"
    "distinct (head # sids ls)" "\<forall>c\<in>set (cores ls). core_ok (fs_view fs) c"
    "\<forall>s\<in>set (sids ls). sid_dev s = sid_dev head" "sid_dev head \<noteq> 0"
    "length xs \<le> 511 * length (cores ls)" "length xs \<le> cnt_max"
    using assms(1) by (elim cnt_holdsD)
  from fs_view_SomeD [OF h(1,2)] obtain d where
    d: "fs_get_vdisk fs (sid_dev head) = Some d" "vdisk_is_sector_used d head = Some True"
    "vdisk_load_sector d head = Some data"
    by blast
  let ?old = "get32 data 65 div 511 + (if get32 data 65 mod 511 \<noteq> 0 then 1 else 0)"
  let ?new = "if n \<noteq> 0 then n div 511 + 1 else n div 511"
  have unx: "unat (get32 data 65) = length xs"
    using h(4,12) cnt_max_lt [OF h(12)] by (simp add: unat_word_of_nat)
  have cnt: "unat ?old = old_cores (length xs)" "unat ?new = new_cores (unat n)"
    using unat_cores(1) [of "get32 data 65"] unat_cores(2) [OF assms(2)] unx h(12) by simp_all
  have offs: "1 + META_MAXLEN = 65" "LAST_SID_OFFSET = 508" "(word_of_nat BYTE_IN_CORE :: u32) = 511"
    by (simp_all add: layout)
  have run: "fs_cnt_set_size fs head n = do {
      (ret, fs) \<leftarrow> (if ?old < ?new then fs_cnt_grow_size fs (get32 data 508) (?new - ?old)
        else if ?old > ?new then do {
          (ret, fs) \<leftarrow> fs_cnt_shrink_size fs (get32 data 508) (?old - ?new);
          Some (if ret = -2 then 0 else ret, fs)
        } else Some (0, fs));
      if ret \<noteq> 0 then do {
        fs \<leftarrow> unload_at fs (sid_dev head) head data False;
        Some (1, fs)
      }
      else do {
        fs \<leftarrow> unload_at fs (sid_dev head) head (put32 data 65 n) True;
        Some (0, fs)
      } }"
    unfolding fs_cnt_set_size_def Let_def offs
    by (simp only: d h(3) option.case Option.bind.simps if_False simp_thms)
  have oc: "old_cores (length xs) \<le> length (cores ls)" "length xs \<le> 511 * old_cores (length xs)"
    using old_cores_le [OF h(11)] old_cores_ge by auto
  have dist: "distinct (sids ls)"
    using h(7) by auto
  consider "?old < ?new" | "?new < ?old" | "?old = ?new"
    using linorder_less_linear [of ?old ?new] by blast
  then show ?thesis
  proof cases
    case 1
    then have diff: "unat (?new - ?old) = new_cores (unat n) - old_cores (length xs)"
      using cnt by (subst unat_sub) auto
    have "fs_room fs (sid_dev head) (2 * unat (?new - ?old) + k)"
      by (rule fs_room_mono [OF assms(3)]) (simp add: diff)
    from grow_ok [OF h(1,5,6) dist h(8,9,10) this] obtain fs1 ls' new where
      g: "fs_cnt_grow_size fs (get32 data 508) (?new - ?old) = Some (0, fs1)" "fs_inv fs1"
        "fs_room fs1 (sid_dev head) k" "chain (fs_view fs1) (get32 data 508) ls'" "ls' \<noteq> []"
        "cores ls' = cores ls @ new" "length new = unat (?new - ?old)" "set (sids ls) \<subseteq> set (sids ls')"
        "distinct (sids ls')" "\<forall>s\<in>set (sids ls') - set (sids ls). fs_view fs s = None \<and> sid_dev s = sid_dev head"
        "\<forall>c\<in>set (cores ls'). core_ok (fs_view fs1) c"
        "\<forall>s. s \<notin> set (map fst ls) \<longrightarrow> s \<notin> set (sids ls') - set (sids ls) \<longrightarrow> fs_view fs1 s = fs_view fs s"
      by blast
    have "new_cores (unat n) \<le> length (cores ls')"
      using g(6,7) oc(1) diff by simp
    then have cap: "unat n \<le> 511 * length (cores ls')"
      using new_cores_ge [of "unat n"] by linarith
    have keep: "\<forall>c\<in>set (cores ls) \<inter> set (cores ls'). fs_view fs1 c = fs_view fs c"
      using g(12) dist by auto
    have frame: "\<forall>s. s \<notin> set (sids ls) \<longrightarrow> s \<notin> set (sids ls') \<longrightarrow> fs_view fs1 s = fs_view fs s"
    proof (intro allI impI)
      fix s assume s: "s \<notin> set (sids ls)" "s \<notin> set (sids ls')"
      then have "s \<notin> set (map fst ls)" "s \<notin> set (sids ls') - set (sids ls)"
        by simp_all
      then show "fs_view fs1 s = fs_view fs s"
        using g(12) by blast
    qed
    from resize_finish [OF assms(1) h(2) g(2,4,5,9) _ g(11) _ frame keep disjI1 [OF g(6)] cap assms(2)]
    have "\<exists>fs'. unload_at fs1 (sid_dev head) head (put32 data 65 n) True = Some fs' \<and>
      (\<forall>dev k. fs_room fs1 dev k \<longrightarrow> fs_room fs' dev k) \<and>
      (\<exists>ys. length ys = unat n \<and> resized fs head ls xs fs' ls' ys)"
      using g(8,10) by blast
    then obtain fs' ys where e: "unload_at fs1 (sid_dev head) head (put32 data 65 n) True = Some fs'"
      "\<forall>dev k. fs_room fs1 dev k \<longrightarrow> fs_room fs' dev k" "length ys = unat n" "resized fs head ls xs fs' ls' ys"
      by blast
    moreover have "fs_cnt_set_size fs head n = Some (0, fs')"
      using run 1 g(1) e(1) by simp
    ultimately show ?thesis
      using g(3) by blast
  next
    case 2
    then have diff: "unat (?old - ?new) = old_cores (length xs) - new_cores (unat n)"
      using cnt by (subst unat_sub) auto
    have lt: "\<not> length (cores ls) < unat (?old - ?new)" "unat (?old - ?new) < 2 ^ 31"
      using diff oc cnt_max_lt [OF h(12)] old_cores_le [of "length xs" "length xs"] by simp_all
    from shrink_ok [OF h(1,5,6) dist h(8,9) lt(2)] obtain r fs1 ls' where
      s: "fs_cnt_shrink_size fs (get32 data 508) (?old - ?new) = Some (r, fs1)" "fs_inv fs1"
        "\<forall>dev k. fs_room fs dev k \<longrightarrow> fs_room fs1 dev k"
        "\<forall>s. s \<notin> set (sids ls) \<longrightarrow> fs_view fs1 s = fs_view fs s"
        "\<forall>s\<in>set (sids ls) - set (sids ls'). fs_view fs1 s = None"
        "\<forall>s\<in>set (cores ls'). fs_view fs1 s = fs_view fs s"
        "set (map fst ls') \<subseteq> set (map fst ls)" "distinct (sids ls')"
        "cores ls' = take (length (cores ls) - unat (?old - ?new)) (cores ls)"
        "r \<in> {0, -2}" "ls' \<noteq> []" "chain (fs_view fs1) (get32 data 508) ls'"
      unfolding if_not_P [OF lt(1)] by blast
    have sub: "set (sids ls') \<subseteq> set (sids ls)"
      using s(7) set_take_subset [of _ "cores ls"] unfolding s(9) set_append by blast
    have ok: "\<forall>c\<in>set (cores ls'). core_ok (fs_view fs1) c"
      using s(6) h(8) core_ok_cong set_take_subset [of _ "cores ls"] unfolding s(9) by blast
    have "new_cores (unat n) \<le> length (cores ls')"
      using oc(1) diff 2 cnt by (simp add: s(9) word_less_nat_alt)
    then have cap: "unat n \<le> 511 * length (cores ls')"
      using new_cores_ge [of "unat n"] by linarith
    have parts: "cores ls = cores ls' @ drop (length (cores ls) - unat (?old - ?new)) (cores ls)"
      unfolding s(9) by simp
    from resize_finish [OF assms(1) h(2) s(2,12,11,8) _ ok s(5) _ _ disjI2 [OF parts] cap assms(2)]
    obtain fs' ys where e: "unload_at fs1 (sid_dev head) head (put32 data 65 n) True = Some fs'"
      "\<forall>dev k. fs_room fs1 dev k \<longrightarrow> fs_room fs' dev k" "length ys = unat n" "resized fs head ls xs fs' ls' ys"
      using s(4,6) sub by blast
    moreover have "fs_room fs1 (sid_dev head) k"
      using s(3) fs_room_mono [OF assms(3), of k] by simp
    moreover have "\<not> ?old < ?new"
      using 2 by simp
    then have "fs_cnt_set_size fs head n = Some (0, fs')"
      using run 2 s(1,10) e(1) by auto
    ultimately show ?thesis
      by blast
  next
    case 3
    then have eq: "new_cores (unat n) = old_cores (length xs)"
      using cnt by simp
    have cap: "unat n \<le> 511 * length (cores ls)"
      using new_cores_ge [of "unat n"] eq oc(1) by simp
    from resize_finish [OF assms(1) h(2,1,5,6) dist _ h(8) _ _ _ _ cap assms(2), of "[]"]
    obtain fs' ys where e: "unload_at fs (sid_dev head) head (put32 data 65 n) True = Some fs'"
      "\<forall>dev k. fs_room fs dev k \<longrightarrow> fs_room fs' dev k" "length ys = unat n" "resized fs head ls xs fs' ls ys"
      by auto
    moreover have "fs_room fs (sid_dev head) k"
      using fs_room_mono [OF assms(3), of k] by simp
    moreover have "fs_cnt_set_size fs head n = Some (0, fs')"
      using run 3 e(1) by simp
    ultimately show ?thesis
      by blast
  qed
qed

end
