(* ===== verification/ContainerStore.thy ===== *)
theory ContainerStore
  imports ContainerSize
begin

text \<open>
  The abstract file system: a map from the identifiers of containers to their meta string and
  contents.  Each operation of the container code is one update of that map, so nothing it does
  to one container can be seen in another.  The sectors of the containers are pairwise disjoint;
  this is what makes it true.
\<close>

type_synonym store = "u32 \<Rightarrow> (byte list \<times> byte list) option"

definition stored :: "filesys \<Rightarrow> u32 \<Rightarrow> (u32 \<times> u32 list) list \<Rightarrow> byte list \<times> byte list \<Rightarrow> bool" where
  "stored fs sid ls c \<longleftrightarrow> cnt_holds fs sid ls (snd c) \<and>
     (\<exists>data. fs_view fs sid = Some data \<and> meta_of data = fst c)"

definition stored_set :: "store \<Rightarrow> (u32 \<Rightarrow> (u32 \<times> u32 list) list) \<Rightarrow> u32 \<Rightarrow> u32 set" where
  "stored_set F L sid = (if F sid = None then {} else set (sid # sids (L sid)))"

definition layout_of :: "filesys \<Rightarrow> store \<Rightarrow> (u32 \<Rightarrow> (u32 \<times> u32 list) list) \<Rightarrow> bool" where
  "layout_of fs F L \<longleftrightarrow> fs_inv fs \<and> (\<forall>sid c. F sid = Some c \<longrightarrow> stored fs sid (L sid) c) \<and>
     (\<forall>a b. a \<noteq> b \<longrightarrow> stored_set F L a \<inter> stored_set F L b = {})"

definition stores :: "filesys \<Rightarrow> store \<Rightarrow> bool" where
  "stores fs F \<longleftrightarrow> (\<exists>L. layout_of fs F L)"

lemma layout_stored: "layout_of fs F L \<Longrightarrow> F a = Some c \<Longrightarrow> stored fs a (L a) c"
  unfolding layout_of_def by blast

lemma layout_disjoint: "layout_of fs F L \<Longrightarrow> a \<noteq> b \<Longrightarrow> stored_set F L a \<inter> stored_set F L b = {}"
  unfolding layout_of_def by blast

lemma stored_frame:
  assumes "stored fs sid ls c" and "fs_inv fs'"
    and "\<And>s. s \<in> set (sid # sids ls) \<Longrightarrow> fs_view fs' s = fs_view fs s"
  shows "stored fs' sid ls c"
proof -
  have "fs_view fs' sid = fs_view fs sid"
    using assms(3) by simp
  then show ?thesis
    using assms(1) cnt_holds_frame [OF _ assms(2,3)] by (simp add: stored_def)
qed

lemma chain_used: "chain m first ls \<Longrightarrow> s \<in> set (map fst ls) \<Longrightarrow> m s \<noteq> None"
  by (induction m first ls rule: chain.induct) (auto simp: loca_ok_def)

lemma stored_used:
  assumes "stored fs sid ls c" and "s \<in> set (sid # sids ls)"
  shows "fs_view fs s \<noteq> None"
proof -
  from assms(1) have "cnt_holds fs sid ls (snd c)"
    by (simp add: stored_def)
  then obtain data where d: "fs_view fs sid = Some data" "chain (fs_view fs) (get32 data 508) ls"
    "\<forall>c\<in>set (cores ls). core_ok (fs_view fs) c"
    by (elim cnt_holdsD)
  consider "s = sid" | "s \<in> set (map fst ls)" | "s \<in> set (cores ls)"
    using assms(2) by auto
  then show ?thesis
    using d chain_used [OF d(2)] by cases (auto simp: core_ok_def simp del: set_concat)
qed

text \<open>
  The rule every operation goes through: one container changes or is new, the sectors it gains
  were free, and nothing else in the view changes.
\<close>

lemma layout_update:
  assumes "layout_of fs F L" and "stored fs' sid ls' c'"
    and new: "\<And>s. s \<in> set (sid # sids ls') \<Longrightarrow> s \<notin> stored_set F L sid \<Longrightarrow> fs_view fs s = None"
    and frame: "\<And>s. s \<notin> stored_set F L sid \<Longrightarrow> s \<notin> set (sid # sids ls') \<Longrightarrow> fs_view fs' s = fs_view fs s"
  shows "layout_of fs' (F(sid \<mapsto> c')) (L(sid := ls'))"
proof -
  have inv: "fs_inv fs'"
    using assms(2) by (simp add: stored_def cnt_holds_def)
  note L = layout_stored [OF assms(1)] and disj = layout_disjoint [OF assms(1)]
  have used: "fs_view fs s \<noteq> None" if "s \<in> stored_set F L a" for s a
  proof -
    obtain c where "F a = Some c" "s \<in> set (a # sids (L a))"
      using \<open>s \<in> stored_set F L a\<close> by (cases "F a") (simp_all add: stored_set_def)
    then show ?thesis
      using stored_used [OF L] by blast
  qed
  have away: "stored_set F L a \<inter> set (sid # sids ls') = {}" if "a \<noteq> sid" for a
    using disj [OF \<open>a \<noteq> sid\<close>] used new by blast
  have sets: "stored_set (F(sid \<mapsto> c')) (L(sid := ls')) a =
      (if a = sid then set (sid # sids ls') else stored_set F L a)" for a
    by (simp add: stored_set_def)
  have "stored fs' a ((L(sid := ls')) a) ca" if ca: "(F(sid \<mapsto> c')) a = Some ca" for a ca
  proof (cases "a = sid")
    case True
    then show ?thesis
      using ca assms(2) by simp
  next
    case False
    then have Fa: "F a = Some ca"
      using ca by simp
    then have "set (a # sids (L a)) = stored_set F L a"
      by (simp add: stored_set_def)
    then have "fs_view fs' s = fs_view fs s" if "s \<in> set (a # sids (L a))" for s
      using frame [of s] away [OF False] disj [OF False] \<open>s \<in> set (a # sids (L a))\<close> by blast
    then show ?thesis
      using stored_frame [OF L [OF Fa] inv] False by simp
  qed
  moreover have "stored_set (F(sid \<mapsto> c')) (L(sid := ls')) a \<inter> stored_set (F(sid \<mapsto> c')) (L(sid := ls')) b = {}"
    if "a \<noteq> b" for a b
  proof -
    consider "a = sid" "b \<noteq> sid" | "b = sid" "a \<noteq> sid" | "a \<noteq> sid" "b \<noteq> sid"
      using \<open>a \<noteq> b\<close> by blast
    then show ?thesis
      by cases (use away [of a] away [of b] disj [OF \<open>a \<noteq> b\<close>] in
        \<open>simp_all only: sets if_True if_False simp_thms Int_commute\<close>)
  qed
  ultimately show ?thesis
    using inv unfolding layout_of_def by blast
qed

lemma stores_obtain:
  assumes "stores fs F" and "F sid = Some (meta, xs)"
  obtains L data where "layout_of fs F L" "stored fs sid (L sid) (meta, xs)" "cnt_holds fs sid (L sid) xs"
    "stored_set F L sid = set (sid # sids (L sid))" "fs_view fs sid = Some data" "meta_of data = meta"
    "length data = FS_SECTOR_SIZE" "sid \<notin> set (sids (L sid))"
proof -
  from assms(1) obtain L where L: "layout_of fs F L"
    by (auto simp: stores_def)
  have st: "stored fs sid (L sid) (meta, xs)"
    using layout_stored [OF L assms(2)] .
  then have h: "cnt_holds fs sid (L sid) xs"
    by (simp add: stored_def)
  obtain data where "fs_view fs sid = Some data" "meta_of data = meta"
    using st by (auto simp: stored_def)
  moreover have "length data = FS_SECTOR_SIZE" "sid \<notin> set (sids (L sid))"
  proof -
    obtain data' where "fs_view fs sid = Some data'" "length data' = FS_SECTOR_SIZE"
      "distinct (sid # sids (L sid))"
      using h by (elim cnt_holdsD)
    then show "length data = FS_SECTOR_SIZE" "sid \<notin> set (sids (L sid))"
      using \<open>fs_view fs sid = Some data\<close> by simp_all
  qed
  ultimately show ?thesis
    using that L st h assms(2) by (simp add: stored_set_def)
qed

lemma stores_inv: "stores fs F \<Longrightarrow> fs_inv fs"
  by (auto simp: stores_def layout_of_def)

lemma stores_same_view:
  assumes "stores fs F" and "fs_inv fs'" and "fs_view fs' = fs_view fs"
  shows "stores fs' F"
proof -
  from assms(1) obtain L where L: "layout_of fs F L"
    by (auto simp: stores_def)
  have "stored fs' sid (L sid) c" if "F sid = Some c" for sid c
  proof -
    have "stored fs sid (L sid) c"
      using layout_stored [OF L that] .
    then show ?thesis
      by (rule stored_frame) (use assms(2,3) in simp_all)
  qed
  then have "layout_of fs' F L"
    using L assms(2) unfolding layout_of_def by blast
  then show ?thesis
    by (auto simp: stores_def)
qed

lemma stores_empty: "fs_inv fs \<Longrightarrow> stores fs Map.empty"
  by (auto simp: stores_def layout_of_def stored_set_def)

section \<open>The operations\<close>

lemma store_get_size:
  assumes "stores fs F" and "F sid = Some (meta, xs)"
  shows "fs_cnt_get_size fs sid = Some (word_of_nat (length xs))" and "length xs \<le> cnt_max"
proof -
  obtain L where "cnt_holds fs sid (L sid) xs"
    using stores_obtain [OF assms] by metis
  then show "fs_cnt_get_size fs sid = Some (word_of_nat (length xs))" "length xs \<le> cnt_max"
    using get_size_holds by (auto simp: cnt_holds_def)
qed

lemma store_meta:
  assumes "stores fs F" and "F sid = Some (meta, xs)"
  shows "\<exists>fs'. fs_cnt_meta fs sid None = Some (Some meta, fs') \<and> stores fs' F \<and>
    (\<forall>dev k. fs_room fs dev k \<longrightarrow> fs_room fs' dev k)"
proof -
  obtain data where d: "fs_view fs sid = Some data" "meta_of data = meta"
    using stores_obtain [OF assms] by metis
  obtain fs' where "fs_cnt_meta fs sid None = Some (Some (meta_of data), fs')"
    "fs_inv fs'" "fs_view fs' = fs_view fs" "\<And>dev k. fs_room fs' dev k = fs_room fs dev k"
    by (rule meta_holds [OF stores_inv [OF assms(1)] d(1)]) blast
  then show ?thesis
    using stores_same_view [OF assms(1)] d(2) by blast
qed

lemma store_read:
  assumes "stores fs F" and "F sid = Some (meta, xs)" and "unat off + unat n \<le> length xs" and "unat n \<le> length buf"
  shows "fs_cnt_read fs sid buf off n = Some (0, mwrite buf 0 (mread xs (unat off) (unat n)), fs)"
proof -
  obtain L where "cnt_holds fs sid (L sid) xs"
    using stores_obtain [OF assms(1,2)] by metis
  from fs_cnt_read_holds [OF this assms(3,4)] show ?thesis .
qed

text \<open>The check of the code adds in 32 bits.\<close>

lemma fs_cnt_rw_refused:
  assumes "cnt_holds fs head ls xs" and "length xs < unat (off + n)"
  shows "fs_cnt_rw fs head buf off n b = Some (1, buf, fs)"
proof -
  from fs_cnt_rw_header [OF assms(1)] obtain first where
    "chain (fs_view fs) first ls" "sid_dev first = sid_dev head" "first \<noteq> 0"
      "fs_get_vdisk fs (sid_dev head) \<noteq> None" and
    run: "\<forall>buf off n b. fs_cnt_rw fs head buf off n b =
      (if off + n > word_of_nat (length xs) then Some (1, buf, fs)
       else do {
         (r, buf, fs) \<leftarrow> fs_cnt_rw_loca fs first buf off (sint n) b;
         if r \<noteq> 0 then Some (1, buf, fs) else Some (0, buf, fs)
       })" .
  have "length xs < 2 ^ 32"
    using assms(2) unsigned_less [where 'a = nat, of "off + n"] by simp
  then have "off + n > word_of_nat (length xs)"
    using assms(2) by (simp add: word_less_nat_alt unat_word_of_nat)
  then show ?thesis
    by (simp add: run)
qed

lemma store_write:
  assumes "stores fs F" and "F sid = Some (meta, xs)" and "unat off + unat n \<le> length xs" and "unat n \<le> length buf"
  shows "\<exists>fs'. fs_cnt_write fs sid buf off n = Some (0, buf, fs') \<and>
    stores fs' (F(sid \<mapsto> (meta, mwrite xs (unat off) (take (unat n) buf)))) \<and>
    (\<forall>dev k. fs_room fs dev k \<longrightarrow> fs_room fs' dev k)"
proof -
  obtain L data where L: "layout_of fs F L" "cnt_holds fs sid (L sid) xs"
    "stored_set F L sid = set (sid # sids (L sid))" "fs_view fs sid = Some data" "meta_of data = meta"
    "sid \<notin> set (sids (L sid))"
    using stores_obtain [OF assms(1,2)] by metis
  let ?c = "(meta, mwrite xs (unat off) (take (unat n) buf))"
  from fs_cnt_write_holds [OF L(2) assms(3,4)] obtain fs' where
    w: "fs_cnt_write fs sid buf off n = Some (0, buf, fs')" "cnt_holds fs' sid (L sid) (snd ?c)"
      "\<forall>s. s \<notin> set (cores (L sid)) \<longrightarrow> fs_view fs' s = fs_view fs s"
      "\<forall>dev k. fs_room fs dev k \<longrightarrow> fs_room fs' dev k"
    by auto
  have "fs_view fs' sid = fs_view fs sid"
    using w(3) L(6) by simp
  then have "stored fs' sid (L sid) ?c"
    using w(2) L(4,5) by (simp add: stored_def)
  then have "layout_of fs' (F(sid \<mapsto> ?c)) (L(sid := L sid))"
    by (rule layout_update [OF L(1)]) (use w(3) L(3) in auto)
  then show ?thesis
    using w(1,4) unfolding stores_def by blast
qed

lemma meta_of_put_size: "length data = FS_SECTOR_SIZE \<Longrightarrow> meta_of (put32 data 65 n) = meta_of data"
  by (simp add: meta_of_def put32_def mread_mwrite_disjoint FS_SECTOR_SIZE_def)

lemma store_set_size:
  assumes "stores fs F" and "F sid = Some (meta, xs)" and "unat n \<le> cnt_max"
    and "fs_room fs (sid_dev sid) (2 * new_cores (unat n) + k)"
  shows "\<exists>fs' ys. fs_cnt_set_size fs sid n = Some (0, fs') \<and> length ys = unat n \<and>
    take (min (length xs) (length ys)) ys = take (min (length xs) (length ys)) xs \<and>
    stores fs' (F(sid \<mapsto> (meta, ys))) \<and> fs_room fs' (sid_dev sid) k"
proof -
  obtain L data where L: "layout_of fs F L" "cnt_holds fs sid (L sid) xs"
    "stored_set F L sid = set (sid # sids (L sid))" "fs_view fs sid = Some data" "meta_of data = meta"
    "length data = FS_SECTOR_SIZE"
    using stores_obtain [OF assms(1,2)] by metis
  from fs_cnt_set_size_holds [OF L(2) assms(3,4)] obtain fs' ls' ys where
    r: "fs_cnt_set_size fs sid n = Some (0, fs')" "length ys = unat n" "resized fs sid (L sid) xs fs' ls' ys"
      "fs_room fs' (sid_dev sid) k"
    by blast
  then have "stored fs' sid ls' (meta, ys)"
    using L(4-6) by (auto simp: resized_def stored_def meta_of_put_size)
  moreover have "fs_view fs s = None" if "s \<in> set (sid # sids ls')" "s \<notin> stored_set F L sid" for s
    using r(3) that L(3) unfolding resized_def by auto
  moreover have "fs_view fs' s = fs_view fs s" if "s \<notin> stored_set F L sid" "s \<notin> set (sid # sids ls')" for s
    using r(3) that L(3) unfolding resized_def by auto
  ultimately have "layout_of fs' (F(sid \<mapsto> (meta, ys))) (L(sid := ls'))"
    by (intro layout_update [OF L(1)])
  then show ?thesis
    using r unfolding resized_def stores_def by blast
qed

text \<open>The meta string that \<open>fs_cnt_init\<close> stores: at most 63 bytes, padded with null bytes.\<close>

definition meta_str :: "byte list \<Rightarrow> byte list" where
  "meta_str meta = take 63 (meta @ replicate 63 0) @ [0]"

lemma store_init:
  assumes "stores fs F" and "fs_room fs dev (Suc (Suc k))" and "dev \<noteq> 0"
  shows "\<exists>sid fs'. fs_cnt_init fs dev meta = Some (sid, fs') \<and> sid \<noteq> 0 \<and> sid_dev sid = dev \<and> F sid = None \<and>
    stores fs' (F(sid \<mapsto> (meta_str meta, []))) \<and> fs_room fs' dev k"
proof -
  from assms(1) obtain L where L: "layout_of fs F L"
    by (auto simp: stores_def)
  obtain sid loca fs' where i: "fs_cnt_init fs dev meta = Some (sid, fs')" "sid \<noteq> 0"
    "sid_dev sid = dev" "fs_view fs sid = None" "fs_view fs loca = None" "sid \<noteq> loca"
    "fs_view fs' = (fs_view fs)(sid \<mapsto> new_head meta loca, loca \<mapsto> blank SF_LOCA)"
    "fs_room fs' dev k" "cnt_holds fs' sid [(loca, [])] []"
    by (rule fs_cnt_init_holds [OF stores_inv [OF assms(1)] assms(2,3)])
  have new: "F sid = None"
  proof (rule ccontr)
    assume "F sid \<noteq> None"
    then obtain c where "stored fs sid (L sid) c"
      using layout_stored [OF L] by blast
    from stored_used [OF this, of sid] i(4) show False
      by simp
  qed
  have "stored fs' sid [(loca, [])] (meta_str meta, [])"
    using i(6,7,9) by (simp add: stored_def meta_str_def meta_of_new_head)
  then have "layout_of fs' (F(sid \<mapsto> (meta_str meta, []))) (L(sid := [(loca, [])]))"
    by (rule layout_update [OF L]) (use i(4-7) in auto)
  then show ?thesis
    using i new unfolding stores_def by blast
qed

lemma layout_delete:
  assumes "layout_of fs F L" and "F sid = Some c"
  shows "\<exists>fs'. fs_cnt_delete fs sid = Some (0, fs') \<and> layout_of fs' (F(sid := None)) L \<and>
    fs_view fs' = (\<lambda>s. if s \<in> stored_set F L sid then None else fs_view fs s)"
proof -
  obtain meta xs where c: "c = (meta, xs)"
    by fastforce
  have L: "cnt_holds fs sid (L sid) xs" "stored_set F L sid = set (sid # sids (L sid))"
    using layout_stored [OF assms] assms(2) by (simp_all add: stored_def stored_set_def c)
  from fs_cnt_delete_holds [OF L(1)] obtain fs' where
    d: "fs_cnt_delete fs sid = Some (0, fs')" "fs_inv fs'"
      "fs_view fs' = (\<lambda>s. if s \<in> set (sid # sids (L sid)) then None else fs_view fs s)"
    by blast
  have "stored fs' a (L a) ca" if "(F(sid := None)) a = Some ca" for a ca
  proof -
    have a: "F a = Some ca" "a \<noteq> sid"
      using that by (auto split: if_splits)
    have sets: "stored_set F L a \<inter> stored_set F L sid = {}" "stored_set F L a = set (a # sids (L a))"
      using layout_disjoint [OF assms(1) a(2)] a(1) by (simp_all only: stored_set_def option.distinct if_False)
    show ?thesis
    proof (rule stored_frame [OF layout_stored [OF assms(1) a(1)] d(2)])
      fix s assume "s \<in> set (a # sids (L a))"
      then have "s \<notin> set (sid # sids (L sid))"
        using sets L(2) by blast
      then show "fs_view fs' s = fs_view fs s"
        using d(3) by simp
    qed
  qed
  moreover have "stored_set (F(sid := None)) L a \<subseteq> stored_set F L a" for a
    by (simp add: stored_set_def)
  ultimately have "layout_of fs' (F(sid := None)) L"
    using assms(1) d(2) unfolding layout_of_def by (metis (no_types, lifting) Int_mono subset_empty)
  then show ?thesis
    using d(1,3) unfolding L(2) by blast
qed

lemma store_delete: "stores fs F \<Longrightarrow> F sid = Some c \<Longrightarrow> \<exists>fs'. fs_cnt_delete fs sid = Some (0, fs') \<and> stores fs' (F(sid := None))"
  using layout_delete unfolding stores_def by blast

section \<open>The interface: a store of byte sequences\<close>

text \<open>
  What the directory code needs of the containers.  \<open>room s dev k\<close>: the disk can take \<open>k\<close> more
  sectors.
\<close>

locale byte_store =
  fixes holds :: "'s \<Rightarrow> store \<Rightarrow> bool"
    and room :: "'s \<Rightarrow> byte \<Rightarrow> nat \<Rightarrow> bool"
    and set_size :: "'s \<Rightarrow> u32 \<Rightarrow> u32 \<Rightarrow> (int \<times> 's) option"
    and rd :: "'s \<Rightarrow> u32 \<Rightarrow> byte list \<Rightarrow> u32 \<Rightarrow> u32 \<Rightarrow> (int \<times> byte list \<times> 's) option"
    and wr :: "'s \<Rightarrow> u32 \<Rightarrow> byte list \<Rightarrow> u32 \<Rightarrow> u32 \<Rightarrow> (int \<times> byte list \<times> 's) option"
  assumes resize_law: "holds s F \<Longrightarrow> F sid = Some (meta, xs) \<Longrightarrow> unat n \<le> cnt_max \<Longrightarrow>
      room s (sid_dev sid) (2 * new_cores (unat n) + k) \<Longrightarrow>
      \<exists>s' ys. set_size s sid n = Some (0, s') \<and> length ys = unat n \<and>
        take (min (length xs) (length ys)) ys = take (min (length xs) (length ys)) xs \<and>
        holds s' (F(sid \<mapsto> (meta, ys))) \<and> room s' (sid_dev sid) k"
    and read_law: "holds s F \<Longrightarrow> F sid = Some (meta, xs) \<Longrightarrow> unat off + unat n \<le> length xs \<Longrightarrow>
      unat n \<le> length buf \<Longrightarrow> rd s sid buf off n = Some (0, mwrite buf 0 (mread xs (unat off) (unat n)), s)"
    and write_law: "holds s F \<Longrightarrow> F sid = Some (meta, xs) \<Longrightarrow> unat off + unat n \<le> length xs \<Longrightarrow>
      unat n \<le> length buf \<Longrightarrow> \<exists>s'. wr s sid buf off n = Some (0, buf, s') \<and>
        holds s' (F(sid \<mapsto> (meta, mwrite xs (unat off) (take (unat n) buf)))) \<and>
        (\<forall>dev k. room s dev k \<longrightarrow> room s' dev k)"
begin

lemma read_all:
  assumes "holds s F" and "F sid = Some (meta, xs)" and "unat n = length xs" and "length buf = length xs"
  shows "rd s sid buf 0 n = Some (0, xs, s)"
  using read_law [OF assms(1,2), of 0 n buf] assms(3,4) by (simp add: mread_all mwrite_all)

text \<open>
  Growing a byte sequence, reading its old contents, computing the new ones from them and writing
  these: the sequence is then the new one.
\<close>

lemma rewrite:
  assumes "holds s F" and "F sid = Some (meta, xs)" and "unat n \<le> cnt_max" and "unat m = length xs"
    and "length xs \<le> unat n" and "room s (sid_dev sid) (2 * new_cores (unat n) + k)"
  obtains s1 where "set_size s sid n = Some (0, s1)" "\<And>buf. length buf = unat n \<Longrightarrow> rd s1 sid buf 0 m = Some (0, mwrite buf 0 xs, s1)"
    "\<And>ys. length ys = unat n \<Longrightarrow> \<exists>s2. wr s1 sid ys 0 n = Some (0, ys, s2) \<and> holds s2 (F(sid \<mapsto> (meta, ys))) \<and>
       room s2 (sid_dev sid) k"
proof -
  from resize_law [OF assms(1,2,3,6)] obtain s1 zs where
    z: "set_size s sid n = Some (0, s1)" "length zs = unat n" "holds s1 (F(sid \<mapsto> (meta, zs)))"
      "room s1 (sid_dev sid) k"
      "take (min (length xs) (length zs)) zs = take (min (length xs) (length zs)) xs"
    by blast
  have pre: "mread zs 0 (length xs) = xs"
    using z(2,5) assms(5) by (simp add: mread_def min_absorb1)
  have "rd s1 sid buf 0 m = Some (0, mwrite buf 0 xs, s1)" if "length buf = unat n" for buf
    using read_law [OF z(3), of sid meta zs 0 m buf] that z(2) assms(4,5) pre by simp
  moreover have "\<exists>s2. wr s1 sid ys 0 n = Some (0, ys, s2) \<and> holds s2 (F(sid \<mapsto> (meta, ys))) \<and>
       room s2 (sid_dev sid) k" if "length ys = unat n" for ys
    using write_law [OF z(3), of sid meta zs 0 n ys] that z(2,4) by (auto simp: mwrite_all)
  ultimately show ?thesis
    using that z(1) by blast
qed

end

interpretation containers: byte_store stores fs_room fs_cnt_set_size fs_cnt_read fs_cnt_write
  by unfold_locales (fact store_set_size store_read store_write)+

end
