(* ===== verification/Directory.thy ===== *)
theory Directory
  imports ContainerStore
begin

text \<open>
  Directories (\<open>usg_dir.c\<close>): a container whose meta string starts with \<open>D\<close> and whose contents
  are a table of entries followed by the names.  \<open>dir_bytes\<close> is the layout; reading a directory
  inverts it and adding an element appends an entry to it.

  A buffer from \<open>malloc\<close> is overwritten before it is read: its initial contents are written as
  zeros, and reading the number of entries from a buffer of fewer than 4 bytes is \<open>None\<close>.
\<close>

type_synonym entry = "u32 \<times> byte list"

definition chr_A :: byte where "chr_A = 0x41"
definition chr_D :: byte where "chr_D = 0x44"
definition chr_F :: byte where "chr_F = 0x46"
definition chr_dash :: byte where "chr_dash = 0x2D"
definition chr_dot :: byte where "chr_dot = 0x2E"
definition chr_slash :: byte where "chr_slash = 0x2F"

lemmas chr_defs = chr_A_def chr_D_def chr_F_def chr_dash_def chr_dot_def chr_slash_def

definition kfu_is_dir :: "filesys \<Rightarrow> u32 \<Rightarrow> (bool \<times> filesys) option" where
  "kfu_is_dir fs dir_sid =
     (if dir_sid = SID_NULL then Some (False, fs)
      else do {
        (name, fs) \<leftarrow> fs_cnt_meta fs dir_sid None;
        case name of None \<Rightarrow> Some (False, fs) | Some name \<Rightarrow> Some (name ! 0 = chr_D, fs)
      })"

definition kfu_is_file :: "filesys \<Rightarrow> u32 \<Rightarrow> (bool \<times> filesys) option" where
  "kfu_is_file fs dir_sid =
     (if dir_sid = SID_NULL then Some (False, fs)
      else do {
        (name, fs) \<leftarrow> fs_cnt_meta fs dir_sid None;
        case name of None \<Rightarrow> Some (False, fs) | Some name \<Rightarrow> Some (name ! 0 = chr_F, fs)
      })"

definition kfu_is_afft :: "filesys \<Rightarrow> u32 \<Rightarrow> (bool \<times> filesys) option" where
  "kfu_is_afft fs dir_sid =
     (if dir_sid = SID_NULL then Some (False, fs)
      else do {
        (name, fs) \<leftarrow> fs_cnt_meta fs dir_sid None;
        case name of None \<Rightarrow> Some (False, fs) | Some name \<Rightarrow> Some (name ! 0 = chr_A, fs)
      })"

text \<open>The C string at position \<open>p\<close> of a buffer; \<open>None\<close> when it does not end inside.\<close>

definition cstr_at :: "byte list \<Rightarrow> nat \<Rightarrow> byte list option" where
  "cstr_at buf p = (if 0 \<in> set (drop p buf) then Some (takeWhile (\<lambda>c. c \<noteq> 0) (drop p buf)) else None)"

text \<open>The loop over the entries: \<open>i\<close> is the index, the last argument the entries left.\<close>

fun dir_read_loop :: "byte list \<Rightarrow> u32 \<Rightarrow> nat \<Rightarrow> nat \<Rightarrow> entry list option" where
  "dir_read_loop buf count i 0 = Some []"
| "dir_read_loop buf count i (Suc n) =
     (if 4 + i * 8 + 8 > length buf then None
      else do {
        let sid = get32 buf (4 + i * 8);
        let name_offset = get32 buf (4 + i * 8 + 4);
        name \<leftarrow> cstr_at buf (4 + unat count * 8 + unat name_offset);
        es \<leftarrow> dir_read_loop buf count (Suc i) n;
        Some ((sid, name) # es)
      })"

text \<open>\<open>want\<close> is false when the callers pass null pointers for the results.\<close>

definition kfu_get_dir_content :: "filesys \<Rightarrow> u32 \<Rightarrow> bool \<Rightarrow> (int \<times> entry list \<times> filesys) option" where
  "kfu_get_dir_content fs dir_sid want = do {
     (d, fs) \<leftarrow> kfu_is_dir fs dir_sid;
     if \<not> d then Some (-1, [], fs)
     else do {
       sz \<leftarrow> fs_cnt_get_size fs dir_sid;
       if sz = UINT32_MAX then Some (-1, [], fs)
       else do {
         (r, buf, fs) \<leftarrow> fs_cnt_read fs dir_sid (replicate (unat sz) 0) 0 sz;
         if r \<noteq> 0 then Some (-1, [], fs)
         else if length buf < 4 then None
         else do {
           let count = get32 buf 0;
           if count = 0 \<or> \<not> want then Some (sint count, [], fs)
           else do {
             es \<leftarrow> dir_read_loop buf count 0 (unat count);
             Some (sint count, es, fs)
           }
         }
       }
     }
   }"

text \<open>The loop that moves the names up by 8 bytes: \<open>n\<close> is \<open>i + 1\<close>.\<close>

fun move_names :: "byte list \<Rightarrow> nat \<Rightarrow> nat \<Rightarrow> byte list" where
  "move_names buf lo 0 = buf"
| "move_names buf lo (Suc i) = (if lo \<le> i then move_names (buf[i + 8 := buf ! i]) lo i else buf)"

definition kfu_add_element_to_dir :: "filesys \<Rightarrow> u32 \<Rightarrow> u32 \<Rightarrow> byte list \<Rightarrow> (int \<times> filesys) option" where
  "kfu_add_element_to_dir fs dir_sid element_sid name = do {
     (d, fs) \<leftarrow> (if element_sid = SID_NULL then Some (False, fs) else kfu_is_dir fs dir_sid);
     if \<not> d then Some (1, fs)
     else do {
       sz \<leftarrow> fs_cnt_get_size fs dir_sid;
       if sz = UINT32_MAX then Some (1, fs)
       else do {
         let new_size = sz + 4 + 4 + word_of_nat (length name) + 1;
         (r, fs) \<leftarrow> fs_cnt_set_size fs dir_sid new_size;
         if r \<noteq> 0 then Some (1, fs)
         else do {
           (r, buf, fs) \<leftarrow> fs_cnt_read fs dir_sid (replicate (unat new_size) 0) 0 sz;
           if r \<noteq> 0 then Some (1, fs)
           else if sz < 4 then None
           else do {
             let count = get32 buf 0;
             let lo = 4 + count * (4 + 4);
             let buf = (if count > 0 then move_names buf (unat lo) (unat sz) else buf);
             if unat lo + 8 > length buf then None
             else do {
               let buf = put32 buf (unat lo) element_sid;
               let name_offset = sz - 4 - count * (4 + 4);
               let buf = put32 buf (unat lo + 4) name_offset;
               let count = count + 1;
               let buf = put32 buf 0 count;
               let p = unat (4 + count * 4 + count * 4 + name_offset);
               if p + length name + 1 > length buf then None
               else do {
                 let buf = mwrite buf p (name @ [0]);
                 (r, buf, fs) \<leftarrow> fs_cnt_write fs dir_sid buf 0 new_size;
                 if r \<noteq> 0 then Some (1, fs) else Some (0, fs)
               }
             }
           }
         }
       }
     }
   }"

section \<open>The layout\<close>

fun ent_table :: "nat \<Rightarrow> entry list \<Rightarrow> byte list" where
  "ent_table off [] = []"
| "ent_table off ((s, nm) # es) = le32 s @ le32 (word_of_nat off) @ ent_table (off + length nm + 1) es"

definition ent_names :: "entry list \<Rightarrow> byte list" where
  "ent_names es = concat (map (\<lambda>(s, nm). nm @ [0]) es)"

definition dir_bytes :: "entry list \<Rightarrow> byte list" where
  "dir_bytes es = le32 (word_of_nat (length es)) @ ent_table 0 es @ ent_names es"

definition ent_ok :: "entry list \<Rightarrow> bool" where
  "ent_ok es \<longleftrightarrow> (\<forall>(s, nm)\<in>set es. 0 \<notin> set nm)"

lemma ent_names_simps [simp]: "ent_names [] = []" "ent_names ((s, nm) # es) = nm @ [0] @ ent_names es"
  "ent_names (es @ es') = ent_names es @ ent_names es'"
  by (simp_all add: ent_names_def)

lemma length_ent_table [simp]: "length (ent_table off es) = 8 * length es"
  by (induction off es rule: ent_table.induct) auto

lemma ent_table_append:
  "ent_table off (es @ es') = ent_table off es @ ent_table (off + length (ent_names es)) es'"
  by (induction off es rule: ent_table.induct) (auto simp: ac_simps)

lemma length_dir_bytes: "length (dir_bytes es) = 4 + 8 * length es + length (ent_names es)"
  by (simp add: dir_bytes_def)

lemma get32_at: "length xs = p \<Longrightarrow> get32 (xs @ le32 w @ ys) p = w"
  by (auto simp: get32_def mread_def)

lemma mwrite_mid: "length a = p \<Longrightarrow> length b = length ys \<Longrightarrow> mwrite (a @ b @ c) p ys = a @ ys @ c"
  by (auto simp: mwrite_def)

lemma cstr_at_mid: "length xs = p \<Longrightarrow> 0 \<notin> set nm \<Longrightarrow> cstr_at (xs @ nm @ 0 # ys) p = Some nm"
  by (auto simp: cstr_at_def takeWhile_append)

lemma dir_read_suffix:
  assumes "ent_ok (pre @ suf)" and "length (dir_bytes (pre @ suf)) < 2 ^ 32"
  shows "dir_read_loop (dir_bytes (pre @ suf)) (word_of_nat (length (pre @ suf))) (length pre) (length suf) = Some suf"
  using assms
proof (induction suf arbitrary: pre)
  case Nil
  then show ?case by simp
next
  case (Cons e suf)
  obtain s nm where e: "e = (s, nm)" by (cases e)
  let ?es = "pre @ e # suf" and ?buf = "dir_bytes (pre @ e # suf)"
  let ?off = "length (ent_names pre)"
  let ?head = "le32 (word_of_nat (length ?es)) @ ent_table 0 pre"
  have len: "length ?buf = 4 + 8 * length ?es + length (ent_names ?es)"
    by (rule length_dir_bytes)
  then have small: "length ?es < 2 ^ 32" "?off < 2 ^ 32"
    using Cons.prems(2) by auto
  have "?buf = ?head @ le32 s @ (le32 (word_of_nat ?off) @ ent_table (?off + length nm + 1) suf @ ent_names ?es)"
    "?buf = (?head @ le32 s) @ le32 (word_of_nat ?off) @ (ent_table (?off + length nm + 1) suf @ ent_names ?es)"
    by (simp_all add: dir_bytes_def ent_table_append e)
  then have get: "get32 ?buf (4 + length pre * 8) = s" "get32 ?buf (4 + length pre * 8 + 4) = word_of_nat ?off"
    using get32_at [of ?head "4 + length pre * 8" s] get32_at [of "?head @ le32 s" "4 + length pre * 8 + 4"]
    by simp_all
  have "?buf = (le32 (word_of_nat (length ?es)) @ ent_table 0 ?es @ ent_names pre) @ nm @ 0 # ent_names suf"
    by (simp add: dir_bytes_def e)
  moreover have "length (le32 (word_of_nat (length ?es)) @ ent_table 0 ?es @ ent_names pre) =
      4 + length ?es * 8 + ?off"
    by simp
  moreover have "0 \<notin> set nm"
    using Cons.prems(1) by (auto simp: ent_ok_def e)
  ultimately have "cstr_at ?buf (4 + length ?es * 8 + ?off) = Some nm"
    using cstr_at_mid by metis
  moreover have "dir_read_loop ?buf (word_of_nat (length ?es)) (Suc (length pre)) (length suf) = Some suf"
    using Cons.IH [of "pre @ [e]"] Cons.prems by simp
  moreover have "\<not> 4 + length pre * 8 + 8 > length ?buf"
    using len by simp
  moreover have "unat (word_of_nat (length ?es) :: u32) = length ?es" "unat (word_of_nat ?off :: u32) = ?off"
    by (rule unat_word_of_nat, use small in simp)+
  ultimately have "dir_read_loop ?buf (word_of_nat (length ?es)) (length pre) (Suc (length suf)) = Some ((s, nm) # suf)"
    using get by (simp del: of_nat_add of_nat_Suc length_append)
  then show ?case
    by (simp add: e)
qed

lemma dir_read_bytes:
  assumes "ent_ok es" and "length (dir_bytes es) < 2 ^ 32"
  shows "dir_read_loop (dir_bytes es) (word_of_nat (length es)) 0 (length es) = Some es"
  using dir_read_suffix [of "[]" es] assms by simp

lemma get32_dir_bytes: "get32 (dir_bytes es) 0 = word_of_nat (length es)"
  using get32_at [of "[]" 0 "word_of_nat (length es)"] by (simp add: dir_bytes_def)

lemma move_names_mwrite:
  "lo \<le> n \<Longrightarrow> n + 8 \<le> length buf \<Longrightarrow> move_names buf lo n = mwrite buf (lo + 8) (mread buf lo (n - lo))"
proof (induction n arbitrary: buf)
  case 0
  then show ?case by simp
next
  case (Suc i)
  show ?case
  proof (cases "lo \<le> i")
    case True
    let ?b = "buf[i + 8 := buf ! i]"
    have "move_names buf lo (Suc i) = mwrite ?b (lo + 8) (mread ?b lo (i - lo))"
      using True Suc by simp
    also have "mread ?b lo (i - lo) = mread buf lo (i - lo)"
      using Suc.prems by (intro nth_equalityI) auto
    also have "mwrite ?b (lo + 8) (mread buf lo (i - lo)) = mwrite buf (lo + 8) (mread buf lo (Suc i - lo))"
    proof (rule nth_equalityI)
      fix j assume j: "j < length (mwrite ?b (lo + 8) (mread buf lo (i - lo)))"
      then have "j < length buf"
        using True Suc.prems by simp
      then show "mwrite ?b (lo + 8) (mread buf lo (i - lo)) ! j = mwrite buf (lo + 8) (mread buf lo (Suc i - lo)) ! j"
        using True Suc.prems by (auto simp: nth_mwrite nth_list_update)
    qed (use True Suc.prems in simp)
    finally show ?thesis .
  next
    case False
    then have "lo = Suc i"
      using Suc.prems(1) by simp
    then show ?thesis by simp
  qed
qed

text \<open>What adding does to the buffer: one more entry in the table, one more name at the end.\<close>

lemma dir_add_bytes:
  fixes es :: "entry list" and name :: "byte list" and sid :: u32
  defines "c \<equiv> length es" and "N \<equiv> length (ent_names es)"
    and "buf0 \<equiv> dir_bytes es @ replicate (9 + length name) 0"
  defines "buf1 \<equiv> (if 0 < c then move_names buf0 (4 + 8 * c) (length (dir_bytes es)) else buf0)"
  defines "buf2 \<equiv> put32 (put32 (put32 buf1 (4 + 8 * c) sid) (4 + 8 * c + 4) (word_of_nat N)) 0 (word_of_nat (Suc c))"
  shows "mwrite buf2 (4 + 8 * Suc c + N) (name @ [0]) = dir_bytes (es @ [(sid, name)])"
    and "length buf1 = length buf0" and "length buf2 = length buf0"
proof -
  let ?T = "ent_table 0 es" and ?Ns = "ent_names es" and ?Z = "replicate (Suc (length name)) (0::byte)"
  let ?h = "le32 (word_of_nat c)"
  obtain J where J: "length J = 8" "buf1 = (?h @ ?T) @ J @ ?Ns @ ?Z"
  proof (cases "es = []")
    case True
    then have "buf1 = ?h @ replicate (8 + Suc (length name)) 0"
      by (simp add: buf1_def c_def buf0_def dir_bytes_def)
    also have "\<dots> = (?h @ ?T) @ replicate 8 0 @ ?Ns @ ?Z"
      unfolding replicate_add using True by simp
    finally show ?thesis
      using that [of "replicate 8 0"] by simp
  next
    case False
    let ?rest = "?Ns @ replicate (9 + length name) 0"
    have b0: "buf0 = (?h @ ?T) @ ?rest"
      by (simp add: buf0_def dir_bytes_def c_def)
    have "buf1 = move_names buf0 (4 + 8 * c) (4 + 8 * c + N)"
      using False by (simp add: buf1_def c_def length_dir_bytes N_def)
    also have "\<dots> = mwrite buf0 (4 + 8 * c + 8) (mread buf0 (4 + 8 * c) N)"
      by (subst move_names_mwrite) (simp_all add: buf0_def length_dir_bytes c_def N_def)
    also have "mread buf0 (4 + 8 * c) N = ?Ns"
      unfolding b0 by (simp add: mread_def c_def N_def)
    also have "mwrite buf0 (4 + 8 * c + 8) ?Ns = (?h @ ?T) @ take 8 ?rest @ ?Ns @ ?Z"
      unfolding b0 by (simp add: mwrite_def c_def)
    finally show ?thesis
      using that [of "take 8 ?rest"] by simp
  qed
  obtain J1 J2 where J12: "J = J1 @ J2" "length J1 = 4" "length J2 = 4"
    using J(1) that [of "take 4 J" "drop 4 J"] by simp
  show "length buf1 = length buf0"
    using J by (simp add: buf0_def dir_bytes_def c_def)
  have "put32 buf1 (4 + 8 * c) sid = (?h @ ?T @ le32 sid) @ J2 @ ?Ns @ ?Z"
    using mwrite_mid [of "?h @ ?T" "4 + 8 * c" J1 "le32 sid" "J2 @ ?Ns @ ?Z"] J(2) J12
    by (simp add: put32_def c_def)
  moreover have "put32 \<dots> (4 + 8 * c + 4) (word_of_nat N) =
      ?h @ (?T @ le32 sid @ le32 (word_of_nat N) @ ?Ns @ ?Z)"
    using mwrite_mid [of "?h @ ?T @ le32 sid" "4 + 8 * c + 4" J2 "le32 (word_of_nat N)" "?Ns @ ?Z"] J12
    by (simp add: put32_def c_def)
  moreover have "put32 \<dots> 0 (word_of_nat (Suc c)) =
      le32 (word_of_nat (Suc c)) @ ?T @ le32 sid @ le32 (word_of_nat N) @ ?Ns @ ?Z"
    using mwrite_mid [of "[]" 0 ?h "le32 (word_of_nat (Suc c))" "?T @ le32 sid @ le32 (word_of_nat N) @ ?Ns @ ?Z"]
    by (simp add: put32_def)
  ultimately have b2: "buf2 = le32 (word_of_nat (Suc c)) @ ?T @ le32 sid @ le32 (word_of_nat N) @ ?Ns @ ?Z"
    by (simp only: buf2_def)
  then show "length buf2 = length buf0"
    by (simp add: buf0_def dir_bytes_def c_def)
  show "mwrite buf2 (4 + 8 * Suc c + N) (name @ [0]) = dir_bytes (es @ [(sid, name)])"
    unfolding b2
    using mwrite_mid [of "le32 (word_of_nat (Suc c)) @ ?T @ le32 sid @ le32 (word_of_nat N) @ ?Ns"
        "4 + 8 * Suc c + N" ?Z "name @ [0]" "[]"]
    by (simp add: dir_bytes_def ent_table_append c_def N_def)
qed

section \<open>The operations on the store\<close>

lemma is_dir_store:
  assumes "stores fs F" and "F sid = Some (meta, xs)" and "sid \<noteq> 0"
  shows "\<exists>fs'. kfu_is_dir fs sid = Some (meta ! 0 = chr_D, fs') \<and> stores fs' F \<and>
    (\<forall>dev k. fs_room fs dev k \<longrightarrow> fs_room fs' dev k)"
  using store_meta [OF assms(1,2)] assms(3) by (auto simp: kfu_is_dir_def SID_NULL_def)

definition is_directory :: "store \<Rightarrow> u32 \<Rightarrow> entry list \<Rightarrow> bool" where
  "is_directory F sid es \<longleftrightarrow> sid \<noteq> 0 \<and> ent_ok es \<and>
     (\<exists>meta. F sid = Some (meta, dir_bytes es) \<and> meta ! 0 = chr_D)"

lemma dir_bytes_bounds:
  assumes "length (dir_bytes es) \<le> cnt_max"
  shows "length (dir_bytes es) < 2 ^ 31" "length es < 2 ^ 31" "length (ent_names es) < 2 ^ 31"
  using assms by (auto simp: length_dir_bytes cnt_max_def)

lemma get_dir_content_store:
  assumes "stores fs F" and "is_directory F dir es"
  shows "\<exists>fs'. kfu_get_dir_content fs dir want =
      Some (int (length es), (if want then es else []), fs') \<and> stores fs' F \<and>
    (\<forall>dev k. fs_room fs dev k \<longrightarrow> fs_room fs' dev k)"
proof -
  from assms(2) obtain meta where d: "dir \<noteq> 0" "ent_ok es" "F dir = Some (meta, dir_bytes es)" "meta ! 0 = chr_D"
    by (auto simp: is_directory_def)
  from is_dir_store [OF assms(1) d(3,1)] obtain fs' where
    fs': "kfu_is_dir fs dir = Some (True, fs')" "stores fs' F" "\<forall>dev k. fs_room fs dev k \<longrightarrow> fs_room fs' dev k"
    using d(4) by auto
  note size = store_get_size [OF fs'(2) d(3)]
  note b = dir_bytes_bounds [OF size(2)]
  let ?n = "word_of_nat (length (dir_bytes es)) :: u32" and ?c = "word_of_nat (length es) :: u32"
  have un: "unat ?n = length (dir_bytes es)"
    by (rule unat_word_of_nat) (use b(1) in simp)
  have uc: "unat ?c = length es" and sc: "sint ?c = int (length es)"
    using b(2) by (simp_all add: unat_word_of_nat sint_small)
  have z: "?c = 0 \<longleftrightarrow> es = []"
    using uc by (metis length_0_conv unat_eq_zero)
  have read: "fs_cnt_read fs' dir (replicate (unat ?n) 0) 0 ?n = Some (0, dir_bytes es, fs')"
    by (rule containers.read_all [OF fs'(2) d(3) un]) (simp add: un)
  have "\<not> length (dir_bytes es) < 4"
    by (simp add: length_dir_bytes)
  moreover have "dir_read_loop (dir_bytes es) ?c 0 (unat ?c) = Some es"
    unfolding uc by (rule dir_read_bytes [OF d(2)]) (use b(1) in simp)
  ultimately have "kfu_get_dir_content fs dir want =
      Some (int (length es), (if want then es else []), fs')"
    using fs'(1) size(1) size_not_max [OF size(2)] read z sc
    by (auto simp: kfu_get_dir_content_def get32_dir_bytes)
  then show ?thesis
    using fs'(2,3) by blast
qed

lemma add_element_store:
  assumes "stores fs F" and "is_directory F dir es" and "sid \<noteq> 0" and "0 \<notin> set name"
    and "length (dir_bytes (es @ [(sid, name)])) \<le> cnt_max"
    and "fs_room fs (sid_dev dir) (2 * new_cores (length (dir_bytes (es @ [(sid, name)]))) + k)"
  shows "\<exists>fs' F'. kfu_add_element_to_dir fs dir sid name = Some (0, fs') \<and> stores fs' F' \<and>
    is_directory F' dir (es @ [(sid, name)]) \<and> F' = F(dir := F' dir) \<and> map_option fst (F' dir) = map_option fst (F dir) \<and>
    fs_room fs' (sid_dev dir) k"
proof -
  from assms(2) obtain meta where d: "dir \<noteq> 0" "ent_ok es" "F dir = Some (meta, dir_bytes es)" "meta ! 0 = chr_D"
    by (auto simp: is_directory_def)
  from is_dir_store [OF assms(1) d(3,1)] obtain fs0 where
    fs0: "kfu_is_dir fs dir = Some (True, fs0)" "stores fs0 F" "\<forall>dev k. fs_room fs dev k \<longrightarrow> fs_room fs0 dev k"
    using d(4) by auto
  note size = store_get_size [OF fs0(2) d(3)]
  let ?new = "dir_bytes (es @ [(sid, name)])"
  let ?s = "length (dir_bytes es)" and ?c = "length es" and ?N = "length (ent_names es)"
  have len: "length ?new = ?s + 9 + length name" "?s = 4 + 8 * ?c + ?N"
    by (simp_all add: length_dir_bytes)
  note bounds = dir_bytes_bounds [OF assms(5)]
  let ?n = "word_of_nat (length ?new) :: u32" and ?m = "word_of_nat ?s :: u32"
  have n: "unat ?n = length ?new" "unat ?m = ?s"
    by (rule unat_word_of_nat, use bounds(1) len in simp)+
  have new_size: "?m + 4 + 4 + word_of_nat (length name) + 1 = ?n"
    unfolding len(1) by simp
  from fs0(3) assms(6) have room: "fs_room fs0 (sid_dev dir) (2 * new_cores (unat ?n) + k)"
    unfolding n by blast
  obtain fs1 where fs1: "fs_cnt_set_size fs0 dir ?n = Some (0, fs1)"
    "\<And>buf. length buf = unat ?n \<Longrightarrow> fs_cnt_read fs1 dir buf 0 ?m = Some (0, mwrite buf 0 (dir_bytes es), fs1)"
    "\<And>ys. length ys = unat ?n \<Longrightarrow> \<exists>s2. fs_cnt_write fs1 dir ys 0 ?n = Some (0, ys, s2) \<and>
       stores s2 (F(dir \<mapsto> (meta, ys))) \<and> fs_room s2 (sid_dev dir) k"
    by (rule containers.rewrite [OF fs0(2) d(3) _ n(2) _ room]) (use n len assms(5) in auto)
  let ?buf0 = "dir_bytes es @ replicate (9 + length name) 0"
  have read: "fs_cnt_read fs1 dir (replicate (unat ?n) 0) 0 ?m = Some (0, ?buf0, fs1)"
  proof -
    have "mwrite (replicate (unat ?n) 0) 0 (dir_bytes es) = ?buf0"
      unfolding n(1) by (simp add: mwrite_def len(1) del: replicate_append_same)
    then show ?thesis
      using fs1(2) [of "replicate (unat ?n) 0"] by simp
  qed
  have get0: "get32 ?buf0 0 = word_of_nat ?c"
    using get32_at [of "[]" 0 "word_of_nat ?c"] by (simp add: dir_bytes_def)
  let ?cw = "word_of_nat ?c :: u32"
  have lo: "unat (4 + ?cw * (4 + 4)) = 4 + 8 * ?c"
  proof -
    have "4 + ?cw * (4 + 4) = word_of_nat (4 + 8 * ?c)"
      by (simp add: mult.commute)
    moreover have "unat (word_of_nat (4 + 8 * ?c) :: u32) = 4 + 8 * ?c"
      by (rule unat_word_of_nat) (use bounds(1) len in simp)
    ultimately show ?thesis
      by (simp only:)
  qed
  have off: "?m - 4 - ?cw * (4 + 4) = word_of_nat ?N"
    unfolding len(2) by (simp add: algebra_simps)
  have pos: "unat (4 + (?cw + 1) * 4 + (?cw + 1) * 4 + word_of_nat ?N) = 4 + 8 * Suc ?c + ?N"
  proof -
    have "4 + (?cw + 1) * 4 + (?cw + 1) * 4 + word_of_nat ?N = word_of_nat (4 + 8 * Suc ?c + ?N)"
      by (simp add: algebra_simps)
    moreover have "unat (word_of_nat (4 + 8 * Suc ?c + ?N) :: u32) = 4 + 8 * Suc ?c + ?N"
      by (rule unat_word_of_nat) (use bounds(1) len in simp)
    ultimately show ?thesis
      by (simp only:)
  qed
  have cpos: "?cw > 0 \<longleftrightarrow> 0 < ?c"
    by (simp add: word_less_nat_alt unat_word_of_nat) (use bounds(2) in \<open>simp add: unat_word_of_nat\<close>)
  have m4: "\<not> ?m < 4"
    using n(2) len(2) by (simp add: word_less_nat_alt)
  note add = dir_add_bytes(1) [where es = es and name = name and sid = sid]
    dir_add_bytes(2) [where es = es and name = name] dir_add_bytes(3) [where es = es and name = name and sid = sid]
  from fs1(3) [of ?new] n(1) obtain fs2 where
    fs2: "fs_cnt_write fs1 dir ?new 0 ?n = Some (0, ?new, fs2)" "stores fs2 (F(dir \<mapsto> (meta, ?new)))"
      "fs_room fs2 (sid_dev dir) k"
    by auto
  have cw: "word_of_nat (Suc ?c) = ?cw + 1"
    by simp
  note add = add [unfolded len(2) [symmetric] cw]
  have lens: "(4 + 8 * ?c + 8 > length ?buf0) = False" "(4 + 8 * Suc ?c + ?N + length name + 1 > length ?buf0) = False"
    using len by simp_all
  have nulls: "(sid = 0) = False" "(?m = UINT32_MAX) = False" "(?m < 4) = False" "((0 :: int) \<noteq> 0) = False"
    using assms(3) size_not_max [OF size(2)] m4 by simp_all
  have "kfu_add_element_to_dir fs dir sid name = Some (0, fs2)"
    unfolding kfu_add_element_to_dir_def
    by (simp only: fs0(1) size(1) fs1(1) read fs2(1) SID_NULL_def nulls if_False if_True Option.bind.simps
        prod.case Let_def not_True_eq_False new_size get0 lo off pos cpos n(2) add lens)
  moreover have "is_directory (F(dir \<mapsto> (meta, ?new))) dir (es @ [(sid, name)])"
    using d assms(4) by (auto simp: is_directory_def ent_ok_def)
  ultimately show ?thesis
    using fs2(2,3) d(3) by (intro exI [of _ fs2] exI [of _ "F(dir \<mapsto> (meta, ?new))"]) simp
qed

end
