(* ===== verification/Paths.thy ===== *)
theory Paths
  imports Directory
begin

text \<open>
  Paths and the files they name (\<open>usg_ptsid.c\<close>, \<open>usg_file.c\<close>, \<open>usg_afft.c\<close>, \<open>kfu_dir_create\<close>,
  \<open>kfu_sep_path\<close>, \<open>filesys_init\<close>).  \<open>resolve\<close> is what a path means in the tree of directories;
  \<open>kfu_path_to_sid\<close> computes it from the bytes on the disks.
\<close>

section \<open>Path resolution\<close>

text \<open>
  The loop over the entries of one directory: \<open>Inl r\<close> is the result, \<open>Inr sid\<close> the directory
  to go on in with the rest of the path.
\<close>

fun path_scan :: "filesys \<Rightarrow> byte list \<Rightarrow> byte list \<Rightarrow> entry list \<Rightarrow> ((u32 + u32) \<times> filesys) option" where
  "path_scan fs path name [] = Some (Inl SID_NULL, fs)"
| "path_scan fs path name ((sid, nm) # es) =
     (if path = nm then Some (Inl sid, fs)
      else if name = nm then do {
        (d, fs) \<leftarrow> kfu_is_dir fs sid;
        if \<not> d then path_scan fs path name es
        else do {
          (count, _, fs) \<leftarrow> kfu_get_dir_content fs sid False;
          if count > 0 then Some (Inr sid, fs) else path_scan fs path name es
        }
      }
      else path_scan fs path name es)"

definition path_head :: "byte list \<Rightarrow> byte list" where
  "path_head path = takeWhile (\<lambda>c. c \<noteq> chr_slash) path"

definition path_rest :: "byte list \<Rightarrow> byte list" where
  "path_rest path = dropWhile (\<lambda>c. c = chr_slash) (dropWhile (\<lambda>c. c \<noteq> chr_slash) path)"

partial_function (option) kfu_rec_path_to_sid :: "filesys \<Rightarrow> u32 \<Rightarrow> byte list \<Rightarrow> (u32 \<times> filesys) option" where
  "kfu_rec_path_to_sid fs parent path = do {
     sz \<leftarrow> fs_cnt_get_size fs parent;
     if sz = UINT32_MAX then Some (SID_NULL, fs)
     else do {
       let name = path_head path;
       (count, es, fs) \<leftarrow> kfu_get_dir_content fs parent True;
       if count < 1 then Some (SID_NULL, fs)
       else do {
         (found, fs) \<leftarrow> path_scan fs path name es;
         case found of Inl r \<Rightarrow> Some (r, fs)
         | Inr sid \<Rightarrow> kfu_rec_path_to_sid fs sid (path_rest path)
       }
     }
   }"

definition kfu_path_to_sid :: "filesys \<Rightarrow> u32 \<Rightarrow> byte list \<Rightarrow> (u32 \<times> filesys) option" where
  "kfu_path_to_sid fs from path =
     (if path = [chr_slash] then Some (SID_ROOT, fs)
      else if path \<noteq> [] \<and> hd path = chr_slash then kfu_rec_path_to_sid fs from (tl path)
      else kfu_rec_path_to_sid fs from path)"

text \<open>
  \<open>kfu_sep_path\<close>: the parent and the last component.  The buffers are zeroed, so a parent that is
  not written is the empty string.
\<close>

definition kfu_sep_path :: "byte list \<Rightarrow> byte list \<times> byte list" where
  "kfu_sep_path fullpath =
     (let path = rev (dropWhile (\<lambda>c. c = chr_slash) (rev fullpath));
          tail = rev (takeWhile (\<lambda>c. c \<noteq> chr_slash) (rev path));
          i = int (length path) - int (length tail) - 1;
          parent = (if i < 0 then [] else if i = 0 then [chr_slash] else take (nat i) fullpath)
      in (parent, drop (nat (i + 1)) fullpath))"

section \<open>Creation\<close>

definition kfu_dir_create :: "filesys \<Rightarrow> byte \<Rightarrow> byte list option \<Rightarrow> byte list \<Rightarrow> (u32 \<times> filesys) option" where
  "kfu_dir_create fs device_id parent name = do {
     (ok, parent_sid, fs) \<leftarrow> (case parent of
         Some p \<Rightarrow> do {
           (parent_sid, fs) \<leftarrow> kfu_path_to_sid fs SID_ROOT p;
           (d, fs) \<leftarrow> kfu_is_dir fs parent_sid;
           Some (d, parent_sid, fs)
         }
       | None \<Rightarrow> Some (True, SID_ROOT, fs));
     if \<not> ok then Some (SID_NULL, fs)
     else do {
       let meta = [chr_D, chr_dash] @ take (META_MAXLEN - 3) name;
       (head_sid, fs) \<leftarrow> fs_cnt_init fs (if device_id > 0 then device_id else sid_dev parent_sid) meta;
       if head_sid = SID_NULL then Some (SID_NULL, fs)
       else do {
         (r, fs) \<leftarrow> (if parent \<noteq> None then kfu_add_element_to_dir fs parent_sid head_sid name else Some (0, fs));
         if r \<noteq> 0 then Some (SID_NULL, fs)
         else do {
           (_, fs) \<leftarrow> fs_cnt_set_size fs head_sid 4;
           (_, _, fs) \<leftarrow> fs_cnt_write fs head_sid [0, 0, 0, 0] 0 4;
           (r, fs) \<leftarrow> kfu_add_element_to_dir fs head_sid parent_sid [chr_dot, chr_dot];
           if r \<noteq> 0 then Some (SID_NULL, fs)
           else do {
             (r, fs) \<leftarrow> kfu_add_element_to_dir fs head_sid head_sid [chr_dot];
             Some (if r \<noteq> 0 then SID_NULL else head_sid, fs)
           }
         }
       }
     }
   }"

definition kfu_file_create :: "filesys \<Rightarrow> byte list \<Rightarrow> byte list \<Rightarrow> (u32 \<times> filesys) option" where
  "kfu_file_create fs parent name = do {
     (parent_sid, fs) \<leftarrow> kfu_path_to_sid fs SID_ROOT parent;
     (d, fs) \<leftarrow> kfu_is_dir fs parent_sid;
     if \<not> d then Some (SID_NULL, fs)
     else do {
       let meta = [chr_F, chr_dash] @ take (META_MAXLEN - 3) name;
       (head_sid, fs) \<leftarrow> fs_cnt_init fs (sid_dev parent_sid) meta;
       if head_sid = SID_NULL then Some (SID_NULL, fs)
       else do {
         (r, fs) \<leftarrow> kfu_add_element_to_dir fs parent_sid head_sid name;
         Some (if r \<noteq> 0 then SID_NULL else head_sid, fs)
       }
     }
   }"

definition kfu_afft_get_id :: "filesys \<Rightarrow> u32 \<Rightarrow> (int \<times> filesys) option" where
  "kfu_afft_get_id fs sid = do {
     (a, fs) \<leftarrow> kfu_is_afft fs sid;
     if \<not> a then Some (-1, fs)
     else do {
       sz \<leftarrow> fs_cnt_get_size fs sid;
       if sz \<noteq> 4 then Some (-1, fs)
       else do {
         (r, buf, fs) \<leftarrow> fs_cnt_read fs sid (replicate 4 0) 0 4;
         Some (if r \<noteq> 0 then -1 else sint (get32 buf 0), fs)
       }
     }
   }"

definition kfu_afft_create :: "filesys \<Rightarrow> byte list \<Rightarrow> byte list \<Rightarrow> u32 \<Rightarrow> (u32 \<times> filesys) option" where
  "kfu_afft_create fs parent name afft_id = do {
     (parent_sid, fs) \<leftarrow> kfu_path_to_sid fs SID_ROOT parent;
     (d, fs) \<leftarrow> kfu_is_dir fs parent_sid;
     if \<not> d then Some (SID_NULL, fs)
     else do {
       let meta = [chr_A, chr_dash] @ take (META_MAXLEN - 3) name;
       (head_sid, fs) \<leftarrow> fs_cnt_init fs (sid_dev parent_sid) meta;
       (r, fs) \<leftarrow> (if head_sid = SID_NULL then Some (1, fs)
                 else kfu_add_element_to_dir fs parent_sid head_sid name);
       if r \<noteq> 0 then Some (SID_NULL, fs)
       else do {
         (r, fs) \<leftarrow> fs_cnt_set_size fs head_sid 4;
         if r \<noteq> 0 then Some (SID_NULL, fs)
         else do {
           (r, _, fs) \<leftarrow> fs_cnt_write fs head_sid (le32 afft_id) 0 4;
           Some (if r \<noteq> 0 then SID_NULL else head_sid, fs)
         }
       }
     }
   }"

section \<open>What a path means\<close>

text \<open>The tree: the entries of each directory.\<close>

type_synonym tree = "u32 \<Rightarrow> entry list option"

definition name_ok :: "byte list \<Rightarrow> bool" where
  "name_ok nm \<longleftrightarrow> nm \<noteq> [] \<and> 0 \<notin> set nm \<and> chr_slash \<notin> set nm"

text \<open>
  \<open>tree_of F G\<close>: the tree \<open>G\<close> is what the store \<open>F\<close> holds, every entry names a container of the
  store and no directory but the listed ones has a meta string of a directory.
\<close>

definition tree_of :: "store \<Rightarrow> tree \<Rightarrow> bool" where
  "tree_of F G \<longleftrightarrow>
     (\<forall>d es. G d = Some es \<longrightarrow> is_directory F d es \<and>
        (\<forall>(s, nm)\<in>set es. name_ok nm \<and> s \<noteq> 0 \<and> F s \<noteq> None)) \<and>
     (\<forall>s meta xs. F s = Some (meta, xs) \<longrightarrow> G s = None \<longrightarrow> meta ! 0 \<noteq> chr_D)"

fun path_of :: "byte list list \<Rightarrow> byte list" where
  "path_of [] = []"
| "path_of [c] = c"
| "path_of (c # cs) = c @ chr_slash # path_of cs"

definition abs_path :: "byte list list \<Rightarrow> byte list" where
  "abs_path cs = chr_slash # path_of cs"

definition open_dir :: "tree \<Rightarrow> u32 \<Rightarrow> bool" where
  "open_dir G s \<longleftrightarrow> (case G s of None \<Rightarrow> False | Some es \<Rightarrow> es \<noteq> [])"

fun resolve :: "tree \<Rightarrow> u32 \<Rightarrow> byte list list \<Rightarrow> u32" where
  "resolve G d [] = SID_NULL"
| "resolve G d [c] = (case G d of None \<Rightarrow> SID_NULL
     | Some es \<Rightarrow> case find (\<lambda>(s, nm). nm = c) es of None \<Rightarrow> SID_NULL | Some (s, _) \<Rightarrow> s)"
| "resolve G d (c # cs) = (case G d of None \<Rightarrow> SID_NULL
     | Some es \<Rightarrow> case find (\<lambda>(s, nm). nm = c \<and> open_dir G s) es of None \<Rightarrow> SID_NULL
       | Some (s, _) \<Rightarrow> resolve G s cs)"

definition locate :: "tree \<Rightarrow> byte list list \<Rightarrow> u32" where
  "locate G cs = (if cs = [] then SID_ROOT else resolve G SID_ROOT cs)"

lemma tree_ofD:
  assumes "tree_of F G" and "G d = Some es"
  shows "is_directory F d es" and "(s, nm) \<in> set es \<Longrightarrow> name_ok nm \<and> s \<noteq> 0 \<and> F s \<noteq> None"
  using assms unfolding tree_of_def by blast+

lemma tree_of_not: "tree_of F G \<Longrightarrow> F s = Some (meta, xs) \<Longrightarrow> meta ! 0 = chr_D \<longleftrightarrow> G s \<noteq> None"
  unfolding tree_of_def is_directory_def by fastforce

lemma scan_single:
  "path_scan fs c c es =
    Some (Inl (case find (\<lambda>(s, nm). nm = c) es of None \<Rightarrow> SID_NULL | Some (s, _) \<Rightarrow> s), fs)"
  by (induction es) (auto split: if_splits)

lemma scan_dir:
  assumes "tree_of F G" and "stores fs F" and "\<forall>(s, nm)\<in>set es. nm \<noteq> path \<and> s \<noteq> 0 \<and> F s \<noteq> None"
  shows "\<exists>fs'. path_scan fs path name es =
      Some (case find (\<lambda>(s, nm). nm = name \<and> open_dir G s) es of None \<Rightarrow> Inl SID_NULL | Some (s, _) \<Rightarrow> Inr s, fs') \<and>
    stores fs' F \<and> (\<forall>dev k. fs_room fs dev k \<longrightarrow> fs_room fs' dev k)"
  using assms(2,3)
proof (induction es arbitrary: fs)
  case Nil
  then show ?case by auto
next
  case (Cons e es)
  obtain s nm where e: "e = (s, nm)" by (cases e)
  with Cons.prems(2) obtain meta xs where s: "s \<noteq> 0" "F s = Some (meta, xs)" "nm \<noteq> path"
    by auto
  show ?case
  proof (cases "nm = name")
    case False
    then show ?thesis
      using Cons s(3) e by auto
  next
    case True
    from is_dir_store [OF Cons.prems(1) s(2,1)] obtain fs1 where
      fs1: "kfu_is_dir fs s = Some (meta ! 0 = chr_D, fs1)" "stores fs1 F"
        "\<forall>dev k. fs_room fs dev k \<longrightarrow> fs_room fs1 dev k"
      by blast
    show ?thesis
    proof (cases "G s")
      case None
      then have "meta ! 0 \<noteq> chr_D" "\<not> open_dir G s"
        using tree_of_not [OF assms(1) s(2)] by (auto simp: open_dir_def)
      then show ?thesis
        using Cons.IH [OF fs1(2)] Cons.prems(2) fs1 s(3) True e by fastforce
    next
      case (Some es')
      then have d: "meta ! 0 = chr_D" "is_directory F s es'"
        using tree_of_not [OF assms(1) s(2)] tree_ofD(1) [OF assms(1) Some] by auto
      from get_dir_content_store [OF fs1(2) d(2), of False] obtain fs2 where
        fs2: "kfu_get_dir_content fs1 s False = Some (int (length es'), [], fs2)" "stores fs2 F"
          "\<forall>dev k. fs_room fs1 dev k \<longrightarrow> fs_room fs2 dev k"
        by auto
      show ?thesis
      proof (cases "es' = []")
        case True
        then show ?thesis
          using Cons.IH [OF fs2(2)] Cons.prems(2) fs1 fs2 d(1) s(3) \<open>nm = name\<close> e Some
          by (fastforce simp: open_dir_def)
      next
        case False
        then show ?thesis
          using fs1 fs2 d(1) s(3) True e Some by (auto simp: open_dir_def)
      qed
    qed
  qed
qed

text \<open>
  The parts of a path: what stands between its slashes, where slashes that follow each other count as
  one; a slash at its start or its end leaves an empty part there, which names nothing.
\<close>

fun segments :: "byte list \<Rightarrow> byte list list" where
  "segments [] = [[]]"
| "segments (c # cs) = (if c = chr_slash then [] # segments cs else (c # hd (segments cs)) # tl (segments cs))"

definition inner :: "byte list list \<Rightarrow> byte list list" where
  "inner xs = filter (\<lambda>x. x \<noteq> []) (butlast xs) @ [last xs]"

definition path_parts :: "byte list \<Rightarrow> byte list list" where
  "path_parts path = (case segments path of [] \<Rightarrow> [] | [x] \<Rightarrow> [x] | x # xs \<Rightarrow> x # inner xs)"

lemma segments_ne [simp]: "segments path \<noteq> []"
  by (cases path) simp_all

lemma segments_no_slash: "chr_slash \<notin> set path \<Longrightarrow> segments path = [path]"
  by (induction path) auto

lemma segments_slash: "chr_slash \<notin> set h \<Longrightarrow> segments (h @ chr_slash # t) = h # segments t"
  by (induction h) auto

text \<open>Slashes in front are left out of all parts but the first.\<close>

lemma inner_slashes: "inner (segments path) = path_parts (dropWhile (\<lambda>c. c = chr_slash) path)"
proof (induction path)
  case Nil
  then show ?case
    by (simp add: inner_def path_parts_def)
next
  case (Cons c cs)
  show ?case
  proof (cases "c = chr_slash")
    case True
    then show ?thesis
      using Cons.IH by (simp add: inner_def)
  next
    case False
    then show ?thesis
      by (simp add: path_parts_def inner_def split: list.split)
  qed
qed

lemma path_split:
  assumes "chr_slash \<in> set path"
  obtains t where "path = path_head path @ chr_slash # t" "path_rest path = dropWhile (\<lambda>c. c = chr_slash) t"
proof -
  obtain t where t: "dropWhile (\<lambda>c. c \<noteq> chr_slash) path = chr_slash # t"
    using assms hd_dropWhile [of "\<lambda>c. c \<noteq> chr_slash" path]
    by (cases "dropWhile (\<lambda>c. c \<noteq> chr_slash) path") (auto simp: dropWhile_eq_Nil_conv)
  show thesis
    using that [of t] takeWhile_dropWhile_id [of "\<lambda>c. c \<noteq> chr_slash" path] t by (simp add: path_head_def path_rest_def)
qed

lemma path_rest_shorter: "chr_slash \<in> set path \<Longrightarrow> length (path_rest path) < length path"
proof -
  assume "chr_slash \<in> set path"
  then obtain t where t: "path = path_head path @ chr_slash # t" "path_rest path = dropWhile (\<lambda>c. c = chr_slash) t"
    by (rule path_split)
  then have "length (path_rest path) \<le> length t"
    by (simp add: length_dropWhile_le)
  also have "\<dots> < length path"
    using arg_cong [OF t(1), of length] by simp
  finally show ?thesis .
qed

lemma path_parts_ne [simp]: "path_parts path \<noteq> []"
  by (simp add: path_parts_def split: list.split)

lemma path_parts_no_slash: "chr_slash \<notin> set path \<Longrightarrow> path_parts path = [path]"
  by (simp add: path_parts_def segments_no_slash)

text \<open>The recursion of the code cuts the parts off one by one.\<close>

lemma path_parts_slash:
  assumes "chr_slash \<in> set path"
  shows "path_parts path = path_head path # path_parts (path_rest path)"
proof -
  obtain t where t: "path = path_head path @ chr_slash # t" "path_rest path = dropWhile (\<lambda>c. c = chr_slash) t"
    using assms by (rule path_split)
  have "chr_slash \<notin> set (path_head path)"
    by (auto simp: path_head_def dest: set_takeWhileD)
  then have "segments path = path_head path # segments t"
    using t(1) segments_slash by metis
  then show ?thesis
    unfolding t(2) inner_slashes [symmetric] by (simp add: path_parts_def split: list.split)
qed

lemma path_head_all: "chr_slash \<notin> set path \<Longrightarrow> path_head path = path"
  by (auto simp: path_head_def takeWhile_eq_all_conv)

lemma head_rest_cons:
  assumes "name_ok c" and "name_ok c'"
  shows "path_head (path_of (c # c' # cs)) = c" and "path_rest (path_of (c # c' # cs)) = path_of (c' # cs)"
proof -
  have nc: "\<And>x. x \<in> set c \<Longrightarrow> x \<noteq> chr_slash"
    using assms(1) by (auto simp: name_ok_def)
  show "path_head (path_of (c # c' # cs)) = c"
    using nc by (simp add: path_head_def takeWhile_append2)
  obtain x xs where x: "path_of (c' # cs) = x # xs" "x \<noteq> chr_slash"
    using assms(2) by (cases cs; cases c') (auto simp: name_ok_def)
  then show "path_rest (path_of (c # c' # cs)) = path_of (c' # cs)"
    using nc by (simp add: path_rest_def dropWhile_append2)
qed

lemma path_parts_path_of: "\<forall>c\<in>set cs. name_ok c \<Longrightarrow> cs \<noteq> [] \<Longrightarrow> path_parts (path_of cs) = cs"
proof (induction cs rule: path_of.induct)
  case (2 c)
  then show ?case
    by (simp add: path_parts_no_slash name_ok_def)
next
  case (3 c c' cs)
  then show ?case
    using head_rest_cons [of c c' cs] by (subst path_parts_slash) simp_all
qed simp

lemma resolve_parts:
  "resolve G d (c # path_parts path) = (case G d of None \<Rightarrow> SID_NULL
     | Some es \<Rightarrow> case find (\<lambda>(s, nm). nm = c \<and> open_dir G s) es of None \<Rightarrow> SID_NULL | Some (s, _) \<Rightarrow> resolve G s (path_parts path))"
  by (cases "path_parts path") (simp_all split: option.splits)

lemma rec_path_parts:
  assumes "tree_of F G" and "stores fs F" and "G d \<noteq> None"
  shows "\<exists>fs'. kfu_rec_path_to_sid fs d path = Some (resolve G d (path_parts path), fs') \<and> stores fs' F \<and>
    (\<forall>dev k. fs_room fs dev k \<longrightarrow> fs_room fs' dev k)"
  using assms(2,3)
proof (induction "length path" arbitrary: path fs d rule: less_induct)
  case less
  from less.prems(2) obtain es where es: "G d = Some es"
    by blast
  then have dir: "is_directory F d es" and ents: "\<And>s nm. (s, nm) \<in> set es \<Longrightarrow> name_ok nm \<and> s \<noteq> 0 \<and> F s \<noteq> None"
    using tree_ofD [OF assms(1)] by blast+
  then obtain meta where d: "F d = Some (meta, dir_bytes es)"
    by (auto simp: is_directory_def)
  note size = store_get_size [OF less.prems(1) d]
  from get_dir_content_store [OF less.prems(1) dir, of True] obtain fs1 where
    fs1: "kfu_get_dir_content fs d True = Some (int (length es), es, fs1)" "stores fs1 F"
      "\<forall>dev k. fs_room fs dev k \<longrightarrow> fs_room fs1 dev k"
    by auto
  have unfold: "kfu_rec_path_to_sid fs d path =
    (if es = [] then Some (SID_NULL, fs1)
     else do {
       (found, fs) \<leftarrow> path_scan fs1 path (path_head path) es;
       case found of Inl r \<Rightarrow> Some (r, fs) | Inr sid \<Rightarrow> kfu_rec_path_to_sid fs sid (path_rest path)
     })"
    using size(1) size_not_max [OF size(2)] fs1(1)
    by (subst kfu_rec_path_to_sid.simps) (auto simp: Suc_le_eq)
  show ?case
  proof (cases "chr_slash \<in> set path")
    case False
    then show ?thesis
      using unfold fs1(2,3) es scan_single [of fs1 path es] path_head_all [OF False] path_parts_no_slash [OF False]
      by (auto split: option.splits)
  next
    case True
    then have "\<forall>(s, nm)\<in>set es. nm \<noteq> path \<and> s \<noteq> 0 \<and> F s \<noteq> None"
      using ents by (auto simp: name_ok_def)
    from scan_dir [OF assms(1) fs1(2) this, of "path_head path"] obtain fs2 where
      fs2: "path_scan fs1 path (path_head path) es = Some (case find (\<lambda>(s, nm). nm = path_head path \<and> open_dir G s) es of
          None \<Rightarrow> Inl SID_NULL | Some (s, _) \<Rightarrow> Inr s, fs2)" "stores fs2 F"
        "\<forall>dev k. fs_room fs1 dev k \<longrightarrow> fs_room fs2 dev k"
      by blast
    show ?thesis
    proof (cases "find (\<lambda>(s, nm). nm = path_head path \<and> open_dir G s) es")
      case None
      then show ?thesis
        using unfold fs1 fs2 es path_parts_slash [OF True] by (auto simp: SID_NULL_def resolve_parts)
    next
      case (Some e)
      obtain s nm where e: "e = (s, nm)" by (cases e)
      have "open_dir G s"
        using Some e by (auto simp: find_Some_iff)
      then have "G s \<noteq> None"
        by (auto simp: open_dir_def split: option.splits)
      from less.hyps [OF path_rest_shorter [OF True] fs2(2) this] obtain fs3 where
        fs3: "kfu_rec_path_to_sid fs2 s (path_rest path) = Some (resolve G s (path_parts (path_rest path)), fs3)" "stores fs3 F"
          "\<forall>dev k. fs_room fs2 dev k \<longrightarrow> fs_room fs3 dev k"
        by auto
      moreover have "es \<noteq> []"
        using Some by auto
      ultimately show ?thesis
        using unfold fs1(3) fs2 es path_parts_slash [OF True] Some e by (auto simp: resolve_parts)
    qed
  qed
qed

text \<open>What \<open>kfu_path_to_sid\<close> makes of a path: one slash at its start is left out.\<close>

definition path_means :: "tree \<Rightarrow> u32 \<Rightarrow> byte list \<Rightarrow> u32" where
  "path_means G from path =
     (if path = [chr_slash] then SID_ROOT
      else resolve G from (path_parts (if path \<noteq> [] \<and> hd path = chr_slash then tl path else path)))"

lemma path_to_sid_means:
  assumes "tree_of F G" and "stores fs F" and "G from \<noteq> None"
  shows "\<exists>fs'. kfu_path_to_sid fs from path = Some (path_means G from path, fs') \<and> stores fs' F \<and>
    (\<forall>dev k. fs_room fs dev k \<longrightarrow> fs_room fs' dev k)"
  using assms(2) rec_path_parts [OF assms] by (simp add: kfu_path_to_sid_def path_means_def)

lemma name_ok_hd: "name_ok c \<Longrightarrow> c \<noteq> [] \<and> hd c \<noteq> chr_slash"
  unfolding name_ok_def by (metis hd_in_set)

lemma path_of_ne: "cs \<noteq> [] \<Longrightarrow> \<forall>c\<in>set cs. name_ok c \<Longrightarrow> path_of cs \<noteq> [] \<and> hd (path_of cs) \<noteq> chr_slash"
  by (cases cs rule: path_of.cases) (auto simp: hd_append dest: name_ok_hd)

lemma path_means_locate:
  assumes "\<forall>c\<in>set cs. name_ok c"
  shows "path_means G SID_ROOT (abs_path cs) = locate G cs"
proof (cases "cs = []")
  case False
  then show ?thesis
    using path_parts_path_of [OF assms False] path_of_ne [OF False assms] by (simp add: path_means_def abs_path_def locate_def)
qed (simp add: path_means_def abs_path_def locate_def)

lemma path_to_sid_locate:
  assumes "tree_of F G" and "stores fs F" and "G SID_ROOT \<noteq> None" and "\<forall>c\<in>set cs. name_ok c"
  shows "\<exists>fs'. kfu_path_to_sid fs SID_ROOT (abs_path cs) = Some (locate G cs, fs') \<and> stores fs' F \<and>
    (\<forall>dev k. fs_room fs dev k \<longrightarrow> fs_room fs' dev k)"
  using path_to_sid_means [OF assms(1-3), of "abs_path cs"] unfolding path_means_locate [OF assms(4)] .

section \<open>Creating files and directories\<close>

lemma meta_str_hd: "meta_str (x # xs) ! 0 = x"
  by (simp add: meta_str_def)

lemma tree_of_update:
  assumes "tree_of F G" and "F sid = None" and "sid \<noteq> 0" and "G p = Some es"
    and "\<And>s. s \<noteq> sid \<Longrightarrow> s \<noteq> p \<Longrightarrow> F' s = F s" and "is_directory F' p (es @ [(sid, name)])" and "name_ok name"
    and "case sub of None \<Rightarrow> (\<exists>meta xs. F' sid = Some (meta, xs) \<and> meta ! 0 \<noteq> chr_D)
         | Some es' \<Rightarrow> is_directory F' sid es' \<and> (\<forall>(s, nm)\<in>set es'. name_ok nm \<and> s \<noteq> 0 \<and> F' s \<noteq> None)"
  shows "tree_of F' (G(p \<mapsto> es @ [(sid, name)], sid := sub))"
proof -
  have psid: "p \<noteq> sid" "G sid = None"
    using assms(1,2,4) unfolding tree_of_def is_directory_def by fastforce+
  have Fp: "F' p \<noteq> None" "F' sid \<noteq> None"
    using assms(6,8) by (auto simp: is_directory_def split: option.splits)
  then have mono: "F' s \<noteq> None" if "F s \<noteq> None" for s
    using assms(2,5) that by metis
  have "is_directory F' d e \<and> (\<forall>(s, nm)\<in>set e. name_ok nm \<and> s \<noteq> 0 \<and> F' s \<noteq> None)"
    if g: "(G(p \<mapsto> es @ [(sid, name)], sid := sub)) d = Some e" for d e
  proof -
    consider "d = sid" | "d = p" | "d \<noteq> sid" "d \<noteq> p"
      by blast
    then show ?thesis
    proof cases
      case 1
      then show ?thesis
        using g assms(8) by simp
    next
      case 2
      then have "e = es @ [(sid, name)]"
        using g psid by simp
      then show ?thesis
        using 2 assms(3,6,7) tree_ofD(2) [OF assms(1,4)] mono Fp by auto
    next
      case 3
      then have G: "G d = Some e"
        using g by simp
      have "is_directory F' d e"
        using tree_ofD(1) [OF assms(1) G] assms(5) [OF 3] by (simp add: is_directory_def)
      then show ?thesis
        using tree_ofD(2) [OF assms(1) G] mono by auto
    qed
  qed
  moreover have "meta ! 0 \<noteq> chr_D"
    if "F' s = Some (meta, xs)" "(G(p \<mapsto> es @ [(sid, name)], sid := sub)) s = None" for s meta xs
  proof (cases "s = sid")
    case True
    then show ?thesis
      using that assms(8) by (auto split: option.splits)
  next
    case False
    then have "s \<noteq> p" "G s = None"
      using that by (auto split: if_splits)
    then show ?thesis
      using that(1) False assms(1,5) unfolding tree_of_def by fastforce
  qed
  ultimately show ?thesis
    unfolding tree_of_def by blast
qed

abbreviation grown :: "entry list \<Rightarrow> byte list \<Rightarrow> nat" where
  "grown es name \<equiv> length (dir_bytes es) + 9 + length name"

lemma length_dir_bytes_add: "length (dir_bytes (es @ [(sid, name)])) = grown es name"
  by (simp add: length_dir_bytes)

lemma create_entry:
  assumes "stores fs F" and "is_directory F p es" and "0 \<notin> set name" and "grown es name \<le> cnt_max"
    and "fs_room fs (sid_dev p) (2 * new_cores (grown es name) + k + 2)" and "sid_dev p \<noteq> 0"
  shows "\<exists>sid fs1 fs2 F'. fs_cnt_init fs (sid_dev p) meta = Some (sid, fs1) \<and> sid \<noteq> 0 \<and> F sid = None \<and>
    sid_dev sid = sid_dev p \<and> kfu_add_element_to_dir fs1 p sid name = Some (0, fs2) \<and> stores fs2 F' \<and>
    F' sid = Some (meta_str meta, []) \<and> (\<forall>s. s \<noteq> sid \<longrightarrow> s \<noteq> p \<longrightarrow> F' s = F s) \<and>
    is_directory F' p (es @ [(sid, name)]) \<and> fs_room fs2 (sid_dev p) k"
proof -
  have "fs_room fs (sid_dev p) (Suc (Suc (2 * new_cores (grown es name) + k)))"
    using assms(5) by simp
  from store_init [OF assms(1) this assms(6), of meta] obtain sid fs1 where
    i: "fs_cnt_init fs (sid_dev p) meta = Some (sid, fs1)" "sid \<noteq> 0" "sid_dev sid = sid_dev p" "F sid = None"
      "stores fs1 (F(sid \<mapsto> (meta_str meta, [])))" "fs_room fs1 (sid_dev p) (2 * new_cores (grown es name) + k)"
    by blast
  have psid: "p \<noteq> sid"
    using assms(2) i(4) by (auto simp: is_directory_def)
  then have "is_directory (F(sid \<mapsto> (meta_str meta, []))) p es"
    using assms(2) by (simp add: is_directory_def)
  from add_element_store [OF i(5) this i(2) assms(3), unfolded length_dir_bytes_add, OF assms(4) i(6)]
  obtain fs2 F' where a: "kfu_add_element_to_dir fs1 p sid name = Some (0, fs2)" "stores fs2 F'"
    "is_directory F' p (es @ [(sid, name)])" "F' = (F(sid \<mapsto> (meta_str meta, [])))(p := F' p)"
    "fs_room fs2 (sid_dev p) k"
    by blast
  have "F' s = F s" if "s \<noteq> sid" "s \<noteq> p" for s
    by (subst a(4)) (use that in simp)
  moreover have "F' sid = Some (meta_str meta, [])"
    by (subst a(4)) (use psid in simp)
  ultimately show ?thesis
    using i a by blast
qed

lemma file_create_ok:
  assumes "tree_of F G" and "stores fs F" and "G SID_ROOT \<noteq> None" and "\<forall>c\<in>set cs. name_ok c"
    and "G (locate G cs) = Some es" and "name_ok name" and "grown es name \<le> cnt_max"
    and "fs_room fs (sid_dev (locate G cs)) (2 * new_cores (grown es name) + k + 2)"
    and "sid_dev (locate G cs) \<noteq> 0"
  shows "\<exists>sid fs' F'. kfu_file_create fs (abs_path cs) name = Some (sid, fs') \<and> F sid = None \<and> sid \<noteq> 0 \<and>
    sid_dev sid = sid_dev (locate G cs) \<and> stores fs' F' \<and>
    F' sid = Some (meta_str ([chr_F, chr_dash] @ take 61 name), []) \<and>
    (\<forall>s. s \<noteq> sid \<longrightarrow> s \<noteq> locate G cs \<longrightarrow> F' s = F s) \<and>
    tree_of F' (G(locate G cs \<mapsto> es @ [(sid, name)])) \<and> fs_room fs' (sid_dev (locate G cs)) k"
proof -
  let ?p = "locate G cs" and ?meta = "[chr_F, chr_dash] @ take 61 name"
  from path_to_sid_locate [OF assms(1-4)] obtain fs1 where
    fs1: "kfu_path_to_sid fs SID_ROOT (abs_path cs) = Some (?p, fs1)" "stores fs1 F"
      "\<forall>dev k. fs_room fs dev k \<longrightarrow> fs_room fs1 dev k"
    by blast
  have dir: "is_directory F ?p es"
    using tree_ofD(1) [OF assms(1,5)] .
  then obtain meta where m: "?p \<noteq> 0" "F ?p = Some (meta, dir_bytes es)" "meta ! 0 = chr_D"
    by (auto simp: is_directory_def)
  from is_dir_store [OF fs1(2) m(2,1)] m(3) obtain fs2 where
    fs2: "kfu_is_dir fs1 ?p = Some (True, fs2)" "stores fs2 F" "\<forall>dev k. fs_room fs1 dev k \<longrightarrow> fs_room fs2 dev k"
    by auto
  have room: "fs_room fs2 (sid_dev ?p) (2 * new_cores (grown es name) + k + 2)"
    using assms(8) fs1(3) fs2(3) by blast
  have z: "0 \<notin> set name"
    using assms(6) by (simp add: name_ok_def)
  from create_entry [OF fs2(2) dir z assms(7) room assms(9), of ?meta] obtain sid fs3 fs4 F' where
    c: "fs_cnt_init fs2 (sid_dev ?p) ?meta = Some (sid, fs3)" "sid \<noteq> 0" "F sid = None" "sid_dev sid = sid_dev ?p"
      "kfu_add_element_to_dir fs3 ?p sid name = Some (0, fs4)" "stores fs4 F'" "F' sid = Some (meta_str ?meta, [])"
      "\<And>s. s \<noteq> sid \<Longrightarrow> s \<noteq> ?p \<Longrightarrow> F' s = F s" "is_directory F' ?p (es @ [(sid, name)])" "fs_room fs4 (sid_dev ?p) k"
    by blast
  have "kfu_file_create fs (abs_path cs) name = Some (sid, fs4)"
    using fs1(1) fs2(1) c(1,2,5) by (simp add: kfu_file_create_def SID_NULL_def META_MAXLEN_def)
  moreover have "G sid = None"
    using c(3) assms(1) unfolding tree_of_def is_directory_def by fastforce
  then have "G(?p \<mapsto> es @ [(sid, name)]) = G(?p \<mapsto> es @ [(sid, name)], sid := None)"
    using assms(5) by (auto simp: fun_eq_iff)
  moreover have "tree_of F' (G(?p \<mapsto> es @ [(sid, name)], sid := None))"
    by (rule tree_of_update [OF assms(1) c(3,2) assms(5) c(8,9) assms(6)])
      (simp_all add: c(7) meta_str_hd chr_defs)
  ultimately show ?thesis
    using c by metis
qed

text \<open>The last steps of \<open>kfu_dir_create\<close>: the new container becomes a directory with \<open>..\<close> and \<open>.\<close>.\<close>

lemma dir_setup_ok:
  assumes "stores fs F" and "F sid = Some (meta_str (chr_D # meta), [])" and "sid \<noteq> 0" and "p \<noteq> 0"
    and "fs_room fs (sid_dev sid) (k + 6)"
  shows "\<exists>fs5 fs6 fs7 fs8 b F'. fs_cnt_set_size fs sid 4 = Some (0, fs5) \<and>
    fs_cnt_write fs5 sid [0, 0, 0, 0] 0 4 = Some (0, b, fs6) \<and>
    kfu_add_element_to_dir fs6 sid p [chr_dot, chr_dot] = Some (0, fs7) \<and>
    kfu_add_element_to_dir fs7 sid sid [chr_dot] = Some (0, fs8) \<and> stores fs8 F' \<and>
    is_directory F' sid [(p, [chr_dot, chr_dot]), (sid, [chr_dot])] \<and> (\<forall>s. s \<noteq> sid \<longrightarrow> F' s = F s) \<and>
    map_option fst (F' sid) = Some (meta_str (chr_D # meta)) \<and> fs_room fs8 (sid_dev sid) k"
proof -
  let ?meta = "chr_D # meta"
  have cores1: "new_cores n = 1" if "0 < n" "n < 511" for n
    using that by (simp add: new_cores_def)
  have "2 * new_cores (unat (4 :: u32)) + (k + 4) = k + 6"
    by (simp add: cores1)
  then have "fs_room fs (sid_dev sid) (2 * new_cores (unat (4 :: u32)) + (k + 4))"
    using assms(5) by (simp only:)
  from store_set_size [OF assms(1,2) _ this] obtain fs5 ys where
    fs5: "fs_cnt_set_size fs sid 4 = Some (0, fs5)" "length ys = 4" "stores fs5 (F(sid \<mapsto> (meta_str ?meta, ys)))"
      "fs_room fs5 (sid_dev sid) (k + 4)"
    by (auto simp: cnt_max_def)
  from store_write [OF fs5(3), of sid "meta_str ?meta" ys 0 4 "[0, 0, 0, 0]"] fs5(2) obtain fs6 where
    fs6: "fs_cnt_write fs5 sid [0, 0, 0, 0] 0 4 = Some (0, [0, 0, 0, 0], fs6)"
      "stores fs6 (F(sid \<mapsto> (meta_str ?meta, [0, 0, 0, 0])))" "fs_room fs6 (sid_dev sid) (k + 4)"
    using fs5(4) by (auto simp: mwrite_all)
  have empty: "dir_bytes [] = [0, 0, 0, 0]"
    by (simp add: dir_bytes_def le32_def)
  have d0: "is_directory (F(sid \<mapsto> (meta_str ?meta, [0, 0, 0, 0]))) sid []"
    using assms(3) by (simp add: is_directory_def ent_ok_def empty meta_str_hd)
  let ?e1 = "[(p, [chr_dot, chr_dot])]" and ?e2 = "[(p, [chr_dot, chr_dot]), (sid, [chr_dot])]"
  have l1: "length (dir_bytes ([] @ ?e1)) = 15" "length (dir_bytes (?e1 @ [(sid, [chr_dot])])) = 25"
    by (simp_all add: length_dir_bytes)
  have "2 * new_cores (length (dir_bytes ([] @ ?e1))) + (k + 2) = k + 4"
    "2 * new_cores (length (dir_bytes (?e1 @ [(sid, [chr_dot])]))) + k = k + 2"
    unfolding l1 by (simp_all add: cores1)
  note eq = this
  have r7: "fs_room fs6 (sid_dev sid) (2 * new_cores (length (dir_bytes ([] @ ?e1))) + (k + 2))"
    unfolding eq using fs6(3) .
  have "\<exists>fs7 F2. kfu_add_element_to_dir fs6 sid p [chr_dot, chr_dot] = Some (0, fs7) \<and> stores fs7 F2 \<and>
      is_directory F2 sid ([] @ ?e1) \<and> F2 = (F(sid \<mapsto> (meta_str ?meta, [0, 0, 0, 0])))(sid := F2 sid) \<and>
      map_option fst (F2 sid) = map_option fst ((F(sid \<mapsto> (meta_str ?meta, [0, 0, 0, 0]))) sid) \<and>
      fs_room fs7 (sid_dev sid) (k + 2)"
    by (rule add_element_store [OF fs6(2) d0 assms(4) _ _ r7])
      (use l1 in \<open>simp_all add: chr_defs cnt_max_def\<close>)
  then obtain fs7 F2 where
    fs7: "kfu_add_element_to_dir fs6 sid p [chr_dot, chr_dot] = Some (0, fs7)" "stores fs7 F2"
      "is_directory F2 sid ?e1" "F2 = F(sid := F2 sid)" "map_option fst (F2 sid) = Some (meta_str ?meta)"
      "fs_room fs7 (sid_dev sid) (k + 2)"
    by auto
  have r8: "fs_room fs7 (sid_dev sid) (2 * new_cores (length (dir_bytes (?e1 @ [(sid, [chr_dot])]))) + k)"
    unfolding eq using fs7(6) .
  have "\<exists>fs8 F3. kfu_add_element_to_dir fs7 sid sid [chr_dot] = Some (0, fs8) \<and> stores fs8 F3 \<and>
      is_directory F3 sid (?e1 @ [(sid, [chr_dot])]) \<and> F3 = F2(sid := F3 sid) \<and>
      map_option fst (F3 sid) = map_option fst (F2 sid) \<and> fs_room fs8 (sid_dev sid) k"
    by (rule add_element_store [OF fs7(2,3) assms(3) _ _ r8])
      (use l1 in \<open>simp_all add: chr_defs cnt_max_def\<close>)
  then obtain fs8 F3 where
    fs8: "kfu_add_element_to_dir fs7 sid sid [chr_dot] = Some (0, fs8)" "stores fs8 F3"
      "is_directory F3 sid ?e2" "F3 = F2(sid := F3 sid)" "map_option fst (F3 sid) = map_option fst (F2 sid)"
      "fs_room fs8 (sid_dev sid) k"
    by auto
  have "F3 s = F s" if "s \<noteq> sid" for s
    using that by (subst fs8(4), subst fs7(4)) simp
  then show ?thesis
    using fs5(1) fs6(1) fs7(1,5) fs8 by (intro exI [of _ fs5] exI [of _ fs6] exI [of _ fs7] exI [of _ fs8]
      exI [of _ "[0, 0, 0, 0]"] exI [of _ F3]) auto
qed

lemma dir_create_ok:
  assumes "tree_of F G" and "stores fs F" and "G SID_ROOT \<noteq> None" and "\<forall>c\<in>set cs. name_ok c"
    and "G (locate G cs) = Some es" and "name_ok name" and "grown es name \<le> cnt_max"
    and "fs_room fs (sid_dev (locate G cs)) (2 * new_cores (grown es name) + k + 8)"
    and "sid_dev (locate G cs) \<noteq> 0"
  shows "\<exists>sid fs' F'. kfu_dir_create fs 0 (Some (abs_path cs)) name = Some (sid, fs') \<and> F sid = None \<and> sid \<noteq> 0 \<and>
    sid_dev sid = sid_dev (locate G cs) \<and> stores fs' F' \<and> map_option fst (F' sid) = Some (meta_str ([chr_D, chr_dash] @ take 61 name)) \<and>
    (\<forall>s. s \<noteq> sid \<longrightarrow> s \<noteq> locate G cs \<longrightarrow> F' s = F s) \<and>
    tree_of F' (G(locate G cs \<mapsto> es @ [(sid, name)],
      sid \<mapsto> [(locate G cs, [chr_dot, chr_dot]), (sid, [chr_dot])])) \<and>
    fs_room fs' (sid_dev (locate G cs)) k"
proof -
  let ?p = "locate G cs" and ?meta = "[chr_D, chr_dash] @ take 61 name"
  from path_to_sid_locate [OF assms(1-4)] obtain fs1 where
    fs1: "kfu_path_to_sid fs SID_ROOT (abs_path cs) = Some (?p, fs1)" "stores fs1 F"
      "\<forall>dev k. fs_room fs dev k \<longrightarrow> fs_room fs1 dev k"
    by blast
  have dir: "is_directory F ?p es"
    using tree_ofD(1) [OF assms(1,5)] .
  then obtain meta where m: "?p \<noteq> 0" "F ?p = Some (meta, dir_bytes es)" "meta ! 0 = chr_D"
    by (auto simp: is_directory_def)
  from is_dir_store [OF fs1(2) m(2,1)] m(3) obtain fs2 where
    fs2: "kfu_is_dir fs1 ?p = Some (True, fs2)" "stores fs2 F" "\<forall>dev k. fs_room fs1 dev k \<longrightarrow> fs_room fs2 dev k"
    by auto
  have room: "fs_room fs2 (sid_dev ?p) (2 * new_cores (grown es name) + (k + 6) + 2)"
  proof (rule fs_room_mono)
    show "fs_room fs2 (sid_dev ?p) (2 * new_cores (grown es name) + k + 8)"
      using assms(8) fs1(3) fs2(3) by blast
  qed simp
  have z: "0 \<notin> set name"
    using assms(6) by (simp add: name_ok_def)
  from create_entry [OF fs2(2) dir z assms(7) room assms(9), of ?meta] obtain sid fs3 fs4 F1 where
    c: "fs_cnt_init fs2 (sid_dev ?p) ?meta = Some (sid, fs3)" "sid \<noteq> 0" "F sid = None" "sid_dev sid = sid_dev ?p"
      "kfu_add_element_to_dir fs3 ?p sid name = Some (0, fs4)" "stores fs4 F1" "F1 sid = Some (meta_str ?meta, [])"
      "\<And>s. s \<noteq> sid \<Longrightarrow> s \<noteq> ?p \<Longrightarrow> F1 s = F s" "is_directory F1 ?p (es @ [(sid, name)])" "fs_room fs4 (sid_dev ?p) (k + 6)"
    by blast
  have psid: "?p \<noteq> sid"
    using m(2) c(3) by auto
  have F1: "F1 sid = Some (meta_str (chr_D # chr_dash # take 61 name), [])" "fs_room fs4 (sid_dev sid) (k + 6)"
    using c(4,7,10) by simp_all
  let ?e2 = "[(?p, [chr_dot, chr_dot]), (sid, [chr_dot])]"
  from dir_setup_ok [OF c(6) F1(1) c(2) m(1) F1(2)] obtain fs5 fs6 fs7 fs8 b F3 where
    s: "fs_cnt_set_size fs4 sid 4 = Some (0, fs5)" "fs_cnt_write fs5 sid [0, 0, 0, 0] 0 4 = Some (0, b, fs6)"
      "kfu_add_element_to_dir fs6 sid ?p [chr_dot, chr_dot] = Some (0, fs7)"
      "kfu_add_element_to_dir fs7 sid sid [chr_dot] = Some (0, fs8)"
    and fs8: "stores fs8 F3" "is_directory F3 sid ?e2" "fs_room fs8 (sid_dev sid) k"
      "map_option fst (F3 sid) = Some (meta_str (chr_D # chr_dash # take 61 name))"
    and F3: "\<And>s. s \<noteq> sid \<Longrightarrow> F3 s = F1 s"
    by blast
  have run: "kfu_dir_create fs 0 (Some (abs_path cs)) name = Some (sid, fs8)"
    using fs1(1) fs2(1) c(1,2,5) s
    by (simp add: kfu_dir_create_def SID_NULL_def META_MAXLEN_def)
  have dir3: "is_directory F3 ?p (es @ [(sid, name)])"
    using c(9) F3 [OF psid] by (simp add: is_directory_def)
  have "tree_of F3 (G(?p \<mapsto> es @ [(sid, name)], sid := Some ?e2))"
  proof (rule tree_of_update [OF assms(1) c(3,2) assms(5) _ dir3 assms(6)])
    show "F3 s = F s" if "s \<noteq> sid" "s \<noteq> ?p" for s
      using F3 c(8) that by simp
    have "F3 sid \<noteq> None" "F3 ?p \<noteq> None"
      using fs8(2) dir3 by (auto simp: is_directory_def)
    then show "case Some ?e2 of None \<Rightarrow> \<exists>meta xs. F3 sid = Some (meta, xs) \<and> meta ! 0 \<noteq> chr_D
         | Some es' \<Rightarrow> is_directory F3 sid es' \<and> (\<forall>(s, nm)\<in>set es'. name_ok nm \<and> s \<noteq> 0 \<and> F3 s \<noteq> None)"
      using fs8(2) m(1) c(2) by (simp add: name_ok_def chr_defs)
  qed
  then show ?thesis
    using run c fs8 F3 by (intro exI [of _ sid] exI [of _ fs8] exI [of _ F3]) auto
qed

section \<open>The last component\<close>

lemma path_of_snoc: "path_of (cs @ [name]) = (if cs = [] then name else path_of cs @ chr_slash # name)"
  by (induction cs rule: path_of.induct) auto

lemma sep_path_snoc:
  assumes "name_ok name"
  shows "kfu_sep_path (abs_path (cs @ [name])) = (abs_path cs, name)"
proof -
  let ?p = "if cs = [] then [] else abs_path cs"
  have path: "abs_path (cs @ [name]) = ?p @ chr_slash # name"
    by (simp add: abs_path_def path_of_snoc)
  have nm: "\<forall>c\<in>set (rev name). c \<noteq> chr_slash" "rev name \<noteq> []"
    using assms by (auto simp: name_ok_def)
  have d: "dropWhile (\<lambda>c. c = chr_slash) (rev (?p @ chr_slash # name)) = rev (?p @ chr_slash # name)"
    using nm by (cases "rev name") (auto simp: dropWhile_append)
  have t: "takeWhile (\<lambda>c. c \<noteq> chr_slash) (rev (?p @ chr_slash # name)) = rev name"
    using nm by (simp add: takeWhile_append)
  have len: "0 < length (abs_path cs)"
    by (simp add: abs_path_def)
  show ?thesis
  proof (cases "cs = []")
    case True
    then show ?thesis
      using d t unfolding kfu_sep_path_def path by (simp add: Let_def abs_path_def)
  next
    case False
    then show ?thesis
      using d t len unfolding kfu_sep_path_def path by (simp add: Let_def nat_add_distrib)
  qed
qed

end
