(* ===== verification/FileOps.thy ===== *)
theory FileOps
  imports Paths
begin

text \<open>
  The file system as its users see it: what was created is found again by its path, an AFFT file
  keeps its number, and the start-up of the kernel (\<open>filesys_init\<close>) builds the root directory.
\<close>

section \<open>Creation and lookup\<close>

lemma find_append_Some: "find P xs = Some x \<Longrightarrow> (\<And>y. y \<in> set xs \<Longrightarrow> P' y = P y) \<Longrightarrow> find P' (xs @ ys) = Some x"
  by (induction xs) (auto split: if_splits)

lemma find_new: "name \<notin> snd ` set es \<Longrightarrow> find (\<lambda>(s, nm). nm = name) (es @ [(sid, name)]) = Some (sid, name)"
  by (induction es) auto

lemma resolve_created:
  assumes "tree_of F G" and "F sid = None" and "G p = Some es" and "es \<noteq> []" and "name \<notin> snd ` set es"
    and G': "G' = G(p \<mapsto> es @ [(sid, name)], sid := sub)" and "cs \<noteq> []" and "resolve G d cs = p"
  shows "resolve G' d (cs @ [name]) = sid"
  using assms(7,8)
proof (induction cs arbitrary: d)
  case Nil
  then show ?case by simp
next
  case (Cons c cs)
  have pz: "p \<noteq> 0" "p \<noteq> sid" "G sid = None"
    using assms(1-3) unfolding tree_of_def is_directory_def by fastforce+
  have p': "G' p = Some (es @ [(sid, name)])" "find (\<lambda>(s, nm). nm = name) (es @ [(sid, name)]) = Some (sid, name)"
    using pz assms(5) by (auto simp: G' find_new)
  have open_p: "open_dir G p" "open_dir G' p"
    using assms(3,4) p' by (simp_all add: open_dir_def)
  from Cons.prems(2) pz(1) obtain ed where d: "G d = Some ed"
    by (cases "G d") (cases cs; simp add: SID_NULL_def)+
  then obtain ys where d': "G' d = Some (ed @ ys)"
    using assms(3) pz by (cases "d = p"; cases "d = sid") (auto simp: G')
  have same: "open_dir G' s = open_dir G s" if "(s, nm) \<in> set ed" for s nm
  proof -
    have "s \<noteq> sid"
      using tree_ofD(2) [OF assms(1) d that] assms(2) by auto
    then show ?thesis
      using open_p by (cases "s = p") (auto simp: open_dir_def G')
  qed
  show ?case
  proof (cases cs)
    case Nil
    with Cons.prems(2) d pz(1) obtain nm where f: "find (\<lambda>(s, nm). nm = c) ed = Some (p, nm)"
      by (auto simp: SID_NULL_def split: option.splits)
    then have "find (\<lambda>(s, nm). nm = c \<and> open_dir G s) ed = Some (p, nm)"
      using open_p(1) by (induction ed) (auto split: if_splits)
    then have "find (\<lambda>(s, nm). nm = c \<and> open_dir G' s) (ed @ ys) = Some (p, nm)"
      by (rule find_append_Some) (use same in auto)
    then show ?thesis
      using Nil d' p' by simp
  next
    case c': (Cons c' cs')
    with Cons.prems(2) d pz(1) obtain s nm where f: "find (\<lambda>(s, nm). nm = c \<and> open_dir G s) ed = Some (s, nm)"
      "resolve G s cs = p"
      by (auto simp: SID_NULL_def split: option.splits)
    then have "find (\<lambda>(s, nm). nm = c \<and> open_dir G' s) (ed @ ys) = Some (s, nm)"
      by (intro find_append_Some [OF f(1)]) (use same in auto)
    then show ?thesis
      using c' d' Cons.IH [OF _ f(2)] by simp
  qed
qed

lemma locate_created:
  assumes "tree_of F G" and "F sid = None" and "G (locate G cs) = Some es" and "es \<noteq> []"
    and "name \<notin> snd ` set es"
  shows "locate (G(locate G cs \<mapsto> es @ [(sid, name)], sid := sub)) (cs @ [name]) = sid"
proof (cases "cs = []")
  case True
  have "G sid = None"
    using assms(1,2) unfolding tree_of_def is_directory_def by fastforce
  then have "sid \<noteq> SID_ROOT"
    using assms(3) True by (auto simp: locate_def)
  moreover have "find (\<lambda>(s, nm). nm = name) (es @ [(sid, name)]) = Some (sid, name)"
    using assms(5) by (rule find_new)
  ultimately show ?thesis
    using True by (simp add: locate_def)
next
  case False
  then show ?thesis
    using resolve_created [OF assms(1-5) refl False, of SID_ROOT sub] by (simp add: locate_def)
qed

text \<open>A new file is found under its path, and no other container has changed.\<close>

lemma file_create_lookup:
  assumes "tree_of F G" and "stores fs F" and "G SID_ROOT \<noteq> None" and "\<forall>c\<in>set cs. name_ok c"
    and "G (locate G cs) = Some es" and "es \<noteq> []" and "name_ok name" and "name \<notin> snd ` set es"
    and "grown es name \<le> cnt_max"
    and "fs_room fs (sid_dev (locate G cs)) (2 * new_cores (grown es name) + 2)"
    and "sid_dev (locate G cs) \<noteq> 0"
  shows "\<exists>sid fs1 fs2. kfu_file_create fs (abs_path cs) name = Some (sid, fs1) \<and> sid \<noteq> 0 \<and> F sid = None \<and>
    fs_cnt_get_size fs1 sid = Some 0 \<and> kfu_path_to_sid fs1 SID_ROOT (abs_path (cs @ [name])) = Some (sid, fs2)"
proof -
  have "fs_room fs (sid_dev (locate G cs)) (2 * new_cores (grown es name) + 0 + 2)"
    using assms(10) by simp
  from file_create_ok [OF assms(1-5,7,9) this assms(11)] obtain sid fs1 F' where
    c: "kfu_file_create fs (abs_path cs) name = Some (sid, fs1)" "F sid = None" "sid \<noteq> 0" "stores fs1 F'"
      "F' sid = Some (meta_str ([chr_F, chr_dash] @ take 61 name), [])"
      "tree_of F' (G(locate G cs \<mapsto> es @ [(sid, name)]))"
    by blast
  let ?G = "G(locate G cs \<mapsto> es @ [(sid, name)])"
  have "G sid = None"
    using assms(1) c(2) unfolding tree_of_def is_directory_def by fastforce
  then have "?G = G(locate G cs \<mapsto> es @ [(sid, name)], sid := None)"
    using assms(5) by (auto simp: fun_eq_iff)
  then have "locate ?G (cs @ [name]) = sid"
    using locate_created [OF assms(1) c(2) assms(5,6,8), of None] by simp
  moreover have "?G SID_ROOT \<noteq> None" "\<forall>c\<in>set (cs @ [name]). name_ok c"
    using assms(3,4,7) by auto
  ultimately obtain fs2 where "kfu_path_to_sid fs1 SID_ROOT (abs_path (cs @ [name])) = Some (sid, fs2)"
    using path_to_sid_locate [OF c(6,4)] by metis
  then show ?thesis
    using c store_get_size(1) [OF c(4,5)] by auto
qed

section \<open>AFFT files\<close>

lemma afft_create_ok:
  assumes "tree_of F G" and "stores fs F" and "G SID_ROOT \<noteq> None" and "\<forall>c\<in>set cs. name_ok c"
    and "G (locate G cs) = Some es" and "name_ok name" and "grown es name \<le> cnt_max"
    and "fs_room fs (sid_dev (locate G cs)) (2 * new_cores (grown es name) + 4)"
    and "sid_dev (locate G cs) \<noteq> 0"
  shows "\<exists>sid fs' fs''. kfu_afft_create fs (abs_path cs) name n = Some (sid, fs') \<and> sid \<noteq> 0 \<and>
    kfu_afft_get_id fs' sid = Some (sint n, fs'')"
proof -
  let ?p = "locate G cs" and ?meta = "[chr_A, chr_dash] @ take 61 name"
  from path_to_sid_locate [OF assms(1-4)] obtain fs1 where
    fs1: "kfu_path_to_sid fs SID_ROOT (abs_path cs) = Some (?p, fs1)" "stores fs1 F"
      "\<forall>dev k. fs_room fs dev k \<longrightarrow> fs_room fs1 dev k"
    by blast
  have dir: "is_directory F ?p es"
    using tree_ofD(1) [OF assms(1,5)] .
  then obtain meta where m: "?p \<noteq> 0" "F ?p = Some (meta, dir_bytes es)" "meta ! 0 = chr_D"
    by (auto simp: is_directory_def)
  from is_dir_store [OF fs1(2) m(2,1)] m(3) obtain fs2 where
    fs2: "kfu_is_dir fs1 ?p = Some (True, fs2)" "stores fs2 F" "\<forall>dev k. fs_room fs1 dev k \<longrightarrow> fs_room fs2 dev k"
    by auto
  have room: "fs_room fs2 (sid_dev ?p) (2 * new_cores (grown es name) + 2 + 2)"
  proof (rule fs_room_mono)
    show "fs_room fs2 (sid_dev ?p) (2 * new_cores (grown es name) + 4)"
      using assms(8) fs1(3) fs2(3) by blast
  qed simp
  have z: "0 \<notin> set name"
    using assms(6) by (simp add: name_ok_def)
  from create_entry [OF fs2(2) dir z assms(7) room assms(9), of ?meta] obtain sid fs3 fs4 F1 where
    c: "fs_cnt_init fs2 (sid_dev ?p) ?meta = Some (sid, fs3)" "sid \<noteq> 0" "sid_dev sid = sid_dev ?p"
      "kfu_add_element_to_dir fs3 ?p sid name = Some (0, fs4)" "stores fs4 F1" "F1 sid = Some (meta_str ?meta, [])"
      "fs_room fs4 (sid_dev ?p) 2"
    by blast
  have "2 * new_cores (unat (4 :: u32)) + 0 = 2"
    by (simp add: new_cores_def)
  then have "fs_room fs4 (sid_dev sid) (2 * new_cores (unat (4 :: u32)) + 0)"
    using c(3,7) by (simp only:)
  from store_set_size [OF c(5,6) _ this] obtain fs5 ys where
    fs5: "fs_cnt_set_size fs4 sid 4 = Some (0, fs5)" "length ys = 4" "stores fs5 (F1(sid \<mapsto> (meta_str ?meta, ys)))"
    by (auto simp: cnt_max_def)
  from store_write [OF fs5(3), of sid "meta_str ?meta" ys 0 4 "le32 n"] fs5(2) obtain fs6 where
    fs6: "fs_cnt_write fs5 sid (le32 n) 0 4 = Some (0, le32 n, fs6)"
      "stores fs6 (F1(sid \<mapsto> (meta_str ?meta, le32 n)))"
    by (auto simp: mwrite_all)
  have run: "kfu_afft_create fs (abs_path cs) name n = Some (sid, fs6)"
    using fs1(1) fs2(1) c(1,2,4) fs5(1) fs6(1) by (simp add: kfu_afft_create_def SID_NULL_def META_MAXLEN_def)
  have F: "(F1(sid \<mapsto> (meta_str ?meta, le32 n))) sid = Some (meta_str ?meta, le32 n)"
    by simp
  from store_meta [OF fs6(2) F] obtain fs7 where
    fs7: "fs_cnt_meta fs6 sid None = Some (Some (meta_str ?meta), fs7)"
      "stores fs7 (F1(sid \<mapsto> (meta_str ?meta, le32 n)))"
    by blast
  have "fs_cnt_read fs7 sid (replicate 4 0) 0 4 = Some (0, le32 n, fs7)"
    by (rule containers.read_all [OF fs7(2) F]) simp_all
  moreover have "get32 (le32 n) 0 = n"
    using get32_at [of "[]" 0 n "[]"] by simp
  ultimately have "kfu_afft_get_id fs6 sid = Some (sint n, fs7)"
    using fs7(1) store_get_size(1) [OF fs7(2) F] c(2)
    by (simp add: kfu_afft_get_id_def kfu_is_afft_def SID_NULL_def meta_str_hd)
  then show ?thesis
    using run c(2) by blast
qed

section \<open>The start of the file system\<close>

definition bytes_of :: "string \<Rightarrow> byte list" where
  "bytes_of s = map of_char s"

text \<open>
  \<open>initrd_to_vdisk\<close>: the image is copied sector by sector; a sector whose first byte is not null
  is in use.  \<open>junk\<close> is the initial contents of the disk's memory.
\<close>

fun initrd_copy :: "vdisk \<Rightarrow> byte list \<Rightarrow> nat list \<Rightarrow> vdisk option" where
  "initrd_copy d initrd [] = Some d"
| "initrd_copy d initrd (i # is) = do {
     let sid = SID_FORMAT 0 (word_of_nat i);
     let (_, d) = vdisk_write_sector d sid (mread initrd (i * FS_SECTOR_SIZE) FS_SECTOR_SIZE);
     s \<leftarrow> rd (sectors d) i;
     d \<leftarrow> (if s ! 0 \<noteq> 0 then do { (_, d) \<leftarrow> vdisk_note_sector_used d sid; Some d } else Some d);
     initrd_copy d initrd is
   }"

definition initrd_to_vdisk :: "(nat \<Rightarrow> byte list) \<Rightarrow> byte list \<Rightarrow> vdisk option option" where
  "initrd_to_vdisk junk initrd =
     (if length initrd = 0 then Some None
      else do {
        d \<leftarrow> initrd_copy (vdisk_create junk (length initrd div FS_SECTOR_SIZE + 1)) initrd
               [0..<length initrd div FS_SECTOR_SIZE];
        Some (Some d)
      })"

text \<open>Lines 73 to 83: the disk 1 and the directories on it.\<close>

definition filesys_init_root :: "(nat \<Rightarrow> byte list) \<Rightarrow> filesys option" where
  "filesys_init_root junk = do {
     let (_, fs) = fs_mount_vdisk fs_create (vdisk_create junk 500) 1;
     (_, fs) \<leftarrow> kfu_dir_create fs 0 None [chr_slash];
     (_, fs) \<leftarrow> kfu_dir_create fs 0 (Some [chr_slash]) (bytes_of ''tmp'');
     (_, fs) \<leftarrow> kfu_dir_create fs 0 (Some [chr_slash]) (bytes_of ''dev'');
     Some fs
   }"

text \<open>One link of the root directory to a directory of the initial disk.\<close>

definition init_link :: "filesys \<Rightarrow> byte list \<Rightarrow> (int \<times> filesys) option" where
  "init_link fs name = do {
     (sid, fs) \<leftarrow> kfu_path_to_sid fs (SID_FORMAT 2 0) (chr_slash # name);
     kfu_add_element_to_dir fs SID_ROOT sid name
   }"

fun init_links :: "filesys \<Rightarrow> byte list list \<Rightarrow> (int \<times> filesys) option" where
  "init_links fs [] = Some (0, fs)"
| "init_links fs (n # ns) = do {
     (r, fs) \<leftarrow> init_link fs n;
     if r \<noteq> 0 then Some (1, fs) else init_links fs ns
   }"

definition filesys_init :: "(nat \<Rightarrow> byte list) \<Rightarrow> (nat \<Rightarrow> byte list) \<Rightarrow> byte list \<Rightarrow> (int \<times> filesys) option" where
  "filesys_init junk junk' initrd = do {
     fs \<leftarrow> filesys_init_root junk;
     d1 \<leftarrow> initrd_to_vdisk junk' initrd;
     case d1 of None \<Rightarrow> Some (1, fs)
     | Some d \<Rightarrow> do {
         let (_, fs) = fs_mount_vdisk fs d 2;
         (r, fs) \<leftarrow> init_links fs (map bytes_of [''user'', ''bin'', ''lib'', ''sys'', ''zada'']);
         if r \<noteq> 0 then Some (1, fs)
         else do {
           (src_sid, fs) \<leftarrow> kfu_path_to_sid fs (SID_FORMAT 2 0) (chr_slash # bytes_of ''src'');
           if src_sid = SID_NULL then Some (0, fs)
           else do {
             (r, fs) \<leftarrow> kfu_add_element_to_dir fs SID_ROOT src_sid (bytes_of ''src'');
             Some (if r \<noteq> 0 then 1 else 0, fs)
           }
         }
       }
   }"

lemma fs_cnt_init_sid:
  assumes "fs_cnt_init fs dev meta = Some (sid, fs')" and "sid \<noteq> 0" and "fs_get_vdisk fs dev = Some d"
    and "vdisk_get_unused_sector d = Some (n, d')"
  shows "sid = SID_FORMAT (ucast dev) n"
  using assms by (auto simp: fs_cnt_init_def Let_def SID_NULL_def bind_Some_iff split: if_splits)

lemma boot_names: "name_ok (bytes_of ''tmp'')" "name_ok (bytes_of ''dev'')" "length (bytes_of ''tmp'') = 3"
  "length (bytes_of ''dev'') = 3" "bytes_of ''tmp'' \<noteq> bytes_of ''dev''"
  by (simp_all add: bytes_of_def name_ok_def chr_defs)

text \<open>The root directory and its two subdirectories after the first part of the start-up.\<close>

lemma filesys_init_root_ok:
  assumes "\<And>n. length (junk n) = FS_SECTOR_SIZE"
  shows "\<exists>fs F G tmp dev. filesys_init_root junk = Some fs \<and> stores fs F \<and> tree_of F G \<and>
    G SID_ROOT = Some [(SID_ROOT, [chr_dot, chr_dot]), (SID_ROOT, [chr_dot]), (tmp, bytes_of ''tmp''),
      (dev, bytes_of ''dev'')] \<and>
    G tmp = Some [(SID_ROOT, [chr_dot, chr_dot]), (tmp, [chr_dot])] \<and>
    G dev = Some [(SID_ROOT, [chr_dot, chr_dot]), (dev, [chr_dot])] \<and>
    tmp \<noteq> dev \<and> tmp \<noteq> SID_ROOT \<and> dev \<noteq> SID_ROOT \<and> fs_room fs 1 1000"
proof -
  let ?d = "vdisk_create junk 500"
  let ?fs = "snd (fs_mount_vdisk fs_create ?d 1)"
  have root: "sid_dev SID_ROOT = 1" "SID_ROOT \<noteq> 0" "SID_ROOT = SID_FORMAT 1 0"
    by (simp_all add: SID_ROOT_def SID_FORMAT_def sid_dev_def SID_DISK_def)
  have get: "fs_get_vdisk ?fs dev = (if dev = 1 then Some ?d else None)" for dev
    by (auto simp: fs_mount_vdisk_def fs_create_def fs_get_vdisk_def)
  have d0: "vsize ?d = 500" "used_count ?d = 0"
    by (simp_all add: vdisk_create_def)
  have inv: "fs_inv ?fs"
    using vd_inv_create [of junk 500] assms by (simp add: fs_inv_def get d0)
  have room: "fs_room ?fs 1 2000"
    by (simp add: fs_room_def get d0)
  let ?meta = "chr_D # [chr_dash, chr_slash]"
  have "fs_room ?fs 1 (Suc (Suc 1998))"
    using room by simp
  from store_init [OF stores_empty [OF inv] this, of ?meta] obtain sid fs1 where
    i: "fs_cnt_init ?fs 1 ?meta = Some (sid, fs1)" "sid \<noteq> 0" "sid_dev sid = 1"
      "stores fs1 (Map.empty(sid \<mapsto> (meta_str ?meta, [])))" "fs_room fs1 1 1998"
    by auto
  have "vdisk_get_unused_sector ?d = Some (0, ?d)"
    by (simp add: vdisk_get_unused_sector_def vdisk_create_def)
  from fs_cnt_init_sid [OF i(1,2) _ this] have sid: "sid = SID_ROOT"
    by (simp add: get root(3))
  have "fs_room fs1 (sid_dev sid) (1992 + 6)"
    using i(3,5) by simp
  from dir_setup_ok [OF i(4) _ i(2) root(2) this, of "[chr_dash, chr_slash]"] obtain fs5 fs6 fs7 fs8 b F1 where
    s: "fs_cnt_set_size fs1 sid 4 = Some (0, fs5)" "fs_cnt_write fs5 sid [0, 0, 0, 0] 0 4 = Some (0, b, fs6)"
      "kfu_add_element_to_dir fs6 sid SID_ROOT [chr_dot, chr_dot] = Some (0, fs7)"
      "kfu_add_element_to_dir fs7 sid sid [chr_dot] = Some (0, fs8)" "stores fs8 F1"
      "is_directory F1 sid [(SID_ROOT, [chr_dot, chr_dot]), (sid, [chr_dot])]" "\<forall>s. s \<noteq> sid \<longrightarrow> F1 s = None"
      "fs_room fs8 (sid_dev sid) 1992"
    by auto
  let ?es = "[(SID_ROOT, [chr_dot, chr_dot]), (SID_ROOT, [chr_dot])]"
  let ?G = "Map.empty(SID_ROOT \<mapsto> ?es)"
  have run1: "kfu_dir_create ?fs 0 None [chr_slash] = Some (SID_ROOT, fs8)"
    using i(1,2) s(1-4) root(1) by (simp add: kfu_dir_create_def SID_NULL_def sid META_MAXLEN_def)
  have tree1: "tree_of F1 ?G"
    using s(6,7) root(2) by (auto simp: tree_of_def sid name_ok_def chr_defs is_directory_def split: if_splits)
  have cores1: "new_cores n = 1" if "0 < n" "n < 511" for n
    using that by (simp add: new_cores_def)
  have loc: "locate G [] = SID_ROOT" for G
    by (simp add: locate_def)
  have ap: "abs_path [] = [chr_slash]"
    by (simp add: abs_path_def)
  have g1: "grown ?es (bytes_of ''tmp'') = 37"
    by (simp add: length_dir_bytes boot_names)
  have "fs_room fs8 (sid_dev (locate ?G [])) (2 * new_cores (grown ?es (bytes_of ''tmp'')) + 1500 + 8)"
    unfolding g1 loc by (rule fs_room_mono [OF s(8) [unfolded sid]]) (simp add: cores1)
  from dir_create_ok [OF tree1 s(5) _ _ _ boot_names(1) _ this] root(1) g1 obtain tmp fs9 F2 where
    t: "kfu_dir_create fs8 0 (Some [chr_slash]) (bytes_of ''tmp'') = Some (tmp, fs9)" "F1 tmp = None" "tmp \<noteq> 0"
      "stores fs9 F2" "tree_of F2 (?G(SID_ROOT \<mapsto> ?es @ [(tmp, bytes_of ''tmp'')],
        tmp \<mapsto> [(SID_ROOT, [chr_dot, chr_dot]), (tmp, [chr_dot])]))" "fs_room fs9 1 1500"
      "map_option fst (F2 tmp) \<noteq> None"
    unfolding ap loc by (auto simp: cnt_max_def)
  let ?es2 = "?es @ [(tmp, bytes_of ''tmp'')]"
  let ?G2 = "?G(SID_ROOT \<mapsto> ?es2, tmp \<mapsto> [(SID_ROOT, [chr_dot, chr_dot]), (tmp, [chr_dot])])"
  have tr: "tmp \<noteq> SID_ROOT"
    using t(2) s(6) by (auto simp: sid is_directory_def)
  have G2: "?G2 SID_ROOT = Some ?es2"
    using tr by simp
  have g2: "grown ?es2 (bytes_of ''dev'') = 49"
    by (simp add: length_dir_bytes boot_names)
  have "fs_room fs9 (sid_dev (locate ?G2 [])) (2 * new_cores (grown ?es2 (bytes_of ''dev'')) + 1000 + 8)"
    unfolding g2 loc root(1) by (rule fs_room_mono [OF t(6)]) (simp add: cores1)
  from dir_create_ok [OF t(5,4) _ _ _ boot_names(2) _ this] root(1) g2 G2 obtain dev fs10 F3 where
    u: "kfu_dir_create fs9 0 (Some [chr_slash]) (bytes_of ''dev'') = Some (dev, fs10)" "F2 dev = None" "dev \<noteq> 0"
      "stores fs10 F3" "tree_of F3 (?G2(SID_ROOT \<mapsto> ?es2 @ [(dev, bytes_of ''dev'')],
        dev \<mapsto> [(SID_ROOT, [chr_dot, chr_dot]), (dev, [chr_dot])]))" "fs_room fs10 1 1000"
    unfolding ap loc by (auto simp: cnt_max_def)
  have "dev \<noteq> tmp" "dev \<noteq> SID_ROOT"
    using t(5,7) u(2) tree_ofD(1) [OF t(5) G2] by (auto simp: is_directory_def)
  moreover have "filesys_init_root junk = Some fs10"
    using run1 t(1) u(1) by (simp add: filesys_init_root_def split_beta)
  ultimately show ?thesis
    using u(4-6) tr by (intro exI [of _ fs10] exI [of _ F3] exI [of _ "?G2(SID_ROOT \<mapsto> ?es2 @ [(dev, bytes_of ''dev'')],
        dev \<mapsto> [(SID_ROOT, [chr_dot, chr_dot]), (dev, [chr_dot])])"] exI [of _ tmp] exI [of _ dev]) auto
qed

end
