(* ===== verification/FsProps.thy ===== *)
theory FsProps
  imports FileOps
begin

text \<open>
  The properties of the file system.  The witnesses run the operations on the state that the
  start-up of the kernel leaves on a disk whose memory is all zeros.
\<close>

abbreviation zeros :: "nat \<Rightarrow> byte list" where
  "zeros \<equiv> \<lambda>_. replicate FS_SECTOR_SIZE 0"

abbreviation boot_entries :: "u32 \<Rightarrow> u32 \<Rightarrow> entry list" where
  "boot_entries tmp dev \<equiv> [(SID_ROOT, [chr_dot, chr_dot]), (SID_ROOT, [chr_dot]),
     (tmp, bytes_of ''tmp''), (dev, bytes_of ''dev'')]"

lemma boot_state:
  obtains fs F G tmp dev meta where "filesys_init_root zeros = Some fs" "stores fs F" "tree_of F G"
    "G SID_ROOT = Some (boot_entries tmp dev)" "G tmp \<noteq> None" "tmp \<noteq> SID_ROOT"
    "is_directory F SID_ROOT (boot_entries tmp dev)"
    "F SID_ROOT = Some (meta, dir_bytes (boot_entries tmp dev))" "length (dir_bytes (boot_entries tmp dev)) = 49"
    "fs_room fs 1 1000" "sid_dev SID_ROOT = 1"
proof -
  obtain fs F G tmp dev where b: "filesys_init_root zeros = Some fs" "stores fs F" "tree_of F G"
    "G SID_ROOT = Some (boot_entries tmp dev)" "G tmp \<noteq> None" "tmp \<noteq> SID_ROOT" "fs_room fs 1 1000"
    using filesys_init_root_ok [of zeros] by auto
  have "is_directory F SID_ROOT (boot_entries tmp dev)"
    using tree_ofD(1) [OF b(3,4)] .
  moreover from this obtain meta where "F SID_ROOT = Some (meta, dir_bytes (boot_entries tmp dev))"
    by (auto simp: is_directory_def)
  moreover have "length (dir_bytes (boot_entries tmp dev)) = 49"
    by (simp add: length_dir_bytes boot_names)
  moreover have "sid_dev SID_ROOT = 1"
    by (simp add: SID_ROOT_def SID_FORMAT_def sid_dev_def SID_DISK_def)
  ultimately show ?thesis
    using that b by blast
qed

text \<open>
  C1.  Writing inside a container succeeds and is exactly the update of its bytes in the abstract
  store: the meta string, the size, every other container and the free sectors are untouched,
  whatever the offset and length and however many cores and locators the access crosses.
\<close>

theorem fs_cnt_write_refines:
  assumes "stores fs F" and "F sid = Some (meta, xs)"
    and "unat off + unat n \<le> length xs" and "unat n \<le> length buf"
  shows "\<exists>fs'. fs_cnt_write fs sid buf off n = Some (0, buf, fs') \<and>
    stores fs' (F(sid \<mapsto> (meta, mwrite xs (unat off) (take (unat n) buf)))) \<and>
    (\<forall>dev k. fs_room fs dev k \<longrightarrow> fs_room fs' dev k)"
  using assms by (rule store_write)

theorem fs_cnt_write_refines_witness:
  "\<exists>fs fs'. filesys_init_root zeros = Some fs \<and> fs_cnt_write fs SID_ROOT [7, 8] 5 2 = Some (0, [7, 8], fs')"
proof -
  obtain fs F G tmp dev meta where b: "filesys_init_root zeros = Some fs" "stores fs F"
    "F SID_ROOT = Some (meta, dir_bytes (boot_entries tmp dev))" "length (dir_bytes (boot_entries tmp dev)) = 49"
    by (rule boot_state)
  show ?thesis
    using fs_cnt_write_refines [OF b(2,3), of 5 2 "[7, 8]"] b(1,4) by auto
qed

text \<open>
  What was written is read back: a write followed by a read of the same range returns the
  bytes, and a read of any range of another container returns what it returned before.
\<close>

theorem fs_cnt_write_read:
  assumes "stores fs F" and "F sid = Some (meta, xs)" and "F sid' = Some (meta', xs')" and "sid' \<noteq> sid"
    and "unat off + unat n \<le> length xs" and "length buf = unat n"
    and "unat off' + unat n' \<le> length xs'" and "length buf' = unat n'"
  shows "\<exists>fs1. fs_cnt_write fs sid buf off n = Some (0, buf, fs1) \<and>
    (\<forall>b. length b = unat n \<longrightarrow> fs_cnt_read fs1 sid b off n = Some (0, buf, fs1)) \<and>
    map_option fst (map_option snd (fs_cnt_read fs1 sid' buf' off' n')) =
      map_option fst (map_option snd (fs_cnt_read fs sid' buf' off' n'))"
proof -
  obtain fs1 where w: "fs_cnt_write fs sid buf off n = Some (0, buf, fs1)"
    "stores fs1 (F(sid \<mapsto> (meta, mwrite xs (unat off) buf)))"
    using store_write [OF assms(1,2,5), of buf] assms(6) by auto
  let ?xs = "mwrite xs (unat off) buf"
  have "mread ?xs (unat off) (unat n) = buf"
    using assms(5,6) by (simp add: mread_mwrite_same)
  then have "fs_cnt_read fs1 sid b off n = Some (0, buf, fs1)" if "length b = unat n" for b
    using store_read [OF w(2), of sid meta ?xs off n b] assms(5,6) that by (simp add: mwrite_all)
  moreover have "map_option fst (map_option snd (fs_cnt_read fs1 sid' buf' off' n')) =
      map_option fst (map_option snd (fs_cnt_read fs sid' buf' off' n'))"
    using store_read [OF w(2), of sid' meta' xs' off' n' buf'] store_read [OF assms(1,3,7), of buf'] assms(3,4,7,8)
    by simp
  ultimately show ?thesis
    using w(1) by blast
qed

theorem fs_cnt_write_read_witness:
  "\<exists>fs fs1 tmp. filesys_init_root zeros = Some fs \<and> fs_cnt_write fs SID_ROOT [7, 8, 9] 40 3 = Some (0, [7, 8, 9], fs1) \<and>
    fs_cnt_read fs1 SID_ROOT [0, 0, 0] 40 3 = Some (0, [7, 8, 9], fs1) \<and>
    map_option fst (map_option snd (fs_cnt_read fs1 tmp [0, 0] 1 2)) =
      map_option fst (map_option snd (fs_cnt_read fs tmp [0, 0] 1 2))"
proof -
  obtain fs F G tmp dev meta where b: "filesys_init_root zeros = Some fs" "stores fs F" "tree_of F G"
    "G tmp \<noteq> None" "tmp \<noteq> SID_ROOT"
    "F SID_ROOT = Some (meta, dir_bytes (boot_entries tmp dev))" "length (dir_bytes (boot_entries tmp dev)) = 49"
    by (rule boot_state)
  from b(4) obtain es where "G tmp = Some es"
    by blast
  then obtain meta' where t: "F tmp = Some (meta', dir_bytes es)"
    using tree_ofD(1) [OF b(3)] by (auto simp: is_directory_def)
  have "3 \<le> length (dir_bytes es)"
    by (simp add: length_dir_bytes)
  then show ?thesis
    using fs_cnt_write_read [OF b(2,6) t b(5), of 40 3 "[7, 8, 9]" 1 2 "[0, 0]"] b(1,7)
    by - (rule exI [of _ fs], auto)
qed

text \<open>
  C3.  A read or write is refused when the sum of its offset and its length, in 32 bits as the code
  adds them, lies past the end of the container: the result is 1 and neither the buffer nor the disks
  change.  These are all ranges past the end but those whose sum wraps around to a number within the
  container, which the code lets through.
\<close>

theorem fs_cnt_rw_past_end:
  assumes "stores fs F" and "F sid = Some (meta, xs)" and "length xs < unat (off + n)"
  shows "fs_cnt_write fs sid buf off n = Some (1, buf, fs) \<and> fs_cnt_read fs sid buf off n = Some (1, buf, fs)"
proof -
  obtain L where "cnt_holds fs sid (L sid) xs"
    using stores_obtain [OF assms(1,2)] by metis
  from fs_cnt_rw_refused [OF this assms(3)]
  show ?thesis
    by (simp add: fs_cnt_write_def fs_cnt_read_def)
qed

theorem fs_cnt_rw_past_end_witness:
  "\<exists>fs. filesys_init_root zeros = Some fs \<and> fs_cnt_write fs SID_ROOT [7, 8] 48 2 = Some (1, [7, 8], fs)"
proof -
  obtain fs F G tmp dev meta where b: "filesys_init_root zeros = Some fs" "stores fs F"
    "F SID_ROOT = Some (meta, dir_bytes (boot_entries tmp dev))" "length (dir_bytes (boot_entries tmp dev)) = 49"
    by (rule boot_state)
  show ?thesis
    using fs_cnt_rw_past_end [OF b(2,3), of 48 2] b(1,4) by auto
qed

text \<open>
  C4.  Resizing a container, larger or smaller: it then has the size asked for, the bytes up to
  the smaller of the two sizes are kept, and no other container changes.  The sectors taken were
  free ones; the store stays well-formed.
\<close>

theorem fs_cnt_set_size_refines:
  assumes "stores fs F" and "F sid = Some (meta, xs)" and "unat n \<le> cnt_max"
    and "fs_room fs (sid_dev sid) (2 * new_cores (unat n) + k)"
  shows "\<exists>fs' ys. fs_cnt_set_size fs sid n = Some (0, fs') \<and> length ys = unat n \<and>
    take (min (length xs) (length ys)) ys = take (min (length xs) (length ys)) xs \<and>
    stores fs' (F(sid \<mapsto> (meta, ys))) \<and> fs_room fs' (sid_dev sid) k"
  using assms by (rule store_set_size)

theorem fs_cnt_set_size_refines_witness:
  "\<exists>fs fs'. filesys_init_root zeros = Some fs \<and> fs_cnt_set_size fs SID_ROOT 70000 = Some (0, fs')"
proof -
  obtain fs F G tmp dev meta where b: "filesys_init_root zeros = Some fs" "stores fs F"
    "F SID_ROOT = Some (meta, dir_bytes (boot_entries tmp dev))" "fs_room fs 1 1000" "sid_dev SID_ROOT = 1"
    by (rule boot_state)
  have "fs_room fs (sid_dev SID_ROOT) (2 * new_cores (unat (70000 :: u32)) + 0)"
    unfolding b(5) by (rule fs_room_mono [OF b(4)]) (simp add: new_cores_def)
  from fs_cnt_set_size_refines [OF b(2,3) _ this] b(1) show ?thesis
    by (auto simp: cnt_max_def)
qed

text \<open>
  A new container is not one of those that exist, is on the device asked for and is not the
  null identifier; it has the first 63 bytes of the meta string and no contents.
\<close>

theorem fs_cnt_init_refines:
  assumes "stores fs F" and "fs_room fs dev (Suc (Suc k))" and "dev \<noteq> 0"
  shows "\<exists>sid fs'. fs_cnt_init fs dev meta = Some (sid, fs') \<and> sid \<noteq> 0 \<and> sid_dev sid = dev \<and> F sid = None \<and>
    stores fs' (F(sid \<mapsto> (meta_str meta, []))) \<and> fs_room fs' dev k"
  using assms by (rule store_init)

theorem fs_cnt_init_refines_witness:
  "\<exists>fs sid fs'. filesys_init_root zeros = Some fs \<and> fs_cnt_init fs 1 [chr_F] = Some (sid, fs') \<and> sid \<noteq> 0"
proof -
  obtain fs F G tmp dev meta where b: "filesys_init_root zeros = Some fs" "stores fs F" "fs_room fs 1 1000"
    by (rule boot_state)
  have "fs_room fs 1 (Suc (Suc 0))"
    by (rule fs_room_mono [OF b(3)]) simp
  from fs_cnt_init_refines [OF b(2) this] b(1) show ?thesis
    by fastforce
qed

text \<open>
  C6.  Deleting a container frees exactly its sectors, the header, the locators and the cores: these
  were in use and are free, all others keep their use and contents; so every other container is still
  stored where it was.
\<close>

theorem fs_cnt_delete_refines:
  assumes "layout_of fs F L" and "F sid = Some c"
  shows "\<exists>fs'. fs_cnt_delete fs sid = Some (0, fs') \<and> layout_of fs' (F(sid := None)) L \<and>
    sid \<in> stored_set F L sid \<and> (\<forall>s\<in>stored_set F L sid. fs_view fs s \<noteq> None \<and> fs_view fs' s = None) \<and>
    (\<forall>s. s \<notin> stored_set F L sid \<longrightarrow> fs_view fs' s = fs_view fs s)"
proof -
  have set: "stored_set F L sid = set (sid # sids (L sid))"
    using assms(2) by (simp add: stored_set_def)
  have "fs_view fs s \<noteq> None" if "s \<in> stored_set F L sid" for s
    using stored_used [OF layout_stored [OF assms]] that unfolding set .
  moreover have "sid \<in> stored_set F L sid"
    by (simp add: set)
  ultimately show ?thesis
    using layout_delete [OF assms] by (auto split: if_splits)
qed

theorem fs_cnt_delete_refines_witness:
  "\<exists>fs fs'. filesys_init_root zeros = Some fs \<and> fs_view fs SID_ROOT \<noteq> None \<and>
    fs_cnt_delete fs SID_ROOT = Some (0, fs') \<and> fs_view fs' SID_ROOT = None"
proof -
  obtain fs F G tmp dev meta where b: "filesys_init_root zeros = Some fs" "stores fs F"
    "F SID_ROOT = Some (meta, dir_bytes (boot_entries tmp dev))"
    by (rule boot_state)
  obtain L where L: "layout_of fs F L"
    using b(2) by (auto simp: stores_def)
  show ?thesis
    using fs_cnt_delete_refines [OF L b(3)] b(1) by blast
qed

text \<open>
  C7.  Adding an element to a directory: the bytes of the directory are then the layout of its
  entries with the new one at the end (the table grown by one entry, the names moved up, the new
  name last), and no other container changes.
\<close>

theorem kfu_add_element_to_dir_ok:
  assumes "stores fs F" and "is_directory F dir es" and "sid \<noteq> 0" and "0 \<notin> set name"
    and "length (dir_bytes (es @ [(sid, name)])) \<le> cnt_max"
    and "fs_room fs (sid_dev dir) (2 * new_cores (length (dir_bytes (es @ [(sid, name)]))) + k)"
  shows "\<exists>fs' F'. kfu_add_element_to_dir fs dir sid name = Some (0, fs') \<and> stores fs' F' \<and>
    is_directory F' dir (es @ [(sid, name)]) \<and> F' = F(dir := F' dir) \<and> map_option fst (F' dir) = map_option fst (F dir) \<and>
    fs_room fs' (sid_dev dir) k"
  using assms by (rule add_element_store)

theorem kfu_add_element_to_dir_ok_witness:
  "\<exists>fs fs'. filesys_init_root zeros = Some fs \<and> kfu_add_element_to_dir fs SID_ROOT 5 [chr_A] = Some (0, fs')"
proof -
  obtain fs F G tmp dev meta where b: "filesys_init_root zeros = Some fs" "stores fs F"
    "is_directory F SID_ROOT (boot_entries tmp dev)"
    "length (dir_bytes (boot_entries tmp dev)) = 49" "fs_room fs 1 1000" "sid_dev SID_ROOT = 1"
    by (rule boot_state)
  have len: "length (dir_bytes (boot_entries tmp dev @ [(5, [chr_A])])) = 59"
    unfolding length_dir_bytes_add b(4) by simp
  have "fs_room fs (sid_dev SID_ROOT) (2 * new_cores (length (dir_bytes (boot_entries tmp dev @ [(5, [chr_A])]))) + 0)"
    unfolding len b(6) by (rule fs_room_mono [OF b(5)]) (simp add: new_cores_def)
  from kfu_add_element_to_dir_ok [OF b(2,3) _ _ _ this] len b(1) show ?thesis
    by (auto simp: chr_defs cnt_max_def)
qed

text \<open>
  Reading a directory returns its entries, in order, with their names: it inverts the layout,
  so an element that was added is listed.
\<close>

theorem kfu_get_dir_content_ok:
  assumes "stores fs F" and "is_directory F dir es"
  shows "\<exists>fs'. kfu_get_dir_content fs dir want = Some (int (length es), (if want then es else []), fs') \<and>
    stores fs' F \<and> (\<forall>dev k. fs_room fs dev k \<longrightarrow> fs_room fs' dev k)"
  using assms by (rule get_dir_content_store)

theorem kfu_get_dir_content_ok_witness:
  "\<exists>fs tmp dev fs'. filesys_init_root zeros = Some fs \<and>
    kfu_get_dir_content fs SID_ROOT True = Some (4, boot_entries tmp dev, fs')"
proof -
  obtain fs F G tmp dev meta where b: "filesys_init_root zeros = Some fs" "stores fs F"
    "is_directory F SID_ROOT (boot_entries tmp dev)"
    by (rule boot_state)
  show ?thesis
    using kfu_get_dir_content_ok [OF b(2,3), of True] b(1) by auto
qed

text \<open>
  C9.  Every path, from every directory, is resolved part by part in the tree of directories: the
  recursion over the bytes of the path ends and returns the identifier the parts lead to, the null
  identifier when they lead nowhere.  One slash at the start is left out, slashes between two parts count as one;
  a second slash at the start or a slash at the end leaves an empty part, which no entry has.
\<close>

theorem kfu_path_to_sid_ok:
  assumes "tree_of F G" and "stores fs F" and "G from \<noteq> None"
  shows "\<exists>fs'. kfu_path_to_sid fs from path = Some (path_means G from path, fs') \<and> stores fs' F \<and>
    (\<forall>dev k. fs_room fs dev k \<longrightarrow> fs_room fs' dev k)"
  using assms by (rule path_to_sid_means)

theorem kfu_path_to_sid_ok_witness:
  "\<exists>fs fs' fs''. filesys_init_root zeros = Some fs \<and>
    kfu_path_to_sid fs SID_ROOT (chr_slash # bytes_of ''tmp'' @ [chr_slash, chr_slash, chr_dot, chr_dot]) = Some (SID_ROOT, fs') \<and>
    kfu_path_to_sid fs SID_ROOT (chr_slash # bytes_of ''tmp'' @ [chr_slash]) = Some (SID_NULL, fs'')"
proof -
  obtain fs F G tmp dev where b: "filesys_init_root zeros = Some fs" "stores fs F" "tree_of F G"
    "G SID_ROOT = Some (boot_entries tmp dev)" "G tmp = Some [(SID_ROOT, [chr_dot, chr_dot]), (tmp, [chr_dot])]"
    using filesys_init_root_ok [of zeros] by auto
  let ?p = "bytes_of ''tmp'' @ [chr_slash, chr_slash, chr_dot, chr_dot]" and ?q = "bytes_of ''tmp'' @ [chr_slash]"
  have "path_parts ?p = [bytes_of ''tmp'', [chr_dot, chr_dot]]" "path_parts ?q = [bytes_of ''tmp'', []]"
    by (simp_all add: path_parts_def inner_def bytes_of_def chr_defs)
  then have "path_means G SID_ROOT (chr_slash # ?p) = SID_ROOT" "path_means G SID_ROOT (chr_slash # ?q) = SID_NULL"
    using b(4,5) by (simp_all add: path_means_def open_dir_def bytes_of_def chr_defs)
  then show ?thesis
    using kfu_path_to_sid_ok [OF b(3,2), of SID_ROOT "chr_slash # ?p"] kfu_path_to_sid_ok [OF b(3,2), of SID_ROOT "chr_slash # ?q"] b(1,4) by auto
qed

text \<open>
  A file that was created is found under its path, with size 0, and its identifier is not
  that of an existing container.
\<close>

theorem kfu_file_create_lookup:
  assumes "tree_of F G" and "stores fs F" and "G SID_ROOT \<noteq> None" and "\<forall>c\<in>set cs. name_ok c"
    and "G (locate G cs) = Some es" and "es \<noteq> []" and "name_ok name" and "name \<notin> snd ` set es"
    and "grown es name \<le> cnt_max"
    and "fs_room fs (sid_dev (locate G cs)) (2 * new_cores (grown es name) + 2)"
    and "sid_dev (locate G cs) \<noteq> 0"
  shows "\<exists>sid fs1 fs2. kfu_file_create fs (abs_path cs) name = Some (sid, fs1) \<and> sid \<noteq> 0 \<and> F sid = None \<and>
    fs_cnt_get_size fs1 sid = Some 0 \<and> kfu_path_to_sid fs1 SID_ROOT (abs_path (cs @ [name])) = Some (sid, fs2)"
  using assms by (rule file_create_lookup)

theorem kfu_file_create_lookup_witness:
  "\<exists>fs sid fs1 fs2. filesys_init_root zeros = Some fs \<and> kfu_file_create fs [chr_slash] [chr_A] = Some (sid, fs1) \<and>
    kfu_path_to_sid fs1 SID_ROOT [chr_slash, chr_A] = Some (sid, fs2)"
proof -
  obtain fs F G tmp dev meta where b: "filesys_init_root zeros = Some fs" "stores fs F" "tree_of F G"
    "G SID_ROOT = Some (boot_entries tmp dev)"
    "length (dir_bytes (boot_entries tmp dev)) = 49" "fs_room fs 1 1000" "sid_dev SID_ROOT = 1"
    by (rule boot_state)
  have loc: "locate G [] = SID_ROOT"
    by (simp add: locate_def)
  have "fs_room fs (sid_dev (locate G [])) (2 * new_cores (grown (boot_entries tmp dev) [chr_A]) + 2)"
    unfolding loc b(5,7) by (rule fs_room_mono [OF b(6)]) (simp add: new_cores_def)
  moreover have "[chr_A] \<notin> snd ` set (boot_entries tmp dev)" "name_ok [chr_A]"
    by (simp_all add: chr_defs bytes_of_def name_ok_def)
  ultimately show ?thesis
    using kfu_file_create_lookup [OF b(3,2), of "[]" "boot_entries tmp dev" "[chr_A]"] b(1,4,5,7)
    by (auto simp: loc abs_path_def cnt_max_def)
qed

text \<open>
  A new directory: it has the entries \<open>..\<close> and \<open>.\<close>, its parent lists it, and the rest of
  the tree is unchanged.
\<close>

theorem kfu_dir_create_ok:
  assumes "tree_of F G" and "stores fs F" and "G SID_ROOT \<noteq> None" and "\<forall>c\<in>set cs. name_ok c"
    and "G (locate G cs) = Some es" and "name_ok name" and "grown es name \<le> cnt_max"
    and "fs_room fs (sid_dev (locate G cs)) (2 * new_cores (grown es name) + k + 8)"
    and "sid_dev (locate G cs) \<noteq> 0"
  shows "\<exists>sid fs' F'. kfu_dir_create fs 0 (Some (abs_path cs)) name = Some (sid, fs') \<and> F sid = None \<and> sid \<noteq> 0 \<and>
    stores fs' F' \<and> (\<forall>s. s \<noteq> sid \<longrightarrow> s \<noteq> locate G cs \<longrightarrow> F' s = F s) \<and>
    tree_of F' (G(locate G cs \<mapsto> es @ [(sid, name)],
      sid \<mapsto> [(locate G cs, [chr_dot, chr_dot]), (sid, [chr_dot])])) \<and>
    fs_room fs' (sid_dev (locate G cs)) k"
  using dir_create_ok [OF assms] by blast

theorem kfu_dir_create_ok_witness:
  "\<exists>fs sid fs'. filesys_init_root zeros = Some fs \<and> kfu_dir_create fs 0 (Some [chr_slash]) [chr_A] = Some (sid, fs') \<and>
    sid \<noteq> 0"
proof -
  obtain fs F G tmp dev meta where b: "filesys_init_root zeros = Some fs" "stores fs F" "tree_of F G"
    "G SID_ROOT = Some (boot_entries tmp dev)"
    "length (dir_bytes (boot_entries tmp dev)) = 49" "fs_room fs 1 1000" "sid_dev SID_ROOT = 1"
    by (rule boot_state)
  have loc: "locate G [] = SID_ROOT"
    by (simp add: locate_def)
  have "fs_room fs (sid_dev (locate G [])) (2 * new_cores (grown (boot_entries tmp dev) [chr_A]) + 0 + 8)"
    unfolding loc b(5,7) by (rule fs_room_mono [OF b(6)]) (simp add: new_cores_def)
  moreover have "name_ok [chr_A]"
    by (simp add: chr_defs name_ok_def)
  ultimately show ?thesis
    using kfu_dir_create_ok [OF b(3,2), of "[]" "boot_entries tmp dev" "[chr_A]" 0] b(1,4,5,7)
    by (auto simp: loc abs_path_def cnt_max_def)
qed

text \<open>
  The number stored in an AFFT file by \<open>kfu_afft_create\<close> is the one \<open>kfu_afft_get_id\<close>
  returns.
\<close>

theorem kfu_afft_create_get_id:
  assumes "tree_of F G" and "stores fs F" and "G SID_ROOT \<noteq> None" and "\<forall>c\<in>set cs. name_ok c"
    and "G (locate G cs) = Some es" and "name_ok name" and "grown es name \<le> cnt_max"
    and "fs_room fs (sid_dev (locate G cs)) (2 * new_cores (grown es name) + 4)"
    and "sid_dev (locate G cs) \<noteq> 0"
  shows "\<exists>sid fs' fs''. kfu_afft_create fs (abs_path cs) name n = Some (sid, fs') \<and> sid \<noteq> 0 \<and>
    kfu_afft_get_id fs' sid = Some (sint n, fs'')"
  using assms by (rule afft_create_ok)

theorem kfu_afft_create_get_id_witness:
  "\<exists>fs sid fs' fs''. filesys_init_root zeros = Some fs \<and> kfu_afft_create fs [chr_slash] [chr_A] 18 = Some (sid, fs') \<and>
    kfu_afft_get_id fs' sid = Some (18, fs'')"
proof -
  obtain fs F G tmp dev meta where b: "filesys_init_root zeros = Some fs" "stores fs F" "tree_of F G"
    "G SID_ROOT = Some (boot_entries tmp dev)"
    "length (dir_bytes (boot_entries tmp dev)) = 49" "fs_room fs 1 1000" "sid_dev SID_ROOT = 1"
    by (rule boot_state)
  have loc: "locate G [] = SID_ROOT"
    by (simp add: locate_def)
  have "fs_room fs (sid_dev (locate G [])) (2 * new_cores (grown (boot_entries tmp dev) [chr_A]) + 4)"
    unfolding loc b(5,7) by (rule fs_room_mono [OF b(6)]) (simp add: new_cores_def)
  moreover have "name_ok [chr_A]"
    by (simp add: chr_defs name_ok_def)
  ultimately show ?thesis
    using kfu_afft_create_get_id [OF b(3,2), of "[]" "boot_entries tmp dev" "[chr_A]" 18] b(1,4,5,7)
    by (auto simp: loc abs_path_def cnt_max_def)
qed

text \<open>
  The start-up creates the root directory under the identifier \<open>SID_ROOT\<close> the kernel assumes,
  with the subdirectories \<open>tmp\<close> and \<open>dev\<close>, whatever the memory of the new disk holds.
\<close>

theorem filesys_init_root_tree:
  assumes "\<And>n. length (junk n) = FS_SECTOR_SIZE"
  shows "\<exists>fs F G tmp dev. filesys_init_root junk = Some fs \<and> stores fs F \<and> tree_of F G \<and>
    G SID_ROOT = Some (boot_entries tmp dev) \<and>
    G tmp = Some [(SID_ROOT, [chr_dot, chr_dot]), (tmp, [chr_dot])] \<and>
    G dev = Some [(SID_ROOT, [chr_dot, chr_dot]), (dev, [chr_dot])] \<and>
    tmp \<noteq> dev \<and> tmp \<noteq> SID_ROOT \<and> dev \<noteq> SID_ROOT \<and> fs_room fs 1 1000"
  using assms by (rule filesys_init_root_ok)

theorem filesys_init_root_tree_witness:
  "\<exists>fs. filesys_init_root (\<lambda>_. replicate FS_SECTOR_SIZE 3) = Some fs"
  using filesys_init_root_tree [of "\<lambda>_. replicate FS_SECTOR_SIZE 3"] by auto

end
