(* ===== verification/Snowflake.thy ===== *)
theory Snowflake
  imports Prelude
begin

text \<open>
  The physical memory allocator (\<open>snowflake.c\<close>): a linked list of blocks, sorted by address, kept
  in the array \<open>MEM_PARTS\<close>.  The list starts at index 0 and ends at a slot whose state is
  \<open>SNOW_FREE\<close>; all other free slots are not linked.

  Indices are natural numbers, addresses and sizes 32-bit words.  The array is the list \<open>parts\<close>;
  \<open>parts_addr\<close> is where it lies in memory.  \<open>None\<close> is a halt (\<open>sys_fatal\<close>), an access outside the
  array or a walk that does not end.
\<close>

section \<open>State\<close>

record part =
  pnext :: nat
  psize :: u32
  paddr :: u32
  pstate :: byte
  pdir :: u32
  ppid :: int

record snow =
  parts :: "part list"
  parts_addr :: u32
  alloc_count :: u32
  free_count :: u32
  phys_size :: u32
  instance_count :: int

definition PARTS_COUNT :: nat where "PARTS_COUNT = 100"
definition GROW_SIZE :: nat where "GROW_SIZE = 20"
definition PART_BYTES :: nat where "PART_BYTES = 24"
definition MEM_BASE_ADDR :: u32 where "MEM_BASE_ADDR = 0x1FFFFF"

definition SNOW_FREE :: byte where "SNOW_FREE = 0"
definition SNOW_SIMPLE :: byte where "SNOW_SIMPLE = 1"
definition SNOW_SCUBA :: byte where "SNOW_SCUBA = 3"
definition SNOW_ARGS :: byte where "SNOW_ARGS = 5"
definition SNOW_MM :: byte where "SNOW_MM = 6"
definition SNOW_BASE :: byte where "SNOW_BASE = 7"

lemmas snow_states = SNOW_FREE_def SNOW_SIMPLE_def SNOW_SCUBA_def SNOW_ARGS_def SNOW_MM_def SNOW_BASE_def

section \<open>The array\<close>

definition is_free :: "part \<Rightarrow> bool" where
  "is_free p \<longleftrightarrow> pstate p = SNOW_FREE"

definition get_unused_index :: "part list \<Rightarrow> nat option \<Rightarrow> nat option" where
  "get_unused_index ps not_index =
     find (\<lambda>i. is_free (ps ! i) \<and> not_index \<noteq> Some i) [0..<length ps]"

text \<open>\<open>n\<close> is how often the walk may still go on: \<open>count\<close> may not exceed \<open>part_size\<close>.\<close>

fun del_walk :: "part list \<Rightarrow> nat \<Rightarrow> nat \<Rightarrow> nat \<Rightarrow> part list option" where
  "del_walk ps index n i = do {
     p \<leftarrow> rd ps i;
     if is_free p then Some ps
     else if pnext p = index then do {
       u \<leftarrow> get_unused_index ps (Some index);
       Some (ps[i := p\<lparr>pnext := u\<rparr>])
     }
     else case n of 0 \<Rightarrow> None | Suc m \<Rightarrow> del_walk ps index m (pnext p)
   }"

declare del_walk.simps [simp del]

definition del_occurence :: "part list \<Rightarrow> nat \<Rightarrow> part list option" where
  "del_occurence ps index = del_walk ps index (length ps + 1) 0"

section \<open>Allocation\<close>

definition align_gap :: "u32 \<Rightarrow> u32 \<Rightarrow> u32" where
  "align_gap allign last_addr =
     (if allign = 0 then 0 else (allign - (last_addr mod allign)) mod allign)"

text \<open>
  The loop over the list: \<open>n\<close> is \<open>part_size - i\<close>.  The result is \<open>exit_mode\<close>, \<open>index\<close>,
  \<open>old_index\<close>, \<open>last_addr\<close> and \<open>gap\<close>.
\<close>

fun find_place :: "part list \<Rightarrow> u32 \<Rightarrow> u32 \<Rightarrow> u32 \<Rightarrow> nat \<Rightarrow> nat \<Rightarrow> nat \<Rightarrow> u32 \<Rightarrow>
    (nat \<times> nat \<times> nat \<times> u32 \<times> u32) option" where
  "find_place ps phys sz allign 0 index old_index last_addr = None"
| "find_place ps phys sz allign (Suc n) index old_index last_addr = do {
     let gap = align_gap allign last_addr;
     p \<leftarrow> rd ps index;
     if is_free p then
       Some (1 + (if last_addr + sz + gap > phys then 1 else 0), index, old_index, last_addr, gap)
     else if paddr p - last_addr \<ge> sz + gap \<and> last_addr \<noteq> MEM_BASE_ADDR then
       Some (0, index, old_index, last_addr, gap)
     else find_place ps phys sz allign n (pnext p) index (paddr p + psize p)
   }"

text \<open>From the walk on: what \<open>mem_alloc_func\<close> does once the array has room.\<close>

definition alloc_core :: "snow \<Rightarrow> u32 \<Rightarrow> byte \<Rightarrow> u32 \<Rightarrow> int \<Rightarrow> u32 \<Rightarrow> (u32 \<times> snow) option" where
  "alloc_core s sz state allign pid dir = do {
     p0 \<leftarrow> rd (parts s) 0;
     if pstate p0 \<noteq> SNOW_BASE then None
     else do {
       (exit_mode, index, old_index, last_addr, gap) \<leftarrow>
         find_place (parts s) (phys_size s) sz allign (length (parts s)) 0 0 MEM_BASE_ADDR;
       if exit_mode = 2 then Some (0, s)
       else do {
         (new_index, ps) \<leftarrow>
           (if exit_mode \<noteq> 0 then do {
              let ps = (parts s)[index := (parts s ! index)\<lparr>pstate := state\<rparr>];
              u \<leftarrow> get_unused_index ps None;
              Some (index, ps[index := (ps ! index)\<lparr>pnext := u\<rparr>])
            }
            else do {
              new_index \<leftarrow> get_unused_index (parts s) None;
              ps \<leftarrow> del_occurence (parts s) new_index;
              let ps = ps[old_index := (ps ! old_index)\<lparr>pnext := new_index\<rparr>];
              Some (new_index, ps[new_index := (ps ! new_index)\<lparr>pnext := index, pstate := state\<rparr>])
            });
         let ps = ps[new_index := (ps ! new_index)\<lparr>paddr := last_addr + gap, psize := sz, ppid := pid, pdir := dir\<rparr>];
         Some (last_addr + gap, s\<lparr>parts := ps, alloc_count := alloc_count s + 1\<rparr>)
       }
     }
   }"

section \<open>Freeing\<close>

text \<open>The walk of \<open>mem_free_addr\<close>: the slot before and the slot found, when there is one.\<close>

partial_function (option) free_walk :: "part list \<Rightarrow> u32 \<Rightarrow> nat option \<Rightarrow> nat \<Rightarrow> (nat \<times> nat) option option" where
  "free_walk ps addr last_index index = do {
     p \<leftarrow> rd ps index;
     if is_free p then Some None
     else case last_index of
       None \<Rightarrow> free_walk ps addr (Some index) (pnext p)
     | Some l \<Rightarrow> if paddr p = addr then Some (Some (l, index))
                 else free_walk ps addr (Some index) (pnext p)
   }"

definition mem_free_addr :: "snow \<Rightarrow> u32 \<Rightarrow> (int \<times> snow) option" where
  "mem_free_addr s addr =
     (if instance_count s + 1 > 1 then None
      else do {
        found \<leftarrow> free_walk (parts s) addr None 0;
        case found of None \<Rightarrow> Some (1, s)
        | Some (l, index) \<Rightarrow>
            if pstate (parts s ! index) = SNOW_BASE then Some (1, s)
            else do {
              let ps = (parts s)[l := (parts s ! l)\<lparr>pnext := pnext (parts s ! index)\<rparr>];
              Some (0, s\<lparr>parts := ps[index := (ps ! index)\<lparr>pstate := SNOW_FREE\<rparr>],
                         free_count := free_count s + 1\<rparr>)
            }
      })"

section \<open>The array grows\<close>

definition zero_part :: part where
  "zero_part = \<lparr>pnext = 0, psize = 0, paddr = 0, pstate = 0, pdir = 0, ppid = 0\<rparr>"

text \<open>
  The new array is allocated with the old one still in use; its memory is zeroed and the old
  entries copied, then the old one is freed.
\<close>

definition dynamize_mem :: "snow \<Rightarrow> snow option" where
  "dynamize_mem s =
     (if length (filter is_free (parts s)) > 4 then Some s
      else do {
        let part_size = length (parts s);
        if instance_count s > 1 then None
        else do {
          (new_add, s) \<leftarrow> alloc_core s (word_of_nat (PART_BYTES * (part_size + GROW_SIZE))) SNOW_MM 0 0 0;
          if new_add = 0 then None
          else do {
            let old_addr = parts_addr s;
            let s = s\<lparr>parts := parts s @ replicate GROW_SIZE zero_part, parts_addr := new_add\<rparr>;
            (_, s) \<leftarrow> mem_free_addr s old_addr;
            Some s
          }
        }
      })"

definition mem_alloc_func :: "snow \<Rightarrow> u32 \<Rightarrow> byte \<Rightarrow> u32 \<Rightarrow> int \<Rightarrow> u32 \<Rightarrow> (u32 \<times> snow) option" where
  "mem_alloc_func s sz state allign pid dir =
     (if sz = 0 \<or> state = SNOW_FREE then Some (0, s)
      else if state = SNOW_MM then
        (if instance_count s > 1 then None else alloc_core s sz state allign pid dir)
      else do {
        s \<leftarrow> dynamize_mem s;
        let s = s\<lparr>instance_count := instance_count s + 1\<rparr>;
        if instance_count s > 1 then None
        else do {
          (r, s) \<leftarrow> alloc_core s sz state allign pid dir;
          Some (r, s\<lparr>instance_count := instance_count s - 1\<rparr>)
        }
      })"

text \<open>\<open>cur_pid\<close> is the result of \<open>process_get_pid()\<close>.\<close>

definition mem_alloc :: "int \<Rightarrow> snow \<Rightarrow> u32 \<Rightarrow> byte \<Rightarrow> u32 \<Rightarrow> (u32 \<times> snow) option" where
  "mem_alloc cur_pid s sz state allign =
     (if state = SNOW_BASE \<or> state = SNOW_SCUBA then Some (0, s)
      else let (pid, allign) =
             (if state = SNOW_SIMPLE then (cur_pid, allign)
              else if state = SNOW_ARGS then (if allign \<noteq> 0 then sint allign else cur_pid, 0)
              else (0, allign))
           in mem_alloc_func s sz state allign pid 0)"

definition mem_alloc_dir :: "snow \<Rightarrow> u32 \<Rightarrow> u32 \<Rightarrow> int \<Rightarrow> u32 \<Rightarrow> (u32 \<times> snow) option" where
  "mem_alloc_dir s sz allign pid dir = mem_alloc_func s sz SNOW_SCUBA allign pid dir"

text \<open>
  \<open>mem_init\<close>, with the physical size already read and bounded; the contents of the array before
  it are \<open>junk\<close>.  \<open>diskiso\<close> is the size of the disk image, 0 when there is none, and \<open>start\<close>
  where it lies.
\<close>

definition mem_init :: "part list \<Rightarrow> u32 \<Rightarrow> u32 \<Rightarrow> u32 \<Rightarrow> int \<Rightarrow> snow option" where
  "mem_init junk phys diskiso start cur_pid = do {
     let p0 = \<lparr>pnext = 1, psize = 1, paddr = MEM_BASE_ADDR, pstate = SNOW_BASE, pdir = 0, ppid = 0\<rparr>;
     let ps = p0 # map (\<lambda>p. p\<lparr>pstate := SNOW_FREE\<rparr>) (take (PARTS_COUNT - 1) junk);
     let s = \<lparr>parts = ps, parts_addr = MEM_BASE_ADDR + 1, alloc_count = 0, free_count = 0, phys_size = phys,
              instance_count = 0\<rparr>;
     (a, s) \<leftarrow> mem_alloc cur_pid s (word_of_nat (PART_BYTES * PARTS_COUNT)) SNOW_MM 0;
     if a \<noteq> parts_addr s then None
     else if diskiso = 0 then Some s
     else do {
       (a, s) \<leftarrow> mem_alloc cur_pid s diskiso SNOW_SIMPLE 0;
       if a \<noteq> start then None else Some s
     }
   }"

section \<open>Walks over the list\<close>

partial_function (option) free_all_loop ::
  "snow \<Rightarrow> (part \<Rightarrow> bool) \<Rightarrow> nat \<Rightarrow> int \<Rightarrow> (int \<times> snow) option" where
  "free_all_loop s match index count = do {
     p \<leftarrow> rd (parts s) index;
     if is_free p then Some (count, s)
     else do {
       (count, s) \<leftarrow> (if match p then do {
            (r, s) \<leftarrow> mem_free_addr s (paddr p);
            Some (if r = 0 then count + 1 else count, s)
          } else Some (count, s));
       p \<leftarrow> rd (parts s) index;
       free_all_loop s match (pnext p) count
     }
   }"

definition mem_free_all :: "snow \<Rightarrow> int \<Rightarrow> byte \<Rightarrow> (int \<times> snow) option" where
  "mem_free_all s pid state =
     (if pid = 0 then Some (-1, s)
      else free_all_loop s (\<lambda>p. ppid p = pid \<and>
             (state = 0 \<and> pstate p \<noteq> SNOW_SCUBA \<or> pstate p = state)) 0 0)"

definition mem_free_dir :: "snow \<Rightarrow> u32 \<Rightarrow> (int \<times> snow) option" where
  "mem_free_dir s dir = free_all_loop s (\<lambda>p. pdir p = dir) 0 0"

partial_function (option) fetch_walk :: "part list \<Rightarrow> u32 \<Rightarrow> nat \<Rightarrow> nat option option" where
  "fetch_walk ps addr index = do {
     p \<leftarrow> rd ps index;
     if is_free p then Some None
     else if paddr p \<noteq> addr then fetch_walk ps addr (pnext p)
     else Some (Some index)
   }"

definition mem_alloc_fetch :: "snow \<Rightarrow> u32 \<Rightarrow> int \<Rightarrow> (int \<times> snow) option" where
  "mem_alloc_fetch s addr arg = do {
     found \<leftarrow> fetch_walk (parts s) addr 0;
     case found of None \<Rightarrow> Some (-1, s)
     | Some index \<Rightarrow>
         let p = parts s ! index in
         if arg = 0 then Some (sint (psize p), s)
         else if pstate p \<noteq> SNOW_SIMPLE \<and> pstate p \<noteq> SNOW_ARGS then Some (-1, s)
         else Some (0, s\<lparr>parts := (parts s)[index := p\<lparr>ppid := arg\<rparr>]\<rparr>)
   }"

partial_function (option) info_walk :: "part list \<Rightarrow> (part \<Rightarrow> bool) \<Rightarrow> nat \<Rightarrow> u32 \<Rightarrow> u32 \<Rightarrow> (u32 \<times> u32) option" where
  "info_walk ps match index count sz = do {
     p \<leftarrow> rd ps index;
     if is_free p then Some (count, sz)
     else if match p then info_walk ps match (pnext p) (count + 1) (sz + psize p)
     else info_walk ps match (pnext p) count sz
   }"

definition mem_get_info :: "snow \<Rightarrow> nat \<Rightarrow> int \<Rightarrow> u32 option" where
  "mem_get_info s get_mode get_arg =
     (if get_mode = 0 then Some (phys_size s)
      else if get_mode = 1 then Some MEM_BASE_ADDR
      else if get_mode = 2 then Some (word_of_nat (PART_BYTES * length (parts s)))
      else if get_mode = 3 then Some (parts_addr s)
      else if get_mode = 4 then Some (alloc_count s)
      else if get_mode = 5 then Some (free_count s)
      else if get_mode = 6 then map_option snd (info_walk (parts s) (\<lambda>_. True) 0 0 0)
      else if get_mode = 7 then
        map_option fst (info_walk (parts s) (\<lambda>p. ppid p = get_arg \<and> pstate p = SNOW_SIMPLE) 0 0 0)
      else if get_mode = 8 then
        map_option snd (info_walk (parts s) (\<lambda>p. ppid p = get_arg \<and> pstate p = SNOW_SIMPLE) 0 0 0)
      else if get_mode = 9 then map_option fst (info_walk (parts s) (\<lambda>p. uint (pstate p) = get_arg) 0 0 0)
      else if get_mode = 10 then map_option snd (info_walk (parts s) (\<lambda>p. uint (pstate p) = get_arg) 0 0 0)
      else if get_mode = 11 then map_option fst (info_walk (parts s) (\<lambda>p. ppid p = get_arg) 0 0 0)
      else if get_mode = 12 then map_option snd (info_walk (parts s) (\<lambda>p. ppid p = get_arg) 0 0 0)
      else Some (-1))"

section \<open>The invariant\<close>

text \<open>\<open>plist ps i js t\<close>: the links lead from slot \<open>i\<close> through the used slots \<open>js\<close> to slot \<open>t\<close>.\<close>

fun plist :: "part list \<Rightarrow> nat \<Rightarrow> nat list \<Rightarrow> nat \<Rightarrow> bool" where
  "plist ps i [] t \<longleftrightarrow> i = t"
| "plist ps i (j # js) t \<longleftrightarrow> i = j \<and> j < length ps \<and> \<not> is_free (ps ! j) \<and> plist ps (pnext (ps ! j)) js t"

definition pend :: "part \<Rightarrow> nat" where
  "pend p = unat (paddr p) + unat (psize p)"

text \<open>A block is a slot without its link.\<close>

definition blk :: "part \<Rightarrow> part" where
  "blk p = p\<lparr>pnext := 0\<rparr>"

lemma blk_fields [simp]: "paddr (blk p) = paddr p" "psize (blk p) = psize p" "pstate (blk p) = pstate p"
  "ppid (blk p) = ppid p" "pdir (blk p) = pdir p" "pend (blk p) = pend p" "is_free (blk p) = is_free p"
  "blk (p\<lparr>pnext := n\<rparr>) = blk p"
  by (simp_all add: blk_def pend_def is_free_def)

text \<open>The blocks in the order of the list: first the base block, then by address, without overlap.\<close>

definition blocks_ok :: "u32 \<Rightarrow> part list \<Rightarrow> bool" where
  "blocks_ok phys bs \<longleftrightarrow> bs \<noteq> [] \<and> paddr (hd bs) = MEM_BASE_ADDR \<and> pstate (hd bs) = SNOW_BASE \<and>
     sorted_wrt (\<lambda>p q. pend p \<le> unat (paddr q)) bs \<and> (\<forall>b\<in>set bs. psize b \<noteq> 0 \<and> pend b \<le> unat phys) \<and>
     (\<forall>b\<in>set (tl bs). pstate b \<noteq> SNOW_BASE)"

definition slots :: "part list \<Rightarrow> nat list \<Rightarrow> nat \<Rightarrow> bool" where
  "slots ps js t \<longleftrightarrow> plist ps 0 js t \<and> t < length ps \<and> is_free (ps ! t) \<and> distinct js"

definition free_slots :: "part list \<Rightarrow> nat" where
  "free_slots ps = length (filter is_free ps)"

abbreviation blocks_at :: "part list \<Rightarrow> nat list \<Rightarrow> part list" where
  "blocks_at ps js \<equiv> map (\<lambda>j. blk (ps ! j)) js"

text \<open>
  \<open>has_blocks s n bs\<close>: the state \<open>s\<close> is well-formed, \<open>n\<close> of its slots are free and \<open>bs\<close> are its
  blocks.  The bound on the physical memory is \<open>SCUBA_MAP_MAX\<close>.
\<close>

definition has_blocks :: "snow \<Rightarrow> nat \<Rightarrow> part list \<Rightarrow> bool" where
  "has_blocks s n bs \<longleftrightarrow> (\<exists>js t. slots (parts s) js t \<and> bs = blocks_at (parts s) js) \<and>
     blocks_ok (phys_size s) bs \<and> free_slots (parts s) = n \<and> unat (phys_size s) \<le> 2 ^ 28"

section \<open>Links\<close>

lemma plist_append: "plist ps i (xs @ ys) t \<longleftrightarrow> (\<exists>k. plist ps i xs k \<and> plist ps k ys t)"
  by (induction xs arbitrary: i) auto

lemma plist_frame: "j \<notin> set xs \<Longrightarrow> plist (ps[j := p]) i xs k = plist ps i xs k"
  by (induction xs arbitrary: i) auto

lemma plist_snoc: "plist ps i (xs @ [j]) t \<longleftrightarrow> plist ps i xs j \<and> j < length ps \<and> \<not> is_free (ps ! j) \<and> pnext (ps ! j) = t"
  by (auto simp: plist_append)

lemma plist_relink:
  assumes "plist ps i (xs @ [j]) t" and "j \<notin> set xs"
  shows "plist (ps[j := (ps ! j)\<lparr>pnext := t'\<rparr>]) i (xs @ [j]) t'"
  using assms by (auto simp: plist_snoc plist_frame is_free_def)

lemma plist_used: "plist ps i xs t \<Longrightarrow> j \<in> set xs \<Longrightarrow> j < length ps \<and> \<not> is_free (ps ! j)"
  by (induction xs arbitrary: i) auto

lemma plist_hd: "plist ps i xs t \<Longrightarrow> i = hd (xs @ [t])"
  by (cases xs) auto

lemma plist_append_same: "plist ps i xs t \<Longrightarrow> plist (ps @ qs) i xs t"
  by (induction xs arbitrary: i) (auto simp: nth_append)

lemma blocks_at_frame: "j \<notin> set js \<Longrightarrow> blocks_at (ps[j := p]) js = blocks_at ps js"
  by (auto intro!: arg_cong [where f = blk] nth_list_update_neq)

lemma blocks_at_relink: "blocks_at (ps[j := (ps ! j)\<lparr>pnext := n\<rparr>]) js = blocks_at ps js"
  by (cases "j < length ps") (auto simp: nth_list_update list_update_beyond)

lemma get_unused_Some:
  assumes "get_unused_index ps skip = Some u"
  shows "u < length ps" "is_free (ps ! u)" "skip \<noteq> Some u"
proof -
  from assms obtain i where i: "i < length [0..<length ps]"
    "is_free (ps ! ([0..<length ps] ! i)) \<and> skip \<noteq> Some ([0..<length ps] ! i)" "u = [0..<length ps] ! i"
    unfolding get_unused_index_def find_Some_iff by blast
  then show "u < length ps" "is_free (ps ! u)" "skip \<noteq> Some u"
    by simp_all
qed

lemma get_unused_ex:
  assumes "2 \<le> free_slots ps"
  obtains u where "get_unused_index ps skip = Some u"
proof (cases "get_unused_index ps skip")
  case None
  then have "\<forall>i<length ps. is_free (ps ! i) \<longrightarrow> skip = Some i"
    by (auto simp: get_unused_index_def find_None_iff)
  then have "{i. i < length ps \<and> is_free (ps ! i)} \<subseteq> (case skip of None \<Rightarrow> {} | Some k \<Rightarrow> {k})"
    by auto
  moreover have "finite (case skip of None \<Rightarrow> {} | Some k \<Rightarrow> {k})" "card (case skip of None \<Rightarrow> {} | Some k \<Rightarrow> {k}) \<le> 1"
    by (cases skip; simp)+
  ultimately have "card {i. i < length ps \<and> is_free (ps ! i)} \<le> 1"
    using card_mono le_trans by blast
  then show ?thesis
    using assms by (simp add: free_slots_def length_filter_conv_card)
qed (use that in blast)

lemma get_unused_one: "is_free (ps ! i) \<Longrightarrow> i < length ps \<Longrightarrow> \<exists>u. get_unused_index ps None = Some u"
  by (cases "get_unused_index ps None") (auto simp: get_unused_index_def find_None_iff)

lemma free_slots_update:
  assumes "i < length ps"
  shows "free_slots (ps[i := p]) + (if is_free (ps ! i) then 1 else 0) =
    free_slots ps + (if is_free p then 1 else 0)"
  using assms
proof (induction ps arbitrary: i)
  case (Cons q ps)
  then show ?case
    by (cases i) (auto simp: free_slots_def split: if_splits)
qed simp

lemma free_slots_relink: "free_slots (ps[i := (ps ! i)\<lparr>pnext := n\<rparr>]) = free_slots ps"
  using free_slots_update [of i ps "(ps ! i)\<lparr>pnext := n\<rparr>"]
  by (cases "i < length ps") (auto simp: is_free_def list_update_beyond split: if_splits)

lemma del_walk_ok:
  assumes "plist ps i (js @ [j]) t" and "length js < n" and "t < length ps" and "is_free (ps ! t)"
    and "ni \<notin> set (js @ [j])" and "distinct (js @ [j])" and "2 \<le> free_slots ps"
  shows "if ni = t then \<exists>u. del_walk ps ni n i = Some (ps[j := (ps ! j)\<lparr>pnext := u\<rparr>]) \<and> u < length ps \<and> is_free (ps ! u) \<and> u \<noteq> ni
    else del_walk ps ni n i = Some ps"
  using assms(1,2,5,6)
proof (induction js arbitrary: i n)
  case Nil
  then have j: "i = j" "j < length ps" "\<not> is_free (ps ! j)" "pnext (ps ! j) = t"
    by auto
  obtain m where n: "n = Suc m"
    using Nil.prems(2) by (cases n) auto
  obtain u where u: "get_unused_index ps (Some t) = Some u"
    using get_unused_ex [OF assms(7)] .
  show ?case
    using j n u get_unused_Some [OF u] assms(3,4) by (auto simp: del_walk.simps)
next
  case (Cons x js)
  obtain m where n: "n = Suc m"
    using Cons.prems(2) by (cases n) auto
  have x: "i = x" "x < length ps" "\<not> is_free (ps ! x)" "plist ps (pnext (ps ! x)) (js @ [j]) t"
    using Cons.prems(1) by auto
  have "pnext (ps ! x) = hd ((js @ [j]) @ [t])"
    using plist_hd [OF x(4)] .
  then have "pnext (ps ! x) \<noteq> ni"
    using Cons.prems(3) by (cases js) auto
  then have "del_walk ps ni n i = del_walk ps ni m (pnext (ps ! x))"
    using x(1-3) n by (simp add: del_walk.simps [of ps ni "Suc m"])
  then show ?case
    using Cons.IH [OF x(4)] Cons.prems n by auto
qed

lemma length_plist:
  assumes "slots ps js t"
  shows "length js < length ps"
proof -
  have "set js \<subseteq> {0..<length ps} - {t}"
    using assms plist_used [of ps 0 js t] by (auto simp: slots_def)
  then have "card (set js) \<le> length ps - 1"
    using card_mono [of "{0..<length ps} - {t}" "set js"] assms by (simp add: slots_def)
  then show ?thesis
    using assms by (auto simp: slots_def distinct_card)
qed

section \<open>Finding a place\<close>

definition slot_end :: "part list \<Rightarrow> nat \<Rightarrow> u32" where
  "slot_end ps i = paddr (ps ! i) + psize (ps ! i)"

definition fits :: "part list \<Rightarrow> u32 \<Rightarrow> u32 \<Rightarrow> nat \<Rightarrow> nat \<Rightarrow> bool" where
  "fits ps sz a p q \<longleftrightarrow> sz + align_gap a (slot_end ps p) \<le> paddr (ps ! q) - slot_end ps p \<and>
     slot_end ps p \<noteq> MEM_BASE_ADDR"

text \<open>The walk stops at the first hole that fits: no two consecutive slots before it leave one.\<close>

lemma find_place_ok:
  assumes "plist ps i suf t" and "t < length ps" and "is_free (ps ! t)" and "length suf < n"
  shows "\<exists>pre suf'. suf = pre @ suf' \<and>
    find_place ps phys sz a n i old (slot_end ps old) =
      Some (if suf' = [] then 1 + (if slot_end ps (last (old # pre)) + sz +
                                align_gap a (slot_end ps (last (old # pre))) > phys then 1 else 0) else 0,
            hd (suf' @ [t]), last (old # pre), slot_end ps (last (old # pre)),
            align_gap a (slot_end ps (last (old # pre)))) \<and>
    (suf' \<noteq> [] \<longrightarrow> fits ps sz a (last (old # pre)) (hd suf')) \<and>
    successively (\<lambda>p q. \<not> fits ps sz a p q) (old # pre)"
  using assms(1,4)
proof (induction suf arbitrary: i n old)
  case Nil
  then obtain m where "n = Suc m"
    by (cases n) auto
  then show ?case
    using Nil assms(2,3) by (simp add: Let_def)
next
  case (Cons x suf)
  obtain m where n: "n = Suc m"
    using Cons.prems(2) by (cases n) auto
  have x: "i = x" "x < length ps" "\<not> is_free (ps ! x)" "plist ps (pnext (ps ! x)) suf t"
    using Cons.prems(1) by auto
  show ?case
  proof (cases "fits ps sz a old x")
    case True
    then show ?thesis
      using x n by (intro exI [of _ "[]"] exI [of _ "x # suf"]) (simp add: fits_def Let_def)
  next
    case False
    have step: "find_place ps phys sz a n i old (slot_end ps old) =
        find_place ps phys sz a m (pnext (ps ! x)) x (slot_end ps x)"
      using False x(1-3) n by (auto simp: fits_def Let_def slot_end_def)
    obtain pre suf' where IH: "suf = pre @ suf'"
      "find_place ps phys sz a m (pnext (ps ! x)) x (slot_end ps x) =
        Some (if suf' = [] then 1 + (if slot_end ps (last (x # pre)) + sz +
                                  align_gap a (slot_end ps (last (x # pre))) > phys then 1 else 0) else 0,
              hd (suf' @ [t]), last (x # pre), slot_end ps (last (x # pre)),
              align_gap a (slot_end ps (last (x # pre))))"
      "suf' \<noteq> [] \<longrightarrow> fits ps sz a (last (x # pre)) (hd suf')"
      "successively (\<lambda>p q. \<not> fits ps sz a p q) (x # pre)"
      using Cons.IH [OF x(4), of m x] Cons.prems(2) n by auto
    have l: "last (old # x # pre) = last (x # pre)" "x # suf = (x # pre) @ suf'"
      "successively (\<lambda>p q. \<not> fits ps sz a p q) (old # x # pre)"
      using IH(1,4) False by simp_all
    show ?thesis
      using l step IH(2,3) by (intro exI [of _ "x # pre"] exI [of _ suf'] conjI) (simp_all only:)
  qed
qed

section \<open>Changing the list\<close>

lemma slots_extend:
  assumes "slots ps js t" and "u < length ps" and "is_free (ps ! u)" and "u \<noteq> t"
    and "\<not> is_free p" and "pnext p = u"
  shows "slots (ps[t := p]) (js @ [t]) u" "blocks_at (ps[t := p]) (js @ [t]) = blocks_at ps js @ [blk p]"
    "free_slots (ps[t := p]) = free_slots ps - 1"
proof -
  have t: "t < length ps" "is_free (ps ! t)" "t \<notin> set js"
    using assms(1) plist_used [of ps 0 js t] by (auto simp: slots_def)
  then show "slots (ps[t := p]) (js @ [t]) u"
    using assms by (auto simp: slots_def plist_snoc plist_frame)
  show "blocks_at (ps[t := p]) (js @ [t]) = blocks_at ps js @ [blk p]"
    using t blocks_at_frame [OF t(3)] by simp
  show "free_slots (ps[t := p]) = free_slots ps - 1"
    using free_slots_update [OF t(1), of p] t assms(5) by simp
qed

lemma slots_insert:
  assumes "slots ps (xs @ l # ys) t" and "u < length ps" and "is_free (ps ! u)" and "u \<noteq> t"
    and "\<not> is_free p" and "pnext p = hd (ys @ [t])"
  defines "ps' \<equiv> ps[l := (ps ! l)\<lparr>pnext := u\<rparr>, u := p]"
  shows "slots ps' (xs @ l # u # ys) t"
    "blocks_at ps' (xs @ l # u # ys) = blocks_at ps (xs @ [l]) @ blk p # blocks_at ps ys"
    "free_slots ps' = free_slots ps - 1"
proof -
  have P: "plist ps 0 (xs @ [l]) (pnext (ps ! l))" "plist ps (pnext (ps ! l)) ys t"
    using assms(1) by (auto simp: slots_def plist_append)
  have d: "distinct (xs @ l # ys)" "t < length ps" "is_free (ps ! t)"
    using assms(1) by (auto simp: slots_def)
  have u: "u \<notin> set (xs @ l # ys)" "t \<notin> set (xs @ l # ys)" and l: "l < length ps" "\<not> is_free (ps ! l)"
    using assms(1,3) plist_used [of ps 0 "xs @ l # ys" t] d(3) by (auto simp: slots_def)
  let ?ps = "ps[l := (ps ! l)\<lparr>pnext := u\<rparr>]"
  have "plist ?ps 0 (xs @ [l]) u"
    using plist_relink [OF P(1)] d by auto
  then have 1: "plist ps' 0 (xs @ [l]) u"
    unfolding ps'_def using u(1) by (subst plist_frame) auto
  have 2: "plist ps' (pnext (ps ! l)) ys t"
    unfolding ps'_def using u(1) d(1) P(2) by (simp add: plist_frame)
  have u': "ps' ! u = p" "length ps' = length ps" "ps' ! t = ps ! t"
    using assms(2,4) u(2) by (auto simp: ps'_def nth_list_update)
  have "pnext (ps ! l) = hd (ys @ [t])"
    using plist_hd [OF P(2)] .
  then have "plist ps' u (u # ys) t"
    using 2 u' assms(2,5,6) by simp
  then have "plist ps' 0 ((xs @ [l]) @ u # ys) t"
    using 1 plist_append by blast
  then show "slots ps' (xs @ l # u # ys) t"
    using d u u' by (auto simp: slots_def)
  have b: "blocks_at ps' zs = blocks_at ps zs" if "set zs \<subseteq> set (xs @ l # ys)" for zs
    unfolding ps'_def using u(1) that blocks_at_frame [of u zs] blocks_at_relink [of ps l] by (metis subsetD)
  have "blocks_at ps' (xs @ [l]) = blocks_at ps (xs @ [l])" "blocks_at ps' ys = blocks_at ps ys"
    by (rule b [of "xs @ [l]"], fastforce) (rule b [of ys], auto)
  then show "blocks_at ps' (xs @ l # u # ys) = blocks_at ps (xs @ [l]) @ blk p # blocks_at ps ys"
    using u'(1) by simp
  have "free_slots ps' = free_slots ?ps - 1"
    using free_slots_update [of u ?ps p] assms(2,3,5) l u(1) by (auto simp: ps'_def nth_list_update)
  then show "free_slots ps' = free_slots ps - 1"
    by (simp add: free_slots_relink)
qed

lemma slots_remove:
  assumes "slots ps (xs @ l # j # ys) t" and "is_free p" and "pnext (ps ! j) = k"
  defines "ps' \<equiv> ps[l := (ps ! l)\<lparr>pnext := k\<rparr>, j := p]"
  shows "slots ps' (xs @ l # ys) t" "blocks_at ps' (xs @ l # ys) = blocks_at ps (xs @ l # ys)"
    "free_slots ps' = free_slots ps + 1"
proof -
  have P: "plist ps 0 (xs @ [l]) j" "plist ps k ys t"
    using assms(1,3) by (auto simp: slots_def plist_append)
  have d: "distinct (xs @ l # j # ys)" "t < length ps" "is_free (ps ! t)"
    using assms(1) by (auto simp: slots_def)
  have j: "j < length ps" "\<not> is_free (ps ! j)" "l < length ps" "\<not> is_free (ps ! l)" "t \<notin> set (xs @ l # j # ys)"
    using assms(1) plist_used [of ps 0 "xs @ l # j # ys" t] d(3) by (auto simp: slots_def)
  let ?ps = "ps[l := (ps ! l)\<lparr>pnext := k\<rparr>]"
  have "plist ?ps 0 (xs @ [l]) k"
    using plist_relink [OF P(1)] d by auto
  then have 1: "plist ps' 0 (xs @ [l]) k"
    unfolding ps'_def using d(1) by (subst plist_frame) auto
  have 2: "plist ps' k ys t"
    unfolding ps'_def using d(1) P(2) by (simp add: plist_frame)
  have "plist ps' 0 ((xs @ [l]) @ ys) t"
    using 1 2 plist_append by blast
  moreover have "length ps' = length ps" "ps' ! t = ps ! t"
    using j(5) by (auto simp: ps'_def nth_list_update)
  ultimately show "slots ps' (xs @ l # ys) t"
    using d by (auto simp: slots_def)
  have j': "j \<notin> set (xs @ l # ys)"
    using d(1) by auto
  show "blocks_at ps' (xs @ l # ys) = blocks_at ps (xs @ l # ys)"
    unfolding ps'_def by (simp only: blocks_at_frame [OF j'] blocks_at_relink)
  have "free_slots ps' = free_slots ?ps + 1"
    using free_slots_update [of j ?ps p] assms(2) j d(1) by (auto simp: ps'_def nth_list_update)
  then show "free_slots ps' = free_slots ps + 1"
    by (simp add: free_slots_relink)
qed

lemma del_occurence_ok:
  assumes "slots ps js t" and "js \<noteq> []" and "u < length ps" and "is_free (ps ! u)" and "2 \<le> free_slots ps"
  obtains ps' t' where "del_occurence ps u = Some ps'" "slots ps' js t'" "t' \<noteq> u" "is_free (ps' ! u)"
    "length ps' = length ps" "blocks_at ps' js = blocks_at ps js" "free_slots ps' = free_slots ps"
    "\<And>i. pstate (ps' ! i) = pstate (ps ! i)"
proof -
  obtain xs j where js: "js = xs @ [j]"
    using assms(2) by (cases js rule: rev_cases) auto
  have t: "plist ps 0 (xs @ [j]) t" "t < length ps" "is_free (ps ! t)" "distinct (xs @ [j])"
    using assms(1) js by (auto simp: slots_def)
  have u: "u \<notin> set (xs @ [j])"
    using assms(4) plist_used [OF t(1)] by auto
  have j: "j < length ps" "\<not> is_free (ps ! j)"
    using plist_used [OF t(1)] by auto
  have n: "length xs < length ps + 1"
    using length_plist [OF assms(1)] js by simp
  note W = del_walk_ok [OF t(1) n t(2,3) u t(4) assms(5)]
  show thesis
  proof (cases "u = t")
    case False
    then show thesis
      using W assms(1,4) that [of ps t] by (simp add: del_occurence_def)
  next
    case True
    then obtain v where v: "del_occurence ps u = Some (ps[j := (ps ! j)\<lparr>pnext := v\<rparr>])" "v < length ps"
      "is_free (ps ! v)" "v \<noteq> u"
      using W by (auto simp: del_occurence_def)
    have uj: "u \<noteq> j" "v \<noteq> j"
      using u v(3) j(2) by auto
    have "slots (ps[j := (ps ! j)\<lparr>pnext := v\<rparr>]) js v"
      using plist_relink [OF t(1), of v] t(4) js v uj by (simp add: slots_def)
    then show thesis
      using v uj j(1) assms(4) blocks_at_relink [of ps j v js]
      by (intro that [of "ps[j := (ps ! j)\<lparr>pnext := v\<rparr>]" v])
        (auto simp: free_slots_relink nth_list_update list_update_beyond)
  qed
qed

section \<open>Blocks\<close>

lemma pend_le: "unat (paddr p) \<le> pend p"
  by (simp add: pend_def)

lemma blocks_ok_insert:
  assumes "blocks_ok phys (pre @ suf)" and "pre \<noteq> []" and "pend (last pre) \<le> unat (paddr b)"
    and "suf \<noteq> [] \<Longrightarrow> pend b \<le> unat (paddr (hd suf))" and "psize b \<noteq> 0" and "pend b \<le> unat phys"
    and "pstate b \<noteq> SNOW_BASE"
  shows "blocks_ok phys (pre @ b # suf)"
proof -
  obtain pre' l where pre: "pre = pre' @ [l]"
    using assms(2) by (cases pre rule: rev_cases) auto
  have S: "sorted_wrt (\<lambda>p q. pend p \<le> unat (paddr q)) (pre @ suf)"
    using assms(1) by (simp add: blocks_ok_def)
  have 1: "pend p \<le> unat (paddr b)" if "p \<in> set pre" for p
    using that S assms(3) pend_le [of l] by (auto simp: pre sorted_wrt_append intro: le_trans)
  have 2: "pend b \<le> unat (paddr q)" if "q \<in> set suf" for q
  proof -
    obtain h suf' where suf: "suf = h # suf'"
      using \<open>q \<in> set suf\<close> by (cases suf) auto
    then show ?thesis
      using S assms(4) pend_le [of h] \<open>q \<in> set suf\<close> by (auto simp: sorted_wrt_append intro: le_trans)
  qed
  have "sorted_wrt (\<lambda>p q. pend p \<le> unat (paddr q)) (pre @ b # suf)"
    using S 1 2 by (auto simp: sorted_wrt_append)
  then show ?thesis
    using assms(1,2,5-7) by (auto simp: blocks_ok_def hd_append tl_append split: list.splits)
qed

lemma blocks_ok_remove:
  assumes "blocks_ok phys (pre @ b # suf)" and "pre \<noteq> []"
  shows "blocks_ok phys (pre @ suf)"
  using assms by (auto simp: blocks_ok_def hd_append tl_append sorted_wrt_append split: list.splits)

lemma align_gap_less: "a \<noteq> 0 \<Longrightarrow> align_gap a l < a"
  by (simp add: align_gap_def word_mod_less_divisor word_gt_0)

lemma align_gap_le: "unat (align_gap a l) \<le> unat a"
  using align_gap_less [of a l] by (cases "a = 0") (auto simp: align_gap_def word_less_nat_alt)

lemma align_gap_dvd:
  assumes "a \<noteq> 0"
  shows "unat a dvd unat l + unat (align_gap a l)"
proof -
  define m where "m = unat l mod unat a"
  have a: "0 < unat a"
    using assms by (simp add: unat_gt_0)
  then have m: "m < unat a"
    by (simp add: m_def)
  have "unat (a - l mod a) = unat a - m"
    using m by (subst unat_sub) (simp_all add: word_le_nat_alt unat_mod m_def less_imp_le)
  then have g: "unat (align_gap a l) = (unat a - m) mod unat a"
    using assms by (simp add: align_gap_def unat_mod)
  have "(unat l + (unat a - m) mod unat a) mod unat a = (m + (unat a - m)) mod unat a"
    unfolding m_def by (metis mod_add_left_eq mod_add_right_eq)
  also have "\<dots> = 0"
    using m by simp
  finally show ?thesis
    by (simp add: g dvd_eq_mod_eq_0)
qed

end
