(* ===== verification/SnowflakeOps.thy ===== *)
theory SnowflakeOps
  imports Snowflake
begin

text \<open>
  The allocator's operations over its list of blocks: allocation is first fit, freeing takes out
  exactly one block, the walks see every block once.
\<close>

section \<open>Allocation is first fit\<close>

definition block :: "u32 \<Rightarrow> u32 \<Rightarrow> byte \<Rightarrow> int \<Rightarrow> u32 \<Rightarrow> part" where
  "block addr sz state pid dir =
     \<lparr>pnext = 0, psize = sz, paddr = addr, pstate = state, pdir = dir, ppid = pid\<rparr>"

lemma block_fields [simp]: "paddr (block r sz st pid dir) = r" "psize (block r sz st pid dir) = sz"
  "pstate (block r sz st pid dir) = st" "ppid (block r sz st pid dir) = pid" "pdir (block r sz st pid dir) = dir"
  "pend (block r sz st pid dir) = unat r + unat sz"
  by (simp_all add: block_def pend_def)

text \<open>Where an allocation right behind block \<open>p\<close> begins.\<close>

definition place :: "u32 \<Rightarrow> part \<Rightarrow> nat" where
  "place a p = pend p + unat (align_gap a (paddr p + psize p))"

definition hole :: "u32 \<Rightarrow> u32 \<Rightarrow> part \<Rightarrow> part \<Rightarrow> bool" where
  "hole sz a p q \<longleftrightarrow> place a p + unat sz \<le> unat (paddr q)"

text \<open>\<open>first_fit\<close>: behind \<open>pre\<close> lies the first place for \<open>sz\<close> bytes aligned to \<open>a\<close>.\<close>

definition first_fit :: "u32 \<Rightarrow> u32 \<Rightarrow> u32 \<Rightarrow> part list \<Rightarrow> part list \<Rightarrow> bool" where
  "first_fit phys sz a pre suf \<longleftrightarrow> pre \<noteq> [] \<and> successively (\<lambda>p q. \<not> hole sz a p q) pre \<and>
     (if suf = [] then place a (last pre) + unat sz \<le> unat phys else hole sz a (last pre) (hd suf))"

definition no_fit :: "u32 \<Rightarrow> u32 \<Rightarrow> u32 \<Rightarrow> part list \<Rightarrow> bool" where
  "no_fit phys sz a bs \<longleftrightarrow> successively (\<lambda>p q. \<not> hole sz a p q) bs \<and> unat phys < place a (last bs) + unat sz"

lemma blk_place [simp]: "place a (blk p) = place a p" "hole sz a (blk p) q = hole sz a p q"
  "hole sz a p (blk q) = hole sz a p q"
  by (simp_all add: place_def hole_def)

lemma word_sum:
  fixes x y :: u32
  assumes "unat x + unat y < 2 ^ 32"
  shows "unat (x + y) = unat x + unat y"
  using iffD1 [OF unat_add_lem, of x y] assms by simp

lemma blocks_ok_bounds:
  assumes "blocks_ok phys bs" and "unat phys \<le> 2 ^ 28" and "p \<in> set bs"
  shows "unat MEM_BASE_ADDR < pend p" "pend p \<le> 2 ^ 28" "unat (paddr p + psize p) = pend p"
    "unat (paddr p) \<le> 2 ^ 28"
proof -
  obtain h bs' where bs: "bs = h # bs'"
    using assms(3) by (cases bs) auto
  have h: "paddr h = MEM_BASE_ADDR" "psize h \<noteq> 0" and z: "psize p \<noteq> 0"
    using assms bs by (auto simp: blocks_ok_def)
  have b: "unat MEM_BASE_ADDR < pend h"
    using h by (simp add: pend_def unat_gt_0)
  have "p = h \<or> pend h \<le> unat (paddr p)"
    using assms(1,3) bs by (auto simp: blocks_ok_def)
  then show "unat MEM_BASE_ADDR < pend p"
    using b pend_le [of p] by auto
  show P: "pend p \<le> 2 ^ 28"
    using assms by (auto simp: blocks_ok_def intro: le_trans)
  then show "unat (paddr p + psize p) = pend p" "unat (paddr p) \<le> 2 ^ 28"
    by (simp_all add: pend_def word_sum)
qed

lemma fits_hole:
  assumes "unat MEM_BASE_ADDR < pend (ps ! p)" and "pend (ps ! p) \<le> unat (paddr (ps ! q))"
    and "unat (paddr (ps ! q)) \<le> 2 ^ 28" and "unat sz \<le> 2 ^ 31" and "unat a \<le> 2 ^ 30"
    and "unat (paddr (ps ! p) + psize (ps ! p)) = pend (ps ! p)"
  shows "fits ps sz a p q = hole sz a (ps ! p) (ps ! q)"
proof -
  let ?e = "paddr (ps ! p) + psize (ps ! p)"
  have "unat (align_gap a ?e) \<le> 2 ^ 30"
    using align_gap_le [of a ?e] assms(5) by simp
  then have s: "unat (sz + align_gap a ?e) = unat sz + unat (align_gap a ?e)"
    using assms(4) by (simp add: word_sum)
  have d: "unat (paddr (ps ! q) - ?e) = unat (paddr (ps ! q)) - pend (ps ! p)"
    using assms(2,6) by (subst unat_sub) (simp_all add: word_le_nat_alt)
  have "?e \<noteq> MEM_BASE_ADDR"
    using assms(1,6) by auto
  then show ?thesis
    using assms(2) by (auto simp: fits_def hole_def place_def slot_end_def word_le_nat_alt s d)
qed

lemma successively_map_cong:
  assumes "\<And>p q xs ys. js = xs @ p # q # ys \<Longrightarrow> P p q \<longleftrightarrow> Q (f p) (f q)"
  shows "successively P js \<longleftrightarrow> successively Q (map f js)"
  using assms
proof (induction js rule: induct_list012)
  case (3 x y zs)
  have "P x y \<longleftrightarrow> Q (f x) (f y)"
    using "3.prems" [of "[]" x y zs] by simp
  moreover have "successively P (y # zs) = successively Q (map f (y # zs))"
    using "3.prems" by (intro "3.IH"(2)) (metis append_Cons)
  ultimately show ?case
    by simp
qed auto

lemma fits_blocks:
  assumes "blocks_ok phys (blocks_at ps js)" and "unat phys \<le> 2 ^ 28" and "unat sz \<le> 2 ^ 31"
    and "unat a \<le> 2 ^ 30" and "js = xs @ p # q # ys"
  shows "fits ps sz a p q = hole sz a (ps ! p) (ps ! q)"
proof -
  have m: "blk (ps ! p) \<in> set (blocks_at ps js)" "blk (ps ! q) \<in> set (blocks_at ps js)"
    using assms(5) by auto
  have "pend (ps ! p) \<le> unat (paddr (ps ! q))"
    using assms(1,5) by (auto simp: blocks_ok_def sorted_wrt_append)
  then show ?thesis
    using blocks_ok_bounds [OF assms(1,2) m(1)] blocks_ok_bounds [OF assms(1,2) m(2)] assms(3,4)
    by (intro fits_hole) simp_all
qed

lemma find_place_first_fit:
  assumes "slots ps js t" and "blocks_ok phys (blocks_at ps js)" and "unat phys \<le> 2 ^ 28"
    and "unat sz \<le> 2 ^ 31" and "unat a \<le> 2 ^ 30"
  obtains (full) old la g where
    "find_place ps phys sz a (length ps) 0 0 MEM_BASE_ADDR = Some (2, t, old, la, g)"
    "no_fit phys sz a (blocks_at ps js)"
  | (tail) old la g where
    "find_place ps phys sz a (length ps) 0 0 MEM_BASE_ADDR = Some (1, t, old, la, g)"
    "unat (la + g) = place a (last (blocks_at ps js))" "a = 0 \<or> unat a dvd unat (la + g)"
    "first_fit phys sz a (blocks_at ps js) []"
  | (middle) xs l y ys la g where "js = xs @ l # y # ys"
    "find_place ps phys sz a (length ps) 0 0 MEM_BASE_ADDR = Some (0, y, l, la, g)"
    "unat (la + g) = place a (last (blocks_at ps (xs @ [l])))" "a = 0 \<or> unat a dvd unat (la + g)"
    "first_fit phys sz a (blocks_at ps (xs @ [l])) (blocks_at ps (y # ys))"
proof -
  let ?P = "\<lambda>l. align_gap a (slot_end ps l)" and ?bs = "blocks_at ps js"
  obtain js' where js: "js = 0 # js'"
    using assms(1,2) by (cases js) (auto simp: slots_def blocks_ok_def)
  have P: "plist ps (pnext (ps ! 0)) js' t" "0 < length ps" "\<not> is_free (ps ! 0)" "t < length ps" "is_free (ps ! t)"
    using assms(1) js by (auto simp: slots_def)
  obtain m where m: "length ps = Suc m"
    using P(2) by (cases "length ps") auto
  have "length js' < m"
    using length_plist [OF assms(1)] js m by simp
  from find_place_ok [OF P(1,4,5) this, of phys sz a 0]
  obtain pre suf' where F: "js' = pre @ suf'"
    "find_place ps phys sz a m (pnext (ps ! 0)) 0 (slot_end ps 0) =
      Some (if suf' = [] then 1 + (if slot_end ps (last (0 # pre)) + sz + ?P (last (0 # pre)) > phys then 1 else 0) else 0,
            hd (suf' @ [t]), last (0 # pre), slot_end ps (last (0 # pre)), ?P (last (0 # pre)))"
    "suf' \<noteq> [] \<longrightarrow> fits ps sz a (last (0 # pre)) (hd suf')"
    "successively (\<lambda>p q. \<not> fits ps sz a p q) (0 # pre)"
    by blast
  have base: "paddr (ps ! 0) = MEM_BASE_ADDR"
    using assms(2) js by (simp add: blocks_ok_def)
  obtain xs l where xs: "0 # pre = xs @ [l]"
    by (metis append_butlast_last_id list.distinct(1))
  have js_l: "js = xs @ l # suf'"
    using xs F(1) js by (metis append.assoc append_Cons append_Nil)
  have lm: "blk (ps ! l) \<in> set ?bs"
    using js_l by auto
  let ?e = "slot_end ps l"
  have fp: "find_place ps phys sz a (length ps) 0 0 MEM_BASE_ADDR =
      Some (if suf' = [] then 1 + (if ?e + sz + ?P l > phys then 1 else 0) else 0, hd (suf' @ [t]), l, ?e, ?P l)"
    using F(2) P(2,3) base xs by (simp add: m slot_end_def Let_def)
  have e: "unat ?e = pend (ps ! l)" "pend (ps ! l) \<le> 2 ^ 28"
    using blocks_ok_bounds [OF assms(2,3) lm] by (simp_all add: slot_end_def)
  have g: "unat (?P l) \<le> 2 ^ 30"
    using align_gap_le [of a ?e] assms(5) by simp
  have s1: "unat (?e + ?P l) = place a (ps ! l)"
    using e g by (simp add: word_sum place_def slot_end_def)
  have s2: "unat (?e + sz + ?P l) = place a (ps ! l) + unat sz"
    using e g assms(4) by (simp add: word_sum place_def slot_end_def)
  have dvd: "a = 0 \<or> unat a dvd unat (?e + ?P l)"
    using align_gap_dvd [of a ?e] e g by (cases "a = 0") (simp_all add: word_sum)
  have hl: "fits ps sz a p q = hole sz a (ps ! p) (ps ! q)" if "xs @ l # suf' = zs @ p # q # ws" for zs p q ws
    using fits_blocks [OF assms(2-5)] that js_l by metis
  have "successively (\<lambda>p q. \<not> fits ps sz a p q) (xs @ [l])"
    using F(4) xs by simp
  then have sc: "successively (\<lambda>p q. \<not> hole sz a p q) (blocks_at ps (xs @ [l]))"
  proof (subst (asm) successively_map_cong [where f = "\<lambda>j. blk (ps ! j)"])
    fix p q zs ws
    assume "xs @ [l] = zs @ p # q # ws"
    then have "xs @ l # suf' = zs @ p # q # (ws @ suf')"
      by (metis append.assoc append_Cons append_Nil)
    from hl [OF this] show "(\<not> fits ps sz a p q) = (\<not> hole sz a (blk (ps ! p)) (blk (ps ! q)))"
      by (simp only: blk_place)
  qed
  show thesis
  proof (cases suf')
    case Nil
    then show thesis
      using fp s1 s2 dvd sc js_l full [of l ?e "?P l"] tail [of l ?e "?P l"]
      by (auto simp: no_fit_def first_fit_def word_less_nat_alt split: if_splits)
  next
    case (Cons y ys)
    have "hole sz a (ps ! l) (ps ! y)"
      using F(3) hl [of xs l y ys] Cons xs by simp
    then show thesis
      using fp s1 dvd sc js_l Cons by (intro middle [of xs l y ys ?e "?P l"]) (simp_all add: first_fit_def)
  qed
qed


lemma is_free_alloc [simp]: "pstate p \<noteq> SNOW_FREE \<Longrightarrow> \<not> is_free p"
  by (simp add: is_free_def)

lemma has_blocksI:
  "slots (parts s) js t \<Longrightarrow> bs = blocks_at (parts s) js \<Longrightarrow> blocks_ok (phys_size s) bs \<Longrightarrow>
    free_slots (parts s) = n \<Longrightarrow> unat (phys_size s) \<le> 2 ^ 28 \<Longrightarrow> has_blocks s n bs"
  by (auto simp: has_blocks_def)

lemma alloc_core_ok:
  assumes "has_blocks s n bs" and "2 \<le> n" and "sz \<noteq> 0" and "unat sz \<le> 2 ^ 31" and "unat a \<le> 2 ^ 30"
    and "state \<noteq> SNOW_FREE" and "state \<noteq> SNOW_BASE"
  obtains (full) "alloc_core s sz state a pid dir = Some (0, s)" "no_fit (phys_size s) sz a bs"
  | (placed) r pre suf s' where "bs = pre @ suf" "first_fit (phys_size s) sz a pre suf"
    "alloc_core s sz state a pid dir = Some (r, s')" "unat r = place a (last pre)" "a = 0 \<or> unat a dvd unat r"
    "has_blocks s' (n - 1) (pre @ block r sz state pid dir # suf)"
    "s' = s\<lparr>parts := parts s', alloc_count := alloc_count s + 1\<rparr>" "length (parts s') = length (parts s)"
proof -
  let ?ps = "parts s" and ?phys = "phys_size s"
  obtain js t where js: "slots ?ps js t" "bs = blocks_at ?ps js"
    using assms(1) by (auto simp: has_blocks_def)
  have B: "blocks_ok ?phys (blocks_at ?ps js)" "free_slots ?ps = n" and phys: "unat ?phys \<le> 2 ^ 28"
    using assms(1) js by (auto simp: has_blocks_def)
  have ne: "js \<noteq> []"
    using B(1) by (auto simp: blocks_ok_def)
  then have z: "0 < length ?ps" "pstate (?ps ! 0) = SNOW_BASE"
    using js(1) B(1) by (cases js; auto simp: slots_def blocks_ok_def)+
  note F = find_place_first_fit [OF js(1) B(1) phys assms(4,5)]
  show thesis
  proof (rule F)
    fix old la g
    assume "find_place ?ps ?phys sz a (length ?ps) 0 0 MEM_BASE_ADDR = Some (2, t, old, la, g)"
      "no_fit ?phys sz a (blocks_at ?ps js)"
    then show thesis
      using z js(2) by (intro full) (simp_all add: alloc_core_def)
  next
    fix old la g
    assume fp: "find_place ?ps ?phys sz a (length ?ps) 0 0 MEM_BASE_ADDR = Some (1, t, old, la, g)"
      and r: "unat (la + g) = place a (last (blocks_at ?ps js))" "a = 0 \<or> unat a dvd unat (la + g)"
      and ff: "first_fit ?phys sz a (blocks_at ?ps js) []"
    have t: "t < length ?ps" "is_free (?ps ! t)"
      using js(1) by (auto simp: slots_def)
    let ?ps1 = "?ps[t := (?ps ! t)\<lparr>pstate := state\<rparr>]"
    have "1 \<le> free_slots ?ps1"
      using free_slots_update [OF t(1), of "(?ps ! t)\<lparr>pstate := state\<rparr>"] t assms(2,6) B(2) by (simp add: is_free_def)
    then obtain i where "i < length ?ps1" "is_free (?ps1 ! i)"
      by (auto simp: free_slots_def Suc_le_eq filter_empty_conv in_set_conv_nth)
    then obtain u where u: "get_unused_index ?ps1 None = Some u"
      using get_unused_one by blast
    have u': "u < length ?ps" "u \<noteq> t" "is_free (?ps ! u)"
      using get_unused_Some [OF u] t assms(6) by (auto simp: nth_list_update is_free_def split: if_splits)
    define p where "p = (?ps ! t)\<lparr>pstate := state, pnext := u, paddr := la + g, psize := sz, ppid := pid, pdir := dir\<rparr>"
    have p: "\<not> is_free p" "pnext p = u" "blk p = block (la + g) sz state pid dir"
      using assms(6) by (simp_all add: p_def is_free_def blk_def block_def)
    have "alloc_core s sz state a pid dir = Some (la + g, s\<lparr>parts := ?ps[t := p], alloc_count := alloc_count s + 1\<rparr>)"
      using z fp u t by (simp add: alloc_core_def Let_def p_def)
    moreover have "blocks_ok ?phys (bs @ block (la + g) sz state pid dir # [])"
      using B(1) js(2) ff r ne assms(3,7)
      by (intro blocks_ok_insert) (simp_all add: first_fit_def place_def last_map)
    then have "has_blocks (s\<lparr>parts := ?ps[t := p], alloc_count := alloc_count s + 1\<rparr>) (n - 1)
        (bs @ block (la + g) sz state pid dir # [])"
      using slots_extend [OF js(1) u'(1,3,2) p(1,2)] p(3) js(2) B(2) phys
      by (intro has_blocksI [of _ "js @ [t]" u]) (simp_all del: map_append)
    ultimately show thesis
      using r ff js(2)
      by (intro placed [of bs "[]" "la + g" "s\<lparr>parts := ?ps[t := p], alloc_count := alloc_count s + 1\<rparr>"]) simp_all
  next
    fix xs l y ys la g
    assume jsl: "js = xs @ l # y # ys"
      and fp: "find_place ?ps ?phys sz a (length ?ps) 0 0 MEM_BASE_ADDR = Some (0, y, l, la, g)"
      and r: "unat (la + g) = place a (last (blocks_at ?ps (xs @ [l])))" "a = 0 \<or> unat a dvd unat (la + g)"
      and ff: "first_fit ?phys sz a (blocks_at ?ps (xs @ [l])) (blocks_at ?ps (y # ys))"
    have "2 \<le> free_slots ?ps"
      using B(2) assms(2) by simp
    then obtain u where u: "get_unused_index ?ps None = Some u"
      using get_unused_ex by blast
    note u' = get_unused_Some(1,2) [OF u]
    obtain ps1 t1 where D: "del_occurence ?ps u = Some ps1" "slots ps1 js t1" "t1 \<noteq> u" "is_free (ps1 ! u)"
      "length ps1 = length ?ps" "blocks_at ps1 js = blocks_at ?ps js" "free_slots ps1 = free_slots ?ps"
      using del_occurence_ok [OF js(1) ne u' \<open>2 \<le> free_slots ?ps\<close>] by metis
    define p where "p = (ps1 ! u)\<lparr>pnext := y, pstate := state, paddr := la + g, psize := sz, ppid := pid, pdir := dir\<rparr>"
    have p: "\<not> is_free p" "pnext p = hd ((y # ys) @ [t1])" "blk p = block (la + g) sz state pid dir"
      using assms(6) by (simp_all add: p_def is_free_def blk_def block_def)
    have ul: "u \<noteq> l"
      using D(2,4) jsl plist_used [of ps1 0 js t1 l] by (auto simp: slots_def)
    let ?ps2 = "ps1[l := (ps1 ! l)\<lparr>pnext := u\<rparr>, u := p]"
    have I: "slots ?ps2 (xs @ l # u # y # ys) t1"
      "blocks_at ?ps2 (xs @ l # u # y # ys) = blocks_at ps1 (xs @ [l]) @ blk p # blocks_at ps1 (y # ys)"
      "free_slots ?ps2 = free_slots ps1 - 1"
      using slots_insert [of ps1 xs l "y # ys" t1 u p] D jsl u'(1) p by auto
    have bs: "blocks_at ps1 (xs @ [l]) = blocks_at ?ps (xs @ [l])" "blocks_at ps1 (y # ys) = blocks_at ?ps (y # ys)"
      using D(6) jsl by simp_all
    have "alloc_core s sz state a pid dir = Some (la + g, s\<lparr>parts := ?ps2, alloc_count := alloc_count s + 1\<rparr>)"
      using z fp u D(1,5) u'(1) ul by (simp add: alloc_core_def Let_def p_def)
    moreover have "bs = blocks_at ?ps (xs @ [l]) @ blocks_at ?ps (y # ys)"
      using js(2) jsl by simp
    moreover have "blocks_ok ?phys (blocks_at ?ps (xs @ [l]) @ block (la + g) sz state pid dir # blocks_at ?ps (y # ys))"
    proof (intro blocks_ok_insert)
      have h: "unat (la + g) + unat sz \<le> unat (paddr (?ps ! y))"
        using ff r(1) by (simp add: first_fit_def hole_def place_def)
      then show "blocks_at ?ps (y # ys) \<noteq> [] \<Longrightarrow> pend (block (la + g) sz state pid dir) \<le> unat (paddr (hd (blocks_at ?ps (y # ys))))"
        by simp
      have "pend (?ps ! y) \<le> unat ?phys"
        using B(1) jsl by (auto simp: blocks_ok_def)
      then show "pend (block (la + g) sz state pid dir) \<le> unat ?phys"
        using h pend_le [of "?ps ! y"] by simp
      show "pend (last (blocks_at ?ps (xs @ [l]))) \<le> unat (paddr (block (la + g) sz state pid dir))"
        using r(1) by (simp add: place_def)
      show "blocks_ok ?phys (blocks_at ?ps (xs @ [l]) @ blocks_at ?ps (y # ys))"
        using B(1) jsl by simp
    qed (use assms(3,7) in simp_all)
    then have "has_blocks (s\<lparr>parts := ?ps2, alloc_count := alloc_count s + 1\<rparr>) (n - 1)
        (blocks_at ?ps (xs @ [l]) @ block (la + g) sz state pid dir # blocks_at ?ps (y # ys))"
      using I p(3) bs D(7) B(2) phys
      by (intro has_blocksI [of _ "xs @ l # u # y # ys" t1]) (simp_all del: map_append list.map)
    ultimately show thesis
      using r ff D(5)
      by (intro placed [of "blocks_at ?ps (xs @ [l])" "blocks_at ?ps (y # ys)" "la + g"
              "s\<lparr>parts := ?ps2, alloc_count := alloc_count s + 1\<rparr>"]) simp_all
  qed
qed

section \<open>Freeing\<close>

lemma free_walk_ok:
  assumes "plist ps i js t" and "t < length ps" and "is_free (ps ! t)"
  shows "(\<forall>j\<in>set js. paddr (ps ! j) \<noteq> addr) \<Longrightarrow> free_walk ps addr (Some l) i = Some None"
    "js = xs @ j # ys \<Longrightarrow> paddr (ps ! j) = addr \<Longrightarrow> (\<forall>x\<in>set xs. paddr (ps ! x) \<noteq> addr) \<Longrightarrow>
      free_walk ps addr (Some l) i = Some (Some (last (l # xs), j))"
proof -
  show "(\<forall>j\<in>set js. paddr (ps ! j) \<noteq> addr) \<Longrightarrow> free_walk ps addr (Some l) i = Some None"
    using assms
    by (induction js arbitrary: i l) (auto simp: free_walk.simps [of ps addr "Some _"])
  show "js = xs @ j # ys \<Longrightarrow> paddr (ps ! j) = addr \<Longrightarrow> (\<forall>x\<in>set xs. paddr (ps ! x) \<noteq> addr) \<Longrightarrow>
      free_walk ps addr (Some l) i = Some (Some (last (l # xs), j))"
    using assms(1)
  proof (induction xs arbitrary: i l js)
    case (Cons x xs)
    then have "free_walk ps addr (Some x) (pnext (ps ! x)) = Some (Some (last (x # xs), j))"
      by (intro Cons.IH) auto
    then show ?case
      using Cons.prems by (simp add: free_walk.simps [of ps addr "Some l"])
  next
    case Nil
    then show ?case
      by (simp add: free_walk.simps [of ps addr "Some _" j])
  qed
qed

lemma blocks_ok_addr:
  assumes "blocks_ok phys (pre @ b # suf)" and "q \<in> set pre"
  shows "paddr q \<noteq> paddr b"
proof -
  have "pend q \<le> unat (paddr b)" "0 < unat (psize q)"
    using assms by (auto simp: blocks_ok_def sorted_wrt_append unat_gt_0)
  then show ?thesis
    by (auto simp: pend_def)
qed

lemma mem_free_addr_none:
  assumes "has_blocks s n bs" and "instance_count s = 0" and "\<forall>b\<in>set (tl bs). paddr b \<noteq> addr"
  shows "mem_free_addr s addr = Some (1, s)"
proof -
  obtain js t where js: "slots (parts s) js t" "bs = blocks_at (parts s) js" "js \<noteq> []"
    using assms(1) by (auto simp: has_blocks_def blocks_ok_def)
  then obtain js' where js': "js = 0 # js'" "plist (parts s) (pnext (parts s ! 0)) js' t"
    by (cases js) (auto simp: slots_def)
  have "free_walk (parts s) addr None 0 = Some None"
    using free_walk_ok(1) [OF js'(2), of addr 0] js js' assms(3)
    by (subst free_walk.simps) (auto simp: slots_def)
  then show ?thesis
    using assms(2) by (simp add: mem_free_addr_def)
qed

lemma mem_free_slots:
  assumes "slots (parts s) (xs @ j # ys) t" and "blocks_ok (phys_size s) (blocks_at (parts s) (xs @ j # ys))"
    and "instance_count s = 0" and "xs \<noteq> []"
  obtains ps where "mem_free_addr s (paddr (parts s ! j)) = Some (0, s\<lparr>parts := ps, free_count := free_count s + 1\<rparr>)"
    "slots ps (xs @ ys) t" "blocks_at ps (xs @ ys) = blocks_at (parts s) (xs @ ys)"
    "free_slots ps = free_slots (parts s) + 1" "length ps = length (parts s)" "pnext (ps ! j) = pnext (parts s ! j)"
proof -
  let ?ps = "parts s"
  obtain xs' where xs': "xs = 0 # xs'"
    using assms(1,4) by (cases xs) (auto simp: slots_def)
  obtain zs l where zs: "0 # xs' = zs @ [l]"
    by (metis append_butlast_last_id list.distinct(1))
  have P: "plist ?ps (pnext (?ps ! 0)) (xs' @ j # ys) t" "t < length ?ps" "is_free (?ps ! t)" "0 < length ?ps"
      "\<not> is_free (?ps ! 0)" "j < length ?ps"
    using assms(1) xs' by (auto simp: slots_def plist_append)
  have "paddr (?ps ! q) \<noteq> paddr (?ps ! j)" if "q \<in> set xs'" for q
    using blocks_ok_addr [of "phys_size s" "blocks_at ?ps xs" "blk (?ps ! j)" "blocks_at ?ps ys" "blk (?ps ! q)"]
      assms(2) xs' that by simp
  then have "free_walk ?ps (paddr (?ps ! j)) (Some 0) (pnext (?ps ! 0)) = Some (Some (last (0 # xs'), j))"
    using free_walk_ok(2) [OF P(1-3)] by auto
  then have w: "free_walk ?ps (paddr (?ps ! j)) None 0 = Some (Some (l, j))"
    using P(4,5) zs by (simp add: free_walk.simps [of ?ps _ None])
  have nb: "pstate (?ps ! j) \<noteq> SNOW_BASE"
    using assms(2) xs' by (auto simp: blocks_ok_def)
  have eq: "xs @ j # ys = zs @ l # j # ys" "zs @ l # ys = xs @ ys"
    using xs' zs by simp_all
  have lj: "l \<noteq> j"
    using assms(1) eq(1) by (auto simp: slots_def)
  let ?ps' = "?ps[l := (?ps ! l)\<lparr>pnext := pnext (?ps ! j)\<rparr>, j := (?ps ! j)\<lparr>pstate := SNOW_FREE\<rparr>]"
  have "is_free ((?ps ! j)\<lparr>pstate := SNOW_FREE\<rparr>)"
    by (simp add: is_free_def)
  note R = slots_remove [OF assms(1) [unfolded eq(1)] this refl, unfolded eq(2)]
  show thesis
    using w nb assms(3) lj P(6) R by (intro that [of ?ps']) (simp_all only: mem_free_addr_def Let_def length_list_update
        bind.bind_lunit option.case prod.case nth_list_update_eq nth_list_update_neq not_False_eq_True if_True if_False, simp_all)
qed

lemma mem_free_addr_ok:
  assumes "has_blocks s n (pre @ b # suf)" and "instance_count s = 0" and "pre \<noteq> []"
  obtains s' where "mem_free_addr s (paddr b) = Some (0, s')" "has_blocks s' (n + 1) (pre @ suf)"
    "s' = s\<lparr>parts := parts s', free_count := free_count s + 1\<rparr>" "length (parts s') = length (parts s)"
proof -
  obtain js t where js: "slots (parts s) js t" "pre @ b # suf = blocks_at (parts s) js"
    using assms(1) by (auto simp: has_blocks_def)
  obtain xs j ys where x: "js = xs @ j # ys" "pre = blocks_at (parts s) xs" "b = blk (parts s ! j)"
      "suf = blocks_at (parts s) ys"
    using js(2) by (auto simp: append_eq_map_conv Cons_eq_map_conv map_eq_append_conv map_eq_Cons_conv)
  have B: "blocks_ok (phys_size s) (blocks_at (parts s) (xs @ j # ys))"
    using assms(1) js(2) x(1) by (simp add: has_blocks_def)
  have "xs \<noteq> []"
    using assms(3) x(2) by auto
  then obtain ps where F: "mem_free_addr s (paddr (parts s ! j)) = Some (0, s\<lparr>parts := ps, free_count := free_count s + 1\<rparr>)"
    "slots ps (xs @ ys) t" "blocks_at ps (xs @ ys) = blocks_at (parts s) (xs @ ys)"
    "free_slots ps = free_slots (parts s) + 1" "length ps = length (parts s)"
    using mem_free_slots [OF js(1) [unfolded x(1)] B assms(2)] by metis
  have "blocks_ok (phys_size s) (pre @ suf)"
    using assms(1,3) by (auto simp: has_blocks_def intro: blocks_ok_remove)
  then have "has_blocks (s\<lparr>parts := ps, free_count := free_count s + 1\<rparr>) (n + 1) (pre @ suf)"
    using F x assms(1) by (intro has_blocksI [of _ "xs @ ys" t]) (simp_all add: has_blocks_def)
  then show thesis
    using F x(3) by (intro that [of "s\<lparr>parts := ps, free_count := free_count s + 1\<rparr>"]) simp_all
qed

section \<open>Walks\<close>

lemma free_all_loop_ok:
  assumes "slots (parts s) (xs @ js) t" and "blocks_ok (phys_size s) (blocks_at (parts s) (xs @ js))"
    and "instance_count s = 0" and "xs \<noteq> []" and "\<And>p. match (blk p) = match p"
  defines "freed \<equiv> length (filter match (blocks_at (parts s) js))"
  shows "\<exists>s'. free_all_loop s match (hd (js @ [t])) c = Some (c + int freed, s') \<and>
    (\<exists>ks. slots (parts s') (xs @ ks) t \<and>
      blocks_at (parts s') (xs @ ks) = blocks_at (parts s) xs @ filter (\<lambda>b. \<not> match b) (blocks_at (parts s) js)) \<and>
    free_slots (parts s') = free_slots (parts s) + freed \<and>
    s' = s\<lparr>parts := parts s', free_count := free_count s + of_nat freed\<rparr> \<and>
    length (parts s') = length (parts s)"
  unfolding freed_def using assms(1-4)
proof (induction js arbitrary: s xs c)
  case Nil
  then show ?case
    by (auto simp: slots_def free_all_loop.simps [of s match t])
next
  case (Cons j js)
  let ?ps = "parts s"
  have P: "plist ?ps (pnext (?ps ! j)) js t" "j < length ?ps" "\<not> is_free (?ps ! j)"
    using Cons.prems(1) by (auto simp: slots_def plist_append)
  have nx: "pnext (?ps ! j) = hd (js @ [t])"
    using plist_hd [OF P(1)] .
  show ?case
  proof (cases "match (?ps ! j)")
    case False
    then have step: "free_all_loop s match j c = free_all_loop s match (hd (js @ [t])) c"
      using P nx by (simp add: free_all_loop.simps [of s match j])
    show ?thesis
      using Cons.IH [of s "xs @ [j]" c] Cons.prems False step assms(5) by fastforce
  next
    case True
    obtain ps where F: "mem_free_addr s (paddr (?ps ! j)) = Some (0, s\<lparr>parts := ps, free_count := free_count s + 1\<rparr>)"
      "slots ps (xs @ js) t" "blocks_at ps (xs @ js) = blocks_at ?ps (xs @ js)"
      "free_slots ps = free_slots ?ps + 1" "length ps = length ?ps" "pnext (ps ! j) = pnext (?ps ! j)"
      using mem_free_slots [OF Cons.prems] .
    let ?s = "s\<lparr>parts := ps, free_count := free_count s + 1\<rparr>"
    have step: "free_all_loop s match j c = free_all_loop ?s match (hd (js @ [t])) (c + 1)"
      using P nx F True by (simp add: free_all_loop.simps [of s match j])
    have "blocks_ok (phys_size s) (blocks_at ?ps (xs @ js))"
      using blocks_ok_remove [of "phys_size s" "blocks_at ?ps xs" "blk (?ps ! j)" "blocks_at ?ps js"] Cons.prems(2,4)
      by simp
    then have B: "blocks_ok (phys_size ?s) (blocks_at (parts ?s) (xs @ js))"
      unfolding F(3) [symmetric] by simp
    have bs: "blocks_at ps xs = blocks_at ?ps xs" "blocks_at ps js = blocks_at ?ps js"
      using F(3) by simp_all
    obtain s' ks where I: "free_all_loop ?s match (hd (js @ [t])) (c + 1) =
        Some (c + 1 + int (length (filter match (blocks_at ps js))), s')"
      "slots (parts s') (xs @ ks) t"
      "blocks_at (parts s') (xs @ ks) = blocks_at ps xs @ filter (\<lambda>b. \<not> match b) (blocks_at ps js)"
      "free_slots (parts s') = free_slots ps + length (filter match (blocks_at ps js))"
      "s' = ?s\<lparr>parts := parts s', free_count := free_count ?s + of_nat (length (filter match (blocks_at ps js)))\<rparr>"
      "length (parts s') = length ps"
      using Cons.IH [of ?s xs "c + 1"] F(2) B Cons.prems(3,4) by auto
    have s': "s' = s\<lparr>parts := parts s', free_count := free_count s + of_nat (length (filter match (blocks_at ?ps (j # js))))\<rparr>"
      using I(5) True assms(5) bs by (simp add: add.assoc)
    show ?thesis
      by (intro exI [of _ s'] conjI exI [of _ ks]) (use I(1-4,6) s' step F(4,5) True assms(5) bs in \<open>simp_all\<close>)
  qed
qed

lemma info_walk_ok:
  assumes "plist ps i js t" and "t < length ps" and "is_free (ps ! t)" and "\<And>p. match (blk p) = match p"
  shows "info_walk ps match i c z = Some
    (c + of_nat (length (filter match (blocks_at ps js))), z + sum_list (map psize (filter match (blocks_at ps js))))"
  using assms(1)
proof (induction js arbitrary: i c z)
  case Nil
  then show ?case
    using assms(2,3) by (simp add: info_walk.simps [of ps match t])
next
  case (Cons j js)
  then show ?case
    using assms(4) by (auto simp: info_walk.simps [of ps match j] add.assoc)
qed

lemma mem_get_info_ok:
  assumes "has_blocks s n bs"
  shows "mem_get_info s 6 arg = Some (sum_list (map psize bs))"
    "mem_get_info s 11 arg = Some (of_nat (length (filter (\<lambda>b. ppid b = arg) bs)))"
    "mem_get_info s 12 arg = Some (sum_list (map psize (filter (\<lambda>b. ppid b = arg) bs)))"
proof -
  obtain js t where js: "plist (parts s) 0 js t" "t < length (parts s)" "is_free (parts s ! t)" "bs = blocks_at (parts s) js"
    using assms by (auto simp: has_blocks_def slots_def)
  note W = info_walk_ok [OF js(1-3)]
  have f: "filter (\<lambda>_. True) xs = xs" for xs :: "part list"
    by (induction xs) auto
  show "mem_get_info s 6 arg = Some (sum_list (map psize bs))"
    using W [of "\<lambda>_. True"] f js(4) by (simp add: mem_get_info_def)
  show "mem_get_info s 11 arg = Some (of_nat (length (filter (\<lambda>b. ppid b = arg) bs)))"
    "mem_get_info s 12 arg = Some (sum_list (map psize (filter (\<lambda>b. ppid b = arg) bs)))"
    using W [of "\<lambda>p. ppid p = arg"] js(4) by (simp_all add: mem_get_info_def)
qed

section \<open>The whole allocator\<close>

text \<open>
  The invariant of the allocator between two calls: the array is one of its own blocks, of the right
  size, at least four of its slots are free, and no page directory owns the base or an array.
\<close>

definition sys_ok :: "part list \<Rightarrow> bool" where
  "sys_ok bs \<longleftrightarrow> (\<forall>b\<in>set bs. pstate b = SNOW_MM \<or> pstate b = SNOW_BASE \<longrightarrow> pdir b = 0)"

lemma sys_ok_simps [simp]: "sys_ok []" "sys_ok (xs @ ys) \<longleftrightarrow> sys_ok xs \<and> sys_ok ys"
  "sys_ok (b # bs) \<longleftrightarrow> (pstate b = SNOW_MM \<or> pstate b = SNOW_BASE \<longrightarrow> pdir b = 0) \<and> sys_ok bs"
  "sys_ok bs \<Longrightarrow> sys_ok (filter P bs)"
  by (auto simp: sys_ok_def)

definition snow_ok :: "snow \<Rightarrow> part list \<Rightarrow> bool" where
  "snow_ok s bs \<longleftrightarrow> has_blocks s (free_slots (parts s)) bs \<and> 4 \<le> free_slots (parts s) \<and> instance_count s = 0 \<and>
     ppid (hd bs) = 0 \<and> sys_ok bs \<and>
     (\<exists>b\<in>set bs. paddr b = parts_addr s \<and> pstate b = SNOW_MM \<and> ppid b = 0 \<and>
       unat (psize b) = PART_BYTES * length (parts s))"

text \<open>The blocks that are not arrays of the allocator.\<close>

definition users :: "part list \<Rightarrow> part list" where
  "users bs = filter (\<lambda>b. pstate b \<noteq> SNOW_MM) bs"

lemma users_simps [simp]: "users (xs @ ys) = users xs @ users ys" "users [] = []"
  "users (b # bs) = (if pstate b = SNOW_MM then users bs else b # users bs)"
  by (simp_all add: users_def)

lemma blocks_ok_distinct: "blocks_ok phys bs \<Longrightarrow> distinct (map paddr bs)"
proof (induction bs rule: rev_induct)
  case (snoc b bs)
  show ?case
  proof (cases "bs = []")
    case False
    then have "blocks_ok phys bs"
      using blocks_ok_remove [of phys bs b "[]"] snoc.prems by simp
    moreover have "paddr b \<notin> paddr ` set bs"
      using blocks_ok_addr [of phys bs b "[]"] snoc.prems by force
    ultimately show ?thesis
      using snoc.IH by simp
  qed simp
qed simp

lemma blocks_ok_inner:
  assumes "blocks_ok phys bs" and "b \<in> set bs" and "pstate b \<noteq> SNOW_BASE"
  obtains pre suf where "bs = pre @ b # suf" "pre \<noteq> []"
proof -
  obtain pre suf where "bs = pre @ b # suf"
    using assms(2) by (auto simp: in_set_conv_decomp)
  moreover from this have "pre \<noteq> []"
    using assms by (auto simp: blocks_ok_def)
  ultimately show thesis
    using that by blast
qed

lemma replicate_free: "free_slots (ps @ replicate k zero_part) = free_slots ps + k"
  by (induction k) (simp_all add: free_slots_def zero_part_def is_free_def snow_states)

lemma has_blocks_append:
  assumes "has_blocks s n bs"
  shows "has_blocks (s\<lparr>parts := parts s @ replicate k zero_part, parts_addr := a\<rparr>) (n + k) bs"
proof -
  obtain js t where js: "slots (parts s) js t" "bs = blocks_at (parts s) js"
    using assms by (auto simp: has_blocks_def)
  then have "slots (parts s @ replicate k zero_part) js t"
    using plist_append_same by (auto simp: slots_def nth_append)
  moreover have "blocks_at (parts s @ replicate k zero_part) js = bs"
    using js plist_used [of "parts s" 0 js t] by (auto simp: slots_def nth_append)
  ultimately show ?thesis
    using assms replicate_free [of "parts s" k] by (intro has_blocksI [of _ js t]) (auto simp: has_blocks_def)
qed

lemma snow_okI:
  assumes "has_blocks s n bs" and "4 \<le> n" and "instance_count s = 0" and "ppid (hd bs) = 0" and "sys_ok bs"
    and "b \<in> set bs" "paddr b = parts_addr s" "pstate b = SNOW_MM" "ppid b = 0"
    "unat (psize b) = PART_BYTES * length (parts s)"
  shows "snow_ok s bs"
proof -
  have "free_slots (parts s) = n"
    using assms(1) by (simp add: has_blocks_def)
  then show ?thesis
    unfolding snow_ok_def using assms by (intro conjI bexI [of _ b]) simp_all
qed

lemma hd_append_ne: "pre \<noteq> [] \<Longrightarrow> hd (pre @ xs) = hd pre"
  by (cases pre) auto

lemma dynamize_mem_ok:
  assumes "snow_ok s bs"
  obtains (enough) "4 < free_slots (parts s)" "dynamize_mem s = Some s"
  | (full) "free_slots (parts s) \<le> 4" "dynamize_mem s = None"
      "no_fit (phys_size s) (word_of_nat (PART_BYTES * (length (parts s) + GROW_SIZE))) 0 bs"
  | (grown) s' bs' where "dynamize_mem s = Some s'" "snow_ok s' bs'" "4 < free_slots (parts s')" "users bs' = users bs"
      "phys_size s' = phys_size s"
proof (cases "4 < free_slots (parts s)")
  case True
  then show thesis
    using enough by (simp add: dynamize_mem_def free_slots_def)
next
  case False
  let ?n = "free_slots (parts s)"
  let ?sz = "word_of_nat (PART_BYTES * (length (parts s) + GROW_SIZE)) :: u32"
  have H: "has_blocks s ?n bs" and ic: "instance_count s = 0"
    using assms unfolding snow_ok_def by blast+
  have n: "?n = 4"
    using assms False by (simp add: snow_ok_def)
  have ok: "blocks_ok (phys_size s) bs" and phys: "unat (phys_size s) \<le> 2 ^ 28"
    using H by (simp_all add: has_blocks_def)
  obtain b where b: "b \<in> set bs" "paddr b = parts_addr s" "pstate b = SNOW_MM" "unat (psize b) = PART_BYTES * length (parts s)"
    using assms by (auto simp: snow_ok_def)
  have "PART_BYTES * length (parts s) \<le> 2 ^ 28"
    using blocks_ok_bounds(2) [OF ok phys b(1)] b(4) by (simp add: pend_def)
  then have sz: "unat ?sz = PART_BYTES * (length (parts s) + GROW_SIZE)" "unat ?sz \<le> 2 ^ 31" "?sz \<noteq> 0"
  proof -
    assume l: "PART_BYTES * length (parts s) \<le> 2 ^ 28"
    show e: "unat ?sz = PART_BYTES * (length (parts s) + GROW_SIZE)"
      unfolding unat_of_nat using l by (intro mod_less) (simp add: PART_BYTES_def GROW_SIZE_def)
    show "unat ?sz \<le> 2 ^ 31"
      unfolding e using l by (simp add: PART_BYTES_def GROW_SIZE_def)
    have "unat ?sz \<noteq> 0"
      unfolding e by (simp add: PART_BYTES_def GROW_SIZE_def)
    then show "?sz \<noteq> 0"
      by (metis unat_0)
  qed
  have mm: "SNOW_MM \<noteq> SNOW_FREE" "SNOW_MM \<noteq> SNOW_BASE"
    by (simp_all add: snow_states)
  have "2 \<le> ?n" "unat (0 :: u32) \<le> 2 ^ 30"
    using n by simp_all
  from alloc_core_ok [OF H this(1) sz(3,2) this(2) mm, of 0 0]
  show thesis
  proof cases
    case 1
    then show thesis
      using False ic by (intro full) (simp_all add: dynamize_mem_def free_slots_def)
  next
    case (2 r pre suf s1)
    let ?nb = "block r ?sz SNOW_MM 0 0" and ?s2 = "s1\<lparr>parts := parts s1 @ replicate GROW_SIZE zero_part, parts_addr := r\<rparr>"
    have pre: "pre \<noteq> []"
      using 2(2) by (simp add: first_fit_def)
    have s1: "parts_addr s1 = parts_addr s" "instance_count s1 = 0" "phys_size s1 = phys_size s"
      by (subst 2(7), simp add: ic)+
    have H2: "has_blocks ?s2 (?n - 1 + GROW_SIZE) (pre @ ?nb # suf)"
      using has_blocks_append [OF 2(6)] .
    then have ok2: "blocks_ok (phys_size s) (pre @ ?nb # suf)"
      using s1 by (simp add: has_blocks_def)
    have b2: "b \<in> set (pre @ ?nb # suf)" "pstate b \<noteq> SNOW_BASE"
      using b 2(1) by (auto simp: snow_states)
    obtain pre1 suf1 where x: "pre @ ?nb # suf = pre1 @ b # suf1" "pre1 \<noteq> []"
      using blocks_ok_inner [OF ok2 b2] .
    have r: "r \<noteq> 0"
    proof -
      have "last pre \<in> set bs"
        using pre 2(1) by simp
      then have "0 < unat r"
        using blocks_ok_bounds(1) [OF ok phys] 2(4) by (fastforce simp: place_def)
      then show ?thesis
        by (simp add: unat_gt_0)
    qed
    have "instance_count ?s2 = 0"
      using s1 by simp
    then obtain s3 where F: "mem_free_addr ?s2 (paddr b) = Some (0, s3)"
      "has_blocks s3 (?n - 1 + GROW_SIZE + 1) (pre1 @ suf1)"
      "s3 = ?s2\<lparr>parts := parts s3, free_count := free_count ?s2 + 1\<rparr>" "length (parts s3) = length (parts ?s2)"
      using mem_free_addr_ok [OF H2 [unfolded x(1)] _ x(2)] by blast
    have s3: "parts_addr s3 = r" "instance_count s3 = 0" "phys_size s3 = phys_size s"
      by (subst F(3), simp add: s1)+
    have "r \<notin> paddr ` set (pre @ suf)"
      using blocks_ok_distinct [OF ok2] by auto
    then have "paddr b \<noteq> r"
      using b(1) 2(1) by blast
    then have ne: "?nb \<noteq> b"
      by auto
    have "?nb \<in> set (pre1 @ b # suf1)"
      unfolding x(1) [symmetric] by simp
    then have nb: "?nb \<in> set (pre1 @ suf1)"
      using ne by simp
    have h: "hd (pre1 @ suf1) = hd bs"
    proof -
      have "hd (pre1 @ suf1) = hd (pre @ ?nb # suf)"
        using x by (simp add: hd_append_ne)
      then show ?thesis
        using pre 2(1) by (simp add: hd_append_ne)
    qed
    have u: "users (pre1 @ suf1) = users bs"
    proof -
      have "users (pre1 @ suf1) = users (pre1 @ b # suf1)"
        using b(3) by simp
      also have "\<dots> = users (pre @ ?nb # suf)"
        using x(1) by simp
      finally show ?thesis
        using 2(1) by simp
    qed
    have dyn: "dynamize_mem s = Some s3"
      using False ic 2(3,8) r F(1) b(2) s1 by (simp add: dynamize_mem_def free_slots_def Let_def)
    have "sys_ok (pre @ ?nb # suf)"
      using assms 2(1) by (simp add: snow_ok_def)
    then have "sys_ok (pre1 @ suf1)"
      unfolding x(1) by simp
    then have "snow_ok s3 (pre1 @ suf1)"
      using F(2,4) s3 nb sz(1) 2(8) h assms n
      by (intro snow_okI [OF F(2), of ?nb]) (simp_all add: GROW_SIZE_def snow_ok_def)
    moreover have "4 < free_slots (parts s3)"
      using F(2) n by (simp add: has_blocks_def GROW_SIZE_def)
    ultimately show thesis
      using grown dyn u s3(3) by blast
  qed
qed

end
