(* ===== verification/SnowflakeProps.thy ===== *)
theory SnowflakeProps
  imports SnowflakeOps
begin

text \<open>What the allocator of \<open>snowflake.c\<close> guarantees, on a small array for the witnesses.\<close>

section \<open>The operations keep the invariant\<close>

text \<open>The growing of the array: it fails only when the memory is full.\<close>

definition cannot_grow :: "snow \<Rightarrow> part list \<Rightarrow> bool" where
  "cannot_grow s bs \<longleftrightarrow> free_slots (parts s) \<le> 4 \<and>
     no_fit (phys_size s) (word_of_nat (PART_BYTES * (length (parts s) + GROW_SIZE))) 0 bs"

lemma snow_ok_alloc:
  assumes "snow_ok s bs" and "4 < free_slots (parts s)" and "sz \<noteq> 0" and "unat sz \<le> 2 ^ 31"
    and "unat a \<le> 2 ^ 30" and "state \<noteq> SNOW_FREE" and "state \<noteq> SNOW_BASE" and "state \<noteq> SNOW_MM"
  obtains (full) "alloc_core (s\<lparr>instance_count := 1\<rparr>) sz state a pid dir = Some (0, s\<lparr>instance_count := 1\<rparr>)"
      "no_fit (phys_size s) sz a bs"
  | (placed) r pre suf s' where "bs = pre @ suf" "first_fit (phys_size s) sz a pre suf" "r \<noteq> 0"
    "alloc_core (s\<lparr>instance_count := 1\<rparr>) sz state a pid dir = Some (r, s')" "instance_count s' = 1"
    "a = 0 \<or> unat a dvd unat r" "snow_ok (s'\<lparr>instance_count := 0\<rparr>) (pre @ block r sz state pid dir # suf)"
proof -
  let ?s = "s\<lparr>instance_count := 1\<rparr>" and ?n = "free_slots (parts s)"
  have H0: "has_blocks s ?n bs"
    using assms(1) unfolding snow_ok_def by blast
  have HI: "has_blocks (t\<lparr>instance_count := i\<rparr>) m cs = has_blocks t m cs" for t i m cs
    by (simp add: has_blocks_def)
  have ok: "blocks_ok (phys_size s) bs" and phys: "unat (phys_size s) \<le> 2 ^ 28"
    using H0 by (simp_all add: has_blocks_def)
  obtain b where b: "b \<in> set bs" "paddr b = parts_addr s" "pstate b = SNOW_MM" "ppid b = 0"
      "unat (psize b) = PART_BYTES * length (parts s)"
    using assms(1) by (auto simp: snow_ok_def)
  have "has_blocks ?s ?n bs" "2 \<le> ?n"
    using H0 HI assms(2) by simp_all
  from alloc_core_ok [OF this assms(3-7), of pid dir]
  show thesis
  proof cases
    case 1
    then show thesis
      using full by simp
  next
    case (2 r pre suf s')
    have pre: "pre \<noteq> []"
      using 2(2) by (simp add: first_fit_def)
    then have "last pre \<in> set bs"
      using 2(1) by simp
    then have "0 < unat r"
      using blocks_ok_bounds(1) [OF ok phys] 2(4) by (fastforce simp: place_def)
    then have r: "r \<noteq> 0"
      by (simp add: unat_gt_0)
    have s': "parts_addr s' = parts_addr s" "instance_count s' = 1"
      by (subst 2(7), simp)+
    have "snow_ok (s'\<lparr>instance_count := 0\<rparr>) (pre @ block r sz state pid dir # suf)"
      using 2(6,8) HI b s' 2(1) pre assms(1,2,7,8)
      by (intro snow_okI [of _ "?n - 1" _ b]) (auto simp: snow_ok_def hd_append_ne)
    then show thesis
      using 2 r s'(2) by (intro placed) simp_all
  qed
qed

lemma mem_alloc_func_cases:
  assumes "snow_ok s bs" and "sz \<noteq> 0" and "unat sz \<le> 2 ^ 31" and "unat a \<le> 2 ^ 30"
    and "state \<noteq> SNOW_FREE" and "state \<noteq> SNOW_BASE" and "state \<noteq> SNOW_MM"
  obtains (halt) "mem_alloc_func s sz state a pid dir = None" "cannot_grow s bs"
  | (full) s' bs' where "mem_alloc_func s sz state a pid dir = Some (0, s')" "snow_ok s' bs'"
      "users bs' = users bs" "no_fit (phys_size s) sz a bs'"
  | (placed) r s' pre suf where "mem_alloc_func s sz state a pid dir = Some (r, s')" "r \<noteq> 0"
      "a = 0 \<or> unat a dvd unat r" "users (pre @ suf) = users bs" "first_fit (phys_size s) sz a pre suf"
      "snow_ok s' (pre @ block r sz state pid dir # suf)"
proof -
  have go: thesis if d: "dynamize_mem s = Some s1" "snow_ok s1 bs1" "4 < free_slots (parts s1)" "users bs1 = users bs"
      "phys_size s1 = phys_size s" for s1 bs1
  proof -
    have ic: "instance_count s1 = 0"
      using d(2) by (simp add: snow_ok_def)
    from snow_ok_alloc [OF d(2,3) assms(2-7), of pid dir]
    show thesis
    proof cases
      case 1
      then have "mem_alloc_func s sz state a pid dir = Some (0, s1)"
        using assms d(1) ic by (simp add: mem_alloc_func_def)
      then show thesis
        using full d 1 by metis
    next
      case (2 r pre suf s')
      then have "mem_alloc_func s sz state a pid dir = Some (r, s'\<lparr>instance_count := 0\<rparr>)"
        using assms d(1) ic by (simp add: mem_alloc_func_def)
      then show thesis
        using placed d 2 by metis
    qed
  qed
  from dynamize_mem_ok [OF assms(1)] show thesis
  proof cases
    case 1
    then show thesis
      using go assms(1) by blast
  next
    case 2
    then show thesis
      using halt assms by (auto simp: mem_alloc_func_def cannot_grow_def)
  qed (use go in blast)
qed

lemma snow_ok_free:
  assumes "snow_ok s (pre @ b # suf)" and "pre \<noteq> []" and "paddr b \<noteq> parts_addr s"
  obtains s' where "mem_free_addr s (paddr b) = Some (0, s')" "snow_ok s' (pre @ suf)"
proof -
  let ?n = "free_slots (parts s)"
  have H: "has_blocks s ?n (pre @ b # suf)"
    using assms(1) unfolding snow_ok_def by blast
  obtain p where p: "p \<in> set (pre @ b # suf)" "paddr p = parts_addr s" "pstate p = SNOW_MM" "ppid p = 0"
      "unat (psize p) = PART_BYTES * length (parts s)"
    using assms(1) by (auto simp: snow_ok_def)
  have ic: "instance_count s = 0"
    using assms(1) by (simp add: snow_ok_def)
  obtain s' where F: "mem_free_addr s (paddr b) = Some (0, s')" "has_blocks s' (?n + 1) (pre @ suf)"
    "s' = s\<lparr>parts := parts s', free_count := free_count s + 1\<rparr>" "length (parts s') = length (parts s)"
    using mem_free_addr_ok [OF H ic assms(2)] .
  have "parts_addr s' = parts_addr s" "instance_count s' = 0"
    by (subst F(3), simp add: ic)+
  then have "snow_ok s' (pre @ suf)"
    using F p assms by (intro snow_okI [OF F(2), of p]) (auto simp: snow_ok_def hd_append_ne)
  then show thesis
    using that F(1) by blast
qed

lemma snow_ok_base:
  assumes "snow_ok s bs"
  obtains h bs' where "bs = h # bs'" "ppid h = 0" "pstate h = SNOW_BASE" "paddr h = MEM_BASE_ADDR"
    "\<forall>b\<in>set bs'. MEM_BASE_ADDR < paddr b \<and> pstate b \<noteq> SNOW_BASE" "distinct (map paddr bs)"
proof -
  have ok: "blocks_ok (phys_size s) bs"
    using assms unfolding snow_ok_def has_blocks_def by blast
  obtain h bs' where bs: "bs = h # bs'"
    using ok by (cases bs) (auto simp: blocks_ok_def)
  have h: "paddr h = MEM_BASE_ADDR" "pstate h = SNOW_BASE" "psize h \<noteq> 0"
    using ok bs by (auto simp: blocks_ok_def)
  have "MEM_BASE_ADDR < paddr b" if "b \<in> set bs'" for b
  proof -
    have "pend h \<le> unat (paddr b)" "0 < unat (psize h)"
      using ok bs that h(3) by (auto simp: blocks_ok_def unat_gt_0)
    then show ?thesis
      using h(1) by (simp add: pend_def word_less_nat_alt)
  qed
  then show thesis
    using that [of h bs'] bs h ok assms blocks_ok_distinct [OF ok] by (auto simp: blocks_ok_def snow_ok_def)
qed

lemma snow_ok_free_matching:
  assumes "snow_ok s bs" and "\<And>p. match (blk p) = match p" and "\<not> match (hd bs)"
    and "\<And>b. b \<in> set bs \<Longrightarrow> pstate b = SNOW_MM \<Longrightarrow> ppid b = 0 \<Longrightarrow> \<not> match b"
  obtains s' where "free_all_loop s match 0 0 = Some (int (length (filter match bs)), s')"
    "snow_ok s' (filter (\<lambda>b. \<not> match b) bs)"
proof -
  have H: "has_blocks s (free_slots (parts s)) bs" and ic: "instance_count s = 0"
    using assms(1) unfolding snow_ok_def by blast+
  obtain js t where js: "slots (parts s) js t" "bs = blocks_at (parts s) js"
    using H by (auto simp: has_blocks_def)
  have ok: "blocks_ok (phys_size s) bs"
    using H by (simp add: has_blocks_def)
  obtain js' where js': "js = 0 # js'"
    using js ok by (cases js) (auto simp: slots_def blocks_ok_def)
  have P: "plist (parts s) (pnext (parts s ! 0)) js' t" "0 < length (parts s)" "\<not> is_free (parts s ! 0)"
    using js(1) js' by (auto simp: slots_def)
  have nm: "\<not> match (parts s ! 0)"
    using assms(2,3) js(2) js' by simp
  let ?f = "length (filter match (blocks_at (parts s) js'))"
  have "slots (parts s) ([0] @ js') t" "blocks_ok (phys_size s) (blocks_at (parts s) ([0] @ js'))" "[0::nat] \<noteq> []"
    using js ok js' by auto
  from free_all_loop_ok [where match = match and c = 0, OF this(1,2) ic this(3) assms(2)]
  obtain s' ks where L: "free_all_loop s match (hd (js' @ [t])) 0 = Some (0 + int ?f, s')"
    "slots (parts s') ([0] @ ks) t"
    "blocks_at (parts s') ([0] @ ks) = blocks_at (parts s) [0] @ filter (\<lambda>b. \<not> match b) (blocks_at (parts s) js')"
    "free_slots (parts s') = free_slots (parts s) + ?f"
    "s' = s\<lparr>parts := parts s', free_count := free_count s + of_nat ?f\<rparr>" "length (parts s') = length (parts s)"
    by blast
  have s': "parts_addr s' = parts_addr s" "instance_count s' = 0" "phys_size s' = phys_size s"
    by (subst L(5), simp add: ic)+
  let ?bs = "filter (\<lambda>b. \<not> match b) bs"
  have eq: "?bs = blk (parts s ! 0) # filter (\<lambda>b. \<not> match b) (blocks_at (parts s) js')"
    using js(2) js' nm assms(2) by simp
  have "sorted_wrt (\<lambda>p q. pend p \<le> unat (paddr q)) ?bs"
    using ok by (simp add: blocks_ok_def sorted_wrt_filter)
  then have "blocks_ok (phys_size s') ?bs"
    using ok js(2) js' nm assms(2) s'(3) by (auto simp: blocks_ok_def)
  then have H': "has_blocks s' (free_slots (parts s) + ?f) ?bs"
    using L(2-4) eq H s'(3) by (intro has_blocksI [of _ "[0] @ ks" t]) (simp_all add: has_blocks_def)
  obtain p where p: "p \<in> set bs" "paddr p = parts_addr s" "pstate p = SNOW_MM" "ppid p = 0"
      "unat (psize p) = PART_BYTES * length (parts s)"
    using assms(1) by (auto simp: snow_ok_def)
  have "snow_ok s' ?bs"
    using s' p assms(1,4) L(6) eq js(2) js' by (intro snow_okI [OF H', of p]) (auto simp: snow_ok_def)
  moreover have "free_all_loop s match 0 0 = Some (int (length (filter match bs)), s')"
    using L(1) P nm js(2) js' assms(2) plist_hd [OF P(1)] by (simp add: free_all_loop.simps [of s match 0])
  ultimately show thesis
    using that by blast
qed

section \<open>Freeing\<close>

lemma mem_free_addr_spec:
  assumes "snow_ok s bs" and "addr \<noteq> parts_addr s"
  shows "if addr \<noteq> MEM_BASE_ADDR \<and> addr \<in> paddr ` set bs
    then \<exists>s'. mem_free_addr s addr = Some (0, s') \<and> snow_ok s' (filter (\<lambda>b. paddr b \<noteq> addr) bs)
    else mem_free_addr s addr = Some (1, s)"
proof -
  obtain h bs' where b: "bs = h # bs'" "paddr h = MEM_BASE_ADDR" "\<forall>b\<in>set bs'. MEM_BASE_ADDR < paddr b"
    "distinct (map paddr bs)"
    using snow_ok_base [OF assms(1)] by metis
  show ?thesis
  proof (cases "addr \<noteq> MEM_BASE_ADDR \<and> addr \<in> paddr ` set bs")
    case True
    then obtain pre' q suf where q: "bs' = pre' @ q # suf" "paddr q = addr"
      using b(1,2) by (auto simp: in_set_conv_decomp)
    have "paddr x \<noteq> addr" if "x \<in> set pre' \<union> set suf" for x
      using that q(2) b(4) unfolding b(1) q(1) by (auto simp: image_iff)
    then have "filter (\<lambda>b. paddr b \<noteq> addr) pre' = pre'" "filter (\<lambda>b. paddr b \<noteq> addr) suf = suf"
      by (simp_all add: filter_id_conv)
    then have f: "filter (\<lambda>b. paddr b \<noteq> addr) bs = (h # pre') @ suf"
      using q b(1,2) True by simp
    have "snow_ok s ((h # pre') @ q # suf)" "h # pre' \<noteq> []" "paddr q \<noteq> parts_addr s"
      using assms q b(1) by simp_all
    then obtain s' where "mem_free_addr s (paddr q) = Some (0, s')" "snow_ok s' ((h # pre') @ suf)"
      by (rule snow_ok_free)
    then show ?thesis
      unfolding f using True q(2) by simp
  next
    case False
    have "has_blocks s (free_slots (parts s)) bs" "instance_count s = 0"
      using assms(1) unfolding snow_ok_def by blast+
    moreover have "\<forall>x\<in>set (tl bs). paddr x \<noteq> addr"
      using b(1,3) False by force
    ultimately have "mem_free_addr s addr = Some (1, s)"
      by (rule mem_free_addr_none)
    then show ?thesis
      using False by simp
  qed
qed

lemma mem_free_all_spec:
  assumes "snow_ok s bs" and "pid \<noteq> 0"
  shows "let gone = (\<lambda>b. ppid b = pid \<and> (state = 0 \<and> pstate b \<noteq> SNOW_SCUBA \<or> pstate b = state)) in
    \<exists>s'. mem_free_all s pid state = Some (int (length (filter gone bs)), s') \<and> snow_ok s' (filter (\<lambda>b. \<not> gone b) bs)"
proof -
  let ?gone = "\<lambda>b. ppid b = pid \<and> (state = 0 \<and> pstate b \<noteq> SNOW_SCUBA \<or> pstate b = state)"
  have h: "\<not> ?gone (hd bs)"
    using assms by (simp add: snow_ok_def)
  obtain s' where "free_all_loop s ?gone 0 0 = Some (int (length (filter ?gone bs)), s')"
    "snow_ok s' (filter (\<lambda>b. \<not> ?gone b) bs)"
  proof (rule snow_ok_free_matching [where match = ?gone])
    show "\<not> ?gone b" if "ppid b = 0" for b
      using that assms(2) by simp
  qed (use assms(1) h in \<open>simp_all only: blk_fields\<close>)
  then show ?thesis
    using assms(2) unfolding mem_free_all_def Let_def by (intro exI [of _ s']) simp
qed

lemma mem_free_dir_spec:
  assumes "snow_ok s bs" and "dir \<noteq> 0"
  shows "\<exists>s'. mem_free_dir s dir = Some (int (length (filter (\<lambda>b. pdir b = dir) bs)), s') \<and>
    snow_ok s' (filter (\<lambda>b. pdir b \<noteq> dir) bs)"
proof -
  have sys: "pdir b = 0" if "b \<in> set bs" "pstate b = SNOW_MM \<or> pstate b = SNOW_BASE" for b
    using assms(1) that by (auto simp: snow_ok_def sys_ok_def)
  obtain h bs' where "bs = h # bs'" "pstate h = SNOW_BASE"
    using snow_ok_base [OF assms(1)] by metis
  then have "pdir (hd bs) \<noteq> dir"
    using sys assms(2) by simp
  then obtain s' where "free_all_loop s (\<lambda>b. pdir b = dir) 0 0 = Some (int (length (filter (\<lambda>b. pdir b = dir) bs)), s')"
    "snow_ok s' (filter (\<lambda>b. \<not> pdir b = dir) bs)"
    by (rule snow_ok_free_matching [OF assms(1), rotated]) (use sys assms(2) in auto)
  then show ?thesis
    by (simp add: mem_free_dir_def)
qed

section \<open>A concrete allocator\<close>

text \<open>Nine slots: the base block, the array itself, a block of process 3 and one of process 4.\<close>

definition demo :: snow where
  "demo = \<lparr>parts = [block MEM_BASE_ADDR 1 SNOW_BASE 0 0\<lparr>pnext := 1\<rparr>, block 0x200000 216 SNOW_MM 0 0\<lparr>pnext := 3\<rparr>,
             zero_part, block 0x200200 64 SNOW_SIMPLE 3 0\<lparr>pnext := 4\<rparr>,
             block 0x200300 16 SNOW_SIMPLE 4 7\<lparr>pnext := 5\<rparr>, zero_part, zero_part, zero_part, zero_part],
           parts_addr = 0x200000, alloc_count = 3, free_count = 0, phys_size = 0x400000, instance_count = 0\<rparr>"

definition demo_blocks :: "part list" where
  "demo_blocks = [block MEM_BASE_ADDR 1 SNOW_BASE 0 0, block 0x200000 216 SNOW_MM 0 0,
     block 0x200200 64 SNOW_SIMPLE 3 0, block 0x200300 16 SNOW_SIMPLE 4 7]"

lemma demo_ok: "snow_ok demo demo_blocks"
proof (rule snow_okI)
  show "has_blocks demo 5 demo_blocks"
  proof (rule has_blocksI)
    show "slots (parts demo) [0, 1, 3, 4] 5"
      by (simp add: slots_def demo_def block_def zero_part_def is_free_def snow_states)
    show "demo_blocks = blocks_at (parts demo) [0, 1, 3, 4]"
      by (simp add: demo_blocks_def demo_def block_def blk_def)
    show "blocks_ok (phys_size demo) demo_blocks"
      by (simp add: blocks_ok_def demo_def demo_blocks_def MEM_BASE_ADDR_def snow_states)
    show "free_slots (parts demo) = 5"
      by (simp add: free_slots_def demo_def block_def zero_part_def is_free_def snow_states)
  qed (simp add: demo_def)
  show "block 0x200000 216 SNOW_MM 0 0 \<in> set demo_blocks"
    by (simp add: demo_blocks_def)
qed (simp_all add: demo_def demo_blocks_def PART_BYTES_def snow_states)

section \<open>Properties\<close>



text \<open>
  C15.  A block just allocated can be freed, and the blocks of the others are then those from before.
\<close>

theorem mem_alloc_free:
  assumes "snow_ok s bs" and "sz \<noteq> 0" and "unat sz \<le> 2 ^ 31" and "unat a \<le> 2 ^ 30"
    and "state \<notin> {SNOW_FREE, SNOW_BASE, SNOW_MM}"
    and "mem_alloc_func s sz state a pid dir = Some (r, s')" and "r \<noteq> 0"
  shows "\<exists>s'' bs''. mem_free_addr s' r = Some (0, s'') \<and> snow_ok s'' bs'' \<and> users bs'' = users bs"
proof -
  have st: "state \<noteq> SNOW_FREE" "state \<noteq> SNOW_BASE" "state \<noteq> SNOW_MM"
    using assms(5) by auto
  from mem_alloc_func_cases [OF assms(1-4) st, of pid dir]
  have "\<exists>pre suf. users (pre @ suf) = users bs \<and> snow_ok s' (pre @ block r sz state pid dir # suf) \<and> pre \<noteq> []"
  proof cases
    case (3 r' s1 pre suf)
    then have "r' = r" "s1 = s'" "pre \<noteq> []"
      using assms(6) by (simp_all add: first_fit_def)
    then show ?thesis
      using 3(4,6) by blast
  qed (use assms(6,7) in simp_all)
  then obtain pre suf where P: "users (pre @ suf) = users bs" "snow_ok s' (pre @ block r sz state pid dir # suf)" "pre \<noteq> []"
    by blast
  obtain p where p: "p \<in> set (pre @ block r sz state pid dir # suf)" "paddr p = parts_addr s'" "pstate p = SNOW_MM"
    using P(2) unfolding snow_ok_def by blast
  have "distinct (map paddr (pre @ block r sz state pid dir # suf))"
    using snow_ok_base [OF P(2)] by blast
  then have "r \<notin> paddr ` set (pre @ suf)"
    by auto
  moreover have "p \<noteq> block r sz state pid dir"
    using p(3) st(3) by auto
  then have "p \<in> set (pre @ suf)"
    using p(1) by simp
  ultimately have "paddr (block r sz state pid dir) \<noteq> parts_addr s'"
    using p(2) by force
  then show ?thesis
    using snow_ok_free [OF P(2,3)] P(1) by (metis block_fields(1))
qed

lemma demo_alloc: "map_option fst (mem_alloc_func demo 32 SNOW_SIMPLE 16 5 0) = Some 0x2000E0"
  by code_simp

theorem mem_alloc_free_witness:
  "\<exists>s' s'' bs''. mem_alloc_func demo 32 SNOW_SIMPLE 16 5 0 = Some (0x2000E0, s') \<and>
    mem_free_addr s' 0x2000E0 = Some (0, s'') \<and> snow_ok s'' bs'' \<and> users bs'' = users demo_blocks"
proof -
  obtain s' where "mem_alloc_func demo 32 SNOW_SIMPLE 16 5 0 = Some (0x2000E0, s')"
    using demo_alloc by (cases "mem_alloc_func demo 32 SNOW_SIMPLE 16 5 0") auto
  then show ?thesis
    using mem_alloc_free [OF demo_ok, of 32 16 SNOW_SIMPLE 5 0 "0x2000E0" s'] by (simp add: snow_states)
qed

text \<open>
  Freeing an address takes out exactly the block that begins there; an address at which none
  begins (or the base of the memory) changes nothing and returns 1.
\<close>

theorem mem_free_addr_block:
  assumes "snow_ok s bs" and "addr \<noteq> parts_addr s"
  shows "if addr \<noteq> MEM_BASE_ADDR \<and> addr \<in> paddr ` set bs
    then \<exists>s'. mem_free_addr s addr = Some (0, s') \<and> snow_ok s' (filter (\<lambda>b. paddr b \<noteq> addr) bs)
    else mem_free_addr s addr = Some (1, s)"
  using assms by (rule mem_free_addr_spec)

theorem mem_free_addr_block_witness:
  "\<exists>s'. mem_free_addr demo 0x200200 = Some (0, s') \<and> snow_ok s' (filter (\<lambda>b. paddr b \<noteq> 0x200200) demo_blocks)"
  using mem_free_addr_block [OF demo_ok, of "0x200200"]
  by (simp add: demo_def demo_blocks_def MEM_BASE_ADDR_def)

text \<open>
  C17.  When a process ends, \<open>mem_free_all\<close> frees its blocks (all but the page tables when
  \<open>state\<close> is 0, those of \<open>state\<close> otherwise) and no other, and returns how many they were.
\<close>

theorem mem_free_all_exact:
  assumes "snow_ok s bs" and "pid \<noteq> 0"
  shows "let gone = (\<lambda>b. ppid b = pid \<and> (state = 0 \<and> pstate b \<noteq> SNOW_SCUBA \<or> pstate b = state)) in
    \<exists>s'. mem_free_all s pid state = Some (int (length (filter gone bs)), s') \<and> snow_ok s' (filter (\<lambda>b. \<not> gone b) bs)"
  using assms by (rule mem_free_all_spec)

theorem mem_free_all_exact_witness:
  "\<exists>s'. mem_free_all demo 3 0 = Some (1, s') \<and>
    snow_ok s' (filter (\<lambda>b. \<not> (ppid b = 3 \<and> (pstate b \<noteq> SNOW_SCUBA \<or> pstate b = 0))) demo_blocks)"
  using mem_free_all_exact [OF demo_ok, of 3 0]
  by (simp add: demo_blocks_def Let_def snow_states)

text \<open>
  After \<open>mem_init\<close> (no disk image) the allocator holds two blocks: the base and its own array.
\<close>

theorem mem_init_ok:
  assumes "PARTS_COUNT - 1 \<le> length junk" and "0x200960 \<le> phys" and "unat phys \<le> 2 ^ 28"
  shows "\<exists>s. mem_init junk phys 0 start pid = Some s \<and>
    snow_ok s [block MEM_BASE_ADDR 1 SNOW_BASE 0 0, block (MEM_BASE_ADDR + 1) 2400 SNOW_MM 0 0]"
proof -
  define p0 where "p0 = \<lparr>pnext = 1, psize = 1, paddr = MEM_BASE_ADDR, pstate = SNOW_BASE, pdir = 0, ppid = 0\<rparr>"
  define fs where "fs = map (\<lambda>p. p\<lparr>pstate := SNOW_FREE\<rparr>) (take (PARTS_COUNT - 1) junk)"
  define s where "s = \<lparr>parts = p0 # fs, parts_addr = MEM_BASE_ADDR + 1, alloc_count = 0, free_count = 0,
    phys_size = phys, instance_count = 0\<rparr>"
  have fs: "length fs = 99" "\<forall>p\<in>set fs. is_free p"
    using assms(1) by (auto simp: fs_def PARTS_COUNT_def is_free_def)
  have p0: "\<not> is_free p0" "blk p0 = block MEM_BASE_ADDR 1 SNOW_BASE 0 0"
    by (simp_all add: p0_def is_free_def snow_states blk_def block_def)
  have ph: "0x200960 \<le> unat phys"
    using assms(2) by (simp add: word_le_nat_alt)
  have H: "has_blocks s 99 [block MEM_BASE_ADDR 1 SNOW_BASE 0 0]"
  proof (rule has_blocksI)
    show "slots (parts s) [0] 1"
      using fs p0(1) by (auto simp: slots_def s_def p0_def)
    show "[block MEM_BASE_ADDR 1 SNOW_BASE 0 0] = blocks_at (parts s) [0]"
      using p0(2) by (simp add: s_def)
    show "blocks_ok (phys_size s) [block MEM_BASE_ADDR 1 SNOW_BASE 0 0]"
      using ph by (simp add: blocks_ok_def s_def MEM_BASE_ADDR_def)
    show "free_slots (parts s) = 99"
      using fs p0(1) by (simp add: free_slots_def s_def)
    show "unat (phys_size s) \<le> 2 ^ 28"
      using assms(3) by (simp add: s_def)
  qed
  have mm: "SNOW_MM \<noteq> SNOW_FREE" "SNOW_MM \<noteq> SNOW_BASE"
    by (simp_all add: snow_states)
  have init: "mem_init junk phys 0 start pid = (case mem_alloc_func s 2400 SNOW_MM 0 0 0 of None \<Rightarrow> None
      | Some (a, s) \<Rightarrow> if a \<noteq> parts_addr s then None else Some s)"
    by (simp add: mem_init_def s_def fs_def p0_def mem_alloc_def snow_states PART_BYTES_def PARTS_COUNT_def Let_def
      split: option.split)
  have nat: "(2 :: nat) \<le> 99" "(2400 :: u32) \<noteq> 0" "unat (2400 :: u32) \<le> 2 ^ 31" "unat (0 :: u32) \<le> 2 ^ 30"
    by simp_all
  have f: "mem_alloc_func s 2400 SNOW_MM 0 0 0 = alloc_core s 2400 SNOW_MM 0 0 0"
    using mm by (simp add: mem_alloc_func_def s_def)
  from alloc_core_ok [OF H nat mm, of 0 0] show ?thesis
  proof cases
    case 1
    then show ?thesis
      using ph by (simp add: no_fit_def place_def align_gap_def s_def MEM_BASE_ADDR_def)
  next
    case (2 r pre suf s')
    then have ps: "pre = [block MEM_BASE_ADDR 1 SNOW_BASE 0 0]" "suf = []"
      by (cases pre; auto simp: first_fit_def)+
    then have "unat r = unat (MEM_BASE_ADDR + 1)"
      using 2(4) by (simp add: place_def align_gap_def MEM_BASE_ADDR_def)
    then have r: "r = MEM_BASE_ADDR + 1"
      by (simp add: word_unat_eq_iff)
    have s': "parts_addr s' = MEM_BASE_ADDR + 1" "instance_count s' = 0"
      by (subst 2(7), simp add: s_def)+
    have "snow_ok s' (pre @ block r 2400 SNOW_MM 0 0 # suf)"
      using 2(8) s' ps r fs by (intro snow_okI [OF 2(6), of "block r 2400 SNOW_MM 0 0"]) (simp_all add: s_def PART_BYTES_def)
    then show ?thesis
      using init f 2(3) r s' ps by simp
  qed
qed

theorem mem_init_ok_witness:
  "\<exists>s. mem_init (replicate 99 zero_part) 0x400000 0 0 0 = Some s \<and>
    snow_ok s [block MEM_BASE_ADDR 1 SNOW_BASE 0 0, block (MEM_BASE_ADDR + 1) 2400 SNOW_MM 0 0]"
  by (rule mem_init_ok) (simp_all add: PARTS_COUNT_def)

end
