(* ===== verification/CMem.thy ===== *)
theory CMem
  imports Prelude
begin

text \<open>
  Flat memory: the bytes of the address space from 0 on, as one list, so that pointers into the
  same object, overlapping blocks and the terminating NUL of a string are what they are in C.
  A pointer is an index; \<open>NULL\<close> is 0.  An access outside the memory is \<open>None\<close>.

  Here are the memory functions of the C library (\<open>zlibs/libc/string.c\<close>, \<open>strings.c\<close>) and of the
  kernel (\<open>kernel/kpart/minilib.c\<close>).
\<close>

type_synonym mem = "byte list"

definition NULL :: nat where "NULL = 0"

section \<open>Copying and filling\<close>

text \<open>The two directions in which the loops copy.\<close>

fun copy_up :: "mem \<Rightarrow> nat \<Rightarrow> nat \<Rightarrow> nat \<Rightarrow> mem option" where
  "copy_up m d s 0 = Some m"
| "copy_up m d s (Suc n) = do { c \<leftarrow> rd m s; m \<leftarrow> wr m d c; copy_up m (d + 1) (s + 1) n }"

fun copy_down :: "mem \<Rightarrow> nat \<Rightarrow> nat \<Rightarrow> nat \<Rightarrow> mem option" where
  "copy_down m d s 0 = Some m"
| "copy_down m d s (Suc n) = do { c \<leftarrow> rd m (s + n); m \<leftarrow> wr m (d + n) c; copy_down m d s n }"

fun fill_up :: "mem \<Rightarrow> nat \<Rightarrow> byte \<Rightarrow> nat \<Rightarrow> mem option" where
  "fill_up m p c 0 = Some m"
| "fill_up m p c (Suc n) = do { m \<leftarrow> wr m p c; fill_up m (p + 1) c n }"

definition memcpy :: "mem \<Rightarrow> nat \<Rightarrow> nat \<Rightarrow> nat \<Rightarrow> (nat \<times> mem) option" where
  "memcpy m s1 s2 n = do { m \<leftarrow> copy_up m s1 s2 n; Some (s1, m) }"

definition mempcpy :: "mem \<Rightarrow> nat \<Rightarrow> nat \<Rightarrow> nat \<Rightarrow> (nat \<times> mem) option" where
  "mempcpy m s1 s2 n = do { m \<leftarrow> copy_up m s1 s2 n; Some (s1 + n, m) }"

definition memmove :: "mem \<Rightarrow> nat \<Rightarrow> nat \<Rightarrow> nat \<Rightarrow> (nat \<times> mem) option" where
  "memmove m s1 s2 n = do {
     m \<leftarrow> (if s2 \<ge> s1 then copy_up m s1 s2 n else copy_down m s1 s2 n);
     Some (s1, m)
   }"

definition bcopy :: "mem \<Rightarrow> nat \<Rightarrow> nat \<Rightarrow> nat \<Rightarrow> mem option" where
  "bcopy m s1 s2 n = map_option snd (memmove m s2 s1 n)"

definition memset :: "mem \<Rightarrow> nat \<Rightarrow> int \<Rightarrow> nat \<Rightarrow> (nat \<times> mem) option" where
  "memset m s c n = do { m \<leftarrow> fill_up m s (word_of_int c) n; Some (s, m) }"

definition bzero :: "mem \<Rightarrow> nat \<Rightarrow> nat \<Rightarrow> mem option" where
  "bzero m s n = map_option snd (memset m s 0 n)"

text \<open>
  The kernel's \<open>mem_move\<close> counts down with a signed index: from \<open>2 ^ 31\<close> bytes on that loop does
  not run when \<open>nbytes - 1\<close> does not fit an \<open>int\<close>.
\<close>

definition mem_move :: "mem \<Rightarrow> nat \<Rightarrow> nat \<Rightarrow> u32 \<Rightarrow> mem option" where
  "mem_move m dest source nbytes =
     (if dest < source then copy_up m dest source (unat nbytes)
      else copy_down m dest source (nat (sint (nbytes - 1) + 1)))"

definition mem_set :: "mem \<Rightarrow> nat \<Rightarrow> byte \<Rightarrow> u32 \<Rightarrow> mem option" where
  "mem_set m dest val len = fill_up m dest val (unat len)"

text \<open>\<open>memccpy\<close> stops behind the first byte equal to \<open>c\<close>; \<open>n\<close> wraps to -1 when there is none.\<close>

fun memccpy :: "mem \<Rightarrow> nat \<Rightarrow> nat \<Rightarrow> int \<Rightarrow> nat \<Rightarrow> (nat \<times> mem) option" where
  "memccpy m r1 r2 c 0 = Some (NULL, m)"
| "memccpy m r1 r2 c (Suc n) = do {
     x \<leftarrow> rd m r2;
     m \<leftarrow> wr m r1 x;
     if x = word_of_int c then Some (r1 + 1, m) else memccpy m (r1 + 1) (r2 + 1) c n
   }"

section \<open>Comparing and searching\<close>

fun memcmp :: "mem \<Rightarrow> nat \<Rightarrow> nat \<Rightarrow> nat \<Rightarrow> int option" where
  "memcmp m r1 r2 0 = Some 0"
| "memcmp m r1 r2 (Suc n) = do {
     x \<leftarrow> rd m r1;
     y \<leftarrow> rd m r2;
     let r = uint x - uint y;
     if r = 0 then memcmp m (r1 + 1) (r2 + 1) n else Some r
   }"

definition bcmp :: "mem \<Rightarrow> nat \<Rightarrow> nat \<Rightarrow> nat \<Rightarrow> int option" where
  "bcmp m s1 s2 n = memcmp m s1 s2 n"

fun mem_cmp_loop :: "mem \<Rightarrow> nat \<Rightarrow> nat \<Rightarrow> nat \<Rightarrow> int option" where
  "mem_cmp_loop m p1 p2 0 = Some 0"
| "mem_cmp_loop m p1 p2 (Suc n) = do {
     x \<leftarrow> rd m p1;
     y \<leftarrow> rd m p2;
     if x \<noteq> y then Some (uint x - uint y) else mem_cmp_loop m (p1 + 1) (p2 + 1) n
   }"

definition mem_cmp :: "mem \<Rightarrow> nat \<Rightarrow> nat \<Rightarrow> u32 \<Rightarrow> int option" where
  "mem_cmp m s1 s2 n = mem_cmp_loop m s1 s2 (unat n)"

text \<open>\<open>memchr\<close> compares the \<open>char\<close>, which is signed, with the \<open>int\<close>.\<close>

fun memchr :: "mem \<Rightarrow> nat \<Rightarrow> int \<Rightarrow> nat \<Rightarrow> nat option" where
  "memchr m big ch 0 = Some NULL"
| "memchr m big ch (Suc n) = do {
     x \<leftarrow> rd m big;
     if sint x = ch then Some big else memchr m (big + 1) ch n
   }"

fun memrchr :: "mem \<Rightarrow> nat \<Rightarrow> int \<Rightarrow> nat \<Rightarrow> nat option" where
  "memrchr m s c 0 = Some NULL"
| "memrchr m s c (Suc n) = do {
     x \<leftarrow> rd m (s + n);
     if x = word_of_int c then Some (s + n) else memrchr m s c n
   }"

partial_function (option) rawmemchr :: "mem \<Rightarrow> nat \<Rightarrow> int \<Rightarrow> nat option" where
  "rawmemchr m r c = do {
     x \<leftarrow> rd m r;
     if x = word_of_int c then Some r else rawmemchr m (r + 1) c
   }"

text \<open>
  \<open>memmem\<close>: the inner loop says whether the needle begins at \<open>ph\<close>; it looks at bytes one by one
  (\<open>k\<close> still to compare) and stops at the first that differs.
\<close>

fun memmem_at :: "mem \<Rightarrow> nat \<Rightarrow> nat \<Rightarrow> nat \<Rightarrow> bool option" where
  "memmem_at m ph pn 0 = Some True"
| "memmem_at m ph pn (Suc k) = do {
     x \<leftarrow> rd m ph;
     y \<leftarrow> rd m pn;
     if x = y then (if k = 0 then Some True else memmem_at m (ph + 1) (pn + 1) k) else Some False
   }"

text \<open>\<open>n\<close> is how often \<open>++ph \<le> plast\<close> still holds.\<close>

fun memmem_loop :: "mem \<Rightarrow> nat \<Rightarrow> nat \<Rightarrow> nat \<Rightarrow> nat \<Rightarrow> nat option" where
  "memmem_loop m ph pn k 0 = do { b \<leftarrow> memmem_at m ph pn k; Some (if b then ph else NULL) }"
| "memmem_loop m ph pn k (Suc n) = do {
     b \<leftarrow> memmem_at m ph pn k;
     if b then Some ph else memmem_loop m (ph + 1) pn k n
   }"

definition memmem :: "mem \<Rightarrow> nat \<Rightarrow> nat \<Rightarrow> nat \<Rightarrow> nat \<Rightarrow> nat option" where
  "memmem m haystack haystacklen needle needlelen =
     (if needlelen = 0 then Some haystack
      else if haystacklen \<ge> needlelen then
        memmem_loop m haystack needle needlelen (haystacklen - needlelen)
      else Some NULL)"

section \<open>Blocks\<close>

lemma mread_Suc: "p < length m \<Longrightarrow> mread m p (Suc n) = m ! p # mread m (p + 1) n"
  by (simp add: mread_def Cons_nth_drop_Suc [symmetric])

lemma mread_snoc: "p + n < length m \<Longrightarrow> mread m p (Suc n) = mread m p n @ [m ! (p + n)]"
  using mread_split [of m p n 1] by (simp add: mread_Suc)

lemma mwrite_single: "p < length m \<Longrightarrow> mwrite m p [c] = m[p := c]"
  by (simp add: mwrite_def upd_conv_take_nth_drop)

lemma mwrite_Cons: "p + length cs < length m \<Longrightarrow> mwrite (m[p := c]) (p + 1) cs = mwrite m p (c # cs)"
  by (simp add: mwrite_def take_Suc_conv_app_nth)

lemma mwrite_snoc: "p + length cs < length m \<Longrightarrow> mwrite (m[p + length cs := c]) p cs = mwrite m p (cs @ [c])"
  by (rule nth_equalityI) (auto simp: nth_mwrite nth_list_update nth_append)

lemma mread_update_below: "i < p \<Longrightarrow> mread (m[i := c]) p n = mread m p n"
  by (simp add: mread_def drop_update_cancel)

lemma mread_update_above: "p + n \<le> i \<Longrightarrow> mread (m[i := c]) p n = mread m p n"
  by (cases "p \<le> i") (simp_all add: mread_def drop_update_swap)

lemma copy_up_ok:
  "d + n \<le> length m \<Longrightarrow> s + n \<le> length m \<Longrightarrow> d \<le> s \<or> s + n \<le> d \<Longrightarrow>
    copy_up m d s n = Some (mwrite m d (mread m s n))"
proof (induction n arbitrary: m d s)
  case (Suc n)
  have r: "mread (m[d := m ! s]) (s + 1) n = mread m (s + 1) n"
    using Suc.prems by (cases "d \<le> s") (simp_all add: mread_update_below mread_update_above)
  have "d + 1 \<le> s + 1 \<or> s + 1 + n \<le> d + 1"
    using Suc.prems(3) by auto
  then show ?case
    using Suc.IH [of "d + 1" "m[d := m ! s]" "s + 1"] Suc.prems r
    by (simp add: mread_Suc mwrite_Cons [of d "mread m (Suc s) n", simplified, symmetric])
qed simp

lemma copy_down_ok:
  "d + n \<le> length m \<Longrightarrow> s + n \<le> length m \<Longrightarrow> s \<le> d \<or> d + n \<le> s \<Longrightarrow>
    copy_down m d s n = Some (mwrite m d (mread m s n))"
proof (induction n arbitrary: m)
  case (Suc n)
  have r: "mread (m[d + n := m ! (s + n)]) s n = mread m s n"
    using Suc.prems by (cases "s \<le> d") (simp_all add: mread_update_below mread_update_above)
  have "mwrite (m[d + n := m ! (s + n)]) d (mread m s n) = mwrite m d (mread m s n @ [m ! (s + n)])"
    using mwrite_snoc [of d "mread m s n" m "m ! (s + n)"] Suc.prems by simp
  moreover have "s \<le> d \<or> d + n \<le> s"
    using Suc.prems(3) by auto
  ultimately show ?case
    using Suc.IH [of "m[d + n := m ! (s + n)]"] Suc.prems r by (simp add: mread_snoc)
qed simp

lemma fill_up_ok: "p + n \<le> length m \<Longrightarrow> fill_up m p c n = Some (mwrite m p (replicate n c))"
proof (induction n arbitrary: m p)
  case (Suc n)
  then show ?case
    using Suc.IH [of "p + 1" "m[p := c]"] by (simp add: mwrite_Cons [of p "replicate n c", simplified, symmetric])
qed simp

lemma memmove_ok:
  "s1 + n \<le> length m \<Longrightarrow> s2 + n \<le> length m \<Longrightarrow> memmove m s1 s2 n = Some (s1, mwrite m s1 (mread m s2 n))"
  by (simp add: memmove_def copy_up_ok copy_down_ok)

lemma mem_move_ok:
  assumes "dest + unat n \<le> length m" and "source + unat n \<le> length m" and "unat n < 2 ^ 31"
  shows "mem_move m dest source n = Some (mwrite m dest (mread m source (unat n)))"
proof -
  have "sint (n - 1) = int (unat n) - 1"
  proof (cases "n = 0")
    case False
    then have "unat (n - 1) = unat n - 1" "0 < unat n"
      by (simp_all add: unat_minus_one unat_gt_0)
    then show ?thesis
      using assms(3) sint_small [of "n - 1"] by simp
  qed simp
  then show ?thesis
    using assms by (simp add: mem_move_def copy_up_ok copy_down_ok)
qed

end
