(* ===== verification/CString.thy ===== *)
theory CString
  imports CMem
begin

text \<open>
  The string functions of the C library (\<open>zlibs/libc/string.c\<close>, \<open>strings.c\<close>) over flat memory.
  Every loop that advances a pointer while the bytes satisfy a condition is \<open>scan_while\<close>; pointers
  and sizes are natural numbers, \<open>NULL\<close> is 0, and a read or write outside the memory is \<open>None\<close>.
  The result of \<open>malloc\<close> is an argument of the functions that call it.
\<close>

section \<open>Characters\<close>

definition chr_SL :: byte where "chr_SL = 0x2F"
definition chr_DOT :: byte where "chr_DOT = 0x2E"

definition isupper :: "int \<Rightarrow> bool" where
  "isupper c \<longleftrightarrow> c \<ge> 0x41 \<and> c \<le> 0x5A"

definition islower :: "int \<Rightarrow> bool" where
  "islower c \<longleftrightarrow> c \<ge> 0x61 \<and> c \<le> 0x7A"

definition isdigit :: "int \<Rightarrow> bool" where
  "isdigit c \<longleftrightarrow> c \<ge> 0x30 \<and> c \<le> 0x39"

definition isalpha :: "int \<Rightarrow> bool" where
  "isalpha c \<longleftrightarrow> islower c \<or> isupper c"

definition isalnum :: "int \<Rightarrow> bool" where
  "isalnum c \<longleftrightarrow> isalpha c \<or> isdigit c"

definition isascii :: "int \<Rightarrow> bool" where
  "isascii c \<longleftrightarrow> c \<le> 127 \<and> c \<ge> 0"

definition iscntrl :: "int \<Rightarrow> bool" where
  "iscntrl c \<longleftrightarrow> c \<ge> 0 \<and> c \<le> 0x1F \<or> c = 0x7F"

definition isgraph :: "int \<Rightarrow> bool" where
  "isgraph c \<longleftrightarrow> c \<ge> 0x21 \<and> c \<le> 0x7E"

definition isprint :: "int \<Rightarrow> bool" where
  "isprint c \<longleftrightarrow> c \<ge> 0x20 \<and> c \<le> 0x7E"

definition ispunct :: "int \<Rightarrow> bool" where
  "ispunct c \<longleftrightarrow> isgraph c \<and> \<not> isalnum c"

definition isspace :: "int \<Rightarrow> bool" where
  "isspace c \<longleftrightarrow> c = 0x20 \<or> c \<ge> 0x09 \<and> c \<le> 0x0D"

definition isxdigit :: "int \<Rightarrow> bool" where
  "isxdigit c \<longleftrightarrow> isdigit c \<or> c \<ge> 0x41 \<and> c \<le> 0x46 \<or> c \<ge> 0x61 \<and> c \<le> 0x66"

definition tolower :: "int \<Rightarrow> int" where
  "tolower c = (if isupper c then c + 0x20 else c)"

definition toupper :: "int \<Rightarrow> int" where
  "toupper c = (if islower c then c - 0x20 else c)"

section \<open>Scanning\<close>

partial_function (option) scan_while :: "(byte \<Rightarrow> bool) \<Rightarrow> mem \<Rightarrow> nat \<Rightarrow> nat option" where
  "scan_while P m s = do { c \<leftarrow> rd m s; if P c then scan_while P m (s + 1) else Some s }"

definition strlen :: "mem \<Rightarrow> nat \<Rightarrow> nat option" where
  "strlen m s = do { p \<leftarrow> scan_while (\<lambda>c. c \<noteq> 0) m s; Some (p - s) }"

fun strnlen_loop :: "mem \<Rightarrow> nat \<Rightarrow> nat \<Rightarrow> nat option" where
  "strnlen_loop m p 0 = Some p"
| "strnlen_loop m p (Suc n) = do { c \<leftarrow> rd m p; if c \<noteq> 0 then strnlen_loop m (p + 1) n else Some p }"

definition strnlen :: "mem \<Rightarrow> nat \<Rightarrow> nat \<Rightarrow> nat option" where
  "strnlen m s n = do { p \<leftarrow> strnlen_loop m s n; Some (p - s) }"

partial_function (option) strchr_loop :: "mem \<Rightarrow> nat \<Rightarrow> byte \<Rightarrow> nat option" where
  "strchr_loop m p c = do {
     x \<leftarrow> rd m p;
     if x = c then Some p else if x = 0 then Some NULL else strchr_loop m (p + 1) c
   }"

definition strchr :: "mem \<Rightarrow> nat \<Rightarrow> int \<Rightarrow> nat option" where
  "strchr m p ch = strchr_loop m p (word_of_int ch)"

definition index :: "mem \<Rightarrow> nat \<Rightarrow> int \<Rightarrow> nat option" where
  "index m s c = strchr m s c"

partial_function (option) strrchr_loop :: "mem \<Rightarrow> nat \<Rightarrow> byte \<Rightarrow> nat \<Rightarrow> nat option" where
  "strrchr_loop m s c p = do {
     x \<leftarrow> rd m s;
     let p = (if x = c then s else p);
     if x \<noteq> 0 then strrchr_loop m (s + 1) c p else Some p
   }"

definition strrchr :: "mem \<Rightarrow> nat \<Rightarrow> int \<Rightarrow> nat option" where
  "strrchr m s c = strrchr_loop m s (word_of_int c) NULL"

definition rindex :: "mem \<Rightarrow> nat \<Rightarrow> int \<Rightarrow> nat option" where
  "rindex m s c = strrchr m s c"

text \<open>
  \<open>strchrnul\<close> goes byte by byte up to a multiple of 4, then word by word; a word that may hold the
  byte or a NUL is looked at again byte by byte.  Memory is little endian.
\<close>

definition rd32 :: "mem \<Rightarrow> nat \<Rightarrow> u32 option" where
  "rd32 m p = (if p + 4 \<le> length m then Some (get32 m p) else None)"

definition MAGIC_BITS :: u32 where
  "MAGIC_BITS = drop_bit 1 (push_bit 1 ((0xffffffff div 0xff) * 0xfe)) OR 1"

definition char_mask :: "byte \<Rightarrow> u32" where
  "char_mask c = (let m = ucast c OR push_bit 8 (ucast c) in m OR push_bit 16 m)"

definition may_have_zero :: "u32 \<Rightarrow> bool" where
  "may_have_zero w \<longleftrightarrow> ((w + MAGIC_BITS) XOR NOT w) AND NOT MAGIC_BITS \<noteq> 0"

definition stop_at :: "byte \<Rightarrow> byte \<Rightarrow> bool" where
  "stop_at c x \<longleftrightarrow> x = c \<or> x = 0"

partial_function (option) strchrnul_words :: "mem \<Rightarrow> nat \<Rightarrow> byte \<Rightarrow> nat option" where
  "strchrnul_words m p c = do {
     w \<leftarrow> rd32 m p;
     if may_have_zero w \<or> may_have_zero (w XOR char_mask c) then do {
       b0 \<leftarrow> rd m p;
       b1 \<leftarrow> rd m (p + 1);
       b2 \<leftarrow> rd m (p + 2);
       b3 \<leftarrow> rd m (p + 3);
       if stop_at c b0 then Some p
       else if stop_at c b1 then Some (p + 1)
       else if stop_at c b2 then Some (p + 2)
       else if stop_at c b3 then Some (p + 3)
       else strchrnul_words m (p + 4) c
     }
     else strchrnul_words m (p + 4) c
   }"

partial_function (option) strchrnul_align :: "mem \<Rightarrow> nat \<Rightarrow> byte \<Rightarrow> nat option" where
  "strchrnul_align m p c =
     (if p mod 4 \<noteq> 0 then do {
        x \<leftarrow> rd m p;
        if stop_at c x then Some p else strchrnul_align m (p + 1) c
      }
      else strchrnul_words m p c)"

definition strchrnul :: "mem \<Rightarrow> nat \<Rightarrow> int \<Rightarrow> nat option" where
  "strchrnul m s c_in = strchrnul_align m s (word_of_int c_in)"

text \<open>Sets of characters given by a string: with and without its NUL.\<close>

partial_function (option) in_span :: "mem \<Rightarrow> nat \<Rightarrow> byte \<Rightarrow> bool option" where
  "in_span m spanp c = do {
     sc \<leftarrow> rd m spanp;
     if sc = c then Some True else if sc \<noteq> 0 then in_span m (spanp + 1) c else Some False
   }"

partial_function (option) in_delim :: "mem \<Rightarrow> nat \<Rightarrow> byte \<Rightarrow> bool option" where
  "in_delim m spanp c = do {
     sc \<leftarrow> rd m spanp;
     if sc = 0 then Some False else if c = sc then Some True else in_delim m (spanp + 1) c
   }"

partial_function (option) strcspn_loop :: "mem \<Rightarrow> nat \<Rightarrow> nat \<Rightarrow> nat option" where
  "strcspn_loop m p s2 = do {
     c \<leftarrow> rd m p;
     b \<leftarrow> in_span m s2 c;
     if b then Some p else strcspn_loop m (p + 1) s2
   }"

definition strcspn :: "mem \<Rightarrow> nat \<Rightarrow> nat \<Rightarrow> nat option" where
  "strcspn m s1 s2 = do { p \<leftarrow> strcspn_loop m s1 s2; Some (p - s1) }"

partial_function (option) strpbrk_loop :: "mem \<Rightarrow> nat \<Rightarrow> nat \<Rightarrow> nat option" where
  "strpbrk_loop m s s2 = do {
     c \<leftarrow> rd m s;
     if c = 0 then Some NULL
     else do {
       b \<leftarrow> in_delim m s2 c;
       if b then Some s else strpbrk_loop m (s + 1) s2
     }
   }"

definition strpbrk :: "mem \<Rightarrow> nat \<Rightarrow> nat \<Rightarrow> nat option" where
  "strpbrk m s1 s2 = strpbrk_loop m s1 s2"

text \<open>\<open>strspn\<close> with two or more characters keeps them in a set of 256 bits, eight words.\<close>

definition bit_or :: "u32 list \<Rightarrow> byte \<Rightarrow> u32 list" where
  "bit_or bs b = bs[unat b div 32 := bs ! (unat b div 32) OR push_bit (unat b mod 32) 1]"

definition bit_and :: "u32 list \<Rightarrow> byte \<Rightarrow> u32" where
  "bit_and bs b = bs ! (unat b div 32) AND push_bit (unat b mod 32) 1"

partial_function (option) byteset_build :: "mem \<Rightarrow> nat \<Rightarrow> u32 list \<Rightarrow> u32 list option" where
  "byteset_build m c bs = do {
     x \<leftarrow> rd m c;
     if x = 0 then Some bs
     else let bs = bit_or bs x in
       if bs ! (unat x div 32) \<noteq> 0 then byteset_build m (c + 1) bs else Some bs
   }"

definition strspn :: "mem \<Rightarrow> nat \<Rightarrow> nat \<Rightarrow> nat option" where
  "strspn m s c = do {
     c0 \<leftarrow> rd m c;
     if c0 = 0 then Some 0
     else do {
       c1 \<leftarrow> rd m (c + 1);
       if c1 = 0 then do {
         p \<leftarrow> scan_while (\<lambda>x. x = c0) m s;
         Some (p - s)
       }
       else do {
         bs \<leftarrow> byteset_build m c (replicate 8 0);
         p \<leftarrow> scan_while (\<lambda>x. x \<noteq> 0 \<and> bit_and bs x \<noteq> 0) m s;
         Some (p - s)
       }
     }
   }"

section \<open>Comparing\<close>

partial_function (option) strcmp :: "mem \<Rightarrow> nat \<Rightarrow> nat \<Rightarrow> int option" where
  "strcmp m s1 s2 = do {
     x \<leftarrow> rd m s1;
     y \<leftarrow> rd m s2;
     if x = y then (if x = 0 then Some 0 else strcmp m (s1 + 1) (s2 + 1))
     else Some (uint x - uint y)
   }"

definition strcoll :: "mem \<Rightarrow> nat \<Rightarrow> nat \<Rightarrow> int option" where
  "strcoll m s1 s2 = strcmp m s1 s2"

fun strncmp :: "mem \<Rightarrow> nat \<Rightarrow> nat \<Rightarrow> nat \<Rightarrow> int option" where
  "strncmp m s1 s2 0 = Some 0"
| "strncmp m s1 s2 (Suc n) = do {
     x \<leftarrow> rd m s1;
     y \<leftarrow> rd m s2;
     if x \<noteq> y then Some (uint x - uint y)
     else if x = 0 then Some 0
     else strncmp m (s1 + 1) (s2 + 1) n
   }"

partial_function (option) strcasecmp :: "mem \<Rightarrow> nat \<Rightarrow> nat \<Rightarrow> int option" where
  "strcasecmp m l r = do {
     x \<leftarrow> rd m l;
     y \<leftarrow> rd m r;
     if x \<noteq> 0 \<and> y \<noteq> 0 \<and> (x = y \<or> tolower (uint x) = tolower (uint y)) then strcasecmp m (l + 1) (r + 1)
     else Some (tolower (uint x) - tolower (uint y))
   }"

fun strncasecmp_loop :: "mem \<Rightarrow> nat \<Rightarrow> nat \<Rightarrow> nat \<Rightarrow> int option" where
  "strncasecmp_loop m l r n = do {
     x \<leftarrow> rd m l;
     y \<leftarrow> rd m r;
     case n of
       0 \<Rightarrow> Some (tolower (uint x) - tolower (uint y))
     | Suc k \<Rightarrow>
         if x \<noteq> 0 \<and> y \<noteq> 0 \<and> (x = y \<or> tolower (uint x) = tolower (uint y))
         then strncasecmp_loop m (l + 1) (r + 1) k
         else Some (tolower (uint x) - tolower (uint y))
   }"

declare strncasecmp_loop.simps [simp del]

definition strncasecmp :: "mem \<Rightarrow> nat \<Rightarrow> nat \<Rightarrow> nat \<Rightarrow> int option" where
  "strncasecmp m s1 s2 n = (case n of 0 \<Rightarrow> Some 0 | Suc k \<Rightarrow> strncasecmp_loop m s1 s2 k)"

partial_function (option) strcasestr_loop :: "mem \<Rightarrow> nat \<Rightarrow> nat \<Rightarrow> nat \<Rightarrow> nat option" where
  "strcasestr_loop m h n l = do {
     c \<leftarrow> rd m h;
     if c = 0 then Some NULL
     else do {
       r \<leftarrow> strncasecmp m h n l;
       if r = 0 then Some h else strcasestr_loop m (h + 1) n l
     }
   }"

definition strcasestr :: "mem \<Rightarrow> nat \<Rightarrow> nat \<Rightarrow> nat option" where
  "strcasestr m h n = do { l \<leftarrow> strlen m n; strcasestr_loop m h n l }"

text \<open>\<open>strstr\<close>: the inner loop compares up to the NUL of the substring.\<close>

partial_function (option) match_at :: "mem \<Rightarrow> nat \<Rightarrow> nat \<Rightarrow> bool option" where
  "match_at m a b = do {
     y \<leftarrow> rd m b;
     if y = 0 then Some True
     else do {
       x \<leftarrow> rd m a;
       if x \<noteq> y then Some False else match_at m (a + 1) (b + 1)
     }
   }"

partial_function (option) strstr_loop :: "mem \<Rightarrow> nat \<Rightarrow> nat \<Rightarrow> nat option" where
  "strstr_loop m s substring = do {
     x \<leftarrow> rd m s;
     if x = 0 then Some NULL
     else do {
       y \<leftarrow> rd m substring;
       if x \<noteq> y then strstr_loop m (s + 1) substring
       else do {
         b \<leftarrow> match_at m s substring;
         if b then Some s else strstr_loop m (s + 1) substring
       }
     }
   }"

definition strstr :: "mem \<Rightarrow> nat \<Rightarrow> nat \<Rightarrow> nat option" where
  "strstr m s substring = do {
     b \<leftarrow> rd m substring;
     if b = 0 then Some s else strstr_loop m s substring
   }"

end
