(* ===== verification/CStringW.thy ===== *)
theory CStringW
  imports CString
begin

text \<open>
  The functions of \<open>zlibs/libc/string.c\<close> that write memory: copying and appending strings, and
  cutting them into tokens and path components.
\<close>

section \<open>Copying\<close>

partial_function (option) strcpy_loop :: "mem \<Rightarrow> nat \<Rightarrow> nat \<Rightarrow> mem option" where
  "strcpy_loop m s1 s2 = do {
     c \<leftarrow> rd m s2;
     if c = 0 then wr m s1 0
     else do { m \<leftarrow> wr m s1 c; strcpy_loop m (s1 + 1) (s2 + 1) }
   }"

definition strcpy :: "mem \<Rightarrow> nat \<Rightarrow> nat \<Rightarrow> (nat \<times> mem) option" where
  "strcpy m s1 s2 = do { m \<leftarrow> strcpy_loop m s1 s2; Some (s1, m) }"

partial_function (option) stpcpy :: "mem \<Rightarrow> nat \<Rightarrow> nat \<Rightarrow> (nat \<times> mem) option" where
  "stpcpy m s1 s2 = do {
     c \<leftarrow> rd m s2;
     m \<leftarrow> wr m s1 c;
     if c \<noteq> 0 then stpcpy m (s1 + 1) (s2 + 1) else Some (s1, m)
   }"

text \<open>The loop of \<open>strncpy\<close> and \<open>stpncpy\<close>: where the source stopped, and the memory.\<close>

fun copy_pad :: "mem \<Rightarrow> nat \<Rightarrow> nat \<Rightarrow> nat \<Rightarrow> (nat \<times> mem) option" where
  "copy_pad m s s2 0 = Some (s2, m)"
| "copy_pad m s s2 (Suc n) = do {
     c \<leftarrow> rd m s2;
     m \<leftarrow> wr m s c;
     copy_pad m (s + 1) (if c \<noteq> 0 then s2 + 1 else s2) n
   }"

definition strncpy :: "mem \<Rightarrow> nat \<Rightarrow> nat \<Rightarrow> nat \<Rightarrow> (nat \<times> mem) option" where
  "strncpy m s1 s2 n = do { (_, m) \<leftarrow> copy_pad m s1 s2 n; Some (s1, m) }"

definition stpncpy :: "mem \<Rightarrow> nat \<Rightarrow> nat \<Rightarrow> nat \<Rightarrow> (nat \<times> mem) option" where
  "stpncpy m s1 s2 n = do { (e, m) \<leftarrow> copy_pad m s1 s2 n; Some (s1 + (e - s2), m) }"

definition strcat :: "mem \<Rightarrow> nat \<Rightarrow> nat \<Rightarrow> (nat \<times> mem) option" where
  "strcat m s1 s2 = do {
     e \<leftarrow> scan_while (\<lambda>c. c \<noteq> 0) m s1;
     m \<leftarrow> strcpy_loop m e s2;
     Some (s1, m)
   }"

text \<open>Up to \<open>n\<close> bytes are appended, then the NUL; the byte that ends the loop is written twice.\<close>

fun strncat_loop :: "mem \<Rightarrow> nat \<Rightarrow> nat \<Rightarrow> nat \<Rightarrow> mem option" where
  "strncat_loop m s s2 0 = wr m s 0"
| "strncat_loop m s s2 (Suc n) = do {
     c \<leftarrow> rd m s2;
     m \<leftarrow> wr m s c;
     if c \<noteq> 0 then strncat_loop m (s + 1) (s2 + 1) n else wr m s 0
   }"

definition strncat :: "mem \<Rightarrow> nat \<Rightarrow> nat \<Rightarrow> nat \<Rightarrow> (nat \<times> mem) option" where
  "strncat m s1 s2 n = do {
     e \<leftarrow> scan_while (\<lambda>c. c \<noteq> 0) m s1;
     m \<leftarrow> strncat_loop m e s2 n;
     Some (s1, m)
   }"

text \<open>The local byte \<open>dummy\<close> is \<open>None\<close>: what is written there is lost.\<close>

definition wr_dst :: "mem \<Rightarrow> nat option \<Rightarrow> byte \<Rightarrow> mem option" where
  "wr_dst m dst c = (case dst of None \<Rightarrow> Some m | Some d \<Rightarrow> wr m d c)"

partial_function (option) strlcpy_loop :: "mem \<Rightarrow> nat option \<Rightarrow> nat \<Rightarrow> nat \<Rightarrow> (nat \<times> mem) option" where
  "strlcpy_loop m dst src n = do {
     c \<leftarrow> rd m src;
     m \<leftarrow> wr_dst m dst c;
     if c = 0 then Some (src, m)
     else if n \<noteq> 0 then strlcpy_loop m (map_option Suc dst) (src + 1) (n - 1)
     else strlcpy_loop m dst (src + 1) n
   }"

definition strlcpy :: "mem \<Rightarrow> nat \<Rightarrow> nat \<Rightarrow> nat \<Rightarrow> (nat \<times> mem) option" where
  "strlcpy m dst src n = do {
     (e, m) \<leftarrow> (if n = 0 then strlcpy_loop m None src 0 else strlcpy_loop m (Some dst) src (n - 1));
     Some (e - src, m)
   }"

partial_function (option) strlcat_seek :: "mem \<Rightarrow> nat \<Rightarrow> nat \<Rightarrow> nat \<Rightarrow> (nat option \<times> nat) option" where
  "strlcat_seek m dst len n =
     (if len \<ge> n then Some (None, len)
      else do {
        c \<leftarrow> rd m dst;
        if c = 0 then Some (Some dst, len) else strlcat_seek m (dst + 1) (len + 1) n
      })"

partial_function (option) strlcat_loop :: "mem \<Rightarrow> nat option \<Rightarrow> nat \<Rightarrow> nat \<Rightarrow> nat \<Rightarrow> (nat \<times> mem) option" where
  "strlcat_loop m dst src len n = do {
     c \<leftarrow> rd m src;
     m \<leftarrow> wr_dst m dst c;
     if c = 0 then Some (len, m)
     else if len + 1 < n then strlcat_loop m (map_option Suc dst) (src + 1) (len + 1) n
     else strlcat_loop m dst (src + 1) (len + 1) n
   }"

definition strlcat :: "mem \<Rightarrow> nat \<Rightarrow> nat \<Rightarrow> nat \<Rightarrow> (nat \<times> mem) option" where
  "strlcat m dst src n = do {
     (d, len) \<leftarrow> strlcat_seek m dst 0 n;
     strlcat_loop m d src len n
   }"

text \<open>\<open>d\<close> is what \<open>malloc\<close> returns.\<close>

definition strdup :: "nat \<Rightarrow> mem \<Rightarrow> nat \<Rightarrow> (nat \<times> mem) option" where
  "strdup d m s =
     (if s = NULL then Some (NULL, m)
      else do {
        l \<leftarrow> strlen m s;
        if d = NULL then Some (NULL, m) else memcpy m d s (l + 1)
      })"

definition strndup :: "nat \<Rightarrow> mem \<Rightarrow> nat \<Rightarrow> nat \<Rightarrow> (nat \<times> mem) option" where
  "strndup d m s n = do {
     len \<leftarrow> strnlen m s n;
     if d = NULL then Some (NULL, m)
     else do {
       (_, m) \<leftarrow> memcpy m d s len;
       m \<leftarrow> wr m (d + len) 0;
       Some (d, m)
     }
   }"

section \<open>Tokens\<close>

text \<open>
  The loop at the end of \<open>strsep\<close> and \<open>strtok\<close>: the pointer behind the token (\<open>NULL\<close> at the end of
  the string) and the memory, with the delimiter overwritten.
\<close>

partial_function (option) cut_token :: "mem \<Rightarrow> nat \<Rightarrow> nat \<Rightarrow> (nat \<times> mem) option" where
  "cut_token m s delim = do {
     c \<leftarrow> rd m s;
     b \<leftarrow> in_span m delim c;
     if b then (if c = 0 then Some (NULL, m) else do { m \<leftarrow> wr m s 0; Some (s + 1, m) })
     else cut_token m (s + 1) delim
   }"

text \<open>The result, the new \<open>*stringp\<close> and the memory.\<close>

definition strsep :: "mem \<Rightarrow> nat \<Rightarrow> nat \<Rightarrow> (nat \<times> nat \<times> mem) option" where
  "strsep m stringp delim =
     (if stringp = NULL then Some (NULL, stringp, m)
      else do {
        (s, m) \<leftarrow> cut_token m stringp delim;
        Some (stringp, s, m)
      })"

partial_function (option) skip_delim :: "mem \<Rightarrow> nat \<Rightarrow> nat \<Rightarrow> nat option" where
  "skip_delim m s delim = do {
     c \<leftarrow> rd m s;
     b \<leftarrow> in_delim m delim c;
     if b then skip_delim m (s + 1) delim else Some s
   }"

text \<open>\<open>last\<close> is the static variable of \<open>strtok\<close>.\<close>

definition strtok :: "nat \<Rightarrow> mem \<Rightarrow> nat \<Rightarrow> nat \<Rightarrow> (nat \<times> nat \<times> mem) option" where
  "strtok lst m s delim =
     (let s = (if s = NULL then lst else s) in
      if s = NULL then Some (NULL, lst, m)
      else do {
        tok \<leftarrow> skip_delim m s delim;
        c \<leftarrow> rd m tok;
        if c = 0 then Some (NULL, NULL, m)
        else do {
          (lst, m) \<leftarrow> cut_token m (tok + 1) delim;
          Some (tok, lst, m)
        }
      })"

definition strtok_r :: "mem \<Rightarrow> nat \<Rightarrow> nat \<Rightarrow> nat \<Rightarrow> (nat \<times> nat \<times> mem) option" where
  "strtok_r m s delim save_ptr = do {
     let s = (if s = NULL then save_ptr else s);
     c \<leftarrow> rd m s;
     if c = 0 then Some (NULL, s, m)
     else do {
       k \<leftarrow> strspn m s delim;
       let s = s + k;
       c \<leftarrow> rd m s;
       if c = 0 then Some (NULL, s, m)
       else do {
         k \<leftarrow> strcspn m s delim;
         let e = s + k;
         c \<leftarrow> rd m e;
         if c = 0 then Some (s, e, m)
         else do {
           m \<leftarrow> wr m e 0;
           Some (s, e + 1, m)
         }
       }
     }
   }"

section \<open>Paths\<close>

partial_function (option) basename_loop :: "mem \<Rightarrow> nat \<Rightarrow> nat \<Rightarrow> nat option" where
  "basename_loop m s p = do {
     c \<leftarrow> rd m s;
     if c = 0 then Some p else basename_loop m (s + 1) (if c = chr_SL then s + 1 else p)
   }"

definition basename :: "mem \<Rightarrow> nat \<Rightarrow> nat option" where
  "basename m path = basename_loop m path path"

partial_function (option) dirname_loop :: "mem \<Rightarrow> nat \<Rightarrow> nat \<Rightarrow> nat option" where
  "dirname_loop m s lst = do {
     first \<leftarrow> scan_while (\<lambda>c. c \<noteq> 0 \<and> c \<noteq> chr_SL) m s;
     s \<leftarrow> scan_while (\<lambda>c. c = chr_SL) m first;
     c \<leftarrow> rd m s;
     if c \<noteq> 0 then dirname_loop m s first else Some lst
   }"

text \<open>The result is \<open>None\<close> for the static string \<open>"."\<close>, otherwise the path, cut in place.\<close>

definition dirname :: "mem \<Rightarrow> nat \<Rightarrow> (nat option \<times> mem) option" where
  "dirname m path =
     (if path = NULL then Some (None, m)
      else do {
        lst \<leftarrow> dirname_loop m path path;
        if lst = path then do {
          c \<leftarrow> rd m lst;
          if c \<noteq> chr_SL then Some (None, m)
          else do {
            let lst = lst + 1;
            c \<leftarrow> rd m lst;
            lst \<leftarrow> (if c = chr_SL then do { d \<leftarrow> rd m (lst + 1); Some (if d = 0 then lst + 1 else lst) }
                     else Some lst);
            m \<leftarrow> wr m lst 0;
            Some (Some path, m)
          }
        }
        else do { m \<leftarrow> wr m lst 0; Some (Some path, m) }
      })"

section \<open>First set bit\<close>

partial_function (option) ffs_loop :: "u32 \<Rightarrow> int \<Rightarrow> int option" where
  "ffs_loop w k =
     (if w AND 1 = 0 then ffs_loop (signed_drop_bit 1 w) (k + 1) else Some k)"

definition ffs :: "u32 \<Rightarrow> int option" where
  "ffs w = (if w = 0 then Some 0 else ffs_loop w 1)"

definition ffsll :: "u64 \<Rightarrow> int option" where
  "ffsll i =
     (let x = i AND - i in
      if x \<le> 0xffffffff then ffs (ucast i)
      else map_option (\<lambda>r. 32 + r) (ffs (ucast (signed_drop_bit 32 i))))"

end
