(* ===== verification/CStringFacts.thy ===== *)
theory CStringFacts
  imports CStringW "HOL-Library.Sublist" "HOL-Library.List_Lexorder"
begin

text \<open>
  What the string functions do to strings: \<open>is_str m p s\<close> says that the bytes \<open>s\<close>, none of them
  NUL, begin at \<open>p\<close> and are followed by a NUL.
\<close>

fun is_str :: "mem \<Rightarrow> nat \<Rightarrow> byte list \<Rightarrow> bool" where
  "is_str m p [] \<longleftrightarrow> p < length m \<and> m ! p = 0"
| "is_str m p (c # s) \<longleftrightarrow> p < length m \<and> m ! p = c \<and> c \<noteq> 0 \<and> is_str m (Suc p) s"

lemma is_str_bound: "is_str m p s \<Longrightarrow> p + length s < length m"
proof (induction s arbitrary: p)
  case (Cons c s)
  then show ?case
    using Cons.IH [of "Suc p"] by simp
qed simp

lemma is_str_nz: "is_str m p s \<Longrightarrow> 0 \<notin> set s"
  by (induction s arbitrary: p) auto

lemma is_str_nth: "is_str m p s \<Longrightarrow> i < length s \<Longrightarrow> m ! (p + i) = s ! i"
proof (induction s arbitrary: p i)
  case (Cons c s)
  then show ?case
    using Cons.IH [of "Suc p" "i - 1"] by (cases i) auto
qed simp

lemma is_str_end: "is_str m p s \<Longrightarrow> m ! (p + length s) = 0"
proof (induction s arbitrary: p)
  case (Cons c s)
  then show ?case
    using Cons.IH [of "Suc p"] by simp
qed simp

lemma is_str_append: "is_str m p (s @ t) \<longleftrightarrow> (\<forall>i<length s. p + i < length m \<and> m ! (p + i) = s ! i) \<and> 0 \<notin> set s \<and>
    is_str m (p + length s) t"
proof (induction s arbitrary: p)
  case (Cons c s)
  then show ?case
    by (auto simp: All_less_Suc2)
qed simp

lemma is_str_drop: "is_str m p s \<Longrightarrow> i \<le> length s \<Longrightarrow> is_str m (p + i) (drop i s)"
  using is_str_append [of m p "take i s" "drop i s"] by (simp add: min.absorb2)

lemma is_str_unique: "is_str m p s \<Longrightarrow> is_str m p t \<Longrightarrow> s = t"
  by (induction s arbitrary: p t) (case_tac t; auto)+

lemma is_str_frame:
  assumes "length m' = length m" and "\<forall>i. p \<le> i \<and> i \<le> p + length s \<longrightarrow> m' ! i = m ! i"
  shows "is_str m' p s = is_str m p s"
  using assms by (induction s arbitrary: p) auto

lemma is_str_update: "i < p \<or> p + length s < i \<Longrightarrow> is_str (m[i := c]) p s = is_str m p s"
  by (rule is_str_frame) auto

lemma is_str_mread: "is_str m p s \<longleftrightarrow> p + length s < length m \<and> mread m p (length s + 1) = s @ [0] \<and> 0 \<notin> set s"
proof (induction s arbitrary: p)
  case Nil
  then show ?case
    by (auto simp: mread_Suc)
next
  case (Cons c s)
  then show ?case
    by (cases "p < length m") (auto simp: mread_Suc)
qed

lemma is_str_mwrite: "p + length s < length m \<Longrightarrow> 0 \<notin> set s \<Longrightarrow> is_str (mwrite m p (s @ [0])) p s"
  using mread_mwrite_same [of p "s @ [0]" m] by (simp add: is_str_mread)

lemma is_str_mwrite_frame:
  "q + length xs \<le> length m \<Longrightarrow> q + length xs \<le> p \<or> p + length s < q \<Longrightarrow> is_str (mwrite m q xs) p s = is_str m p s"
  by (cases "p + length s < length m") (intro is_str_frame, auto simp: nth_mwrite is_str_mread)

section \<open>Scanning\<close>

lemma length_takeWhile_less: "x \<in> set xs \<Longrightarrow> \<not> P x \<Longrightarrow> length (takeWhile P xs) < length xs"
  by (induction xs) auto

lemma scan_while_str:
  assumes "is_str m p s" and "\<not> P 0"
  shows "scan_while P m p = Some (p + length (takeWhile P s))"
  using assms(1)
proof (induction s arbitrary: p)
  case Nil
  then show ?case
    using assms(2) by (simp add: scan_while.simps)
next
  case (Cons c s)
  then show ?case
    by (subst scan_while.simps) auto
qed

lemma takeWhile_str: "is_str m p s \<Longrightarrow> takeWhile (\<lambda>c. c \<noteq> 0) s = s"
  using is_str_nz by (force simp: takeWhile_eq_all_conv)

lemma scan_end: "is_str m p s \<Longrightarrow> scan_while (\<lambda>c. c \<noteq> 0) m p = Some (p + length s)"
  using scan_while_str [of m p s "\<lambda>c. c \<noteq> 0"] takeWhile_str [of m p s] by simp

lemma strlen_str: "is_str m p s \<Longrightarrow> strlen m p = Some (length s)"
  by (simp add: strlen_def scan_end)

lemma strnlen_str: "is_str m p s \<Longrightarrow> strnlen m p n = Some (min n (length s))"
proof -
  have "strnlen_loop m p n = Some (p + min n (length s))" if "is_str m p s" for p
    using that
  proof (induction n arbitrary: p s)
    case (Suc n)
    then show ?case
      by (cases s) auto
  qed simp
  then show "is_str m p s \<Longrightarrow> ?thesis"
    by (simp add: strnlen_def)
qed

lemma strchr_str:
  assumes "is_str m p s"
  shows "strchr m p ch = Some (if word_of_int ch \<in> set s \<or> word_of_int ch = (0 :: byte)
    then p + length (takeWhile (\<lambda>x. x \<noteq> word_of_int ch) s) else NULL)"
proof -
  have "strchr_loop m p c = Some (if c \<in> set s \<or> c = 0 then p + length (takeWhile (\<lambda>x. x \<noteq> c) s) else NULL)" for c
    using assms by (induction s arbitrary: p) (auto simp: strchr_loop.simps)
  then show ?thesis
    by (simp add: strchr_def)
qed

lemma strrchr_str:
  assumes "is_str m p s" and "word_of_int ch \<noteq> (0 :: byte)"
  shows "strrchr m p ch = Some (if word_of_int ch \<in> set s
    then p + length s - Suc (length (takeWhile (\<lambda>x. x \<noteq> word_of_int ch) (rev s))) else NULL)"
proof -
  define c :: byte where "c = word_of_int ch"
  have "strrchr_loop m p c q = Some (if c \<in> set s then p + length s - Suc (length (takeWhile (\<lambda>x. x \<noteq> c) (rev s))) else q)"
    for q
    using assms(1)
  proof (induction s arbitrary: p q)
    case Nil
    then show ?case
      using assms(2) by (simp add: strrchr_loop.simps c_def)
  next
    case (Cons x s)
    have "strrchr_loop m p c q = strrchr_loop m (p + 1) c (if x = c then p else q)"
      using Cons.prems by (subst strrchr_loop.simps) (simp add: Let_def)
    moreover have "length (takeWhile (\<lambda>x. x \<noteq> c) (rev s)) < length s" if "c \<in> set s"
      using that length_takeWhile_less [of c "rev s" "\<lambda>x. x \<noteq> c"] by simp
    ultimately show ?case
      using Cons by (auto simp: takeWhile_append)
  qed
  then show ?thesis
    by (simp add: strrchr_def c_def)
qed

lemma in_span_str: "is_str m q t \<Longrightarrow> in_span m q c = Some (c \<in> set t \<or> c = 0)"
  by (induction t arbitrary: q) (auto simp: in_span.simps)

lemma in_delim_str: "is_str m q t \<Longrightarrow> in_delim m q c = Some (c \<in> set t)"
  by (induction t arbitrary: q) (auto simp: in_delim.simps)

lemma strcspn_str:
  assumes "is_str m p s" and "is_str m q t"
  shows "strcspn m p q = Some (length (takeWhile (\<lambda>x. x \<notin> set t) s))"
proof -
  have "strcspn_loop m p q = Some (p + length (takeWhile (\<lambda>x. x \<notin> set t) s))"
    using assms(1)
  proof (induction s arbitrary: p)
    case Nil
    then show ?case
      using in_span_str [OF assms(2)] by (simp add: strcspn_loop.simps)
  next
    case (Cons c s)
    then show ?case
      using in_span_str [OF assms(2)] by (subst strcspn_loop.simps) auto
  qed
  then show ?thesis
    by (simp add: strcspn_def)
qed

lemma strpbrk_str:
  assumes "is_str m p s" and "is_str m q t"
  shows "strpbrk m p q = Some (if set s \<inter> set t = {} then NULL else p + length (takeWhile (\<lambda>x. x \<notin> set t) s))"
  using assms(1) unfolding strpbrk_def
proof (induction s arbitrary: p)
  case Nil
  then show ?case
    by (simp add: strpbrk_loop.simps)
next
  case (Cons c s)
  then show ?case
    using in_delim_str [OF assms(2)] by (subst strpbrk_loop.simps) auto
qed

end
