(* ===== verification/CStringOps.thy ===== *)
theory CStringOps
  imports CStringSearch
begin

text \<open>
  The word trick of \<open>strchrnul\<close>, the functions that copy and append strings, the tokens of
  \<open>strtok_r\<close> and \<open>strsep\<close>, \<open>basename\<close> and \<open>ffs\<close>.
\<close>

section \<open>Four bytes at once\<close>

text \<open>A carry out of the low \<open>k\<close> bits flips bit \<open>k\<close> of the sum when the summand's bit \<open>k\<close> is 0.\<close>

lemma carry_out:
  fixes n d k :: nat
  assumes "even (d div 2 ^ k)" and "odd ((n + d) div 2 ^ k) \<noteq> odd (n div 2 ^ k)"
  shows "2 ^ k \<le> n mod 2 ^ k + d mod 2 ^ k"
proof (rule ccontr)
  assume "\<not> 2 ^ k \<le> n mod 2 ^ k + d mod 2 ^ k"
  then have "(n + d) div 2 ^ k = n div 2 ^ k + d div 2 ^ k"
    using div_add1_eq [of n d "2 ^ k"] by simp
  then show False
    using assms by simp
qed

lemma magic_bits: "MAGIC_BITS = 0x7EFEFEFF"
proof -
  have 1: "(0xffffffff :: u32) div 0xff = 0x01010101"
    by (subst word_unat_eq_iff) (simp add: unat_div)
  have 2: "drop_bit 1 (push_bit 1 (0xFEFEFEFE :: u32)) = 0x7EFEFEFE"
    by (simp add: drop_bit_eq_div push_bit_eq_mult)
  show ?thesis
    unfolding MAGIC_BITS_def 1 using 2 by simp
qed

lemma bit_odd_unat: "bit (w :: u32) k \<longleftrightarrow> odd (unat w div 2 ^ k)"
  by (simp add: bit_iff_odd [of "unat w", symmetric] bit_unsigned_iff)

lemma bit_sum_magic:
  assumes "k < 32"
  shows "bit (w + 0x7EFEFEFF :: u32) k \<longleftrightarrow> odd ((unat w + 0x7EFEFEFF) div 2 ^ k)"
proof -
  have "unat (w + 0x7EFEFEFF) = take_bit 32 (unat w + 0x7EFEFEFF)"
    by (simp add: unat_word_ariths take_bit_eq_mod)
  then show ?thesis
    using assms by (simp only: bit_odd_unat bit_iff_odd [symmetric] bit_take_bit_iff simp_thms)
qed

lemma no_zero_byte:
  assumes "\<not> may_have_zero w"
  shows "unat w mod 2 ^ 8 \<noteq> 0" "unat w div 2 ^ 8 mod 2 ^ 8 \<noteq> 0" "unat w div 2 ^ 16 mod 2 ^ 8 \<noteq> 0"
    "unat w div 2 ^ 24 mod 2 ^ 8 \<noteq> 0"
proof -
  have flip: "bit (w + 0x7EFEFEFF) k \<noteq> bit w k" if "k < 32" "\<not> bit (0x7EFEFEFF :: u32) k" for k
  proof -
    have "\<not> bit (((w + 0x7EFEFEFF) XOR NOT w) AND NOT 0x7EFEFEFF) k"
      using assms by (simp add: may_have_zero_def magic_bits)
    then show ?thesis
      using that by (auto simp: bit_simps)
  qed
  have c: "2 ^ k \<le> unat w mod 2 ^ k + 0x7EFEFEFF mod 2 ^ k" if "k \<in> {8, 16, 24, 31}" for k :: nat
  proof (rule carry_out)
    have k: "k < 32" "\<not> bit (0x7EFEFEFF :: u32) k" "even ((0x7EFEFEFF :: nat) div 2 ^ k)"
      using that by auto
    then show "even ((0x7EFEFEFF :: nat) div 2 ^ k)"
      by simp
    show "odd ((unat w + 0x7EFEFEFF) div 2 ^ k) \<noteq> odd (unat w div 2 ^ k)"
      using flip [OF k(1,2)] bit_sum_magic [OF k(1)] bit_odd_unat by simp
  qed
  show "unat w mod 2 ^ 8 \<noteq> 0"
    using c [of 8] by simp
  have "257 \<le> unat w mod 65536"
    using c [of 16] by simp
  then show "unat w div 2 ^ 8 mod 2 ^ 8 \<noteq> 0"
    using mod_mult2_eq [of "unat w" 256 256] by auto
  have "65793 \<le> unat w mod 16777216"
    using c [of 24] by simp
  then show "unat w div 2 ^ 16 mod 2 ^ 8 \<noteq> 0"
    using mod_mult2_eq [of "unat w" 65536 256] by auto
  have "16843009 \<le> unat w mod 2147483648"
    using c [of 31] by simp
  moreover have "unat w mod 2147483648 = 16777216 * (unat w div 16777216 mod 128) + unat w mod 16777216"
    using mod_mult2_eq [of "unat w" 16777216 128] by simp
  moreover have "unat w mod 16777216 < 16777216"
    by simp
  ultimately have "unat w div 16777216 mod 128 \<noteq> 0"
    by linarith
  then show "unat w div 2 ^ 24 mod 2 ^ 8 \<noteq> 0"
    using mod_mult2_eq [of "unat w div 16777216" 128 2] by auto
qed

lemma unat_byte_zero: "(ucast (drop_bit k (w :: u32)) :: byte) = 0 \<longleftrightarrow> unat w div 2 ^ k mod 2 ^ 8 = 0"
proof -
  have "unat w < 2 ^ 32"
    using unsigned_less [of w, where 'a = nat] by simp
  then have "unat (ucast (drop_bit k w) :: byte) = unat w div 2 ^ k mod 2 ^ 8"
    by (simp only: unsigned_ucast_eq unsigned_drop_bit_eq take_bit_eq_mod) (simp add: drop_bit_eq_div)
  then show ?thesis
    by (metis unsigned_eq_0_iff)
qed

lemma byte_high_bits: "\<not> bit (c :: byte) (8 + n)" "\<not> bit (c :: byte) (16 + n)" "\<not> bit (c :: byte) (24 + n)"
  by (auto dest: bit_imp_le_length)

lemma get32_byte:
  assumes "p + 4 \<le> length m" and "j < 4"
  shows "(ucast (drop_bit (8 * j) (get32 m p)) :: byte) = m ! (p + j)"
proof -
  have b: "mread m p 4 ! i = m ! (p + i)" if "i < 4" for i
    using that assms(1) by simp
  consider "j = 0" | "j = 1" | "j = 2" | "j = 3"
    using assms(2) by fastforce
  then show ?thesis
    unfolding get32_def of_le32_def using b
    by cases (auto intro!: bit_word_eqI simp: bit_simps byte_high_bits)
qed

lemma char_mask_byte: "j < 4 \<Longrightarrow> (ucast (drop_bit (8 * j) (char_mask c)) :: byte) = c"
proof -
  assume "j < 4"
  then consider "j = 0" | "j = 1" | "j = 2" | "j = 3"
    by fastforce
  then show ?thesis
    unfolding char_mask_def Let_def by cases (auto intro!: bit_word_eqI simp: bit_simps byte_high_bits)
qed

lemma word_stops:
  assumes "p + 4 \<le> length m" and "j < 4" and "stop_at c (m ! (p + j))"
  shows "may_have_zero (get32 m p) \<or> may_have_zero (get32 m p XOR char_mask c)"
proof (rule ccontr)
  assume *: "\<not> ?thesis"
  have nz: "(ucast (drop_bit (8 * j) w) :: byte) \<noteq> 0" if "\<not> may_have_zero w" for w :: u32
  proof -
    consider "j = 0" | "j = 1" | "j = 2" | "j = 3"
      using assms(2) by fastforce
    then show ?thesis
      using no_zero_byte [OF that] unfolding unat_byte_zero by cases simp_all
  qed
  have "(ucast (drop_bit (8 * j) (get32 m p XOR char_mask c)) :: byte) =
      ucast (drop_bit (8 * j) (get32 m p)) XOR ucast (drop_bit (8 * j) (char_mask c))"
    by (rule bit_word_eqI) (simp add: bit_simps)
  also have "\<dots> = m ! (p + j) XOR c"
    using get32_byte [OF assms(1,2)] char_mask_byte [OF assms(2)] by simp
  finally have x: "ucast (drop_bit (8 * j) (get32 m p XOR char_mask c)) = m ! (p + j) XOR c" .
  have "m ! (p + j) XOR c \<noteq> 0"
    unfolding x [symmetric] using * by (intro nz) simp
  then have "m ! (p + j) \<noteq> c"
    by auto
  moreover have "m ! (p + j) \<noteq> 0"
    using nz * get32_byte [OF assms(1,2)] by auto
  ultimately show False
    using assms(3) by (simp add: stop_at_def)
qed

lemma strchrnul_words_ok:
  assumes "\<forall>j<k. \<not> stop_at c (m ! (p + j))" and "stop_at c (m ! (p + k))" and "p + k < length m"
    and "p mod 4 = 0" and "length m mod 4 = 0"
  shows "strchrnul_words m p c = Some (p + k)"
  using assms
proof (induction k arbitrary: p rule: less_induct)
  case (less k)
  have p4: "p + 4 \<le> length m"
    using less.prems(3-5) by presburger
  let ?b = "\<lambda>j. m ! (p + j)"
  have r: "rd32 m p = Some (get32 m p)" "rd m p = Some (?b 0)" "rd m (p + 1) = Some (?b 1)"
      "rd m (p + 2) = Some (?b 2)" "rd m (p + 3) = Some (?b 3)"
    using p4 by (simp_all add: rd32_def)
  show ?case
  proof (cases "k < 4")
    case True
    then have "may_have_zero (get32 m p) \<or> may_have_zero (get32 m p XOR char_mask c)"
      using word_stops [OF p4 _ less.prems(2)] by blast
    moreover have "k = 0 \<or> k = 1 \<or> k = 2 \<or> k = 3"
      using True by auto
    ultimately show ?thesis
      using r less.prems(1,2) by (subst strchrnul_words.simps) (auto simp: numeral_2_eq_2 numeral_3_eq_3 All_less_Suc2)
  next
    case False
    have n: "\<not> stop_at c (?b 0)" "\<not> stop_at c (?b 1)" "\<not> stop_at c (?b 2)" "\<not> stop_at c (?b 3)"
      using less.prems(1) [rule_format, of 0] less.prems(1) [rule_format, of 1] less.prems(1) [rule_format, of 2]
        less.prems(1) [rule_format, of 3] False by simp_all
    have "strchrnul_words m p c = strchrnul_words m (p + 4) c"
      using r n by (subst strchrnul_words.simps) simp
    also have "\<dots> = Some (p + 4 + (k - 4))"
    proof (rule less.IH)
      show "\<forall>j<k - 4. \<not> stop_at c (m ! (p + 4 + j))"
        using less.prems(1) by (auto simp: add.assoc)
    qed (use less.prems False in \<open>auto simp: mod_add_left_eq\<close>)
    finally show ?thesis
      using False by simp
  qed
qed

lemma strchrnul_align_ok:
  assumes "\<forall>j<k. \<not> stop_at c (m ! (p + j))" and "stop_at c (m ! (p + k))" and "p + k < length m"
    and "length m mod 4 = 0"
  shows "strchrnul_align m p c = Some (p + k)"
  using assms(1-3)
proof (induction k arbitrary: p)
  case 0
  then show ?case
    using strchrnul_words_ok [of 0 c m p] assms(4) by (subst strchrnul_align.simps) auto
next
  case (Suc k)
  show ?case
  proof (cases "p mod 4 = 0")
    case True
    then show ?thesis
      using strchrnul_words_ok [of "Suc k" c m p] Suc.prems assms(4) by (subst strchrnul_align.simps) auto
  next
    case False
    have "strchrnul_align m p c = strchrnul_align m (p + 1) c"
      using Suc.prems False by (subst strchrnul_align.simps) auto
    then show ?thesis
      using Suc.IH [of "p + 1"] Suc.prems by (auto simp: All_less_Suc2)
  qed
qed

lemma strchrnul_str:
  assumes "is_str m p s" and "length m mod 4 = 0"
  shows "strchrnul m p ch = Some (p + length (takeWhile (\<lambda>x. x \<noteq> word_of_int ch) s))"
proof -
  let ?k = "length (takeWhile (\<lambda>x. x \<noteq> word_of_int ch) s)"
  have k: "?k \<le> length s"
    by (rule length_takeWhile_le)
  have "stop_at (word_of_int ch) (m ! (p + ?k))"
  proof (cases "?k = length s")
    case True
    then show ?thesis
      using is_str_end [OF assms(1)] by (simp add: stop_at_def)
  next
    case False
    then have "?k < length s"
      using k by simp
    then show ?thesis
      using is_str_nth [OF assms(1)] nth_length_takeWhile [of "\<lambda>x. x \<noteq> word_of_int ch" s] by (simp add: stop_at_def)
  qed
  moreover have "\<not> stop_at (word_of_int ch) (m ! (p + j))" if "j < ?k" for j
  proof -
    have "s ! j \<in> set (takeWhile (\<lambda>x. x \<noteq> word_of_int ch) s)"
      using that by (metis nth_mem takeWhile_nth)
    then show ?thesis
      using is_str_nth [OF assms(1), of j] is_str_nz [OF assms(1)] that k set_takeWhileD
      by (fastforce simp: stop_at_def)
  qed
  ultimately show ?thesis
    using strchrnul_align_ok [of ?k _ m p] k is_str_bound [OF assms(1)] assms(2) by (simp add: strchrnul_def)
qed

section \<open>Copying strings\<close>

lemma strcpy_loop_str:
  "is_str m q s \<Longrightarrow> d + length s < length m \<Longrightarrow> d \<le> q \<or> q + length s < d \<Longrightarrow>
    strcpy_loop m d q = Some (mwrite m d (s @ [0]))"
proof (induction s arbitrary: m d q)
  case Nil
  then show ?case
    by (simp add: strcpy_loop.simps mwrite_single)
next
  case (Cons c s)
  have q: "q < length m" "m ! q = c" "c \<noteq> 0" "is_str m (Suc q) s"
    using Cons.prems(1) by auto
  have "is_str (m[d := c]) (Suc q) s"
    using q(4) Cons.prems(3) by (subst is_str_update) auto
  moreover have "Suc d \<le> Suc q \<or> Suc q + length s < Suc d"
    using Cons.prems(3) by auto
  ultimately have "strcpy_loop (m[d := c]) (Suc d) (Suc q) = Some (mwrite (m[d := c]) (Suc d) (s @ [0]))"
    using Cons.prems(2) by (intro Cons.IH) auto
  then show ?case
    using q Cons.prems(2) mwrite_Cons [of d "s @ [0]" m c] by (simp add: strcpy_loop.simps [of m d])
qed

lemma strcat_str:
  assumes "is_str m d a" and "is_str m q b" and "d + length a + length b < length m"
    and "d + length a \<le> q \<or> q + length b < d"
  shows "\<exists>m'. strcat m d q = Some (d, m') \<and> m' = mwrite m (d + length a) (b @ [0]) \<and> is_str m' d (a @ b)"
proof -
  let ?m = "mwrite m (d + length a) (b @ [0])"
  have "strcat m d q = Some (d, ?m)"
    using strcpy_loop_str [OF assms(2), of "d + length a"] assms(3,4) scan_end [OF assms(1)] by (auto simp: strcat_def)
  moreover have "is_str ?m d (a @ b)"
    unfolding is_str_append
  proof (intro conjI allI impI)
    fix i
    assume "i < length a"
    then show "d + i < length ?m" "?m ! (d + i) = a ! i"
      using assms(3) is_str_nth [OF assms(1)] by (simp_all add: nth_mwrite)
  next
    show "0 \<notin> set a"
      using is_str_nz [OF assms(1)] .
    show "is_str ?m (d + length a) b"
      using is_str_mwrite [of "d + length a" b m] assms(3) is_str_nz [OF assms(2)] by simp
  qed
  ultimately show ?thesis
    by blast
qed

lemma copy_pad_str:
  "is_str m q s \<Longrightarrow> d + n \<le> length m \<Longrightarrow> d + n \<le> q \<or> q + length s < d \<Longrightarrow>
    \<exists>e. copy_pad m d q n = Some (q + min n (length s), mwrite m d (take n (s @ replicate n 0)))"
proof (induction n arbitrary: m d q s)
  case (Suc n)
  show ?case
  proof (cases s)
    case Nil
    then have q: "q < length m" "m ! q = 0" "q \<noteq> d"
      using Suc.prems by auto
    have "copy_pad (m[d := 0]) (Suc d) q n = Some (q, mwrite (m[d := 0]) (Suc d) (replicate n 0))"
      using Suc.IH [of "m[d := 0]" q "[]" "Suc d"] Suc.prems Nil q by auto
    then show ?thesis
      using Nil q Suc.prems(2) mwrite_Cons [of d "replicate n 0" m 0] by simp
  next
    case (Cons c s')
    then have q: "q < length m" "m ! q = c" "c \<noteq> 0" "is_str m (Suc q) s'"
      using Suc.prems by auto
    have "is_str (m[d := c]) (Suc q) s'"
      using q(4) Suc.prems(3) Cons by (subst is_str_update) auto
    then have "copy_pad (m[d := c]) (Suc d) (Suc q) n =
        Some (Suc q + min n (length s'), mwrite (m[d := c]) (Suc d) (take n (s' @ replicate n 0)))"
      using Suc.IH [of "m[d := c]" "Suc q" s' "Suc d"] Suc.prems Cons by auto
    moreover have "take n (s' @ replicate (Suc n) 0) = take n (s' @ replicate n 0)"
      by (simp add: min_def del: replicate_Suc)
    ultimately show ?thesis
      using Cons q Suc.prems(2) mwrite_Cons [of d "take n (s' @ replicate n 0)" m c] by simp
  qed
qed simp

text \<open>\<open>strlcpy\<close> copies what fits and always returns the length of the source.\<close>

lemma strlcpy_loop_str:
  assumes "is_str m q s" and "d + n < length m" and "d + n < q \<or> q + length s < d"
  shows "strlcpy_loop m (Some d) q n = Some (q + length s, mwrite m d (take n s @ [0]))"
  using assms
proof (induction s arbitrary: m d q n)
  case Nil
  then show ?case
    by (simp add: strlcpy_loop.simps [of m _ q] wr_dst_def mwrite_single)
next
  case (Cons c s)
  have q: "q < length m" "m ! q = c" "c \<noteq> 0" "is_str m (Suc q) s"
    using Cons.prems(1) by auto
  have str: "is_str (m[d := c]) (Suc q) s"
    using q(4) Cons.prems(3) by (subst is_str_update) auto
  show ?case
  proof (cases n)
    case 0
    have "strlcpy_loop (m[d := c]) (Some d) (Suc q) 0 = Some (Suc q + length s, mwrite (m[d := c]) d [0])"
      using Cons.IH [OF str, of d 0] Cons.prems(2,3) 0 by auto
    then show ?thesis
      using 0 q Cons.prems(2) by (simp add: strlcpy_loop.simps [of m _ q] wr_dst_def mwrite_single)
  next
    case (Suc k)
    have "strlcpy_loop (m[d := c]) (Some (Suc d)) (Suc q) k =
        Some (Suc q + length s, mwrite (m[d := c]) (Suc d) (take k s @ [0]))"
      using Cons.IH [OF str, of "Suc d" k] Cons.prems(2,3) Suc by auto
    then show ?thesis
      using Suc q Cons.prems(2) mwrite_Cons [of d "take k s @ [0]" m c]
      by (simp add: strlcpy_loop.simps [of m _ q] wr_dst_def)
  qed
qed

lemma strlcpy_str:
  assumes "is_str m q s" and "0 < n" and "d + n \<le> length m" and "d + n \<le> q \<or> q + length s < d"
  shows "strlcpy m d q n = Some (length s, mwrite m d (take (n - 1) s @ [0]))"
  using strlcpy_loop_str [OF assms(1), of d "n - 1"] assms by (auto simp: strlcpy_def)

lemma strlcat_loop_str:
  assumes "is_str m q s" and "d + (n - len - 1) < length m" and "d + (n - len - 1) < q \<or> q + length s < d"
  shows "strlcat_loop m (Some d) q len n = Some (len + length s, mwrite m d (take (n - len - 1) s @ [0]))"
  using assms
proof (induction s arbitrary: m d q len)
  case Nil
  then show ?case
    by (simp add: strlcat_loop.simps [of m _ q] wr_dst_def mwrite_single)
next
  case (Cons c s)
  have q: "q < length m" "m ! q = c" "c \<noteq> 0" "is_str m (Suc q) s"
    using Cons.prems(1) by auto
  have str: "is_str (m[d := c]) (Suc q) s"
    using q(4) Cons.prems(3) by (subst is_str_update) auto
  show ?case
  proof (cases "len + 1 < n")
    case True
    have "strlcat_loop (m[d := c]) (Some (Suc d)) (Suc q) (len + 1) n =
        Some (len + 1 + length s, mwrite (m[d := c]) (Suc d) (take (n - (len + 1) - 1) s @ [0]))"
    proof (rule Cons.IH [OF str])
      have e: "n - len - 1 = Suc (n - (len + 1) - 1)"
        using True by simp
      show "Suc d + (n - (len + 1) - 1) < length (m[d := c])"
        using Cons.prems(2) unfolding e by simp
      show "Suc d + (n - (len + 1) - 1) < Suc q \<or> Suc q + length s < Suc d"
        using Cons.prems(3) unfolding e by auto
    qed
    moreover have "n - len - 1 = Suc (n - (len + 1) - 1)"
      using True by simp
    ultimately show ?thesis
      using True q Cons.prems(2) mwrite_Cons [of d "take (n - (len + 1) - 1) s @ [0]" m c]
      by (simp add: strlcat_loop.simps [of m _ q] wr_dst_def)
  next
    case False
    have "strlcat_loop (m[d := c]) (Some d) (Suc q) (len + 1) n = Some (len + 1 + length s, mwrite (m[d := c]) d [0])"
      using Cons.IH [OF str, where len = "len + 1" and d = d] Cons.prems(2,3) False by auto
    then show ?thesis
      using False q Cons.prems(2) by (simp add: strlcat_loop.simps [of m _ q] wr_dst_def mwrite_single)
  qed
qed

lemma strlcat_str:
  assumes "is_str m d a" and "is_str m q b" and "length a < n" and "d + n \<le> length m"
    and "d + n \<le> q \<or> q + length b < d"
  shows "strlcat m d q n = Some (length a + length b, mwrite m (d + length a) (take (n - length a - 1) b @ [0]))"
proof -
  have "strlcat_seek m d len n = Some (Some (d + length a), len + length a)" if "is_str m d a" "len + length a < n" for len d
    using that
  proof (induction a arbitrary: d len)
    case Nil
    then show ?case
      by (simp add: strlcat_seek.simps)
  next
    case (Cons c a)
    then show ?case
      using Cons.IH [of "Suc d" "len + 1"] by (simp add: strlcat_seek.simps [of m d])
  qed
  then have "strlcat_seek m d 0 n = Some (Some (d + length a), length a)"
    using assms(1,3) by simp
  moreover have "strlcat_loop m (Some (d + length a)) q (length a) n =
      Some (length a + length b, mwrite m (d + length a) (take (n - length a - 1) b @ [0]))"
    using assms by (intro strlcat_loop_str) auto
  ultimately show ?thesis
    by (simp add: strlcat_def)
qed

text \<open>Without room: nothing is written, the lengths are still counted.\<close>

lemma strlcpy_loop_none: "is_str m q s \<Longrightarrow> strlcpy_loop m None q 0 = Some (q + length s, m)"
  by (induction s arbitrary: q) (simp_all add: strlcpy_loop.simps [of m _ q for q] wr_dst_def)

lemma strlcat_loop_none: "is_str m q s \<Longrightarrow> strlcat_loop m None q len n = Some (len + length s, m)"
  by (induction s arbitrary: q len) (simp_all add: strlcat_loop.simps [of m _ q for q] wr_dst_def)

lemma strlcat_seek_none:
  "d + k \<le> length m \<Longrightarrow> 0 \<notin> set (mread m d k) \<Longrightarrow> strlcat_seek m d len (len + k) = Some (None, len + k)"
proof (induction k arbitrary: d len)
  case (Suc k)
  have "mread m d (Suc k) = m ! d # mread m (Suc d) k"
    using Suc.prems(1) by (simp add: mread_def Cons_nth_drop_Suc [symmetric])
  then show ?case
    using Suc.IH [of "Suc d" "len + 1"] Suc.prems by (simp add: strlcat_seek.simps [of m d] rd_def)
qed (simp add: strlcat_seek.simps)

text \<open>The string at \<open>d\<close>, as far as the first \<open>n\<close> bytes have it.\<close>

definition str_upto :: "mem \<Rightarrow> nat \<Rightarrow> nat \<Rightarrow> byte list" where
  "str_upto m d n = takeWhile (\<lambda>c. c \<noteq> 0) (mread m d n)"

lemma str_upto_is_str:
  assumes "d + n \<le> length m" and "length (str_upto m d n) < n"
  shows "is_str m d (str_upto m d n)"
proof -
  let ?a = "str_upto m d n"
  have l: "length (mread m d n) = n"
    using assms(1) by simp
  have "mread m d n ! length ?a = 0"
    using nth_length_takeWhile [of "\<lambda>c. c \<noteq> 0" "mread m d n"] assms(2) l by (simp add: str_upto_def)
  then have e: "m ! (d + length ?a) = 0"
    using assms by (simp add: mread_def)
  have "?a ! i = m ! (d + i)" if "i < length ?a" for i
    using takeWhile_nth [of i "\<lambda>c. c \<noteq> 0" "mread m d n"] that assms by (simp add: str_upto_def mread_def)
  moreover have "0 \<notin> set ?a"
    by (auto simp: str_upto_def dest: set_takeWhileD)
  ultimately show ?thesis
    using is_str_append [of m d ?a "[]"] e assms by simp
qed

lemma str_upto_full:
  assumes "d + n \<le> length m" and "\<not> length (str_upto m d n) < n"
  shows "0 \<notin> set (mread m d n)" and "length (str_upto m d n) = n"
proof -
  have l: "length (str_upto m d n) = length (mread m d n)"
    using assms length_takeWhile_le [of "\<lambda>c. c \<noteq> 0" "mread m d n"] by (simp add: str_upto_def)
  then have "str_upto m d n = mread m d n"
    unfolding str_upto_def by (metis takeWhile_eq_take take_all order_refl)
  then show "0 \<notin> set (mread m d n)"
    unfolding str_upto_def takeWhile_eq_all_conv by blast
  show "length (str_upto m d n) = n"
    using l assms(1) by simp
qed

section \<open>Tokens\<close>

text \<open>The parts of a string between the delimiters, without the empty ones.\<close>

function tokens :: "byte set \<Rightarrow> byte list \<Rightarrow> byte list list" where
  "tokens D s = (let r = dropWhile (\<lambda>c. c \<in> D) s in
     if r = [] then [] else takeWhile (\<lambda>c. c \<notin> D) r # tokens D (dropWhile (\<lambda>c. c \<notin> D) r))"
  by auto

termination
proof (relation "measure (\<lambda>(D, s). length s)")
  fix D :: "byte set" and s r :: "byte list"
  assume r: "r = dropWhile (\<lambda>c. c \<in> D) s" "r \<noteq> []"
  then obtain c r' where cr: "r = c # r'" "c \<notin> D"
    by (metis dropWhile_eq_Cons_conv list.exhaust)
  have "length r \<le> length s"
    unfolding r(1) by (rule length_dropWhile_le)
  moreover have "length (dropWhile (\<lambda>c. c \<notin> D) r') \<le> length r'"
    by (rule length_dropWhile_le)
  ultimately show "((D, dropWhile (\<lambda>c. c \<notin> D) r), D, s) \<in> measure (\<lambda>(D, s). length s)"
    using cr by simp
qed simp

declare tokens.simps [simp del]

lemma tokens_Nil [simp]: "tokens D [] = []"
  by (simp add: tokens.simps)

lemma tokens_skip: "d \<in> D \<Longrightarrow> tokens D (d # s) = tokens D s"
  by (simp add: tokens.simps [of D "d # s"] tokens.simps [of D s])

lemma strtok_r_step:
  assumes "rd m p = Some c" and "c \<noteq> 0" and "strspn m p q = Some k" and "rd m (p + k) = Some d"
    and "d \<noteq> 0" and "strcspn m (p + k) q = Some l"
  shows "strtok_r m NULL q p = (do { c \<leftarrow> rd m (p + k + l);
    if c = 0 then Some (p + k, p + k + l, m)
    else do { m \<leftarrow> wr m (p + k + l) 0; Some (p + k, p + k + l + 1, m) } })"
  using assms by (simp add: strtok_r_def Let_def)

text \<open>
  What one call returns: the token, and where the rest of the string begins.  Only bytes of the string
  are written, and what is left of it lies after the token.
\<close>

definition token_result :: "mem \<Rightarrow> nat \<Rightarrow> byte list \<Rightarrow> byte list list \<Rightarrow> nat \<Rightarrow> nat \<Rightarrow> mem \<Rightarrow> byte set \<Rightarrow> bool" where
  "token_result m p s ts r save m' D \<longleftrightarrow> length m' = length m \<and> (\<forall>i. i < p \<or> p + length s \<le> i \<longrightarrow> m' ! i = m ! i) \<and>
    (\<exists>s'. is_str m' save s' \<and> tokens D s' = tl ts \<and> p \<le> save \<and> save + length s' = p + length s \<and>
      (case ts of [] \<Rightarrow> r = NULL | tok # rest \<Rightarrow> is_str m' r tok \<and> p \<le> r \<and> (r + length tok < save \<or> s' = [])))"

lemma token_result_found:
  assumes "is_str m (p + k) (tok @ rest)" and "length s = k + length tok + length rest" and "tokens D s = tok # tokens D rest"
    and "rest \<noteq> [] \<Longrightarrow> hd rest \<in> D"
    and "c = m ! (p + k + length tok)"
  shows "token_result m p s (tokens D s) (p + k) (if c = 0 then p + k + length tok else p + k + length tok + 1)
    (if c = 0 then m else m[p + k + length tok := 0]) D"
proof -
  let ?e = "p + k + length tok"
  have tok: "\<forall>i<length tok. p + k + i < length m \<and> m ! (p + k + i) = tok ! i" "0 \<notin> set tok" and e: "is_str m ?e rest"
    using assms(1) unfolding is_str_append by auto
  show ?thesis
  proof (cases rest)
    case Nil
    then show ?thesis
      using assms e by (auto simp: token_result_def intro!: exI [of _ "[]"])
  next
    case (Cons x rest')
    have x: "x \<in> D" "?e < length m" "m ! ?e = x" "x \<noteq> 0" "is_str m (Suc ?e) rest'"
      using Cons e assms(4) by auto
    have "is_str (m[?e := 0]) (p + k) tok"
      using is_str_append [of "m[?e := 0]" "p + k" tok "[]"] tok x(2) by (auto simp: nth_list_update)
    moreover have "is_str (m[?e := 0]) (Suc ?e) rest'"
      using x(5) by (simp add: is_str_update)
    moreover have "tokens D rest' = tokens D rest"
      unfolding Cons using x(1) by (rule tokens_skip [symmetric])
    ultimately show ?thesis
      using assms(2,3,5) x(3,4) Cons by (auto simp: token_result_def intro!: exI [of _ rest'])
  qed
qed

lemma strtok_r_from: "strtok_r m x q sp = strtok_r m NULL q (if x = NULL then sp else x)"
  by (simp add: strtok_r_def Let_def)

lemma strtok_r_str:
  assumes "is_str m p s" and "is_str m q t" and "p = (if x = NULL then sp else x)"
  shows "\<exists>r save m'. strtok_r m x q sp = Some (r, save, m') \<and> token_result m p s (tokens (set t) s) r save m' (set t)"
proof -
  obtain k R where k: "k = length (takeWhile (\<lambda>x. x \<in> set t) s)" and R: "R = dropWhile (\<lambda>x. x \<in> set t) s"
    by blast
  have spn: "strspn m p q = Some k"
    using strspn_str [OF assms(1,2)] k by simp
  have split: "length s = k + length R"
    unfolding k R by (metis length_append takeWhile_dropWhile_id)
  have r: "is_str m (p + k) R"
    using is_str_drop [OF assms(1), of k] k R by (simp add: dropWhile_eq_drop length_takeWhile_le)
  have from_p: "strtok_r m x q sp = strtok_r m NULL q p"
    unfolding strtok_r_from [of m x] assms(3) ..
  show ?thesis
  proof (cases R)
    case Nil
    have "tokens (set t) s = []"
      using Nil R by (simp add: tokens.simps [of "set t" s])
    moreover have "strtok_r m x q sp = Some (NULL, p + length s, m)"
      unfolding from_p using assms(1) spn Nil r split by (cases s) (auto simp: strtok_r_def Let_def)
    ultimately show ?thesis
      using r split Nil by (auto simp: token_result_def intro!: exI [of _ "[]"])
  next
    case (Cons d R')
    obtain tok rest where tr: "tok = takeWhile (\<lambda>x. x \<notin> set t) R" "rest = dropWhile (\<lambda>x. x \<notin> set t) R"
      by blast
    have toks: "tokens (set t) s = tok # tokens (set t) rest"
      using Cons R tr by (simp add: tokens.simps [of "set t" s] Let_def)
    have app: "R = tok @ rest"
      using tr by simp
    have hd_rest: "hd rest \<in> set t" if "rest \<noteq> []"
      using that hd_dropWhile [of "\<lambda>x. x \<notin> set t" R] tr(2) by auto
    have csp: "strcspn m (p + k) q = Some (length tok)"
      using strcspn_str [OF r assms(2)] tr(1) by simp
    have s: "s \<noteq> []"
      using Cons R by auto
    then have c: "rd m p = Some (hd s)" "hd s \<noteq> 0"
      using assms(1) by (cases s; simp)+
    have d: "rd m (p + k) = Some d" "d \<noteq> 0"
      using r Cons by simp_all
    let ?e = "p + k + length tok"
    have e: "?e < length m"
      using is_str_bound [OF r] app by simp
    have "strtok_r m x q sp = Some (p + k, if m ! ?e = 0 then ?e else ?e + 1, if m ! ?e = 0 then m else m[?e := 0])"
      unfolding from_p using strtok_r_step [OF c spn d csp] e by simp
    moreover have "token_result m p s (tokens (set t) s) (p + k) (if m ! ?e = 0 then ?e else ?e + 1)
        (if m ! ?e = 0 then m else m[?e := 0]) (set t)"
      using r app split toks hd_rest by (intro token_result_found) simp_all
    ultimately show ?thesis
      by blast
  qed
qed

text \<open>A client that calls \<open>strtok_r\<close> \<open>n\<close> times: with the string first, then with \<open>NULL\<close>.\<close>

fun strtok_calls :: "nat \<Rightarrow> mem \<Rightarrow> nat \<Rightarrow> nat \<Rightarrow> nat \<Rightarrow> (nat list \<times> mem) option" where
  "strtok_calls 0 m s q save = Some ([], m)"
| "strtok_calls (Suc n) m s q save = do {
     (r, save, m) \<leftarrow> strtok_r m s q save;
     (rs, m) \<leftarrow> strtok_calls n m NULL q save;
     Some (r # rs, m)
   }"

definition tokens_at :: "mem \<Rightarrow> byte list list \<Rightarrow> nat list \<Rightarrow> bool" where
  "tokens_at m ts rs \<longleftrightarrow> (\<forall>i<length rs. if i < length ts then is_str m (rs ! i) (ts ! i) else rs ! i = NULL)"

lemma tokens_at_Cons:
  "tokens_at m ts (r # rs) \<longleftrightarrow> (case ts of [] \<Rightarrow> r = NULL | tok # ts' \<Rightarrow> is_str m r tok) \<and> tokens_at m (tl ts) rs"
  by (cases ts) (auto simp: tokens_at_def less_Suc_eq_0_disj all_conj_distrib)

lemma strtok_calls_str:
  assumes "is_str m p s" and "is_str m q t" and "p = (if x = NULL then sp else x)" and "q + length t < p \<or> p + length s \<le> q"
  shows "\<exists>rs m'. strtok_calls n m x q sp = Some (rs, m') \<and> length rs = n \<and> length m' = length m \<and>
    (\<forall>i. i < p \<or> p + length s \<le> i \<longrightarrow> m' ! i = m ! i) \<and> tokens_at m' (tokens (set t) s) rs"
  using assms
proof (induction n arbitrary: m p s x sp)
  case 0
  then show ?case
    by (simp add: tokens_at_def)
next
  case (Suc n)
  let ?ts = "tokens (set t) s"
  obtain r save m1 s' where c: "strtok_r m x q sp = Some (r, save, m1)" "length m1 = length m"
    "\<And>i. i < p \<or> p + length s \<le> i \<Longrightarrow> m1 ! i = m ! i" "is_str m1 save s'" "tokens (set t) s' = tl ?ts" "p \<le> save"
    "save + length s' = p + length s" "case ?ts of [] \<Rightarrow> r = NULL | tok # rest \<Rightarrow> is_str m1 r tok \<and> p \<le> r \<and> (r + length tok < save \<or> s' = [])"
    using strtok_r_str [OF Suc.prems(1-3)] unfolding token_result_def by (elim exE conjE) (rule that, assumption, assumption, blast, assumption+)
  have q: "is_str m1 q t"
  proof (subst is_str_frame [OF c(2)])
    show "\<forall>i. q \<le> i \<and> i \<le> q + length t \<longrightarrow> m1 ! i = m ! i"
    proof (intro allI impI)
      fix i assume "q \<le> i \<and> i \<le> q + length t"
      then have "i < p \<or> p + length s \<le> i"
        using Suc.prems(4) by linarith
      then show "m1 ! i = m ! i"
        by (rule c(3))
    qed
  qed (rule Suc.prems(2))
  have far: "q + length t < save \<or> save + length s' \<le> q"
    using Suc.prems(4) c(6,7) by auto
  obtain rs m2 where k: "strtok_calls n m1 NULL q save = Some (rs, m2)" "length rs = n" "length m2 = length m1"
    "\<And>i. i < save \<or> save + length s' \<le> i \<Longrightarrow> m2 ! i = m1 ! i" "tokens_at m2 (tokens (set t) s') rs"
    using Suc.IH [OF c(4) q _ far, of NULL save] by auto
  have "case ?ts of [] \<Rightarrow> r = NULL | tok # rest \<Rightarrow> is_str m2 r tok"
  proof (cases ?ts)
    case (Cons tok rest)
    have "is_str m2 r tok = is_str m1 r tok"
    proof (rule is_str_frame [OF k(3)], intro allI impI)
      fix i assume "r \<le> i \<and> i \<le> r + length tok"
      then have "i < save \<or> save + length s' \<le> i"
        using c(8) Cons by auto
      then show "m2 ! i = m1 ! i"
        by (rule k(4))
    qed
    then show ?thesis
      using c(8) Cons by simp
  qed (use c(8) in simp)
  then have "tokens_at m2 ?ts (r # rs)"
    using k(5) unfolding tokens_at_Cons c(5) by blast
  moreover have "m2 ! i = m ! i" if "i < p \<or> p + length s \<le> i" for i
  proof -
    have "m2 ! i = m1 ! i"
      by (rule k(4)) (use that c(6,7) in auto)
    then show ?thesis
      using c(3) [OF that] by simp
  qed
  ultimately show ?case
    using c(1,2) k(1-3) by simp
qed

lemma basename_str:
  assumes "is_str m p s"
  shows "basename m p = Some (p + length s - length (takeWhile (\<lambda>c. c \<noteq> chr_SL) (rev s)))"
proof -
  have "basename_loop m p b = Some (if chr_SL \<in> set s then p + length s - length (takeWhile (\<lambda>c. c \<noteq> chr_SL) (rev s)) else b)" for b
    using assms
  proof (induction s arbitrary: p b)
    case Nil
    then show ?case
      by (simp add: basename_loop.simps)
  next
    case (Cons c s)
    have "basename_loop m p b = basename_loop m (Suc p) (if c = chr_SL then Suc p else b)"
      using Cons.prems by (subst basename_loop.simps) simp
    moreover have "length (takeWhile (\<lambda>c. c \<noteq> chr_SL) (rev s)) \<le> length s"
      using length_takeWhile_le [of _ "rev s"] by simp
    moreover have "chr_SL \<notin> set s \<Longrightarrow> takeWhile (\<lambda>c. c \<noteq> chr_SL) (rev s) = rev s"
      by (auto simp: takeWhile_eq_all_conv)
    ultimately show ?case
      using Cons by (auto simp: takeWhile_append)
  qed
  moreover have "length (takeWhile (\<lambda>c. c \<noteq> chr_SL) (rev s)) = length s" if "chr_SL \<notin> set s"
  proof -
    have "takeWhile (\<lambda>c. c \<noteq> chr_SL) (rev s) = rev s"
      using that by (auto simp: takeWhile_eq_all_conv)
    then show ?thesis
      by (metis length_rev)
  qed
  ultimately show ?thesis
    by (cases "chr_SL \<in> set s") (simp_all add: basename_def)
qed

section \<open>First set bit\<close>

lemma ffs_loop_ok:
  "bit w k \<Longrightarrow> \<forall>j<k. \<not> bit w j \<Longrightarrow> ffs_loop w b = Some (b + int k)"
proof (induction k arbitrary: w b)
  case 0
  then show ?case
    by (subst ffs_loop.simps) (simp add: bit_0 odd_iff_mod_2_eq_one and_one_eq)
next
  case (Suc k)
  have k: "Suc k < 32"
    using bit_imp_le_length [OF Suc.prems(1)] by simp
  have "even w"
    using Suc.prems(2) by (auto simp: bit_0)
  moreover have "bit (signed_drop_bit 1 w) k" "\<forall>j<k. \<not> bit (signed_drop_bit 1 w) j"
    using Suc.prems k by (auto simp: bit_simps)
  ultimately show ?case
    using Suc.IH [of "signed_drop_bit 1 w" "b + 1"] by (subst ffs_loop.simps) (simp add: and_one_eq even_iff_mod_2_eq_zero)
qed

end
