(* ===== verification/CStringProps.thy ===== *)
theory CStringProps
  imports CStringOps
begin

text \<open>
  The properties of the C library's memory and string functions.  The witnesses use a memory of 16
  bytes: the string \<open>a,bb\<close> at address 1, the string \<open>,\<close> at 6 and the string \<open>bb\<close> at 8.
\<close>

definition sample :: mem where
  "sample = [0, 97, 44, 98, 98, 0, 44, 0, 98, 98, 0, 0, 0, 0, 0, 0]"

lemma sample_strs: "is_str sample 1 [97, 44, 98, 98]" "is_str sample 6 [44]" "is_str sample 8 [98, 98]"
  by (simp_all add: sample_def)

text \<open>
  C19.  \<open>memmove\<close> copies the bytes of the source as they were before the call, however the two blocks
  overlap, and writes nothing else; \<open>memcpy\<close> does the same when the destination does not begin inside
  the source.
\<close>

theorem memmove_overlap:
  assumes "s1 + n \<le> length m" and "s2 + n \<le> length m"
  shows "\<exists>m'. memmove m s1 s2 n = Some (s1, m') \<and> mread m' s1 n = mread m s2 n \<and> length m' = length m \<and>
    (\<forall>i. i < s1 \<or> s1 + n \<le> i \<longrightarrow> i < length m \<longrightarrow> m' ! i = m ! i) \<and>
    (s1 \<le> s2 \<or> s2 + n \<le> s1 \<longrightarrow> memcpy m s1 s2 n = Some (s1, m'))"
proof -
  have l: "length (mread m s2 n) = n"
    using assms(2) by simp
  then have "mread (mwrite m s1 (mread m s2 n)) s1 n = mread m s2 n"
    using mread_mwrite_same [of s1 "mread m s2 n" m] assms(1) by simp
  then show ?thesis
    using memmove_ok [OF assms] copy_up_ok [OF assms] assms l
    by (intro exI [of _ "mwrite m s1 (mread m s2 n)"]) (auto simp: nth_mwrite memcpy_def)
qed

theorem memmove_overlap_witness:
  "\<exists>m' m''. memmove sample 2 1 4 = Some (2, m') \<and> mread m' 2 4 = [97, 44, 98, 98] \<and>
    memcpy sample 10 1 4 = Some (10, m'') \<and> mread m'' 10 4 = [97, 44, 98, 98]"
  using memmove_overlap [of 2 4 sample 1] memmove_overlap [of 10 4 sample 1] by (auto simp: sample_def mread_def)

text \<open>
  \<open>strcmp\<close> and \<open>strncmp\<close> return for any two strings; the sign of the result is the lexicographic
  order of their bytes (of the first \<open>n\<close> bytes), as unsigned values.
\<close>

theorem strcmp_order:
  assumes "is_str m p s" and "is_str m q t"
  shows "\<exists>r. strcmp m p q = Some r \<and> (r = 0 \<longleftrightarrow> s = t) \<and> (r < 0 \<longleftrightarrow> s < t) \<and>
    (\<exists>r'. strncmp m p q n = Some r' \<and> (r' = 0 \<longleftrightarrow> take n s = take n t) \<and> (r' < 0 \<longleftrightarrow> take n s < take n t))"
proof -
  have nz: "0 \<notin> set s" "0 \<notin> set t"
    using is_str_nz assms by blast+
  then have "0 \<notin> set (take n s)" "0 \<notin> set (take n t)"
    by (auto dest: in_set_takeD)
  then show ?thesis
    using strcmp_cmp [OF assms] strncmp_cmp [OF assms] cmp_bytes_order nz by simp
qed

theorem strcmp_order_witness:
  "\<exists>r. strcmp sample 1 8 = Some r \<and> r < 0 \<and> strncmp sample 3 8 2 = Some 0"
  using strcmp_order [OF sample_strs(1,3), of 2] strcmp_order [of sample 3 "[98, 98]" 8 "[98, 98]" 2] sample_strs(3)
  by (auto simp: sample_def)

text \<open>
  C21.  \<open>strstr\<close> returns the first place at which the substring occurs, or \<open>NULL\<close> when there is none.
\<close>

theorem strstr_first:
  assumes "is_str m p s" and "is_str m q t"
  shows "if sublist t s
    then \<exists>i\<le>length s. strstr m p q = Some (p + i) \<and> prefix t (drop i s) \<and> (\<forall>j<i. \<not> prefix t (drop j s))
    else strstr m p q = Some NULL"
proof (cases "find_sub t s")
  case None
  then show ?thesis
    using strstr_str [OF assms] find_sub_spec [of t s] by simp
next
  case (Some i)
  then have i: "i \<le> length s" "prefix t (drop i s)" "\<forall>j<i. \<not> prefix t (drop j s)"
    using find_sub_spec [of t s] by auto
  then have "sublist t s"
    using prefix_imp_sublist sublist_drop sublist_order.order_trans by blast
  then show ?thesis
    using strstr_str [OF assms] Some i by auto
qed

theorem strstr_first_witness: "strstr sample 1 8 = Some 3 \<and> strstr sample 8 6 = Some NULL"
proof -
  have n: "\<not> prefix [98, 98] (drop j [97, 44, 98, 98 :: byte])" if "j < 2" for j
    using that by (cases j) auto
  have p: "prefix [98, 98] (drop 2 [97, 44, 98, 98 :: byte])"
    by simp
  then have "sublist [98, 98] [97, 44, 98, 98 :: byte]"
    by (auto simp: sublist_code)
  then obtain i where i: "strstr sample 1 8 = Some (1 + i)" "prefix [98, 98] (drop i [97, 44, 98, 98 :: byte])"
    "\<forall>j<i. \<not> prefix [98, 98] (drop j [97, 44, 98, 98 :: byte])"
    using strstr_first [OF sample_strs(1,3)] by auto
  have "i = 2"
    using i(2,3) p n by (metis linorder_neqE_nat)
  moreover have "\<not> sublist [44] [98, 98 :: byte]"
    by (simp add: sublist_code)
  ultimately show ?thesis
    using i(1) strstr_first [OF sample_strs(3,2)] by simp
qed

text \<open>
  C22.  \<open>strchrnul\<close>, which looks at four bytes at a time, finds the first occurrence of the byte, or
  the end of the string when there is none.
\<close>

theorem strchrnul_first:
  assumes "is_str m p s" and "length m mod 4 = 0"
  shows "strchrnul m p ch = Some (p + length (takeWhile (\<lambda>x. x \<noteq> word_of_int ch) s))"
  using assms by (rule strchrnul_str)

theorem strchrnul_first_witness: "strchrnul sample 1 98 = Some 3 \<and> strchrnul sample 1 99 = Some 5"
  using strchrnul_first [OF sample_strs(1), of 98] strchrnul_first [OF sample_strs(1), of 99]
  by (simp add: sample_def)

text \<open>
  \<open>strspn\<close> and \<open>strcspn\<close> count the leading bytes that are (are not) in the second string; the
  set of 256 bits \<open>strspn\<close> builds is the set of the bytes of that string.
\<close>

theorem strspn_strcspn:
  assumes "is_str m p s" and "is_str m q t"
  shows "strspn m p q = Some (length (takeWhile (\<lambda>x. x \<in> set t) s)) \<and>
    strcspn m p q = Some (length (takeWhile (\<lambda>x. x \<notin> set t) s))"
  using strspn_str [OF assms] strcspn_str [OF assms] by blast

theorem strspn_strcspn_witness: "strspn sample 3 8 = Some 2 \<and> strcspn sample 1 8 = Some 2"
  using strspn_strcspn [OF sample_strs(1,3)] strspn_strcspn [of sample 3 "[98, 98]" 8 "[98, 98]"] sample_strs(3)
  by (simp add: sample_def)

text \<open>
  C24.  For any destination of \<open>n\<close> bytes, with or without a string in it, and any \<open>n\<close>, 0 included:
  \<open>strlcpy\<close> and \<open>strlcat\<close> return the length of the string they were asked to make and write nothing
  outside of these \<open>n\<close> bytes.  \<open>strlcpy\<close> leaves there the source cut off at \<open>n - 1\<close> bytes, unless \<open>n\<close> is 0.
  \<open>strlcat\<close> leaves there the string of the destination with the source behind it, cut off at \<open>n - 1\<close> bytes; when the \<open>n\<close> bytes have
  no terminator, it writes nothing and takes their number for the length of the destination.
\<close>

theorem strlcpy_strlcat_bounded:
  assumes "is_str m q b" and "d + n \<le> length m" and "d + n \<le> q \<or> q + length b < d"
  defines "a \<equiv> str_upto m d n"
  shows "(\<exists>m'. strlcpy m d q n = Some (length b, m') \<and> length m' = length m \<and> (0 < n \<longrightarrow> is_str m' d (take (n - 1) b)) \<and>
      (\<forall>i. i < d \<or> d + n \<le> i \<longrightarrow> i < length m \<longrightarrow> m' ! i = m ! i)) \<and>
    (\<exists>m''. strlcat m d q n = Some (length a + length b, m'') \<and> length m'' = length m \<and>
      (if length a < n then is_str m'' d (take (n - 1) (a @ b)) else length a = n \<and> m'' = m) \<and>
      (\<forall>i. i < d \<or> d + n \<le> i \<longrightarrow> i < length m \<longrightarrow> m'' ! i = m ! i))"
proof
  have nz: "0 \<notin> set (take k b)" for k
    using is_str_nz [OF assms(1)] by (auto dest: in_set_takeD)
  show "\<exists>m'. strlcpy m d q n = Some (length b, m') \<and> length m' = length m \<and> (0 < n \<longrightarrow> is_str m' d (take (n - 1) b)) \<and>
      (\<forall>i. i < d \<or> d + n \<le> i \<longrightarrow> i < length m \<longrightarrow> m' ! i = m ! i)"
  proof (cases "n = 0")
    case True
    then show ?thesis
      using strlcpy_loop_none [OF assms(1)] by (simp add: strlcpy_def)
  next
    case False
    let ?m = "mwrite m d (take (n - 1) b @ [0])"
    have "is_str ?m d (take (n - 1) b)"
      using nz assms(2) False by (intro is_str_mwrite) auto
    then show ?thesis
      using strlcpy_str [OF assms(1) _ assms(2,3)] assms(2) False by (intro exI [of _ ?m]) (auto simp: nth_mwrite)
  qed
  show "\<exists>m''. strlcat m d q n = Some (length a + length b, m'') \<and> length m'' = length m \<and>
      (if length a < n then is_str m'' d (take (n - 1) (a @ b)) else length a = n \<and> m'' = m) \<and>
      (\<forall>i. i < d \<or> d + n \<le> i \<longrightarrow> i < length m \<longrightarrow> m'' ! i = m ! i)"
  proof (cases "length a < n")
    case True
    have A: "is_str m d a"
      unfolding a_def by (rule str_upto_is_str [OF assms(2) True [unfolded a_def]])
    let ?b = "take (n - length a - 1) b"
    let ?m2 = "mwrite m (d + length a) (?b @ [0])"
    have "is_str ?m2 d (a @ ?b)"
      unfolding is_str_append using is_str_nth [OF A] is_str_nz [OF A] nz assms(2) True
      by (auto simp: nth_mwrite intro!: is_str_mwrite)
    moreover have "take (n - 1) (a @ b) = a @ ?b"
      using True by simp
    ultimately show ?thesis
      using strlcat_str [OF A assms(1) True assms(2,3)] assms(2) True by (intro exI [of _ ?m2]) (auto simp: nth_mwrite)
  next
    case False
    note full = str_upto_full [OF assms(2) False [unfolded a_def], folded a_def]
    have "strlcat m d q n = Some (n + length b, m)"
      using strlcat_seek_none [OF assms(2) full(1), of 0] strlcat_loop_none [OF assms(1)] by (simp add: strlcat_def)
    then show ?thesis
      using full(2) False by simp
  qed
qed

theorem strlcpy_strlcat_bounded_witness:
  "(\<exists>m' m''. strlcpy sample 8 1 3 = Some (4, m') \<and> is_str m' 8 [97, 44] \<and>
    strlcat sample 8 1 4 = Some (6, m'') \<and> is_str m'' 8 [98, 98, 97]) \<and>
    strlcat sample 1 8 2 = Some (4, sample)"
proof -
  have "str_upto sample 8 4 = [98, 98]" "str_upto sample 1 2 = [97, 44]"
    by (simp_all add: str_upto_def sample_def mread_def)
  then show ?thesis
    using strlcpy_strlcat_bounded [OF sample_strs(1), of 8 3] strlcpy_strlcat_bounded [OF sample_strs(1), of 8 4]
      strlcpy_strlcat_bounded [OF sample_strs(3), of 1 2]
    by (auto simp: sample_def)
qed

text \<open>
  C25.  A client that calls \<open>strtok_r\<close> any number of times, first with the string and then with
  \<open>NULL\<close>, gets the tokens of the string (the maximal runs of bytes that are no delimiters) one after the
  other, in order, and \<open>NULL\<close> from then on.  Each token is still a string of its own at the end, and
  nothing outside of the string is written.
\<close>

theorem strtok_r_tokens:
  assumes "is_str m p s" and "is_str m q t" and "p \<noteq> NULL" and "q + length t < p \<or> p + length s \<le> q"
  shows "\<exists>rs m'. strtok_calls n m p q sp = Some (rs, m') \<and> length rs = n \<and> length m' = length m \<and>
    (\<forall>i<n. if i < length (tokens (set t) s) then is_str m' (rs ! i) (tokens (set t) s ! i) else rs ! i = NULL) \<and>
    (\<forall>i. i < p \<or> p + length s \<le> i \<longrightarrow> m' ! i = m ! i)"
proof -
  have "p = (if p = NULL then sp else p)"
    using assms(3) by simp
  from strtok_calls_str [OF assms(1,2) this assms(4), of n] show ?thesis
    unfolding tokens_at_def by metis
qed

theorem strtok_r_tokens_witness:
  "\<exists>rs m'. strtok_calls 3 sample 1 6 0 = Some (rs, m') \<and> is_str m' (rs ! 0) [97] \<and> is_str m' (rs ! 1) [98, 98] \<and> rs ! 2 = NULL"
proof -
  have "tokens {44} [98, 98 :: byte] = [[98, 98]]"
    by (simp add: tokens.simps [of _ "[98, 98]"] Let_def)
  then have t: "tokens (set [44]) [97, 44, 98, 98 :: byte] = [[97], [98, 98]]"
    by (simp add: tokens.simps [of _ "[97, 44, 98, 98]"] tokens_skip Let_def)
  obtain rs m' where r: "strtok_calls 3 sample 1 6 0 = Some (rs, m')"
    "\<forall>i<3. if i < length [[97], [98, 98 :: byte]] then is_str m' (rs ! i) ([[97], [98, 98]] ! i) else rs ! i = NULL"
    using strtok_r_tokens [OF sample_strs(1,2), of 3 0] unfolding t by (auto simp: NULL_def)
  show ?thesis
    using r(1) r(2) [rule_format, of 0] r(2) [rule_format, of 1] r(2) [rule_format, of 2] by auto
qed

end
