(* ===== verification/KString.thy ===== *)
theory KString
  imports CStringFacts
begin

text \<open>
  The kernel's own string functions (\<open>kernel/kpart/minilib.c\<close>) over flat memory.  Numbers of type
  \<open>int\<close> are integers; where the C code would overflow one (undefined behaviour) the model has \<open>None\<close>.
  \<open>mem_move\<close> and the other memory functions of that file are in \<open>CMem\<close>.
\<close>

section \<open>Strings\<close>

definition str_len :: "mem \<Rightarrow> nat \<Rightarrow> nat option" where
  "str_len m s = do { e \<leftarrow> scan_while (\<lambda>c. c \<noteq> 0) m s; Some (e - s) }"

partial_function (option) str_copy_loop :: "mem \<Rightarrow> nat \<Rightarrow> nat \<Rightarrow> mem option" where
  "str_copy_loop m s1 s2 = do {
     c \<leftarrow> rd m s2;
     if c \<noteq> 0 then do { m \<leftarrow> wr m s1 c; str_copy_loop m (s1 + 1) (s2 + 1) } else wr m s1 0
   }"

definition str_cpy :: "mem \<Rightarrow> nat \<Rightarrow> nat \<Rightarrow> mem option" where
  "str_cpy m s1 s2 = str_copy_loop m s1 s2"

definition str_cat :: "mem \<Rightarrow> nat \<Rightarrow> nat \<Rightarrow> mem option" where
  "str_cat m s1 s2 = do { e \<leftarrow> scan_while (\<lambda>c. c \<noteq> 0) m s1; str_copy_loop m e s2 }"

fun str_ncopy_loop :: "mem \<Rightarrow> nat \<Rightarrow> nat \<Rightarrow> nat \<Rightarrow> mem option" where
  "str_ncopy_loop m s1 s2 0 = wr m s1 0"
| "str_ncopy_loop m s1 s2 (Suc n) = do {
     c \<leftarrow> rd m s2;
     if c \<noteq> 0 then do { m \<leftarrow> wr m s1 c; str_ncopy_loop m (s1 + 1) (s2 + 1) n } else wr m s1 0
   }"

definition str_ncpy :: "mem \<Rightarrow> nat \<Rightarrow> nat \<Rightarrow> int \<Rightarrow> mem option" where
  "str_ncpy m s1 s2 n = str_ncopy_loop m s1 s2 (nat n)"

partial_function (option) str_reverse_loop :: "mem \<Rightarrow> nat \<Rightarrow> int \<Rightarrow> int \<Rightarrow> mem option" where
  "str_reverse_loop m s i j =
     (if i < j then do {
        tmp \<leftarrow> rd m (s + nat i);
        c \<leftarrow> rd m (s + nat j);
        m \<leftarrow> wr m (s + nat i) c;
        m \<leftarrow> wr m (s + nat j) tmp;
        str_reverse_loop m s (i + 1) (j - 1)
      }
      else Some m)"

definition str_reverse :: "mem \<Rightarrow> nat \<Rightarrow> mem option" where
  "str_reverse m s = do { l \<leftarrow> str_len m s; str_reverse_loop m s 0 (int l - 1) }"

text \<open>The comparisons subtract \<open>char\<close>s, which are signed.\<close>

partial_function (option) str_cmp :: "mem \<Rightarrow> nat \<Rightarrow> nat \<Rightarrow> int option" where
  "str_cmp m s1 s2 = do {
     x \<leftarrow> rd m s1;
     y \<leftarrow> rd m s2;
     if x = y then (if x = 0 then Some 0 else str_cmp m (s1 + 1) (s2 + 1)) else Some (sint x - sint y)
   }"

partial_function (option) str_ncmp_loop :: "mem \<Rightarrow> nat \<Rightarrow> nat \<Rightarrow> int \<Rightarrow> int \<Rightarrow> int option" where
  "str_ncmp_loop m s1 s2 n i = do {
     x \<leftarrow> rd m s1;
     y \<leftarrow> rd m s2;
     if x = y then (if i = n \<or> x = 0 then Some 0 else str_ncmp_loop m (s1 + 1) (s2 + 1) n (i + 1))
     else if i = n then Some 0
     else Some (sint x - sint y)
   }"

definition str_ncmp :: "mem \<Rightarrow> nat \<Rightarrow> nat \<Rightarrow> int \<Rightarrow> int option" where
  "str_ncmp m s1 s2 n = str_ncmp_loop m s1 s2 n 0"

section \<open>Numbers\<close>

partial_function (option) dec_loop :: "mem \<Rightarrow> nat \<Rightarrow> int \<Rightarrow> nat \<Rightarrow> (nat \<times> mem) option" where
  "dec_loop m s n i = do {
     m \<leftarrow> wr m (s + i) (word_of_int (n mod 10 + 48));
     let n = n div 10;
     if n > 0 then dec_loop m s n (i + 1) else Some (i + 1, m)
   }"

definition int2str :: "mem \<Rightarrow> int \<Rightarrow> nat \<Rightarrow> mem option" where
  "int2str m n s =
     (if n = - (2 ^ 31) then None
      else do {
        (i, m) \<leftarrow> dec_loop m s (if n < 0 then - n else n) 0;
        (i, m) \<leftarrow> (if n < 0 then do { m \<leftarrow> wr m (s + i) 45; Some (i + 1, m) } else Some (i, m));
        m \<leftarrow> wr m (s + i) 0;
        str_reverse m s
      })"

definition hex_digits :: "byte list" where
  "hex_digits = [48, 49, 50, 51, 52, 53, 54, 55, 56, 57, 97, 98, 99, 100, 101, 102]"

partial_function (option) hex_loop :: "mem \<Rightarrow> nat \<Rightarrow> u32 \<Rightarrow> nat \<Rightarrow> (nat \<times> mem) option" where
  "hex_loop m s n i = do {
     m \<leftarrow> wr m (s + i) (hex_digits ! unat (n mod 16));
     let n = n div 16;
     if n > 0 then hex_loop m s n (i + 1) else Some (i + 1, m)
   }"

definition hex2str :: "mem \<Rightarrow> u32 \<Rightarrow> nat \<Rightarrow> mem option" where
  "hex2str m n s = do {
     (i, m) \<leftarrow> hex_loop m s n 0;
     m \<leftarrow> wr m (s + i) 120;
     m \<leftarrow> wr m (s + i + 1) 48;
     m \<leftarrow> wr m (s + i + 2) 0;
     str_reverse m s
   }"

partial_function (option) str2int_loop :: "mem \<Rightarrow> nat \<Rightarrow> int \<Rightarrow> int option" where
  "str2int_loop m s n = do {
     c \<leftarrow> rd m s;
     if sint c \<ge> 48 \<and> sint c \<le> 57 then
       (let n = 10 * n + (sint c - 48) in if n < 2 ^ 31 then str2int_loop m (s + 1) n else None)
     else Some n
   }"

definition str2int :: "mem \<Rightarrow> nat \<Rightarrow> int option" where
  "str2int m s = str2int_loop m s 0"

section \<open>What they do\<close>

lemma str_reverse_step:
  "i < j \<Longrightarrow> p + j < length m \<Longrightarrow> str_reverse_loop m p (int i) (int j) =
    str_reverse_loop (m[p + i := m ! (p + j), p + j := m ! (p + i)]) p (int i + 1) (int j - 1)"
  by (subst str_reverse_loop.simps) simp

lemma str_reverse_loop_ok:
  "p + i + n \<le> length m \<Longrightarrow>
    str_reverse_loop m p (int i) (int i + int n - 1) = Some (mwrite m (p + i) (rev (mread m (p + i) n)))"
proof (induction n arbitrary: m i rule: less_induct)
  case (less n)
  consider "n = 0" | "n = 1" | k where "n = Suc (Suc k)"
    by (metis One_nat_def not0_implies_Suc)
  then show ?case
  proof cases
    case 3
    let ?a = "p + i" and ?b = "p + i + Suc k"
    let ?m = "m[?a := m ! ?b, ?b := m ! ?a]"
    have j: "int i + int n - 1 = int (i + Suc k)"
      using 3 by simp
    have "str_reverse_loop m p (int i) (int i + int n - 1) = str_reverse_loop ?m p (int (Suc i)) (int (Suc i) + int k - 1)"
      unfolding j using less.prems 3 str_reverse_step [of i "i + Suc k" p m] by (simp add: ac_simps)
    also have "\<dots> = Some (mwrite ?m (p + Suc i) (rev (mread ?m (p + Suc i) k)))"
      using less.prems 3 by (intro less.IH) auto
    also have "mread ?m (p + Suc i) k = mread m (p + Suc i) k"
      by (simp add: mread_update_below mread_update_above)
    also have "mwrite ?m (p + Suc i) (rev (mread m (p + Suc i) k)) = mwrite m ?a (rev (mread m ?a n))"
    proof -
      let ?mid = "mread m (p + Suc i) k"
      have l: "length ?mid = k"
        using less.prems 3 by simp
      have "mread m ?a n = m ! ?a # ?mid @ [m ! ?b]"
        using less.prems 3 mread_Suc [of ?a m "Suc k"] mread_snoc [of "?a + 1" k m] by simp
      then have "mwrite m ?a (rev (mread m ?a n)) = mwrite m ?a (m ! ?b # (rev ?mid @ [m ! ?a]))"
        by simp
      also have "\<dots> = mwrite (m[?a := m ! ?b]) (?a + 1) (rev ?mid @ [m ! ?a])"
        using less.prems 3 l by (intro mwrite_Cons [symmetric]) simp
      also have "\<dots> = mwrite ?m (?a + 1) (rev ?mid)"
        using less.prems 3 l mwrite_snoc [of "?a + 1" "rev ?mid" "m[?a := m ! ?b]" "m ! ?a"] by simp
      finally show ?thesis
        by simp
    qed
    finally show ?thesis .
  qed (use less.prems in \<open>simp_all add: str_reverse_loop.simps mread_Suc mwrite_single\<close>)
qed

lemma str_len_str: "is_str m p s \<Longrightarrow> str_len m p = Some (length s)"
  by (simp add: str_len_def scan_end)

lemma str_reverse_str:
  assumes "is_str m p s"
  shows "\<exists>m'. str_reverse m p = Some m' \<and> m' = mwrite m p (rev s) \<and> is_str m' p (rev s)"
proof -
  have b: "p + length s < length m" "mread m p (length s + 1) = s @ [0]" "0 \<notin> set s"
    using assms by (simp_all add: is_str_mread)
  have "mread m p (length s) = s"
    using b(2) take_mread [of "length s" "length s + 1" m p] by simp
  then have 1: "str_reverse m p = Some (mwrite m p (rev s))"
    using str_reverse_loop_ok [of p 0 "length s" m] b(1) str_len_str [OF assms] by (simp add: str_reverse_def)
  have "is_str (mwrite m p (rev s)) p (rev s)"
    using is_str_append [of "mwrite m p (rev s)" p "rev s" "[]"] b(1,3) is_str_end [OF assms] by (simp add: nth_mwrite)
  then show ?thesis
    using 1 by blast
qed

text \<open>The decimal notation, and the value it stands for.\<close>

fun dec_str :: "nat \<Rightarrow> byte list" where
  "dec_str n = (if n < 10 then [] else dec_str (n div 10)) @ [word_of_nat (n mod 10 + 48)]"

declare dec_str.simps [simp del]

lemma dec_digit:
  assumes "d < 10"
  shows "sint (word_of_nat (d + 48) :: byte) = int d + 48" "(word_of_nat (d + 48) :: byte) \<noteq> 0"
proof -
  have "d \<in> {0, 1, 2, 3, 4, 5, 6, 7, 8, 9}"
    using assms by auto
  then show "sint (word_of_nat (d + 48) :: byte) = int d + 48" "(word_of_nat (d + 48) :: byte) \<noteq> 0"
    by auto
qed

lemma dec_str_nz: "0 \<notin> set (dec_str n)"
proof (induction n rule: dec_str.induct)
  case (1 n)
  have "(0 :: byte) \<noteq> word_of_nat (n mod 10 + 48)"
    using dec_digit(2) [of "n mod 10"] by simp
  then show ?case
    using 1 by (subst dec_str.simps) auto
qed

lemma length_dec_str: "n < 10 ^ Suc k \<Longrightarrow> length (dec_str n) \<le> Suc k"
proof (induction k arbitrary: n)
  case 0
  then show ?case
    by (simp add: dec_str.simps [of n])
next
  case (Suc k)
  have "n div 10 < 10 ^ Suc k"
    using Suc.prems by (simp add: div_less_iff_less_mult mult.commute)
  then show ?case
    using Suc.IH by (subst dec_str.simps) simp
qed

lemma dec_loop_ok:
  "p + i + length (dec_str n) \<le> length m \<Longrightarrow>
    dec_loop m p (int n) i = Some (i + length (dec_str n), mwrite m (p + i) (rev (dec_str n)))"
proof (induction n arbitrary: m i rule: dec_str.induct)
  case (1 n)
  have d: "word_of_int (int n mod 10 + 48) = (word_of_nat (n mod 10 + 48) :: byte)"
  proof -
    have "int n mod 10 + 48 = int (n mod 10 + 48)"
      by (simp add: zmod_int)
    then show ?thesis
      by (simp only: of_int_of_nat_eq)
  qed
  show ?case
  proof (cases "n < 10")
    case True
    then show ?thesis
      using "1.prems" d by (subst dec_loop.simps) (simp add: dec_str.simps [of n] mwrite_single Let_def)
  next
    case False
    let ?c = "word_of_nat (n mod 10 + 48) :: byte"
    have l: "length (dec_str n) = Suc (length (dec_str (n div 10)))"
      using False by (simp add: dec_str.simps [of n])
    have "0 < int n div 10"
      using False by (simp add: pos_imp_zdiv_pos_iff)
    then have "dec_loop m p (int n) i = dec_loop (m[p + i := ?c]) p (int (n div 10)) (i + 1)"
      using "1.prems" False d l by (subst dec_loop.simps) (simp add: zdiv_int Let_def)
    also have "\<dots> = Some (i + 1 + length (dec_str (n div 10)), mwrite (m[p + i := ?c]) (p + (i + 1)) (rev (dec_str (n div 10))))"
      using "1.IH" False "1.prems" l by simp
    finally show ?thesis
      using mwrite_Cons [of "p + i" "rev (dec_str (n div 10))" m ?c] "1.prems" l False
      by (simp add: dec_str.simps [of n])
  qed
qed

lemma int2str_ok:
  assumes "n < 2 ^ 31" and "p + length (dec_str n) < length m"
  shows "\<exists>m'. int2str m (int n) p = Some m' \<and> is_str m' p (dec_str n)"
proof -
  let ?r = "rev (dec_str n)"
  let ?m = "mwrite m p ?r"
  have "dec_loop m p (int n) 0 = Some (length (dec_str n), ?m)"
    using dec_loop_ok [of p 0 n m] assms(2) by simp
  then have "int2str m (int n) p = str_reverse (?m[p + length (dec_str n) := 0]) p"
    using assms by (simp add: int2str_def)
  moreover have "?m[p + length (dec_str n) := 0] = mwrite m p (?r @ [0])"
  proof -
    have "mwrite m p (?r @ [0]) = mwrite (m[p + length ?r := 0]) p ?r"
      using mwrite_snoc [of p ?r m 0] assms(2) by simp
    also have "\<dots> = ?m[p + length (dec_str n) := 0]"
      using assms(2) by (intro nth_equalityI) (auto simp: nth_mwrite nth_list_update)
    finally show ?thesis
      by simp
  qed
  moreover have "is_str (mwrite m p (?r @ [0])) p ?r"
    using assms(2) dec_str_nz by (intro is_str_mwrite) auto
  ultimately show ?thesis
    using str_reverse_str by fastforce
qed

lemma str2int_loop_ok:
  assumes "is_str m p (dec_str n @ s)" and "n < 2 ^ 31" and "s = [] \<or> \<not> (sint (hd s) \<ge> 48 \<and> sint (hd s) \<le> 57)"
  shows "str2int m p = Some (int n)"
proof -
  have "str2int_loop m p 0 = str2int_loop m (p + length (dec_str n)) (int n)"
    using assms(1,2)
  proof (induction n arbitrary: s rule: dec_str.induct)
    case (1 n)
    let ?d = "word_of_nat (n mod 10 + 48) :: byte"
    have step: "str2int_loop m q (int (n div 10)) = str2int_loop m (q + 1) (int n)"
      if "q < length m" "m ! q = ?d" for q
    proof -
      have "n mod 10 \<le> 9"
        by presburger
      have "int (10 * (n div 10) + n mod 10) = int n"
        by (simp only: mult_div_mod_eq)
      then have "int n = 10 * int (n div 10) + int (n mod 10)"
        by (simp only: of_nat_add of_nat_mult of_nat_numeral)
      then show ?thesis
        using that dec_digit(1) [of "n mod 10"] "1.prems"(2) \<open>n mod 10 \<le> 9\<close>
        by (subst str2int_loop.simps) (simp add: Let_def)
    qed
    show ?case
    proof (cases "n < 10")
      case True
      then show ?thesis
        using "1.prems"(1) step [of p] by (simp add: dec_str.simps [of n])
    next
      case False
      have a: "is_str m p (dec_str (n div 10) @ ?d # s)"
        using "1.prems"(1) False by (simp add: dec_str.simps [of n])
      then have "str2int_loop m p 0 = str2int_loop m (p + length (dec_str (n div 10))) (int (n div 10))"
        using "1.IH" False "1.prems"(2) by simp
      also have "\<dots> = str2int_loop m (p + length (dec_str (n div 10)) + 1) (int n)"
        using a by (intro step) (auto simp: is_str_append)
      finally show ?thesis
        using False by (simp add: dec_str.simps [of n])
    qed
  qed
  moreover have "is_str m (p + length (dec_str n)) s"
    using assms(1) by (simp add: is_str_append)
  then have "str2int_loop m (p + length (dec_str n)) (int n) = Some (int n)"
    using assms(3) by (cases s) (auto simp: str2int_loop.simps)
  ultimately show ?thesis
    by (simp add: str2int_def)
qed

section \<open>Property\<close>

text \<open>
  \<open>int2str\<close> writes the decimal notation of a number that is not negative, in at most 11 bytes
  with the NUL, and \<open>str2int\<close> reads the number back.
\<close>

theorem int2str_str2int:
  assumes "n < 2 ^ 31" and "p + 11 \<le> length m"
  shows "\<exists>m'. int2str m (int n) p = Some m' \<and> is_str m' p (dec_str n) \<and> length (dec_str n) \<le> 10 \<and>
    str2int m' p = Some (int n)"
proof -
  have l: "length (dec_str n) \<le> 10"
    using length_dec_str [of n 9] assms(1) by simp
  then obtain m' where m': "int2str m (int n) p = Some m'" "is_str m' p (dec_str n)"
    using int2str_ok [OF assms(1), of p m] assms(2) by auto
  then have "str2int m' p = Some (int n)"
    using str2int_loop_ok [of m' p n "[]"] assms(1) by simp
  then show ?thesis
    using m' l by blast
qed

theorem int2str_str2int_witness:
  "\<exists>m'. int2str (replicate 16 1) 1205 2 = Some m' \<and> str2int m' 2 = Some 1205"
  using int2str_str2int [of 1205 2 "replicate 16 1"] by auto

end
