(* ===== verification/Afft.thy ===== *)
theory Afft
  imports Prelude
begin

text \<open>
  The table of device functions (\<open>kernel/kpart/afft.c\<close>): 256 entries, the first 16 reserved for
  callers that ask for a fixed number.  A function pointer is an option; what the functions do is
  not part of this file.
\<close>

definition AFFT_MAX :: nat where "AFFT_MAX = 256"
definition AFFT_RESERVED :: nat where "AFFT_RESERVED = 16"
definition AFFT_AUTO :: u32 where "AFFT_AUTO = 0xFFFFFFFF"

type_synonym io_fun = "nat \<Rightarrow> u32 \<Rightarrow> u32 \<Rightarrow> int"
type_synonym cmd_fun = "u32 \<Rightarrow> nat \<Rightarrow> int"

record afft_map =
  busy :: int
  fread :: "io_fun option"
  fwrite :: "io_fun option"
  fcmd :: "cmd_fun option"

text \<open>The memory \<open>malloc\<close> returned is \<open>junk\<close>.\<close>

definition afft_init :: "afft_map list \<Rightarrow> afft_map list" where
  "afft_init junk = map (\<lambda>e. e\<lparr>busy := 0\<rparr>) (take AFFT_MAX junk)"

definition afft_entry :: "io_fun option \<Rightarrow> io_fun option \<Rightarrow> cmd_fun option \<Rightarrow> afft_map" where
  "afft_entry r w c = \<lparr>busy = 1, fread = r, fwrite = w, fcmd = c\<rparr>"

definition afft_register :: "afft_map list \<Rightarrow> u32 \<Rightarrow> io_fun option \<Rightarrow> io_fun option \<Rightarrow> cmd_fun option \<Rightarrow>
    (int \<times> afft_map list) option" where
  "afft_register fs wanted r w c =
     (if wanted \<noteq> AFFT_AUTO then
        (if unat wanted \<ge> AFFT_MAX then Some (-1, fs)
         else do {
           e \<leftarrow> rd fs (unat wanted);
           if busy e \<noteq> 0 then Some (-1, fs)
           else Some (sint wanted, fs[unat wanted := afft_entry r w c])
         })
      else do {
        i \<leftarrow> Some (find (\<lambda>i. busy (fs ! i) = 0) [AFFT_RESERVED..<AFFT_MAX]);
        case i of None \<Rightarrow> Some (-1, fs) | Some i \<Rightarrow> Some (int i, fs[i := afft_entry r w c])
      })"

definition afft_read :: "afft_map list \<Rightarrow> u32 \<Rightarrow> nat \<Rightarrow> u32 \<Rightarrow> u32 \<Rightarrow> int" where
  "afft_read fs k buffer offset sz =
     (if unat k < AFFT_MAX \<and> busy (fs ! unat k) \<noteq> 0 then
        (case fread (fs ! unat k) of Some f \<Rightarrow> f buffer offset sz | None \<Rightarrow> -1)
      else -1)"

definition afft_write :: "afft_map list \<Rightarrow> u32 \<Rightarrow> nat \<Rightarrow> u32 \<Rightarrow> u32 \<Rightarrow> int" where
  "afft_write fs k buffer offset sz =
     (if unat k < AFFT_MAX \<and> busy (fs ! unat k) \<noteq> 0 then
        (case fwrite (fs ! unat k) of Some f \<Rightarrow> f buffer offset sz | None \<Rightarrow> -1)
      else -1)"

definition afft_cmd :: "afft_map list \<Rightarrow> u32 \<Rightarrow> u32 \<Rightarrow> nat \<Rightarrow> int" where
  "afft_cmd fs k cmd arg =
     (if unat k < AFFT_MAX \<and> busy (fs ! unat k) \<noteq> 0 then
        (case fcmd (fs ! unat k) of Some f \<Rightarrow> f cmd arg | None \<Rightarrow> -1)
      else -1)"

section \<open>Property\<close>

lemma afft_served:
  assumes "i < AFFT_MAX" and "length fs = AFFT_MAX"
  shows "afft_read (fs[i := afft_entry r w c]) (word_of_nat i) b off n = (case r of Some f \<Rightarrow> f b off n | None \<Rightarrow> -1)"
    "afft_write (fs[i := afft_entry r w c]) (word_of_nat i) b off n = (case w of Some f \<Rightarrow> f b off n | None \<Rightarrow> -1)"
proof -
  have "unat (word_of_nat i :: u32) = i"
    using assms(1) by (simp add: unat_word_of_nat AFFT_MAX_def)
  then show "afft_read (fs[i := afft_entry r w c]) (word_of_nat i) b off n = (case r of Some f \<Rightarrow> f b off n | None \<Rightarrow> -1)"
    "afft_write (fs[i := afft_entry r w c]) (word_of_nat i) b off n = (case w of Some f \<Rightarrow> f b off n | None \<Rightarrow> -1)"
    using assms by (simp_all add: afft_read_def afft_write_def afft_entry_def)
qed

lemma registered_intro:
  "P i \<Longrightarrow> i < n \<Longrightarrow> if int i = - 1 then Q else \<exists>j<n. int i = int j \<and> P j"
  by auto

text \<open>
  Registering a device either fails with -1 and changes nothing, because the number wanted is
  taken or too large (or all numbers from 16 on are taken), or takes a free entry, the one wanted or
  the first free one from 16 on; reads and writes of that number then reach the functions
  registered, and all other entries are untouched.
\<close>

theorem afft_register_ok:
  assumes "length fs = AFFT_MAX"
  shows "\<exists>k fs'. afft_register fs wanted r w c = Some (k, fs') \<and>
    (if k = -1
     then fs' = fs \<and> (if wanted = AFFT_AUTO then \<forall>i. AFFT_RESERVED \<le> i \<and> i < AFFT_MAX \<longrightarrow> busy (fs ! i) \<noteq> 0
                      else AFFT_MAX \<le> unat wanted \<or> busy (fs ! unat wanted) \<noteq> 0)
     else \<exists>i<AFFT_MAX. k = int i \<and> busy (fs ! i) = 0 \<and> (\<forall>j. j \<noteq> i \<longrightarrow> fs' ! j = fs ! j) \<and>
       (if wanted = AFFT_AUTO then AFFT_RESERVED \<le> i \<and> (\<forall>j. AFFT_RESERVED \<le> j \<and> j < i \<longrightarrow> busy (fs ! j) \<noteq> 0)
        else i = unat wanted) \<and>
       (\<forall>b off n. afft_read fs' (word_of_nat i) b off n = (case r of Some f \<Rightarrow> f b off n | None \<Rightarrow> -1)) \<and>
       (\<forall>b off n. afft_write fs' (word_of_nat i) b off n = (case w of Some f \<Rightarrow> f b off n | None \<Rightarrow> -1)))"
proof (cases "wanted = AFFT_AUTO")
  case False
  show ?thesis
  proof (cases "AFFT_MAX \<le> unat wanted \<or> busy (fs ! unat wanted) \<noteq> 0")
    case True
    then show ?thesis
      using False assms by (auto simp: afft_register_def)
  next
    case free: False
    then have w: "sint wanted = int (unat wanted)"
      by (intro sint_small) (simp add: AFFT_MAX_def)
    have "afft_register fs wanted r w c = Some (int (unat wanted), fs[unat wanted := afft_entry r w c])"
      using False free assms w by (simp add: afft_register_def)
    moreover have "i \<noteq> unat wanted \<Longrightarrow> fs[unat wanted := afft_entry r w c] ! i = fs ! i" for i
      by simp
    ultimately show ?thesis
      using False free afft_served [of "unat wanted", OF _ assms]
      by (intro exI [of _ "int (unat wanted)"] exI [of _ "fs[unat wanted := afft_entry r w c]"] conjI)
        (assumption, rule registered_intro, simp_all)
  qed
next
  case True
  show ?thesis
  proof (cases "find (\<lambda>i. busy (fs ! i) = 0) [AFFT_RESERVED..<AFFT_MAX]")
    case None
    then have "afft_register fs wanted r w c = Some (-1, fs)"
      using True by (simp add: afft_register_def)
    moreover have "\<forall>i. AFFT_RESERVED \<le> i \<and> i < AFFT_MAX \<longrightarrow> busy (fs ! i) \<noteq> 0"
      using None by (auto simp: find_None_iff)
    ultimately show ?thesis
      using True by auto
  next
    case (Some i)
    then have r: "afft_register fs wanted r w c = Some (int i, fs[i := afft_entry r w c])"
      using True by (simp add: afft_register_def)
    have ex: "\<exists>k<AFFT_MAX - AFFT_RESERVED. i = AFFT_RESERVED + k \<and> busy (fs ! i) = 0 \<and>
        (\<forall>j<k. busy (fs ! (AFFT_RESERVED + j)) \<noteq> 0)"
      using Some by (auto simp: find_Some_iff nth_upt)
    then have i: "i < AFFT_MAX" "AFFT_RESERVED \<le> i" "busy (fs ! i) = 0"
      by auto
    have "busy (fs ! j) \<noteq> 0" if "AFFT_RESERVED \<le> j" "j < i" for j
      using ex that by (metis le_add_diff_inverse add_less_cancel_left)
    then show ?thesis
      using r i True afft_served [OF i(1) assms]
      by (intro exI [of _ "int i"] exI [of _ "fs[i := afft_entry r w c]"] conjI) auto
  qed
qed

theorem afft_register_ok_witness:
  "\<exists>k fs'. afft_register (afft_init (replicate 256 (afft_entry None None None))) 3 None None None = Some (k, fs') \<and> k = 3"
proof -
  have "length (afft_init (replicate 256 (afft_entry None None None))) = AFFT_MAX"
    by (simp add: afft_init_def AFFT_MAX_def)
  from afft_register_ok [OF this, of 3 None None None] show ?thesis
    by (auto simp: afft_init_def AFFT_AUTO_def AFFT_MAX_def split: if_splits)
qed

end
