(* ===== verification/Scuba.thy ===== *)
theory Scuba
  imports Snowflake
begin

text \<open>
  Virtual memory (\<open>scubasuit.c\<close>): page directories and page tables, mapping, unmapping, translation,
  and the copy of a directory for a new process.

  The kernel reaches directories, tables and pages by their physical address.  Directories and
  tables are objects of a typed store \<open>objs\<close>, the bytes of the pages are \<open>ram\<close>; both live in blocks
  of the allocator, \<open>heap\<close>.  \<open>None\<close> is a halt, or a use of a null or wrong pointer.  The product
  \<open>frame * 0x1000\<close> is taken modulo \<open>2^32\<close>.
\<close>

section \<open>State\<close>

record page =
  pg_present :: bool
  pg_rw :: bool
  pg_user :: bool
  pg_accessed :: bool
  pg_dirty :: bool
  pg_unused :: "5 word"
  pg_deepcopy :: bool
  pg_allocate :: bool
  pg_frame :: "20 word"

record dentry =
  de_present :: bool
  de_rw :: bool
  de_user :: bool
  de_accessed :: bool
  de_dirty :: bool
  de_unused :: "6 word"
  de_fkernel :: bool
  de_frame :: "20 word"

record sdir =
  entries :: "dentry list"
  dir_pid :: u32

datatype obj = Dir sdir | Table "page list"

record scuba =
  heap :: snow
  objs :: "u32 \<Rightarrow> obj option"
  ram :: "u32 \<Rightarrow> byte"
  kernel_directory :: u32
  cr3 :: u32
  paging :: bool

definition PAGE_SIZE :: u32 where "PAGE_SIZE = 0x1000"
definition DIR_BYTES :: u32 where "DIR_BYTES = 4100"
definition TABLE_BYTES :: u32 where "TABLE_BYTES = 4096"
definition RUN_HEAP_ADDR :: u32 where "RUN_HEAP_ADDR = 0xB0000000"
definition RUN_HEAP_SIZE :: u32 where "RUN_HEAP_SIZE = 0x1000"

definition zero_page :: page where
  "zero_page = \<lparr>pg_present = False, pg_rw = False, pg_user = False, pg_accessed = False, pg_dirty = False,
     pg_unused = 0, pg_deepcopy = False, pg_allocate = False, pg_frame = 0\<rparr>"

definition zero_entry :: dentry where
  "zero_entry = \<lparr>de_present = False, de_rw = False, de_user = False, de_accessed = False, de_dirty = False,
     de_unused = 0, de_fkernel = False, de_frame = 0\<rparr>"

fun rd_dir :: "scuba \<Rightarrow> u32 \<Rightarrow> sdir option" where
  "rd_dir s a = (case objs s a of Some (Dir d) \<Rightarrow> Some d | _ \<Rightarrow> None)"

fun rd_table :: "scuba \<Rightarrow> u32 \<Rightarrow> page list option" where
  "rd_table s a = (case objs s a of Some (Table t) \<Rightarrow> Some t | _ \<Rightarrow> None)"

declare rd_dir.simps [simp del] rd_table.simps [simp del]

definition put :: "scuba \<Rightarrow> u32 \<Rightarrow> obj \<Rightarrow> scuba" where
  "put s a x = s\<lparr>objs := (objs s)(a \<mapsto> x)\<rparr>"

definition frame_addr :: "20 word \<Rightarrow> u32" where
  "frame_addr f = ucast f * 0x1000"

definition addr_frame :: "u32 \<Rightarrow> 20 word" where
  "addr_frame a = ucast (a div 0x1000)"

definition table_index :: "u32 \<Rightarrow> nat" where
  "table_index virt = unat (virt div 0x1000 div 1024)"

definition page_index :: "u32 \<Rightarrow> nat" where
  "page_index virt = unat (virt div 0x1000 mod 1024)"

section \<open>Internal functions\<close>

definition ram_set :: "scuba \<Rightarrow> u32 \<Rightarrow> byte \<Rightarrow> u32 \<Rightarrow> scuba" where
  "ram_set s p v n = s\<lparr>ram := \<lambda>a. if a - p < n then v else ram s a\<rparr>"

definition ram_copy :: "scuba \<Rightarrow> u32 \<Rightarrow> u32 \<Rightarrow> u32 \<Rightarrow> scuba" where
  "ram_copy s d p n = s\<lparr>ram := \<lambda>a. if a - d < n then ram s (p + (a - d)) else ram s a\<rparr>"

definition i_allign_calloc :: "scuba \<Rightarrow> u32 \<Rightarrow> u32 \<Rightarrow> (u32 \<times> scuba) option" where
  "i_allign_calloc s sz dir = do {
     d \<leftarrow> rd_dir s dir;
     (ptr, h) \<leftarrow> mem_alloc_dir (heap s) sz 0x1000 (sint (dir_pid d)) dir;
     if ptr = 0 \<and> sz \<noteq> 0 then None
     else Some (ptr, ram_set (s\<lparr>heap := h\<rparr>) ptr 0 sz)
   }"

text \<open>The zeroed block as a page table.\<close>

definition calloc_table :: "scuba \<Rightarrow> u32 \<Rightarrow> (u32 \<times> scuba) option" where
  "calloc_table s dir = do {
     (ptr, s) \<leftarrow> i_allign_calloc s TABLE_BYTES dir;
     Some (ptr, put s ptr (Table (replicate 1024 zero_page)))
   }"

definition i_directory_create :: "scuba \<Rightarrow> u32 \<Rightarrow> (u32 \<times> scuba) option" where
  "i_directory_create s pid = do {
     (dir, h) \<leftarrow> mem_alloc_dir (heap s) DIR_BYTES 0x1000 (sint pid) 0;
     if dir = 0 then None
     else Some (dir, put (s\<lparr>heap := h\<rparr>) dir
            (Dir \<lparr>entries = replicate 1024 (zero_entry\<lparr>de_rw := True, de_user := True\<rparr>), dir_pid = pid\<rparr>))
   }"

section \<open>Translation\<close>

definition scuba_get_phys :: "scuba \<Rightarrow> u32 \<Rightarrow> u32 \<Rightarrow> u32 option" where
  "scuba_get_phys s dir virt = do {
     d \<leftarrow> rd_dir s dir;
     e \<leftarrow> rd (entries d) (table_index virt);
     let table = frame_addr (de_frame e);
     if table = 0 then Some 0
     else do {
       t \<leftarrow> rd_table s table;
       p \<leftarrow> rd t (page_index virt);
       if \<not> pg_present p then Some 0
       else Some (frame_addr (pg_frame p) + virt mod 0x1000)
     }
   }"

section \<open>Map and unmap\<close>

definition set_page :: "scuba \<Rightarrow> u32 \<Rightarrow> u32 \<Rightarrow> u32 \<Rightarrow> int \<Rightarrow> scuba option" where
  "set_page s table virt phys mode = do {
     t \<leftarrow> rd_table s table;
     p \<leftarrow> rd t (page_index virt);
     Some (put s table (Table (t[page_index virt := p\<lparr>pg_frame := addr_frame phys, pg_present := True, pg_rw := True,
       pg_user := True, pg_deepcopy := (mode = 0)\<rparr>])))
   }"

definition new_entry :: "dentry \<Rightarrow> bool \<Rightarrow> u32 \<Rightarrow> dentry" where
  "new_entry e fkernel table = e\<lparr>de_present := True, de_rw := True, de_user := True, de_accessed := False,
     de_dirty := False, de_fkernel := fkernel, de_frame := addr_frame table\<rparr>"

definition set_entry :: "scuba \<Rightarrow> u32 \<Rightarrow> nat \<Rightarrow> (dentry \<Rightarrow> dentry) \<Rightarrow> scuba option" where
  "set_entry s dir i f = do {
     d \<leftarrow> rd_dir s dir;
     e \<leftarrow> rd (entries d) i;
     Some (put s dir (Dir (d\<lparr>entries := (entries d)[i := f e]\<rparr>)))
   }"

text \<open>The table of the kernel for the address, when the page is mapped there.\<close>

definition kernel_table :: "scuba \<Rightarrow> u32 \<Rightarrow> u32 option option" where
  "kernel_table s virt = do {
     d \<leftarrow> rd_dir s (kernel_directory s);
     e \<leftarrow> rd (entries d) (table_index virt);
     let table = frame_addr (de_frame e);
     if table = 0 then Some None
     else do {
       t \<leftarrow> rd_table s table;
       p \<leftarrow> rd t (page_index virt);
       Some (if pg_present p then Some table else None)
     }
   }"

definition scuba_map_func :: "scuba \<Rightarrow> u32 \<Rightarrow> u32 \<Rightarrow> u32 \<Rightarrow> int \<Rightarrow> (int \<times> scuba) option" where
  "scuba_map_func s dir virt phys mode = do {
     let fkernel = (mode = 1 \<or> mode = 2);
     d \<leftarrow> rd_dir s dir;
     e \<leftarrow> rd (entries d) (table_index virt);
     let table = frame_addr (de_frame e);
     if table = 0 then
       (if mode = 1 then do {
          k \<leftarrow> kernel_table s virt;
          case k of None \<Rightarrow> Some (1, s)
          | Some table \<Rightarrow> do {
              s \<leftarrow> set_entry s dir (table_index virt) (\<lambda>e. new_entry e fkernel table);
              Some (0, s)
            }
        }
        else do {
          (table, s) \<leftarrow> calloc_table s dir;
          s \<leftarrow> set_entry s dir (table_index virt) (\<lambda>e. new_entry e fkernel table);
          s \<leftarrow> set_page s table virt phys mode;
          Some (0, s)
        })
     else if de_fkernel e \<and> \<not> fkernel then Some (1, s)
     else if mode = 1 then Some (0, s)
     else do {
       s \<leftarrow> set_page s table virt phys mode;
       Some (0, s)
     }
   }"

text \<open>The two loops over the pages; the first says whether one of them is mapped.\<close>

fun any_mapped :: "scuba \<Rightarrow> u32 \<Rightarrow> u32 \<Rightarrow> nat \<Rightarrow> bool option" where
  "any_mapped s dir virt 0 = Some False"
| "any_mapped s dir virt (Suc n) = do {
     p \<leftarrow> scuba_get_phys s dir virt;
     if p \<noteq> 0 then Some True else any_mapped s dir (virt + 0x1000) n
   }"

fun map_pages :: "scuba \<Rightarrow> u32 \<Rightarrow> u32 \<Rightarrow> u32 \<Rightarrow> nat \<Rightarrow> (int \<times> scuba) option" where
  "map_pages s dir virt phys 0 = Some (0, s)"
| "map_pages s dir virt phys (Suc n) = do {
     (r, s) \<leftarrow> scuba_map_func s dir virt phys 0;
     if r \<noteq> 0 then Some (r, s) else map_pages s dir (virt + 0x1000) (phys + 0x1000) n
   }"

definition scuba_create_virtual :: "scuba \<Rightarrow> u32 \<Rightarrow> u32 \<Rightarrow> u32 \<Rightarrow> (u32 \<times> scuba) option" where
  "scuba_create_virtual s dir virt count = do {
     m \<leftarrow> any_mapped s dir virt (unat count);
     if m then Some (0, s)
     else do {
       (phys, s) \<leftarrow> i_allign_calloc s (0x1000 * count) dir;
       (r, s) \<leftarrow> map_pages s dir virt phys (unat count);
       if r \<noteq> 0 then Some (0, s) else Some (phys, s)
     }
   }"

definition scuba_unmap :: "scuba \<Rightarrow> u32 \<Rightarrow> u32 \<Rightarrow> (int \<times> scuba) option" where
  "scuba_unmap s dir virt = do {
     d \<leftarrow> rd_dir s dir;
     e \<leftarrow> rd (entries d) (table_index virt);
     let table = frame_addr (de_frame e);
     if table = 0 then Some (1, s)
     else do {
       t \<leftarrow> rd_table s table;
       p \<leftarrow> rd t (page_index virt);
       Some (0, put s table (Table (t[page_index virt := p\<lparr>pg_present := False\<rparr>])))
     }
   }"

section \<open>Directories\<close>

definition inherit :: "dentry \<Rightarrow> dentry \<Rightarrow> dentry" where
  "inherit pe e = (if de_frame pe = 0 \<or> \<not> de_fkernel pe then e else pe)"

definition scuba_dir_inited :: "scuba \<Rightarrow> u32 \<Rightarrow> u32 \<Rightarrow> (u32 \<times> scuba) option" where
  "scuba_dir_inited s parent pid = do {
     (dir, s) \<leftarrow> i_directory_create s pid;
     d \<leftarrow> rd_dir s dir;
     p \<leftarrow> rd_dir s parent;
     let s = put s dir (Dir (d\<lparr>entries := map2 inherit (entries p) (entries d)\<rparr>));
     (addr, s) \<leftarrow> scuba_create_virtual s dir RUN_HEAP_ADDR (RUN_HEAP_SIZE div 0x1000);
     phys \<leftarrow> scuba_get_phys s parent RUN_HEAP_ADDR;
     if addr = 0 then None
     else Some (dir, if phys \<noteq> 0 then ram_copy s addr phys RUN_HEAP_SIZE else ram_set s addr 0 RUN_HEAP_SIZE)
   }"

text \<open>The pages of one table, from number \<open>j\<close> on.\<close>

fun copy_pages :: "scuba \<Rightarrow> u32 \<Rightarrow> u32 \<Rightarrow> u32 \<Rightarrow> nat \<Rightarrow> nat \<Rightarrow> scuba option" where
  "copy_pages s new_dir table new_table j 0 = Some s"
| "copy_pages s new_dir table new_table j (Suc n) = do {
     t \<leftarrow> rd_table s table;
     p \<leftarrow> rd t j;
     t' \<leftarrow> rd_table s new_table;
     let s = put s new_table (Table (t'[j := p]));
     if \<not> (pg_present p \<and> pg_deepcopy p) then copy_pages s new_dir table new_table (Suc j) n
     else do {
       d \<leftarrow> rd_dir s new_dir;
       (data, h) \<leftarrow> mem_alloc_dir (heap s) 0x1000 0x1000 (sint (dir_pid d)) new_dir;
       if data = 0 then None
       else do {
         let s = ram_copy (s\<lparr>heap := h\<rparr>) data (frame_addr (pg_frame p)) 0x1000;
         t' \<leftarrow> rd_table s new_table;
         copy_pages (put s new_table (Table (t'[j := p\<lparr>pg_frame := addr_frame data\<rparr>]))) new_dir table new_table (Suc j) n
       }
     }
   }"

fun copy_tables :: "scuba \<Rightarrow> u32 \<Rightarrow> u32 \<Rightarrow> nat \<Rightarrow> nat \<Rightarrow> scuba option" where
  "copy_tables s dir new_dir i 0 = Some s"
| "copy_tables s dir new_dir i (Suc n) = do {
     d \<leftarrow> rd_dir s dir;
     e \<leftarrow> rd (entries d) i;
     if de_frame e = 0 then copy_tables s dir new_dir (Suc i) n
     else if de_fkernel e then do {
       s \<leftarrow> set_entry s new_dir i (\<lambda>_. e);
       copy_tables s dir new_dir (Suc i) n
     }
     else do {
       (new_table, s) \<leftarrow> calloc_table s new_dir;
       s \<leftarrow> copy_pages s new_dir (frame_addr (de_frame e)) new_table 0 1024;
       s \<leftarrow> set_entry s new_dir i (\<lambda>_. e\<lparr>de_frame := addr_frame new_table, de_present := True\<rparr>);
       copy_tables s dir new_dir (Suc i) n
     }
   }"

definition scuba_dir_copy :: "scuba \<Rightarrow> u32 \<Rightarrow> u32 \<Rightarrow> (u32 \<times> scuba) option" where
  "scuba_dir_copy s dir pid = do {
     (new_dir, s) \<leftarrow> i_directory_create s pid;
     s \<leftarrow> copy_tables s dir new_dir 0 1024;
     Some (new_dir, s)
   }"

text \<open>\<open>free\<close> is \<open>mem_free_addr\<close> for a pointer that is not null.\<close>

definition scuba_dir_destroy :: "scuba \<Rightarrow> u32 \<Rightarrow> scuba option" where
  "scuba_dir_destroy s dir = do {
     (_, h) \<leftarrow> mem_free_dir (heap s) dir;
     (_, h) \<leftarrow> (if dir = 0 then Some (0, h) else mem_free_addr h dir);
     Some (s\<lparr>heap := h\<rparr>)
   }"

section \<open>Start-up\<close>

partial_function (option) map_identity :: "scuba \<Rightarrow> u32 \<Rightarrow> u32 \<Rightarrow> u32 \<Rightarrow> scuba option" where
  "map_identity s dir i to =
     (if i < to then do {
        (_, s) \<leftarrow> scuba_map_func s dir i i 2;
        map_identity s dir (i + 0x1000) to
      }
      else Some s)"

text \<open>
  The frame buffer of the screen (address, pitch, height), when there is one, is a parameter.
\<close>

definition scuba_init :: "scuba \<Rightarrow> (u32 \<times> u32 \<times> u32) option \<Rightarrow> scuba option" where
  "scuba_init s vesa = do {
     (kd, s) \<leftarrow> i_directory_create s 0;
     let s = s\<lparr>kernel_directory := kd\<rparr>;
     s \<leftarrow> map_identity s kd 0x1000 (phys_size (heap s));
     s \<leftarrow> (case vesa of None \<Rightarrow> Some s
           | Some (fb, pitch, height) \<Rightarrow> map_identity s kd fb (fb + pitch * height * 4 + 0x1000));
     Some (s\<lparr>cr3 := kd, paging := True\<rparr>)
   }"

end
