(* ===== verification/Process.thy ===== *)
theory Process
  imports Scuba KString
begin

text \<open>
  Processes and the scheduler (\<open>process.c\<close>).  A pointer into the table \<open>g_plist\<close> is the place of the
  entry, a number below 200; the two arrays of pointers are lists of places.  \<open>None\<close> is a halt
  (\<open>sys_fatal\<close>), an access outside an array or a null pointer.

  The kernel is not preempted: a process runs until \<open>schedule\<close> switches to another one.  A function
  that calls \<open>schedule\<close> as its last step returns the state after the switch, with the value its
  caller sees when it runs again.  \<open>process_wait\<close> does more when it runs again, and is split there.
\<close>

section \<open>State\<close>

datatype proc_state = FRE | ZMB | SLP | INQ | RUN | IDL

fun state_code :: "proc_state \<Rightarrow> nat" where
  "state_code FRE = 0"
| "state_code ZMB = 1"
| "state_code SLP = 2"
| "state_code INQ = 3"
| "state_code RUN = 4"
| "state_code IDL = 5"

lemma state_code_inject: "state_code a = state_code b \<longleftrightarrow> a = b"
  by (cases a; cases b) simp_all

text \<open>The states are compared as the numbers they are in C.\<close>

instantiation proc_state :: linorder
begin

definition less_eq_proc_state :: "proc_state \<Rightarrow> proc_state \<Rightarrow> bool" where
  "less_eq_proc_state a b \<longleftrightarrow> state_code a \<le> state_code b"

definition less_proc_state :: "proc_state \<Rightarrow> proc_state \<Rightarrow> bool" where
  "less_proc_state a b \<longleftrightarrow> state_code a < state_code b"

instance
  by standard (auto simp: less_eq_proc_state_def less_proc_state_def state_code_inject)

end

record proc_rgs =
  eax :: u32
  ebx :: u32
  ecx :: u32
  edx :: u32
  esi :: u32
  edi :: u32
  esp :: u32
  ebp :: u32
  eip :: u32
  eflags :: u32
  rcr3 :: u32

text \<open>\<open>sleep_to\<close> and \<open>retcode\<close> share their storage.\<close>

record proc =
  regs :: proc_rgs
  scuba_dir :: u32
  pr_pid :: u32
  pr_ppid :: u32
  run_time :: u32
  wait_pid :: int
  sleep_to :: u32
  pr_state :: proc_state
  in_kernel :: byte
  pr_name :: "byte list"

definition retcode :: "proc \<Rightarrow> int" where
  "retcode p = sint (sleep_to p)"

record sched =
  plist :: "proc list"
  proc_current :: nat
  pid_incrament :: u32
  last_switch :: u32
  tsleep_list :: "nat list"
  tsleep_interact :: u32
  shdlr_queue :: "nat list"
  queue_index :: u32
  need_clean :: bool
  ticks :: u32
  kmem :: scuba
  died :: "u32 list"

definition PROCESS_MAX :: nat where "PROCESS_MAX = 200"
definition ERROR_CODE :: int where "ERROR_CODE = -1"
definition RATE_TIMER_TICK :: u32 where "RATE_TIMER_TICK = 1000"
definition SCHEDULER_EVRY :: u32 where "SCHEDULER_EVRY = 10"
definition PROC_ESP_SIZE :: u32 where "PROC_ESP_SIZE = 0x20000"
definition PROC_ESP_ADDR :: u32 where "PROC_ESP_ADDR = RUN_HEAP_ADDR - PROC_ESP_SIZE"

definition zero_rgs :: proc_rgs where
  "zero_rgs = \<lparr>eax = 0, ebx = 0, ecx = 0, edx = 0, esi = 0, edi = 0, esp = 0, ebp = 0, eip = 0, eflags = 0,
     rcr3 = 0\<rparr>"

definition zero_proc :: proc where
  "zero_proc = \<lparr>regs = zero_rgs, scuba_dir = 0, pr_pid = 0, pr_ppid = 0, run_time = 0, wait_pid = 0, sleep_to = 0,
     pr_state = FRE, in_kernel = 0, pr_name = replicate 64 0\<rparr>"

definition on_proc :: "sched \<Rightarrow> nat \<Rightarrow> (proc \<Rightarrow> proc) \<Rightarrow> sched option" where
  "on_proc s i f = do {
     p \<leftarrow> rd (plist s) i;
     Some (s\<lparr>plist := (plist s)[i := f p]\<rparr>)
   }"

section \<open>Internal functions\<close>

definition i_new_process :: "proc \<Rightarrow> u32 \<Rightarrow> u32 \<Rightarrow> u32 \<Rightarrow> proc" where
  "i_new_process p entry_point flags pagedir =
     p\<lparr>regs := \<lparr>eax = 0, ebx = 0, ecx = 0, edx = 0, esi = 0, edi = 0, esp = PROC_ESP_ADDR + PROC_ESP_SIZE - 4,
       ebp = 0, eip = entry_point, eflags = flags, rcr3 = pagedir\<rparr>\<rparr>"

text \<open>
  The search for a place, from \<open>PROCESS_MAX + ideal\<close> down to \<open>ideal + 1\<close>; a negative index is
  outside the table.
\<close>

fun place_loop :: "(proc \<Rightarrow> bool) \<Rightarrow> proc list \<Rightarrow> int list \<Rightarrow> int option" where
  "place_loop P ps [] = Some ERROR_CODE"
| "place_loop P ps (i # is) =
     (if i < 0 then None
      else do {
        p \<leftarrow> rd ps (nat (i mod int PROCESS_MAX));
        if P p then Some (i mod int PROCESS_MAX) else place_loop P ps is
      })"

definition place_order :: "int \<Rightarrow> int list" where
  "place_order ideal = map (\<lambda>k. int PROCESS_MAX + ideal - int k) [0..<PROCESS_MAX]"

definition i_get_free_place :: "proc list \<Rightarrow> int \<Rightarrow> int option" where
  "i_get_free_place ps pid = place_loop (\<lambda>p. pr_state p = FRE) ps (place_order (sgn pid * (\<bar>pid\<bar> mod int PROCESS_MAX)))"

definition i_pid_to_place :: "proc list \<Rightarrow> u32 \<Rightarrow> int option" where
  "i_pid_to_place ps pid =
     place_loop (\<lambda>p. pr_pid p = pid \<and> pr_state p \<noteq> FRE) ps (place_order (uint pid mod int PROCESS_MAX))"

definition i_process_switch :: "sched \<Rightarrow> nat \<Rightarrow> nat \<Rightarrow> sched option" where
  "i_process_switch s proc1 proc2 = do {
     s \<leftarrow> on_proc s proc1 (\<lambda>p. if pr_state p = RUN then p\<lparr>pr_state := INQ\<rparr> else p);
     s \<leftarrow> on_proc s proc2 (\<lambda>p. if pr_state p \<noteq> IDL then p\<lparr>pr_state := RUN\<rparr> else p);
     on_proc (s\<lparr>proc_current := proc2\<rparr>) proc1 (\<lambda>p. p\<lparr>in_kernel := 1\<rparr>)
   }"

definition i_add_to_shdlr_queue :: "sched \<Rightarrow> nat \<Rightarrow> sched option" where
  "i_add_to_shdlr_queue s i =
     (if length (shdlr_queue s) \<ge> PROCESS_MAX then None
      else if i \<in> set (shdlr_queue s) then None
      else Some (s\<lparr>shdlr_queue := shdlr_queue s @ [i]\<rparr>))"

text \<open>An entry of an array of pointers is taken out by moving the last one into its place.\<close>

definition swap_out :: "nat list \<Rightarrow> nat \<Rightarrow> nat list" where
  "swap_out xs k = butlast (xs[k := last xs])"

fun queue_remove :: "nat list \<Rightarrow> nat \<Rightarrow> nat \<Rightarrow> nat list" where
  "queue_remove q i 0 = q"
| "queue_remove q i (Suc n) =
     (let k = length q - Suc n in if q ! k = i then swap_out q k else queue_remove q i n)"

definition i_remove_from_shdlr_queue :: "sched \<Rightarrow> nat \<Rightarrow> sched" where
  "i_remove_from_shdlr_queue s i =
     s\<lparr>shdlr_queue := queue_remove (shdlr_queue s) i (length (shdlr_queue s))\<rparr>"

definition i_free_process :: "sched \<Rightarrow> nat \<Rightarrow> sched option" where
  "i_free_process s i = do {
     p \<leftarrow> rd (plist s) i;
     if scuba_dir p = 0 then Some s
     else do {
       (_, h) \<leftarrow> mem_free_all (heap (kmem s)) (sint (pr_pid p)) 0;
       m \<leftarrow> scuba_dir_destroy ((kmem s)\<lparr>heap := h\<rparr>) (scuba_dir p);
       s \<leftarrow> on_proc (s\<lparr>kmem := m\<rparr>) i (\<lambda>p. p\<lparr>scuba_dir := 0\<rparr>);
       parent_place \<leftarrow> i_pid_to_place (plist s) (pr_ppid p);
       gone \<leftarrow> (if parent_place < 0 then Some True
                else do {
                  q \<leftarrow> rd (plist s) (nat parent_place);
                  Some (pr_state q = ZMB \<or> pr_pid q = 0)
                });
       if gone then on_proc s i (\<lambda>p. p\<lparr>pr_state := FRE\<rparr>) else Some s
     }
   }"

fun clean_loop :: "sched \<Rightarrow> nat list \<Rightarrow> sched option" where
  "clean_loop s [] = Some s"
| "clean_loop s (i # is) = do {
     p \<leftarrow> rd (plist s) i;
     c \<leftarrow> rd (plist s) (proc_current s);
     if pr_state p \<noteq> ZMB \<or> scuba_dir p = 0 then clean_loop s is
     else if pr_pid p \<noteq> pr_pid c then do {
       s \<leftarrow> i_free_process s i;
       clean_loop s is
     }
     else clean_loop (s\<lparr>need_clean := True\<rparr>) is
   }"

definition i_clean_killed :: "sched \<Rightarrow> sched option" where
  "i_clean_killed s = clean_loop (s\<lparr>need_clean := False\<rparr>) [0..<PROCESS_MAX]"

fun interact_loop :: "proc list \<Rightarrow> nat list \<Rightarrow> u32 \<Rightarrow> u32 option" where
  "interact_loop ps [] t = Some t"
| "interact_loop ps (i # is) t = do {
     p \<leftarrow> rd ps i;
     interact_loop ps is (if sleep_to p < t \<or> t = 0 then sleep_to p else t)
   }"

definition i_refresh_tsleep_interact :: "sched \<Rightarrow> sched option" where
  "i_refresh_tsleep_interact s = do {
     t \<leftarrow> interact_loop (plist s) (tsleep_list s) 0;
     Some (s\<lparr>tsleep_interact := t\<rparr>)
   }"

text \<open>\<open>n\<close> is the number of entries from index \<open>i\<close> on.\<close>

fun awake_loop :: "sched \<Rightarrow> u32 \<Rightarrow> nat \<Rightarrow> nat \<Rightarrow> sched option" where
  "awake_loop s t i 0 = Some s"
| "awake_loop s t i (Suc n) = do {
     p \<leftarrow> rd (plist s) (tsleep_list s ! i);
     if sleep_to p > t then awake_loop s t (Suc i) n
     else if pr_state p = SLP then do {
       s \<leftarrow> on_proc s (tsleep_list s ! i) (\<lambda>p. p\<lparr>pr_state := INQ\<rparr>);
       s \<leftarrow> i_add_to_shdlr_queue s (tsleep_list s ! i);
       awake_loop (s\<lparr>tsleep_list := swap_out (tsleep_list s) i\<rparr>) t i n
     }
     else None
   }"

definition i_tsleep_awake :: "sched \<Rightarrow> u32 \<Rightarrow> sched option" where
  "i_tsleep_awake s t = do {
     s \<leftarrow> awake_loop s t 0 (length (tsleep_list s));
     i_refresh_tsleep_interact s
   }"

fun tsleep_remove :: "proc list \<Rightarrow> u32 \<Rightarrow> nat list \<Rightarrow> nat \<Rightarrow> nat \<Rightarrow> nat list option" where
  "tsleep_remove ps pid xs i 0 = Some xs"
| "tsleep_remove ps pid xs i (Suc n) = do {
     p \<leftarrow> rd ps (xs ! i);
     if pr_pid p = pid then tsleep_remove ps pid (swap_out xs i) i n
     else tsleep_remove ps pid xs (Suc i) n
   }"

definition i_remove_from_g_tsleep_list :: "sched \<Rightarrow> u32 \<Rightarrow> sched option" where
  "i_remove_from_g_tsleep_list s pid = do {
     xs \<leftarrow> tsleep_remove (plist s) pid (tsleep_list s) 0 (length (tsleep_list s));
     i_refresh_tsleep_interact (s\<lparr>tsleep_list := xs\<rparr>)
   }"

section \<open>The scheduler\<close>

text \<open>A tick of 0 is a manual call, which takes the time from the timer.\<close>

definition schedule :: "sched \<Rightarrow> u32 \<Rightarrow> sched option" where
  "schedule s t = do {
     c \<leftarrow> rd (plist s) (proc_current s);
     if t \<noteq> 0 \<and> t - last_switch s < SCHEDULER_EVRY \<and> (pr_state c \<noteq> IDL \<or> tsleep_interact s > t) then Some s
     else do {
       let t = (if t = 0 then ticks s else t);
       s \<leftarrow> (if tsleep_interact s \<noteq> 0 \<and> tsleep_interact s \<le> t then i_tsleep_awake s t else Some s);
       s \<leftarrow> (if need_clean s then i_clean_killed s else Some s);
       let idx = queue_index s + 1;
       let idx = (if unat idx \<ge> length (shdlr_queue s) then 0 else idx);
       let s = s\<lparr>queue_index := idx\<rparr>;
       let proc = (if shdlr_queue s = [] then 1 else shdlr_queue s ! unat idx);
       s \<leftarrow> on_proc s (proc_current s) (\<lambda>p. p\<lparr>run_time := run_time p + (t - last_switch s)\<rparr>);
       let s = s\<lparr>last_switch := t\<rparr>;
       if proc = proc_current s then Some s
       else i_process_switch s (proc_current s) proc
     }
   }"

definition schedule_if_needed :: "sched \<Rightarrow> sched option" where
  "schedule_if_needed s = (if ticks s - last_switch s > SCHEDULER_EVRY then schedule s 0 else Some s)"

definition cur :: "sched \<Rightarrow> proc option" where
  "cur s = rd (plist s) (proc_current s)"

section \<open>Sleep and wake-up\<close>

definition process_sleep :: "sched \<Rightarrow> u32 \<Rightarrow> u32 \<Rightarrow> (int \<times> sched) option" where
  "process_sleep s pid ms = do {
     place \<leftarrow> i_pid_to_place (plist s) pid;
     if place < 0 then Some (ERROR_CODE, s)
     else do {
       let i = nat place;
       p \<leftarrow> rd (plist s) i;
       c \<leftarrow> cur s;
       if pr_state p = IDL then Some (ERROR_CODE, s)
       else if pr_state p = ZMB then Some (ERROR_CODE, s)
       else if ms = 0 then do {
         s \<leftarrow> (if pid = pr_pid c then schedule s 0 else Some s);
         Some (0, s)
       }
       else do {
         s \<leftarrow> (if pr_state p = SLP \<and> sleep_to p \<noteq> 0 then i_remove_from_g_tsleep_list s pid else Some s);
         s \<leftarrow> on_proc s i (\<lambda>p. p\<lparr>pr_state := SLP\<rparr>);
         s \<leftarrow> (if ms = -1 then on_proc s i (\<lambda>p. p\<lparr>sleep_to := 0\<rparr>)
               else do {
                 s \<leftarrow> on_proc s i (\<lambda>p. p\<lparr>sleep_to := ticks s + ms * 1000 div RATE_TIMER_TICK\<rparr>);
                 if length (tsleep_list s) \<ge> PROCESS_MAX then None
                 else i_refresh_tsleep_interact (s\<lparr>tsleep_list := tsleep_list s @ [i]\<rparr>)
               });
         let s = i_remove_from_shdlr_queue s i;
         c \<leftarrow> cur s;
         s \<leftarrow> (if pid = pr_pid c then schedule s 0 else Some s);
         Some (0, s)
       }
     }
   }"

definition process_wakeup :: "sched \<Rightarrow> u32 \<Rightarrow> bool \<Rightarrow> (int \<times> sched) option" where
  "process_wakeup s pid handover = do {
     place \<leftarrow> i_pid_to_place (plist s) pid;
     if place < 0 then Some (ERROR_CODE, s)
     else do {
       let i = nat place;
       p \<leftarrow> rd (plist s) i;
       if pr_state p = IDL then Some (ERROR_CODE, s)
       else if pr_state p = ZMB then Some (ERROR_CODE, s)
       else if pr_state p \<noteq> SLP then Some (ERROR_CODE, s)
       else do {
         s \<leftarrow> (if sleep_to p \<noteq> 0 then i_remove_from_g_tsleep_list s pid else Some s);
         s \<leftarrow> on_proc s i (\<lambda>p. p\<lparr>pr_state := INQ, sleep_to := 0, wait_pid := 0\<rparr>);
         s \<leftarrow> i_add_to_shdlr_queue s i;
         s \<leftarrow> i_refresh_tsleep_interact s;
         if handover then do {
           s \<leftarrow> on_proc s (proc_current s) (\<lambda>p. p\<lparr>pr_state := SLP, wait_pid := sint pid, sleep_to := 0\<rparr>);
           s \<leftarrow> schedule (i_remove_from_shdlr_queue s (proc_current s)) 0;
           Some (0, s)
         }
         else Some (0, s)
       }
     }
   }"

section \<open>The end of a process\<close>

text \<open>
  The calls of the modules at a death are recorded in \<open>died\<close>.  The kernel stack bounds the recursion
  over the children: \<open>n\<close>.  The first result is \<open>None\<close> when the caller itself was killed and switched
  away for good, else the return value.
\<close>

definition mod_trigger_atdeath :: "sched \<Rightarrow> u32 \<Rightarrow> sched" where
  "mod_trigger_atdeath s pid = s\<lparr>died := died s @ [pid]\<rparr>"

text \<open>Up to the loop over the table: the entry becomes a zombie.\<close>

definition make_zombie :: "sched \<Rightarrow> nat \<Rightarrow> u32 \<Rightarrow> byte \<Rightarrow> sched option" where
  "make_zombie s i pid code = do {
     p \<leftarrow> rd (plist s) i;
     s \<leftarrow> (if pr_state p = SLP \<and> sleep_to p \<noteq> 0 then i_remove_from_g_tsleep_list s pid else Some s);
     s \<leftarrow> on_proc s i (\<lambda>p. p\<lparr>pr_state := ZMB, sleep_to := ucast code, wait_pid := 0\<rparr>);
     Some ((i_remove_from_shdlr_queue s i)\<lparr>need_clean := True\<rparr>)
   }"

text \<open>One entry: the parent that waits is woken.\<close>

definition wake_waiting :: "sched \<Rightarrow> nat \<Rightarrow> u32 \<Rightarrow> nat \<Rightarrow> sched option" where
  "wake_waiting s i pid place = do {
     p \<leftarrow> rd (plist s) i;
     q \<leftarrow> rd (plist s) place;
     if wait_pid p = sint pid \<or> wait_pid p = -1 \<and> pr_pid p = pr_ppid q then do {
       s \<leftarrow> on_proc s i (\<lambda>p. p\<lparr>wait_pid := sint (- pid)\<rparr>);
       (_, s) \<leftarrow> process_wakeup s (pr_pid p) False;
       Some s
     }
     else Some s
   }"

function process_kill :: "nat \<Rightarrow> sched \<Rightarrow> u32 \<Rightarrow> byte \<Rightarrow> (int option \<times> sched) option"
  and kill_children :: "nat \<Rightarrow> sched \<Rightarrow> nat \<Rightarrow> u32 \<Rightarrow> nat list \<Rightarrow> (bool \<times> sched) option" where
  "process_kill 0 s pid code = None"
| "process_kill (Suc n) s pid code =
     (if pid = 0 then Some (Some ERROR_CODE, s)
      else do {
        place \<leftarrow> i_pid_to_place (plist s) pid;
        if place < 0 then Some (Some ERROR_CODE, s)
        else do {
          p \<leftarrow> rd (plist s) (nat place);
          if pr_state p = IDL then Some (Some ERROR_CODE, s)
          else if pr_state p = ZMB then Some (Some ERROR_CODE, s)
          else do {
            s \<leftarrow> make_zombie s (nat place) pid code;
            (here, s) \<leftarrow> kill_children n s (nat place) pid [0..<PROCESS_MAX];
            if \<not> here then Some (None, s)
            else do {
              let s = mod_trigger_atdeath s pid;
              c \<leftarrow> cur s;
              if pid = pr_pid c then do {
                s \<leftarrow> schedule s 0;
                Some (None, s)
              }
              else Some (Some 0, s)
            }
          }
        }
      })"
| "kill_children n s place pid [] = Some (True, s)"
| "kill_children n s place pid (i # is) =
     (if i = place then kill_children n s place pid is
      else do {
        s \<leftarrow> wake_waiting s i pid place;
        p \<leftarrow> rd (plist s) i;
        if pr_ppid p = pid \<and> pr_state p \<noteq> FRE then
          (if pr_state p = ZMB then do {
             s \<leftarrow> i_free_process s i;
             s \<leftarrow> on_proc s i (\<lambda>p. p\<lparr>pr_state := FRE\<rparr>);
             kill_children n s place pid is
           }
           else do {
             (r, s) \<leftarrow> process_kill n s (pr_pid p) 0;
             if r = None then Some (False, s) else kill_children n s place pid is
           })
        else kill_children n s place pid is
      })"
  by pat_completeness auto

termination
  by (relation "measures [\<lambda>x. case x of Inl (n, _) \<Rightarrow> 2 * n | Inr (n, _) \<Rightarrow> 2 * n + 1,
      \<lambda>x. case x of Inl _ \<Rightarrow> 0 | Inr (_, _, _, _, is) \<Rightarrow> length is]") auto

declare process_kill.simps [simp del] kill_children.simps [simp del]

section \<open>Waiting for a child\<close>

text \<open>The scan for a dead child; the result is its place.\<close>

definition dead_child :: "sched \<Rightarrow> nat option option" where
  "dead_child s = do {
     c \<leftarrow> cur s;
     if length (plist s) < PROCESS_MAX then None
     else Some (find (\<lambda>i. pr_state (plist s ! i) = ZMB \<and> pr_ppid (plist s ! i) = pr_pid c \<and>
            retcode (plist s ! i) \<ge> 0) [0..<PROCESS_MAX])
   }"

text \<open>The code of the child, its pid, and its entry free again.\<close>

definition reap :: "sched \<Rightarrow> nat \<Rightarrow> (int \<times> byte \<times> sched) option" where
  "reap s i = do {
     p \<leftarrow> rd (plist s) i;
     s \<leftarrow> i_free_process s i;
     s \<leftarrow> on_proc s i (\<lambda>p. p\<lparr>pr_state := FRE\<rparr>);
     Some (sint (pr_pid p), ucast (sleep_to p), s)
   }"

text \<open>How a call of \<open>process_wait\<close> goes on: it returns, or it waits.\<close>

datatype wait_result = Returned int "byte option" | Blocked

definition process_wait :: "sched \<Rightarrow> int \<Rightarrow> bool \<Rightarrow> (wait_result \<times> sched) option" where
  "process_wait s pid block = do {
     let pid = (if pid < 1 then -1 else pid);
     c \<leftarrow> cur s;
     early \<leftarrow> (if pid < 0 then do {
         found \<leftarrow> dead_child s;
         case found of
           Some i \<Rightarrow> do {
             (r, code, s) \<leftarrow> reap s i;
             Some (Some (Returned r (Some code), s))
           }
         | None \<Rightarrow> Some (if list_ex (\<lambda>i. pr_ppid (plist s ! i) = pr_pid c \<and> pr_state (plist s ! i) > ZMB) [0..<PROCESS_MAX] then None
                         else Some (Returned (-1) None, s))
       }
       else do {
         child_place \<leftarrow> i_pid_to_place (plist s) (word_of_int pid);
         if child_place < 0 then Some (Some (Returned ERROR_CODE None, s))
         else do {
           p \<leftarrow> rd (plist s) (nat child_place);
           if pr_ppid p \<noteq> pr_pid c then Some (Some (Returned ERROR_CODE None, s))
           else if pr_state p = ZMB then do {
             (r, code, s) \<leftarrow> reap s (nat child_place);
             Some (Some (Returned pid (Some code), s))
           }
           else Some None
         }
       });
     case early of Some r \<Rightarrow> Some r
     | None \<Rightarrow>
         if \<not> block then Some (Returned 0 None, s)
         else do {
           s \<leftarrow> on_proc s (proc_current s) (\<lambda>p. p\<lparr>pr_state := SLP, wait_pid := (if pid < 0 then -1 else pid), sleep_to := 0\<rparr>);
           s \<leftarrow> schedule (i_remove_from_shdlr_queue s (proc_current s)) 0;
           Some (Blocked, s)
         }
   }"

text \<open>What the process does when it runs again.\<close>

definition process_wait_resume :: "sched \<Rightarrow> (wait_result \<times> sched) option" where
  "process_wait_resume s = do {
     c \<leftarrow> cur s;
     let pid = wait_pid c;
     s \<leftarrow> on_proc s (proc_current s) (\<lambda>p. p\<lparr>wait_pid := 0\<rparr>);
     if pid = -1 \<or> pid > 0 then Some (Returned ERROR_CODE None, s)
     else do {
       found \<leftarrow> dead_child s;
       case found of
         Some i \<Rightarrow> do {
           (r, code, s) \<leftarrow> reap s i;
           Some (Returned r (Some code), s)
         }
       | None \<Rightarrow> None
     }
   }"

end
