(* ===== verification/ProcessCalls.thy ===== *)
theory ProcessCalls
  imports Process
begin

text \<open>
  The rest of \<open>process.c\<close>: the start-up, the creation of processes, the calls that read or set what
  the table says of a process, and the system calls of \<open>scubasuit.c\<close>, which act on the directory of
  the running process.
\<close>

section \<open>Creation\<close>

text \<open>\<open>str_cpy\<close> of a literal into the name.\<close>

definition set_name :: "byte list \<Rightarrow> proc \<Rightarrow> proc option" where
  "set_name str p = do {
     m \<leftarrow> str_cpy (pr_name p @ str @ [0]) 0 (length (pr_name p));
     Some (p\<lparr>pr_name := take (length (pr_name p)) m\<rparr>)
   }"

definition name_child :: "byte list" where "name_child = [0x63, 0x68, 0x69, 0x6C, 0x64]"
definition name_kernel :: "byte list" where "name_kernel = [0x6B, 0x65, 0x72, 0x6E, 0x65, 0x6C]"
definition name_idle :: "byte list" where "name_idle = [0x69, 0x64, 0x6C, 0x65]"

text \<open>A 32-bit store to the physical memory, and the arguments one after the other.\<close>

definition ram_put32 :: "scuba \<Rightarrow> u32 \<Rightarrow> u32 \<Rightarrow> scuba" where
  "ram_put32 m a v = m\<lparr>ram := (ram m)(a := ucast v, a + 1 := ucast (v div 2 ^ 8), a + 2 := ucast (v div 2 ^ 16),
     a + 3 := ucast (v div 2 ^ 24))\<rparr>"

fun push_args :: "scuba \<Rightarrow> u32 \<Rightarrow> u32 list \<Rightarrow> scuba" where
  "push_args m a [] = m"
| "push_args m a (v # vs) = push_args (ram_put32 m a v) (a + 4) vs"

text \<open>
  \<open>func\<close> is the address to start at, 0 for a fork; \<open>final_jump\<close> is the address of
  \<open>i_process_final_jump\<close>.  The result is the place of the new process.
\<close>

definition process_create_func :: "u32 \<Rightarrow> sched \<Rightarrow> u32 \<Rightarrow> bool \<Rightarrow> u32 list \<Rightarrow> byte \<Rightarrow> (nat option \<times> sched) option" where
  "process_create_func final_jump s func copy_page args kern = do {
     place \<leftarrow> i_get_free_place (plist s) (sint (pid_incrament s + 1));
     if place = ERROR_CODE then Some (None, s)
     else do {
       let i = nat place;
       let s = s\<lparr>pid_incrament := pid_incrament s + 1\<rparr>;
       let pid = pid_incrament s;
       p \<leftarrow> set_name name_child zero_proc;
       s \<leftarrow> on_proc s i (\<lambda>_. p);
       c \<leftarrow> cur s;
       s \<leftarrow> on_proc s i (\<lambda>p. p\<lparr>pr_pid := pid, pr_ppid := pr_pid c, in_kernel := kern, pr_state := SLP\<rparr>);
       c \<leftarrow> cur s;
       (dir, phys_stack, m) \<leftarrow>
         (if copy_page then do {
            (dir, m) \<leftarrow> scuba_dir_copy (kmem s) (scuba_dir c) pid;
            phys_stack \<leftarrow> scuba_get_phys m dir PROC_ESP_ADDR;
            Some (dir, phys_stack, m)
          }
          else do {
            (dir, m) \<leftarrow> scuba_dir_inited (kmem s) (scuba_dir c) pid;
            (phys_stack, m) \<leftarrow> scuba_create_virtual m dir PROC_ESP_ADDR (PROC_ESP_SIZE div 0x1000);
            Some (dir, phys_stack, m)
          });
       s \<leftarrow> on_proc (s\<lparr>kmem := m\<rparr>) i (\<lambda>p. i_new_process (p\<lparr>scuba_dir := dir\<rparr>) func (eflags (regs c)) dir);
       if func = 0 then Some (Some i, s)
       else do {
         let top = phys_stack + PROC_ESP_SIZE - 4 * word_of_nat (length args + 1);
         let m = ram_put32 (push_args m (top + 4) args) top final_jump;
         s \<leftarrow> on_proc (s\<lparr>kmem := m\<rparr>) i (\<lambda>p. p\<lparr>regs := (regs p)\<lparr>esp := PROC_ESP_ADDR + PROC_ESP_SIZE -
                word_of_nat (length args + 1) * 4\<rparr>\<rparr>);
         Some (Some i, s)
       }
     }
   }"

definition pid_or_error :: "(nat option \<times> sched) option \<Rightarrow> (int \<times> sched) option" where
  "pid_or_error r = do {
     (place, s) \<leftarrow> r;
     case place of None \<Rightarrow> Some (ERROR_CODE, s)
     | Some i \<Rightarrow> do { p \<leftarrow> rd (plist s) i; Some (sint (pr_pid p), s) }
   }"

definition process_create :: "u32 \<Rightarrow> sched \<Rightarrow> u32 \<Rightarrow> bool \<Rightarrow> u32 list \<Rightarrow> (int \<times> sched) option" where
  "process_create final_jump s func copy_page args = pid_or_error (process_create_func final_jump s func copy_page args 1)"

definition process_create_user :: "u32 \<Rightarrow> sched \<Rightarrow> u32 \<Rightarrow> u32 list \<Rightarrow> (int \<times> sched) option" where
  "process_create_user final_jump s func args = pid_or_error (process_create_func final_jump s func True args 0)"

definition process_fork :: "u32 \<Rightarrow> sched \<Rightarrow> proc_rgs \<Rightarrow> (int \<times> sched) option" where
  "process_fork final_jump s r = do {
     (place, s) \<leftarrow> process_create_func final_jump s 0 True [] 0;
     case place of None \<Rightarrow> Some (ERROR_CODE, s)
     | Some i \<Rightarrow> do {
         s \<leftarrow> on_proc s i (\<lambda>p. p\<lparr>regs := (regs p)\<lparr>eax := eax r, ebx := ebx r, ecx := ecx r, edx := edx r,
                esi := esi r, edi := edi r, eip := eip r, esp := esp r + 20, ebp := ebp r, eflags := eflags r\<rparr>\<rparr>);
         p \<leftarrow> rd (plist s) i;
         Some (sint (pr_pid p), s)
       }
   }"

text \<open>
  The flags and the page directory register are read from the machine; \<open>idle\<close> is the address of the
  idle loop.
\<close>

definition process_init :: "u32 \<Rightarrow> scuba \<Rightarrow> u32 \<Rightarrow> u32 \<Rightarrow> u32 \<Rightarrow> sched option" where
  "process_init final_jump m flags now idle = do {
     k \<leftarrow> set_name name_kernel zero_proc;
     let k = k\<lparr>pr_state := RUN, pr_ppid := 0, pr_pid := 0, regs := (regs k)\<lparr>rcr3 := cr3 m, eflags := flags\<rparr>\<rparr>;
     let s = \<lparr>plist = k # replicate (PROCESS_MAX - 1) zero_proc, proc_current = 0, pid_incrament = 0, last_switch = 0,
              tsleep_list = [], tsleep_interact = 0, shdlr_queue = [], queue_index = 0, need_clean = False,
              ticks = now, kmem = m, died = []\<rparr>;
     s \<leftarrow> i_add_to_shdlr_queue s 0;
     s \<leftarrow> on_proc s 0 (\<lambda>p. p\<lparr>scuba_dir := kernel_directory m\<rparr>);
     (_, s) \<leftarrow> process_create final_jump s idle False [];
     p \<leftarrow> rd (plist s) 1;
     p \<leftarrow> set_name name_idle p;
     on_proc s 1 (\<lambda>_. p\<lparr>pr_state := IDL, in_kernel := 0\<rparr>)
   }"

section \<open>Reading and setting\<close>

definition process_get_pid :: "sched \<Rightarrow> u32 option" where
  "process_get_pid s = do {
     c \<leftarrow> cur s;
     Some (pr_pid c)
   }"

definition process_list_all :: "sched \<Rightarrow> int \<Rightarrow> u32 list" where
  "process_list_all s n = take (nat n) (map pr_pid (filter (\<lambda>p. pr_state p \<noteq> FRE) (plist s)))"

definition process_get_dir :: "sched \<Rightarrow> u32 \<Rightarrow> u32 option" where
  "process_get_dir s pid = do {
     place \<leftarrow> i_pid_to_place (plist s) pid;
     if place < 0 then Some 0
     else do {
       p \<leftarrow> rd (plist s) (nat place);
       Some (scuba_dir p)
     }
   }"

definition process_switch_directory :: "sched \<Rightarrow> u32 \<Rightarrow> u32 \<Rightarrow> bool \<Rightarrow> sched option" where
  "process_switch_directory s pid new_dir now = do {
     place \<leftarrow> i_pid_to_place (plist s) pid;
     if place < 0 then Some s
     else do {
       p \<leftarrow> rd (plist s) (nat place);
       s \<leftarrow> on_proc s (nat place) (\<lambda>p. p\<lparr>scuba_dir := new_dir\<rparr>);
       if \<not> now then Some s
       else do {
         c \<leftarrow> cur s;
         let m = (if pid = pr_pid c then (kmem s)\<lparr>cr3 := new_dir\<rparr> else kmem s);
         m \<leftarrow> scuba_dir_destroy m (scuba_dir p);
         Some (s\<lparr>kmem := m\<rparr>)
       }
     }
   }"

datatype proc_info = PROC_INFO_PPID | PROC_INFO_SET_PPID | PROC_INFO_WAIT_PID | PROC_INFO_RET_CODE |
  PROC_INFO_STATE | PROC_INFO_SLEEP_TO | PROC_INFO_RUN_TIME | PROC_INFO_NAME | PROC_INFO_STACK |
  PROC_INFO_SET_NAME | PROC_INFO_OTHER

text \<open>A number, or the pointer to the name of the entry at a place.\<close>

datatype info_result = Number int | Name_at nat

text \<open>
  \<open>str\<close> is the memory \<open>ptr\<close> points to; \<open>kernel_time\<close> is the result of \<open>sys_get_kernel_time\<close>.
\<close>

definition process_info :: "u32 \<Rightarrow> sched \<Rightarrow> u32 \<Rightarrow> proc_info \<Rightarrow> u32 \<Rightarrow> byte list \<Rightarrow> (info_result \<times> sched) option" where
  "process_info kernel_time s pid info_id ptr str = do {
     place \<leftarrow> i_pid_to_place (plist s) pid;
     if info_id = PROC_INFO_STACK then Some (Number (sint PROC_ESP_ADDR), s)
     else if place < 0 then Some (Number (-1), s)
     else do {
       let i = nat place;
       p \<leftarrow> rd (plist s) i;
       case info_id of
         PROC_INFO_STATE \<Rightarrow> Some (Number (int (state_code (pr_state p))), s)
       | PROC_INFO_PPID \<Rightarrow> Some (Number (sint (pr_ppid p)), s)
       | PROC_INFO_SET_PPID \<Rightarrow> do {
           s \<leftarrow> on_proc s i (\<lambda>p. p\<lparr>pr_ppid := ptr\<rparr>);
           Some (Number 0, s)
         }
       | PROC_INFO_WAIT_PID \<Rightarrow> Some (Number (wait_pid p), s)
       | PROC_INFO_RET_CODE \<Rightarrow> Some (Number (retcode p), s)
       | PROC_INFO_SLEEP_TO \<Rightarrow> Some (Number (sint (sleep_to p)), s)
       | PROC_INFO_RUN_TIME \<Rightarrow> Some (Number (sint (if pid = 0 then kernel_time else run_time p)), s)
       | PROC_INFO_NAME \<Rightarrow> Some (Name_at i, s)
       | PROC_INFO_SET_NAME \<Rightarrow>
           if ptr = 0 then Some (Number (-1), s)
           else do {
             m \<leftarrow> str_ncpy (pr_name p @ str) 0 (length (pr_name p)) 63;
             s \<leftarrow> on_proc s i (\<lambda>p. p\<lparr>pr_name := take (length (pr_name p)) m\<rparr>);
             Some (Number 0, s)
           }
       | _ \<Rightarrow> Some (Number (-1), s)
     }
   }"

section \<open>System calls on the memory of the running process\<close>

definition current_dir :: "sched \<Rightarrow> u32 option" where
  "current_dir s = do {
     pid \<leftarrow> process_get_pid s;
     process_get_dir s pid
   }"

definition with_kmem :: "sched \<Rightarrow> ('a \<times> scuba) option \<Rightarrow> ('a \<times> sched) option" where
  "with_kmem s r = do {
     (x, m) \<leftarrow> r;
     Some (x, s\<lparr>kmem := m\<rparr>)
   }"

definition scuba_call_generate :: "sched \<Rightarrow> u32 \<Rightarrow> u32 \<Rightarrow> (u32 \<times> sched) option" where
  "scuba_call_generate s addr n = do {
     dir \<leftarrow> current_dir s;
     with_kmem s (scuba_create_virtual (kmem s) dir addr n)
   }"

definition scuba_call_map :: "sched \<Rightarrow> u32 \<Rightarrow> u32 \<Rightarrow> bool \<Rightarrow> (int \<times> sched) option" where
  "scuba_call_map s addr phys cic = do {
     dir \<leftarrow> current_dir s;
     with_kmem s (scuba_map_func (kmem s) dir addr phys (if cic then 0 else 3))
   }"

definition scuba_call_unmap :: "sched \<Rightarrow> u32 \<Rightarrow> (int \<times> sched) option" where
  "scuba_call_unmap s addr = do {
     dir \<leftarrow> current_dir s;
     with_kmem s (scuba_unmap (kmem s) dir addr)
   }"

definition scuba_call_phys :: "sched \<Rightarrow> u32 \<Rightarrow> u32 option" where
  "scuba_call_phys s addr = do {
     dir \<leftarrow> current_dir s;
     scuba_get_phys (kmem s) dir addr
   }"

end
