(* ===== verification/ProcessLists.thy ===== *)
theory ProcessLists
  imports ProcessCalls "HOL-Library.Multiset"
begin

text \<open>
  Facts on the parts of the scheduler: the search for a place, the two arrays of pointers, the time
  of the next wake-up.
\<close>

section \<open>Places\<close>

definition table_ok :: "proc list \<Rightarrow> bool" where
  "table_ok ps \<longleftrightarrow> length ps = PROCESS_MAX \<and>
     (\<forall>i<PROCESS_MAX. \<forall>j<PROCESS_MAX. pr_state (ps ! i) \<noteq> FRE \<longrightarrow> pr_state (ps ! j) \<noteq> FRE \<longrightarrow>
        pr_pid (ps ! i) = pr_pid (ps ! j) \<longrightarrow> i = j)"

lemma table_ok_length [simp]: "table_ok ps \<Longrightarrow> length ps = PROCESS_MAX"
  by (simp add: table_ok_def)

lemma table_ok_inject:
  "table_ok ps \<Longrightarrow> i < PROCESS_MAX \<Longrightarrow> j < PROCESS_MAX \<Longrightarrow> pr_state (ps ! i) \<noteq> FRE \<Longrightarrow> pr_state (ps ! j) \<noteq> FRE \<Longrightarrow>
    pr_pid (ps ! i) = pr_pid (ps ! j) \<Longrightarrow> i = j"
  unfolding table_ok_def by blast

lemma place_loop_cases:
  assumes "length ps = PROCESS_MAX" and "\<forall>i\<in>set is. 0 \<le> i"
  obtains (found) j where "place_loop P ps is = Some (int j)" "j < PROCESS_MAX" "P (ps ! j)"
  | (none) "place_loop P ps is = Some (-1)" "\<forall>i\<in>set is. \<not> P (ps ! nat (i mod int PROCESS_MAX))"
proof -
  have "(\<exists>j<PROCESS_MAX. place_loop P ps is = Some (int j) \<and> P (ps ! j)) \<or>
      place_loop P ps is = Some (-1) \<and> (\<forall>i\<in>set is. \<not> P (ps ! nat (i mod int PROCESS_MAX)))"
    using assms(2)
  proof (induction "is")
    case (Cons i "is")
    have m: "nat (i mod int PROCESS_MAX) < PROCESS_MAX" "0 \<le> i mod int PROCESS_MAX"
      by (simp_all add: PROCESS_MAX_def nat_less_iff)
    show ?case
    proof (cases "P (ps ! nat (i mod int PROCESS_MAX))")
      case True
      then have "place_loop P ps (i # is) = Some (int (nat (i mod int PROCESS_MAX)))"
        using Cons.prems m assms(1) by simp
      then show ?thesis
        using True m by blast
    next
      case False
      then have "place_loop P ps (i # is) = place_loop P ps is"
        using Cons.prems m assms(1) by simp
      then show ?thesis
        using Cons False by simp
    qed
  qed (simp add: ERROR_CODE_def)
  then show thesis
    using found none by blast
qed

lemma place_order_covers:
  assumes "0 \<le> ideal" and "j < PROCESS_MAX"
  shows "\<exists>i\<in>set (place_order ideal). nat (i mod int PROCESS_MAX) = j"
proof -
  let ?k = "nat ((ideal - int j) mod int PROCESS_MAX)"
  have k: "?k < PROCESS_MAX" "int ?k = (ideal - int j) mod int PROCESS_MAX"
    by (simp_all add: PROCESS_MAX_def nat_less_iff)
  have "(int PROCESS_MAX + ideal - int ?k) mod int PROCESS_MAX = int j mod int PROCESS_MAX"
    unfolding k(2) by (simp add: mod_diff_right_eq)
  also have "\<dots> = int j"
    using assms(2) by simp
  finally have "nat ((int PROCESS_MAX + ideal - int ?k) mod int PROCESS_MAX) = j"
    by simp
  moreover have "int PROCESS_MAX + ideal - int ?k \<in> set (place_order ideal)"
    unfolding place_order_def set_map using k(1) by (intro imageI) (simp only: set_upt atLeastLessThan_iff, simp)
  ultimately show ?thesis
    by blast
qed

lemma place_order_nonneg: "0 \<le> ideal \<Longrightarrow> \<forall>i\<in>set (place_order ideal). 0 \<le> i"
  by (auto simp: place_order_def)

lemma pid_to_place_cases:
  assumes "length ps = PROCESS_MAX"
  obtains (found) j where "i_pid_to_place ps pid = Some (int j)" "j < PROCESS_MAX" "pr_pid (ps ! j) = pid"
    "pr_state (ps ! j) \<noteq> FRE"
  | (none) "i_pid_to_place ps pid = Some (-1)" "\<And>j. j < PROCESS_MAX \<Longrightarrow> pr_pid (ps ! j) = pid \<Longrightarrow> pr_state (ps ! j) = FRE"
proof -
  let ?o = "place_order (uint pid mod int PROCESS_MAX)"
  have nn: "0 \<le> uint pid mod int PROCESS_MAX"
    by (simp add: PROCESS_MAX_def)
  show thesis
  proof (rule place_loop_cases [OF assms place_order_nonneg [OF nn], of "\<lambda>p. pr_pid p = pid \<and> pr_state p \<noteq> FRE"])
    fix j assume "place_loop (\<lambda>p. pr_pid p = pid \<and> pr_state p \<noteq> FRE) ps ?o = Some (int j)" "j < PROCESS_MAX"
      "pr_pid (ps ! j) = pid \<and> pr_state (ps ! j) \<noteq> FRE"
    then show thesis
      using found by (simp add: i_pid_to_place_def)
  next
    assume h: "place_loop (\<lambda>p. pr_pid p = pid \<and> pr_state p \<noteq> FRE) ps ?o = Some (-1)"
      "\<forall>i\<in>set ?o. \<not> (pr_pid (ps ! nat (i mod int PROCESS_MAX)) = pid \<and> pr_state (ps ! nat (i mod int PROCESS_MAX)) \<noteq> FRE)"
    show thesis
    proof (rule none)
      show "i_pid_to_place ps pid = Some (-1)"
        using h(1) by (simp add: i_pid_to_place_def)
      show "pr_state (ps ! j) = FRE" if "j < PROCESS_MAX" "pr_pid (ps ! j) = pid" for j
        using place_order_covers [OF nn that(1)] h(2) that(2) by blast
    qed
  qed
qed

lemma pid_to_place_at:
  assumes "table_ok ps" and "j < PROCESS_MAX" and "pr_state (ps ! j) \<noteq> FRE"
  shows "i_pid_to_place ps (pr_pid (ps ! j)) = Some (int j)"
proof -
  from assms(1) have "length ps = PROCESS_MAX"
    by simp
  then show ?thesis
    by (cases rule: pid_to_place_cases [of ps "pr_pid (ps ! j)"]) (use table_ok_inject [OF assms(1)] assms in blast)+
qed

section \<open>Arrays of pointers\<close>

lemma mset_swap_out:
  assumes "k < length xs"
  shows "mset (swap_out xs k) = mset xs - {#xs ! k#}"
proof -
  have ne: "xs \<noteq> []"
    using assms by auto
  let ?ys = "xs[k := last xs]"
  have l: "?ys \<noteq> []" "last ?ys = last xs"
    using ne by (auto simp: last_list_update)
  have "mset ?ys = mset (butlast ?ys) + {#last ?ys#}"
    using l(1) by (metis append_butlast_last_id mset.simps(1,2) mset_append)
  then have "mset (butlast ?ys) = add_mset (last xs) (mset xs - {#xs ! k#}) - {#last xs#}"
    using assms l(2) by (simp add: mset_update)
  then show ?thesis
    by (simp add: swap_out_def)
qed

lemma swap_out_distinct:
  assumes "k < length xs" and "distinct xs"
  shows "distinct (swap_out xs k)" "set (swap_out xs k) = set xs - {xs ! k}" "length (swap_out xs k) = length xs - 1"
proof -
  have m: "mset (swap_out xs k) = mset xs - {#xs ! k#}"
    using mset_swap_out [OF assms(1)] .
  also have "\<dots> = mset (remove1 (xs ! k) xs)"
    by simp
  finally have m': "mset (swap_out xs k) = mset (remove1 (xs ! k) xs)" .
  show "distinct (swap_out xs k)"
    using mset_eq_imp_distinct_iff [OF m'] assms(2) by simp
  show "set (swap_out xs k) = set xs - {xs ! k}"
    using mset_eq_setD [OF m'] assms(2) by simp
  show "length (swap_out xs k) = length xs - 1"
    using assms(1) by (simp add: swap_out_def)
qed

lemma nth_swap_out:
  "k < length xs - 1 \<Longrightarrow> j < k \<Longrightarrow> swap_out xs k ! j = xs ! j"
  by (simp add: swap_out_def nth_butlast)

lemma take_swap_out: "k < length xs \<Longrightarrow> take k (swap_out xs k) = take k xs"
  by (simp add: swap_out_def take_butlast)

lemma queue_remove_from:
  assumes "distinct q" and "n \<le> length q" and "i \<notin> set (take (length q - n) q)"
  shows "distinct (queue_remove q i n) \<and> set (queue_remove q i n) = set q - {i}"
  using assms
proof (induction n)
  case (Suc n)
  let ?k = "length q - Suc n"
  have k: "?k < length q" "length q - n = Suc ?k"
    using Suc.prems(2) by auto
  show ?case
  proof (cases "q ! ?k = i")
    case True
    then show ?thesis
      using swap_out_distinct [OF k(1) Suc.prems(1)] by (simp add: Let_def)
  next
    case False
    then have "i \<notin> set (take (length q - n) q)"
      using Suc.prems(3) k by (auto simp: take_Suc_conv_app_nth)
    then show ?thesis
      using Suc.IH Suc.prems False by (simp add: Let_def)
  qed
qed simp

lemma queue_remove_ok:
  "distinct q \<Longrightarrow> distinct (queue_remove q i (length q)) \<and> set (queue_remove q i (length q)) = set q - {i}"
  by (rule queue_remove_from) simp_all

lemma tsleep_remove_from:
  assumes "distinct xs" and "i + n = length xs" and "\<forall>x\<in>set xs. x < length ps"
    and "\<forall>x\<in>set (take i xs). pr_pid (ps ! x) \<noteq> pid"
  shows "\<exists>ys. tsleep_remove ps pid xs i n = Some ys \<and> distinct ys \<and> set ys = {x\<in>set xs. pr_pid (ps ! x) \<noteq> pid}"
  using assms
proof (induction n arbitrary: xs i)
  case 0
  then show ?case
    by auto
next
  case (Suc n)
  have i: "i < length xs"
    using Suc.prems(2) by simp
  then have x: "xs ! i \<in> set xs" "xs ! i < length ps"
    using Suc.prems(3) by auto
  show ?case
  proof (cases "pr_pid (ps ! (xs ! i)) = pid")
    case True
    note sw = swap_out_distinct [OF i Suc.prems(1)]
    have "i + n = length (swap_out xs i)" "\<forall>x\<in>set (swap_out xs i). x < length ps"
      "\<forall>x\<in>set (take i (swap_out xs i)). pr_pid (ps ! x) \<noteq> pid"
      using Suc.prems sw take_swap_out [OF i] by auto
    from Suc.IH [OF sw(1) this] show ?thesis
      using True x sw(2) by auto
  next
    case False
    then have "\<forall>x\<in>set (take (Suc i) xs). pr_pid (ps ! x) \<noteq> pid"
      using Suc.prems(4) i by (auto simp: take_Suc_conv_app_nth)
    then show ?thesis
      using Suc.IH [of xs "Suc i"] Suc.prems False x by simp
  qed
qed

lemma tsleep_remove_ok:
  "distinct xs \<Longrightarrow> \<forall>x\<in>set xs. x < length ps \<Longrightarrow>
    \<exists>ys. tsleep_remove ps pid xs 0 (length xs) = Some ys \<and> distinct ys \<and> set ys = {x\<in>set xs. pr_pid (ps ! x) \<noteq> pid}"
  by (rule tsleep_remove_from) simp_all

section \<open>The next wake-up\<close>

definition earliest :: "proc list \<Rightarrow> nat set \<Rightarrow> u32" where
  "earliest ps X = (if X = {} then 0 else Min ((\<lambda>i. sleep_to (ps ! i)) ` X))"

lemma interact_loop_min:
  assumes "\<forall>x\<in>set xs. x < length ps \<and> sleep_to (ps ! x) \<noteq> 0" and "t \<noteq> 0"
  shows "interact_loop ps xs t = Some (Min (insert t ((\<lambda>i. sleep_to (ps ! i)) ` set xs)))"
  using assms
proof (induction xs arbitrary: t)
  case (Cons x xs)
  let ?v = "sleep_to (ps ! x)" and ?S = "(\<lambda>i. sleep_to (ps ! i)) ` set xs"
  have m: "(if ?v < t \<or> t = 0 then ?v else t) = min ?v t"
    using Cons.prems(2) by (auto simp: min_def not_less)
  have "min ?v t \<noteq> 0"
    using Cons.prems by (auto simp: min_def)
  then have "interact_loop ps (x # xs) t = Some (Min (insert (min ?v t) ?S))"
    using Cons m by simp
  also have "Min (insert (min ?v t) ?S) = Min (insert t (insert ?v ?S))"
    by (cases "?S = {}") (simp_all add: min.assoc min.commute min.left_commute)
  finally show ?case
    by simp
qed simp

lemma interact_loop_ok:
  assumes "\<forall>x\<in>set xs. x < length ps \<and> sleep_to (ps ! x) \<noteq> 0"
  shows "interact_loop ps xs 0 = Some (earliest ps (set xs))"
proof (cases xs)
  case (Cons x ys)
  then have "interact_loop ps xs 0 = interact_loop ps ys (sleep_to (ps ! x))"
    using assms by simp
  also have "\<dots> = Some (earliest ps (set xs))"
    using interact_loop_min [of ys ps "sleep_to (ps ! x)"] assms Cons by (simp add: earliest_def)
  finally show ?thesis .
qed (simp add: earliest_def)

lemma earliest_cong:
  "(\<And>i. i \<in> X \<Longrightarrow> sleep_to (ps ! i) = sleep_to (qs ! i)) \<Longrightarrow> earliest ps X = earliest qs X"
  by (simp add: earliest_def cong: image_cong_simp)

end
