(* ===== verification/ProcessInv.thy ===== *)
theory ProcessInv
  imports ProcessLists SnowflakeProps
begin

text \<open>
  The invariant of the scheduler and the functions that keep it: the queue holds exactly the
  processes that can run, the list of sleepers exactly those with a wake-up time, whose earliest is
  cached.
\<close>

section \<open>The invariant\<close>

definition runnable :: "proc list \<Rightarrow> nat set" where
  "runnable ps = {i. i < PROCESS_MAX \<and> pr_state (ps ! i) \<in> {INQ, RUN}}"

definition sleepers :: "proc list \<Rightarrow> nat set" where
  "sleepers ps = {i. i < PROCESS_MAX \<and> pr_state (ps ! i) = SLP \<and> sleep_to (ps ! i) \<noteq> 0}"

definition queue_ok :: "sched \<Rightarrow> bool" where
  "queue_ok s \<longleftrightarrow> distinct (shdlr_queue s) \<and> set (shdlr_queue s) = runnable (plist s)"

definition sleep_ok :: "sched \<Rightarrow> bool" where
  "sleep_ok s \<longleftrightarrow> distinct (tsleep_list s) \<and> set (tsleep_list s) = sleepers (plist s) \<and>
     tsleep_interact s = earliest (plist s) (sleepers (plist s))"

text \<open>The idle process has place 1, the kernel's process is at place 0, at most the current process is \<open>RUN\<close>.\<close>

definition base_ok :: "sched \<Rightarrow> bool" where
  "base_ok s \<longleftrightarrow> proc_current s < PROCESS_MAX \<and> (\<forall>i<PROCESS_MAX. pr_state (plist s ! i) = IDL \<longleftrightarrow> i = 1) \<and>
     pr_pid (plist s ! 0) = 0 \<and> pr_state (plist s ! 0) \<notin> {FRE, ZMB} \<and>
     (\<forall>i<PROCESS_MAX. i \<noteq> proc_current s \<longrightarrow> pr_state (plist s ! i) \<noteq> RUN)"

text \<open>Every page directory of a process is a block of its own, in no other directory.\<close>

definition dir_block :: "part list \<Rightarrow> u32 \<Rightarrow> bool" where
  "dir_block bs d \<longleftrightarrow> (\<exists>b\<in>set bs. paddr b = d \<and> pstate b = SNOW_SCUBA \<and> pdir b = 0)"

definition dirs_ok :: "proc list \<Rightarrow> part list \<Rightarrow> bool" where
  "dirs_ok ps bs \<longleftrightarrow> (\<forall>i<PROCESS_MAX. scuba_dir (ps ! i) \<noteq> 0 \<longrightarrow> dir_block bs (scuba_dir (ps ! i)) \<and>
     (\<forall>j<PROCESS_MAX. j \<noteq> i \<longrightarrow> scuba_dir (ps ! j) \<noteq> scuba_dir (ps ! i)))"

definition mem_ok :: "sched \<Rightarrow> bool" where
  "mem_ok s \<longleftrightarrow> (\<exists>bs. snow_ok (heap (kmem s)) bs \<and> dirs_ok (plist s) bs)"

lemma dirs_ok_cong: "(\<And>i. scuba_dir (qs ! i) = scuba_dir (ps ! i)) \<Longrightarrow> dirs_ok qs bs = dirs_ok ps bs"
  by (simp add: dirs_ok_def)

lemma mem_ok_cong:
  assumes "mem_ok s" and "heap (kmem t) = heap (kmem s)" and "\<And>i. i < PROCESS_MAX \<Longrightarrow> scuba_dir (plist t ! i) = scuba_dir (plist s ! i)"
  shows "mem_ok t"
  using assms by (simp add: mem_ok_def dirs_ok_def)

definition sched_ok :: "sched \<Rightarrow> bool" where
  "sched_ok s \<longleftrightarrow> table_ok (plist s) \<and> queue_ok s \<and> sleep_ok s \<and> base_ok s \<and> mem_ok s"

definition on_cpu :: "sched \<Rightarrow> bool" where
  "on_cpu s \<longleftrightarrow> pr_state (plist s ! proc_current s) \<in> {INQ, RUN, IDL}"

lemma runnable_update [simp]:
  "i < PROCESS_MAX \<Longrightarrow> length ps = PROCESS_MAX \<Longrightarrow>
    runnable (ps[i := p]) = (if pr_state p \<in> {INQ, RUN} then insert i (runnable ps) else runnable ps - {i})"
  by (auto simp: runnable_def nth_list_update)

lemma sleepers_update [simp]:
  "i < PROCESS_MAX \<Longrightarrow> length ps = PROCESS_MAX \<Longrightarrow>
    sleepers (ps[i := p]) = (if pr_state p = SLP \<and> sleep_to p \<noteq> 0 then insert i (sleepers ps) else sleepers ps - {i})"
  by (auto simp: sleepers_def nth_list_update)

lemma in_runnable: "i \<in> runnable ps \<longleftrightarrow> i < PROCESS_MAX \<and> pr_state (ps ! i) \<in> {INQ, RUN}"
  by (simp add: runnable_def)

lemma in_sleepers: "i \<in> sleepers ps \<longleftrightarrow> i < PROCESS_MAX \<and> pr_state (ps ! i) = SLP \<and> sleep_to (ps ! i) \<noteq> 0"
  by (simp add: sleepers_def)

lemma finite_sleepers [simp]: "finite (sleepers ps)"
  by (simp add: sleepers_def)

lemma earliest_update [simp]: "i \<notin> X \<Longrightarrow> earliest (ps[i := p]) X = earliest ps X"
  by (rule earliest_cong) (metis nth_list_update_neq)

lemma on_proc_in [simp]:
  "i < length (plist s) \<Longrightarrow> on_proc s i f = Some (s\<lparr>plist := (plist s)[i := f (plist s ! i)]\<rparr>)"
  by (simp add: on_proc_def)

lemma table_ok_update:
  assumes "table_ok ps" and "i < PROCESS_MAX" and "pr_state (ps ! i) \<noteq> FRE"
    and "pr_pid p = pr_pid (ps ! i)"
  shows "table_ok (ps[i := p])"
proof -
  have "pr_pid (ps[i := p] ! j) = pr_pid (ps ! j)" "pr_state (ps[i := p] ! j) \<noteq> FRE \<Longrightarrow> pr_state (ps ! j) \<noteq> FRE" for j
    using assms by (cases "j = i"; simp add: nth_list_update)+
  then show ?thesis
    using assms(1) unfolding table_ok_def by simp
qed

lemma add_queue_ok:
  assumes "distinct (shdlr_queue s)" and "set (shdlr_queue s) = runnable ps" and "i < PROCESS_MAX" and "i \<notin> runnable ps"
  shows "i_add_to_shdlr_queue s i = Some (s\<lparr>shdlr_queue := shdlr_queue s @ [i]\<rparr>)"
proof -
  have "distinct (i # shdlr_queue s)" "set (i # shdlr_queue s) \<subseteq> {..<PROCESS_MAX}"
    using assms by (auto simp: in_runnable)
  then have "length (i # shdlr_queue s) \<le> PROCESS_MAX"
    using card_mono [of "{..<PROCESS_MAX}" "set (i # shdlr_queue s)"] by (simp add: distinct_card)
  then show ?thesis
    using assms by (simp add: i_add_to_shdlr_queue_def)
qed

section \<open>The sleepers\<close>

lemma refresh_ok:
  assumes "length (plist s) = PROCESS_MAX" and "set (tsleep_list s) = sleepers (plist s)"
  shows "i_refresh_tsleep_interact s = Some (s\<lparr>tsleep_interact := earliest (plist s) (sleepers (plist s))\<rparr>)"
proof -
  have "\<forall>x\<in>set (tsleep_list s). x < length (plist s) \<and> sleep_to (plist s ! x) \<noteq> 0"
    using assms by (simp add: in_sleepers)
  from interact_loop_ok [OF this] show ?thesis
    using assms by (simp add: i_refresh_tsleep_interact_def)
qed

text \<open>The list without one process; its entry in the table is about to change.\<close>

lemma remove_sleeper_ok:
  assumes "table_ok (plist s)" and "sleep_ok s" and "i < PROCESS_MAX" and "pr_state (plist s ! i) \<noteq> FRE"
  shows "\<exists>ts. i_remove_from_g_tsleep_list s (pr_pid (plist s ! i)) =
      Some (s\<lparr>tsleep_list := ts, tsleep_interact := earliest (plist s) (sleepers (plist s) - {i})\<rparr>) \<and>
    distinct ts \<and> set ts = sleepers (plist s) - {i}"
proof -
  let ?pid = "pr_pid (plist s ! i)"
  have t: "distinct (tsleep_list s)" "set (tsleep_list s) = sleepers (plist s)"
    using assms(2) by (simp_all add: sleep_ok_def)
  have l: "length (plist s) = PROCESS_MAX"
    using assms(1) by simp
  have "\<forall>x\<in>set (tsleep_list s). x < length (plist s)"
    using t l by (simp add: in_sleepers)
  from tsleep_remove_ok [OF t(1) this, of ?pid] obtain ts where ts:
    "tsleep_remove (plist s) ?pid (tsleep_list s) 0 (length (tsleep_list s)) = Some ts" "distinct ts"
    "set ts = {x\<in>set (tsleep_list s). pr_pid (plist s ! x) \<noteq> ?pid}"
    by blast
  have "pr_pid (plist s ! x) = ?pid \<longleftrightarrow> x = i" if "x \<in> sleepers (plist s)" for x
    using that table_ok_inject [OF assms(1), of x i] assms(3,4) by (auto simp: in_sleepers)
  then have st: "set ts = sleepers (plist s) - {i}"
    using ts(3) t(2) by auto
  then have "\<forall>x\<in>set ts. x < length (plist s) \<and> sleep_to (plist s ! x) \<noteq> 0"
    using l by (simp add: in_sleepers)
  from interact_loop_ok [OF this]
  have "i_remove_from_g_tsleep_list s ?pid =
      Some (s\<lparr>tsleep_list := ts, tsleep_interact := earliest (plist s) (sleepers (plist s) - {i})\<rparr>)"
    using ts(1) st by (simp add: i_remove_from_g_tsleep_list_def i_refresh_tsleep_interact_def)
  then show ?thesis
    using ts(2) st by blast
qed

text \<open>The table once the sleepers of \<open>X\<close> whose time has come are runnable.\<close>

definition awaken :: "u32 \<Rightarrow> nat set \<Rightarrow> proc list \<Rightarrow> proc list" where
  "awaken t X ps = map (\<lambda>j. if j \<in> X \<and> sleep_to (ps ! j) \<le> t then (ps ! j)\<lparr>pr_state := INQ\<rparr> else ps ! j) [0..<length ps]"

lemma length_awaken [simp]: "length (awaken t X ps) = length ps"
  by (simp add: awaken_def)

lemma nth_awaken [simp]:
  "j < length ps \<Longrightarrow> awaken t X ps ! j = (if j \<in> X \<and> sleep_to (ps ! j) \<le> t then (ps ! j)\<lparr>pr_state := INQ\<rparr> else ps ! j)"
  by (simp add: awaken_def)

lemma awaken_step:
  "x \<in> X \<Longrightarrow> x < length ps \<Longrightarrow> sleep_to (ps ! x) \<le> t \<Longrightarrow>
    awaken t (X - {x}) (ps[x := (ps ! x)\<lparr>pr_state := INQ\<rparr>]) = awaken t X ps"
  by (rule nth_equalityI) (auto simp: nth_list_update)

lemma awake_loop_ok:
  assumes "length (plist s) = PROCESS_MAX" and "distinct (tsleep_list s)" and "set (tsleep_list s) \<subseteq> sleepers (plist s)"
    and "distinct (shdlr_queue s)" and "set (shdlr_queue s) = runnable (plist s)"
    and "i + n = length (tsleep_list s)" and "\<forall>x\<in>set (take i (tsleep_list s)). t < sleep_to (plist s ! x)"
  shows "\<exists>q ts. awake_loop s t i n = Some (s\<lparr>plist := awaken t (set (tsleep_list s)) (plist s), shdlr_queue := q, tsleep_list := ts\<rparr>) \<and>
    distinct q \<and> set q = runnable (awaken t (set (tsleep_list s)) (plist s)) \<and>
    distinct ts \<and> set ts = {x\<in>set (tsleep_list s). t < sleep_to (plist s ! x)}"
  using assms
proof (induction n arbitrary: s i)
  case 0
  then have "awaken t (set (tsleep_list s)) (plist s) = plist s"
    by (intro nth_equalityI) (auto simp: not_le)
  then show ?case
    using 0 by (intro exI [of _ "shdlr_queue s"] exI [of _ "tsleep_list s"]) auto
next
  case (Suc n)
  let ?x = "tsleep_list s ! i" and ?ps = "plist s"
  have i: "i < length (tsleep_list s)"
    using Suc.prems(6) by simp
  then have x: "?x \<in> set (tsleep_list s)"
    by simp
  then have "?x \<in> sleepers ?ps"
    using Suc.prems(3) by blast
  then have x: "?x \<in> set (tsleep_list s)" "?x < PROCESS_MAX" "pr_state (?ps ! ?x) = SLP"
    using x by (simp_all add: in_sleepers)
  show ?case
  proof (cases "t < sleep_to (?ps ! ?x)")
    case True
    then have "\<forall>x\<in>set (take (Suc i) (tsleep_list s)). t < sleep_to (?ps ! x)"
      using Suc.prems(7) i by (auto simp: take_Suc_conv_app_nth)
    then show ?thesis
      using Suc.IH [of s "Suc i"] Suc.prems True x by simp
  next
    case False
    let ?p = "(?ps ! ?x)\<lparr>pr_state := INQ\<rparr>"
    let ?s1 = "s\<lparr>plist := ?ps[?x := ?p], shdlr_queue := shdlr_queue s @ [?x], tsleep_list := swap_out (tsleep_list s) i\<rparr>"
    note sw = swap_out_distinct [OF i Suc.prems(2)]
    have nr: "?x \<notin> runnable ?ps"
      using x by (simp add: in_runnable)
    have "awake_loop s t i (Suc n) = awake_loop ?s1 t i n"
      using False x Suc.prems(1,4,5) nr add_queue_ok [of "s\<lparr>plist := ?ps[?x := ?p]\<rparr>" ?ps ?x] by simp
    moreover have "set (tsleep_list ?s1) \<subseteq> sleepers (plist ?s1)" "distinct (shdlr_queue ?s1)"
        "set (shdlr_queue ?s1) = runnable (plist ?s1)" "i + n = length (tsleep_list ?s1)"
      using Suc.prems x sw nr by auto
    moreover have "\<forall>x\<in>set (take i (tsleep_list ?s1)). t < sleep_to (plist ?s1 ! x)"
      using Suc.prems(1,7) take_swap_out [OF i] False x by (auto simp: nth_list_update)
    moreover have "awaken t (set (tsleep_list ?s1)) (plist ?s1) = awaken t (set (tsleep_list s)) ?ps"
      using awaken_step x Suc.prems(1) False sw by (simp add: not_less)
    moreover have "{x\<in>set (tsleep_list ?s1). t < sleep_to (plist ?s1 ! x)} = {x\<in>set (tsleep_list s). t < sleep_to (?ps ! x)}"
      using sw(2) False x Suc.prems(1) by (auto simp: nth_list_update)
    ultimately show ?thesis
      using Suc.IH [of ?s1 i] Suc.prems(1) sw(1) by simp
  qed
qed

lemma sleepers_awaken:
  "length ps = PROCESS_MAX \<Longrightarrow> sleepers (awaken t (sleepers ps) ps) = {x\<in>sleepers ps. t < sleep_to (ps ! x)}"
  by (auto simp: in_sleepers not_le split: if_splits)

lemma tsleep_awake_ok:
  assumes "length (plist s) = PROCESS_MAX" and "queue_ok s" and "sleep_ok s"
  obtains q ts e where "i_tsleep_awake s t =
      Some (s\<lparr>plist := awaken t (sleepers (plist s)) (plist s), shdlr_queue := q, tsleep_list := ts, tsleep_interact := e\<rparr>)"
    "queue_ok (s\<lparr>plist := awaken t (sleepers (plist s)) (plist s), shdlr_queue := q, tsleep_list := ts, tsleep_interact := e\<rparr>)"
    "sleep_ok (s\<lparr>plist := awaken t (sleepers (plist s)) (plist s), shdlr_queue := q, tsleep_list := ts, tsleep_interact := e\<rparr>)"
proof -
  let ?ps = "awaken t (sleepers (plist s)) (plist s)"
  have "\<exists>q ts. awake_loop s t 0 (length (tsleep_list s)) = Some (s\<lparr>plist := ?ps, shdlr_queue := q, tsleep_list := ts\<rparr>) \<and>
    distinct q \<and> set q = runnable ?ps \<and> distinct ts \<and> set ts = sleepers ?ps"
    using awake_loop_ok [of s 0 "length (tsleep_list s)" t] assms
    by (simp add: queue_ok_def sleep_ok_def sleepers_awaken)
  then obtain q ts where L: "awake_loop s t 0 (length (tsleep_list s)) = Some (s\<lparr>plist := ?ps, shdlr_queue := q, tsleep_list := ts\<rparr>)"
    "distinct q" "set q = runnable ?ps" "distinct ts" "set ts = sleepers ?ps"
    by blast
  let ?s = "s\<lparr>plist := ?ps, shdlr_queue := q, tsleep_list := ts, tsleep_interact := earliest ?ps (sleepers ?ps)\<rparr>"
  have "i_tsleep_awake s t = Some ?s"
    using L(1,5) assms(1) refresh_ok [of "s\<lparr>plist := ?ps, shdlr_queue := q, tsleep_list := ts\<rparr>"]
    by (simp add: i_tsleep_awake_def)
  moreover have "queue_ok ?s" "sleep_ok ?s"
    using L by (simp_all add: queue_ok_def sleep_ok_def)
  ultimately show thesis
    using that by blast
qed

end
