(* ===== verification/ProcessSched.thy ===== *)
theory ProcessSched
  imports ProcessInv
begin

text \<open>
  The clean-up of dead processes and the scheduler proper: both keep the invariant and never halt.
\<close>

section \<open>The memory of a process\<close>

text \<open>The blocks that go with a process: those it allocated, those of its directory, the directory.\<close>

definition owned :: "int \<Rightarrow> u32 \<Rightarrow> part \<Rightarrow> bool" where
  "owned pid dir b \<longleftrightarrow> pid \<noteq> 0 \<and> ppid b = pid \<and> pstate b \<noteq> SNOW_SCUBA \<or> pdir b = dir \<or>
     paddr b = dir \<and> dir \<noteq> MEM_BASE_ADDR"

lemma snow_ok_array:
  assumes "snow_ok h bs"
  obtains b where "b \<in> set bs" "paddr b = parts_addr h" "pstate b = SNOW_MM"
  using assms unfolding snow_ok_def by blast

lemma filter_addr_base:
  assumes "snow_ok h bs" and "\<not> (dir \<noteq> MEM_BASE_ADDR \<and> dir \<in> paddr ` set bs)"
  shows "filter (\<lambda>b. \<not> (paddr b = dir \<and> dir \<noteq> MEM_BASE_ADDR)) bs = bs"
  using assms(2) by (auto simp: filter_id_conv)

lemma free_memory_ok:
  assumes "snow_ok h bs" and "dir \<noteq> 0" and "\<forall>b\<in>set bs. pstate b = SNOW_MM \<longrightarrow> paddr b \<noteq> dir"
  obtains n1 h1 n2 h2 n3 h3 where "mem_free_all h pid 0 = Some (n1, h1)" "mem_free_dir h1 dir = Some (n2, h2)"
    "mem_free_addr h2 dir = Some (n3, h3)" "snow_ok h3 (filter (\<lambda>b. \<not> owned pid dir b) bs)"
proof -
  let ?gone = "\<lambda>b. pid \<noteq> 0 \<and> ppid b = pid \<and> pstate b \<noteq> SNOW_SCUBA"
  have free: "pstate b \<noteq> 0" if "b \<in> set bs" for b
  proof -
    obtain js t where "slots (parts h) js t" "bs = blocks_at (parts h) js"
      using assms(1) by (auto simp: snow_ok_def has_blocks_def)
    then show ?thesis
      using that plist_used [of "parts h" 0 js t] by (auto simp: slots_def is_free_def snow_states)
  qed
  have "\<exists>n1 h1. mem_free_all h pid 0 = Some (n1, h1) \<and> snow_ok h1 (filter (\<lambda>b. \<not> ?gone b) bs)"
  proof (cases "pid = 0")
    case False
    have "filter (\<lambda>b. \<not> (ppid b = pid \<and> ((0 :: byte) = 0 \<and> pstate b \<noteq> SNOW_SCUBA \<or> pstate b = 0))) bs =
        filter (\<lambda>b. \<not> ?gone b) bs"
      using free False by (intro filter_cong) auto
    then show ?thesis
      using mem_free_all_spec [OF assms(1) False, of 0] by (auto simp: Let_def)
  qed (use assms(1) in \<open>simp add: mem_free_all_def\<close>)
  then obtain n1 h1 where 1: "mem_free_all h pid 0 = Some (n1, h1)" "snow_ok h1 (filter (\<lambda>b. \<not> ?gone b) bs)"
    by blast
  let ?b2 = "filter (\<lambda>b. pdir b \<noteq> dir) (filter (\<lambda>b. \<not> ?gone b) bs)"
  obtain n2 h2 where 2: "mem_free_dir h1 dir = Some (n2, h2)" "snow_ok h2 ?b2"
    using mem_free_dir_spec [OF 1(2) assms(2)] by blast
  obtain b where "b \<in> set ?b2" "paddr b = parts_addr h2" "pstate b = SNOW_MM"
    using snow_ok_array [OF 2(2)] by blast
  then have ne: "dir \<noteq> parts_addr h2"
    using assms(3) by force
  have f: "filter (\<lambda>b. \<not> (paddr b = dir \<and> dir \<noteq> MEM_BASE_ADDR)) ?b2 = filter (\<lambda>b. \<not> owned pid dir b) bs"
    by (simp add: owned_def conj_commute) (intro filter_cong refl, blast)
  have "\<exists>n3 h3. mem_free_addr h2 dir = Some (n3, h3) \<and> snow_ok h3 (filter (\<lambda>b. \<not> owned pid dir b) bs)"
  proof (cases "dir \<noteq> MEM_BASE_ADDR \<and> dir \<in> paddr ` set ?b2")
    case True
    then show ?thesis
      using mem_free_addr_spec [OF 2(2) ne] unfolding f [symmetric] by auto
  next
    case False
    then have "mem_free_addr h2 dir = Some (1, h2)"
      using mem_free_addr_spec [OF 2(2) ne] by simp
    then show ?thesis
      using 2(2) filter_addr_base [OF 2(2) False] unfolding f [symmetric] by simp
  qed
  then show thesis
    using that 1(1) 2(1) by blast
qed

text \<open>The entry of a process whose memory is freed.\<close>

definition freed :: "proc_state \<Rightarrow> proc \<Rightarrow> proc" where
  "freed st p = p\<lparr>scuba_dir := 0, pr_state := st\<rparr>"

lemma freed_simps [simp]: "pr_state (freed st p) = st" "pr_pid (freed st p) = pr_pid p" "pr_ppid (freed st p) = pr_ppid p"
  "sleep_to (freed st p) = sleep_to p" "scuba_dir (freed st p) = 0" "wait_pid (freed st p) = wait_pid p"
  by (simp_all add: freed_def)

lemma dir_block_array:
  assumes "snow_ok h bs" and "dir_block bs d" and "b \<in> set bs" and "pstate b = SNOW_MM"
  shows "paddr b \<noteq> d"
proof
  assume e: "paddr b = d"
  obtain c where c: "c \<in> set bs" "paddr c = d" "pstate c = SNOW_SCUBA"
    using assms(2) by (auto simp: dir_block_def)
  have "distinct (map paddr bs)"
    using snow_ok_base [OF assms(1)] by metis
  then have "b = c"
    using assms(3) c(1,2) e by (auto simp: distinct_map dest: inj_onD)
  then show False
    using assms(4) c(3) by (simp add: snow_states)
qed

lemma dirs_ok_free:
  assumes "dirs_ok ps bs" and "length ps = PROCESS_MAX" and "i < PROCESS_MAX" and "scuba_dir (ps ! i) \<noteq> 0" and "scuba_dir p = 0"
  shows "dirs_ok (ps[i := p]) (filter (\<lambda>b. \<not> owned pid (scuba_dir (ps ! i)) b) bs)"
proof -
  have "dir_block (filter (\<lambda>b. \<not> owned pid (scuba_dir (ps ! i)) b) bs) (scuba_dir (ps ! j))"
    if "j < PROCESS_MAX" "j \<noteq> i" "scuba_dir (ps ! j) \<noteq> 0" for j
  proof -
    have d: "dir_block bs (scuba_dir (ps ! j))"
      using assms(1) that by (simp add: dirs_ok_def)
    have n: "scuba_dir (ps ! j) \<noteq> scuba_dir (ps ! i)"
      using assms(1,3,4) that(1,2) unfolding dirs_ok_def by blast
    show ?thesis
      using d n assms(4) by (auto simp: dir_block_def owned_def)
  qed
  moreover have "scuba_dir (ps[i := p] ! j) = (if j = i then 0 else scuba_dir (ps ! j))" for j
    using assms(2,3,5) by simp
  ultimately show ?thesis
    using assms(1) by (simp add: dirs_ok_def)
qed

lemma free_process_ok:
  assumes "length (plist s) = PROCESS_MAX" and "i < PROCESS_MAX" and "mem_ok s"
  obtains m st where "i_free_process s i = Some (s\<lparr>kmem := m, plist := (plist s)[i := freed st (plist s ! i)]\<rparr>)"
    "st = pr_state (plist s ! i) \<or> st = FRE" "mem_ok (s\<lparr>kmem := m, plist := (plist s)[i := freed st (plist s ! i)]\<rparr>)"
proof (cases "scuba_dir (plist s ! i) = 0")
  case True
  then have e: "freed (pr_state (plist s ! i)) (plist s ! i) = plist s ! i"
    by (simp add: freed_def)
  show thesis
    by (rule that [of "pr_state (plist s ! i)" "kmem s"]) (use True assms e in \<open>simp_all add: i_free_process_def\<close>)
next
  case False
  let ?p = "plist s ! i" and ?pid = "sint (pr_pid (plist s ! i))" and ?dir = "scuba_dir (plist s ! i)"
  obtain bs where bs: "snow_ok (heap (kmem s)) bs" "dirs_ok (plist s) bs"
    using assms(3) by (auto simp: mem_ok_def)
  then have "dir_block bs ?dir"
    using assms(2) False by (simp add: dirs_ok_def)
  then have "\<forall>b\<in>set bs. pstate b = SNOW_MM \<longrightarrow> paddr b \<noteq> ?dir"
    using dir_block_array [OF bs(1)] by blast
  then obtain n1 h1 n2 h2 n3 h3 where H: "mem_free_all (heap (kmem s)) ?pid 0 = Some (n1, h1)"
    "mem_free_dir h1 ?dir = Some (n2, h2)" "mem_free_addr h2 ?dir = Some (n3, h3)"
    "snow_ok h3 (filter (\<lambda>b. \<not> owned ?pid ?dir b) bs)"
    by (rule free_memory_ok [OF bs(1) False])
  define m where "m = (kmem s)\<lparr>heap := h3\<rparr>"
  define s1 where "s1 = s\<lparr>kmem := m, plist := (plist s)[i := freed (pr_state ?p) ?p]\<rparr>"
  have upd: "?p\<lparr>scuba_dir := 0\<rparr> = freed (pr_state ?p) ?p"
    by (simp add: freed_def)
  have destroy: "scuba_dir_destroy ((kmem s)\<lparr>heap := h1\<rparr>) ?dir = Some m"
    using H(2,3) False by (simp add: scuba_dir_destroy_def m_def)
  have l: "length (plist s1) = PROCESS_MAX"
    using assms(1) by (simp add: s1_def)
  have "on_proc (s\<lparr>kmem := m\<rparr>) i (\<lambda>p. p\<lparr>scuba_dir := 0\<rparr>) = Some s1"
    using assms(1,2) upd by (simp add: s1_def)
  then have F: "i_free_process s i = do {
      parent_place \<leftarrow> i_pid_to_place (plist s1) (pr_ppid ?p);
      gone \<leftarrow> (if parent_place < 0 then Some True
               else do {
                 q \<leftarrow> rd (plist s1) (nat parent_place);
                 Some (pr_state q = ZMB \<or> pr_pid q = 0)
               });
      if gone then on_proc s1 i (\<lambda>p. p\<lparr>pr_state := FRE\<rparr>) else Some s1
    }"
    using False H(1) destroy assms(1,2) by (simp add: i_free_process_def del: on_proc_in)
  have "\<exists>gone. i_free_process s i = (if gone then on_proc s1 i (\<lambda>p. p\<lparr>pr_state := FRE\<rparr>) else Some s1)"
  proof (cases rule: pid_to_place_cases [OF l, of "pr_ppid ?p"])
    case (1 j)
    then show ?thesis
      unfolding F using l by (intro exI [of _ "pr_state (plist s1 ! j) = ZMB \<or> pr_pid (plist s1 ! j) = 0"]) simp
  next
    case 2
    then show ?thesis
      unfolding F by (intro exI [of _ True]) simp
  qed
  then obtain gone where g: "i_free_process s i = (if gone then on_proc s1 i (\<lambda>p. p\<lparr>pr_state := FRE\<rparr>) else Some s1)"
    by blast
  let ?st = "if gone then FRE else pr_state ?p"
  have "i_free_process s i = Some (s\<lparr>kmem := m, plist := (plist s)[i := freed ?st ?p]\<rparr>)"
    using g assms(1,2) by (simp add: s1_def freed_def)
  moreover have "mem_ok (s\<lparr>kmem := m, plist := (plist s)[i := freed ?st ?p]\<rparr>)"
    using H(4) dirs_ok_free [OF bs(2) assms(1,2) False, of "freed ?st ?p" ?pid] by (auto simp: mem_ok_def m_def)
  ultimately show thesis
    using that by auto
qed

section \<open>The clean-up\<close>

text \<open>What a step leaves as it is: who is alive, the numbers of the processes, the fields not of its concern.\<close>

definition live :: "proc \<Rightarrow> bool" where
  "live p \<longleftrightarrow> pr_state p \<noteq> FRE \<and> pr_state p \<noteq> ZMB"

definition kin :: "proc list \<Rightarrow> proc list \<Rightarrow> bool" where
  "kin ps qs \<longleftrightarrow> length qs = length ps \<and>
     (\<forall>i<length ps. pr_pid (qs ! i) = pr_pid (ps ! i) \<and> pr_ppid (qs ! i) = pr_ppid (ps ! i) \<and> live (qs ! i) = live (ps ! i))"

definition keeps :: "sched \<Rightarrow> sched \<Rightarrow> bool" where
  "keeps s s' \<longleftrightarrow> kin (plist s) (plist s') \<and> proc_current s' = proc_current s \<and> queue_index s' = queue_index s \<and>
     last_switch s' = last_switch s \<and> ticks s' = ticks s \<and> died s' = died s \<and> pid_incrament s' = pid_incrament s"

lemma kin_refl [simp]: "kin ps ps"
  by (simp add: kin_def)

lemma kin_trans: "kin ps qs \<Longrightarrow> kin qs rs \<Longrightarrow> kin ps rs"
  by (simp add: kin_def)

lemma kin_update:
  "pr_pid p = pr_pid (ps ! i) \<Longrightarrow> pr_ppid p = pr_ppid (ps ! i) \<Longrightarrow> live p = live (ps ! i) \<Longrightarrow> kin ps (ps[i := p])"
  by (cases "i < length ps") (auto simp: kin_def nth_list_update list_update_beyond)

lemma keeps_refl [simp]: "keeps s s"
  by (simp add: keeps_def)

lemma keeps_trans: "keeps s t \<Longrightarrow> keeps t u \<Longrightarrow> keeps s u"
  by (auto simp: keeps_def intro: kin_trans)

definition core_ok :: "sched \<Rightarrow> bool" where
  "core_ok s \<longleftrightarrow> table_ok (plist s) \<and> queue_ok s \<and> sleep_ok s \<and> base_ok s"

lemma sched_ok_core: "sched_ok s \<longleftrightarrow> core_ok s \<and> mem_ok s"
  by (auto simp: sched_ok_def core_ok_def)

lemma core_ok_length [simp]: "core_ok s \<Longrightarrow> length (plist s) = PROCESS_MAX"
  by (simp add: core_ok_def)

lemma table_ok_put:
  assumes "table_ok ps" and "pr_pid p = pr_pid (ps ! i)" and "pr_state (ps ! i) \<noteq> FRE \<or> pr_state p = FRE"
  shows "table_ok (ps[i := p])"
proof (cases "i < length ps")
  case True
  then have "pr_state (ps[i := p] ! j) \<noteq> FRE \<Longrightarrow> pr_state (ps ! j) \<noteq> FRE \<and> pr_pid (ps[i := p] ! j) = pr_pid (ps ! j)" for j
    using assms by (cases "j = i") simp_all
  then show ?thesis
    using assms(1) unfolding table_ok_def by simp
qed (use assms(1) in \<open>simp add: list_update_beyond\<close>)

lemma bury_ok:
  assumes "core_ok s" and "i < PROCESS_MAX" and "pr_state (plist s ! i) = ZMB" and "st \<in> {ZMB, FRE}"
  shows "core_ok (s\<lparr>kmem := m, plist := (plist s)[i := freed st (plist s ! i)]\<rparr>)" (is "core_ok ?t")
proof -
  have l: "length (plist s) = PROCESS_MAX"
    using assms(1) by simp
  have "i \<noteq> 0"
    using assms by (intro notI) (simp add: core_ok_def base_ok_def)
  moreover have "i \<noteq> 1" "i \<notin> runnable (plist s)" "i \<notin> sleepers (plist s)"
    using assms by (auto simp: core_ok_def base_ok_def in_runnable in_sleepers)
  ultimately have i: "i \<noteq> 0" "i \<noteq> 1" "i \<notin> runnable (plist s)" "i \<notin> sleepers (plist s)"
    by simp_all
  have "table_ok (plist ?t)"
    using assms by (simp add: core_ok_def table_ok_put)
  moreover have "runnable (plist ?t) = runnable (plist s)" "sleepers (plist ?t) = sleepers (plist s)"
    using assms(2,4) l i(3,4) by auto
  moreover from this have "queue_ok ?t" "sleep_ok ?t"
    using assms(1) i(4) by (simp_all add: core_ok_def queue_ok_def sleep_ok_def)
  moreover have "pr_state (plist ?t ! j) = (if j = i then st else pr_state (plist s ! j))"
      "pr_pid (plist ?t ! j) = pr_pid (plist s ! j)" if "j < PROCESS_MAX" for j
    using that l by (cases "j = i"; simp)+
  then have "base_ok ?t"
    using assms(1,2,4) i unfolding core_ok_def base_ok_def by (auto simp: PROCESS_MAX_def)
  ultimately show ?thesis
    by (simp add: core_ok_def)
qed

lemma kin_bury:
  "pr_state (ps ! i) = ZMB \<Longrightarrow> st \<in> {ZMB, FRE} \<Longrightarrow> kin ps (ps[i := freed st (ps ! i)])"
  by (rule kin_update) (auto simp: live_def)

definition only_dead :: "proc list \<Rightarrow> proc list \<Rightarrow> bool" where
  "only_dead ps qs \<longleftrightarrow> (\<forall>j. pr_state (ps ! j) \<noteq> ZMB \<longrightarrow> qs ! j = ps ! j)"

lemma only_dead_refl [simp]: "only_dead ps ps"
  by (simp add: only_dead_def)

lemma only_dead_trans: "only_dead ps qs \<Longrightarrow> only_dead qs rs \<Longrightarrow> only_dead ps rs"
  by (simp add: only_dead_def)

lemma only_dead_update: "pr_state (ps ! i) = ZMB \<Longrightarrow> only_dead ps (ps[i := p])"
  unfolding only_dead_def by (metis nth_list_update_neq)

lemma bury_step:
  assumes "sched_ok s" and "i < PROCESS_MAX" and "pr_state (plist s ! i) = ZMB"
  obtains s' where "i_free_process s i = Some s'" "sched_ok s'" "keeps s s'" "shdlr_queue s' = shdlr_queue s"
    "pr_state (plist s' ! i) \<in> {ZMB, FRE}" "only_dead (plist s) (plist s')"
proof -
  have "length (plist s) = PROCESS_MAX" "mem_ok s" "core_ok s"
    using assms(1) by (simp_all add: sched_ok_core)
  note l = this(1)
  obtain m st where F: "i_free_process s i = Some (s\<lparr>kmem := m, plist := (plist s)[i := freed st (plist s ! i)]\<rparr>)"
    "st = pr_state (plist s ! i) \<or> st = FRE" "mem_ok (s\<lparr>kmem := m, plist := (plist s)[i := freed st (plist s ! i)]\<rparr>)"
    by (rule free_process_ok [OF l assms(2) \<open>mem_ok s\<close>])
  have st: "st \<in> {ZMB, FRE}"
    using F(2) assms(3) by auto
  show thesis
    by (rule that [OF F(1)]) (use st l F(3) assms bury_ok [OF \<open>core_ok s\<close> assms(2,3) st] kin_bury only_dead_update in
      \<open>simp_all add: sched_ok_core keeps_def\<close>)
qed

lemma clean_loop_ok:
  assumes "sched_ok s" and "set is \<subseteq> {..<PROCESS_MAX}"
  shows "\<exists>s'. clean_loop s is = Some s' \<and> sched_ok s' \<and> keeps s s' \<and> shdlr_queue s' = shdlr_queue s \<and> only_dead (plist s) (plist s')"
  using assms
proof (induction "is" arbitrary: s)
  case (Cons i "is")
  have i: "i < PROCESS_MAX" "proc_current s < PROCESS_MAX" "length (plist s) = PROCESS_MAX"
    using Cons.prems by (simp_all add: sched_ok_core core_ok_def base_ok_def)
  have IH: "\<exists>s'. clean_loop t is = Some s' \<and> sched_ok s' \<and> keeps s s' \<and> shdlr_queue s' = shdlr_queue s \<and> only_dead (plist s) (plist s')"
    if "sched_ok t" "keeps s t" "shdlr_queue t = shdlr_queue s" "only_dead (plist s) (plist t)" for t
  proof -
    have "set is \<subseteq> {..<PROCESS_MAX}"
      using Cons.prems(2) by simp
    from Cons.IH [OF that(1) this] obtain s' where "clean_loop t is = Some s'" "sched_ok s'" "keeps t s'"
      "shdlr_queue s' = shdlr_queue t" "only_dead (plist t) (plist s')"
      by blast
    then show ?thesis
      using keeps_trans [OF that(2)] only_dead_trans [OF that(4)] that(3) by simp
  qed
  show ?case
  proof (cases "pr_state (plist s ! i) \<noteq> ZMB \<or> scuba_dir (plist s ! i) = 0")
    case True
    then show ?thesis
      using IH [of s] Cons.prems i by simp
  next
    case False
    show ?thesis
    proof (cases "pr_pid (plist s ! i) = pr_pid (plist s ! proc_current s)")
      case True
      have "sched_ok (s\<lparr>need_clean := True\<rparr>)" "keeps s (s\<lparr>need_clean := True\<rparr>)"
        using Cons.prems(1) by (simp_all add: sched_ok_def queue_ok_def sleep_ok_def base_ok_def mem_ok_def keeps_def)
      from IH [OF this] show ?thesis
        using True False i by simp
    next
      case ne: False
      obtain s' where "i_free_process s i = Some s'" "sched_ok s'" "keeps s s'" "shdlr_queue s' = shdlr_queue s"
        "only_dead (plist s) (plist s')"
        using bury_step [OF Cons.prems(1) i(1)] False by blast
      then show ?thesis
        using IH [of s'] ne False i by simp
    qed
  qed
qed simp

lemma clean_killed_ok:
  assumes "sched_ok s"
  shows "\<exists>s'. i_clean_killed s = Some s' \<and> sched_ok s' \<and> keeps s s' \<and> shdlr_queue s' = shdlr_queue s \<and> only_dead (plist s) (plist s')"
proof -
  have "sched_ok (s\<lparr>need_clean := False\<rparr>)"
    using assms by (simp add: sched_ok_def queue_ok_def sleep_ok_def base_ok_def mem_ok_def)
  moreover have "set [0..<PROCESS_MAX] \<subseteq> {..<PROCESS_MAX}"
    by auto
  ultimately show ?thesis
    using clean_loop_ok [of "s\<lparr>need_clean := False\<rparr>" "[0..<PROCESS_MAX]"]
    by (simp add: i_clean_killed_def keeps_def)
qed

end
