(* ===== verification/ProcessSwitch.thy ===== *)
theory ProcessSwitch
  imports ProcessSched
begin

text \<open>The three stages of \<open>schedule\<close>: waking the sleepers, the clean-up, the switch.\<close>

section \<open>Waking\<close>

lemma earliest_bounds:
  assumes "\<forall>i\<in>X. sleep_to (ps ! i) \<noteq> 0" and "finite X"
  shows "earliest ps X = 0 \<longleftrightarrow> X = {}" "i \<in> X \<Longrightarrow> earliest ps X \<le> sleep_to (ps ! i)"
proof -
  have "Min ((\<lambda>i. sleep_to (ps ! i)) ` X) \<in> (\<lambda>i. sleep_to (ps ! i)) ` X" if "X \<noteq> {}"
    using assms(2) that by (intro Min_in) auto
  then have "Min ((\<lambda>i. sleep_to (ps ! i)) ` X) \<noteq> 0" if "X \<noteq> {}"
    using assms(1) that by (metis imageE)
  then show "earliest ps X = 0 \<longleftrightarrow> X = {}"
    by (auto simp: earliest_def)
  show "earliest ps X \<le> sleep_to (ps ! i)" if "i \<in> X"
    using assms(2) that by (auto simp: earliest_def intro!: Min_le)
qed

lemma core_ok_awaken:
  assumes "core_ok s" and "queue_ok s'" and "sleep_ok s'" and "plist s' = awaken t (sleepers (plist s)) (plist s)"
    and "proc_current s' = proc_current s"
  shows "core_ok s'"
proof -
  let ?ps = "plist s"
  have l: "length ?ps = PROCESS_MAX"
    using assms(1) by simp
  have p: "pr_pid (plist s' ! j) = pr_pid (?ps ! j)"
      "pr_state (plist s' ! j) = pr_state (?ps ! j) \<or> pr_state (plist s' ! j) = INQ \<and> pr_state (?ps ! j) = SLP"
    if "j < PROCESS_MAX" for j
    using that l assms(4) by (simp_all add: in_sleepers)
  have "table_ok (plist s')"
    unfolding table_ok_def
  proof (intro conjI allI impI)
    show "length (plist s') = PROCESS_MAX"
      using l assms(4) by simp
    show "i = j" if "i < PROCESS_MAX" "j < PROCESS_MAX" "pr_state (plist s' ! i) \<noteq> FRE" "pr_state (plist s' ! j) \<noteq> FRE"
        "pr_pid (plist s' ! i) = pr_pid (plist s' ! j)" for i j
    proof (rule table_ok_inject [of ?ps])
      show "table_ok ?ps"
        using assms(1) by (simp add: core_ok_def)
      show "pr_state (?ps ! i) \<noteq> FRE" "pr_state (?ps ! j) \<noteq> FRE" "pr_pid (?ps ! i) = pr_pid (?ps ! j)"
        using p [OF that(1)] p [OF that(2)] that(3-5) by auto
    qed (use that in simp_all)
  qed
  moreover have "base_ok s'"
  proof -
    have b: "proc_current s < PROCESS_MAX" "\<And>i. i < PROCESS_MAX \<Longrightarrow> pr_state (?ps ! i) = IDL \<longleftrightarrow> i = 1"
      "pr_pid (?ps ! 0) = 0" "pr_state (?ps ! 0) \<notin> {FRE, ZMB}"
      "\<And>i. i < PROCESS_MAX \<Longrightarrow> i \<noteq> proc_current s \<Longrightarrow> pr_state (?ps ! i) \<noteq> RUN"
      using assms(1) by (simp_all add: core_ok_def base_ok_def)
    have 0: "0 < PROCESS_MAX"
      by (simp add: PROCESS_MAX_def)
    have "pr_state (plist s' ! i) = IDL \<longleftrightarrow> pr_state (?ps ! i) = IDL" "pr_state (plist s' ! i) = RUN \<longleftrightarrow> pr_state (?ps ! i) = RUN"
      if "i < PROCESS_MAX" for i
      using p(2) [OF that] by auto
    then show ?thesis
      using b p [OF 0] assms(5) unfolding base_ok_def by auto
  qed
  ultimately show ?thesis
    using assms(2,3) by (simp add: core_ok_def)
qed

lemma awake_stage:
  assumes "sched_ok s"
  obtains s' where "(if tsleep_interact s \<noteq> 0 \<and> tsleep_interact s \<le> t then i_tsleep_awake s t else Some s) = Some s'"
    "sched_ok s'" "keeps s s'" "plist s' = awaken t (sleepers (plist s)) (plist s)" "need_clean s' = need_clean s"
proof -
  have c: "core_ok s" "mem_ok s" "queue_ok s" "sleep_ok s" and l: "length (plist s) = PROCESS_MAX"
    using assms by (simp_all add: sched_ok_core core_ok_def)
  let ?X = "sleepers (plist s)"
  have X: "\<forall>i\<in>?X. sleep_to (plist s ! i) \<noteq> 0"
    by (simp add: in_sleepers)
  have e: "tsleep_interact s = earliest (plist s) ?X"
    using c(4) by (simp add: sleep_ok_def)
  show thesis
  proof (cases "tsleep_interact s \<noteq> 0 \<and> tsleep_interact s \<le> t")
    case False
    have "\<not> sleep_to (plist s ! i) \<le> t" if "i \<in> ?X" for i
      using False e earliest_bounds [OF X finite_sleepers] that by (auto simp: not_le intro: less_le_trans)
    then have "awaken t ?X (plist s) = plist s"
      by (intro nth_equalityI) auto
    then show thesis
      using False assms by (intro that [of s]) auto
  next
    case True
    obtain q ts e where A: "i_tsleep_awake s t =
        Some (s\<lparr>plist := awaken t ?X (plist s), shdlr_queue := q, tsleep_list := ts, tsleep_interact := e\<rparr>)"
      "queue_ok (s\<lparr>plist := awaken t ?X (plist s), shdlr_queue := q, tsleep_list := ts, tsleep_interact := e\<rparr>)"
      "sleep_ok (s\<lparr>plist := awaken t ?X (plist s), shdlr_queue := q, tsleep_list := ts, tsleep_interact := e\<rparr>)"
      by (rule tsleep_awake_ok [OF l c(3,4)])
    let ?s = "s\<lparr>plist := awaken t ?X (plist s), shdlr_queue := q, tsleep_list := ts, tsleep_interact := e\<rparr>"
    have n: "scuba_dir (plist ?s ! j) = scuba_dir (plist s ! j)" if "j < PROCESS_MAX" for j
      using that l by simp
    have "core_ok ?s"
      by (rule core_ok_awaken [OF c(1) A(2,3)]) simp_all
    moreover have "mem_ok ?s"
      by (rule mem_ok_cong [OF c(2)], simp, rule n)
    moreover have "kin (plist s) (plist ?s)"
      by (auto simp: kin_def live_def in_sleepers)
    ultimately show thesis
      using True A(1) by (intro that [of ?s]) (simp_all add: sched_ok_core keeps_def)
  qed
qed

section \<open>The switch\<close>

text \<open>An update of one entry that the scheduler does not look at.\<close>

lemma sched_ok_same:
  assumes "sched_ok s" and "i < PROCESS_MAX" and "pr_pid p = pr_pid (plist s ! i)" and "pr_state p = pr_state (plist s ! i)"
    and "sleep_to p = sleep_to (plist s ! i)" and "scuba_dir p = scuba_dir (plist s ! i)"
  shows "sched_ok (s\<lparr>plist := (plist s)[i := p]\<rparr>)" (is "sched_ok ?t")
proof -
  have l: "length (plist s) = PROCESS_MAX"
    using assms(1) by (simp add: sched_ok_core)
  have n: "pr_pid (plist ?t ! j) = pr_pid (plist s ! j)" "pr_state (plist ?t ! j) = pr_state (plist s ! j)"
      "sleep_to (plist ?t ! j) = sleep_to (plist s ! j)" "scuba_dir (plist ?t ! j) = scuba_dir (plist s ! j)" for j
    using assms(2-6) l by (cases "j = i"; simp)+
  have v: "runnable (plist ?t) = runnable (plist s)" "sleepers (plist ?t) = sleepers (plist s)"
    unfolding runnable_def sleepers_def n by (rule refl)+
  have "earliest (plist ?t) X = earliest (plist s) X" for X
    by (rule earliest_cong) (simp only: n)
  moreover have "mem_ok ?t"
    by (rule mem_ok_cong [of s]) (use assms(1) n(4) in \<open>simp_all add: sched_ok_def\<close>)
  ultimately show ?thesis
    using assms(1) unfolding sched_ok_def table_ok_def queue_ok_def sleep_ok_def base_ok_def v n by simp
qed

lemma fixed_states:
  "(a \<in> {FRE, ZMB, IDL} \<or> b \<in> {FRE, ZMB, IDL} \<Longrightarrow> a = b) \<Longrightarrow> a = IDL \<longleftrightarrow> b = IDL"
  "(a \<in> {FRE, ZMB, IDL} \<or> b \<in> {FRE, ZMB, IDL} \<Longrightarrow> a = b) \<Longrightarrow> a \<in> {FRE, ZMB} \<longleftrightarrow> b \<in> {FRE, ZMB}"
  by blast+

lemma running_update:
  assumes "sched_ok s" and "i < PROCESS_MAX" and "pr_state (plist s ! i) \<in> {INQ, RUN}" and "pr_state p \<in> {INQ, RUN}"
    and "pr_pid p = pr_pid (plist s ! i)" and "scuba_dir p = scuba_dir (plist s ! i)"
    and "c < PROCESS_MAX" and "\<forall>j<PROCESS_MAX. j \<noteq> c \<longrightarrow> pr_state ((plist s)[i := p] ! j) \<noteq> RUN"
  shows "sched_ok (s\<lparr>plist := (plist s)[i := p], proc_current := c\<rparr>)" (is "sched_ok ?t")
proof -
  have l: "length (plist s) = PROCESS_MAX" and t: "table_ok (plist s)"
    using assms(1) by (simp_all add: sched_ok_core core_ok_def)
  have r: "i \<in> runnable (plist s)" "i \<notin> sleepers (plist s)"
    using assms(2,3) by (auto simp: in_runnable in_sleepers)
  have n: "pr_pid (plist ?t ! j) = pr_pid (plist s ! j)" "scuba_dir (plist ?t ! j) = scuba_dir (plist s ! j)" for j
    using assms(2,5,6) l by (cases "j = i"; simp)+
  have st: "pr_state (plist ?t ! j) \<in> {FRE, ZMB, IDL} \<or> pr_state (plist s ! j) \<in> {FRE, ZMB, IDL} \<Longrightarrow>
      pr_state (plist ?t ! j) = pr_state (plist s ! j)" for j
    using assms(2-4) l by (cases "j = i") auto
  have "table_ok (plist ?t)"
    using table_ok_put [OF t assms(5)] assms(3) by auto
  moreover have "runnable (plist ?t) = runnable (plist s)" "sleepers (plist ?t) = sleepers (plist s)"
    using assms(2,4) l r by auto
  moreover from this have "queue_ok ?t" "sleep_ok ?t"
    using assms(1) r(2) by (simp_all add: sched_ok_def queue_ok_def sleep_ok_def)
  moreover have "base_ok ?t"
  proof -
    have b: "\<And>j. j < PROCESS_MAX \<Longrightarrow> pr_state (plist s ! j) = IDL \<longleftrightarrow> j = 1"
      "pr_pid (plist s ! 0) = 0" "pr_state (plist s ! 0) \<notin> {FRE, ZMB}"
      using assms(1) by (simp_all add: sched_ok_def base_ok_def)
    have "pr_state (plist ?t ! j) = IDL \<longleftrightarrow> j = 1" if "j < PROCESS_MAX" for j
    proof -
      have "pr_state (plist ?t ! j) = IDL \<longleftrightarrow> pr_state (plist s ! j) = IDL"
        by (rule fixed_states(1)) (rule st)
      then show ?thesis
        using b(1) [OF that] by simp
    qed
    moreover have "pr_pid (plist ?t ! 0) = 0"
      using b(2) n(1) [of 0] by simp
    moreover have "pr_state (plist ?t ! 0) \<notin> {FRE, ZMB}"
      using b(3) fixed_states(2) [of "pr_state (plist ?t ! 0)" "pr_state (plist s ! 0)", OF st] by simp
    ultimately show ?thesis
      using assms(7,8) by (simp add: base_ok_def)
  qed
  moreover have "mem_ok ?t"
    by (rule mem_ok_cong [of s]) (use assms(1) n(2) in \<open>simp_all add: sched_ok_def\<close>)
  ultimately show ?thesis
    by (simp add: sched_ok_def)
qed

lemma process_switch_ok:
  assumes "sched_ok s" and "proc2 \<noteq> proc_current s" and "proc2 \<in> runnable (plist s) \<or> proc2 = 1"
  obtains s' where "i_process_switch s (proc_current s) proc2 = Some s'" "sched_ok s'" "on_cpu s'"
    "kin (plist s) (plist s')" "proc_current s' = proc2" "shdlr_queue s' = shdlr_queue s" "queue_index s' = queue_index s"
    "last_switch s' = last_switch s" "tsleep_list s' = tsleep_list s" "tsleep_interact s' = tsleep_interact s"
    "need_clean s' = need_clean s" "ticks s' = ticks s" "died s' = died s"
proof -
  let ?c = "proc_current s" and ?ps = "plist s"
  have l: "length ?ps = PROCESS_MAX" and c: "?c < PROCESS_MAX" "proc2 < PROCESS_MAX"
    and run: "\<And>j. j < PROCESS_MAX \<Longrightarrow> j \<noteq> ?c \<Longrightarrow> pr_state (?ps ! j) \<noteq> RUN"
    and idl: "\<And>j. j < PROCESS_MAX \<Longrightarrow> pr_state (?ps ! j) = IDL \<longleftrightarrow> j = 1"
  proof -
    have b: "base_ok s"
      using assms(1) by (simp add: sched_ok_def)
    then show "length ?ps = PROCESS_MAX" "?c < PROCESS_MAX"
      using assms(1) by (simp_all add: sched_ok_core base_ok_def)
    show "proc2 < PROCESS_MAX"
      using assms(3) by (auto simp: in_runnable PROCESS_MAX_def)
    show "j < PROCESS_MAX \<Longrightarrow> j \<noteq> ?c \<Longrightarrow> pr_state (?ps ! j) \<noteq> RUN" "j < PROCESS_MAX \<Longrightarrow> pr_state (?ps ! j) = IDL \<longleftrightarrow> j = 1" for j
      using b by (simp_all add: base_ok_def)
  qed
  define p1 where "p1 = (if pr_state (?ps ! ?c) = RUN then (?ps ! ?c)\<lparr>pr_state := INQ\<rparr> else ?ps ! ?c)"
  define s1 where "s1 = s\<lparr>plist := ?ps[?c := p1], proc_current := ?c\<rparr>"
  have nr: "pr_state (?ps[?c := p1] ! j) \<noteq> RUN" if "j < PROCESS_MAX" for j
    using run [OF that] l c that by (cases "j = ?c") (auto simp: p1_def)
  have s1: "sched_ok s1"
  proof (cases "pr_state (?ps ! ?c) = RUN")
    case True
    then show ?thesis
      unfolding s1_def using c(1) run by (intro running_update [OF assms(1)]) (simp_all add: p1_def)
  next
    case False
    then show ?thesis
      using assms(1) by (simp add: s1_def p1_def)
  qed
  let ?ps1 = "plist s1"
  have l1: "length ?ps1 = PROCESS_MAX"
    using l by (simp add: s1_def)
  define p2 where "p2 = (if pr_state (?ps1 ! proc2) \<noteq> IDL then (?ps1 ! proc2)\<lparr>pr_state := RUN\<rparr> else ?ps1 ! proc2)"
  define s2 where "s2 = s1\<lparr>plist := ?ps1[proc2 := p2], proc_current := proc2\<rparr>"
  have e2: "?ps1 ! proc2 = ?ps ! proc2"
    using assms(2) by (simp add: s1_def)
  have s2: "sched_ok s2"
  proof (cases "proc2 = 1")
    case True
    then have "p2 = ?ps1 ! proc2"
      using e2 idl [OF c(2)] by (simp add: p2_def)
    then have "s2 = s1\<lparr>proc_current := proc2\<rparr>"
      by (simp add: s2_def)
    moreover have "sched_ok (s1\<lparr>proc_current := proc2\<rparr>)"
      using s1 c nr by (auto simp: sched_ok_def queue_ok_def sleep_ok_def base_ok_def mem_ok_def s1_def)
    ultimately show ?thesis
      by simp
  next
    case False
    have r: "pr_state (?ps1 ! proc2) \<in> {INQ, RUN}"
      using assms(3) False e2 by (auto simp: in_runnable)
    moreover have "j \<noteq> proc2 \<Longrightarrow> pr_state (?ps1[proc2 := p2] ! j) \<noteq> RUN" if "j < PROCESS_MAX" for j
      using nr [OF that] by (simp add: s1_def)
    moreover have "pr_state p2 = RUN" "pr_pid p2 = pr_pid (?ps1 ! proc2)" "scuba_dir p2 = scuba_dir (?ps1 ! proc2)"
      using r by (simp_all add: p2_def, auto)
    ultimately show ?thesis
      unfolding s2_def using c(2) by (intro running_update [OF s1 c(2)]) simp_all
  qed
  define s3 where "s3 = s2\<lparr>plist := (plist s2)[?c := (plist s2 ! ?c)\<lparr>in_kernel := 1\<rparr>]\<rparr>"
  have e: "i_process_switch s ?c proc2 = Some s3"
    using l c l1 by (simp add: i_process_switch_def p1_def s3_def s2_def s1_def p2_def)
  have "sched_ok s3"
    unfolding s3_def by (rule sched_ok_same [OF s2 c(1)]) simp_all
  moreover have "kin ?ps (plist s3)"
  proof -
    have "kin ?ps ?ps1"
      unfolding s1_def by (simp, rule kin_update) (simp_all add: p1_def live_def)
    moreover have "kin ?ps1 (plist s2)"
      unfolding s2_def by (simp, rule kin_update)
        (use assms(3) e2 idl [OF c(2)] in \<open>auto simp: p2_def live_def in_runnable\<close>)
    moreover have "kin (plist s2) (plist s3)"
      unfolding s3_def by (simp, rule kin_update) (simp_all add: live_def)
    ultimately show ?thesis
      by (blast intro: kin_trans)
  qed
  moreover have "on_cpu s3"
    using assms(2) c l1 by (auto simp: on_cpu_def s3_def s2_def p2_def)
  ultimately show thesis
    by (intro that [OF e]) (simp_all add: s3_def s2_def s1_def)
qed

section \<open>The scheduler\<close>

text \<open>\<open>schedule\<close> returns at once when the time slice is not over.\<close>

definition too_early :: "sched \<Rightarrow> u32 \<Rightarrow> bool" where
  "too_early s t \<longleftrightarrow> t \<noteq> 0 \<and> t - last_switch s < SCHEDULER_EVRY \<and>
     (pr_state (plist s ! proc_current s) \<noteq> IDL \<or> tsleep_interact s > t)"

text \<open>The process the queue gives the turn to.\<close>

definition next_index :: "sched \<Rightarrow> nat list \<Rightarrow> u32" where
  "next_index s q = (if unat (queue_index s + 1) \<ge> length q then 0 else queue_index s + 1)"

definition turn :: "sched \<Rightarrow> nat" where
  "turn s = (if shdlr_queue s = [] then 1 else shdlr_queue s ! unat (queue_index s))"

lemma sched_ok_fields [simp]:
  "sched_ok (s\<lparr>queue_index := i\<rparr>) = sched_ok s" "sched_ok (s\<lparr>last_switch := t\<rparr>) = sched_ok s"
  "sched_ok (s\<lparr>need_clean := b\<rparr>) = sched_ok s" "sched_ok (s\<lparr>died := d\<rparr>) = sched_ok s"
  by (simp_all add: sched_ok_def queue_ok_def sleep_ok_def base_ok_def mem_ok_def)

lemma turn_runnable:
  assumes "sched_ok s" and "unat (queue_index s) < length (shdlr_queue s) \<or> shdlr_queue s = []"
  shows "turn s \<in> runnable (plist s) \<or> turn s = 1" "turn s < PROCESS_MAX"
proof -
  have "set (shdlr_queue s) = runnable (plist s)"
    using assms(1) by (simp add: sched_ok_def queue_ok_def)
  moreover have "turn s \<in> set (shdlr_queue s) \<or> turn s = 1"
    using assms(2) by (auto simp: turn_def)
  ultimately show t: "turn s \<in> runnable (plist s) \<or> turn s = 1"
    by simp
  then show "turn s < PROCESS_MAX"
    by (auto simp: in_runnable PROCESS_MAX_def)
qed

text \<open>The last part of \<open>schedule\<close>, after the index of the queue is set.\<close>

definition dispatch :: "u32 \<Rightarrow> sched \<Rightarrow> sched option" where
  "dispatch t s = do {
     let proc = turn s;
     s \<leftarrow> on_proc s (proc_current s) (\<lambda>p. p\<lparr>run_time := run_time p + (t - last_switch s)\<rparr>);
     let s = s\<lparr>last_switch := t\<rparr>;
     if proc = proc_current s then Some s else i_process_switch s (proc_current s) proc
   }"

lemma dispatch_stage:
  assumes "sched_ok s" and "s0 = s\<lparr>queue_index := next_index s (shdlr_queue s)\<rparr>"
  obtains s' where "dispatch t s0 = Some s'" "sched_ok s'" "on_cpu s'" "kin (plist s) (plist s')" "proc_current s' = turn s'"
    "shdlr_queue s' = shdlr_queue s" "tsleep_list s' = tsleep_list s" "queue_index s' = next_index s (shdlr_queue s)"
    "last_switch s' = t" "tsleep_interact s' = tsleep_interact s" "need_clean s' = need_clean s" "ticks s' = ticks s"
    "died s' = died s"
proof -
  have c: "proc_current s0 < PROCESS_MAX" and l: "length (plist s0) = PROCESS_MAX"
    using assms by (simp_all add: sched_ok_core core_ok_def base_ok_def)
  let ?p = "(plist s0 ! proc_current s0)\<lparr>run_time := run_time (plist s0 ! proc_current s0) + (t - last_switch s0)\<rparr>"
  define s1 where "s1 = s0\<lparr>plist := (plist s0)[proc_current s0 := ?p]\<rparr>"
  define s2 where "s2 = s1\<lparr>last_switch := t\<rparr>"
  have ok0: "sched_ok s0"
    using assms by simp
  have "sched_ok s1"
    unfolding s1_def by (rule sched_ok_same [OF ok0 c]) simp_all
  then have ok2: "sched_ok s2"
    by (simp add: s2_def)
  have k: "kin (plist s) (plist s2)"
    unfolding s2_def s1_def assms(2) by (simp, rule kin_update) (simp_all add: live_def)
  have f: "shdlr_queue s2 = shdlr_queue s" "tsleep_list s2 = tsleep_list s" "proc_current s2 = proc_current s0"
    "queue_index s2 = next_index s (shdlr_queue s)" "last_switch s2 = t" "turn s0 = turn s2" "tsleep_interact s2 = tsleep_interact s" "need_clean s2 = need_clean s"
    "ticks s2 = ticks s" "died s2 = died s"
    by (simp_all add: s2_def s1_def assms(2) turn_def)
  have ct: "proc_current s2 = proc_current s1"
    by (simp add: s2_def)
  have ix: "unat (queue_index s2) < length (shdlr_queue s2) \<or> shdlr_queue s2 = []"
    unfolding f(1,4) by (auto simp: next_index_def)
  note tr = turn_runnable [OF ok2 ix]
  have e: "on_proc s0 (proc_current s0) (\<lambda>p. p\<lparr>run_time := run_time p + (t - last_switch s0)\<rparr>) = Some s1"
    using c l by (simp add: s1_def)
  then have d: "dispatch t s0 = (if turn s2 = proc_current s2 then Some s2 else i_process_switch s2 (proc_current s2) (turn s2))"
    using f(6) ct by (simp add: dispatch_def Let_def s2_def)
  show thesis
  proof (cases "turn s2 = proc_current s2")
    case True
    have "pr_state (plist s2 ! 1) = IDL"
      using ok2 by (simp add: sched_ok_def base_ok_def PROCESS_MAX_def)
    then have "on_cpu s2"
      using tr(1) True by (auto simp: on_cpu_def in_runnable)
    then show thesis
      using d f True ok2 k by (intro that [of s2]) simp_all
  next
    case False
    obtain s' where S: "i_process_switch s2 (proc_current s2) (turn s2) = Some s'" "sched_ok s'" "on_cpu s'"
      "kin (plist s2) (plist s')" "proc_current s' = turn s2" "shdlr_queue s' = shdlr_queue s2" "queue_index s' = queue_index s2"
      "last_switch s' = last_switch s2" "tsleep_list s' = tsleep_list s2" "tsleep_interact s' = tsleep_interact s2"
      "need_clean s' = need_clean s2" "ticks s' = ticks s2" "died s' = died s2"
      using process_switch_ok [OF ok2 False tr(1)] .
    have "turn s' = turn s2"
      using S(6,7) by (simp add: turn_def)
    then show thesis
      using d f False S kin_trans [OF k S(4)] by (intro that [of s']) simp_all
  qed
qed

text \<open>
  The scheduler never halts, keeps the invariant and all family relations; unless the time slice is
  not over, it wakes exactly those whose time has come and gives the turn to the next in the queue.
\<close>

definition now :: "sched \<Rightarrow> u32 \<Rightarrow> u32" where
  "now s t = (if t = 0 then ticks s else t)"

definition due :: "sched \<Rightarrow> u32 \<Rightarrow> nat set" where
  "due s t = {i\<in>sleepers (plist s). sleep_to (plist s ! i) \<le> now s t}"

definition scheduled :: "sched \<Rightarrow> u32 \<Rightarrow> sched \<Rightarrow> bool" where
  "scheduled s t s' \<longleftrightarrow> on_cpu s' \<and> proc_current s' = turn s' \<and> queue_index s' = next_index s (shdlr_queue s') \<and>
     last_switch s' = now s t \<and> runnable (plist s') = runnable (plist s) \<union> due s t \<and>
     sleepers (plist s') = sleepers (plist s) - due s t"

text \<open>Nothing to wake and nothing to clean up: only the turn changes.\<close>

definition quiet :: "sched \<Rightarrow> u32 \<Rightarrow> bool" where
  "quiet s t \<longleftrightarrow> \<not> need_clean s \<and> \<not> (tsleep_interact s \<noteq> 0 \<and> tsleep_interact s \<le> now s t)"

lemma runnable_only_dead:
  assumes "only_dead ps qs" and "kin ps qs" and "length ps = PROCESS_MAX"
  shows "runnable qs = runnable ps" "sleepers qs = sleepers ps"
proof -
  have h: "qs ! i = ps ! i \<or> \<not> live (qs ! i) \<and> \<not> live (ps ! i)" if "i < PROCESS_MAX" for i
    using assms that by (cases "pr_state (ps ! i) = ZMB") (auto simp: only_dead_def kin_def live_def)
  then show "runnable qs = runnable ps" "sleepers qs = sleepers ps"
    by (auto simp: runnable_def sleepers_def live_def) (metis h live_def proc_state.distinct)+
qed

lemma runnable_awaken:
  assumes "length ps = PROCESS_MAX"
  shows "runnable (awaken t (sleepers ps) ps) = runnable ps \<union> {i\<in>sleepers ps. sleep_to (ps ! i) \<le> t}"
proof -
  have "pr_state (awaken t (sleepers ps) ps ! i) \<in> {INQ, RUN} \<longleftrightarrow>
      pr_state (ps ! i) \<in> {INQ, RUN} \<or> i \<in> sleepers ps \<and> sleep_to (ps ! i) \<le> t" if "i < PROCESS_MAX" for i
    using assms that by (auto simp: in_sleepers)
  then show ?thesis
    unfolding runnable_def by (auto simp: in_sleepers)
qed

lemma schedule_stages:
  assumes "sched_ok s" and "\<not> too_early s t"
  shows "schedule s t = do {
    s1 \<leftarrow> (if tsleep_interact s \<noteq> 0 \<and> tsleep_interact s \<le> now s t then i_tsleep_awake s (now s t) else Some s);
    s2 \<leftarrow> (if need_clean s1 then i_clean_killed s1 else Some s1);
    dispatch (now s t) (s2\<lparr>queue_index := next_index s2 (shdlr_queue s2)\<rparr>)
  }"
proof -
  have c: "proc_current s < length (plist s)"
    using assms(1) by (simp add: sched_ok_core core_ok_def base_ok_def)
  have g: "\<not> (t \<noteq> 0 \<and> t - last_switch s < SCHEDULER_EVRY \<and> (pr_state (plist s ! proc_current s) \<noteq> IDL \<or> tsleep_interact s > t))"
    using assms(2) by (simp add: too_early_def)
  show ?thesis
    unfolding schedule_def rd_in [OF c] Option.bind.simps(2) if_not_P [OF g]
    by (simp add: Let_def now_def dispatch_def turn_def next_index_def split del: if_split cong: if_cong)
qed

lemma schedule_ok:
  assumes "sched_ok s"
  obtains s' where "schedule s t = Some s'" "sched_ok s'" "kin (plist s) (plist s')" "died s' = died s" "ticks s' = ticks s"
    "too_early s t \<Longrightarrow> s' = s" "\<not> too_early s t \<Longrightarrow> scheduled s t s'"
    "\<not> too_early s t \<Longrightarrow> quiet s t \<Longrightarrow> shdlr_queue s' = shdlr_queue s \<and> tsleep_interact s' = tsleep_interact s \<and> \<not> need_clean s'"
proof (cases "too_early s t")
  case True
  then show thesis
    using assms by (intro that [of s])
      (auto simp: schedule_def too_early_def sched_ok_core core_ok_def base_ok_def)
next
  case False
  let ?t = "now s t"
  have l: "length (plist s) = PROCESS_MAX"
    using assms by (simp add: sched_ok_core)
  obtain s1 where A: "(if tsleep_interact s \<noteq> 0 \<and> tsleep_interact s \<le> ?t then i_tsleep_awake s ?t else Some s) = Some s1"
    "sched_ok s1" "keeps s s1" "plist s1 = awaken ?t (sleepers (plist s)) (plist s)" "need_clean s1 = need_clean s"
    using awake_stage [OF assms] .
  have "\<exists>s2. (if need_clean s1 then i_clean_killed s1 else Some s1) = Some s2 \<and> sched_ok s2 \<and> keeps s1 s2 \<and>
      shdlr_queue s2 = shdlr_queue s1 \<and> only_dead (plist s1) (plist s2)"
    using clean_killed_ok [OF A(2)] A(2) by (cases "need_clean s1") simp_all
  then obtain s2 where B: "(if need_clean s1 then i_clean_killed s1 else Some s1) = Some s2" "sched_ok s2" "keeps s1 s2"
    "shdlr_queue s2 = shdlr_queue s1" "only_dead (plist s1) (plist s2)"
    by blast
  obtain s' where D: "dispatch ?t (s2\<lparr>queue_index := next_index s2 (shdlr_queue s2)\<rparr>) = Some s'" "sched_ok s'" "on_cpu s'"
    "kin (plist s2) (plist s')" "proc_current s' = turn s'" "shdlr_queue s' = shdlr_queue s2" "tsleep_list s' = tsleep_list s2"
    "queue_index s' = next_index s2 (shdlr_queue s2)" "last_switch s' = ?t" "tsleep_interact s' = tsleep_interact s2"
    "need_clean s' = need_clean s2" "ticks s' = ticks s2" "died s' = died s2"
    using dispatch_stage [OF B(2) refl] .
  have e: "schedule s t = Some s'"
    using schedule_stages [OF assms False] A(1) B(1) D(1) by simp
  have k: "kin (plist s) (plist s')" and f: "died s' = died s" "ticks s' = ticks s" "queue_index s2 = queue_index s"
    using A(3) B(3) D(4,12,13) by (auto simp: keeps_def intro: kin_trans)
  have sets: "runnable (plist s') = runnable (plist s2)" "sleepers (plist s') = sleepers (plist s2)"
    using B(2) D(2,6,7) by (auto simp: sched_ok_def queue_ok_def sleep_ok_def)
  have "kin (plist s1) (plist s2)" "length (plist s1) = PROCESS_MAX"
    using B(3) A(4) l by (simp_all add: keeps_def)
  note od = runnable_only_dead [OF B(5) this]
  have "runnable (plist s') = runnable (plist s) \<union> due s t" "sleepers (plist s') = sleepers (plist s) - due s t"
    unfolding sets od A(4) runnable_awaken [OF l] sleepers_awaken [OF l] due_def by (auto simp: not_le)
  then have "scheduled s t s'"
    using D f(3) by (simp add: scheduled_def next_index_def)
  moreover have "shdlr_queue s' = shdlr_queue s \<and> tsleep_interact s' = tsleep_interact s \<and> \<not> need_clean s'" if "quiet s t"
  proof -
    have "s1 = s"
      using A(1) that by (auto simp: quiet_def)
    moreover from this have "s2 = s"
      using B(1) that by (simp add: quiet_def)
    ultimately show ?thesis
      using D(6,10,11) that by (simp add: quiet_def)
  qed
  ultimately show thesis
    using that [OF e D(2) k f(1,2)] False by blast
qed

end
