(* ===== verification/ProcessOps.thy ===== *)
theory ProcessOps
  imports ProcessSwitch
begin

text \<open>Sleeping, waking, waiting and dying keep the invariant of the scheduler.\<close>

section \<open>A process changes its state\<close>

lemma sched_ok_change:
  assumes "sched_ok s" and "i < PROCESS_MAX" and "pr_state (plist s ! i) \<noteq> FRE" and "pr_state (plist s ! i) \<noteq> IDL"
    and "pr_pid p = pr_pid (plist s ! i)" and "scuba_dir p = scuba_dir (plist s ! i)"
    and "pr_state p \<in> {SLP, INQ} \<or> pr_state p = ZMB \<and> i \<noteq> 0"
    and "distinct q" and "set q = runnable ((plist s)[i := p])"
    and "distinct ts" and "set ts = sleepers ((plist s)[i := p])"
    and "e = earliest ((plist s)[i := p]) (sleepers ((plist s)[i := p]))"
  shows "sched_ok (s\<lparr>plist := (plist s)[i := p], shdlr_queue := q, tsleep_list := ts, tsleep_interact := e\<rparr>)"
    (is "sched_ok ?t")
proof -
  have l: "length (plist s) = PROCESS_MAX" and t: "table_ok (plist s)" and b: "base_ok s" and m: "mem_ok s"
    using assms(1) by (simp_all add: sched_ok_core core_ok_def)
  have n: "pr_pid (plist ?t ! j) = pr_pid (plist s ! j)" "scuba_dir (plist ?t ! j) = scuba_dir (plist s ! j)" for j
    using assms(2,5,6) l by (cases "j = i"; simp)+
  have st: "pr_state (plist ?t ! j) = (if j = i then pr_state p else pr_state (plist s ! j))" for j
    using assms(2) l by simp
  have "table_ok (plist ?t)"
    using table_ok_put [OF t assms(5)] assms(3) by simp
  moreover have "queue_ok ?t" "sleep_ok ?t"
    using assms(8-12) by (simp_all add: queue_ok_def sleep_ok_def)
  moreover have "base_ok ?t"
  proof -
    have ne: "i \<noteq> 1" "pr_state p \<noteq> IDL" "pr_state p \<noteq> FRE" "pr_state p \<noteq> RUN" "i = 0 \<Longrightarrow> pr_state p \<noteq> ZMB"
      using assms(2,4,7) b by (auto simp: base_ok_def)
    have "pr_state (plist ?t ! j) = IDL \<longleftrightarrow> j = 1" "j \<noteq> proc_current s \<Longrightarrow> pr_state (plist ?t ! j) \<noteq> RUN" if "j < PROCESS_MAX" for j
      unfolding st using b that ne by (simp_all add: base_ok_def)
    moreover have "pr_state (plist ?t ! 0) \<notin> {FRE, ZMB}"
      unfolding st using b ne by (simp add: base_ok_def)
    ultimately show ?thesis
      using b n(1) [of 0] by (simp add: base_ok_def)
  qed
  moreover have "mem_ok ?t"
    by (rule mem_ok_cong [OF m], simp, rule n(2))
  ultimately show ?thesis
    by (simp add: sched_ok_def)
qed

text \<open>The parts of the invariant the operations use.\<close>

lemma sched_okD:
  assumes "sched_ok s"
  shows "length (plist s) = PROCESS_MAX" "table_ok (plist s)" "sleep_ok s" "proc_current s < PROCESS_MAX"
    "distinct (shdlr_queue s)" "set (shdlr_queue s) = runnable (plist s)"
    "distinct (tsleep_list s)" "set (tsleep_list s) = sleepers (plist s)"
    "tsleep_interact s = earliest (plist s) (sleepers (plist s))"
    "pr_state (plist s ! 1) = IDL" "i < PROCESS_MAX \<Longrightarrow> pr_state (plist s ! i) = IDL \<Longrightarrow> i = 1"
    "pr_pid (plist s ! 0) = 0" "pr_state (plist s ! 0) \<notin> {FRE, ZMB}"
  using assms by (simp_all add: sched_ok_def queue_ok_def sleep_ok_def base_ok_def PROCESS_MAX_def)

text \<open>The common start: the process is no longer in the list of the sleepers.\<close>

lemma unsleep_ok:
  assumes "sched_ok s" and "i < PROCESS_MAX" and "pr_state (plist s ! i) \<noteq> FRE"
  obtains ts e where "(if pr_state (plist s ! i) = SLP \<and> sleep_to (plist s ! i) \<noteq> 0
      then i_remove_from_g_tsleep_list s (pr_pid (plist s ! i)) else Some s) =
      Some (s\<lparr>tsleep_list := ts, tsleep_interact := e\<rparr>)"
    "distinct ts" "set ts = sleepers (plist s) - {i}" "e = earliest (plist s) (sleepers (plist s) - {i})"
proof (cases "pr_state (plist s ! i) = SLP \<and> sleep_to (plist s ! i) \<noteq> 0")
  case True
  then show thesis
    using remove_sleeper_ok [OF sched_okD(2,3) [OF assms(1)] assms(2,3)] that by auto
next
  case False
  then have "sleepers (plist s) - {i} = sleepers (plist s)"
    by (auto simp: in_sleepers)
  then show thesis
    using sched_okD(7-9) [OF assms(1)] by (intro that [of "tsleep_interact s" "tsleep_list s"]) (simp_all only: if_not_P [OF False], simp)
qed

text \<open>A process leaves the queue and sleeps or dies.\<close>

lemma leave_queue_ok:
  assumes "sched_ok s" and "i < PROCESS_MAX" and "pr_state (plist s ! i) \<noteq> FRE" and "pr_state (plist s ! i) \<noteq> IDL"
    and "pr_pid p = pr_pid (plist s ! i)" and "scuba_dir p = scuba_dir (plist s ! i)"
    and "pr_state p = SLP \<or> pr_state p = ZMB \<and> i \<noteq> 0"
    and "distinct ts" and "set ts = sleepers ((plist s)[i := p])"
    and "e = earliest ((plist s)[i := p]) (sleepers ((plist s)[i := p]))"
  shows "sched_ok (i_remove_from_shdlr_queue (s\<lparr>plist := (plist s)[i := p], tsleep_list := ts, tsleep_interact := e\<rparr>) i)"
proof -
  note q = queue_remove_ok [OF sched_okD(5) [OF assms(1)], of i]
  have "set (queue_remove (shdlr_queue s) i (length (shdlr_queue s))) = runnable ((plist s)[i := p])"
    using q assms(2,7) sched_okD(1,6) [OF assms(1)] by (elim disjE) simp_all
  with q have "sched_ok (s\<lparr>plist := (plist s)[i := p], shdlr_queue := queue_remove (shdlr_queue s) i (length (shdlr_queue s)),
      tsleep_list := ts, tsleep_interact := e\<rparr>)"
    using assms by (intro sched_ok_change) auto
  moreover have "s\<lparr>plist := (plist s)[i := p], shdlr_queue := q, tsleep_list := ts, tsleep_interact := e\<rparr> =
      s\<lparr>plist := (plist s)[i := p], tsleep_list := ts, tsleep_interact := e, shdlr_queue := q\<rparr>" for q
    by (rule sched.equality) simp_all
  ultimately show ?thesis
    by (simp add: i_remove_from_shdlr_queue_def)
qed

section \<open>Sleep\<close>

text \<open>The state with a new entry for process \<open>i\<close>; the lists follow.\<close>

definition becomes :: "sched \<Rightarrow> nat \<Rightarrow> proc \<Rightarrow> sched \<Rightarrow> bool" where
  "becomes s i p s' \<longleftrightarrow> sched_ok s' \<and> plist s' = (plist s)[i := p] \<and> proc_current s' = proc_current s \<and>
     ticks s' = ticks s \<and> died s' = died s"

lemma leave_queue_becomes:
  assumes "sched_ok s" and "i < PROCESS_MAX" and "pr_state (plist s ! i) \<notin> {FRE, ZMB, IDL}"
    and "pr_pid p = pr_pid (plist s ! i)" and "scuba_dir p = scuba_dir (plist s ! i)"
    and "pr_state p = SLP \<or> pr_state p = ZMB \<and> i \<noteq> 0"
    and "distinct ts" and "set ts = sleepers ((plist s)[i := p])"
    and "e = earliest ((plist s)[i := p]) (sleepers ((plist s)[i := p]))"
  shows "becomes s i p (i_remove_from_shdlr_queue (s\<lparr>plist := (plist s)[i := p], tsleep_list := ts, tsleep_interact := e\<rparr>) i)"
proof -
  have "sched_ok (i_remove_from_shdlr_queue (s\<lparr>plist := (plist s)[i := p], tsleep_list := ts, tsleep_interact := e\<rparr>) i)"
    using assms by (intro leave_queue_ok) auto
  then show ?thesis
    by (simp add: becomes_def i_remove_from_shdlr_queue_def)
qed

text \<open>Process \<open>i\<close> sleeps until \<open>v\<close>, for ever when \<open>v\<close> is 0.\<close>

abbreviation asleep :: "sched \<Rightarrow> nat \<Rightarrow> u32 \<Rightarrow> sched \<Rightarrow> bool" where
  "asleep s i v s' \<equiv> becomes s i ((plist s ! i)\<lparr>pr_state := SLP, sleep_to := v\<rparr>) s'"

lemma add_sleeper_ok:
  assumes "length ps = PROCESS_MAX" and "i < PROCESS_MAX" and "distinct ts" and "set ts = sleepers ps - {i}"
    and "pr_state p = SLP" and "sleep_to p \<noteq> 0"
  shows "distinct (ts @ [i])" "set (ts @ [i]) = sleepers (ps[i := p])" "length ts < PROCESS_MAX"
proof -
  show d: "distinct (ts @ [i])"
    using assms(3,4) by simp
  show "set (ts @ [i]) = sleepers (ps[i := p])"
    using assms(1,2,4-6) by simp
  have "sleepers ps \<subseteq> {..<PROCESS_MAX}"
    by (auto simp: in_sleepers)
  then have "set (ts @ [i]) \<subseteq> {..<PROCESS_MAX}"
    unfolding set_append assms(4) using assms(2) by auto
  from card_mono [OF finite_lessThan this] show "length ts < PROCESS_MAX"
    unfolding distinct_card [OF d] by simp
qed

lemma remove_queue_cong:
  "s = s' \<Longrightarrow> i_remove_from_shdlr_queue s i = i_remove_from_shdlr_queue s' i"
  by simp

text \<open>The middle of \<open>process_sleep\<close>, before the switch.\<close>

definition sleep_core :: "sched \<Rightarrow> nat \<Rightarrow> u32 \<Rightarrow> sched option" where
  "sleep_core s i ms = do {
      s \<leftarrow> (if pr_state (plist s ! i) = SLP \<and> sleep_to (plist s ! i) \<noteq> 0
            then i_remove_from_g_tsleep_list s (pr_pid (plist s ! i)) else Some s);
      s \<leftarrow> on_proc s i (\<lambda>p. p\<lparr>pr_state := SLP\<rparr>);
      s \<leftarrow> (if ms = -1 then on_proc s i (\<lambda>p. p\<lparr>sleep_to := 0\<rparr>)
            else do {
              s \<leftarrow> on_proc s i (\<lambda>p. p\<lparr>sleep_to := ticks s + ms * 1000 div RATE_TIMER_TICK\<rparr>);
              if length (tsleep_list s) \<ge> PROCESS_MAX then None
              else i_refresh_tsleep_interact (s\<lparr>tsleep_list := tsleep_list s @ [i]\<rparr>)
            });
      Some (i_remove_from_shdlr_queue s i)
    }"

lemma sleep_core_ok:
  assumes "sched_ok s" and "i < PROCESS_MAX" and "pr_state (plist s ! i) \<notin> {FRE, ZMB, IDL}"
    and "v = (if ms = -1 then 0 else ticks s + ms * 1000 div RATE_TIMER_TICK)" and "ms \<noteq> -1 \<Longrightarrow> v \<noteq> 0"
  obtains s' where "sleep_core s i ms = Some s'" "asleep s i v s'"
proof -
  note l = sched_okD(1) [OF assms(1)]
  have "pr_state (plist s ! i) \<noteq> FRE"
    using assms(3) by simp
  then obtain ts e where U: "(if pr_state (plist s ! i) = SLP \<and> sleep_to (plist s ! i) \<noteq> 0
      then i_remove_from_g_tsleep_list s (pr_pid (plist s ! i)) else Some s) = Some (s\<lparr>tsleep_list := ts, tsleep_interact := e\<rparr>)"
    "distinct ts" "set ts = sleepers (plist s) - {i}" "e = earliest (plist s) (sleepers (plist s) - {i})"
    by (rule unsleep_ok [OF assms(1,2)])
  define p where "p = (plist s ! i)\<lparr>pr_state := SLP, sleep_to := v\<rparr>"
  show thesis
  proof (cases "ms = -1")
    case True
    then have v: "v = 0"
      using assms(4) by simp
    have S: "set ts = sleepers ((plist s)[i := p])"
      using U(3) assms(2) l v by (simp add: p_def)
    have E: "e = earliest ((plist s)[i := p]) (sleepers ((plist s)[i := p]))"
      using U(4) assms(2) l v by (simp add: p_def)
    note R = leave_queue_becomes [OF assms(1-3) _ _ _ U(2) S E]
    show thesis
      by (rule that [OF _ R [unfolded p_def]])
        (use U(1) True v assms(2) l in \<open>simp_all add: sleep_core_def p_def\<close>, rule remove_queue_cong, simp_all)
  next
    case False
    then have v: "v \<noteq> 0" "v = ticks s + ms * 1000 div RATE_TIMER_TICK"
      using assms(4,5) by simp_all
    have pp: "pr_state p = SLP" "sleep_to p \<noteq> 0"
      using v(1) by (simp_all add: p_def)
    note A = add_sleeper_ok [OF l assms(2) U(2,3) pp]
    note R = leave_queue_becomes [OF assms(1-3) _ _ _ A(1,2) refl]
    have F: "i_refresh_tsleep_interact (s\<lparr>tsleep_interact := e, plist := (plist s)[i := p], tsleep_list := ts @ [i]\<rparr>) =
        Some (s\<lparr>plist := (plist s)[i := p], tsleep_list := ts @ [i],
          tsleep_interact := earliest ((plist s)[i := p]) (sleepers ((plist s)[i := p]))\<rparr>)"
      using refresh_ok [of "s\<lparr>tsleep_interact := e, plist := (plist s)[i := p], tsleep_list := ts @ [i]\<rparr>"] A(2) l by simp
    show thesis
      by (rule that [OF _ R [unfolded p_def]])
        (use U(1) False v(2) assms(2) l A(3) F in \<open>simp_all add: sleep_core_def p_def\<close>)
  qed
qed

lemma kin_becomes:
  assumes "becomes s i p s'" and "pr_pid p = pr_pid (plist s ! i)" and "pr_ppid p = pr_ppid (plist s ! i)"
    and "live p = live (plist s ! i)"
  shows "kin (plist s) (plist s')"
  using assms unfolding becomes_def by (simp add: kin_update)

text \<open>The processes a call may act on.\<close>

definition target :: "sched \<Rightarrow> u32 \<Rightarrow> nat \<Rightarrow> bool" where
  "target s pid i \<longleftrightarrow> i < PROCESS_MAX \<and> pr_pid (plist s ! i) = pid \<and> live (plist s ! i) \<and> pr_state (plist s ! i) \<noteq> IDL"

lemma target_cases:
  assumes "sched_ok s"
  obtains (target) i where "target s pid i" "i_pid_to_place (plist s) pid = Some (int i)"
  | (dead) i where "i_pid_to_place (plist s) pid = Some (int i)" "i < PROCESS_MAX" "pr_state (plist s ! i) \<in> {IDL, ZMB}"
      "\<And>j. \<not> target s pid j"
  | (none) "i_pid_to_place (plist s) pid = Some (-1)" "\<And>j. \<not> target s pid j"
proof -
  note l = sched_okD(1) [OF assms(1)]
  show thesis
  proof (cases rule: pid_to_place_cases [OF l, of pid])
    case (1 i)
    show thesis
    proof (cases "pr_state (plist s ! i) \<in> {IDL, ZMB}")
      case True
      have "\<not> target s pid j" for j
      proof
        assume t: "target s pid j"
        then have "i = j"
          using 1 by (intro table_ok_inject [OF sched_okD(2) [OF assms(1)]]) (simp_all add: target_def live_def)
        then show False
          using t True by (auto simp: target_def live_def)
      qed
      then show thesis
        using dead 1 True by blast
    next
      case False
      then show thesis
        using target [of i] 1 by (simp add: target_def live_def)
    qed
  next
    case 2
    then show thesis
      using none by (auto simp: target_def live_def)
  qed
qed

lemma target_unique:
  "sched_ok s \<Longrightarrow> target s pid i \<Longrightarrow> target s pid j \<Longrightarrow> i = j"
  by (rule table_ok_inject [OF sched_okD(2), of s]) (simp_all add: target_def live_def)

lemma cur_in [simp]: "proc_current s < length (plist s) \<Longrightarrow> cur s = Some (plist s ! proc_current s)"
  by (simp add: cur_def)

abbreviation cur_pid :: "sched \<Rightarrow> u32" where
  "cur_pid s \<equiv> pr_pid (plist s ! proc_current s)"

definition wake_time :: "sched \<Rightarrow> u32 \<Rightarrow> u32" where
  "wake_time s ms = (if ms = -1 then 0 else ticks s + ms * 1000 div RATE_TIMER_TICK)"

lemma process_sleep_cases:
  assumes "sched_ok s" and "ms = 0 \<or> ms = -1 \<or> wake_time s ms \<noteq> 0"
  obtains (refused) "\<And>i. \<not> target s pid i" "process_sleep s pid ms = Some (ERROR_CODE, s)"
  | (yields) i where "target s pid i" "ms = 0"
      "process_sleep s pid ms = map_option (Pair 0) (if pid = cur_pid s then schedule s 0 else Some s)"
  | (sleeps) i s1 where "target s pid i" "ms \<noteq> 0" "asleep s i (wake_time s ms) s1"
      "process_sleep s pid ms = map_option (Pair 0) (if pid = cur_pid s then schedule s1 0 else Some s1)"
proof -
  note l = sched_okD(1) [OF assms(1)] and c = sched_okD(4) [OF assms(1)]
  show thesis
  proof (cases rule: target_cases [OF assms(1), of pid])
    case (1 i)
    then have i: "i < PROCESS_MAX" "pr_pid (plist s ! i) = pid" "pr_state (plist s ! i) \<notin> {FRE, ZMB, IDL}"
      by (auto simp: target_def live_def)
    show thesis
    proof (cases "ms = 0")
      case True
      then show thesis
        using yields [OF 1(1)] 1(2) i l c by (simp add: process_sleep_def map_option_case option.case_eq_if Option.bind_eq_Some_conv split: option.split)
    next
      case False
      obtain s1 where S: "sleep_core s i ms = Some s1" "asleep s i (wake_time s ms) s1"
        by (rule sleep_core_ok [OF assms(1) i(1,3), of "wake_time s ms" ms]) (use assms(2) False in \<open>auto simp: wake_time_def\<close>)
      have s1: "proc_current s1 = proc_current s" "length (plist s1) = PROCESS_MAX" "cur_pid s1 = cur_pid s"
        using S(2) l c i(1) unfolding becomes_def by (simp_all, cases "i = proc_current s", simp_all)
      have "process_sleep s pid ms = do {
          s \<leftarrow> sleep_core s i ms;
          c \<leftarrow> cur s;
          s \<leftarrow> (if pid = pr_pid c then schedule s 0 else Some s);
          Some (0, s)
        }"
        using 1(2) i l c False by (simp add: process_sleep_def sleep_core_def Let_def split del: if_split cong: if_cong)
      then have "process_sleep s pid ms = map_option (Pair 0) (if pid = cur_pid s then schedule s1 0 else Some s1)"
        using S(1) s1 c by (simp add: map_conv_bind_option comp_def)
      then show thesis
        using sleeps [OF 1(1) False S(2)] by simp
    qed
  next
    case (2 i)
    then show thesis
      using refused l c by (auto simp: process_sleep_def)
  next
    case 3
    then show thesis
      using refused by (simp add: process_sleep_def)
  qed
qed

end
