(* ===== verification/ProcessWake.thy ===== *)
theory ProcessWake
  imports ProcessOps
begin

text \<open>Waking a process, blocking the current one, making a zombie.\<close>

section \<open>Wake-up\<close>

text \<open>The middle of \<open>process_wakeup\<close>, before a handover.\<close>

definition wake_core :: "sched \<Rightarrow> nat \<Rightarrow> sched option" where
  "wake_core s i = do {
     s \<leftarrow> (if sleep_to (plist s ! i) \<noteq> 0 then i_remove_from_g_tsleep_list s (pr_pid (plist s ! i)) else Some s);
     s \<leftarrow> on_proc s i (\<lambda>p. p\<lparr>pr_state := INQ, sleep_to := 0, wait_pid := 0\<rparr>);
     s \<leftarrow> i_add_to_shdlr_queue s i;
     i_refresh_tsleep_interact s
   }"

abbreviation woken :: "sched \<Rightarrow> nat \<Rightarrow> sched \<Rightarrow> bool" where
  "woken s i s' \<equiv> becomes s i ((plist s ! i)\<lparr>pr_state := INQ, sleep_to := 0, wait_pid := 0\<rparr>) s'"

lemma wake_core_ok:
  assumes "sched_ok s" and "i < PROCESS_MAX" and "pr_state (plist s ! i) = SLP"
  obtains s' where "wake_core s i = Some s'" "woken s i s'"
proof -
  note l = sched_okD(1) [OF assms(1)]
  have st: "pr_state (plist s ! i) \<noteq> FRE" "pr_state (plist s ! i) \<noteq> IDL"
    using assms(3) by simp_all
  obtain ts e where U: "(if pr_state (plist s ! i) = SLP \<and> sleep_to (plist s ! i) \<noteq> 0
      then i_remove_from_g_tsleep_list s (pr_pid (plist s ! i)) else Some s) = Some (s\<lparr>tsleep_list := ts, tsleep_interact := e\<rparr>)"
    "distinct ts" "set ts = sleepers (plist s) - {i}" "e = earliest (plist s) (sleepers (plist s) - {i})"
    by (rule unsleep_ok [OF assms(1,2) st(1)])
  define p where "p = (plist s ! i)\<lparr>pr_state := INQ, sleep_to := 0, wait_pid := 0\<rparr>"
  have nr: "i \<notin> runnable (plist s)"
    using assms(3) by (simp add: in_runnable)
  let ?s1 = "s\<lparr>tsleep_list := ts, tsleep_interact := e, plist := (plist s)[i := p]\<rparr>"
  let ?s2 = "?s1\<lparr>shdlr_queue := shdlr_queue s @ [i]\<rparr>"
  have "distinct (shdlr_queue ?s1)" "set (shdlr_queue ?s1) = runnable (plist s)"
    using sched_okD(5,6) [OF assms(1)] by simp_all
  from add_queue_ok [OF this assms(2) nr] have A: "i_add_to_shdlr_queue ?s1 i = Some ?s2"
    by simp
  have "sleepers ((plist s)[i := p]) = sleepers (plist s) - {i}"
    using assms(2) l by (simp add: p_def)
  then have ts: "set ts = sleepers ((plist s)[i := p])" and e: "e = earliest ((plist s)[i := p]) (sleepers ((plist s)[i := p]))"
    using U(3,4) by simp_all
  have R: "i_refresh_tsleep_interact ?s2 = Some ?s2"
  proof -
    have "i_refresh_tsleep_interact ?s2 = Some (?s2\<lparr>tsleep_interact := earliest (plist ?s2) (sleepers (plist ?s2))\<rparr>)"
      by (rule refresh_ok) (simp_all add: l ts)
    moreover have "plist ?s2 = (plist s)[i := p]"
      by simp
    ultimately have "i_refresh_tsleep_interact ?s2 = Some (?s2\<lparr>tsleep_interact := e\<rparr>)"
      unfolding e by (simp only:)
    also have "?s2\<lparr>tsleep_interact := e\<rparr> = ?s2"
      by (rule sched.equality) simp_all
    finally show ?thesis .
  qed
  have eq: "?s2 = s\<lparr>plist := (plist s)[i := p], shdlr_queue := shdlr_queue s @ [i], tsleep_list := ts, tsleep_interact := e\<rparr>"
    by (rule sched.equality) simp_all
  have "sched_ok ?s2"
    unfolding eq
  proof (rule sched_ok_change [OF assms(1,2) st])
    show "distinct (shdlr_queue s @ [i])"
      using sched_okD(5,6) [OF assms(1)] nr by simp
    show "set (shdlr_queue s @ [i]) = runnable ((plist s)[i := p])"
      using sched_okD(6) [OF assms(1)] assms(2) l by (simp add: p_def)
  qed (use U(2) ts e in \<open>simp_all add: p_def\<close>)
  then have W: "woken s i ?s2"
    by (simp add: becomes_def p_def)
  show thesis
    by (rule that [OF _ W]) (use U(1) A R assms(2,3) l in \<open>simp add: wake_core_def p_def\<close>)
qed

text \<open>A process that can run blocks itself; its entry becomes \<open>p\<close>.\<close>

lemma block_ok:
  assumes "sched_ok s" and "i \<in> runnable (plist s)" and "pr_pid p = pr_pid (plist s ! i)" and "scuba_dir p = scuba_dir (plist s ! i)"
    and "pr_state p = SLP" and "sleep_to p = 0"
  shows "becomes s i p (i_remove_from_shdlr_queue (s\<lparr>plist := (plist s)[i := p]\<rparr>) i)"
proof -
  have i: "i < PROCESS_MAX" "pr_state (plist s ! i) \<notin> {FRE, ZMB, IDL}" "i \<notin> sleepers (plist s)"
    using assms(2) by (auto simp: in_runnable in_sleepers)
  have s: "sleepers ((plist s)[i := p]) = sleepers (plist s)"
    using i(1,3) assms(6) sched_okD(1) [OF assms(1)] by simp
  have "becomes s i p (i_remove_from_shdlr_queue (s\<lparr>plist := (plist s)[i := p], tsleep_list := tsleep_list s,
      tsleep_interact := tsleep_interact s\<rparr>) i)"
    using i(3) sched_okD(7-9) [OF assms(1)] assms(3-5)
    by (intro leave_queue_becomes [OF assms(1) i(1,2)]) (simp_all add: s)
  moreover have "s\<lparr>plist := ps, tsleep_list := tsleep_list s, tsleep_interact := tsleep_interact s\<rparr> = s\<lparr>plist := ps\<rparr>" for ps
    by (rule sched.equality) simp_all
  ultimately show ?thesis
    by simp
qed

definition handover_entry :: "u32 \<Rightarrow> proc \<Rightarrow> proc" where
  "handover_entry pid p = p\<lparr>pr_state := SLP, wait_pid := sint pid, sleep_to := 0\<rparr>"

lemma process_wakeup_cases:
  assumes "sched_ok s"
  obtains (refused) "\<And>i. target s pid i \<Longrightarrow> pr_state (plist s ! i) \<noteq> SLP" "process_wakeup s pid h = Some (ERROR_CODE, s)"
  | (wakes) i s1 where "target s pid i" "pr_state (plist s ! i) = SLP" "woken s i s1"
      "process_wakeup s pid h = (if h then do {
         s \<leftarrow> on_proc s1 (proc_current s1) (handover_entry pid);
         s \<leftarrow> schedule (i_remove_from_shdlr_queue s (proc_current s)) 0;
         Some (0, s)
       } else Some (0, s1))"
proof -
  note l = sched_okD(1) [OF assms(1)]
  show thesis
  proof (cases rule: target_cases [OF assms(1), of pid])
    case (1 i)
    then have i: "i < PROCESS_MAX" "pr_pid (plist s ! i) = pid" "pr_state (plist s ! i) \<noteq> ZMB" "pr_state (plist s ! i) \<noteq> IDL"
      by (auto simp: target_def live_def)
    show thesis
    proof (cases "pr_state (plist s ! i) = SLP")
      case True
      obtain s1 where S: "wake_core s i = Some s1" "woken s i s1"
        by (rule wake_core_ok [OF assms(1) i(1) True])
      have "process_wakeup s pid h = do {
          s \<leftarrow> wake_core s i;
          if h then do {
            s \<leftarrow> on_proc s (proc_current s) (handover_entry pid);
            s \<leftarrow> schedule (i_remove_from_shdlr_queue s (proc_current s)) 0;
            Some (0, s)
          }
          else Some (0, s)
        }"
        using 1(2) i l True by (simp add: process_wakeup_def wake_core_def handover_entry_def [abs_def] Let_def split del: if_split cong: if_cong)
      then show thesis
        using wakes [OF 1(1) True S(2)] S(1) by simp
    next
      case False
      have "pr_state (plist s ! j) \<noteq> SLP" if "target s pid j" for j
        using target_unique [OF assms(1) 1(1) that] False by simp
      then show thesis
        using refused 1(2) i l False by (simp add: process_wakeup_def)
    qed
  next
    case (2 i)
    then show thesis
      using refused l by (auto simp: process_wakeup_def)
  next
    case 3
    then show thesis
      using refused by (simp add: process_wakeup_def)
  qed
qed

section \<open>Death\<close>

definition zombie :: "byte \<Rightarrow> proc \<Rightarrow> proc" where
  "zombie code p = p\<lparr>pr_state := ZMB, sleep_to := ucast code, wait_pid := 0\<rparr>"

lemma zombie_simps [simp]: "pr_state (zombie c p) = ZMB" "pr_pid (zombie c p) = pr_pid p" "pr_ppid (zombie c p) = pr_ppid p"
  "scuba_dir (zombie c p) = scuba_dir p" "sleep_to (zombie c p) = ucast c" "wait_pid (zombie c p) = 0"
  by (simp_all add: zombie_def)

lemma becomes_need_clean: "becomes s i p s' \<Longrightarrow> becomes s i p (s'\<lparr>need_clean := b\<rparr>)"
  by (simp add: becomes_def)

lemma make_zombie_ok:
  assumes "sched_ok s" and "target s pid i" and "i \<noteq> 0"
  obtains s' where "make_zombie s i pid code = Some s'" "becomes s i (zombie code (plist s ! i)) s'" "need_clean s'"
proof -
  note l = sched_okD(1) [OF assms(1)]
  have i: "i < PROCESS_MAX" "pr_pid (plist s ! i) = pid" "pr_state (plist s ! i) \<notin> {FRE, ZMB, IDL}" "pr_state (plist s ! i) \<noteq> FRE"
    using assms(2) by (auto simp: target_def live_def)
  obtain ts e where U: "(if pr_state (plist s ! i) = SLP \<and> sleep_to (plist s ! i) \<noteq> 0
      then i_remove_from_g_tsleep_list s (pr_pid (plist s ! i)) else Some s) = Some (s\<lparr>tsleep_list := ts, tsleep_interact := e\<rparr>)"
    "distinct ts" "set ts = sleepers (plist s) - {i}" "e = earliest (plist s) (sleepers (plist s) - {i})"
    by (rule unsleep_ok [OF assms(1) i(1,4)])
  define p where "p = zombie code (plist s ! i)"
  have ts: "set ts = sleepers ((plist s)[i := p])" and e: "e = earliest ((plist s)[i := p]) (sleepers ((plist s)[i := p]))"
    using U(3,4) i(1) l by (simp_all add: p_def)
  have "becomes s i p (i_remove_from_shdlr_queue (s\<lparr>plist := (plist s)[i := p], tsleep_list := ts, tsleep_interact := e\<rparr>) i)"
    using assms(3) by (intro leave_queue_becomes [OF assms(1) i(1,3) _ _ _ U(2) ts e]) (simp_all add: p_def)
  also have "s\<lparr>plist := (plist s)[i := p], tsleep_list := ts, tsleep_interact := e\<rparr> =
      s\<lparr>tsleep_list := ts, tsleep_interact := e, plist := (plist s)[i := p]\<rparr>"
    by (rule sched.equality) simp_all
  finally have B: "becomes s i p (i_remove_from_shdlr_queue (s\<lparr>tsleep_list := ts, tsleep_interact := e, plist := (plist s)[i := p]\<rparr>) i)" .
  show thesis
    by (rule that [OF _ becomes_need_clean [OF B [unfolded p_def]]])
      (use U(1) [unfolded i(2)] i l in \<open>simp_all add: make_zombie_def p_def zombie_def split del: if_split\<close>)
qed

text \<open>Waking the parent that waits.\<close>

lemma kin_wait_pid: "kin ps (ps[i := (ps ! i)\<lparr>wait_pid := w\<rparr>])"
  by (rule kin_update) (simp_all add: live_def)

lemma wake_waiting_ok:
  assumes "sched_ok s" and "i < PROCESS_MAX" and "vp < PROCESS_MAX"
  obtains s' where "wake_waiting s i pid vp = Some s'" "sched_ok s'" "kin (plist s) (plist s')"
    "proc_current s' = proc_current s" "died s' = died s"
    "\<And>j. j < PROCESS_MAX \<Longrightarrow> pr_state (plist s' ! j) = pr_state (plist s ! j) \<or> pr_state (plist s ! j) = SLP \<and> pr_state (plist s' ! j) = INQ"
    "\<And>j. pr_state (plist s ! j) = ZMB \<Longrightarrow> sleep_to (plist s' ! j) = sleep_to (plist s ! j)"
proof -
  note l = sched_okD(1) [OF assms(1)]
  show thesis
  proof (cases "wait_pid (plist s ! i) = sint pid \<or> wait_pid (plist s ! i) = -1 \<and> pr_pid (plist s ! i) = pr_ppid (plist s ! vp)")
    case False
    then have "wake_waiting s i pid vp = Some s"
      using assms(2,3) l by (auto simp: wake_waiting_def)
    then show thesis
      using assms(1) by (intro that [of s]) simp_all
  next
    case True
    define t where "t = s\<lparr>plist := (plist s)[i := (plist s ! i)\<lparr>wait_pid := sint (- pid)\<rparr>]\<rparr>"
    have t: "sched_ok t"
      unfolding t_def using assms(2) by (intro sched_ok_same [OF assms(1)]) simp_all
    have k: "kin (plist s) (plist t)"
      unfolding t_def by (simp add: kin_wait_pid)
    have same: "pr_state (plist t ! j) = pr_state (plist s ! j)" "sleep_to (plist t ! j) = sleep_to (plist s ! j)" for j
      using assms(2) l unfolding t_def by (cases "j = i"; simp)+
    have W: "wake_waiting s i pid vp = map_option snd (process_wakeup t (pr_pid (plist s ! i)) False)"
      using True assms(2,3) l by (simp add: wake_waiting_def t_def map_conv_bind_option case_prod_unfold comp_def)
    show thesis
    proof (cases rule: process_wakeup_cases [OF t, of "pr_pid (plist s ! i)" False])
      case 1
      have pc: "proc_current t = proc_current s" "died t = died s"
        by (simp_all add: t_def)
      have "wake_waiting s i pid vp = Some t"
        using W 1(2) by simp
      then show thesis
        by (rule that [OF _ t k pc]) (simp_all only: same refl simp_thms)
    next
      case (2 j s1)
      have lt: "length (plist t) = PROCESS_MAX"
        using sched_okD(1) [OF t] .
      have "kin (plist t) (plist s1)"
        using 2(2) by (intro kin_becomes [OF 2(3)]) (simp_all add: live_def)
      moreover have st: "pr_state (plist s1 ! m) = pr_state (plist s ! m) \<or> pr_state (plist s ! m) = SLP \<and> pr_state (plist s1 ! m) = INQ"
        "pr_state (plist s ! m) = ZMB \<Longrightarrow> sleep_to (plist s1 ! m) = sleep_to (plist s ! m)" for m
        using 2(1,2,3) lt same [of m] unfolding becomes_def target_def by (cases "m = j"; auto)+
      ultimately show thesis
        using W 2(3,4) k kin_trans by (intro that [of s1]) (auto simp: becomes_def t_def)
    qed
  qed
qed

end
