(* ===== verification/ProcessKill.thy ===== *)
theory ProcessKill
  imports ProcessWake
begin

text \<open>
  \<open>process_kill\<close>: it always ends, within as many nested calls as there are live processes, and the
  processes that die are the victim and those below it in the family tree.
\<close>

section \<open>What a kill changes\<close>

definition fam :: "sched \<Rightarrow> sched \<Rightarrow> bool" where
  "fam s s' \<longleftrightarrow> (\<forall>i<PROCESS_MAX. pr_pid (plist s' ! i) = pr_pid (plist s ! i) \<and> pr_ppid (plist s' ! i) = pr_ppid (plist s ! i) \<and>
     (live (plist s' ! i) \<longrightarrow> live (plist s ! i)))"

definition lives :: "sched \<Rightarrow> nat set" where
  "lives s = {i. i < PROCESS_MAX \<and> live (plist s ! i)}"

definition dies :: "sched \<Rightarrow> sched \<Rightarrow> nat set" where
  "dies s s' = lives s - lives s'"

text \<open>The living children; the kernel and the idle process are never killed.\<close>

definition children :: "sched \<Rightarrow> u32 \<Rightarrow> nat set" where
  "children s pid = {i\<in>lives s - {0, 1}. pr_ppid (plist s ! i) = pid}"

text \<open>No child of a process that died is alive.\<close>

definition closed :: "sched \<Rightarrow> sched \<Rightarrow> bool" where
  "closed s s' \<longleftrightarrow> (\<forall>j\<in>dies s s'. children s (pr_pid (plist s ! j)) \<inter> lives s' = {})"

text \<open>The processes of \<open>R\<close> and all below them in the family tree.\<close>

inductive_set desc :: "sched \<Rightarrow> nat set \<Rightarrow> nat set" for s :: sched and R :: "nat set" where
  root: "i \<in> R \<Longrightarrow> i \<in> desc s R"
| child: "k \<in> desc s R \<Longrightarrow> k < PROCESS_MAX \<Longrightarrow> i \<in> children s (pr_pid (plist s ! k)) \<Longrightarrow> i \<in> desc s R"

definition below :: "nat set \<Rightarrow> sched \<Rightarrow> sched \<Rightarrow> bool" where
  "below R s s' \<longleftrightarrow> dies s s' \<subseteq> desc s R"

lemma finite_lives [simp]: "finite (lives s)"
  by (simp add: lives_def)

lemma fam_refl [simp]: "fam s s"
  by (simp add: fam_def)

lemma fam_trans: "fam s t \<Longrightarrow> fam t u \<Longrightarrow> fam s u"
  by (simp add: fam_def)

lemma fam_lives: "fam s s' \<Longrightarrow> lives s' \<subseteq> lives s"
  by (auto simp: fam_def lives_def)

lemma kin_fam: "kin (plist s) (plist s') \<Longrightarrow> length (plist s) = PROCESS_MAX \<Longrightarrow> fam s s' \<and> lives s' = lives s"
  by (auto simp: kin_def fam_def lives_def)

lemma dies_lives: "lives s' = lives s \<Longrightarrow> dies s s' = {}"
  by (simp add: dies_def)

lemma dies_trans: "fam s t \<Longrightarrow> fam t u \<Longrightarrow> dies s u = dies s t \<union> dies t u"
  using fam_lives [of s t] fam_lives [of t u] by (auto simp: dies_def)

lemma dies_in: "j \<in> dies s s' \<Longrightarrow> j < PROCESS_MAX \<and> live (plist s ! j)"
  by (simp add: dies_def lives_def)

lemma children_fam:
  assumes "fam s t"
  shows "children t pid \<subseteq> children s pid" "children s pid \<inter> lives t \<subseteq> children t pid"
proof -
  have "i < PROCESS_MAX \<Longrightarrow> pr_ppid (plist t ! i) = pr_ppid (plist s ! i)" for i
    using assms by (simp add: fam_def)
  then show "children t pid \<subseteq> children s pid" "children s pid \<inter> lives t \<subseteq> children t pid"
    using fam_lives [OF assms] by (auto simp: children_def lives_def)
qed

lemma desc_fam:
  assumes "fam s t" and "R' \<subseteq> R"
  shows "desc t R' \<subseteq> desc s R"
proof
  fix i assume "i \<in> desc t R'"
  then show "i \<in> desc s R"
  proof induction
    case (root i)
    then show ?case
      using assms(2) by (blast intro: desc.root)
  next
    case (child k i)
    then have "i \<in> children s (pr_pid (plist s ! k))"
      using children_fam(1) [OF assms(1)] assms(1) by (auto simp: fam_def)
    then show ?case
      using child by (blast intro: desc.child)
  qed
qed

lemma desc_children:
  assumes "i < PROCESS_MAX"
  shows "desc s (children s (pr_pid (plist s ! i))) \<subseteq> desc s {i}"
proof
  fix j assume "j \<in> desc s (children s (pr_pid (plist s ! i)))"
  then show "j \<in> desc s {i}"
    by induction (use assms in \<open>blast intro: desc.intros\<close>)+
qed

lemma closed_trans:
  assumes "closed s t" and "closed t u" and "fam s t" and "fam t u"
  shows "closed s u"
  unfolding closed_def dies_trans [OF assms(3,4)]
proof
  fix j
  assume h: "j \<in> dies s t \<union> dies t u"
  show "children s (pr_pid (plist s ! j)) \<inter> lives u = {}"
  proof (cases "j \<in> dies t u")
    case True
    then have "pr_pid (plist t ! j) = pr_pid (plist s ! j)"
      using dies_in [OF True] assms(3) by (simp add: fam_def)
    then have "children t (pr_pid (plist s ! j)) \<inter> lives u = {}"
      using assms(2) True unfolding closed_def by metis
    then show ?thesis
      using children_fam(2) [OF assms(3)] fam_lives [OF assms(4)] by blast
  next
    case False
    then show ?thesis
      using assms(1) h fam_lives [OF assms(4)] unfolding closed_def by blast
  qed
qed

lemma below_trans:
  assumes "below R s t" and "below R' t u" and "fam s t" and "fam t u" and "R' \<subseteq> R"
  shows "below R s u"
  using assms(1,2) desc_fam [OF assms(3,5)] unfolding below_def dies_trans [OF assms(3,4)] by blast

lemma closed_refl [simp]: "lives s' = lives s \<Longrightarrow> closed s s'"
  by (simp add: closed_def dies_lives)

lemma below_refl [simp]: "lives s' = lives s \<Longrightarrow> below R s s'"
  by (simp add: below_def dies_lives)

text \<open>Only the current process has its number among the living.\<close>

definition cur_unique :: "sched \<Rightarrow> bool" where
  "cur_unique s \<longleftrightarrow> (\<forall>i\<in>lives s. pr_pid (plist s ! i) = cur_pid s \<longrightarrow> i = proc_current s)"

lemma cur_unique_fam:
  assumes "cur_unique s" and "fam s t" and "proc_current t = proc_current s" and "proc_current s < PROCESS_MAX"
  shows "cur_unique t"
proof -
  have "pr_pid (plist t ! i) = pr_pid (plist s ! i)" if "i < PROCESS_MAX" for i
    using assms(2) that by (simp add: fam_def)
  then show ?thesis
    using assms fam_lives [OF assms(2)] unfolding cur_unique_def by (auto simp: lives_def)
qed

section \<open>A dead child\<close>

lemma reap_child_ok:
  assumes "sched_ok s" and "i < PROCESS_MAX" and "pr_state (plist s ! i) = ZMB"
  obtains m where "(i_free_process s i \<bind> (\<lambda>s. on_proc s i (\<lambda>p. p\<lparr>pr_state := FRE\<rparr>))) =
      Some (s\<lparr>kmem := m, plist := (plist s)[i := freed FRE (plist s ! i)]\<rparr>)"
    "sched_ok (s\<lparr>kmem := m, plist := (plist s)[i := freed FRE (plist s ! i)]\<rparr>)"
    "kin (plist s) ((plist s)[i := freed FRE (plist s ! i)])"
proof -
  have l: "length (plist s) = PROCESS_MAX" and c: "core_ok s" and m: "mem_ok s"
    using assms(1) by (simp_all add: sched_ok_core)
  obtain m st where F: "i_free_process s i = Some (s\<lparr>kmem := m, plist := (plist s)[i := freed st (plist s ! i)]\<rparr>)"
    "mem_ok (s\<lparr>kmem := m, plist := (plist s)[i := freed st (plist s ! i)]\<rparr>)"
    by (rule free_process_ok [OF l assms(2) m])
  have e: "(freed st (plist s ! i))\<lparr>pr_state := FRE\<rparr> = freed FRE (plist s ! i)"
    by (simp add: freed_def)
  have d: "scuba_dir ((plist s)[i := freed FRE (plist s ! i)] ! j) = scuba_dir ((plist s)[i := freed st (plist s ! i)] ! j)" for j
    using assms(2) l by (cases "j = i") simp_all
  have "mem_ok (s\<lparr>kmem := m, plist := (plist s)[i := freed FRE (plist s ! i)]\<rparr>)"
    by (rule mem_ok_cong [OF F(2)]) (simp_all add: d)
  moreover have "core_ok (s\<lparr>kmem := m, plist := (plist s)[i := freed FRE (plist s ! i)]\<rparr>)"
    using bury_ok [OF c assms(2,3), of FRE m] by simp
  ultimately have ok: "sched_ok (s\<lparr>kmem := m, plist := (plist s)[i := freed FRE (plist s ! i)]\<rparr>)"
    by (simp add: sched_ok_core)
  have "kin (plist s) ((plist s)[i := freed FRE (plist s ! i)])"
    using kin_bury [OF assms(3), of FRE] by simp
  with ok show thesis
    by (rule that [rotated]) (use F(1) e assms(2) l in simp)
qed

section \<open>The induction\<close>

text \<open>
  The outcomes of \<open>process_kill\<close>: refused, done, or the current process itself has died and the
  switch has happened.
\<close>

definition subtree :: "sched \<Rightarrow> u32 \<Rightarrow> sched \<Rightarrow> bool" where
  "subtree s pid s' \<longleftrightarrow> (\<forall>i. target s pid i \<longrightarrow> i \<in> dies s s') \<and> closed s s' \<and>
     below {i. target s pid i} s s'"

definition kill_result :: "sched \<Rightarrow> u32 \<Rightarrow> int option \<Rightarrow> sched \<Rightarrow> bool" where
  "kill_result s pid r s' \<longleftrightarrow> sched_ok s' \<and> fam s s' \<and>
     (if pid \<noteq> 0 \<and> (\<exists>i. target s pid i)
      then (case r of
          Some v \<Rightarrow> v = 0 \<and> pid \<noteq> cur_pid s \<and> proc_current s' = proc_current s \<and> subtree s pid s' \<and> (on_cpu s \<longrightarrow> on_cpu s')
        | None \<Rightarrow> on_cpu s' \<and> proc_current s \<in> lives s \<inter> desc s {i. target s pid i} \<and> (pid = cur_pid s \<longrightarrow> subtree s pid s'))
      else r = Some ERROR_CODE \<and> s' = s)"

definition children_result :: "sched \<Rightarrow> nat \<Rightarrow> u32 \<Rightarrow> nat list \<Rightarrow> bool \<Rightarrow> sched \<Rightarrow> bool" where
  "children_result s v pid is here s' \<longleftrightarrow> sched_ok s' \<and> fam s s' \<and>
     (if here then proc_current s' = proc_current s \<and> (on_cpu s \<longrightarrow> on_cpu s') \<and> closed s s' \<and> below (children s pid) s s' \<and>
        (\<forall>i\<in>set is. i \<noteq> v \<longrightarrow> i \<in> children s pid \<longrightarrow> i \<notin> lives s')
      else on_cpu s' \<and> proc_current s \<in> lives s \<inter> desc s (children s pid))"

text \<open>What the loop does with the rest of the table, after one entry.\<close>

lemma children_result_step:
  assumes "fam s t" and "proc_current t = proc_current s" and "closed s t" and "below (children s pid) s t"
    and "i \<noteq> v \<longrightarrow> i \<in> children s pid \<longrightarrow> i \<notin> lives t" and "children_result t v pid is here s'"
    and "set is \<subseteq> {..<PROCESS_MAX}" and "on_cpu s \<longrightarrow> on_cpu t"
  shows "children_result s v pid (i # is) here s'"
proof -
  have f: "fam t s'" "sched_ok s'"
    using assms(6) by (simp_all add: children_result_def)
  note fs = fam_trans [OF assms(1) f(1)]
  show ?thesis
  proof (cases here)
    case True
    then have R: "proc_current s' = proc_current t" "closed t s'" "below (children t pid) t s'"
      "\<forall>i\<in>set is. i \<noteq> v \<longrightarrow> i \<in> children t pid \<longrightarrow> i \<notin> lives s'"
      using assms(6) by (simp_all add: children_result_def)
    have "closed s s'" "below (children s pid) s s'"
      using closed_trans [OF assms(3) R(2) assms(1) f(1)]
        below_trans [OF assms(4) R(3) assms(1) f(1) children_fam(1) [OF assms(1)]] by blast+
    moreover have "j \<notin> lives s'" if "j \<in> set (i # is)" "j \<noteq> v" "j \<in> children s pid" for j
      using that assms(5) R(4) children_fam(2) [OF assms(1)] fam_lives [OF f(1)] by auto
    ultimately show ?thesis
      using True fs f(2) assms(2,6,8) R(1) by (simp add: children_result_def)
  next
    case False
    then show ?thesis
      using fs f(2) assms(2,6) fam_lives [OF assms(1)] desc_fam [OF assms(1) children_fam(1) [OF assms(1)]]
      by (auto simp: children_result_def)
  qed
qed

lemma kin_step:
  assumes "kin (plist s) (plist t)" and "length (plist s) = PROCESS_MAX"
  shows "fam s t" "lives t = lives s" "closed s t" "below R s t"
  using kin_fam [OF assms] by simp_all

lemma lives_inject:
  "sched_ok s \<Longrightarrow> i \<in> lives s \<Longrightarrow> j \<in> lives s \<Longrightarrow> pr_pid (plist s ! i) = pr_pid (plist s ! j) \<Longrightarrow> i = j"
  by (rule table_ok_inject [OF sched_okD(2), of s]) (simp_all add: lives_def live_def)

lemma target_lives: "target s pid i \<Longrightarrow> i \<in> lives s \<and> pr_pid (plist s ! i) = pid"
  by (simp add: target_def lives_def)

lemma target_set: "sched_ok s \<Longrightarrow> target s pid i \<Longrightarrow> {j. target s pid j} = {i}"
  by (blast dest: target_unique)

lemma not_target:
  assumes "sched_ok s" and "i \<in> lives s" and "\<not> (pr_pid (plist s ! i) \<noteq> 0 \<and> target s (pr_pid (plist s ! i)) i)"
  shows "i \<in> {0, 1}"
proof (cases "pr_state (plist s ! i) = IDL")
  case True
  then show ?thesis
    using sched_okD(11) [OF assms(1), of i] assms(2) by (simp add: lives_def)
next
  case False
  then have "pr_pid (plist s ! i) = pr_pid (plist s ! 0)"
    using assms sched_okD(12) [OF assms(1)] by (auto simp: target_def lives_def)
  moreover have "0 \<in> lives s"
    using sched_okD(13) [OF assms(1)] by (simp add: lives_def live_def PROCESS_MAX_def)
  ultimately have "i = 0"
    using lives_inject [OF assms(1,2)] by blast
  then show ?thesis
    by simp
qed

lemma target_below:
  assumes "sched_ok s" and "i \<in> lives s" and "pr_ppid (plist s ! i) = pid" and "pr_pid (plist s ! i) \<noteq> 0"
    and "target s (pr_pid (plist s ! i)) i"
  shows "desc s {j. target s (pr_pid (plist s ! i)) j} \<subseteq> desc s (children s pid)"
proof -
  have "i \<noteq> 0"
    using assms(4) sched_okD(12) [OF assms(1)] by (intro notI) simp
  moreover have "i \<noteq> 1"
    using assms(5) sched_okD(10) [OF assms(1)] by (intro notI) (simp add: target_def)
  ultimately have "i \<in> children s pid"
    using assms(2,3) by (simp add: children_def)
  then show ?thesis
    using desc_fam [OF fam_refl] target_set [OF assms(1,5)] by simp
qed

lemma kill_result_step:
  assumes "sched_ok s" and "kill_result s (pr_pid (plist s ! i)) (Some r) t" and "i \<in> lives s" and "pr_ppid (plist s ! i) = pid"
  shows "fam s t" "sched_ok t" "proc_current t = proc_current s" "closed s t" "below (children s pid) s t"
    "i \<in> children s pid \<longrightarrow> i \<notin> lives t" "on_cpu s \<longrightarrow> on_cpu t"
proof -
  let ?p = "pr_pid (plist s ! i)"
  show f: "fam s t" and ok: "sched_ok t"
    using assms(2) by (simp_all add: kill_result_def)
  show "proc_current t = proc_current s" "closed s t" "on_cpu s \<longrightarrow> on_cpu t"
    using assms(2) by (auto simp: kill_result_def subtree_def split: if_splits)
  consider "?p \<noteq> 0" "target s ?p i" | "\<not> (?p \<noteq> 0 \<and> target s ?p i)"
    by blast
  then have "below (children s pid) s t \<and> (i \<in> children s pid \<longrightarrow> i \<notin> lives t)"
  proof cases
    case 1
    then have "?p \<noteq> 0 \<and> (\<exists>j. target s ?p j)"
      by blast
    then have "subtree s ?p t"
      using assms(2) by (simp add: kill_result_def)
    then have b: "below {j. target s ?p j} s t" "i \<in> dies s t"
      using 1(2) by (simp_all add: subtree_def)
    note target_below [OF assms(1,3,4) 1]
    then show ?thesis
      using b by (auto simp: below_def dies_def)
  next
    case 2
    have "t = s"
    proof (rule ccontr)
      assume "t \<noteq> s"
      then obtain j where "target s ?p j" "?p \<noteq> 0"
        using assms(2) by (auto simp: kill_result_def split: if_splits)
      moreover from this have "j = i"
        using lives_inject [OF assms(1) _ assms(3)] target_lives by blast
      ultimately show False
        using 2 by simp
    qed
    then show ?thesis
      using not_target [OF assms(1,3) 2] by (auto simp: children_def)
  qed
  then show "below (children s pid) s t" "i \<in> children s pid \<longrightarrow> i \<notin> lives t"
    by simp_all
qed

lemma kill_children_step:
  assumes "sched_ok s" and "i < PROCESS_MAX" and "v < PROCESS_MAX" and "i \<noteq> v"
    and "set is \<subseteq> {..<PROCESS_MAX}" and "proc_current s < PROCESS_MAX" and "cur_unique s"
    and nested: "\<And>t. sched_ok t \<Longrightarrow> fam s t \<Longrightarrow> cur_unique t \<Longrightarrow>
      \<exists>r u. process_kill n t (pr_pid (plist s ! i)) 0 = Some (r, u) \<and> kill_result t (pr_pid (plist s ! i)) r u"
    and rest: "\<And>t. sched_ok t \<Longrightarrow> fam s t \<Longrightarrow> cur_unique t \<Longrightarrow>
      \<exists>here u. kill_children n t v pid is = Some (here, u) \<and> children_result t v pid is here u"
  shows "\<exists>here s'. kill_children n s v pid (i # is) = Some (here, s') \<and> children_result s v pid (i # is) here s'"
proof -
  obtain t where W: "wake_waiting s i pid v = Some t" "sched_ok t" "kin (plist s) (plist t)" "proc_current t = proc_current s"
    and ws: "\<And>j. j < PROCESS_MAX \<Longrightarrow> pr_state (plist t ! j) = pr_state (plist s ! j) \<or> pr_state (plist s ! j) = SLP \<and> pr_state (plist t ! j) = INQ"
    using wake_waiting_ok [OF assms(1-3), of pid thesis] by blast
  have oc: "on_cpu s \<longrightarrow> on_cpu t"
    using ws [OF assms(6)] W(4) by (auto simp: on_cpu_def)
  note ks = kin_step [OF W(3) sched_okD(1) [OF assms(1)]]
  have lt: "length (plist t) = PROCESS_MAX"
    by (rule sched_okD(1) [OF W(2)])
  have pt: "pr_pid (plist t ! i) = pr_pid (plist s ! i)"
    using ks(1) assms(2) by (simp add: fam_def)
  have ct: "cur_unique t"
    by (rule cur_unique_fam [OF assms(7) ks(1) W(4) assms(6)])
  have go: "\<exists>here s'. kill_children n u v pid is = Some (here, s') \<and> children_result s v pid (i # is) here s'"
    if u: "sched_ok u" "fam t u" "proc_current u = proc_current t" "closed t u" "below (children t pid) t u"
      "i \<in> children t pid \<longrightarrow> i \<notin> lives u" "on_cpu t \<longrightarrow> on_cpu u" for u
  proof -
    have fu: "fam s u"
      by (rule fam_trans [OF ks(1) u(2)])
    have cu: "proc_current u = proc_current s"
      using u(3) W(4) by simp
    obtain here s' where R: "kill_children n u v pid is = Some (here, s')" "children_result u v pid is here s'"
      using rest [OF u(1) fu cur_unique_fam [OF assms(7) fu cu assms(6)]] by blast
    have "children_result s v pid (i # is) here s'"
    proof (rule children_result_step [OF fu cu _ _ _ R(2) assms(5)])
      show "closed s u"
        by (rule closed_trans [OF ks(3) u(4) ks(1) u(2)])
      show "below (children s pid) s u"
        by (rule below_trans [OF ks(4) u(5) ks(1) u(2) children_fam(1) [OF ks(1)]])
      show "i \<noteq> v \<longrightarrow> i \<in> children s pid \<longrightarrow> i \<notin> lives u"
        using u(6) children_fam(2) [OF ks(1)] fam_lives [OF u(2)] by blast
      show "on_cpu s \<longrightarrow> on_cpu u"
        using oc u(7) by blast
    qed
    then show ?thesis
      using R(1) by blast
  qed
  have unf: "kill_children n s v pid (i # is) =
      (if pr_ppid (plist t ! i) = pid \<and> pr_state (plist t ! i) \<noteq> FRE then
          (if pr_state (plist t ! i) = ZMB then
             (i_free_process t i \<bind> (\<lambda>s. on_proc s i (\<lambda>p. p\<lparr>pr_state := FRE\<rparr>))) \<bind> (\<lambda>s. kill_children n s v pid is)
           else process_kill n t (pr_pid (plist t ! i)) 0 \<bind>
             (\<lambda>(r, s). if r = None then Some (False, s) else kill_children n s v pid is))
        else kill_children n t v pid is)"
    using W(1) assms(2,4) lt by (simp add: kill_children.simps(2))
  show ?thesis
  proof (cases "pr_ppid (plist t ! i) = pid \<and> pr_state (plist t ! i) \<noteq> FRE")
    case False
    have "i \<in> children t pid \<longrightarrow> i \<notin> lives t"
      using False by (auto simp: children_def lives_def live_def)
    then show ?thesis
      using go [OF W(2)] unf False by simp
  next
    case True
    show ?thesis
    proof (cases "pr_state (plist t ! i) = ZMB")
      case z: True
      obtain m where Z: "(i_free_process t i \<bind> (\<lambda>s. on_proc s i (\<lambda>p. p\<lparr>pr_state := FRE\<rparr>))) =
          Some (t\<lparr>kmem := m, plist := (plist t)[i := freed FRE (plist t ! i)]\<rparr>)"
        "sched_ok (t\<lparr>kmem := m, plist := (plist t)[i := freed FRE (plist t ! i)]\<rparr>)"
        "kin (plist t) ((plist t)[i := freed FRE (plist t ! i)])"
        by (rule reap_child_ok [OF W(2) assms(2) z])
      define u where "u = t\<lparr>kmem := m, plist := (plist t)[i := freed FRE (plist t ! i)]\<rparr>"
      have "kin (plist t) (plist u)" "proc_current u = proc_current t"
        using Z(3) by (simp_all add: u_def)
      note ku = kin_step [OF this(1) lt] this(2)
      have "i \<notin> lives u"
        using assms(2) lt by (simp add: u_def lives_def live_def)
      moreover have "on_cpu t \<longrightarrow> on_cpu u"
        using z by (cases "i = proc_current t") (simp_all add: u_def on_cpu_def)
      ultimately show ?thesis
        using go [OF Z(2) [folded u_def] ku(1,5,3,4)] unf True z Z(1) by (simp flip: u_def)
    next
      case nz: False
      have il: "i \<in> lives t" "pr_ppid (plist t ! i) = pid"
        using True nz assms(2) by (simp_all add: lives_def live_def)
      obtain r u where K: "process_kill n t (pr_pid (plist t ! i)) 0 = Some (r, u)" "kill_result t (pr_pid (plist t ! i)) r u"
        using nested [OF W(2) ks(1) ct] pt by auto
      show ?thesis
      proof (cases r)
        case None
        then have "kill_children n s v pid (i # is) = Some (False, u)"
          using unf True nz K(1) by simp
        moreover have "children_result s v pid (i # is) False u"
        proof -
          have k: "sched_ok u" "fam t u" "on_cpu u" "proc_current t \<in> lives t"
            and c: "proc_current t \<in> desc t {j. target t (pr_pid (plist t ! i)) j}" and p: "pr_pid (plist t ! i) \<noteq> 0"
            using K(2) None by (auto simp: kill_result_def split: if_splits)
          have "\<exists>j. target t (pr_pid (plist t ! i)) j"
            using K(2) None by (auto simp: kill_result_def split: if_splits)
          then obtain j where j: "target t (pr_pid (plist t ! i)) j" ..
          then have "j = i"
            using lives_inject [OF W(2) _ il(1)] target_lives by blast
          then have "target t (pr_pid (plist t ! i)) i"
            using j by simp
          note target_below [OF W(2) il p this]
          then have "proc_current s \<in> desc s (children s pid)"
            using c W(4) desc_fam [OF ks(1) children_fam(1) [OF ks(1)]] by auto
          then show ?thesis
            using k fam_trans [OF ks(1)] W(4) ks(2) by (simp add: children_result_def)
        qed
        ultimately show ?thesis
          by blast
      next
        case (Some v')
        note ks' = kill_result_step [OF W(2) K(2) [unfolded Some] il]
        show ?thesis
          using go [OF ks'(2,1,3-5)] ks'(6,7) unf True nz K(1) Some by simp
      qed
    qed
  qed
qed

lemma lives_zombie:
  assumes "becomes s i (zombie code (plist s ! i)) t" and "i \<in> lives s" and "length (plist s) = PROCESS_MAX"
  shows "fam s t" "lives t = lives s - {i}" "dies s t = {i}"
proof -
  have p: "plist t = (plist s)[i := zombie code (plist s ! i)]" and i: "i < PROCESS_MAX"
    using assms(1,2) by (simp_all add: becomes_def lives_def)
  have n: "plist t ! j = (if j = i then zombie code (plist s ! i) else plist s ! j)" for j
    using p i assms(3) by simp
  show "fam s t"
    using assms(2) by (simp add: fam_def n lives_def live_def)
  show l: "lives t = lives s - {i}"
    by (auto simp: lives_def n live_def)
  show "dies s t = {i}"
    using assms(2) by (auto simp: dies_def l)
qed

text \<open>The victim is a zombie and its children are done.\<close>

lemma kill_finish:
  assumes "sched_ok s" and "target s pid i" and "becomes s i (zombie code (plist s ! i)) t"
    and "children_result t i pid [0..<PROCESS_MAX] True u"
  shows "subtree s pid u" "fam s u"
proof -
  have l: "length (plist s) = PROCESS_MAX" and il: "i \<in> lives s" "pr_pid (plist s ! i) = pid"
    using sched_okD(1) [OF assms(1)] target_lives [OF assms(2)] by simp_all
  note z = lives_zombie [OF assms(3) il(1) l]
  have f: "fam t u" "closed t u" "below (children t pid) t u"
    and c0: "\<forall>j\<in>set [0..<PROCESS_MAX]. j \<noteq> i \<longrightarrow> j \<in> children t pid \<longrightarrow> j \<notin> lives u"
    using assms(4) unfolding children_result_def if_True by blast+
  have c: "j \<notin> lives u" if "j \<noteq> i" "j \<in> children t pid" for j
    using c0 that by (simp add: children_def lives_def)
  show fs: "fam s u"
    by (rule fam_trans [OF z(1) f(1)])
  have d: "dies s u = insert i (dies t u)"
    using dies_trans [OF z(1) f(1)] z(3) by simp
  note tg = target_set [OF assms(1,2)]
  have "closed s u"
    unfolding closed_def d
  proof
    fix j
    assume h: "j \<in> insert i (dies t u)"
    show "children s (pr_pid (plist s ! j)) \<inter> lives u = {}"
    proof (cases "j = i")
      case True
      have "m \<notin> lives u" if "m \<in> children s pid" for m
        using c [of m] children_fam(2) [OF z(1)] fam_lives [OF f(1)] z(2) that by blast
      then show ?thesis
        using True il(2) by blast
    next
      case False
      then have j: "j \<in> dies t u"
        using h by simp
      then have "pr_pid (plist t ! j) = pr_pid (plist s ! j)"
        using dies_in [OF j] z(1) by (simp add: fam_def)
      then have "children t (pr_pid (plist s ! j)) \<inter> lives u = {}"
        using f(2) j unfolding closed_def by metis
      then show ?thesis
        using children_fam(2) [OF z(1)] fam_lives [OF f(1)] by blast
    qed
  qed
  moreover have "below {j. target s pid j} s u"
  proof -
    have "i < PROCESS_MAX"
      using il(1) by (simp add: lives_def)
    then have "desc t (children t pid) \<subseteq> desc s {i}"
      using desc_fam [OF z(1) children_fam(1) [OF z(1)]] desc_children [of i s] unfolding il(2) by blast
    then show ?thesis
      using f(3) unfolding below_def d tg by (blast intro: desc.root)
  qed
  moreover have "j \<in> dies s u" if "target s pid j" for j
    using tg that d by blast
  ultimately show "subtree s pid u"
    by (simp add: subtree_def)
qed

lemma fam_card: "fam s t \<Longrightarrow> card (lives s) < n \<Longrightarrow> card (lives t) < n"
  using card_mono [OF finite_lives fam_lives] by (rule le_less_trans)

lemma kill_children_ok:
  assumes A: "\<And>s pid code. sched_ok s \<Longrightarrow> cur_unique s \<Longrightarrow> card (lives s) < n \<Longrightarrow>
      \<exists>r s'. process_kill n s pid code = Some (r, s') \<and> kill_result s pid r s'"
    and "sched_ok s" and "cur_unique s" and "card (lives s) < n" and "v < PROCESS_MAX" and "set is \<subseteq> {..<PROCESS_MAX}"
  shows "\<exists>here s'. kill_children n s v pid is = Some (here, s') \<and> children_result s v pid is here s'"
  using assms(2-6)
proof (induction "is" arbitrary: s)
  case Nil
  then show ?case
    by (intro exI [of _ True] exI [of _ s]) (simp add: kill_children.simps(1) children_result_def)
next
  case (Cons i "is")
  have i: "i < PROCESS_MAX" "set is \<subseteq> {..<PROCESS_MAX}"
    using Cons.prems(5) by auto
  have rest: "\<exists>here u. kill_children n t v pid is = Some (here, u) \<and> children_result t v pid is here u"
    if "sched_ok t" "fam s t" "cur_unique t" for t
    by (rule Cons.IH [OF that(1,3) fam_card [OF that(2) Cons.prems(3)] Cons.prems(4) i(2)])
  show ?case
  proof (cases "i = v")
    case True
    obtain here u where R: "kill_children n s v pid is = Some (here, u)" "children_result s v pid is here u"
      using rest [OF Cons.prems(1) fam_refl Cons.prems(2)] by blast
    have "children_result s v pid (i # is) here u"
      by (rule children_result_step [OF fam_refl refl _ _ _ R(2) i(2)]) (simp_all add: True)
    then show ?thesis
      using R(1) True by (simp add: kill_children.simps(2))
  next
    case False
    show ?thesis
      by (rule kill_children_step [OF Cons.prems(1) i(1) Cons.prems(4) False i(2) sched_okD(4) [OF Cons.prems(1)] Cons.prems(2)])
        (use A fam_card Cons.prems(3) rest in blast)+
  qed
qed

lemma kill_refused:
  assumes "sched_ok s" and "\<not> (pid \<noteq> 0 \<and> (\<exists>i. target s pid i))"
  shows "process_kill (Suc n) s pid code = Some (Some ERROR_CODE, s)"
proof (cases "pid = 0")
  case True
  then show ?thesis
    by (simp add: process_kill.simps(2))
next
  case False
  then have nt: "\<not> target s pid i" for i
    using assms(2) by blast
  note l = sched_okD(1) [OF assms(1)]
  show ?thesis
    by (cases rule: target_cases [OF assms(1), of pid])
      (use False nt l in \<open>auto simp: process_kill.simps(2)\<close>)
qed

lemma process_kill_ok:
  "sched_ok s \<Longrightarrow> cur_unique s \<Longrightarrow> card (lives s) < n \<Longrightarrow>
    \<exists>r s'. process_kill n s pid code = Some (r, s') \<and> kill_result s pid r s'"
proof (induction n arbitrary: s pid code)
  case (Suc n)
  show ?case
  proof (cases "pid \<noteq> 0 \<and> (\<exists>i. target s pid i)")
    case False
    then show ?thesis
      using kill_refused [OF Suc.prems(1) False] Suc.prems(1) by (auto simp: kill_result_def)
  next
    case True
    then obtain i where t: "target s pid i" "i_pid_to_place (plist s) pid = Some (int i)" and p0: "pid \<noteq> 0"
      by (cases rule: target_cases [OF Suc.prems(1), of pid]) auto
    note il = target_lives [OF t(1)] and l = sched_okD(1) [OF Suc.prems(1)] and c = sched_okD(4) [OF Suc.prems(1)]
    have "i \<noteq> 0"
      using il p0 sched_okD(12) [OF Suc.prems(1)] by (intro notI) simp
    then have i: "i < PROCESS_MAX" "pr_state (plist s ! i) \<noteq> IDL" "pr_state (plist s ! i) \<noteq> ZMB" "i \<noteq> 0"
      using t(1) by (simp_all add: target_def live_def)
    obtain s1 where Z: "make_zombie s i pid code = Some s1" "becomes s i (zombie code (plist s ! i)) s1"
      by (rule make_zombie_ok [OF Suc.prems(1) t(1) i(4)])
    have "i \<in> lives s"
      using il by blast
    note z = lives_zombie [OF Z(2) this l]
    have s1: "sched_ok s1" "proc_current s1 = proc_current s"
      using Z(2) by (simp_all add: becomes_def)
    have "card (lives s1) < n"
      using card_Diff1_less [OF finite_lives \<open>i \<in> lives s\<close>] Suc.prems(3) unfolding z(2) by simp
    moreover have cu: "cur_unique s1"
      by (rule cur_unique_fam [OF Suc.prems(2) z(1) s1(2) c])
    moreover have "set [0..<PROCESS_MAX] \<subseteq> {..<PROCESS_MAX}"
      by auto
    ultimately obtain here u where R: "kill_children n s1 i pid [0..<PROCESS_MAX] = Some (here, u)"
      "children_result s1 i pid [0..<PROCESS_MAX] here u"
      using kill_children_ok [OF Suc.IH s1(1)] i(1) by blast
    have u: "sched_ok u" "fam s1 u"
      using R(2) by (simp_all add: children_result_def)
    have cs: "cur_pid u = cur_pid s" if "proc_current u = proc_current s"
      using fam_trans [OF z(1) u(2)] c that by (simp add: fam_def)
    have K: "process_kill (Suc n) s pid code = (if \<not> here then Some (None, u)
        else cur (mod_trigger_atdeath u pid) \<bind> (\<lambda>c. if pid = pr_pid c then schedule (mod_trigger_atdeath u pid) 0 \<bind> (\<lambda>s. Some (None, s))
          else Some (Some 0, mod_trigger_atdeath u pid)))"
      using p0 t(2) i l Z(1) R(1) by (simp add: process_kill.simps(2) Let_def)
    show ?thesis
    proof (cases here)
      case False
      have oc: "on_cpu u" "proc_current s \<in> lives s1" and d1: "proc_current s \<in> desc s1 (children s1 pid)"
        using R(2) False s1(2) by (auto simp: children_result_def)
      have d: "proc_current s \<in> desc s {i. target s pid i}"
        using d1 desc_fam [OF z(1) children_fam(1) [OF z(1)]] desc_children [OF i(1), of s] il
        unfolding target_set [OF Suc.prems(1) t(1)] by auto
      have "pid \<noteq> cur_pid s"
        using oc(2) z(2) Suc.prems(2) il unfolding cur_unique_def by blast
      then have "kill_result s pid None u"
        using u d oc True fam_trans [OF z(1) u(2)] fam_lives [OF z(1)] by (auto simp: kill_result_def)
      then show ?thesis
        using K False by auto
    next
      case here: True
      define w where "w = mod_trigger_atdeath u pid"
      have w: "sched_ok w" "plist w = plist u" "proc_current w = proc_current s"
        using u(1) R(2) here s1(2) by (simp_all add: w_def mod_trigger_atdeath_def children_result_def)
      have "children_result s1 i pid [0..<PROCESS_MAX] True u"
        using R(2) here by simp
      note F = kill_finish [OF Suc.prems(1) t(1) Z(2) this]
      have lw: "lives w = lives u" "fam s w"
        using w(2) F(2) by (simp_all add: lives_def fam_def)
      have sub: "subtree s pid x" if "lives x = lives u" for x
        using F(1) that by (simp add: subtree_def closed_def below_def dies_def)
      have cp: "cur_pid w = cur_pid s"
        using cs w(2,3) s1(2) R(2) here by (simp add: children_result_def)
      have cl: "proc_current w < length (plist w)"
        using c w sched_okD(1) [OF w(1)] by simp
      have K': "process_kill (Suc n) s pid code = (if pid = cur_pid w then schedule w 0 \<bind> (\<lambda>s. Some (None, s)) else Some (Some 0, w))"
        using K [folded w_def] here cl by (simp only: not_True_eq_False if_False cur_in Option.bind.simps)
      show ?thesis
      proof (cases "pid = cur_pid s")
        case False
        moreover have "on_cpu s \<longrightarrow> on_cpu w"
        proof -
          have "i \<noteq> proc_current s"
            using False il by auto
          then have "on_cpu s \<longrightarrow> on_cpu s1"
            using Z(2) by (simp add: on_cpu_def becomes_def)
          moreover have "on_cpu s1 \<longrightarrow> on_cpu u"
            using R(2) here by (simp add: children_result_def)
          moreover have "on_cpu w = on_cpu u"
            by (simp add: on_cpu_def w_def mod_trigger_atdeath_def)
          ultimately show ?thesis
            by blast
        qed
        ultimately have "kill_result s pid (Some 0) w"
          using True w lw sub by (simp add: kill_result_def)
        then show ?thesis
          using K' False cp by simp
      next
        case own: True
        have ne: "\<not> too_early w 0"
          by (simp add: too_early_def)
        obtain x where S: "schedule w 0 = Some x" "sched_ok x" "kin (plist w) (plist x)" "scheduled w 0 x"
          using schedule_ok [OF w(1), of 0] ne by metis
        note k = kin_step [OF S(3) sched_okD(1) [OF w(1)]]
        have "proc_current s = i"
          using Suc.prems(2) il own unfolding cur_unique_def by metis
        moreover have "i \<in> desc s {j. target s pid j}"
          using t(1) by (blast intro: desc.root)
        ultimately have "kill_result s pid None x"
          using True S(2,4) sub k(2) lw fam_trans [OF lw(2) k(1)] il by (simp add: kill_result_def scheduled_def)
        moreover have "pid = cur_pid w"
          using own cp by simp
        then have "process_kill (Suc n) s pid code = Some (None, x)"
          unfolding K' by (simp only: simp_thms if_True S(1) Option.bind.simps)
        ultimately show ?thesis
          by blast
      qed
    qed
  qed
qed simp

text \<open>The dead are exactly the victim and its descendants.\<close>

lemma subtree_desc:
  assumes "sched_ok s" and "subtree s pid s'" and "target s pid i"
  shows "dies s s' = desc s {i}"
proof
  note tg = target_set [OF assms(1,3)]
  show "dies s s' \<subseteq> desc s {i}"
    using assms(2) unfolding subtree_def below_def tg by blast
  show "desc s {i} \<subseteq> dies s s'"
  proof
    fix j assume "j \<in> desc s {i}"
    then show "j \<in> dies s s'"
    proof induction
      case (root j)
      then show ?case
        using assms(2,3) by (simp add: subtree_def)
    next
      case (child k j)
      then show ?case
        using assms(2) unfolding subtree_def closed_def by (auto simp: children_def dies_def)
    qed
  qed
qed

end
