(* ===== verification/ProcessWait.thy ===== *)
theory ProcessWait
  imports ProcessKill
begin

text \<open>
  What \<open>process_wait\<close> promises: the dead child it takes, the refusals, and the wait, as a specification
  that the model refines.
\<close>

section \<open>The specification\<close>

definition dead_kid :: "sched \<Rightarrow> nat \<Rightarrow> bool" where
  "dead_kid s i \<longleftrightarrow> i < PROCESS_MAX \<and> pr_state (plist s ! i) = ZMB \<and> pr_ppid (plist s ! i) = cur_pid s \<and> 0 \<le> retcode (plist s ! i)"

definition live_kid :: "sched \<Rightarrow> nat \<Rightarrow> bool" where
  "live_kid s i \<longleftrightarrow> i < PROCESS_MAX \<and> live (plist s ! i) \<and> pr_ppid (plist s ! i) = cur_pid s"

definition first_dead :: "sched \<Rightarrow> nat \<Rightarrow> bool" where
  "first_dead s i \<longleftrightarrow> dead_kid s i \<and> (\<forall>j<i. \<not> dead_kid s j)"

definition kid :: "sched \<Rightarrow> u32 \<Rightarrow> nat \<Rightarrow> bool" where
  "kid s pid i \<longleftrightarrow> i < PROCESS_MAX \<and> pr_state (plist s ! i) \<noteq> FRE \<and> pr_pid (plist s ! i) = pid \<and> pr_ppid (plist s ! i) = cur_pid s"

text \<open>The entry is free again, its memory given back.\<close>

definition reaped :: "sched \<Rightarrow> nat \<Rightarrow> sched \<Rightarrow> bool" where
  "reaped s i s' \<longleftrightarrow> sched_ok s' \<and> (\<exists>m. s' = s\<lparr>kmem := m, plist := (plist s)[i := freed FRE (plist s ! i)]\<rparr>)"

definition wait_entry :: "int \<Rightarrow> proc \<Rightarrow> proc" where
  "wait_entry w p = p\<lparr>pr_state := SLP, wait_pid := w, sleep_to := 0\<rparr>"

definition waits :: "sched \<Rightarrow> int \<Rightarrow> bool \<Rightarrow> (wait_result \<times> sched) option \<Rightarrow> bool" where
  "waits s w bk r \<longleftrightarrow> (if bk
     then \<exists>s1 s'. becomes s (proc_current s) (wait_entry w (plist s ! proc_current s)) s1 \<and> schedule s1 0 = Some s' \<and>
       sched_ok s' \<and> scheduled s1 0 s' \<and> r = Some (Blocked, s')
     else r = Some (Returned 0 None, s))"

definition takes :: "sched \<Rightarrow> nat \<Rightarrow> (wait_result \<times> sched) option \<Rightarrow> bool" where
  "takes s i r \<longleftrightarrow> (\<exists>s'. reaped s i s' \<and>
     r = Some (Returned (sint (pr_pid (plist s ! i))) (Some (ucast (sleep_to (plist s ! i)))), s'))"

definition wait_any :: "sched \<Rightarrow> bool \<Rightarrow> (wait_result \<times> sched) option \<Rightarrow> bool" where
  "wait_any s bk r \<longleftrightarrow>
     (\<forall>i. first_dead s i \<longrightarrow> takes s i r) \<and>
     ((\<forall>i. \<not> dead_kid s i) \<longrightarrow> (if \<exists>i. live_kid s i then waits s (-1) bk r else r = Some (Returned (-1) None, s)))"

definition wait_one :: "sched \<Rightarrow> int \<Rightarrow> bool \<Rightarrow> (wait_result \<times> sched) option \<Rightarrow> bool" where
  "wait_one s pid bk r \<longleftrightarrow>
     (\<forall>i. kid s (word_of_int pid) i \<longrightarrow>
        (if pr_state (plist s ! i) = ZMB
         then \<exists>s'. reaped s i s' \<and> r = Some (Returned pid (Some (ucast (sleep_to (plist s ! i)))), s')
         else waits s pid bk r)) \<and>
     ((\<forall>i. \<not> kid s (word_of_int pid) i) \<longrightarrow> r = Some (Returned ERROR_CODE None, s))"

section \<open>The refinement\<close>

lemma reap_ok:
  assumes "sched_ok s" and "i < PROCESS_MAX" and "pr_state (plist s ! i) = ZMB"
  obtains s' where "reap s i = Some (sint (pr_pid (plist s ! i)), ucast (sleep_to (plist s ! i)), s')" "reaped s i s'"
proof -
  obtain m where R: "(i_free_process s i \<bind> (\<lambda>s. on_proc s i (\<lambda>p. p\<lparr>pr_state := FRE\<rparr>))) =
      Some (s\<lparr>kmem := m, plist := (plist s)[i := freed FRE (plist s ! i)]\<rparr>)"
    "sched_ok (s\<lparr>kmem := m, plist := (plist s)[i := freed FRE (plist s ! i)]\<rparr>)"
    by (rule reap_child_ok [OF assms])
  have "reap s i = (i_free_process s i \<bind> (\<lambda>s. on_proc s i (\<lambda>p. p\<lparr>pr_state := FRE\<rparr>))) \<bind>
      (\<lambda>t. Some (sint (pr_pid (plist s ! i)), ucast (sleep_to (plist s ! i)), t))"
    using assms(2) sched_okD(1) [OF assms(1)] by (simp add: reap_def)
  then show thesis
    using R that unfolding reaped_def by auto
qed

lemma dead_child_find:
  assumes "sched_ok s"
  shows "dead_child s = Some (find (dead_kid s) [0..<PROCESS_MAX])"
proof -
  note l = sched_okD(1,4) [OF assms]
  have "find (\<lambda>i. pr_state (plist s ! i) = ZMB \<and> pr_ppid (plist s ! i) = cur_pid s \<and> retcode (plist s ! i) \<ge> 0) [0..<PROCESS_MAX] =
      find (dead_kid s) [0..<PROCESS_MAX]"
    by (rule find_cong) (simp_all add: dead_kid_def)
  then show ?thesis
    unfolding dead_child_def cur_in [OF l(2) [folded l(1)]] Option.bind.simps l(1) by (simp only: less_irrefl if_False)
qed

lemma dead_child_cases:
  assumes "sched_ok s"
  obtains (dead) i where "dead_child s = Some (Some i)" "first_dead s i"
  | (none) "dead_child s = Some None" "\<And>i. \<not> dead_kid s i"
proof (cases "find (dead_kid s) [0..<PROCESS_MAX]")
  case None
  then have "\<not> dead_kid s i" for i
    unfolding find_None_iff by (auto simp: dead_kid_def)
  then show thesis
    using none dead_child_find [OF assms] None by simp
next
  case (Some i)
  then have "first_dead s i"
    by (auto simp: find_Some_iff first_dead_def)
  then show thesis
    using dead dead_child_find [OF assms] Some by simp
qed

lemma first_dead_unique: "first_dead s i \<Longrightarrow> first_dead s j \<Longrightarrow> j = i"
  unfolding first_dead_def by (meson linorder_neqE_nat)

lemma waits_ok:
  assumes "sched_ok s" and "proc_current s \<in> runnable (plist s)"
  shows "waits s (if pid < 0 then -1 else pid) bk
    (if \<not> bk then Some (Returned 0 None, s)
     else do {
       s \<leftarrow> on_proc s (proc_current s) (\<lambda>p. p\<lparr>pr_state := SLP, wait_pid := (if pid < 0 then -1 else pid), sleep_to := 0\<rparr>);
       s \<leftarrow> schedule (i_remove_from_shdlr_queue s (proc_current s)) 0;
       Some (Blocked, s)
     })"
proof (cases bk)
  case True
  let ?c = "proc_current s" and ?w = "if pid < 0 then -1 else pid"
  let ?p = "wait_entry ?w (plist s ! ?c)"
  let ?s1 = "i_remove_from_shdlr_queue (s\<lparr>plist := (plist s)[?c := ?p]\<rparr>) ?c"
  have B: "becomes s ?c ?p ?s1"
    by (rule block_ok [OF assms]) (simp_all add: wait_entry_def)
  then have s1: "sched_ok ?s1" and ne: "\<not> too_early ?s1 0"
    by (simp_all add: becomes_def too_early_def)
  obtain s' where S: "schedule ?s1 0 = Some s'" "sched_ok s'" "scheduled ?s1 0 s'"
    using schedule_ok [OF s1, of 0] ne by metis
  have "on_proc s ?c (wait_entry ?w) = Some (s\<lparr>plist := (plist s)[?c := ?p]\<rparr>)"
    using sched_okD(1,4) [OF assms(1)] by simp
  moreover have "(\<lambda>p. p\<lparr>pr_state := SLP, wait_pid := ?w, sleep_to := 0\<rparr>) = wait_entry ?w"
    by (simp add: wait_entry_def fun_eq_iff)
  ultimately show ?thesis
    unfolding waits_def using True B S by auto
qed (simp add: waits_def)

lemma live_kid_ex:
  assumes "sched_ok s"
  shows "list_ex (\<lambda>i. pr_ppid (plist s ! i) = cur_pid s \<and> pr_state (plist s ! i) > ZMB) [0..<PROCESS_MAX] \<longleftrightarrow> (\<exists>i. live_kid s i)"
proof -
  have "st > ZMB \<longleftrightarrow> st \<noteq> FRE \<and> st \<noteq> ZMB" for st
    by (cases st) (simp_all add: less_proc_state_def)
  then show ?thesis
    by (auto simp: list_ex_iff live_kid_def live_def)
qed

lemma process_wait_any:
  assumes "sched_ok s" and "proc_current s \<in> runnable (plist s)" and "pid < 1"
  shows "wait_any s bk (process_wait s pid bk)"
proof (cases rule: dead_child_cases [OF assms(1)])
  case (1 i)
  then have i: "i < PROCESS_MAX" "pr_state (plist s ! i) = ZMB" "dead_kid s i"
    by (auto simp: first_dead_def dead_kid_def)
  obtain s' where R: "reap s i = Some (sint (pr_pid (plist s ! i)), ucast (sleep_to (plist s ! i)), s')" "reaped s i s'"
    by (rule reap_ok [OF assms(1) i(1,2)])
  then have "process_wait s pid bk =
      Some (Returned (sint (pr_pid (plist s ! i))) (Some (ucast (sleep_to (plist s ! i)))), s')"
    using 1(1) assms(3) sched_okD(1,4) [OF assms(1)] by (simp add: process_wait_def)
  then show ?thesis
    using first_dead_unique [OF 1(2)] i(3) R(2) unfolding wait_any_def takes_def by blast
next
  case 2
  note n = 2(1) assms(3) sched_okD(1,4) [OF assms(1)]
  show ?thesis
  proof (cases "\<exists>i. live_kid s i")
    case False
    then have "process_wait s pid bk = Some (Returned (-1) None, s)"
      using n live_kid_ex [OF assms(1)] by (simp add: process_wait_def)
    then show ?thesis
      using False 2(2) by (simp add: wait_any_def first_dead_def)
  next
    case True
    then have "process_wait s pid bk = (if \<not> bk then Some (Returned 0 None, s)
        else do {
         s \<leftarrow> on_proc s (proc_current s) (\<lambda>p. p\<lparr>pr_state := SLP, wait_pid := (if (-1::int) < 0 then -1 else -1), sleep_to := 0\<rparr>);
         s \<leftarrow> schedule (i_remove_from_shdlr_queue s (proc_current s)) 0;
         Some (Blocked, s)
       })"
      using n live_kid_ex [OF assms(1)] by (simp add: process_wait_def)
    then have "waits s (-1) bk (process_wait s pid bk)"
      using waits_ok [OF assms(1,2), of "-1" bk] by simp
    then show ?thesis
      using True 2(2) by (simp add: wait_any_def first_dead_def)
  qed
qed

lemma process_wait_one:
  assumes "sched_ok s" and "proc_current s \<in> runnable (plist s)" and "1 \<le> pid"
  shows "wait_one s pid bk (process_wait s pid bk)"
proof -
  note l = sched_okD(1,4) [OF assms(1)]
  let ?w = "word_of_int pid :: u32"
  show ?thesis
  proof (cases rule: pid_to_place_cases [OF l(1), of ?w])
    case (1 j)
    show ?thesis
    proof (cases "pr_ppid (plist s ! j) = cur_pid s")
      case False
      have "\<not> kid s ?w i" for i
        using False table_ok_inject [OF sched_okD(2) [OF assms(1)] 1(2) _ 1(4), of i] 1(3) by (auto simp: kid_def)
      then show ?thesis
        using False 1 l assms(3) by (simp add: process_wait_def wait_one_def)
    next
      case True
      have k: "i = j" if "kid s ?w i" for i
        using table_ok_inject [OF sched_okD(2) [OF assms(1)] 1(2) _ 1(4), of i] 1(3) that by (auto simp: kid_def)
      have j: "kid s ?w j"
        using True 1 by (simp add: kid_def)
      show ?thesis
      proof (cases "pr_state (plist s ! j) = ZMB")
        case z: True
        obtain s' where R: "reap s j = Some (sint (pr_pid (plist s ! j)), ucast (sleep_to (plist s ! j)), s')" "reaped s j s'"
          by (rule reap_ok [OF assms(1) 1(2) z])
        then have "process_wait s pid bk = Some (Returned pid (Some (ucast (sleep_to (plist s ! j)))), s')"
          using True z 1 l assms(3) by (simp add: process_wait_def)
        then show ?thesis
          using z j k R(2) unfolding wait_one_def by (metis (no_types, lifting))
      next
        case False
        have "process_wait s pid bk =
          (if \<not> bk then Some (Returned 0 None, s)
           else do {
             s \<leftarrow> on_proc s (proc_current s) (\<lambda>p. p\<lparr>pr_state := SLP, wait_pid := (if pid < 0 then -1 else pid), sleep_to := 0\<rparr>);
             s \<leftarrow> schedule (i_remove_from_shdlr_queue s (proc_current s)) 0;
             Some (Blocked, s)
           })"
          using True False 1 l assms(3) by (simp add: process_wait_def)
        moreover have "(if pid < 0 then -1 else pid) = pid"
          using assms(3) by simp
        ultimately have "waits s pid bk (process_wait s pid bk)"
          using waits_ok [OF assms(1,2), of pid bk] by simp
        then show ?thesis
          using False j k unfolding wait_one_def by (metis (no_types, lifting))
      qed
    qed
  next
    case 2
    then have "\<not> kid s ?w i" for i
      by (auto simp: kid_def)
    then show ?thesis
      using 2 l assms(3) by (simp add: process_wait_def wait_one_def)
  qed
qed

section \<open>After the wait\<close>

text \<open>
  The first dead child is taken, unless the process was woken with its request still pending; without
  a dead child the kernel halts.
\<close>

lemma process_wait_resume_ok:
  assumes "sched_ok s"
  defines "w \<equiv> wait_pid (plist s ! proc_current s)"
  defines "s1 \<equiv> s\<lparr>plist := (plist s)[proc_current s := (plist s ! proc_current s)\<lparr>wait_pid := 0\<rparr>]\<rparr>"
  shows "sched_ok s1"
    "w = -1 \<or> 0 < w \<Longrightarrow> process_wait_resume s = Some (Returned ERROR_CODE None, s1)"
    "\<not> (w = -1 \<or> 0 < w) \<Longrightarrow> first_dead s i \<Longrightarrow> takes s1 i (process_wait_resume s)"
    "\<not> (w = -1 \<or> 0 < w) \<Longrightarrow> (\<And>i. \<not> dead_kid s i) \<Longrightarrow> process_wait_resume s = None"
proof -
  note l = sched_okD(1,4) [OF assms(1)]
  show s1: "sched_ok s1"
    unfolding s1_def by (rule sched_ok_same [OF assms(1) l(2)]) simp_all
  have same: "pr_state (plist s1 ! j) = pr_state (plist s ! j)" "pr_ppid (plist s1 ! j) = pr_ppid (plist s ! j)"
      "retcode (plist s1 ! j) = retcode (plist s ! j)" "pr_pid (plist s1 ! j) = pr_pid (plist s ! j)"
      "proc_current s1 = proc_current s" for j
    using l unfolding s1_def by (cases "j = proc_current s"; simp add: retcode_def)+
  have dk: "dead_kid s1 = dead_kid s" "first_dead s1 = first_dead s"
    unfolding first_dead_def [abs_def] dead_kid_def [abs_def] same by (rule refl)+
  have unf: "process_wait_resume s = (if w = -1 \<or> w > 0 then Some (Returned ERROR_CODE None, s1)
     else do {
       found \<leftarrow> dead_child s1;
       case found of
         Some i \<Rightarrow> do {
           (r, code, s) \<leftarrow> reap s1 i;
           Some (Returned r (Some code), s)
         }
       | None \<Rightarrow> None
     })"
    unfolding s1_def w_def using l by (simp add: process_wait_resume_def Let_def)
  show "process_wait_resume s = Some (Returned ERROR_CODE None, s1)" if "w = -1 \<or> 0 < w"
    using that unf by simp
  show "takes s1 i (process_wait_resume s)" if "\<not> (w = -1 \<or> 0 < w)" "first_dead s i"
  proof -
    have f: "first_dead s1 i"
      using that(2) dk by simp
    then have i: "i < PROCESS_MAX" "pr_state (plist s1 ! i) = ZMB" "dead_kid s1 i"
      by (auto simp: first_dead_def dead_kid_def)
    obtain s' where R: "reap s1 i = Some (sint (pr_pid (plist s1 ! i)), ucast (sleep_to (plist s1 ! i)), s')" "reaped s1 i s'"
      by (rule reap_ok [OF s1 i(1,2)])
    have "dead_child s1 = Some (Some i)"
      by (cases rule: dead_child_cases [OF s1]) (use first_dead_unique [OF f] i(3) in auto)
    then show ?thesis
      using R that(1) unf by (auto simp: takes_def)
  qed
  show "process_wait_resume s = None" if "\<not> (w = -1 \<or> 0 < w)" "\<And>i. \<not> dead_kid s i"
  proof -
    have "dead_child s1 = Some None"
      by (cases rule: dead_child_cases [OF s1]) (use that(2) dk in \<open>auto simp: first_dead_def\<close>)
    then show ?thesis
      using that(1) unf by simp
  qed
qed

end
