(* ===== verification/ScubaHeap.thy ===== *)
theory ScubaHeap
  imports ProcessInv
begin

text \<open>
  What virtual memory does to the allocator: it only adds blocks, so the directories that exist stay
  directories, and a new directory is none of them.
\<close>

definition grows :: "scuba \<Rightarrow> scuba \<Rightarrow> bool" where
  "grows m m' \<longleftrightarrow> (\<forall>bs. snow_ok (heap m) bs \<longrightarrow>
     (\<exists>bs'. snow_ok (heap m') bs' \<and> (\<forall>d. dir_block bs d \<longrightarrow> dir_block bs' d)))"

lemma grows_refl [simp]: "heap m' = heap m \<Longrightarrow> grows m m'"
  by (auto simp: grows_def)

lemma grows_trans: "grows m m' \<Longrightarrow> grows m' m'' \<Longrightarrow> grows m m''"
  unfolding grows_def by meson

lemma grows_fields [simp]:
  "grows m (put m' a x) = grows m m'" "grows m (ram_set m' p v n) = grows m m'" "grows m (ram_copy m' p q n) = grows m m'"
  "grows m (m'\<lparr>kernel_directory := kd\<rparr>) = grows m m'" "grows m (m'\<lparr>cr3 := c\<rparr>) = grows m m'"
  "grows m (m'\<lparr>paging := b\<rparr>) = grows m m'"
  by (simp_all add: grows_def put_def ram_set_def ram_copy_def)

lemma dir_block_users: "dir_block (users bs) d = dir_block bs d"
  by (auto simp: dir_block_def users_def snow_states)

lemma mem_alloc_dir_cases:
  assumes "snow_ok h bs" and "sz \<noteq> 0" and "unat sz \<le> 2 ^ 31" and "mem_alloc_dir h sz 0x1000 pid dir = Some (r, h')"
  obtains bs' where "snow_ok h' bs'" "\<And>d. dir_block bs d \<Longrightarrow> dir_block bs' d"
    "r \<noteq> 0 \<Longrightarrow> \<not> dir_block bs r" "r \<noteq> 0 \<Longrightarrow> dir = 0 \<Longrightarrow> dir_block bs' r"
proof -
  have A: "mem_alloc_func h sz SNOW_SCUBA 0x1000 pid dir = Some (r, h')"
    using assms(4) by (simp add: mem_alloc_dir_def)
  have st: "SNOW_SCUBA \<noteq> SNOW_FREE" "SNOW_SCUBA \<noteq> SNOW_BASE" "SNOW_SCUBA \<noteq> SNOW_MM"
    by (simp_all add: snow_states)
  have al: "unat (0x1000 :: u32) \<le> 2 ^ 30"
    by simp
  from mem_alloc_func_cases [OF assms(1-3) al st, of pid dir] show thesis
  proof cases
    case 1
    then show thesis
      using A by simp
  next
    case (2 s' bs')
    then have "dir_block bs' d = dir_block bs d" for d
      using dir_block_users by metis
    then show thesis
      using that [of bs'] 2 A by simp
  next
    case (3 q s' pre suf)
    have e: "q = r" "s' = h'"
      using 3(1) A by simp_all
    have d: "dir_block bs x = dir_block (pre @ suf) x" for x
      using 3(4) dir_block_users by metis
    have "distinct (map paddr (pre @ block q sz SNOW_SCUBA pid dir # suf))"
      using snow_ok_base [OF 3(6)] by metis
    then have "\<not> dir_block (pre @ suf) q"
      by (auto simp: dir_block_def)
    then show thesis
      using that [of "pre @ block q sz SNOW_SCUBA pid dir # suf"] 3(6) e d by (auto simp: dir_block_def)
  qed
qed

text \<open>Each operation.\<close>

lemma alloc_dir_grows:
  assumes "mem_alloc_dir (heap m) sz 0x1000 pid dir = Some (r, h)" and "sz \<noteq> 0" and "unat sz \<le> 2 ^ 31"
  shows "grows m (m'\<lparr>heap := h\<rparr>)"
  unfolding grows_def
proof (intro allI impI)
  fix bs assume "snow_ok (heap m) bs"
  then show "\<exists>bs'. snow_ok (heap (m'\<lparr>heap := h\<rparr>)) bs' \<and> (\<forall>d. dir_block bs d \<longrightarrow> dir_block bs' d)"
    by (rule mem_alloc_dir_cases [OF _ assms(2,3,1)]) auto
qed

lemma allign_calloc_grows:
  assumes "i_allign_calloc m sz dir = Some (r, m')" and "unat sz \<le> 2 ^ 31"
  shows "grows m m'"
proof (cases "sz = 0")
  case True
  then show ?thesis
    using assms(1) by (auto simp: i_allign_calloc_def mem_alloc_dir_def mem_alloc_func_def Option.bind_eq_Some_conv)
next
  case False
  obtain p h' where A: "mem_alloc_dir (heap m) sz 0x1000 p dir = Some (r, h')" "heap m' = h'"
    using assms(1) by (auto simp: i_allign_calloc_def Option.bind_eq_Some_conv ram_set_def split: if_splits)
  show ?thesis
    using alloc_dir_grows [OF A(1) False assms(2)] A(2) by (simp add: grows_def)
qed

lemma TABLE_BYTES_small: "unat TABLE_BYTES \<le> 2 ^ 31" "DIR_BYTES \<noteq> 0" "unat DIR_BYTES \<le> 2 ^ 31"
  by (simp_all add: TABLE_BYTES_def DIR_BYTES_def)

lemma calloc_table_grows: "calloc_table m dir = Some (r, m') \<Longrightarrow> grows m m'"
  by (auto simp: calloc_table_def Option.bind_eq_Some_conv dest!: allign_calloc_grows [OF _ TABLE_BYTES_small(1)])

lemma directory_create_ok:
  assumes "i_directory_create m pid = Some (dir, m')" and "snow_ok (heap m) bs"
  obtains bs' where "snow_ok (heap m') bs'" "\<And>d. dir_block bs d \<Longrightarrow> dir_block bs' d" "\<not> dir_block bs dir" "dir_block bs' dir" "dir \<noteq> 0"
proof -
  obtain h' where A: "mem_alloc_dir (heap m) DIR_BYTES 0x1000 (sint pid) 0 = Some (dir, h')" "heap m' = h'" "dir \<noteq> 0"
    using assms(1) by (auto simp: i_directory_create_def Option.bind_eq_Some_conv put_def split: if_splits)
  show thesis
    by (rule mem_alloc_dir_cases [OF assms(2) TABLE_BYTES_small(2,3) A(1)]) (use that A in auto)
qed

lemma set_entry_grows: "set_entry m dir i f = Some m' \<Longrightarrow> heap m' = heap m"
  by (auto simp: set_entry_def Option.bind_eq_Some_conv put_def)

lemma set_page_grows: "set_page m t v p k = Some m' \<Longrightarrow> heap m' = heap m"
  by (auto simp: set_page_def Option.bind_eq_Some_conv put_def)

lemma grows_heap: "heap m' = heap m'' \<Longrightarrow> grows m m'' \<Longrightarrow> grows m m'"
  by (simp add: grows_def)

lemma map_func_grows:
  assumes "scuba_map_func m dir v p k = Some (r, m')"
  shows "grows m m'"
  using assms unfolding scuba_map_func_def Let_def
  by (auto simp: Option.bind_eq_Some_conv split: if_splits option.splits dest!: set_entry_grows set_page_grows calloc_table_grows
      intro: grows_heap)

lemma map_pages_grows: "map_pages m dir v p n = Some (r, m') \<Longrightarrow> grows m m'"
proof (induction m dir v p n arbitrary: r m' rule: map_pages.induct)
  case (2 m dir v p n)
  then obtain r1 m1 where F: "scuba_map_func m dir v p 0 = Some (r1, m1)"
    "(if r1 \<noteq> 0 then Some (r1, m1) else map_pages m1 dir (v + 0x1000) (p + 0x1000) n) = Some (r, m')"
    by (auto simp: Option.bind_eq_Some_conv)
  then show ?case
    using map_func_grows [OF F(1)] 2(1) grows_trans by (auto split: if_splits)
qed simp

lemma create_virtual_grows:
  assumes "scuba_create_virtual m dir v n = Some (r, m')" and "unat (0x1000 * n) \<le> 2 ^ 31"
  shows "grows m m'"
  using assms by (auto simp: scuba_create_virtual_def Option.bind_eq_Some_conv split: if_splits
      dest!: map_pages_grows intro: grows_trans [OF allign_calloc_grows])

lemma copy_pages_grows: "copy_pages m nd t nt j n = Some m' \<Longrightarrow> grows m m'"
proof (induction n arbitrary: m j)
  case (Suc n)
  have page: "grows m1 m'" if "mem_alloc_dir (heap m1) 0x1000 0x1000 p nd = Some (d, h)"
      "copy_pages (put (ram_copy (m2\<lparr>heap := h\<rparr>) d a 0x1000) nt x) nd t nt (Suc j) n = Some m'" for m1 m2 p d h a x
    by (rule grows_trans [OF alloc_dir_grows [OF that(1), of m2]])
      (use Suc.IH [OF that(2)] in \<open>simp_all add: grows_def put_def ram_copy_def\<close>)
  have skip: "grows m m'" if "copy_pages (put m nt x) nd t nt (Suc j) n = Some m'" for x
    using Suc.IH [OF that] by (simp add: grows_def put_def)
  have "heap (put m nt x) = heap m" for x
    by (simp add: put_def)
  then show ?case
    using Suc.prems
    by (auto simp: Option.bind_eq_Some_conv Let_def split: if_splits intro: page skip)
qed simp

lemma set_entry_ok: "set_entry m dir i f = Some m' \<Longrightarrow> grows m m'"
  by (simp add: set_entry_grows)

lemma copy_tables_grows: "copy_tables m dir nd i n = Some m' \<Longrightarrow> grows m m'"
proof (induction n arbitrary: m i)
  case (Suc n)
  then show ?case
    by (auto simp: Option.bind_eq_Some_conv split: if_splits dest!: set_entry_ok calloc_table_grows copy_pages_grows Suc.IH
        intro: grows_trans)
qed simp

section \<open>New directories\<close>

definition new_dir_ok :: "scuba \<Rightarrow> u32 \<Rightarrow> scuba \<Rightarrow> bool" where
  "new_dir_ok m dir m' \<longleftrightarrow> dir \<noteq> 0 \<and> (\<forall>bs. snow_ok (heap m) bs \<longrightarrow>
     (\<exists>bs'. snow_ok (heap m') bs' \<and> (\<forall>d. dir_block bs d \<longrightarrow> dir_block bs' d) \<and> \<not> dir_block bs dir \<and> dir_block bs' dir))"

lemma directory_create_new: "i_directory_create m pid = Some (dir, m') \<Longrightarrow> new_dir_ok m dir m'"
  unfolding new_dir_ok_def
proof (intro conjI allI impI)
  assume a: "i_directory_create m pid = Some (dir, m')"
  then show "dir \<noteq> 0"
    by (auto simp: i_directory_create_def Option.bind_eq_Some_conv split: if_splits)
  fix bs assume "snow_ok (heap m) bs"
  then show "\<exists>bs'. snow_ok (heap m') bs' \<and> (\<forall>d. dir_block bs d \<longrightarrow> dir_block bs' d) \<and> \<not> dir_block bs dir \<and> dir_block bs' dir"
    by (rule directory_create_ok [OF a]) blast
qed

lemma new_dir_grows: "new_dir_ok m dir m' \<Longrightarrow> grows m' m'' \<Longrightarrow> new_dir_ok m dir m''"
  unfolding new_dir_ok_def grows_def by meson

lemma new_dir_fields [simp]:
  "new_dir_ok m dir (put m' a x) = new_dir_ok m dir m'" "new_dir_ok m dir (ram_set m' p v n) = new_dir_ok m dir m'"
  "new_dir_ok m dir (ram_copy m' p q n) = new_dir_ok m dir m'"
  by (simp_all add: new_dir_ok_def put_def ram_set_def ram_copy_def)

lemma run_heap_page: "unat (0x1000 * (RUN_HEAP_SIZE div 0x1000)) \<le> 2 ^ 31"
  by (simp add: RUN_HEAP_SIZE_def)

lemma dir_inited_new:
  assumes "scuba_dir_inited m parent pid = Some (dir, m')"
  shows "new_dir_ok m dir m'"
proof -
  have page: "new_dir_ok m dir m2" if "i_directory_create m pid = Some (dir, m1)"
      "scuba_create_virtual (put m1 dir x) dir RUN_HEAP_ADDR (RUN_HEAP_SIZE div 0x1000) = Some (addr, m2)" for m1 x addr m2
    by (rule new_dir_grows [OF _ create_virtual_grows [OF that(2) run_heap_page]]) (simp add: directory_create_new [OF that(1)])
  show ?thesis
    using assms by (auto simp: scuba_dir_inited_def Let_def Option.bind_eq_Some_conv split: if_splits intro: page)
qed

lemma dir_copy_new: "scuba_dir_copy m parent pid = Some (dir, m') \<Longrightarrow> new_dir_ok m dir m'"
  by (auto simp: scuba_dir_copy_def Option.bind_eq_Some_conv dest!: directory_create_new copy_tables_grows intro: new_dir_grows)

end
