(* ===== verification/ProcessCreate.thy ===== *)
theory ProcessCreate
  imports ProcessCalls ProcessWait ScubaHeap
begin

text \<open>
  Creation of processes: one free entry becomes a sleeping process with a number of its own and an
  address space of its own, and the start-up reaches the invariant of the scheduler.
\<close>

section \<open>One new entry\<close>

definition newborn :: "sched \<Rightarrow> nat \<Rightarrow> proc \<Rightarrow> scuba \<Rightarrow> bool" where
  "newborn s i p m \<longleftrightarrow> i < PROCESS_MAX \<and> pr_state (plist s ! i) = FRE \<and> pr_pid p = pid_incrament s + 1 \<and> pr_ppid p = cur_pid s \<and>
     pr_state p = SLP \<and> sleep_to p = 0 \<and> wait_pid p = 0 \<and> new_dir_ok (kmem s) (scuba_dir p) m"

definition born :: "sched \<Rightarrow> nat \<Rightarrow> proc \<Rightarrow> scuba \<Rightarrow> sched" where
  "born s i p m = s\<lparr>pid_incrament := pid_incrament s + 1, kmem := m, plist := (plist s)[i := p]\<rparr>"

lemma new_dir_ram [simp]: "new_dir_ok m d (ram_put32 m' a v) = new_dir_ok m d m'"
  "new_dir_ok m d (push_args m' a vs) = new_dir_ok m d m'"
proof -
  show r: "new_dir_ok m d (ram_put32 m' a v) = new_dir_ok m d m'" for m' a v
    by (simp add: new_dir_ok_def ram_put32_def)
  show "new_dir_ok m d (push_args m' a vs) = new_dir_ok m d m'"
    by (induction vs arbitrary: m' a) (simp_all add: r)
qed

lemma place_loop_Some:
  "place_loop P ps is = Some v \<Longrightarrow> v \<noteq> ERROR_CODE \<Longrightarrow> \<exists>i<PROCESS_MAX. v = int i \<and> i < length ps \<and> P (ps ! i)"
proof (induction "is")
  case (Cons k "is")
  have "nat (k mod int PROCESS_MAX) < PROCESS_MAX" "int (nat (k mod int PROCESS_MAX)) = k mod int PROCESS_MAX"
    by (simp_all add: PROCESS_MAX_def nat_less_iff)
  then show ?case
    using Cons by (auto simp: Option.bind_eq_Some_conv rd_eq_Some split: if_splits)
qed simp

lemma set_name_fields:
  "set_name n p = Some q \<Longrightarrow> \<exists>nm. q = p\<lparr>pr_name := nm\<rparr>"
  by (auto simp: set_name_def Option.bind_eq_Some_conv)

lemma stack_pages: "unat (0x1000 * (PROC_ESP_SIZE div 0x1000)) \<le> 2 ^ 31"
  by (simp add: PROC_ESP_SIZE_def)

text \<open>The address space of the new process.\<close>

definition address_space :: "scuba \<Rightarrow> bool \<Rightarrow> u32 \<Rightarrow> u32 \<Rightarrow> (u32 \<times> u32 \<times> scuba) option" where
  "address_space m copy_page parent pid = (if copy_page then do {
            (dir, m) \<leftarrow> scuba_dir_copy m parent pid;
            phys_stack \<leftarrow> scuba_get_phys m dir PROC_ESP_ADDR;
            Some (dir, phys_stack, m)
          }
          else do {
            (dir, m) \<leftarrow> scuba_dir_inited m parent pid;
            (phys_stack, m) \<leftarrow> scuba_create_virtual m dir PROC_ESP_ADDR (PROC_ESP_SIZE div 0x1000);
            Some (dir, phys_stack, m)
          })"

lemma address_space_new: "address_space m c parent pid = Some (dir, st, m') \<Longrightarrow> new_dir_ok m dir m'"
  by (auto simp: address_space_def Option.bind_eq_Some_conv split: if_splits dest!: dir_copy_new dir_inited_new
      intro: new_dir_grows create_virtual_grows [OF _ stack_pages])

lemma create_func_cases:
  assumes "process_create_func fj s func copy_page args kern = Some (r, s')" and "proc_current s < length (plist s)"
    and "pr_state (plist s ! proc_current s) \<noteq> FRE"
  obtains (full) "r = None" "s' = s" "i_get_free_place (plist s) (sint (pid_incrament s + 1)) = Some ERROR_CODE"
  | (born) i p m where "r = Some i" "newborn s i p m" "i < length (plist s)" "s' = born s i p m"
      "i_get_free_place (plist s) (sint (pid_incrament s + 1)) = Some (int i)"
proof -
  obtain v where v: "i_get_free_place (plist s) (sint (pid_incrament s + 1)) = Some v"
    using assms(1) by (auto simp: process_create_func_def Option.bind_eq_Some_conv)
  show thesis
  proof (cases "v = ERROR_CODE")
    case True
    then show thesis
      using full assms(1) v by (simp add: process_create_func_def)
  next
    case False
    obtain i where i: "v = int i" "i < PROCESS_MAX" "i < length (plist s)" "pr_state (plist s ! i) = FRE"
      using place_loop_Some [OF v [unfolded i_get_free_place_def] False] by blast
    then have ne: "i \<noteq> proc_current s"
      using assms(3) by blast
    let ?c = "plist s ! proc_current s" and ?pid = "pid_incrament s + 1"
    let ?n = "word_of_nat (length args + 1) :: u32"
    define fill where "fill p0 dir = i_new_process (p0\<lparr>pr_pid := ?pid, pr_ppid := pr_pid ?c, in_kernel := kern, pr_state := SLP,
      scuba_dir := dir\<rparr>) func (eflags (regs ?c)) dir" for p0 dir
    have E: "process_create_func fj s func copy_page args kern = do {
        p0 \<leftarrow> set_name name_child zero_proc;
        (dir, st, m) \<leftarrow> address_space (kmem s) copy_page (scuba_dir ?c) ?pid;
        if func = 0 then Some (Some i, born s i (fill p0 dir) m)
        else do {
          let top = st + PROC_ESP_SIZE - 4 * ?n;
          let m = ram_put32 (push_args m (top + 4) args) top fj;
          Some (Some i, born s i ((fill p0 dir)\<lparr>regs := (regs (fill p0 dir))\<lparr>esp := PROC_ESP_ADDR + PROC_ESP_SIZE - ?n * 4\<rparr>\<rparr>) m)
        }
      }"
      using assms(2) v i ne False
      by (simp add: process_create_func_def address_space_def [symmetric] cur_def on_proc_def fill_def born_def Let_def
          i_new_process_def ERROR_CODE_def split del: if_split cong: if_cong)
    obtain p0 dir st m where A: "set_name name_child zero_proc = Some p0"
      "address_space (kmem s) copy_page (scuba_dir ?c) ?pid = Some (dir, st, m)"
      using assms(1) unfolding E by (auto simp: Option.bind_eq_Some_conv)
    obtain nm where nm: "p0 = zero_proc\<lparr>pr_name := nm\<rparr>"
      using set_name_fields [OF A(1)] by blast
    have N: "newborn s i p m'" if "p = (fill p0 dir)\<lparr>regs := rg\<rparr>" "new_dir_ok (kmem s) dir m'" for p m' rg
      using that i by (simp add: newborn_def fill_def nm i_new_process_def zero_proc_def)
    have "fill p0 dir = (fill p0 dir)\<lparr>regs := regs (fill p0 dir)\<rparr>"
      by simp
    note N0 = N [OF this address_space_new [OF A(2)]]
    show thesis
    proof (cases "func = 0")
      case True
      then show thesis
        using born [OF _ N0 i(3)] assms(1) v i(1) unfolding E by (simp add: A)
    next
      case False
      define top where "top = st + PROC_ESP_SIZE - 4 * ?n"
      let ?m = "ram_put32 (push_args m (top + 4) args) top fj"
      let ?p = "(fill p0 dir)\<lparr>regs := (regs (fill p0 dir))\<lparr>esp := PROC_ESP_ADDR + PROC_ESP_SIZE - ?n * 4\<rparr>\<rparr>"
      have "new_dir_ok (kmem s) dir ?m"
        using address_space_new [OF A(2)] by simp
      note N1 = N [OF refl this]
      have "process_create_func fj s func copy_page args kern = Some (Some i, born s i ?p ?m)"
        unfolding E using False by (simp add: A Let_def top_def)
      then show thesis
        using born [OF _ N1 i(3)] assms(1) v i(1) by simp
    qed
  qed
qed

text \<open>The invariant.\<close>

lemma born_plist: "i < length (plist s) \<Longrightarrow> plist (born s i p m) ! j = (if j = i then p else plist s ! j)"
  by (simp add: born_def)

lemma born_mem:
  assumes "mem_ok s" and "newborn s i p m" and "i < length (plist s)"
  shows "mem_ok (born s i p m)"
proof -
  obtain bs where bs: "snow_ok (heap (kmem s)) bs" "dirs_ok (plist s) bs"
    using assms(1) by (auto simp: mem_ok_def)
  obtain bs' where bs': "snow_ok (heap m) bs'" "\<And>d. dir_block bs d \<Longrightarrow> dir_block bs' d" "\<not> dir_block bs (scuba_dir p)"
      "dir_block bs' (scuba_dir p)"
    using assms(2) bs(1) unfolding newborn_def new_dir_ok_def by blast
  have old: "dir_block bs (scuba_dir (plist s ! j))" if "j < PROCESS_MAX" "scuba_dir (plist s ! j) \<noteq> 0" for j
    using bs(2) that by (simp add: dirs_ok_def)
  have "dirs_ok (plist (born s i p m)) bs'"
    unfolding dirs_ok_def
  proof (intro allI impI conjI)
    fix j assume j: "j < PROCESS_MAX" "scuba_dir (plist (born s i p m) ! j) \<noteq> 0"
    show "dir_block bs' (scuba_dir (plist (born s i p m) ! j))"
      using j bs'(2,4) old [of j] by (auto simp: born_plist [OF assms(3)])
    fix k assume k: "k < PROCESS_MAX" "k \<noteq> j"
    have "scuba_dir (plist s ! k) \<noteq> scuba_dir (plist s ! j)" if "scuba_dir (plist s ! j) \<noteq> 0"
      using bs(2) j(1) k that unfolding dirs_ok_def by blast
    moreover have "scuba_dir (plist s ! x) \<noteq> scuba_dir p" if "x < PROCESS_MAX" for x
      using old [OF that] bs'(3) assms(2) by (auto simp: newborn_def new_dir_ok_def)
    ultimately show "scuba_dir (plist (born s i p m) ! k) \<noteq> scuba_dir (plist (born s i p m) ! j)"
      using j k unfolding born_plist [OF assms(3)] by metis
  qed
  then show ?thesis
    using bs'(1) by (auto simp: mem_ok_def born_def)
qed

lemma born_ok:
  assumes "sched_ok s" and "newborn s i p m" and "\<And>j. j < PROCESS_MAX \<Longrightarrow> pr_pid (plist s ! j) \<noteq> pid_incrament s + 1"
  shows "sched_ok (born s i p m)"
proof -
  note l = sched_okD(1) [OF assms(1)] and b = assms(2) [unfolded newborn_def]
  let ?t = "born s i p m"
  have il: "i < length (plist s)"
    using b l by simp
  note nth = born_plist [OF il]
  have "table_ok (plist ?t)"
    unfolding table_ok_def
  proof (intro conjI allI impI)
    show "length (plist ?t) = PROCESS_MAX"
      using l by (simp add: born_def)
    fix j k
    assume a: "j < PROCESS_MAX" "k < PROCESS_MAX" "pr_state (plist ?t ! j) \<noteq> FRE" "pr_state (plist ?t ! k) \<noteq> FRE"
      "pr_pid (plist ?t ! j) = pr_pid (plist ?t ! k)"
    show "j = k"
    proof (cases "j = i \<or> k = i")
      case True
      then show ?thesis
        using a b assms(3) [of j] assms(3) [of k] unfolding nth by (metis)
    next
      case False
      then show ?thesis
        using a table_ok_inject [OF sched_okD(2) [OF assms(1)], of j k] unfolding nth by simp
    qed
  qed
  moreover have r: "runnable (plist ?t) = runnable (plist s)" "sleepers (plist ?t) = sleepers (plist s)"
    using b nth by (auto simp: in_runnable in_sleepers split: if_splits)
  moreover have "queue_ok ?t"
    using sched_okD(5,6) [OF assms(1)] r by (simp add: queue_ok_def born_def)
  moreover have "earliest (plist ?t) (sleepers (plist s)) = earliest (plist s) (sleepers (plist s))"
    using b by (simp add: born_def in_sleepers)
  then have "sleep_ok ?t"
    using sched_okD(7-9) [OF assms(1)] r by (simp add: sleep_ok_def born_def)
  moreover have "base_ok ?t"
  proof -
    have "proc_current ?t = proc_current s"
      by (simp add: born_def)
    moreover have "base_ok s"
      using assms(1) by (simp add: sched_ok_def)
    ultimately show ?thesis
      using b unfolding base_ok_def nth by auto
  qed
  moreover have "mem_ok ?t"
    using born_mem [OF _ assms(2) il] assms(1) by (simp add: sched_ok_def)
  ultimately show ?thesis
    by (simp add: sched_ok_def)
qed

section \<open>The three ways to create a process\<close>

definition bears :: "sched \<Rightarrow> sched \<Rightarrow> bool" where
  "bears s s' \<longleftrightarrow> s' = s \<or> (\<exists>i p m. newborn s i p m \<and> i < length (plist s) \<and> s' = born s i p m)"

definition has_current :: "sched \<Rightarrow> bool" where
  "has_current s \<longleftrightarrow> proc_current s < length (plist s) \<and> pr_state (plist s ! proc_current s) \<noteq> FRE"

lemma create_func_bears:
  assumes "process_create_func fj s func c args kern = Some (r, s')" and "has_current s"
  shows "bears s s'"
  by (cases rule: create_func_cases [OF assms(1)]) (use assms(2) in \<open>auto simp: has_current_def bears_def\<close>)

lemma pid_or_error_state: "pid_or_error r = Some (v, s) \<Longrightarrow> \<exists>x. r = Some (x, s)"
  by (auto simp: pid_or_error_def Option.bind_eq_Some_conv split: option.splits)

lemma create_bears:
  assumes "has_current s"
  shows "process_create fj s func c args = Some (v, s') \<Longrightarrow> bears s s'"
    "process_create_user fj s func args = Some (v, s') \<Longrightarrow> bears s s'"
  using create_func_bears [OF _ assms] by (auto simp: process_create_def process_create_user_def dest!: pid_or_error_state)

lemma fork_bears:
  assumes "process_fork fj s rg = Some (v, s')" and "has_current s"
  shows "bears s s'"
proof -
  obtain r t where F: "process_create_func fj s 0 True [] 0 = Some (r, t)"
    using assms(1) by (auto simp: process_fork_def Option.bind_eq_Some_conv)
  have c: "proc_current s < length (plist s)" "pr_state (plist s ! proc_current s) \<noteq> FRE"
    using assms(2) by (simp_all add: has_current_def)
  show ?thesis
  proof (cases rule: create_func_cases [OF F c])
    case 1
    then show ?thesis
      using assms(1) F by (simp add: process_fork_def bears_def)
  next
    case (2 i p m)
    define q where "q = p\<lparr>regs := (regs p)\<lparr>eax := eax rg, ebx := ebx rg, ecx := ecx rg, edx := edx rg,
                esi := esi rg, edi := edi rg, eip := eip rg, esp := esp rg + 20, ebp := ebp rg, eflags := eflags rg\<rparr>\<rparr>"
    have "s' = born s i q m"
      using assms(1) F 2 by (simp add: process_fork_def on_proc_def born_def q_def)
    moreover have "newborn s i q m"
      using 2(2) by (simp add: newborn_def q_def)
    ultimately show ?thesis
      using 2(3) unfolding bears_def by blast
  qed
qed

section \<open>The start\<close>

lemma place_order_hd: "place_order ideal = (int PROCESS_MAX + ideal) # tl (place_order ideal)"
  by (simp add: place_order_def PROCESS_MAX_def upt_conv_Cons)

text \<open>A table with the kernel and the idle process only.\<close>

lemma kernel_and_idle:
  assumes "plist s = k # idle # replicate 198 zero_proc" and "pr_pid k = 0" and "pr_state k = RUN" and "sleep_to k = 0"
    and "pr_pid idle = 1" and "pr_state idle = IDL" and "proc_current s = 0" and "shdlr_queue s = [0]" and "tsleep_list s = []"
    and "tsleep_interact s = 0" and "mem_ok s"
  shows "sched_ok s" "on_cpu s"
proof -
  have nth: "plist s ! i = (if i = 0 then k else if i = 1 then idle else zero_proc)" if "i < PROCESS_MAX" for i
    using that assms(1) by (auto simp: nth_Cons' PROCESS_MAX_def)
  have z: "pr_state zero_proc = FRE"
    by (simp add: zero_proc_def)
  have "table_ok (plist s)"
    using assms z nth by (auto simp: table_ok_def) (simp add: PROCESS_MAX_def)
  moreover have "i \<in> runnable (plist s) \<longleftrightarrow> i = 0" "i \<notin> sleepers (plist s)" for i
    using nth [of i] assms(3,4,6) z PROCESS_MAX_def by (auto simp: in_runnable in_sleepers split: if_splits)
  then have "runnable (plist s) = {0}" "sleepers (plist s) = {}"
    by auto
  moreover have "base_ok s"
  proof -
    have "pr_state (plist s ! i) = IDL \<longleftrightarrow> i = 1" "i \<noteq> 0 \<Longrightarrow> pr_state (plist s ! i) \<noteq> RUN" if "i < PROCESS_MAX" for i
      unfolding nth [OF that] using assms(3,6) z by simp_all
    moreover have "plist s ! 0 = k" "(0 :: nat) < PROCESS_MAX"
      using assms(1) by (simp_all add: PROCESS_MAX_def)
    ultimately show ?thesis
      using assms(2,3,7) by (simp add: base_ok_def)
  qed
  ultimately show "sched_ok s"
    using assms by (simp add: sched_ok_def queue_ok_def sleep_ok_def earliest_def)
  show "on_cpu s"
    using assms by (simp add: on_cpu_def)
qed

lemma process_init_ok:
  assumes "process_init fj m fl t0 idle = Some s" and "snow_ok (heap m) bs" and "dir_block bs (kernel_directory m)"
  shows "sched_ok s" "on_cpu s" "pid_incrament s = 1" "map pr_pid (plist s) = 0 # 1 # replicate 198 0"
proof -
  obtain k0 where k0: "set_name name_kernel zero_proc = Some k0"
    using assms(1) by (auto simp: process_init_def Option.bind_eq_Some_conv)
  obtain nm where nm: "k0 = zero_proc\<lparr>pr_name := nm\<rparr>"
    using set_name_fields [OF k0] by blast
  define k where "k = k0\<lparr>pr_state := RUN, pr_ppid := 0, pr_pid := 0, regs := (regs k0)\<lparr>rcr3 := cr3 m, eflags := fl\<rparr>,
    scuba_dir := kernel_directory m\<rparr>"
  define s1 where "s1 = \<lparr>plist = k # replicate (PROCESS_MAX - 1) zero_proc, proc_current = 0, pid_incrament = 0, last_switch = 0,
              tsleep_list = [], tsleep_interact = 0, shdlr_queue = [0], queue_index = 0, need_clean = False,
              ticks = t0, kmem = m, died = []\<rparr>"
  have k: "pr_pid k = 0" "pr_state k = RUN" "sleep_to k = 0" "scuba_dir k = kernel_directory m"
    by (simp_all add: k_def nm zero_proc_def)
  have ps: "plist s1 = k # zero_proc # replicate 198 zero_proc"
    by (simp add: s1_def PROCESS_MAX_def eval_nat_numeral)
  obtain v s2 p where C: "process_create fj s1 idle False [] = Some (v, s2)"
      "on_proc s2 1 (\<lambda>_. p\<lparr>pr_state := IDL, in_kernel := 0\<rparr>) = Some s"
    and p: "\<exists>p2 nm. rd (plist s2) 1 = Some p2 \<and> p = p2\<lparr>pr_name := nm\<rparr>"
  proof -
    have E: "process_init fj m fl t0 idle = do {
        (_, s) \<leftarrow> process_create fj s1 idle False [];
        p \<leftarrow> rd (plist s) 1;
        p \<leftarrow> set_name name_idle p;
        on_proc s 1 (\<lambda>_. p\<lparr>pr_state := IDL, in_kernel := 0\<rparr>)
      }"
      by (simp add: process_init_def k0 Let_def i_add_to_shdlr_queue_def on_proc_def s1_def k_def PROCESS_MAX_def)
    obtain v s2 p2 p where "process_create fj s1 idle False [] = Some (v, s2)" "rd (plist s2) 1 = Some p2"
        "set_name name_idle p2 = Some p" "on_proc s2 1 (\<lambda>_. p\<lparr>pr_state := IDL, in_kernel := 0\<rparr>) = Some s"
      using assms(1) unfolding E by (auto simp: Option.bind_eq_Some_conv)
    then show thesis
      using that set_name_fields by blast
  qed
  have hc: "proc_current s1 < length (plist s1)" "pr_state (plist s1 ! proc_current s1) \<noteq> FRE"
    using k(2) by (simp_all add: s1_def)
  have place1: "i_get_free_place (plist s1) (sint (pid_incrament s1 + 1)) = Some 1"
  proof -
    have "place_loop P (plist s1) (place_order 1) = Some 1" if "P zero_proc" for P
      by (subst place_order_hd) (simp add: ps that PROCESS_MAX_def)
    then show ?thesis
      by (simp add: i_get_free_place_def s1_def zero_proc_def PROCESS_MAX_def)
  qed
  have "scuba_dir (plist s1 ! i) = (if i = 0 then kernel_directory m else 0)" if "i < PROCESS_MAX" for i
    using that k(4) by (auto simp: ps nth_Cons' zero_proc_def PROCESS_MAX_def)
  then have "dirs_ok (plist s1) bs"
    using assms(3) by (simp add: dirs_ok_def)
  then have m1: "mem_ok s1"
    using assms(2) by (auto simp: mem_ok_def s1_def)
  obtain x where F: "process_create_func fj s1 idle False [] 1 = Some (x, s2)"
    using C(1) by (auto simp: process_create_def dest!: pid_or_error_state)
  obtain q m' where B: "newborn s1 1 q m'" "s2 = born s1 1 q m'"
    by (rule create_func_cases [OF F hc]) (use place1 in \<open>auto simp: ERROR_CODE_def\<close>)
  have i1: "1 < length (plist s1)"
    by (simp add: ps)
  have p2: "plist s2 = k # q # replicate 198 zero_proc"
    using B(2) ps by (simp add: born_def)
  obtain nm2 where p: "p = q\<lparr>pr_name := nm2\<rparr>"
    using p by (auto simp: p2)
  have s: "s = s2\<lparr>plist := k # p\<lparr>pr_state := IDL, in_kernel := 0\<rparr> # replicate 198 zero_proc\<rparr>"
    using C(2) by (simp add: on_proc_def p2)
  have "scuba_dir (plist s ! i) = scuba_dir (plist s2 ! i)" for i
    by (simp add: s p p2 nth_Cons')
  then have "mem_ok s"
    using mem_ok_cong [OF born_mem [OF m1 B(1) i1] _, of s] B(2) s by simp
  moreover have "pr_pid q = 1"
    using B(1) by (simp add: newborn_def s1_def)
  ultimately show "sched_ok s" "on_cpu s"
    using k B(2) by (intro kernel_and_idle [of s k "p\<lparr>pr_state := IDL, in_kernel := 0\<rparr>"]; simp add: s p born_def s1_def)+
  show "pid_incrament s = 1"
    by (simp add: s B(2) born_def s1_def)
  show "map pr_pid (plist s) = 0 # 1 # replicate 198 0"
    using k(1) B(1) by (simp add: s p newborn_def s1_def zero_proc_def)
qed

end
