(* ===== verification/KernelFrame.thy ===== *)
theory KernelFrame
  imports ProcessCreate
begin

text \<open>
  The numbers of the processes: no operation but the creation changes the number of an entry or the
  counter the next number comes from.
\<close>

definition num :: "sched \<Rightarrow> u32 \<times> u32 list" where
  "num s = (pid_incrament s, map pr_pid (plist s))"

named_theorems pids \<open>operations that keep the numbers\<close>

lemma num_fields [simp]:
  "num (t\<lparr>kmem := m\<rparr>) = num t" "num (t\<lparr>tsleep_list := ts\<rparr>) = num t"
  "num (t\<lparr>tsleep_interact := e\<rparr>) = num t" "num (t\<lparr>shdlr_queue := q\<rparr>) = num t"
  "num (t\<lparr>need_clean := b\<rparr>) = num t" "num (t\<lparr>queue_index := i\<rparr>) = num t"
  "num (t\<lparr>last_switch := x\<rparr>) = num t" "num (t\<lparr>proc_current := c\<rparr>) = num t"
  "num (t\<lparr>died := d\<rparr>) = num t" "num (t\<lparr>ticks := x\<rparr>) = num t"
  by (simp_all add: num_def)

lemma on_proc_pids: "on_proc s i f = Some t \<Longrightarrow> (\<And>p. pr_pid (f p) = pr_pid p) \<Longrightarrow> num t = num s"
  by (auto simp: on_proc_def Option.bind_eq_Some_conv rd_eq_Some num_def map_update)
     (metis list_update_id map_update nth_map)

lemma on_proc_pids' [pids]: "on_proc s i f = Some t \<Longrightarrow> \<forall>p. pr_pid (f p) = pr_pid p \<Longrightarrow> num t = num s"
  by (erule on_proc_pids) simp

lemma switch_pids: "i_process_switch s a b = Some t \<Longrightarrow> num t = num s"
  by (auto simp: i_process_switch_def Option.bind_eq_Some_conv dest!: on_proc_pids')

lemma add_queue_pids: "i_add_to_shdlr_queue s i = Some t \<Longrightarrow> num t = num s"
  by (auto simp: i_add_to_shdlr_queue_def split: if_splits)

lemma remove_queue_pids [simp]: "num (i_remove_from_shdlr_queue t i) = num t"
  by (simp add: i_remove_from_shdlr_queue_def)

lemma refresh_pids: "i_refresh_tsleep_interact s = Some t \<Longrightarrow> num t = num s"
  by (auto simp: i_refresh_tsleep_interact_def Option.bind_eq_Some_conv)

lemma free_process_pids: "i_free_process s i = Some t \<Longrightarrow> num t = num s"
  by (auto simp: i_free_process_def Option.bind_eq_Some_conv split: if_splits dest!: on_proc_pids')

lemma clean_loop_pids: "clean_loop s is = Some t \<Longrightarrow> num t = num s"
  by (induction "is" arbitrary: s) (auto simp: Option.bind_eq_Some_conv split: if_splits dest!: free_process_pids)

lemma clean_killed_pids: "i_clean_killed s = Some t \<Longrightarrow> num t = num s"
  by (auto simp: i_clean_killed_def dest!: clean_loop_pids)

lemma awake_loop_pids: "awake_loop s t i n = Some s' \<Longrightarrow> num s' = num s"
  by (induction n arbitrary: s i) (auto simp: Option.bind_eq_Some_conv split: if_splits dest!: add_queue_pids on_proc_pids')

lemma tsleep_awake_pids: "i_tsleep_awake s t = Some s' \<Longrightarrow> num s' = num s"
  by (auto simp: i_tsleep_awake_def Option.bind_eq_Some_conv dest!: awake_loop_pids refresh_pids)

lemma remove_tsleep_pids: "i_remove_from_g_tsleep_list s pid = Some t \<Longrightarrow> num t = num s"
  by (auto simp: i_remove_from_g_tsleep_list_def Option.bind_eq_Some_conv dest!: refresh_pids)

lemma pids_bind: "m \<bind> f = Some x \<Longrightarrow> (\<And>y. m = Some y \<Longrightarrow> f y = Some x \<Longrightarrow> P) \<Longrightarrow> P"
  by (auto simp: Option.bind_eq_Some_conv)

lemma stage_pids:
  "(if b then i_tsleep_awake s t else Some s) = Some s1 \<Longrightarrow> num s1 = num s"
  "(if b then i_clean_killed s else Some s) = Some s1 \<Longrightarrow> num s1 = num s"
  "(if b then Some s else i_process_switch s p q) = Some s1 \<Longrightarrow> num s1 = num s"
  by (auto split: if_splits dest!: tsleep_awake_pids clean_killed_pids switch_pids)

lemma schedule_pids:
  assumes "schedule s t = Some s'"
  shows "num s' = num s"
proof -
  obtain c where c: "rd (plist s) (proc_current s) = Some c"
    using assms unfolding schedule_def by (rule pids_bind)
  show ?thesis
  proof (cases "t \<noteq> 0 \<and> t - last_switch s < SCHEDULER_EVRY \<and> (pr_state c \<noteq> IDL \<or> tsleep_interact s > t)")
    case True
    then show ?thesis
      using assms by (simp add: schedule_def c)
  next
    case False
    from assms [unfolded schedule_def c Option.bind.simps if_not_P [OF False] Let_def]
    show ?thesis
      by (elim pids_bind) (auto split del: if_split dest!: stage_pids on_proc_pids')
  qed
qed

lemma if_SomeE: "(if b then x else y) = Some z \<Longrightarrow> (b \<Longrightarrow> x = Some z \<Longrightarrow> P) \<Longrightarrow> (\<not> b \<Longrightarrow> y = Some z \<Longrightarrow> P) \<Longrightarrow> P"
  by (simp split: if_splits)

lemma process_sleep_pids: "process_sleep s pid ms = Some (r, t) \<Longrightarrow> num t = num s"
  unfolding process_sleep_def Let_def
  by (elim pids_bind if_SomeE) (auto dest!: schedule_pids remove_tsleep_pids refresh_pids on_proc_pids')

lemma process_wakeup_pids: "process_wakeup s pid h = Some (r, t) \<Longrightarrow> num t = num s"
  unfolding process_wakeup_def Let_def
  by (elim pids_bind if_SomeE) (auto dest!: schedule_pids remove_tsleep_pids refresh_pids add_queue_pids on_proc_pids')

lemma make_zombie_pids: "make_zombie s i pid c = Some t \<Longrightarrow> num t = num s"
  unfolding make_zombie_def
  by (elim pids_bind if_SomeE) (auto dest!: remove_tsleep_pids on_proc_pids')

lemma wake_waiting_pids: "wake_waiting s i pid pl = Some t \<Longrightarrow> num t = num s"
  unfolding wake_waiting_def
  by (elim pids_bind if_SomeE) (auto dest!: process_wakeup_pids on_proc_pids')

lemma reap_pids: "reap s i = Some (r, c, t) \<Longrightarrow> num t = num s"
  unfolding reap_def
  by (elim pids_bind if_SomeE) (auto dest!: free_process_pids on_proc_pids')

lemma pids_bind_pair: "m \<bind> (\<lambda>(a, b). f a b) = Some x \<Longrightarrow> (\<And>a b. m = Some (a, b) \<Longrightarrow> f a b = Some x \<Longrightarrow> P) \<Longrightarrow> P"
  by (auto simp: Option.bind_eq_Some_conv)

lemma kill_children_pids:
  assumes K: "\<And>s pid code r t. process_kill n s pid code = Some (r, t) \<Longrightarrow> num t = num s"
  shows "kill_children n s pl pid is = Some (b, t) \<Longrightarrow> num t = num s"
proof (induction "is" arbitrary: s pid)
  case (Cons i "is")
  from Cons.prems show ?case
    unfolding kill_children.simps
    by (elim pids_bind_pair pids_bind if_SomeE) (auto dest!: K Cons.IH wake_waiting_pids free_process_pids on_proc_pids')
qed (simp add: kill_children.simps(1))

lemma process_kill_pids: "process_kill n s pid code = Some (r, t) \<Longrightarrow> num t = num s"
proof (induction n arbitrary: s pid code r t)
  case (Suc n)
  have kids: "num v = num u" if "kill_children n u pl k is = Some (b, v)" for u pl k "is" b v
    using that by (rule kill_children_pids [rotated]) (rule Suc.IH)
  from Suc.prems show ?case
    unfolding process_kill.simps Let_def
    by (elim pids_bind_pair pids_bind if_SomeE) (auto simp: mod_trigger_atdeath_def dest!: make_zombie_pids schedule_pids kids)
qed (simp add: process_kill.simps(1))

lemma process_wait_resume_pids: "process_wait_resume s = Some (r, t) \<Longrightarrow> num t = num s"
  unfolding process_wait_resume_def Let_def
  by (elim pids_bind if_SomeE) (auto simp: Option.bind_eq_Some_conv split: option.splits dest!: reap_pids on_proc_pids')

lemma process_wait_pids: "process_wait s pid bk = Some (r, t) \<Longrightarrow> num t = num s"
  unfolding process_wait_def Let_def
  by (elim pids_bind if_SomeE) (auto simp: Option.bind_eq_Some_conv split: option.splits if_splits dest!: reap_pids on_proc_pids' schedule_pids)

end
