(* ===== verification/ProcessProps.thy ===== *)
theory ProcessProps
  imports ProcessWait
begin

text \<open>
  What the scheduler, sleep, wake-up, death and waiting guarantee, on a small table of processes for
  the witnesses.
\<close>

section \<open>A concrete table\<close>

text \<open>
  The kernel, the idle process, the running process 2, its child 3, asleep until tick 50, and the
  child 4 of process 3.
\<close>

definition demo_proc :: "u32 \<Rightarrow> u32 \<Rightarrow> proc_state \<Rightarrow> u32 \<Rightarrow> proc" where
  "demo_proc pid pp st v = zero_proc\<lparr>pr_pid := pid, pr_ppid := pp, pr_state := st, sleep_to := v\<rparr>"

lemma demo_proc_simps [simp]: "pr_pid (demo_proc pid pp st v) = pid" "pr_ppid (demo_proc pid pp st v) = pp"
  "pr_state (demo_proc pid pp st v) = st" "sleep_to (demo_proc pid pp st v) = v" "scuba_dir (demo_proc pid pp st v) = 0"
  "wait_pid (demo_proc pid pp st v) = 0"
  by (simp_all add: demo_proc_def zero_proc_def)

lemma zero_proc_simps [simp]: "pr_pid zero_proc = 0" "pr_state zero_proc = FRE" "scuba_dir zero_proc = 0" "pr_ppid zero_proc = 0"
  "wait_pid zero_proc = 0" "sleep_to zero_proc = 0"
  by (simp_all add: zero_proc_def)

definition demo_procs :: "proc list" where
  "demo_procs = [demo_proc 0 0 INQ 0, demo_proc 1 0 IDL 0, demo_proc 2 0 RUN 0, demo_proc 3 2 SLP 50, demo_proc 4 3 INQ 0] @
     replicate 195 zero_proc"

definition demo_sched :: sched where
  "demo_sched = \<lparr>plist = demo_procs, proc_current = 2, pid_incrament = 4, last_switch = 35, tsleep_list = [3],
     tsleep_interact = 50, shdlr_queue = [0, 2, 4], queue_index = 1, need_clean = False, ticks = 40,
     kmem = \<lparr>heap = demo, objs = Map.empty, ram = (\<lambda>_. 0), kernel_directory = 0, cr3 = 0, paging = True\<rparr>, died = []\<rparr>"

lemma demo_nth: "i < PROCESS_MAX \<Longrightarrow> demo_procs ! i =
    (if i = 0 then demo_proc 0 0 INQ 0 else if i = 1 then demo_proc 1 0 IDL 0 else if i = 2 then demo_proc 2 0 RUN 0
     else if i = 3 then demo_proc 3 2 SLP 50 else if i = 4 then demo_proc 4 3 INQ 0 else zero_proc)"
  by (auto simp: demo_procs_def nth_append nth_Cons' PROCESS_MAX_def)

lemma demo_used: "i < PROCESS_MAX \<Longrightarrow> pr_state (demo_procs ! i) \<noteq> FRE \<Longrightarrow> unat (pr_pid (demo_procs ! i)) = i"
  by (auto simp: demo_nth split: if_splits)

lemma demo_sets: "runnable demo_procs = {0, 2, 4}" "sleepers demo_procs = {3}"
  by (auto simp: runnable_def sleepers_def demo_nth PROCESS_MAX_def split: if_splits)

lemma demo_sched_ok: "sched_ok demo_sched"
proof -
  have "table_ok demo_procs"
    unfolding table_ok_def
  proof (intro conjI allI impI)
    fix i j
    assume a: "i < PROCESS_MAX" "j < PROCESS_MAX" "pr_state (demo_procs ! i) \<noteq> FRE" "pr_state (demo_procs ! j) \<noteq> FRE"
      "pr_pid (demo_procs ! i) = pr_pid (demo_procs ! j)"
    show "i = j"
      by (rule trans [OF sym [OF demo_used [OF a(1,3)]] trans [OF arg_cong [OF a(5), of unat] demo_used [OF a(2,4)]]])
  qed (simp add: demo_procs_def PROCESS_MAX_def)
  moreover have "earliest demo_procs {3} = 50"
    by (simp add: earliest_def demo_nth PROCESS_MAX_def)
  moreover have "base_ok demo_sched"
    by (simp add: base_ok_def demo_sched_def demo_nth, simp add: PROCESS_MAX_def demo_procs_def)
  moreover have "mem_ok demo_sched"
    using demo_ok by (auto simp: mem_ok_def demo_sched_def dirs_ok_def demo_nth)
  ultimately show ?thesis
    by (simp add: sched_ok_def queue_ok_def sleep_ok_def demo_sched_def demo_sets)
qed

section \<open>The scheduler\<close>

text \<open>
  C28.  The scheduler never halts the kernel and keeps the invariant.  A tick that comes too early
  changes nothing; otherwise exactly the sleepers whose time has come are woken, and the next process
  of the queue runs, the idle process when the queue is empty.
\<close>

theorem schedule_dispatch:
  assumes "sched_ok s"
  shows "\<exists>s'. schedule s t = Some s' \<and> sched_ok s' \<and> (if too_early s t then s' = s else scheduled s t s')"
  using schedule_ok [OF assms, of t] by metis

theorem schedule_dispatch_witness:
  "\<exists>s'. schedule demo_sched 51 = Some s' \<and> sched_ok s' \<and> scheduled demo_sched 51 s'"
  using schedule_dispatch [OF demo_sched_ok, of 51]
  by (simp add: too_early_def demo_sched_def SCHEDULER_EVRY_def)

text \<open>A number of manual calls of the scheduler, one after the other.\<close>

fun schedules :: "nat \<Rightarrow> sched \<Rightarrow> sched option" where
  "schedules 0 s = Some s"
| "schedules (Suc k) s = do { s \<leftarrow> schedule s 0; schedules k s }"

lemma next_index_mod:
  assumes "unat (queue_index s) < length q" and "length q \<le> PROCESS_MAX"
  shows "unat (next_index s q) = Suc (unat (queue_index s)) mod length q"
proof -
  have "unat (queue_index s + 1) = Suc (unat (queue_index s))"
    using assms by (simp add: unat_word_ariths PROCESS_MAX_def)
  then show ?thesis
    using assms by (auto simp: next_index_def mod_Suc)
qed

lemma next_index_less: "q \<noteq> [] \<Longrightarrow> unat (next_index s q) < length q"
  by (simp add: next_index_def)

lemma queue_length: "sched_ok s \<Longrightarrow> length (shdlr_queue s) \<le> PROCESS_MAX"
proof -
  assume s: "sched_ok s"
  have "set (shdlr_queue s) \<subseteq> {..<PROCESS_MAX}"
    using sched_okD(6) [OF s] by (auto simp: in_runnable)
  from card_mono [OF finite_lessThan this] show ?thesis
    unfolding distinct_card [OF sched_okD(5) [OF s]] by simp
qed

lemma quiet_schedule:
  assumes "sched_ok s" and "quiet s 0"
  obtains s' where "schedule s 0 = Some s'" "sched_ok s'" "quiet s' 0" "shdlr_queue s' = shdlr_queue s"
    "queue_index s' = next_index s (shdlr_queue s)" "proc_current s' = turn s'"
proof -
  have ne: "\<not> too_early s 0"
    by (simp add: too_early_def)
  obtain s' where S: "schedule s 0 = Some s'" "sched_ok s'" "ticks s' = ticks s" "scheduled s 0 s'"
    "shdlr_queue s' = shdlr_queue s \<and> tsleep_interact s' = tsleep_interact s \<and> \<not> need_clean s'"
    using schedule_ok [OF assms(1), of 0] ne assms(2) by metis
  show thesis
    by (rule that [OF S(1,2)]) (use S(3-5) assms(2) in \<open>auto simp: quiet_def now_def scheduled_def\<close>)
qed

lemma schedules_turn:
  assumes "sched_ok s" and "quiet s 0" and "unat (queue_index s) < length (shdlr_queue s)" and "proc_current s = turn s"
  obtains s' where "schedules k s = Some s'" "proc_current s' = shdlr_queue s ! ((unat (queue_index s) + k) mod length (shdlr_queue s))"
  using assms
proof (induction k arbitrary: s thesis)
  case 0
  then show ?case
    by (cases "shdlr_queue s = []") (simp_all add: turn_def)
next
  case (Suc k)
  obtain t where T: "schedule s 0 = Some t" "sched_ok t" "quiet t 0" "shdlr_queue t = shdlr_queue s"
    "queue_index t = next_index s (shdlr_queue s)" "proc_current t = turn t"
    by (rule quiet_schedule [OF Suc.prems(2,3)])
  have i: "unat (queue_index t) = Suc (unat (queue_index s)) mod length (shdlr_queue s)"
    unfolding T(5) by (rule next_index_mod [OF Suc.prems(4) queue_length [OF Suc.prems(2)]])
  have "unat (queue_index t) < length (shdlr_queue t)"
    unfolding i T(4) by (rule mod_less_divisor) (use Suc.prems(4) in linarith)
  then obtain s' where S: "schedules k t = Some s'"
    "proc_current s' = shdlr_queue t ! ((unat (queue_index t) + k) mod length (shdlr_queue t))"
    using Suc.IH [OF _ T(2,3)] T(6) by blast
  have "(unat (queue_index t) + k) mod length (shdlr_queue t) = (unat (queue_index s) + Suc k) mod length (shdlr_queue s)"
    unfolding i T(4) by (simp add: mod_add_left_eq)
  then show ?case
    using Suc.prems(1) [of s'] S T(1,4) by simp
qed

text \<open>
  C29.  Round robin: while no sleeper is due and no dead process waits to be cleaned, every process
  that can run gets the processor within as many calls of the scheduler as there are such processes.
\<close>

theorem schedule_fair:
  assumes "sched_ok s" and "quiet s 0" and "i \<in> runnable (plist s)"
  shows "\<exists>k s'. 0 < k \<and> k \<le> card (runnable (plist s)) \<and> schedules k s = Some s' \<and> proc_current s' = i"
proof -
  let ?q = "shdlr_queue s"
  obtain t where T: "schedule s 0 = Some t" "sched_ok t" "quiet t 0" "shdlr_queue t = ?q"
    "queue_index t = next_index s ?q" "proc_current t = turn t"
    by (rule quiet_schedule [OF assms(1,2)])
  obtain j where j: "j < length ?q" "?q ! j = i"
    using assms(3) in_set_conv_nth [of i ?q] unfolding sched_okD(6) [OF assms(1)] by blast
  have n: "unat (queue_index t) < length ?q"
    using j(1) unfolding T(5) by (intro next_index_less) auto
  define k where "k = (j + length ?q - unat (queue_index t)) mod length ?q"
  have "(unat (queue_index t) + k) mod length ?q = j"
    using n j(1) by (simp add: k_def mod_add_right_eq)
  then obtain s' where S: "schedules k t = Some s'" "proc_current s' = i"
    using schedules_turn [OF T(2,3) _ T(6), of k] n j(2) T(4) by metis
  have "card (runnable (plist s)) = length ?q"
    using distinct_card [OF sched_okD(5) [OF assms(1)]] sched_okD(6) [OF assms(1)] by simp
  moreover have "k < length ?q"
    unfolding k_def by (rule mod_less_divisor) (use j(1) in linarith)
  ultimately show ?thesis
    using T(1) S by (intro exI [of _ "Suc k"] exI [of _ s']) simp
qed

theorem schedule_fair_witness:
  "\<exists>k s'. 0 < k \<and> k \<le> card (runnable (plist demo_sched)) \<and> schedules k demo_sched = Some s' \<and> proc_current s' = 0"
  by (rule schedule_fair [OF demo_sched_ok]) (simp_all add: quiet_def demo_sched_def demo_sets now_def)

section \<open>Sleep and wake-up\<close>

lemma demo_plist [simp]: "plist demo_sched = demo_procs" "proc_current demo_sched = 2"
  by (simp_all add: demo_sched_def)

lemma demo_entries [simp]: "demo_procs ! 0 = demo_proc 0 0 INQ 0" "demo_procs ! Suc 0 = demo_proc 1 0 IDL 0"
  "demo_procs ! 2 = demo_proc 2 0 RUN 0" "demo_procs ! 3 = demo_proc 3 2 SLP 50" "demo_procs ! 4 = demo_proc 4 3 INQ 0"
  by (simp_all add: demo_procs_def)

lemma demo_targets: "target demo_sched 2 2" "target demo_sched 3 3" "target demo_sched 4 4"
  by (simp_all add: target_def live_def PROCESS_MAX_def)

text \<open>
  \<open>wake_time\<close> is the tick in the 32-bit arithmetic of the code, where the product and the sum can wrap;
  \<open>ticks_at\<close> is the tick that is \<open>ms\<close> milliseconds away, at \<open>RATE_TIMER_TICK\<close> ticks in a second.
\<close>

definition ticks_at :: "sched \<Rightarrow> u32 \<Rightarrow> nat" where
  "ticks_at s ms = unat (ticks s) + unat ms * unat RATE_TIMER_TICK div 1000"

lemma wake_time_exact:
  assumes "ms \<noteq> -1" and "unat ms * 1000 < 2 ^ 32" and "ticks_at s ms < 2 ^ 32"
  shows "unat (wake_time s ms) = ticks_at s ms"
proof -
  have "unat (ms * 1000) = unat ms * 1000"
    using assms(2) by (simp add: unat_word_ariths)
  then have "unat (ms * 1000 div RATE_TIMER_TICK) = unat ms"
    by (simp add: unat_div RATE_TIMER_TICK_def)
  then show ?thesis
    using assms(1,3) by (simp add: wake_time_def ticks_at_def unat_word_ariths RATE_TIMER_TICK_def)
qed

definition wakes_at :: "sched \<Rightarrow> u32 \<Rightarrow> u32 \<Rightarrow> bool" where
  "wakes_at s ms t \<longleftrightarrow> t = wake_time s ms \<and> (ms = -1 \<longrightarrow> t = 0) \<and>
     (ms \<noteq> -1 \<and> unat ms * 1000 < 2 ^ 32 \<and> ticks_at s ms < 2 ^ 32 \<longrightarrow> unat t = ticks_at s ms)"

lemma wakes_at_wake_time: "wakes_at s ms (wake_time s ms)"
  using wake_time_exact [of ms s] by (simp add: wakes_at_def wake_time_def)

text \<open>
  C30.  \<open>process_sleep\<close> refuses a process that does not exist, is dead or is the idle process, without a
  change.  A sleep of 0 ms changes nothing but lets the scheduler run when the process is the running
  one.  Else exactly that entry changes: it leaves the queue and sleeps, for ever for -1, else until a
  tick that is \<open>ms\<close> milliseconds away when neither \<open>ms * 1000\<close> nor the counter of ticks passes 2^32
  (beyond 4294967 ms the product wraps, and the process wakes too early); when it is the running
  process, another one gets the processor.  A wake-up tick that wraps to 0 is excluded.
\<close>

theorem process_sleep_spec:
  assumes "sched_ok s" and "ms = 0 \<or> ms = -1 \<or> wake_time s ms \<noteq> 0"
  shows "if \<exists>i. target s pid i
    then \<exists>i. target s pid i \<and>
      (if ms = 0
       then \<exists>s'. process_sleep s pid ms = Some (0, s') \<and> (if pid = cur_pid s then schedule s 0 = Some s' \<and> sched_ok s' else s' = s)
       else \<exists>s1 t. asleep s i t s1 \<and> wakes_at s ms t \<and>
         (if pid = cur_pid s
          then \<exists>s'. process_sleep s pid ms = Some (0, s') \<and> schedule s1 0 = Some s' \<and> sched_ok s' \<and> scheduled s1 0 s'
          else process_sleep s pid ms = Some (0, s1)))
    else process_sleep s pid ms = Some (ERROR_CODE, s)"
proof (cases rule: process_sleep_cases [OF assms, of pid])
  case (2 i)
  obtain s' where "schedule s 0 = Some s'" "sched_ok s'"
    using schedule_ok [OF assms(1), of 0] by metis
  then show ?thesis
    using 2 by auto
next
  case (3 i s1)
  have e: "\<exists>i. target s pid i"
    using 3(1) ..
  have s1: "sched_ok s1" and ne: "\<not> too_early s1 0"
    using 3(3) by (simp_all add: becomes_def too_early_def)
  then obtain s' where S: "schedule s1 0 = Some s'" "sched_ok s'" "scheduled s1 0 s'"
    using schedule_ok [OF s1, of 0] by metis
  show ?thesis
    unfolding if_P [OF e] if_not_P [OF 3(2)] using 3 S wakes_at_wake_time
    by (intro exI [of _ i] exI [of _ s1] exI [of _ "wake_time s ms"] conjI)
      (cases "pid = cur_pid s"; simp del: map_option_eq_Some)+
qed simp

theorem process_sleep_spec_witness:
  "\<exists>s1. asleep demo_sched 4 60 s1 \<and> process_sleep demo_sched 4 20 = Some (0, s1)"
proof -
  have w: "wake_time demo_sched 20 = 60"
    by (simp add: wake_time_def demo_sched_def RATE_TIMER_TICK_def)
  have e: "\<exists>i. target demo_sched 4 i"
    using demo_targets(3) ..
  have u: "target demo_sched 4 i \<Longrightarrow> i = 4" for i
    using target_unique [OF demo_sched_ok] demo_targets(3) by blast
  show ?thesis
    using process_sleep_spec [OF demo_sched_ok, of 20 4, unfolded if_P [OF e]] w by (auto simp: wakes_at_def dest!: u)
qed

lemma process_wakeup_ok:
  assumes "sched_ok s" and "proc_current s \<in> runnable (plist s)"
  shows "if \<exists>i. target s pid i \<and> pr_state (plist s ! i) = SLP
    then \<exists>i s1. target s pid i \<and> woken s i s1 \<and>
      (if h
       then \<exists>s2 s'. becomes s1 (proc_current s) (handover_entry pid (plist s ! proc_current s)) s2 \<and>
         process_wakeup s pid h = Some (0, s') \<and> schedule s2 0 = Some s' \<and> sched_ok s' \<and> scheduled s2 0 s'
       else process_wakeup s pid h = Some (0, s1))
    else process_wakeup s pid h = Some (ERROR_CODE, s)"
proof (cases rule: process_wakeup_cases [OF assms(1), of pid h])
  case (2 i s1)
  have e: "\<exists>i. target s pid i \<and> pr_state (plist s ! i) = SLP"
    using 2(1,2) by blast
  let ?c = "proc_current s" and ?p = "handover_entry pid (plist s ! proc_current s)"
  have s1: "sched_ok s1" "plist s1 = (plist s)[i := (plist s ! i)\<lparr>pr_state := INQ, sleep_to := 0, wait_pid := 0\<rparr>]" "proc_current s1 = ?c"
    using 2(3) by (simp_all add: becomes_def)
  have c: "?c \<noteq> i" "?c < PROCESS_MAX"
    using assms(2) 2(2) by (auto simp: in_runnable)
  then have pc: "plist s1 ! ?c = plist s ! ?c"
    using s1(2) by simp
  have r: "?c \<in> runnable (plist s1)"
    using assms(2) pc by (simp add: in_runnable)
  let ?s2 = "i_remove_from_shdlr_queue (s1\<lparr>plist := (plist s1)[?c := ?p]\<rparr>) ?c"
  have B: "becomes s1 ?c ?p ?s2"
    by (rule block_ok [OF s1(1) r]) (simp_all add: pc handover_entry_def)
  then have s2: "sched_ok ?s2" and ne: "\<not> too_early ?s2 0"
    by (simp_all add: becomes_def too_early_def)
  obtain s' where S: "schedule ?s2 0 = Some s'" "sched_ok s'" "scheduled ?s2 0 s'"
    using schedule_ok [OF s2, of 0] ne by metis
  have "on_proc s1 ?c (handover_entry pid) = Some (s1\<lparr>plist := (plist s1)[?c := ?p]\<rparr>)"
    using c sched_okD(1) [OF s1(1)] by (simp add: on_proc_in pc)
  then have "process_wakeup s pid h = Some (0, s')" if h
    using 2(4) that S(1) s1(3) by simp
  then show ?thesis
    unfolding if_P [OF e] using 2 B S by (intro exI [of _ i] exI [of _ s1]) auto
next
  case 1
  then have n: "\<not> (\<exists>i. target s pid i \<and> pr_state (plist s ! i) = SLP)"
    by blast
  show ?thesis
    unfolding if_not_P [OF n] by (rule 1(2))
qed

text \<open>
  C31.  \<open>process_wakeup\<close> refuses a process that is not asleep.  Else the process can run again and waits
  for nothing; with a handover, the running process waits for it, and another one gets the processor.
\<close>

theorem process_wakeup_spec:
  assumes "sched_ok s" and "proc_current s \<in> runnable (plist s)"
  shows "if \<exists>i. target s pid i \<and> pr_state (plist s ! i) = SLP
    then \<exists>i s1. target s pid i \<and> woken s i s1 \<and>
      (if h
       then \<exists>s2 s'. becomes s1 (proc_current s) (handover_entry pid (plist s ! proc_current s)) s2 \<and>
         process_wakeup s pid h = Some (0, s') \<and> schedule s2 0 = Some s' \<and> sched_ok s' \<and> scheduled s2 0 s'
       else process_wakeup s pid h = Some (0, s1))
    else process_wakeup s pid h = Some (ERROR_CODE, s)"
  by (rule process_wakeup_ok [OF assms])

theorem process_wakeup_spec_witness:
  "\<exists>s1. woken demo_sched 3 s1 \<and> process_wakeup demo_sched 3 False = Some (0, s1)"
proof -
  have e: "\<exists>i. target demo_sched 3 i \<and> pr_state (plist demo_sched ! i) = SLP"
    using demo_targets(2) by (intro exI [of _ 3]) simp
  have u: "target demo_sched 3 i \<Longrightarrow> i = 3" for i
    using target_unique [OF demo_sched_ok] demo_targets(2) by blast
  have "proc_current demo_sched \<in> runnable (plist demo_sched)"
    by (simp add: demo_sets)
  from process_wakeup_spec [OF demo_sched_ok this, of 3 False] show ?thesis
    unfolding if_P [OF e] by (auto dest!: u)
qed

section \<open>Death\<close>

lemma lives_unique:
  assumes "sched_ok s" and "proc_current s \<in> lives s"
  shows "cur_unique s"
  unfolding cur_unique_def using lives_inject [OF assms(1) _ assms(2)] by blast

lemma card_lives: "card (lives s) < Suc PROCESS_MAX"
proof -
  have "lives s \<subseteq> {..<PROCESS_MAX}"
    by (auto simp: lives_def)
  from card_mono [OF finite_lessThan this] show ?thesis
    by simp
qed

text \<open>
  C32.  A kill always ends, with a recursion no deeper than the number of processes.  It refuses the
  kernel, the idle process, the dead and the unknown without a change.  Else, when the caller kills
  itself or a process it does not descend from, exactly the victim and its descendants die, and the
  caller goes on unless it is the victim.
\<close>

theorem process_kill_exact:
  assumes "sched_ok s" and "proc_current s \<in> lives s"
    and "pid = cur_pid s \<or> proc_current s \<notin> desc s {i. target s pid i}"
  shows "if pid \<noteq> 0 \<and> (\<exists>i. target s pid i)
    then \<exists>s'. process_kill (Suc PROCESS_MAX) s pid code = Some (if pid = cur_pid s then None else Some 0, s') \<and>
      sched_ok s' \<and> dies s s' = desc s {i. target s pid i}
    else process_kill (Suc PROCESS_MAX) s pid code = Some (Some ERROR_CODE, s)"
proof -
  obtain r s' where K: "process_kill (Suc PROCESS_MAX) s pid code = Some (r, s')" "kill_result s pid r s'"
    using process_kill_ok [OF assms(1) lives_unique [OF assms(1,2)] card_lives] by metis
  show ?thesis
  proof (cases "pid \<noteq> 0 \<and> (\<exists>i. target s pid i)")
    case True
    then obtain i where t: "target s pid i"
      by blast
    have R: "sched_ok s' \<and> (case r of
          Some v \<Rightarrow> v = 0 \<and> pid \<noteq> cur_pid s \<and> subtree s pid s'
        | None \<Rightarrow> proc_current s \<in> desc s {i. target s pid i} \<and> (pid = cur_pid s \<longrightarrow> subtree s pid s'))"
      using K(2) True unfolding kill_result_def by (auto split: option.splits)
    then have r: "r = (if pid = cur_pid s then None else Some 0)" and sub: "subtree s pid s'"
      using assms(3) by (cases r; auto)+
    have "dies s s' = desc s {i. target s pid i}"
      unfolding target_set [OF assms(1) t] by (rule subtree_desc [OF assms(1) sub t])
    then show ?thesis
      unfolding if_P [OF True] using K(1) R r by blast
  next
    case False
    then show ?thesis
      using K unfolding if_not_P [OF False] kill_result_def by simp
  qed
qed

lemma demo_desc: "desc demo_sched {3} = {3, 4}"
proof
  show "desc demo_sched {3} \<subseteq> {3, 4}"
  proof
    fix i assume "i \<in> desc demo_sched {3}"
    then show "i \<in> {3, 4}"
      by induction (auto simp: children_def lives_def demo_nth split: if_splits)
  qed
  have "4 \<in> children demo_sched (pr_pid (plist demo_sched ! 3))"
    by (simp add: children_def lives_def live_def PROCESS_MAX_def)
  moreover have "3 \<in> desc demo_sched {3}"
    by (rule desc.root) simp
  ultimately show "{3, 4} \<subseteq> desc demo_sched {3}"
    using desc.child [of 3 demo_sched "{3}" 4] by (simp add: PROCESS_MAX_def)
qed

theorem process_kill_exact_witness:
  "\<exists>s'. process_kill (Suc PROCESS_MAX) demo_sched 3 1 = Some (Some 0, s') \<and> sched_ok s' \<and> dies demo_sched s' = {3, 4}"
proof -
  have tg: "{i. target demo_sched 3 i} = {3}"
    using target_set [OF demo_sched_ok demo_targets(2)] .
  have t: "(3::u32) \<noteq> 0 \<and> (\<exists>i. target demo_sched 3 i)"
    using demo_targets(2) by (intro conjI exI [of _ 3]) simp_all
  have c: "proc_current demo_sched \<in> lives demo_sched" "3 = cur_pid demo_sched \<or> proc_current demo_sched \<notin> desc demo_sched {i. target demo_sched 3 i}"
    unfolding tg demo_desc by (simp_all add: lives_def live_def PROCESS_MAX_def)
  show ?thesis
    using process_kill_exact [OF demo_sched_ok c, of 1, unfolded if_P [OF t]] by (simp add: tg demo_desc)
qed

section \<open>Waiting for a child\<close>

text \<open>
  C33.  \<open>process_wait\<close> of any child takes the first dead child, gives its number and exit code and frees
  its entry; without children it returns -1; else it waits, or returns 0 when it must not block.  Of
  one child, it does so for that child, and refuses what is not a child of the caller.
\<close>

theorem process_wait_spec:
  assumes "sched_ok s" and "proc_current s \<in> runnable (plist s)"
  shows "if pid < 1 then wait_any s bk (process_wait s pid bk) else wait_one s pid bk (process_wait s pid bk)"
  using process_wait_any [OF assms] process_wait_one [OF assms] by simp

theorem process_wait_spec_witness:
  "process_wait demo_sched 3 False = Some (Returned 0 None, demo_sched)"
proof -
  have "kid demo_sched 3 3"
    by (simp add: kid_def PROCESS_MAX_def)
  then show ?thesis
    using process_wait_spec [OF demo_sched_ok, of 3 False] by (auto simp: demo_sets wait_one_def waits_def)
qed

text \<open>
  C34.  What a process does when it runs again after it blocked in \<open>process_wait\<close>: an error when its
  request is still pending, else the first dead child with its exit code; the kernel halts when there
  is none.
\<close>

theorem process_wait_resume_spec:
  assumes "sched_ok s"
  shows "let c = proc_current s; w = wait_pid (plist s ! c); s1 = s\<lparr>plist := (plist s)[c := (plist s ! c)\<lparr>wait_pid := 0\<rparr>]\<rparr> in
    if w = -1 \<or> 0 < w then process_wait_resume s = Some (Returned ERROR_CODE None, s1)
    else (\<forall>i. first_dead s i \<longrightarrow> takes s1 i (process_wait_resume s)) \<and>
      ((\<forall>i. \<not> dead_kid s i) \<longrightarrow> process_wait_resume s = None)"
  using process_wait_resume_ok [OF assms] by (simp add: Let_def)

theorem process_wait_resume_spec_witness: "process_wait_resume demo_sched = None"
proof -
  have "\<not> dead_kid demo_sched i" for i
    by (cases "i < PROCESS_MAX") (simp_all add: dead_kid_def demo_nth)
  then show ?thesis
    using process_wait_resume_spec [OF demo_sched_ok] by (simp add: Let_def)
qed

end
