(* ===== verification/KernelRun.thy ===== *)
theory KernelRun
  imports KernelFrame ProcessProps
begin

text \<open>
  Runs of the kernel: the timer and the calls of the running process as a step relation, and the
  invariant in every state that can be reached from the start.
\<close>

section \<open>Invariants of a step relation\<close>

locale stepper =
  fixes step :: "'s \<Rightarrow> 's \<Rightarrow> bool" and inv :: "'s \<Rightarrow> bool"
  assumes step_inv: "step s t \<Longrightarrow> inv s \<Longrightarrow> inv t"
begin

lemma run_inv: "step\<^sup>*\<^sup>* s t \<Longrightarrow> inv s \<Longrightarrow> inv t"
  by (induction rule: rtranclp_induct) (auto intro: step_inv)

end

locale started = stepper step inv for step :: "'s \<Rightarrow> 's \<Rightarrow> bool" and inv :: "'s \<Rightarrow> bool" +
  fixes start :: "'s \<Rightarrow> bool"
  assumes start_inv: "start s \<Longrightarrow> inv s"
begin

lemma reached_inv: "start s \<Longrightarrow> step\<^sup>*\<^sup>* s t \<Longrightarrow> inv t"
  using start_inv run_inv by blast

end

section \<open>The invariant of the kernel\<close>

definition pids_ok :: "sched \<Rightarrow> bool" where
  "pids_ok s \<longleftrightarrow> (\<forall>x\<in>set (snd (num s)). x \<le> fst (num s))"

definition kernel_ok :: "sched \<Rightarrow> bool" where
  "kernel_ok s \<longleftrightarrow> sched_ok s \<and> on_cpu s \<and> pids_ok s"

text \<open>The running process is not the idle one.\<close>

definition user :: "sched \<Rightarrow> bool" where
  "user s \<longleftrightarrow> proc_current s \<in> runnable (plist s)"

lemma pids_ok_num: "num t = num s \<Longrightarrow> pids_ok t = pids_ok s"
  by (simp add: pids_ok_def)

lemma user_current: "user s \<Longrightarrow> pr_state (plist s ! proc_current s) \<in> {INQ, RUN} \<and> proc_current s < PROCESS_MAX"
  by (simp add: user_def in_runnable)

lemma same_current: "on_cpu s \<Longrightarrow> proc_current t = proc_current s \<Longrightarrow>
    pr_state (plist t ! proc_current s) = pr_state (plist s ! proc_current s) \<Longrightarrow> on_cpu t"
  by (simp add: on_cpu_def)

section \<open>Steps\<close>

inductive kstep :: "u32 \<Rightarrow> sched \<Rightarrow> sched \<Rightarrow> bool" for fj :: u32 where
  clock: "kstep fj s (s\<lparr>ticks := t\<rparr>)"
| timer: "schedule s t = Some s' \<Longrightarrow> kstep fj s s'"
| sleep: "user s \<Longrightarrow> ms = 0 \<or> ms = -1 \<or> wake_time s ms \<noteq> 0 \<Longrightarrow> process_sleep s pid ms = Some (r, s') \<Longrightarrow> kstep fj s s'"
| wakeup: "user s \<Longrightarrow> process_wakeup s pid h = Some (r, s') \<Longrightarrow> kstep fj s s'"
| kill: "user s \<Longrightarrow> process_kill (Suc PROCESS_MAX) s pid code = Some (k, s') \<Longrightarrow> kstep fj s s'"
| wait: "user s \<Longrightarrow> process_wait s n bk = Some (w, s') \<Longrightarrow> kstep fj s s'"
| resume: "user s \<Longrightarrow> process_wait_resume s = Some (w, s') \<Longrightarrow> kstep fj s s'"
| create: "user s \<Longrightarrow> pid_incrament s \<noteq> -1 \<Longrightarrow> process_create fj s func c args = Some (r, s') \<Longrightarrow> kstep fj s s'"
| create_user: "user s \<Longrightarrow> pid_incrament s \<noteq> -1 \<Longrightarrow> process_create_user fj s func args = Some (r, s') \<Longrightarrow> kstep fj s s'"
| fork: "user s \<Longrightarrow> pid_incrament s \<noteq> -1 \<Longrightarrow> process_fork fj s rg = Some (r, s') \<Longrightarrow> kstep fj s s'"
| info: "process_info kt s pid i ptr str = Some (x, s') \<Longrightarrow> kstep fj s s'"
| generate: "unat (0x1000 * n) \<le> 2 ^ 31 \<Longrightarrow> scuba_call_generate s a n = Some (p, s') \<Longrightarrow> kstep fj s s'" for n :: u32
| map: "scuba_call_map s a p cic = Some (r, s') \<Longrightarrow> kstep fj s s'"
| unmap: "scuba_call_unmap s a = Some (r, s') \<Longrightarrow> kstep fj s s'"

section \<open>Every step keeps the invariant\<close>

lemma schedule_kernel:
  assumes "kernel_ok s" and "schedule s t = Some s'"
  shows "kernel_ok s'"
proof -
  have "sched_ok s"
    using assms(1) by (simp add: kernel_ok_def)
  from schedule_ok [OF this, of t] obtain x where "schedule s t = Some x" "sched_ok x" "too_early s t \<Longrightarrow> x = s"
      "\<not> too_early s t \<Longrightarrow> scheduled s t x"
    by metis
  then show ?thesis
    using assms pids_ok_num [OF schedule_pids [OF assms(2)]] by (auto simp: kernel_ok_def scheduled_def)
qed

text \<open>A change of one entry that leaves the current process as it is, or is followed by a switch.\<close>

lemma becomes_kernel:
  assumes "kernel_ok s" and "becomes s i p s'" and "num s' = num s" and "i \<noteq> proc_current s"
  shows "kernel_ok s'"
  using assms pids_ok_num [OF assms(3)] by (auto simp: kernel_ok_def becomes_def intro: same_current)

lemma switched_kernel:
  assumes "kernel_ok s" and "sched_ok s'" and "scheduled s1 0 s'" and "num s' = num s"
  shows "kernel_ok s'"
  using assms pids_ok_num [OF assms(4)] by (simp add: kernel_ok_def scheduled_def)

lemma sleep_kernel:
  assumes "kernel_ok s" and "user s" and "ms = 0 \<or> ms = -1 \<or> wake_time s ms \<noteq> 0" and "process_sleep s pid ms = Some (r, s')"
  shows "kernel_ok s'"
proof -
  have ok: "sched_ok s"
    using assms(1) by (simp add: kernel_ok_def)
  note n = process_sleep_pids [OF assms(4)]
  show ?thesis
  proof (cases rule: process_sleep_cases [OF ok assms(3), of pid])
    case 1
    then show ?thesis
      using assms(1,4) by simp
  next
    case (2 i)
    then show ?thesis
      using assms(1,4) schedule_kernel [OF assms(1)] by (auto split: if_splits)
  next
    case (3 i s1)
    show ?thesis
    proof (cases "pid = cur_pid s")
      case True
      have s1: "sched_ok s1" and ne: "\<not> too_early s1 0"
        using 3(3) by (simp_all add: becomes_def too_early_def)
      have "schedule s1 0 = Some s'"
        using 3(4) True assms(4) by auto
      then have "sched_ok s'" "scheduled s1 0 s'"
        using schedule_ok [OF s1, of 0] ne by (metis option.inject)+
      then show ?thesis
        by (rule switched_kernel [OF assms(1) _ _ n])
    next
      case False
      then have "s' = s1" "i \<noteq> proc_current s"
        using 3(1,4) assms(4) by (auto simp: target_def)
      then show ?thesis
        using becomes_kernel [OF assms(1) 3(3)] n by simp
    qed
  qed
qed

lemma wakeup_kernel:
  assumes "kernel_ok s" and "user s" and "process_wakeup s pid h = Some (r, s')"
  shows "kernel_ok s'"
proof -
  have ok: "sched_ok s" and u: "proc_current s \<in> runnable (plist s)"
    using assms(1,2) by (simp_all add: kernel_ok_def user_def)
  note n = process_wakeup_pids [OF assms(3)]
  show ?thesis
  proof (cases "\<exists>i. target s pid i \<and> pr_state (plist s ! i) = SLP")
    case False
    then show ?thesis
      using process_wakeup_ok [OF ok u, of pid h] assms(1,3) by simp
  next
    case True
    then obtain i s1 where W: "target s pid i" "woken s i s1"
      "if h then \<exists>s2 s'. process_wakeup s pid h = Some (0, s') \<and> sched_ok s' \<and> scheduled s2 0 s'
       else process_wakeup s pid h = Some (0, s1)"
      using process_wakeup_ok [OF ok u, of pid h, unfolded if_P [OF True]] by metis
    obtain j where j: "target s pid j" "pr_state (plist s ! j) = SLP"
      using True by blast
    have "i = j"
      by (rule target_unique [OF ok W(1) j(1)])
    then have "i \<noteq> proc_current s"
      using j(2) u by (auto simp: in_runnable)
    then show ?thesis
      using W(3) n assms(3) becomes_kernel [OF assms(1) W(2)] switched_kernel [OF assms(1)]
      by (cases h) (simp_all, metis)
  qed
qed

lemma kill_kernel:
  assumes "kernel_ok s" and "user s" and "process_kill (Suc PROCESS_MAX) s pid code = Some (r, s')"
  shows "kernel_ok s'"
proof -
  have ok: "sched_ok s" and l: "proc_current s \<in> lives s"
    using assms(1) user_current [OF assms(2)] by (auto simp: kernel_ok_def lives_def live_def)
  have K: "kill_result s pid r s'"
    using process_kill_ok [OF ok lives_unique [OF ok l] card_lives, of pid code] assms(3) by auto
  have "on_cpu s"
    using assms(1) by (simp add: kernel_ok_def)
  then have "on_cpu s'"
    using K unfolding kill_result_def by (auto split: if_splits option.splits)
  then show ?thesis
    using K assms(1) pids_ok_num [OF process_kill_pids [OF assms(3)]] by (simp add: kernel_ok_def kill_result_def)
qed

lemma reaped_kernel:
  assumes "kernel_ok s" and "reaped s i s'" and "pr_state (plist s ! i) = ZMB" and "num s' = num s"
  shows "kernel_ok s'"
proof -
  have "i \<noteq> proc_current s"
    using assms(1,3) by (auto simp: kernel_ok_def on_cpu_def)
  moreover obtain m where "s' = s\<lparr>kmem := m, plist := (plist s)[i := freed FRE (plist s ! i)]\<rparr>"
    using assms(2) by (auto simp: reaped_def)
  ultimately have "on_cpu s'"
    using assms(1) by (simp add: kernel_ok_def on_cpu_def)
  then show ?thesis
    using assms(1,2) pids_ok_num [OF assms(4)] by (simp add: kernel_ok_def reaped_def)
qed

lemma waits_kernel:
  assumes "kernel_ok s" and "waits s w bk (Some (r, s'))" and "num s' = num s"
  shows "kernel_ok s'"
  using assms switched_kernel [OF assms(1) _ _ assms(3)] by (auto simp: waits_def split: if_splits)

lemma takes_kernel:
  assumes "kernel_ok s" and "takes s i (Some (r, s'))" and "first_dead s i" and "num s' = num s"
  shows "kernel_ok s'"
  using assms(2,3) reaped_kernel [OF assms(1) _ _ assms(4)] by (auto simp: takes_def first_dead_def dead_kid_def)

lemma first_dead_ex:
  assumes "sched_ok s"
  obtains i where "first_dead s i" | "\<forall>i. \<not> dead_kid s i"
  by (cases rule: dead_child_cases [OF assms]) (use that in blast)+

lemma wait_kernel:
  assumes "kernel_ok s" and "user s" and "process_wait s pid bk = Some (r, s')"
  shows "kernel_ok s'"
proof -
  have ok: "sched_ok s" and u: "proc_current s \<in> runnable (plist s)"
    using assms(1,2) by (simp_all add: kernel_ok_def user_def)
  note n = process_wait_pids [OF assms(3)]
  show ?thesis
  proof (cases "pid < 1")
    case True
    have W: "wait_any s bk (Some (r, s'))"
      using process_wait_any [OF ok u True, of bk] assms(3) by simp
    show ?thesis
      by (rule first_dead_ex [OF ok])
        (use W n takes_kernel [OF assms(1)] waits_kernel [OF assms(1)] assms(1) in \<open>auto simp: wait_any_def split: if_splits\<close>)
  next
    case False
    then have "wait_one s pid bk (Some (r, s'))"
      using process_wait_one [OF ok u, of pid bk] assms(3) by simp
    then show ?thesis
      using n waits_kernel [OF assms(1)] reaped_kernel [OF assms(1)] assms(1)
      by (cases "\<forall>i. \<not> kid s (word_of_int pid) i") (auto simp: wait_one_def split: if_splits)
  qed
qed

lemma resume_kernel:
  assumes "kernel_ok s" and "user s" and "process_wait_resume s = Some (r, s')"
  shows "kernel_ok s'"
proof -
  have ok: "sched_ok s"
    using assms(1) by (simp add: kernel_ok_def)
  note n = process_wait_resume_pids [OF assms(3)]
  let ?c = "proc_current s" and ?w = "wait_pid (plist s ! proc_current s)"
  let ?s1 = "s\<lparr>plist := (plist s)[?c := (plist s ! ?c)\<lparr>wait_pid := 0\<rparr>]\<rparr>"
  note R = process_wait_resume_ok [OF ok]
  have n1: "num ?s1 = num s"
    using sched_okD(1,4) [OF ok] by (intro on_proc_pids [of s ?c "\<lambda>p. p\<lparr>wait_pid := 0\<rparr>"]) simp_all
  have k1: "kernel_ok ?s1"
    using R(1) assms(1) pids_ok_num [OF n1] sched_okD(1,4) [OF ok] by (simp add: kernel_ok_def on_cpu_def)
  show ?thesis
  proof (cases "?w = -1 \<or> 0 < ?w")
    case True
    then show ?thesis
      using R(2) k1 assms(3) by simp
  next
    case False
    obtain i where i: "first_dead s i"
      using R(4) [OF False] assms(3) first_dead_ex [OF ok] by (metis option.distinct(1))
    have "takes ?s1 i (Some (r, s'))"
      using R(3) [OF False i] assms(3) by simp
    moreover have "pr_state (plist ?s1 ! i) = ZMB"
      using i sched_okD(1,4) [OF ok] by (cases "i = ?c") (auto simp: first_dead_def dead_kid_def)
    ultimately show ?thesis
      using reaped_kernel [OF k1, of i s'] n n1 by (auto simp: takes_def)
  qed
qed

lemma bears_kernel:
  assumes "kernel_ok s" and "bears s s'" and "pid_incrament s \<noteq> -1"
  shows "kernel_ok s'"
proof (cases "s' = s")
  case False
  then obtain i p m where B: "newborn s i p m" "i < length (plist s)" "s' = born s i p m"
    using assms(2) by (auto simp: bears_def)
  have le: "pr_pid (plist s ! j) \<le> pid_incrament s" if "j < length (plist s)" for j
    using assms(1) that by (simp add: kernel_ok_def pids_ok_def num_def)
  have up: "x < pid_incrament s + 1" if "x \<le> pid_incrament s" for x
  proof -
    have "1 + pid_incrament s \<noteq> 0"
      using assms(3) by (metis add.commute add_eq_0_iff)
    then show ?thesis
      using that unatSuc [of "pid_incrament s"] by (simp add: word_less_nat_alt word_le_nat_alt add.commute)
  qed
  have fresh: "pr_pid (plist s ! j) \<noteq> pid_incrament s + 1" if "j < PROCESS_MAX" for j
    using up [OF le [of j]] that assms(1) sched_okD(1) [of s] by (simp add: kernel_ok_def)
  have "sched_ok s'"
    unfolding B(3) by (rule born_ok [OF _ B(1) fresh]) (use assms(1) in \<open>simp_all add: kernel_ok_def\<close>)
  moreover have "on_cpu s'"
  proof -
    have "i \<noteq> proc_current s"
      using assms(1) B(1) by (auto simp: kernel_ok_def on_cpu_def newborn_def)
    then show ?thesis
      using assms(1) by (simp add: kernel_ok_def on_cpu_def B(3) born_def)
  qed
  moreover have "pids_ok s'"
    unfolding pids_ok_def
  proof
    fix x assume "x \<in> set (snd (num s'))"
    then obtain j where j: "j < length (plist s)" "x = pr_pid (plist s' ! j)"
      by (auto simp: num_def B(3) born_def in_set_conv_nth)
    then have "x = pid_incrament s + 1 \<or> x \<le> pid_incrament s"
      using le [OF j(1)] B(1) by (cases "j = i") (auto simp: B(3) born_def newborn_def)
    then show "x \<le> fst (num s')"
      using up [of x] by (auto simp: num_def B(3) born_def)
  qed
  ultimately show ?thesis
    by (simp add: kernel_ok_def)
qed (use assms(1) in simp)

lemma user_has_current: "kernel_ok s \<Longrightarrow> user s \<Longrightarrow> has_current s"
  using sched_okD(1) [of s] by (auto simp: kernel_ok_def has_current_def dest!: user_current)

lemma memory_kernel:
  assumes "kernel_ok s" and "grows (kmem s) m"
  shows "kernel_ok (s\<lparr>kmem := m\<rparr>)"
proof -
  obtain bs bs' where bs: "dirs_ok (plist s) bs" "snow_ok (heap m) bs'" "\<And>d. dir_block bs d \<Longrightarrow> dir_block bs' d"
    using assms by (auto simp: kernel_ok_def sched_ok_def mem_ok_def grows_def) 
  then have "dirs_ok (plist s) bs'"
    by (simp add: dirs_ok_def)
  then show ?thesis
    using assms(1) bs(2)
    by (auto simp: kernel_ok_def sched_ok_def queue_ok_def sleep_ok_def base_ok_def mem_ok_def on_cpu_def pids_ok_def)
qed

lemma with_kmem_state: "with_kmem s r = Some (x, s') \<Longrightarrow> \<exists>m. r = Some (x, m) \<and> s' = s\<lparr>kmem := m\<rparr>"
  by (auto simp: with_kmem_def Option.bind_eq_Some_conv)

lemma scuba_calls_kernel:
  assumes "kernel_ok s"
  shows "unat (0x1000 * n) \<le> 2 ^ 31 \<Longrightarrow> scuba_call_generate s a n = Some (p, s') \<Longrightarrow> kernel_ok s'"
    and "scuba_call_map s a ph cic = Some (r, s') \<Longrightarrow> kernel_ok s'"
    and "scuba_call_unmap s a = Some (r, s') \<Longrightarrow> kernel_ok s'"
proof -
  show "unat (0x1000 * n) \<le> 2 ^ 31 \<Longrightarrow> scuba_call_generate s a n = Some (p, s') \<Longrightarrow> kernel_ok s'"
    by (auto simp: scuba_call_generate_def Option.bind_eq_Some_conv dest!: with_kmem_state create_virtual_grows intro: memory_kernel [OF assms])
  show "scuba_call_map s a ph cic = Some (r, s') \<Longrightarrow> kernel_ok s'"
    by (auto simp: scuba_call_map_def Option.bind_eq_Some_conv dest!: with_kmem_state map_func_grows intro: memory_kernel [OF assms])
  have "heap m' = heap m" if "scuba_unmap m d a = Some (v, m')" for m d v m'
    using that by (auto simp: scuba_unmap_def Let_def put_def Option.bind_eq_Some_conv split: if_splits)
  then have "grows m m'" if "scuba_unmap m d a = Some (v, m')" for m d v m'
    using grows_refl that by blast
  then show "scuba_call_unmap s a = Some (r, s') \<Longrightarrow> kernel_ok s'"
    by (auto simp: scuba_call_unmap_def Option.bind_eq_Some_conv dest!: with_kmem_state intro: memory_kernel [OF assms])
qed

text \<open>An update of one entry that neither the scheduler nor the allocator looks at.\<close>

lemma same_kernel:
  assumes "kernel_ok s" and "on_proc s i f = Some s'"
    and "\<And>p. pr_pid (f p) = pr_pid p \<and> pr_state (f p) = pr_state p \<and> sleep_to (f p) = sleep_to p \<and> scuba_dir (f p) = scuba_dir p"
  shows "kernel_ok s'"
proof -
  have ok: "sched_ok s"
    using assms(1) by (simp add: kernel_ok_def)
  have s': "i < length (plist s)" "s' = s\<lparr>plist := (plist s)[i := f (plist s ! i)]\<rparr>"
    using assms(2) by (auto simp: on_proc_def rd_eq_Some Option.bind_eq_Some_conv)
  have "sched_ok s'"
    unfolding s'(2) using s'(1) sched_okD(1) [OF ok] assms(3) by (intro sched_ok_same [OF ok]) simp_all
  moreover have n: "num s' = num s"
    by (rule on_proc_pids [OF assms(2)]) (simp add: assms(3))
  moreover have "on_cpu s'"
    using assms(1) assms(3) [of "plist s ! proc_current s"] s'(1)
    by (cases "i = proc_current s") (simp_all add: s'(2) kernel_ok_def on_cpu_def)
  ultimately show ?thesis
    using assms(1) pids_ok_num [OF n] by (simp add: kernel_ok_def)
qed

lemma info_kernel:
  assumes "kernel_ok s" and "process_info kt s pid i ptr str = Some (x, s')"
  shows "kernel_ok s'"
proof -
  have "s' = s \<or> (\<exists>j v. on_proc s j (pr_ppid_update (\<lambda>_. v)) = Some s') \<or>
      (\<exists>j m. on_proc s j (\<lambda>p. p\<lparr>pr_name := take (length (pr_name p)) m\<rparr>) = Some s')"
    using assms(2) unfolding process_info_def Let_def
    by (elim pids_bind if_SomeE) (auto simp: Option.bind_eq_Some_conv split: proc_info.splits if_splits)
  then show ?thesis
    using assms(1) by (auto elim!: same_kernel [rotated])
qed

lemma sched_ok_ticks: "sched_ok (s\<lparr>ticks := t\<rparr>) = sched_ok s"
  by (simp add: sched_ok_def queue_ok_def sleep_ok_def base_ok_def mem_ok_def)

lemma kstep_inv: "kstep fj s t \<Longrightarrow> kernel_ok s \<Longrightarrow> kernel_ok t"
proof (induction rule: kstep.induct)
  case (clock s t)
  then show ?case
    by (simp add: kernel_ok_def on_cpu_def pids_ok_def sched_ok_ticks)
qed (blast intro: schedule_kernel sleep_kernel wakeup_kernel kill_kernel wait_kernel resume_kernel info_kernel scuba_calls_kernel
    bears_kernel create_bears fork_bears user_has_current)+

section \<open>The start\<close>

lemma kernel_directory_frame:
  "i_allign_calloc m sz d = Some (r, m') \<Longrightarrow> kernel_directory m' = kernel_directory m"
  "set_entry m d i f = Some m' \<Longrightarrow> kernel_directory m' = kernel_directory m"
  "set_page m t v p k = Some m' \<Longrightarrow> kernel_directory m' = kernel_directory m"
  "calloc_table m d = Some (r, m') \<Longrightarrow> kernel_directory m' = kernel_directory m"
  by (auto simp: i_allign_calloc_def set_entry_def set_page_def calloc_table_def Option.bind_eq_Some_conv put_def ram_set_def
      split: if_splits)

lemma map_func_kernel_directory:
  assumes "scuba_map_func m d v p k = Some (r, m')"
  shows "kernel_directory m' = kernel_directory m"
  using assms unfolding scuba_map_func_def Let_def
  by (auto simp: Option.bind_eq_Some_conv split: if_splits option.splits dest!: kernel_directory_frame)

lemma map_identity_grows:
  assumes "map_identity m dir i to = Some m'"
  shows "grows m m' \<and> kernel_directory m' = kernel_directory m"
proof (rule map_identity.raw_induct [where P = "\<lambda>m dir i to m'. grows m m' \<and> kernel_directory m' = kernel_directory m", OF _ assms])
  fix rec m dir i to m'
  assume IH: "\<And>m dir i to m'. rec m dir i to = Some m' \<Longrightarrow> grows m m' \<and> kernel_directory m' = kernel_directory m"
    and R: "(if i < to then do {
        (_, s) \<leftarrow> scuba_map_func m dir i i 2;
        rec s dir (i + 0x1000) to
      } else Some m) = Some m'"
  have F: "grows m m1 \<and> kernel_directory m1 = kernel_directory m" if "scuba_map_func m dir i i 2 = Some (r, m1)" for r m1
    using map_func_grows [OF that] map_func_kernel_directory [OF that] by simp
  show "grows m m' \<and> kernel_directory m' = kernel_directory m"
    using R by (elim pids_bind_pair if_SomeE) (auto dest!: F IH intro: grows_trans)
qed

lemma scuba_init_new:
  assumes "scuba_init m vesa = Some m'"
  shows "new_dir_ok m (kernel_directory m') m'"
proof -
  have start: "new_dir_ok m (kernel_directory m2) m2" if "i_directory_create m 0 = Some (kd, m1)"
      "map_identity (m1\<lparr>kernel_directory := kd\<rparr>) kd a b = Some m2" for kd m1 m2 a b
  proof -
    have "new_dir_ok m kd (m1\<lparr>kernel_directory := kd\<rparr>)"
      using directory_create_new [OF that(1)] by (simp add: new_dir_ok_def)
    then show ?thesis
      using map_identity_grows [OF that(2)] new_dir_grows by auto
  qed
  have more: "new_dir_ok m (kernel_directory m3) m3" if "new_dir_ok m (kernel_directory m2) m2" "map_identity m2 d a b = Some m3" for m2 m3 d a b
    using map_identity_grows [OF that(2)] new_dir_grows [OF that(1)] by simp
  have fin: "new_dir_ok m d (x\<lparr>cr3 := c, paging := True\<rparr>) = new_dir_ok m d x" for d x c
    by (simp add: new_dir_ok_def)
  show ?thesis
    using assms unfolding scuba_init_def Let_def
    by (elim pids_bind_pair pids_bind) (auto simp: fin split: option.splits dest!: start dest: more)
qed

text \<open>The memory is set up, then virtual memory, then the processes.\<close>

definition booted :: "u32 \<Rightarrow> sched \<Rightarrow> bool" where
  "booted fj s \<longleftrightarrow> (\<exists>m0 bs vesa m fl t0 idle. snow_ok (heap m0) bs \<and> scuba_init m0 vesa = Some m \<and>
     process_init fj m fl t0 idle = Some s)"

lemma booted_kernel:
  assumes "booted fj s"
  shows "kernel_ok s"
proof -
  obtain m0 bs vesa m fl t0 idle where B: "snow_ok (heap m0) bs" "scuba_init m0 vesa = Some m" "process_init fj m fl t0 idle = Some s"
    using assms by (auto simp: booted_def)
  obtain bs' where bs': "snow_ok (heap m) bs'" "dir_block bs' (kernel_directory m)"
    using scuba_init_new [OF B(2)] B(1) by (auto simp: new_dir_ok_def)
  show ?thesis
    using process_init_ok [OF B(3) bs'] by (auto simp: kernel_ok_def pids_ok_def num_def)
qed

interpretation kernel: started "kstep fj" kernel_ok "booted fj" for fj
  by unfold_locales (auto intro: kstep_inv booted_kernel)

end
