(* ===== verification/KernelProps.thy ===== *)
theory KernelProps
  imports KernelRun
begin

text \<open>What holds in every state of the kernel from the start on, and which calls always return.\<close>



definition returns :: "('a \<times> sched) option \<Rightarrow> bool" where
  "returns r \<longleftrightarrow> (case r of None \<Rightarrow> False | Some (x, s) \<Rightarrow> kernel_ok s)"

lemma returnsI: "r \<noteq> None \<Longrightarrow> (\<And>x s. r = Some (x, s) \<Longrightarrow> kernel_ok s) \<Longrightarrow> returns r"
  by (auto simp: returns_def)

lemma schedule_total: "sched_ok s \<Longrightarrow> schedule s t \<noteq> None"
  using schedule_ok [of s t] by (metis option.distinct(1))

lemma process_sleep_total:
  assumes "sched_ok s" and "ms = 0 \<or> ms = -1 \<or> wake_time s ms \<noteq> 0"
  shows "process_sleep s pid ms \<noteq> None"
  by (cases rule: process_sleep_cases [OF assms, of pid])
    (use schedule_total assms(1) in \<open>auto simp: becomes_def split: if_splits\<close>)

lemma process_wakeup_total:
  assumes "sched_ok s" and "proc_current s \<in> runnable (plist s)"
  shows "process_wakeup s pid h \<noteq> None"
  using process_wakeup_ok [OF assms, of pid h] by (auto split: if_splits)

lemma process_wait_total:
  assumes "sched_ok s" and "proc_current s \<in> runnable (plist s)"
  shows "process_wait s n bk \<noteq> None"
proof (cases "n < 1")
  case True
  show ?thesis
    by (rule first_dead_ex [OF assms(1)])
      (use process_wait_any [OF assms True, of bk] in \<open>auto simp: wait_any_def takes_def waits_def split: if_splits\<close>)
next
  case False
  then show ?thesis
    using process_wait_one [OF assms, of n bk]
    by (cases "\<exists>i. kid s (word_of_int n) i") (auto simp: wait_one_def waits_def split: if_splits)
qed

lemma process_wait_resume_total:
  assumes "sched_ok s"
  defines "w \<equiv> wait_pid (plist s ! proc_current s)"
  shows "process_wait_resume s \<noteq> None \<longleftrightarrow> w = -1 \<or> 0 < w \<or> (\<exists>i. dead_kid s i)"
proof -
  note R = process_wait_resume_ok [OF assms(1), folded w_def]
  show ?thesis
  proof (cases "w = -1 \<or> 0 < w")
    case False
    have "process_wait_resume s \<noteq> None \<longleftrightarrow> (\<exists>i. dead_kid s i)"
    proof (cases rule: first_dead_ex [OF assms(1)])
      case (1 i)
      then show ?thesis
        using R(3) [OF False 1] by (auto simp: takes_def first_dead_def)
    next
      case 2
      then show ?thesis
        using R(4) [OF False] by simp
    qed
    then show ?thesis
      using False by blast
  qed (use R(2) in auto)
qed

text \<open>
  C36.  From a state that satisfies the invariant, with a user process running, the scheduler, a sleep
  (whose wake-up tick does not wrap to 0), a wake-up, a kill and a wait, up to the point where it blocks,
  always return: none of them halts the kernel, runs out of its tables or reads outside of them; and the
  state after any of them satisfies the invariant again.  The second half of a wait that blocked does so
  exactly when its request is still pending or a child is dead; otherwise it halts the kernel.
\<close>

theorem kernel_calls_return:
  assumes "kernel_ok s" and "user s" and "ms = 0 \<or> ms = -1 \<or> wake_time s ms \<noteq> 0"
  shows "returns (map_option (Pair ()) (schedule s t)) \<and> returns (process_sleep s pid ms) \<and> returns (process_wakeup s pid h) \<and>
    returns (process_kill (Suc PROCESS_MAX) s pid code) \<and> returns (process_wait s n bk) \<and>
    (returns (process_wait_resume s) \<longleftrightarrow> wait_pid (plist s ! proc_current s) = -1 \<or> 0 < wait_pid (plist s ! proc_current s) \<or>
      (\<exists>i. dead_kid s i))"
proof -
  have ok: "sched_ok s" and u: "proc_current s \<in> runnable (plist s)" and l: "proc_current s \<in> lives s"
    using assms(1) user_current [OF assms(2)] assms(2) by (auto simp: kernel_ok_def user_def lives_def live_def)
  have "process_kill (Suc PROCESS_MAX) s pid code \<noteq> None"
    using process_kill_ok [OF ok lives_unique [OF ok l] card_lives, of pid code] by auto
  then have "returns (process_kill (Suc PROCESS_MAX) s pid code)"
    by (rule returnsI) (rule kill_kernel [OF assms(1,2)])
  moreover have "returns (map_option (Pair ()) (schedule s t))"
    using schedule_total [OF ok, of t] schedule_kernel [OF assms(1)] by (auto intro!: returnsI)
  moreover have "returns (process_sleep s pid ms)"
    by (rule returnsI [OF process_sleep_total [OF ok assms(3)]]) (rule sleep_kernel [OF assms])
  moreover have "returns (process_wakeup s pid h)"
    by (rule returnsI [OF process_wakeup_total [OF ok u]]) (rule wakeup_kernel [OF assms(1,2)])
  moreover have "returns (process_wait s n bk)"
    by (rule returnsI [OF process_wait_total [OF ok u]]) (rule wait_kernel [OF assms(1,2)])
  moreover have "returns (process_wait_resume s) \<longleftrightarrow> process_wait_resume s \<noteq> None"
    using resume_kernel [OF assms(1,2)] by (cases "process_wait_resume s") (auto simp: returns_def)
  ultimately show ?thesis
    using process_wait_resume_total [OF ok] by blast
qed

lemma demo_kernel_ok: "kernel_ok demo_sched" "user demo_sched"
  by (simp_all add: kernel_ok_def user_def demo_sched_ok demo_sets on_cpu_def)
    (auto simp: pids_ok_def num_def demo_procs_def demo_sched_def)

theorem kernel_calls_return_witness: "returns (process_kill (Suc PROCESS_MAX) demo_sched 2 7)"
proof -
  have "0 = (0 :: u32) \<or> 0 = (-1 :: u32) \<or> wake_time demo_sched 0 \<noteq> 0"
    by simp
  from kernel_calls_return [OF demo_kernel_ok this] show ?thesis
    by blast
qed

end
