(* ===== verification/ScubaSpace.thy ===== *)
theory ScubaSpace
  imports ScubaHeap
begin

text \<open>
  The address space a directory represents: every table it names is a block of its own, and mapping,
  unmapping and translating act on the pages as on a function.
\<close>

section \<open>Addresses\<close>

lemma page_split: "(v div 0x1000 = w div 0x1000) \<longleftrightarrow> table_index v = table_index w \<and> page_index v = page_index w" for v w :: u32
proof -
  have "x = y \<longleftrightarrow> unat x div 1024 = unat y div 1024 \<and> unat x mod 1024 = unat y mod 1024" for x y :: u32
    unfolding word_unat_eq_iff by (metis mod_div_mult_eq)
  then show ?thesis
    by (simp add: table_index_def page_index_def unat_div unat_mod)
qed

lemma u32_less: "unat v < 4294967296" for v :: u32
  using unsigned_less [of v, where 'a = nat] by simp

lemma table_index_less: "table_index v < 1024"
  using u32_less [of v] by (simp add: table_index_def unat_div div_mult2_eq [symmetric] less_mult_imp_div_less)

lemma page_index_less: "page_index v < 1024"
  by (simp add: page_index_def unat_mod)

lemma frame_round: "4096 dvd unat a \<Longrightarrow> frame_addr (addr_frame a) = a"
proof -
  assume d: "4096 dvd unat a"
  have l: "unat a div 4096 < 1048576"
    using u32_less [of a] by (simp add: less_mult_imp_div_less)
  have "unat (ucast (ucast (a div 0x1000) :: 20 word) :: u32) = unat a div 4096"
    using l by (simp add: unsigned_ucast_eq unat_div unat_mod take_bit_eq_mod)
  then have "unat (frame_addr (addr_frame a)) = unat a div 4096 * 4096 mod 4294967296"
    by (simp add: frame_addr_def addr_frame_def unat_word_ariths)
  then show ?thesis
    using d u32_less [of a] by (simp add: word_unat_eq_iff)
qed

section \<open>Well-formed directories\<close>

definition scuba_block :: "part list \<Rightarrow> u32 \<Rightarrow> bool" where
  "scuba_block bs a \<longleftrightarrow> (\<exists>b\<in>set bs. paddr b = a \<and> pstate b = SNOW_SCUBA)"

definition table_of :: "sdir \<Rightarrow> nat \<Rightarrow> u32" where
  "table_of d i = frame_addr (de_frame (entries d ! i))"

definition space_ok :: "scuba \<Rightarrow> part list \<Rightarrow> u32 \<Rightarrow> sdir \<Rightarrow> bool" where
  "space_ok s bs dir d \<longleftrightarrow> snow_ok (heap s) bs \<and> rd_dir s dir = Some d \<and> scuba_block bs dir \<and> length (entries d) = 1024 \<and>
     (\<forall>i<1024. table_of d i \<noteq> 0 \<longrightarrow> scuba_block bs (table_of d i) \<and> (\<exists>t. rd_table s (table_of d i) = Some t \<and> length t = 1024)) \<and>
     (\<forall>i<1024. \<forall>j<1024. table_of d i \<noteq> 0 \<longrightarrow> table_of d i = table_of d j \<longrightarrow> i = j)"

text \<open>The page an address lies in, when its table exists.\<close>

definition page_at :: "scuba \<Rightarrow> sdir \<Rightarrow> u32 \<Rightarrow> page" where
  "page_at s d v = the (rd_table s (table_of d (table_index v))) ! page_index v"

lemma get_phys_space:
  assumes "space_ok s bs dir d"
  shows "scuba_get_phys s dir v = Some (if table_of d (table_index v) = 0 \<or> \<not> pg_present (page_at s d v) then 0
    else frame_addr (pg_frame (page_at s d v)) + v mod 0x1000)"
proof -
  note i = table_index_less [of v] page_index_less [of v]
  have d: "rd_dir s dir = Some d" "length (entries d) = 1024"
    and t: "table_of d (table_index v) \<noteq> 0 \<Longrightarrow> \<exists>t. rd_table s (table_of d (table_index v)) = Some t \<and> length t = 1024"
    using assms i(1) by (simp_all add: space_ok_def)
  show ?thesis
    using i d t by (auto simp: scuba_get_phys_def Let_def page_at_def table_of_def)
qed

lemma rd_put: "rd_dir (put s a (Dir d)) b = (if b = a then Some d else rd_dir s b)"
  "rd_dir (put s a (Table t)) b = (if b = a then None else rd_dir s b)"
  "rd_table (put s a (Table t)) b = (if b = a then Some t else rd_table s b)"
  "rd_table (put s a (Dir d)) b = (if b = a then None else rd_table s b)"
  by (simp_all add: rd_dir.simps rd_table.simps put_def)

lemma rd_dir_table: "rd_dir s a = Some d \<Longrightarrow> rd_table s a = Some t \<Longrightarrow> False"
  by (auto simp: rd_dir.simps rd_table.simps split: option.splits obj.splits)

section \<open>A page of an existing table\<close>

definition with_page :: "scuba \<Rightarrow> sdir \<Rightarrow> u32 \<Rightarrow> page \<Rightarrow> scuba" where
  "with_page s d v p = put s (table_of d (table_index v))
     (Table ((the (rd_table s (table_of d (table_index v))))[page_index v := p]))"

lemma with_page_ok:
  assumes "space_ok s bs dir d" and "table_of d (table_index v) \<noteq> 0"
  shows "space_ok (with_page s d v p) bs dir d"
    "page_at (with_page s d v p) d w = (if w div 0x1000 = v div 0x1000 then p else page_at s d w)"
proof -
  let ?a = "table_of d (table_index v)"
  note i = table_index_less [of v] page_index_less [of v]
  obtain t where t: "rd_table s ?a = Some t" "length t = 1024"
    using assms i(1) by (auto simp: space_ok_def)
  have ne: "dir \<noteq> ?a"
    using assms(1) t(1) rd_dir_table by (auto simp: space_ok_def)
  show "space_ok (with_page s d v p) bs dir d"
    using assms(1) t ne by (auto simp: space_ok_def with_page_def rd_put) (simp add: put_def)
  have inj: "table_of d (table_index w) = ?a \<longleftrightarrow> table_index w = table_index v"
    using assms table_index_less [of w] i(1) unfolding space_ok_def by metis
  show "page_at (with_page s d v p) d w = (if w div 0x1000 = v div 0x1000 then p else page_at s d w)"
    unfolding page_split using t i by (auto simp: page_at_def with_page_def rd_put inj)
qed

section \<open>A new table\<close>

definition with_entry :: "sdir \<Rightarrow> nat \<Rightarrow> bool \<Rightarrow> u32 \<Rightarrow> sdir" where
  "with_entry d i fk a = d\<lparr>entries := (entries d)[i := new_entry (entries d ! i) fk a]\<rparr>"

lemma table_of_with_entry:
  "4096 dvd unat a \<Longrightarrow> i < length (entries d) \<Longrightarrow> table_of (with_entry d i fk a) j = (if j = i then a else table_of d j)"
  by (auto simp: table_of_def with_entry_def new_entry_def frame_round nth_list_update)

lemma with_entry_ok:
  assumes "space_ok s bs dir d" and "i < 1024" and "scuba_block bs a" and "4096 dvd unat a" and "a \<noteq> 0"
    and "rd_table s a = Some t" and "length t = 1024" and "\<forall>j<1024. table_of d j \<noteq> a"
  shows "space_ok (put s dir (Dir (with_entry d i fk a))) bs dir (with_entry d i fk a)"
proof -
  note [simp] = table_of_with_entry
  have l: "length (entries d) = 1024" "length (entries (with_entry d i fk a)) = 1024"
    using assms(1) by (simp_all add: space_ok_def with_entry_def)
  have ne: "dir \<noteq> a" "\<And>j. j < 1024 \<Longrightarrow> table_of d j \<noteq> 0 \<Longrightarrow> table_of d j \<noteq> dir"
    using assms(1,6) rd_dir_table unfolding space_ok_def by metis+
  have h: "heap (put s dir x) = heap s" for x
    by (simp add: put_def)
  show ?thesis
    unfolding space_ok_def rd_put h
  proof (intro conjI allI impI)
    fix j assume j: "j < 1024" "table_of (with_entry d i fk a) j \<noteq> 0"
    show "scuba_block bs (table_of (with_entry d i fk a) j)"
      using assms j l unfolding space_ok_def by (auto split: if_splits)
    show "\<exists>t. (if table_of (with_entry d i fk a) j = dir then None else rd_table s (table_of (with_entry d i fk a) j)) = Some t \<and> length t = 1024"
      using assms j l ne unfolding space_ok_def by (auto split: if_splits)
    fix k assume "k < 1024" "table_of (with_entry d i fk a) j = table_of (with_entry d i fk a) k"
    then show "j = k"
      using assms j l unfolding space_ok_def by (auto split: if_splits)
  qed (use assms(1) l in \<open>simp_all add: space_ok_def\<close>)
qed

lemma alloc_scuba:
  assumes "snow_ok h bs" and "sz \<noteq> 0" and "unat sz \<le> 2 ^ 31" and "mem_alloc_dir h sz 0x1000 pid dir = Some (r, h')"
  obtains bs' where "snow_ok h' bs'" "\<And>a. scuba_block bs a \<Longrightarrow> scuba_block bs' a"
    "r \<noteq> 0 \<Longrightarrow> \<not> scuba_block bs r" "r \<noteq> 0 \<Longrightarrow> scuba_block bs' r" "4096 dvd unat r"
proof -
  have A: "mem_alloc_func h sz SNOW_SCUBA 0x1000 pid dir = Some (r, h')"
    using assms(4) by (simp add: mem_alloc_dir_def)
  have st: "SNOW_SCUBA \<noteq> SNOW_FREE" "SNOW_SCUBA \<noteq> SNOW_BASE" "SNOW_SCUBA \<noteq> SNOW_MM"
    by (simp_all add: snow_states)
  have al: "unat (0x1000 :: u32) \<le> 2 ^ 30"
    by simp
  have su: "scuba_block (users xs) a = scuba_block xs a" for xs a
    by (auto simp: scuba_block_def users_def snow_states)
  from mem_alloc_func_cases [OF assms(1-3) al st, of pid dir] show thesis
  proof cases
    case 1
    then show thesis
      using A by simp
  next
    case (2 s' bs')
    then have "scuba_block bs' a = scuba_block bs a" for a
      using su by metis
    then show thesis
      using that [of bs'] 2 A by simp
  next
    case (3 q s' pre suf)
    have e: "q = r" "s' = h'"
      using 3(1) A by simp_all
    have d: "scuba_block bs x = scuba_block (pre @ suf) x" for x
      using 3(4) su by metis
    have "distinct (map paddr (pre @ block q sz SNOW_SCUBA pid dir # suf))"
      using snow_ok_base [OF 3(6)] by metis
    then have "\<not> scuba_block (pre @ suf) q"
      by (auto simp: scuba_block_def)
    then show thesis
      using that [of "pre @ block q sz SNOW_SCUBA pid dir # suf"] 3(3,6) e d by (auto simp: scuba_block_def)
  qed
qed

text \<open>A zeroed block for a directory: nothing that the directory reaches changes.\<close>

lemma calloc_space:
  assumes "space_ok s bs dir d" and "sz \<noteq> 0" and "unat sz \<le> 2 ^ 31" and "i_allign_calloc s sz dir = Some (r, s')"
  obtains bs' where "space_ok s' bs' dir d" "objs s' = objs s" "scuba_block bs' r" "\<not> scuba_block bs r"
    "\<And>a. scuba_block bs a \<Longrightarrow> scuba_block bs' a" "4096 dvd unat r" "r \<noteq> 0" "ram s' = (\<lambda>a. if a - r < sz then 0 else ram s a)"
proof -
  have d: "rd_dir s dir = Some d" and h: "snow_ok (heap s) bs"
    using assms(1) by (simp_all add: space_ok_def)
  obtain h' where A: "mem_alloc_dir (heap s) sz 0x1000 (sint (dir_pid d)) dir = Some (r, h')" "r \<noteq> 0"
      "s' = ram_set (s\<lparr>heap := h'\<rparr>) r 0 sz"
    using assms(2,4) d by (auto simp: i_allign_calloc_def Option.bind_eq_Some_conv split: if_splits)
  obtain bs' where B: "snow_ok h' bs'" "\<And>a. scuba_block bs a \<Longrightarrow> scuba_block bs' a"
    "\<not> scuba_block bs r" "scuba_block bs' r" "4096 dvd unat r"
    using alloc_scuba [OF h assms(2,3) A(1)] A(2) by metis
  have "space_ok s' bs' dir d"
    using assms(1) B(1,2) A(3) unfolding space_ok_def by (auto simp: ram_set_def rd_dir.simps rd_table.simps)
  then show thesis
    using that [of bs'] A B by (simp add: ram_set_def fun_eq_iff)
qed

lemma calloc_table_space:
  assumes "space_ok s bs dir d" and "calloc_table s dir = Some (r, s')"
  obtains bs' where "space_ok s' bs' dir d" "rd_table s' r = Some (replicate 1024 zero_page)" "\<And>a. a \<noteq> r \<Longrightarrow> objs s' a = objs s a"
    "scuba_block bs' r" "\<not> scuba_block bs r" "4096 dvd unat r" "r \<noteq> 0" "\<And>a. ram s' a = ram s a \<or> ram s' a = 0"
proof -
  obtain s1 where A: "i_allign_calloc s TABLE_BYTES dir = Some (r, s1)" "s' = put s1 r (Table (replicate 1024 zero_page))"
    using assms(2) by (auto simp: calloc_table_def Option.bind_eq_Some_conv)
  have z: "TABLE_BYTES \<noteq> 0"
    by (simp add: TABLE_BYTES_def)
  obtain bs' where B: "space_ok s1 bs' dir d" "objs s1 = objs s" "scuba_block bs' r" "\<not> scuba_block bs r" "4096 dvd unat r" "r \<noteq> 0"
      "ram s1 = (\<lambda>a. if a - r < TABLE_BYTES then 0 else ram s a)"
    using calloc_space [OF assms(1) z TABLE_BYTES_small(1) A(1)] by metis
  have ne: "r \<noteq> dir" "\<And>j. j < 1024 \<Longrightarrow> table_of d j \<noteq> 0 \<Longrightarrow> r \<noteq> table_of d j"
    using assms(1) B(4) unfolding space_ok_def by metis+
  have h: "heap (put s1 r x) = heap s1" for x
    by (simp add: put_def)
  have "space_ok s' bs' dir d"
    using B(1) ne unfolding A(2) space_ok_def rd_put h by (auto simp: eq_commute [of _ r])
  then show thesis
    using that [of bs'] A(2) B by (auto simp: put_def rd_table.simps)
qed

section \<open>The operations on an address space\<close>

definition kernel_entry :: "sdir \<Rightarrow> nat \<Rightarrow> bool" where
  "kernel_entry d i \<longleftrightarrow> table_of d i \<noteq> 0 \<and> de_fkernel (entries d ! i)"

text \<open>The page of \<open>v\<close> translates to \<open>phys\<close>, every other one as before.\<close>

definition maps :: "scuba \<Rightarrow> u32 \<Rightarrow> u32 \<Rightarrow> u32 \<Rightarrow> scuba \<Rightarrow> bool" where
  "maps s dir v phys s' \<longleftrightarrow> (\<forall>w. scuba_get_phys s' dir w =
     (if w div 0x1000 = v div 0x1000 then Some (phys + w mod 0x1000) else scuba_get_phys s dir w))"

definition unmaps :: "scuba \<Rightarrow> u32 \<Rightarrow> u32 \<Rightarrow> scuba \<Rightarrow> bool" where
  "unmaps s dir v s' \<longleftrightarrow> (\<forall>w. scuba_get_phys s' dir w = (if w div 0x1000 = v div 0x1000 then Some 0 else scuba_get_phys s dir w))"

lemma get_phys_with_page:
  assumes "space_ok s bs dir d" and "table_of d (table_index v) \<noteq> 0"
  shows "scuba_get_phys (with_page s d v p) dir w = (if w div 0x1000 = v div 0x1000
    then Some (if pg_present p then frame_addr (pg_frame p) + w mod 0x1000 else 0) else scuba_get_phys s dir w)"
  unfolding get_phys_space [OF with_page_ok(1) [OF assms]] get_phys_space [OF assms(1)] with_page_ok(2) [OF assms]
  using assms(2) page_split [of w v] by auto

lemma space_table:
  assumes "space_ok s bs dir d" and "table_of d (table_index v) \<noteq> 0"
  obtains t where "rd_table s (table_of d (table_index v)) = Some t" "length t = 1024"
  using assms table_index_less [of v] unfolding space_ok_def by metis

lemma set_page_space:
  assumes "space_ok s bs dir d" and "table_of d (table_index v) \<noteq> 0"
  shows "set_page s (table_of d (table_index v)) v phys mode = Some (with_page s d v ((page_at s d v)\<lparr>pg_frame := addr_frame phys,
    pg_present := True, pg_rw := True, pg_user := True, pg_deepcopy := (mode = 0)\<rparr>))"
  by (rule space_table [OF assms]) (simp add: set_page_def page_index_less with_page_def page_at_def)

lemma set_entry_space:
  assumes "space_ok s bs dir d" and "i < 1024"
  shows "set_entry s dir i (\<lambda>e. new_entry e fk a) = Some (put s dir (Dir (with_entry d i fk a)))"
  using assms by (simp add: set_entry_def with_entry_def space_ok_def)

lemma unmap_space:
  assumes "space_ok s bs dir d"
  shows "scuba_unmap s dir v = (if table_of d (table_index v) = 0 then Some (1, s)
    else Some (0, with_page s d v ((page_at s d v)\<lparr>pg_present := False\<rparr>)))"
proof (cases "table_of d (table_index v) = 0")
  case True
  then show ?thesis
    using assms by (simp add: scuba_unmap_def space_ok_def table_index_less table_of_def)
next
  case False
  show ?thesis
    by (rule space_table [OF assms False])
      (use assms False in \<open>simp add: scuba_unmap_def space_ok_def table_index_less page_index_less with_page_def page_at_def table_of_def\<close>)
qed

text \<open>A new, empty table changes no translation.\<close>

lemma new_table_space:
  assumes "space_ok s bs dir d" and "calloc_table s dir = Some (r, s1)" and "i < 1024" and "table_of d i = 0"
  obtains bs' where "space_ok (put s1 dir (Dir (with_entry d i fk r))) bs' dir (with_entry d i fk r)" "r \<noteq> 0" "4096 dvd unat r"
    "\<And>w. scuba_get_phys (put s1 dir (Dir (with_entry d i fk r))) dir w = scuba_get_phys s dir w"
    "\<And>a. ram s1 a = ram s a \<or> ram s1 a = 0" "space_ok s1 bs' dir d"
proof -
  let ?d = "with_entry d i fk r" and ?s = "put s1 dir (Dir (with_entry d i fk r))"
  obtain bs' where A: "space_ok s1 bs' dir d" "rd_table s1 r = Some (replicate 1024 zero_page)" "\<And>a. a \<noteq> r \<Longrightarrow> objs s1 a = objs s a"
    "scuba_block bs' r" "\<not> scuba_block bs r" "4096 dvd unat r" "r \<noteq> 0" "\<And>a. ram s1 a = ram s a \<or> ram s1 a = 0"
    using calloc_table_space [OF assms(1,2)] by metis
  have fresh: "\<forall>j<1024. table_of d j \<noteq> r"
    using A(5,7) assms(1) unfolding space_ok_def by metis
  have ok: "space_ok ?s bs' dir ?d"
    by (rule with_entry_ok [OF A(1) assms(3) A(4,6,7,2) _ fresh]) simp
  have l: "length (entries d) = 1024"
    using A(1) by (simp add: space_ok_def)
  have same: "rd_table ?s (table_of d j) = rd_table s (table_of d j)" if "j < 1024" "table_of d j \<noteq> 0" for j
  proof -
    have "table_of d j \<noteq> r" "table_of d j \<noteq> dir"
      using fresh that assms(1) rd_dir_table unfolding space_ok_def by metis+
    then show ?thesis
      unfolding rd_put using A(3) by (simp add: rd_table.simps)
  qed
  have empty: "rd_table ?s r = Some (replicate 1024 zero_page)"
    using A(1,2) rd_dir_table unfolding rd_put space_ok_def by metis
  have "scuba_get_phys ?s dir w = scuba_get_phys s dir w" for w
    unfolding get_phys_space [OF ok] get_phys_space [OF assms(1)] page_at_def
    using assms(3,4) A(6,7) l same [OF table_index_less] empty
    by (auto simp: table_of_with_entry page_index_less zero_page_def)
  then show thesis
    using that [OF ok] A(1,6,7,8) by blast
qed

lemma map_func_space:
  assumes "space_ok s bs dir d" and "mode \<noteq> 1" and "4096 dvd unat phys"
  obtains (halt) "scuba_map_func s dir v phys mode = None" "table_of d (table_index v) = 0" "calloc_table s dir = None"
  | (refused) "scuba_map_func s dir v phys mode = Some (1, s)" "kernel_entry d (table_index v)" "mode \<noteq> 2"
  | (mapped) s' bs' d' where "scuba_map_func s dir v phys mode = Some (0, s')" "mode = 2 \<or> \<not> kernel_entry d (table_index v)"
      "space_ok s' bs' dir d'" "maps s dir v phys s'" "\<And>j. kernel_entry d' j \<Longrightarrow> kernel_entry d j \<or> mode = 2"
      "\<And>a. ram s' a = ram s a \<or> ram s' a = 0" "table_of d' (table_index v) \<noteq> 0"
proof (cases "table_of d (table_index v) = 0")
  case False
  let ?s = "with_page s d v ((page_at s d v)\<lparr>pg_frame := addr_frame phys,
    pg_present := True, pg_rw := True, pg_user := True, pg_deepcopy := (mode = 0)\<rparr>)"
  have M: "scuba_map_func s dir v phys mode = (if de_fkernel (entries d ! table_index v) \<and> mode \<noteq> 2 then Some (1, s) else Some (0, ?s))"
    using assms(1,2) False set_page_space [OF assms(1) False, of phys mode]
    by (simp add: scuba_map_func_def space_ok_def table_index_less table_of_def)
  have T: "maps s dir v phys ?s"
    by (simp add: maps_def get_phys_with_page [OF assms(1) False] frame_round [OF assms(3)])
  show thesis
  proof (cases "kernel_entry d (table_index v) \<and> mode \<noteq> 2")
    case True
    then show thesis
      using M refused by (simp add: kernel_entry_def)
  next
    case no: False
    then have "scuba_map_func s dir v phys mode = Some (0, ?s)"
      using M False by (auto simp: kernel_entry_def)
    then show thesis
      by (rule mapped [OF _ _ with_page_ok(1) [OF assms(1) False] T]) (use no False in \<open>auto simp: with_page_def put_def\<close>)
  qed
next
  case True
  note i = table_index_less [of v]
  show thesis
  proof (cases "calloc_table s dir")
    case None
    then show thesis
      using halt True assms(1,2) by (simp add: scuba_map_func_def space_ok_def i table_of_def)
  next
    case (Some x)
    obtain r s1 where C: "calloc_table s dir = Some (r, s1)"
      using Some by (cases x) simp
    let ?d = "with_entry d (table_index v) (mode = 2) r"
    let ?s = "put s1 dir (Dir ?d)"
    obtain bs' where A: "space_ok ?s bs' dir ?d" "r \<noteq> 0" "4096 dvd unat r"
      "\<And>w. scuba_get_phys ?s dir w = scuba_get_phys s dir w" "\<And>a. ram s1 a = ram s a \<or> ram s1 a = 0" "space_ok s1 bs' dir d"
      using new_table_space [OF assms(1) C i True] by metis
    have l: "length (entries d) = 1024"
      using assms(1) by (simp add: space_ok_def)
    have t: "table_of ?d (table_index v) = r"
      using A(3) i l by (simp add: table_of_with_entry)
    then have ne: "table_of ?d (table_index v) \<noteq> 0"
      using A(2) by simp
    let ?s' = "with_page ?s ?d v ((page_at ?s ?d v)\<lparr>pg_frame := addr_frame phys,
      pg_present := True, pg_rw := True, pg_user := True, pg_deepcopy := (mode = 0)\<rparr>)"
    have M: "scuba_map_func s dir v phys mode = Some (0, ?s')"
      using assms(1,2) True C set_entry_space [OF A(6) i] set_page_space [OF A(1) ne, of phys mode] t
      by (simp add: scuba_map_func_def space_ok_def i table_of_def)
    have T: "maps s dir v phys ?s'"
      by (simp add: maps_def get_phys_with_page [OF A(1) ne] frame_round [OF assms(3)] A(4))
    have K: "kernel_entry d j \<or> mode = 2" if "kernel_entry ?d j" for j
      using that l i A(3) by (cases "j = table_index v") (auto simp: kernel_entry_def table_of_with_entry, simp_all add: with_entry_def new_entry_def)
    have R: "ram ?s' a = ram s a \<or> ram ?s' a = 0" for a
      using A(5) by (simp add: with_page_def put_def)
    show thesis
      using mapped [OF M _ with_page_ok(1) [OF A(1) ne] T K R ne] True by (simp add: kernel_entry_def)
  qed
qed

lemma unmap_unmaps:
  assumes "space_ok s bs dir d" and "table_of d (table_index v) \<noteq> 0"
  shows "unmaps s dir v (with_page s d v ((page_at s d v)\<lparr>pg_present := False\<rparr>))"
    "space_ok (with_page s d v ((page_at s d v)\<lparr>pg_present := False\<rparr>)) bs dir d"
  using with_page_ok(1) [OF assms] by (simp_all add: unmaps_def get_phys_with_page [OF assms])

end
