(* ===== verification/ScubaRange.thy ===== *)
theory ScubaRange
  imports ScubaSpace
begin

text \<open>Consecutive pages: the two loops of \<open>scuba_create_virtual\<close>.\<close>

section \<open>Ranges of pages\<close>

lemma aligned_page:
  fixes v w :: u32
  assumes "4096 dvd unat v"
  shows "w div 0x1000 = v div 0x1000 \<longleftrightarrow> w - v < 0x1000" and "w div 0x1000 = v div 0x1000 \<Longrightarrow> w mod 0x1000 = w - v"
proof -
  obtain k where k: "unat v = 4096 * k"
    using assms by blast
  have d: "w div 0x1000 = v div 0x1000 \<longleftrightarrow> unat w div 4096 = k"
    by (simp add: word_unat_eq_iff unat_div k)
  have s: "unat (w - v) = (if unat v \<le> unat w then unat w - unat v else unat w + 4294967296 - unat v)"
    using u32_less [of v] by (simp add: unat_sub_if')
  have l: "w - v < 0x1000 \<longleftrightarrow> unat (w - v) < 4096"
    by (simp add: word_less_nat_alt)
  have "k < 1048576"
    using u32_less [of v] k by simp
  then have e: "unat w div 4096 = k \<longleftrightarrow> unat (w - v) < 4096"
    unfolding s k using div_mult_mod_eq [of "unat w" 4096] by (auto simp: not_le)
  show "w div 0x1000 = v div 0x1000 \<longleftrightarrow> w - v < 0x1000"
    using d e l by simp
  assume "w div 0x1000 = v div 0x1000"
  then have "unat w div 4096 = k"
    using d by simp
  then have "unat v \<le> unat w" "unat w - unat v = unat w mod 4096"
    using k div_mult_mod_eq [of "unat w" 4096] by simp_all
  then show "w mod 0x1000 = w - v"
    using s by (simp add: word_unat_eq_iff unat_mod)
qed

lemma aligned_next: "4096 dvd unat v \<Longrightarrow> 4096 dvd unat (v + 0x1000)" for v :: u32
  by (simp add: unat_word_ariths dvd_mod)

lemma range_Suc:
  fixes x :: u32
  assumes "n < 524288"
  shows "x < 0x1000 * of_nat (Suc n) \<longleftrightarrow> x < 0x1000 \<or> x - 0x1000 < 0x1000 * of_nat n"
proof -
  have m: "unat (0x1000 * of_nat m :: u32) = 4096 * m" if "m \<le> 524288" for m
    using that by (simp add: unat_word_ariths unat_of_nat)
  have "unat (x - 0x1000) = (if 4096 \<le> unat x then unat x - 4096 else unat x + 4294967296 - 4096)"
    by (simp add: unat_sub_if')
  then show ?thesis
    using assms m [of n] m [of "Suc n"] by (auto simp: word_less_nat_alt)
qed

section \<open>The loops\<close>

lemma any_mapped_space:
  assumes "space_ok s bs dir d"
  shows "any_mapped s dir v n = Some (\<exists>i<n. scuba_get_phys s dir (v + 0x1000 * of_nat i) \<noteq> Some 0)"
proof (induction n arbitrary: v)
  case (Suc n)
  show ?case
    using get_phys_space [OF assms, of v] by (simp add: Suc.IH Ex_less_Suc2 algebra_simps del: of_nat_Suc) (simp add: algebra_simps)
qed simp

definition maps_range :: "scuba \<Rightarrow> u32 \<Rightarrow> u32 \<Rightarrow> u32 \<Rightarrow> u32 \<Rightarrow> scuba \<Rightarrow> bool" where
  "maps_range s dir v phys len s' \<longleftrightarrow> (\<forall>w. scuba_get_phys s' dir w =
     (if w - v < len then Some (phys + (w - v)) else scuba_get_phys s dir w))"

lemma maps_range_Suc:
  assumes "maps s dir v phys s1" and "maps_range s1 dir (v + 0x1000) (phys + 0x1000) (0x1000 * of_nat n) s2"
    and "4096 dvd unat v" and "n < 524288"
  shows "maps_range s dir v phys (0x1000 * of_nat (Suc n)) s2"
  unfolding maps_range_def
proof
  fix w
  have e: "w - v - 0x1000 = w - (v + 0x1000)" "phys + 0x1000 + (w - (v + 0x1000)) = phys + (w - v)"
    by (simp_all add: algebra_simps)
  note r = range_Suc [OF assms(4), of "w - v", unfolded e]
  show "scuba_get_phys s2 dir w = (if w - v < 0x1000 * of_nat (Suc n) then Some (phys + (w - v)) else scuba_get_phys s dir w)"
    using assms(1,2) aligned_page [OF assms(3), of w] unfolding r maps_range_def maps_def e by (auto simp del: of_nat_Suc)
qed

text \<open>No entry of the range is the kernel's.\<close>

definition user_range :: "sdir \<Rightarrow> u32 \<Rightarrow> u32 \<Rightarrow> bool" where
  "user_range d v len \<longleftrightarrow> (\<forall>w. w - v < len \<longrightarrow> \<not> kernel_entry d (table_index w))"

lemma user_range_Suc:
  assumes "user_range d v (0x1000 * of_nat (Suc n))" and "n < 524288"
  shows "\<not> kernel_entry d (table_index v)" and "user_range d (v + 0x1000) (0x1000 * of_nat n)"
proof -
  have e: "w - v - 0x1000 = w - (v + 0x1000)" for w
    by (simp add: algebra_simps)
  have r: "w - v < 0x1000 * of_nat (Suc n) \<longleftrightarrow> w - v < 0x1000 \<or> w - (v + 0x1000) < 0x1000 * of_nat n" for w
    using range_Suc [OF assms(2), of "w - v"] unfolding e .
  show "\<not> kernel_entry d (table_index v)" and "user_range d (v + 0x1000) (0x1000 * of_nat n)"
    using assms(1) r [of v] unfolding user_range_def r by simp_all
qed

text \<open>The page at \<open>v\<close> has no table, and none can be allocated.\<close>

definition no_table_left :: "scuba \<Rightarrow> u32 \<Rightarrow> u32 \<Rightarrow> bool" where
  "no_table_left s dir v \<longleftrightarrow> calloc_table s dir = None \<and> (\<exists>d. rd_dir s dir = Some d \<and> table_of d (table_index v) = 0)"

lemma map_pages_space:
  assumes "space_ok s bs dir d" and "4096 dvd unat v" and "4096 dvd unat phys" and "n \<le> 524288"
    and "user_range d v (0x1000 * of_nat n)"
  obtains i s' where "map_pages s dir v phys n = None" "i < n" "map_pages s dir v phys i = Some (0, s')"
      "no_table_left s' dir (v + 0x1000 * of_nat i)"
  | s' bs' d' where "map_pages s dir v phys n = Some (0, s')" "space_ok s' bs' dir d'"
      "maps_range s dir v phys (0x1000 * of_nat n) s'" "\<And>a. ram s' a = ram s a \<or> ram s' a = 0"
  using assms
proof (induction n arbitrary: s bs d v phys thesis)
  case 0
  then show ?case
    by (simp add: maps_range_def)
next
  case (Suc n)
  have n: "n < 524288"
    using Suc.prems(6) by simp
  note u = user_range_Suc [OF Suc.prems(7) n]
  have m: "(0 :: int) \<noteq> 1"
    by simp
  show ?case
  proof (cases rule: map_func_space [OF Suc.prems(3) m Suc.prems(5), of v])
    case 1
    have "rd_dir s dir = Some d"
      using Suc.prems(3) by (simp add: space_ok_def)
    then show ?thesis
      using 1 by (intro Suc.prems(1) [of 0 s]) (simp_all add: no_table_left_def)
  next
    case 2
    then show ?thesis
      using u(1) by simp
  next
    case (3 s1 bs1 d1)
    have u1: "user_range d1 (v + 0x1000) (0x1000 * of_nat n)"
      using u(2) 3(5) by (auto simp: user_range_def)
    show ?thesis
    proof (rule Suc.IH [OF _ _ 3(3) aligned_next [OF Suc.prems(4)] aligned_next [OF Suc.prems(5)] _ u1])
      fix i s'
      assume a: "map_pages s1 dir (v + 0x1000) (phys + 0x1000) n = None" "i < n"
        "map_pages s1 dir (v + 0x1000) (phys + 0x1000) i = Some (0, s')" "no_table_left s' dir (v + 0x1000 + 0x1000 * of_nat i)"
      have e: "v + 0x1000 + 0x1000 * of_nat i = v + 0x1000 * of_nat (Suc i)"
        by (simp add: algebra_simps)
      show ?thesis
        using a(1-3) a(4) [unfolded e] 3(1) by (intro Suc.prems(1) [of "Suc i" s']) (simp_all del: of_nat_Suc)
    next
      fix s' bs' d'
      assume a: "map_pages s1 dir (v + 0x1000) (phys + 0x1000) n = Some (0, s')" "space_ok s' bs' dir d'"
        "maps_range s1 dir (v + 0x1000) (phys + 0x1000) (0x1000 * of_nat n) s'" "\<And>a. ram s' a = ram s1 a \<or> ram s' a = 0"
      have "map_pages s dir v phys (Suc n) = Some (0, s')"
        using a(1) 3(1) by simp
      moreover have "ram s' b = ram s b \<or> ram s' b = 0" for b
        using a(4) [of b] 3(6) [of b] by auto
      ultimately show ?thesis
        using Suc.prems(2) a(2) maps_range_Suc [OF 3(4) a(3) Suc.prems(4) n] by blast
    qed (use n in simp)
  qed
qed

end
