(* ===== verification/ScubaProps.thy ===== *)
theory ScubaProps
  imports ScubaRange
begin

text \<open>What mapping, unmapping and allocating pages do to an address space.\<close>

section \<open>An address space\<close>

definition vdemo :: scuba where
  "vdemo = \<lparr>heap = \<lparr>parts = [block MEM_BASE_ADDR 1 SNOW_BASE 0 0\<lparr>pnext := 1\<rparr>, block 0x200000 264 SNOW_MM 0 0\<lparr>pnext := 3\<rparr>,
       zero_part, block 0x200200 64 SNOW_SIMPLE 3 0\<lparr>pnext := 4\<rparr>, block 0x200300 16 SNOW_SIMPLE 4 7\<lparr>pnext := 5\<rparr>,
       block 0x201000 DIR_BYTES SNOW_SCUBA 3 0\<lparr>pnext := 6\<rparr>, zero_part, zero_part, zero_part, zero_part, zero_part],
       parts_addr = 0x200000, alloc_count = 4, free_count = 0, phys_size = 0x400000, instance_count = 0\<rparr>,
     objs = [0x201000 \<mapsto> Dir \<lparr>entries = replicate 1024 zero_entry, dir_pid = 3\<rparr>], ram = (\<lambda>_. 0),
     kernel_directory = 0, cr3 = 0, paging = True\<rparr>"

definition vdemo_blocks :: "part list" where
  "vdemo_blocks = [block MEM_BASE_ADDR 1 SNOW_BASE 0 0, block 0x200000 264 SNOW_MM 0 0, block 0x200200 64 SNOW_SIMPLE 3 0,
     block 0x200300 16 SNOW_SIMPLE 4 7, block 0x201000 DIR_BYTES SNOW_SCUBA 3 0]"

definition vdemo_dir :: sdir where
  "vdemo_dir = \<lparr>entries = replicate 1024 zero_entry, dir_pid = 3\<rparr>"

lemma vdemo_heap: "snow_ok (heap vdemo) vdemo_blocks"
proof (rule snow_okI)
  note [simp] = vdemo_def block_def zero_part_def is_free_def
  show "has_blocks (heap vdemo) 6 vdemo_blocks"
  proof (rule has_blocksI)
    show "slots (parts (heap vdemo)) [0, 1, 3, 4, 5] 6"
      by (simp add: slots_def snow_states)
    show "vdemo_blocks = blocks_at (parts (heap vdemo)) [0, 1, 3, 4, 5]"
      by (simp add: vdemo_blocks_def blk_def)
    show "blocks_ok (phys_size (heap vdemo)) vdemo_blocks"
      by (simp add: blocks_ok_def vdemo_blocks_def MEM_BASE_ADDR_def snow_states DIR_BYTES_def del: block_def)
    show "free_slots (parts (heap vdemo)) = 6"
      by (simp add: free_slots_def snow_states)
  qed simp
  show "block 0x200000 264 SNOW_MM 0 0 \<in> set vdemo_blocks"
    by (simp add: vdemo_blocks_def)
qed (simp_all add: vdemo_def vdemo_blocks_def PART_BYTES_def snow_states)

lemma vdemo_ok: "space_ok vdemo vdemo_blocks 0x201000 vdemo_dir"
  unfolding space_ok_def
proof (intro conjI allI impI)
  show "scuba_block vdemo_blocks 0x201000"
    by (simp add: scuba_block_def vdemo_blocks_def)
qed (simp_all add: vdemo_heap, simp_all add: vdemo_def vdemo_dir_def rd_dir.simps table_of_def zero_entry_def frame_addr_def)

lemma vdemo_no_table: "i < 1024 \<Longrightarrow> table_of vdemo_dir i = 0" "i < 1024 \<Longrightarrow> \<not> kernel_entry vdemo_dir i"
  by (simp_all add: kernel_entry_def table_of_def vdemo_dir_def zero_entry_def frame_addr_def)

section \<open>Mapping a page\<close>

text \<open>
  C37.  \<open>scuba_map_func\<close> on an address space whose tables are blocks of their own, for any page and
  any frame: it halts only when the page has no table and none can be allocated; it refuses (1, no
  change) exactly when the entry is the kernel's and the caller is not; otherwise the page, and no
  other, translates to the frame from then on, and the address space stays well formed.
\<close>

theorem scuba_map_translates:
  assumes "space_ok s bs dir d" and "mode \<noteq> 1" and "4096 dvd unat phys"
  shows "case scuba_map_func s dir v phys mode of
      None \<Rightarrow> table_of d (table_index v) = 0 \<and> calloc_table s dir = None
    | Some (r, s') \<Rightarrow> if kernel_entry d (table_index v) \<and> mode \<noteq> 2 then r = 1 \<and> s' = s
        else r = 0 \<and> maps s dir v phys s' \<and> (\<exists>bs' d'. space_ok s' bs' dir d')"
  by (rule map_func_space [OF assms, of v]) auto

theorem scuba_map_translates_witness:
  "case scuba_map_func vdemo 0x201000 0xC0001000 0x300000 0 of
      None \<Rightarrow> calloc_table vdemo 0x201000 = None
    | Some (r, s') \<Rightarrow> r = 0 \<and> scuba_get_phys s' 0x201000 0xC0001234 = Some 0x300234"
  using scuba_map_translates [OF vdemo_ok, of 0 "0x300000" "0xC0001000"] vdemo_no_table(2) [OF table_index_less]
  by (auto simp: maps_def split: option.splits)

section \<open>Unmapping\<close>

text \<open>
  C38.  \<open>scuba_unmap\<close> always returns: 1 with no change when the page has no table, else the page, and no
  other, translates to 0.  After a successful mapping it undoes it for a page that was not mapped.
\<close>

theorem scuba_unmap_inverse:
  assumes "space_ok s bs dir d" and "mode \<noteq> 1" and "4096 dvd unat phys"
  shows "(case scuba_unmap s dir v of None \<Rightarrow> False
     | Some (r, s') \<Rightarrow> if table_of d (table_index v) = 0 then r = 1 \<and> s' = s else r = 0 \<and> unmaps s dir v s' \<and> space_ok s' bs dir d) \<and>
    (\<forall>s1. scuba_map_func s dir v phys mode = Some (0, s1) \<longrightarrow>
      (\<exists>s2. scuba_unmap s1 dir v = Some (0, s2) \<and> unmaps s dir v s2 \<and> (\<exists>bs' d'. space_ok s2 bs' dir d')))"
proof (intro conjI allI impI)
  show "case scuba_unmap s dir v of None \<Rightarrow> False
     | Some (r, s') \<Rightarrow> if table_of d (table_index v) = 0 then r = 1 \<and> s' = s else r = 0 \<and> unmaps s dir v s' \<and> space_ok s' bs dir d"
    using unmap_unmaps [OF assms(1), of v] by (auto simp: unmap_space [OF assms(1)])
next
  fix s1 assume m: "scuba_map_func s dir v phys mode = Some (0, s1)"
  show "\<exists>s2. scuba_unmap s1 dir v = Some (0, s2) \<and> unmaps s dir v s2 \<and> (\<exists>bs' d'. space_ok s2 bs' dir d')"
  proof (cases rule: map_func_space [OF assms, of v])
    case (3 s' bs' d')
    then have "unmaps s1 dir v (with_page s1 d' v ((page_at s1 d' v)\<lparr>pg_present := False\<rparr>))"
        "space_ok (with_page s1 d' v ((page_at s1 d' v)\<lparr>pg_present := False\<rparr>)) bs' dir d'"
      using m unmap_unmaps [of s1 bs' dir d' v] by auto
    then show ?thesis
      using 3 m unmap_space [of s1 bs' dir d' v] by (auto simp: unmaps_def maps_def)
  qed (use m in auto)
qed

theorem scuba_unmap_inverse_witness:
  "scuba_unmap vdemo 0x201000 0xC0001000 = Some (1, vdemo) \<and>
   (case scuba_map_func vdemo 0x201000 0xC0001000 0x300000 0 of None \<Rightarrow> True
    | Some (r, s1) \<Rightarrow> if r = 0 then map_option (\<lambda>(_, s2). scuba_get_phys s2 0x201000 0xC0001234) (scuba_unmap s1 0x201000 0xC0001000)
        = Some (Some 0) else True)"
  using scuba_unmap_inverse [OF vdemo_ok, of 0 "0x300000" "0xC0001000"] vdemo_no_table(1) [OF table_index_less]
  by (auto simp: unmaps_def split: option.splits)

section \<open>Allocating pages\<close>

lemma count_range:
  fixes n :: u32
  assumes "unat n \<le> 524288" and "n \<noteq> 0"
  shows "0x1000 * n \<noteq> 0" and "unat (0x1000 * n) \<le> 2 ^ 31" and "0x1000 * of_nat (unat n) = 0x1000 * n"
proof -
  have "unat (0x1000 * n) = 4096 * unat n"
    using assms(1) by (simp add: unat_word_ariths)
  then show "0x1000 * n \<noteq> 0" and "unat (0x1000 * n) \<le> 2 ^ 31"
    using assms by (auto simp: word_unat_eq_iff)
  show "0x1000 * of_nat (unat n) = 0x1000 * n"
    by simp
qed

text \<open>
  C39.  \<open>scuba_create_virtual\<close> on up to 2^19 pages (2 GiB) from an aligned address, none of them in a
  table of the kernel: when one of the pages is mapped it returns 0 and changes nothing; otherwise
  it maps the whole range, in order, onto one new block of memory that is zero, leaves every other
  translation as it was, and returns the block.  It halts only when no page of the range is mapped and
  an allocation fails: that of the block, or, once it has mapped the pages before it, that of the
  table a page lacks.
\<close>

theorem scuba_create_virtual_range:
  assumes "space_ok s bs dir d" and "4096 dvd unat v" and "unat n \<le> 524288" and "n \<noteq> 0"
    and "user_range d v (0x1000 * n)"
  shows "case scuba_create_virtual s dir v n of
      None \<Rightarrow> (\<forall>i<unat n. scuba_get_phys s dir (v + 0x1000 * of_nat i) = Some 0) \<and>
        (i_allign_calloc s (0x1000 * n) dir = None \<or>
         (\<exists>r s1 i s2. i_allign_calloc s (0x1000 * n) dir = Some (r, s1) \<and> i < unat n \<and>
            map_pages s1 dir v r i = Some (0, s2) \<and> no_table_left s2 dir (v + 0x1000 * of_nat i)))
    | Some (r, s') \<Rightarrow> if \<exists>i<unat n. scuba_get_phys s dir (v + 0x1000 * of_nat i) \<noteq> Some 0 then r = 0 \<and> s' = s
        else r \<noteq> 0 \<and> \<not> scuba_block bs r \<and> maps_range s dir v r (0x1000 * n) s' \<and>
          (\<forall>a. a - r < 0x1000 * n \<longrightarrow> ram s' a = 0) \<and> (\<exists>bs' d'. space_ok s' bs' dir d')"
proof (cases "\<exists>i<unat n. scuba_get_phys s dir (v + 0x1000 * of_nat i) \<noteq> Some 0")
  case True
  then show ?thesis
    using any_mapped_space [OF assms(1), of v "unat n"] by (simp add: scuba_create_virtual_def)
next
  case False
  note c = count_range [OF assms(3,4)]
  have A: "any_mapped s dir v (unat n) = Some False"
    using any_mapped_space [OF assms(1), of v "unat n"] False by simp
  show ?thesis
  proof (cases "i_allign_calloc s (0x1000 * n) dir")
    case None
    then show ?thesis
      using A False by (simp add: scuba_create_virtual_def)
  next
    case (Some x)
    obtain r s1 where C: "i_allign_calloc s (0x1000 * n) dir = Some (r, s1)"
      using Some by (cases x) simp
    obtain bs1 where B: "space_ok s1 bs1 dir d" "objs s1 = objs s" "\<not> scuba_block bs r" "4096 dvd unat r" "r \<noteq> 0"
        "ram s1 = (\<lambda>a. if a - r < 0x1000 * n then 0 else ram s a)"
      by (rule calloc_space [OF assms(1) c(1,2) C])
    have p: "scuba_get_phys s1 dir w = scuba_get_phys s dir w" for w
    proof -
      have "rd_dir s1 = rd_dir s" "rd_table s1 = rd_table s"
        using B(2) by (simp_all add: fun_eq_iff rd_dir.simps rd_table.simps)
      then show ?thesis
        by (simp add: scuba_get_phys_def cong: if_cong)
    qed
    show ?thesis
    proof (rule map_pages_space [OF B(1) assms(2) B(4) assms(3)])
      show "user_range d v (0x1000 * of_nat (unat n))"
        using assms(5) c(3) by simp
      fix i s2
      assume "map_pages s1 dir v r (unat n) = None" "i < unat n" "map_pages s1 dir v r i = Some (0, s2)"
        "no_table_left s2 dir (v + 0x1000 * of_nat i)"
      then show ?thesis
        using A C False by (auto simp: scuba_create_virtual_def)
    next
      fix s' bs' d' assume m: "map_pages s1 dir v r (unat n) = Some (0, s')" "space_ok s' bs' dir d'"
        "maps_range s1 dir v r (0x1000 * of_nat (unat n)) s'" "\<And>a. ram s' a = ram s1 a \<or> ram s' a = 0"
      have "scuba_create_virtual s dir v n = Some (r, s')"
        using A C m(1) by (simp add: scuba_create_virtual_def)
      moreover have "maps_range s dir v r (0x1000 * n) s'"
        using m(3) p c(3) by (simp add: maps_range_def)
      moreover have "ram s' a = 0" if "a - r < 0x1000 * n" for a
        using m(4) [of a] B(6) that by auto
      ultimately show ?thesis
        using False B(3,5) m(2) by auto
    qed
  qed
qed

lemma vdemo_create: "map_option fst (scuba_create_virtual vdemo 0x201000 0xC0000000 4) = Some 0x203000"
  by code_simp

theorem scuba_create_virtual_range_witness:
  "\<exists>s'. scuba_create_virtual vdemo 0x201000 0xC0000000 4 = Some (0x203000, s') \<and>
    scuba_get_phys s' 0x201000 0xC0003456 = Some 0x206456 \<and> scuba_get_phys s' 0x201000 0xC0004000 = Some 0 \<and> ram s' 0x206456 = 0"
proof -
  have u: "user_range vdemo_dir 0xC0000000 (0x1000 * 4)"
    by (simp add: user_range_def vdemo_no_table(2) [OF table_index_less])
  have z: "scuba_get_phys vdemo 0x201000 w = Some 0" for w
    by (simp add: get_phys_space [OF vdemo_ok] vdemo_no_table(1) [OF table_index_less])
  have "4096 dvd unat (0xC0000000 :: u32)"
    by simp
  from scuba_create_virtual_range [OF vdemo_ok this _ _ u] show ?thesis
    using vdemo_create by (auto simp: z maps_range_def split: option.splits)
qed

end
