(* ===== verification/Sort.thy ===== *)
theory Sort
  imports Prelude "HOL-Library.Multiset"
begin

text \<open>
  \<open>qsort\<close> (\<open>zlibs/libc/funcs/qsort.c\<close>) and \<open>bsearch\<close> (\<open>zlibs/libc/stdlib.c\<close>).  The array is the list of
  its elements: a pointer into it is the index of an element, a difference of pointers is counted in
  elements, and \<open>swapfunc\<close>, which exchanges the bytes of two elements, exchanges the elements.  A read
  or write outside the array is \<open>None\<close>, and so is a loop that does not end.
\<close>

type_synonym 'a cmp = "'a \<Rightarrow> 'a \<Rightarrow> int"

section \<open>The code\<close>

definition swapfunc :: "'a list \<Rightarrow> nat \<Rightarrow> nat \<Rightarrow> 'a list option" where
  "swapfunc xs a b = do {
     x \<leftarrow> rd xs a;
     y \<leftarrow> rd xs b;
     xs \<leftarrow> wr xs a y;
     wr xs b x
   }"

text \<open>\<open>swapfunc\<close> on \<open>n\<close> elements, as \<open>vecswap\<close> calls it.\<close>

fun vecswap :: "'a list \<Rightarrow> nat \<Rightarrow> nat \<Rightarrow> nat \<Rightarrow> 'a list option" where
  "vecswap xs a b 0 = Some xs"
| "vecswap xs a b (Suc n) = do {
     xs \<leftarrow> swapfunc xs a b;
     vecswap xs (a + 1) (b + 1) n
   }"

definition cmp_at :: "'a cmp \<Rightarrow> 'a list \<Rightarrow> nat \<Rightarrow> nat \<Rightarrow> int option" where
  "cmp_at cmp xs i j = do { x \<leftarrow> rd xs i; y \<leftarrow> rd xs j; Some (cmp x y) }"

definition med3 :: "'a cmp \<Rightarrow> 'a list \<Rightarrow> nat \<Rightarrow> nat \<Rightarrow> nat \<Rightarrow> nat option" where
  "med3 cmp xs a b c = do {
     ab \<leftarrow> cmp_at cmp xs a b;
     bc \<leftarrow> cmp_at cmp xs b c;
     ac \<leftarrow> cmp_at cmp xs a c;
     Some (if ab < 0 then (if bc < 0 then b else if ac < 0 then c else a)
       else (if bc > 0 then b else if ac < 0 then a else c))
   }"

text \<open>The two loops of the insertion sort; the second one runs over the places from \<open>pm\<close> on.\<close>

fun sink :: "'a cmp \<Rightarrow> 'a list \<Rightarrow> nat \<Rightarrow> nat \<Rightarrow> 'a list option" where
  "sink cmp xs a 0 = Some xs"
| "sink cmp xs a (Suc l) =
     (if Suc l \<le> a then Some xs
      else do {
        c \<leftarrow> cmp_at cmp xs l (Suc l);
        if c > 0 then do {
          xs \<leftarrow> swapfunc xs (Suc l) l;
          sink cmp xs a l
        }
        else Some xs
      })"

fun insertion_sort :: "'a cmp \<Rightarrow> 'a list \<Rightarrow> nat \<Rightarrow> nat \<Rightarrow> nat \<Rightarrow> 'a list option" where
  "insertion_sort cmp xs a pm 0 = Some xs"
| "insertion_sort cmp xs a pm (Suc n) = do {
     xs \<leftarrow> sink cmp xs a pm;
     insertion_sort cmp xs a (pm + 1) n
   }"

definition choose_pivot :: "'a cmp \<Rightarrow> 'a list \<Rightarrow> nat \<Rightarrow> nat \<Rightarrow> nat option" where
  "choose_pivot cmp xs a n = do {
     let pm = a + n div 2;
     if n \<le> 7 then Some pm
     else do {
       let pl = a;
       let pn = a + (n - 1);
       let d = n div 8;
       (pl, pm, pn) \<leftarrow>
         (if n > 40 then do {
            pl \<leftarrow> med3 cmp xs pl (pl + d) (pl + 2 * d);
            pm \<leftarrow> med3 cmp xs (pm - d) pm (pm + d);
            pn \<leftarrow> med3 cmp xs (pn - 2 * d) (pn - d) pn;
            Some (pl, pm, pn)
          }
          else Some (pl, pm, pn));
       med3 cmp xs pl pm pn
     }
   }"

partial_function (option) scan_up :: "'a cmp \<Rightarrow> 'a list \<Rightarrow> nat \<Rightarrow> nat \<Rightarrow> nat \<Rightarrow> nat \<Rightarrow> bool \<Rightarrow> (nat \<times> nat \<times> bool \<times> 'a list) option" where
  "scan_up cmp xs a pa pb pc sw =
     (if pb \<le> pc then do {
        r \<leftarrow> cmp_at cmp xs pb a;
        if r < 0 then scan_up cmp xs a pa (pb + 1) pc sw
        else if r = 0 then do {
          xs \<leftarrow> swapfunc xs pa pb;
          scan_up cmp xs a (pa + 1) (pb + 1) pc True
        }
        else Some (pa, pb, sw, xs)
      }
      else Some (pa, pb, sw, xs))"

partial_function (option) scan_down :: "'a cmp \<Rightarrow> 'a list \<Rightarrow> nat \<Rightarrow> nat \<Rightarrow> nat \<Rightarrow> nat \<Rightarrow> bool \<Rightarrow> (nat \<times> nat \<times> bool \<times> 'a list) option" where
  "scan_down cmp xs a pb pc pd sw =
     (if pb \<le> pc then do {
        r \<leftarrow> cmp_at cmp xs pc a;
        if r > 0 then scan_down cmp xs a pb (pc - 1) pd sw
        else if r = 0 then do {
          xs \<leftarrow> swapfunc xs pc pd;
          scan_down cmp xs a pb (pc - 1) (pd - 1) True
        }
        else Some (pc, pd, sw, xs)
      }
      else Some (pc, pd, sw, xs))"

partial_function (option) split_loop ::
    "'a cmp \<Rightarrow> 'a list \<Rightarrow> nat \<Rightarrow> nat \<Rightarrow> nat \<Rightarrow> nat \<Rightarrow> nat \<Rightarrow> bool \<Rightarrow> (nat \<times> nat \<times> nat \<times> nat \<times> bool \<times> 'a list) option" where
  "split_loop cmp xs a pa pb pc pd sw = do {
     (pa, pb, sw, xs) \<leftarrow> scan_up cmp xs a pa pb pc sw;
     (pc, pd, sw, xs) \<leftarrow> scan_down cmp xs a pb pc pd sw;
     if pb > pc then Some (pa, pb, pc, pd, sw, xs)
     else do {
       xs \<leftarrow> swapfunc xs pb pc;
       split_loop cmp xs a pa (pb + 1) (pc - 1) pd True
     }
   }"

partial_function (option) qsort :: "'a cmp \<Rightarrow> 'a list \<Rightarrow> nat \<Rightarrow> nat \<Rightarrow> 'a list option" where
  "qsort cmp xs a n =
     (if n < 2 then Some xs
      else if n < 7 then insertion_sort cmp xs a (a + 1) (n - 1)
      else do {
        pm \<leftarrow> choose_pivot cmp xs a n;
        xs \<leftarrow> swapfunc xs a pm;
        (pa, pb, pc, pd, sw, xs) \<leftarrow> split_loop cmp xs a (a + 1) (a + 1) (a + (n - 1)) (a + (n - 1)) False;
        if \<not> sw then insertion_sort cmp xs a (a + 1) (n - 1)
        else do {
          let pn = a + n;
          let d1 = min (pa - a) (pb - pa);
          xs \<leftarrow> vecswap xs a (pb - d1) d1;
          let d1 = min (pd - pc) (pn - pd - 1);
          xs \<leftarrow> vecswap xs pb (pn - d1) d1;
          let d1 = pb - pa;
          let d2 = pd - pc;
          if d1 \<le> d2 then do {
            xs \<leftarrow> (if d1 > 1 then qsort cmp xs a d1 else Some xs);
            if d2 > 1 then qsort cmp xs (pn - d2) d2 else Some xs
          }
          else do {
            xs \<leftarrow> (if d2 > 1 then qsort cmp xs (pn - d2) d2 else Some xs);
            if d1 > 1 then qsort cmp xs a d1 else Some xs
          }
        }
      })"

text \<open>The result is the index of the element, or nothing for \<open>NULL\<close>.\<close>

function bsearch_loop :: "('k \<Rightarrow> 'a \<Rightarrow> int) \<Rightarrow> 'k \<Rightarrow> 'a list \<Rightarrow> nat \<Rightarrow> nat \<Rightarrow> nat option option" where
  "bsearch_loop compar key xs base lim =
     (if lim = 0 then Some None
      else do {
        let p = base + lim div 2;
        x \<leftarrow> rd xs p;
        let c = compar key x;
        if c = 0 then Some (Some p)
        else if c > 0 then bsearch_loop compar key xs (p + 1) ((lim - 1) div 2)
        else bsearch_loop compar key xs base (lim div 2)
      })"
  by pat_completeness auto
termination
  by (relation "measure (\<lambda>(_, _, _, _, lim). lim)") auto

declare bsearch_loop.simps [simp del]

definition bsearch :: "('k \<Rightarrow> 'a \<Rightarrow> int) \<Rightarrow> 'k \<Rightarrow> 'a list \<Rightarrow> nat option option" where
  "bsearch compar key xs = bsearch_loop compar key xs 0 (length xs)"

section \<open>Exchanges\<close>

text \<open>The elements between \<open>a\<close> and \<open>b\<close> (exclusive) are permuted, the others stay.\<close>

definition reorders :: "nat \<Rightarrow> nat \<Rightarrow> 'a list \<Rightarrow> 'a list \<Rightarrow> bool" where
  "reorders a b xs ys \<longleftrightarrow> mset ys = mset xs \<and> length ys = length xs \<and> (\<forall>i<length xs. i < a \<or> b \<le> i \<longrightarrow> ys ! i = xs ! i)"

lemma reorders_refl [simp]: "reorders a b xs xs"
  by (simp add: reorders_def)

lemma reorders_length: "reorders a b xs ys \<Longrightarrow> length ys = length xs"
  by (simp add: reorders_def)

lemma reorders_trans: "reorders a b xs ys \<Longrightarrow> reorders a b ys zs \<Longrightarrow> reorders a b xs zs"
  by (simp add: reorders_def)

lemma reorders_mono: "reorders a b xs ys \<Longrightarrow> a' \<le> a \<Longrightarrow> b \<le> b' \<Longrightarrow> reorders a' b' xs ys"
  by (auto simp: reorders_def)

lemma reorders_outside: "reorders a b xs ys \<Longrightarrow> i < length xs \<Longrightarrow> i < a \<or> b \<le> i \<Longrightarrow> ys ! i = xs ! i"
  by (auto simp: reorders_def)

lemma swapfunc_Some: "i < length xs \<Longrightarrow> j < length xs \<Longrightarrow> swapfunc xs i j = Some (xs[i := xs ! j, j := xs ! i])"
  by (simp add: swapfunc_def)

lemma reorders_swap:
  "a \<le> i \<Longrightarrow> i < b \<Longrightarrow> a \<le> j \<Longrightarrow> j < b \<Longrightarrow> b \<le> length xs \<Longrightarrow> reorders a b xs (xs[i := xs ! j, j := xs ! i])"
  by (auto simp: reorders_def mset_swap nth_list_update)

lemma cmp_at_Some [simp]: "i < length xs \<Longrightarrow> j < length xs \<Longrightarrow> cmp_at cmp xs i j = Some (cmp (xs ! i) (xs ! j))"
  by (simp add: cmp_at_def)

text \<open>The segment is permuted; so a property of all its elements is kept.\<close>

lemma reorders_parts:
  assumes "reorders a b xs ys" and "a \<le> b" and "b \<le> length xs"
  shows "take a ys = take a xs" and "drop b ys = drop b xs" and "mset (mread ys a (b - a)) = mset (mread xs a (b - a))"
proof -
  have split: "mset zs = mset (take a zs) + mset (mread zs a (b - a)) + mset (drop b zs)" if "length zs = length xs" for zs :: "'a list"
    using assms(2) that unfolding mread_def
    by (metis add.assoc append_take_drop_id drop_drop le_add_diff_inverse2 mset_append)
  have l: "length ys = length xs"
    using assms(1) by (rule reorders_length)
  show "take a ys = take a xs" and "drop b ys = drop b xs"
    using assms l by (auto simp: reorders_def intro!: nth_equalityI)
  then show "mset (mread ys a (b - a)) = mset (mread xs a (b - a))"
    using split [of ys] split [of xs] l assms(1) by (simp add: reorders_def)
qed

lemma reorders_set:
  assumes "reorders a b xs ys" and "a \<le> b" and "b \<le> length xs"
  shows "(!) ys ` {a..<b} = (!) xs ` {a..<b}"
proof -
  have "set (mread ys a (b - a)) = set (mread xs a (b - a))"
    using reorders_parts(3) [OF assms] by (metis set_mset_mset)
  moreover have "set (mread zs a (b - a)) = (!) zs ` {a..<b}" if "length zs = length xs" for zs :: "'a list"
  proof -
    have "set (mread zs a (b - a)) = (\<lambda>i. zs ! (a + i)) ` {0..<b - a}"
      using that assms(2,3) unfolding mread_def by (subst nth_image [symmetric]) (auto simp: image_def)
    also have "\<dots> = (!) zs ` ((+) a ` {0..<b - a})"
      by (simp only: image_image)
    also have "(+) a ` {0..<b - a} = {a..<b}"
      using assms(2) by (simp only: image_add_atLeastLessThan) simp
    finally show ?thesis .
  qed
  ultimately show ?thesis
    using reorders_length [OF assms(1)] by simp
qed

lemma vecswap_ok:
  assumes "a + d \<le> b" and "b + d \<le> length xs"
  shows "\<exists>ys. vecswap xs a b d = Some ys \<and> reorders a (b + d) xs ys \<and>
    (\<forall>i<length xs. ys ! i = (if a \<le> i \<and> i < a + d then xs ! (b + (i - a)) else if b \<le> i \<and> i < b + d then xs ! (a + (i - b)) else xs ! i))"
  using assms
proof (induction d arbitrary: xs a b)
  case (Suc d)
  let ?xs = "xs[a := xs ! b, b := xs ! a]"
  obtain ys where ys: "vecswap ?xs (a + 1) (b + 1) d = Some ys" "reorders (a + 1) (b + 1 + d) ?xs ys"
    "\<forall>i<length ?xs. ys ! i = (if a + 1 \<le> i \<and> i < a + 1 + d then ?xs ! (b + 1 + (i - (a + 1)))
      else if b + 1 \<le> i \<and> i < b + 1 + d then ?xs ! (a + 1 + (i - (b + 1))) else ?xs ! i)"
    using Suc.IH [of "a + 1" "b + 1" ?xs] Suc.prems by auto
  have "reorders a (b + Suc d) xs ?xs"
    using Suc.prems by (intro reorders_swap) auto
  then have sh: "reorders a (b + Suc d) xs ys"
    using reorders_mono [OF ys(2), of a "b + Suc d"] by (auto intro: reorders_trans)
  show ?case
  proof (intro exI conjI allI impI)
    show "vecswap xs a b (Suc d) = Some ys"
      using ys(1) Suc.prems by (simp add: swapfunc_Some)
    fix i assume i: "i < length xs"
    show "ys ! i = (if a \<le> i \<and> i < a + Suc d then xs ! (b + (i - a)) else if b \<le> i \<and> i < b + Suc d then xs ! (a + (i - b)) else xs ! i)"
      using ys(3) i Suc.prems by (cases "i = a"; cases "i = b") (auto simp: nth_list_update Suc_diff_Suc not_le)
  qed (rule sh)
qed auto

section \<open>Order\<close>

text \<open>What the C standard asks of the function that compares.\<close>

definition consistent :: "'a cmp \<Rightarrow> bool" where
  "consistent cmp \<longleftrightarrow> (\<forall>x y. cmp x y < 0 \<longleftrightarrow> cmp y x > 0) \<and> (\<forall>x y z. cmp x y \<le> 0 \<longrightarrow> cmp y z \<le> 0 \<longrightarrow> cmp x z \<le> 0)"

lemma consistentD:
  assumes "consistent cmp"
  shows "cmp x y < 0 \<longleftrightarrow> cmp y x > 0" and "cmp x y \<le> 0 \<Longrightarrow> cmp y z \<le> 0 \<Longrightarrow> cmp x z \<le> 0" and "cmp x x = 0" and "cmp x y = 0 \<longleftrightarrow> cmp y x = 0"
proof -
  have s: "cmp x y < 0 \<longleftrightarrow> cmp y x > 0" for x y
    using assms unfolding consistent_def by blast
  show "cmp x y < 0 \<longleftrightarrow> cmp y x > 0"
    by (rule s)
  show "cmp x y \<le> 0 \<Longrightarrow> cmp y z \<le> 0 \<Longrightarrow> cmp x z \<le> 0"
    using assms unfolding consistent_def by blast
  show "cmp x x = 0" "cmp x y = 0 \<longleftrightarrow> cmp y x = 0"
    using s [of x x] s [of x y] s [of y x] by linarith+
qed

definition seg_sorted :: "'a cmp \<Rightarrow> 'a list \<Rightarrow> nat \<Rightarrow> nat \<Rightarrow> bool" where
  "seg_sorted cmp xs a b \<longleftrightarrow> (\<forall>i j. a \<le> i \<longrightarrow> i < j \<longrightarrow> j < b \<longrightarrow> cmp (xs ! i) (xs ! j) \<le> 0)"

definition sorts :: "'a cmp \<Rightarrow> nat \<Rightarrow> nat \<Rightarrow> 'a list \<Rightarrow> 'a list \<Rightarrow> bool" where
  "sorts cmp a b xs ys \<longleftrightarrow> reorders a b xs ys \<and> (consistent cmp \<longrightarrow> seg_sorted cmp ys a b)"

lemma sorts_short: "b \<le> a + 1 \<Longrightarrow> sorts cmp a b xs xs"
  by (simp add: sorts_def seg_sorted_def)

section \<open>Insertion sort\<close>

lemma sink_ok:
  assumes "l < b" and "b \<le> length xs"
  shows "\<exists>ys. sink cmp xs a l = Some ys \<and> reorders a b xs ys \<and>
    (consistent cmp \<longrightarrow> (\<forall>i j. a \<le> i \<longrightarrow> i < j \<longrightarrow> j < b \<longrightarrow> j \<noteq> l \<longrightarrow> cmp (xs ! i) (xs ! j) \<le> 0) \<longrightarrow> seg_sorted cmp ys a b)"
  using assms
proof (induction l arbitrary: xs)
  case 0
  then show ?case
    by (auto simp: seg_sorted_def)
next
  case (Suc l)
  show ?case
  proof (cases "Suc l \<le> a")
    case True
    then show ?thesis
      using Suc.prems by (auto simp: seg_sorted_def)
  next
    case False
    show ?thesis
    proof (cases "cmp (xs ! l) (xs ! Suc l) > 0")
      case True
      let ?xs = "xs[Suc l := xs ! l, l := xs ! Suc l]"
      have sh: "reorders a b xs ?xs"
        using Suc.prems False by (intro reorders_swap) auto
      obtain ys where ys: "sink cmp ?xs a l = Some ys" "reorders a b ?xs ys"
        "consistent cmp \<Longrightarrow> \<forall>i j. a \<le> i \<longrightarrow> i < j \<longrightarrow> j < b \<longrightarrow> j \<noteq> l \<longrightarrow> cmp (?xs ! i) (?xs ! j) \<le> 0 \<Longrightarrow> seg_sorted cmp ys a b"
        using Suc.IH [of ?xs] Suc.prems by auto
      have "\<forall>i j. a \<le> i \<longrightarrow> i < j \<longrightarrow> j < b \<longrightarrow> j \<noteq> l \<longrightarrow> cmp (?xs ! i) (?xs ! j) \<le> 0"
        if "consistent cmp" "\<forall>i j. a \<le> i \<longrightarrow> i < j \<longrightarrow> j < b \<longrightarrow> j \<noteq> Suc l \<longrightarrow> cmp (xs ! i) (xs ! j) \<le> 0"
        using that(2) consistentD(1) [OF that(1), of "xs ! Suc l" "xs ! l"] True Suc.prems False
        by (auto simp: nth_list_update)
      then show ?thesis
        using ys sh Suc.prems True False by (auto simp: swapfunc_Some intro: reorders_trans)
    next
      case no: False
      have "seg_sorted cmp xs a b"
        if c: "consistent cmp" and s: "\<forall>i j. a \<le> i \<longrightarrow> i < j \<longrightarrow> j < b \<longrightarrow> j \<noteq> Suc l \<longrightarrow> cmp (xs ! i) (xs ! j) \<le> 0"
        unfolding seg_sorted_def
      proof (intro allI impI)
        fix i j assume ij: "a \<le> i" "i < j" "j < b"
        consider "j \<noteq> Suc l" | "j = Suc l" "i = l" | "j = Suc l" "i < l"
          using ij by linarith
        then show "cmp (xs ! i) (xs ! j) \<le> 0"
        proof cases
          case 3
          then have "cmp (xs ! i) (xs ! l) \<le> 0"
            using s ij by auto
          then show ?thesis
            using consistentD(2) [OF c, of "xs ! i" "xs ! l" "xs ! Suc l"] no 3 by simp
        qed (use s ij no in auto)
      qed
      then show ?thesis
        using Suc.prems False no by simp
    qed
  qed
qed

lemma insertion_sort_ok:
  assumes "a < pm" and "pm + n \<le> length xs"
  shows "\<exists>ys. insertion_sort cmp xs a pm n = Some ys \<and> reorders a (pm + n) xs ys \<and>
    (consistent cmp \<longrightarrow> seg_sorted cmp xs a pm \<longrightarrow> seg_sorted cmp ys a (pm + n))"
  using assms
proof (induction n arbitrary: xs pm)
  case (Suc n)
  obtain ys where ys: "sink cmp xs a pm = Some ys" "reorders a (pm + 1) xs ys"
    "consistent cmp \<Longrightarrow> seg_sorted cmp xs a pm \<Longrightarrow> seg_sorted cmp ys a (pm + 1)"
    using sink_ok [of pm "pm + 1" xs cmp a] Suc.prems by (auto simp: seg_sorted_def less_Suc_eq)
  obtain zs where zs: "insertion_sort cmp ys a (pm + 1) n = Some zs" "reorders a (pm + 1 + n) ys zs"
    "consistent cmp \<Longrightarrow> seg_sorted cmp ys a (pm + 1) \<Longrightarrow> seg_sorted cmp zs a (pm + 1 + n)"
    using Suc.IH [of "pm + 1" ys] Suc.prems reorders_length [OF ys(2)] by auto
  have "reorders a (pm + Suc n) xs zs"
    using reorders_mono [OF ys(2), of a "pm + Suc n"] zs(2) by (auto intro: reorders_trans)
  then show ?case
    using ys(1,3) zs(1,3) by auto
qed simp

lemma insertion_sort_sorts:
  assumes "0 < n" and "a + n \<le> length xs"
  shows "\<exists>ys. insertion_sort cmp xs a (a + 1) (n - 1) = Some ys \<and> sorts cmp a (a + n) xs ys"
proof -
  have "seg_sorted cmp xs a (a + 1)"
    by (simp add: seg_sorted_def)
  then show ?thesis
    using insertion_sort_ok [of a "a + 1" "n - 1" xs cmp] assms by (auto simp: sorts_def)
qed

end
