(* ===== verification/SortProps.thy ===== *)
theory SortProps
  imports Sort
begin

text \<open>The partition of \<open>qsort\<close>, and what sorting and searching promise.\<close>

section \<open>The partition\<close>

text \<open>
  Below: the pivot at \<open>a\<close>, then elements equal to it up to \<open>pa\<close>, then smaller ones up to \<open>pb\<close>.  Above: larger ones
  from \<open>pc\<close> (exclusive) to \<open>pd\<close>, then equal ones up to \<open>e\<close>.
\<close>

definition lower_part :: "'a cmp \<Rightarrow> 'a \<Rightarrow> 'a list \<Rightarrow> nat \<Rightarrow> nat \<Rightarrow> nat \<Rightarrow> bool" where
  "lower_part cmp v xs a pa pb \<longleftrightarrow> xs ! a = v \<and> (\<forall>i. a < i \<longrightarrow> i < pa \<longrightarrow> cmp (xs ! i) v = 0) \<and> (\<forall>i. pa \<le> i \<longrightarrow> i < pb \<longrightarrow> cmp (xs ! i) v < 0)"

definition upper_part :: "'a cmp \<Rightarrow> 'a \<Rightarrow> 'a list \<Rightarrow> nat \<Rightarrow> nat \<Rightarrow> nat \<Rightarrow> bool" where
  "upper_part cmp v xs pc pd e \<longleftrightarrow> (\<forall>i. pc < i \<longrightarrow> i \<le> pd \<longrightarrow> cmp (xs ! i) v > 0) \<and> (\<forall>i. pd < i \<longrightarrow> i < e \<longrightarrow> cmp (xs ! i) v = 0)"

lemma lower_cong: "lower_part cmp v xs a pa pb \<Longrightarrow> reorders p q xs ys \<Longrightarrow> pb \<le> p \<Longrightarrow> a < p \<Longrightarrow> pb \<le> length xs \<Longrightarrow> a < length xs \<Longrightarrow>
    pa \<le> pb \<Longrightarrow> lower_part cmp v ys a pa pb"
  by (auto simp: lower_part_def reorders_def)

lemma upper_cong: "upper_part cmp v xs pc pd e \<Longrightarrow> reorders p q xs ys \<Longrightarrow> q \<le> Suc pc \<Longrightarrow> pc \<le> pd \<Longrightarrow> pd < e \<Longrightarrow> e \<le> length xs \<Longrightarrow>
    upper_part cmp v ys pc pd e"
  by (auto simp: upper_part_def reorders_def)

lemma scan_up_ok:
  assumes "lower_part cmp v xs a pa pb" and "a < pa" and "pa \<le> pb" and "pb \<le> Suc pc" and "pc < length xs"
  shows "\<exists>pa' pb' sw' ys. scan_up cmp xs a pa pb pc sw = Some (pa', pb', sw', ys) \<and> lower_part cmp v ys a pa' pb' \<and> a < pa' \<and> pa' \<le> pb' \<and>
    pb \<le> pb' \<and> pb' \<le> Suc pc \<and> reorders pa pb' xs ys \<and> (pb' \<le> pc \<longrightarrow> cmp (ys ! pb') v > 0)"
  using assms
proof (induction "Suc pc - pb" arbitrary: xs pa pb sw)
  case 0
  then show ?case
    by (subst scan_up.simps) simp
next
  case (Suc k)
  note p = Suc.prems
  have le: "pb \<le> pc" and k: "k = Suc pc - (pb + 1)"
    using Suc.hyps(2) by auto
  have v: "xs ! a = v" and c: "cmp_at cmp xs pb a = Some (cmp (xs ! pb) v)"
    using p le by (auto simp: lower_part_def)
  consider "cmp (xs ! pb) v < 0" | "cmp (xs ! pb) v = 0" | "cmp (xs ! pb) v > 0"
    by linarith
  then show ?case
  proof cases
    case 1
    have b: "lower_part cmp v xs a pa (pb + 1)"
      using p(1) 1 by (auto simp: lower_part_def less_Suc_eq)
    have s: "scan_up cmp xs a pa pb pc sw = scan_up cmp xs a pa (pb + 1) pc sw"
      using le c 1 by (subst scan_up.simps) simp
    show ?thesis
      using Suc.hyps(1) [OF k b, of sw] p le unfolding s by fastforce
  next
    case 2
    let ?xs = "xs[pa := xs ! pb, pb := xs ! pa]"
    have s: "scan_up cmp xs a pa pb pc sw = scan_up cmp ?xs a (pa + 1) (pb + 1) pc True"
      using le c 2 p by (subst scan_up.simps) (simp add: swapfunc_Some)
    have b: "lower_part cmp v ?xs a (pa + 1) (pb + 1)"
      using p le 2 by (auto simp: lower_part_def nth_list_update less_Suc_eq)
    obtain pa' pb' sw' ys where r: "scan_up cmp ?xs a (pa + 1) (pb + 1) pc True = Some (pa', pb', sw', ys)" "lower_part cmp v ys a pa' pb'"
      "a < pa'" "pa' \<le> pb'" "pb + 1 \<le> pb'" "pb' \<le> Suc pc" "reorders (pa + 1) pb' ?xs ys" "pb' \<le> pc \<longrightarrow> cmp (ys ! pb') v > 0"
      using Suc.hyps(1) [OF k b, of True] p le by auto
    have "reorders pa pb' xs ?xs"
      using p le r(5) by (intro reorders_mono [OF reorders_swap [of pa pa "pb + 1" pb]]) auto
    then have "reorders pa pb' xs ys"
      using reorders_mono [OF r(7), of pa pb'] by (auto intro: reorders_trans)
    then show ?thesis
      using r s by auto
  next
    case 3
    then have "scan_up cmp xs a pa pb pc sw = Some (pa, pb, sw, xs)"
      using le c by (subst scan_up.simps) simp
    then show ?thesis
      using p 3 by simp
  qed
qed

lemma scan_down_ok:
  assumes "upper_part cmp v xs pc pd e" and "xs ! a = v" and "a < pb" and "pb \<le> Suc pc" and "pc \<le> pd" and "pd < e" and "e \<le> length xs"
  shows "\<exists>pc' pd' sw' ys. scan_down cmp xs a pb pc pd sw = Some (pc', pd', sw', ys) \<and> upper_part cmp v ys pc' pd' e \<and> pb \<le> Suc pc' \<and> pc' \<le> pc \<and>
    pc' \<le> pd' \<and> pd' \<le> pd \<and> reorders (Suc pc') (Suc pd) xs ys \<and> (pb \<le> pc' \<longrightarrow> cmp (ys ! pc') v < 0)"
  using assms
proof (induction "Suc pc - pb" arbitrary: xs pc pd sw)
  case 0
  then show ?case
    by (subst scan_down.simps) simp
next
  case (Suc k)
  note p = Suc.prems
  have le: "pb \<le> pc" and k: "k = Suc (pc - 1) - pb" and pos: "0 < pc" "0 < pd"
    using Suc.hyps(2) p by auto
  have c: "cmp_at cmp xs pc a = Some (cmp (xs ! pc) v)"
    using p le by auto
  consider "cmp (xs ! pc) v > 0" | "cmp (xs ! pc) v = 0" | "cmp (xs ! pc) v < 0"
    by linarith
  then show ?case
  proof cases
    case 1
    have b: "upper_part cmp v xs (pc - 1) pd e"
    proof -
      have "pc - 1 < i \<longleftrightarrow> pc = i \<or> pc < i" for i
        using pos by auto
      then show ?thesis
        using p(1) 1 by (auto simp: upper_part_def)
    qed
    have s: "scan_down cmp xs a pb pc pd sw = scan_down cmp xs a pb (pc - 1) pd sw"
      using le c 1 by (subst scan_down.simps) simp
    show ?thesis
      using Suc.hyps(1) [OF k b, of sw] p le unfolding s by fastforce
  next
    case 2
    let ?xs = "xs[pc := xs ! pd, pd := xs ! pc]"
    have s: "scan_down cmp xs a pb pc pd sw = scan_down cmp ?xs a pb (pc - 1) (pd - 1) True"
      using le c 2 p by (subst scan_down.simps) (simp add: swapfunc_Some)
    have b: "upper_part cmp v ?xs (pc - 1) (pd - 1) e"
    proof -
      have "pc - 1 < i \<longleftrightarrow> pc = i \<or> pc < i" "pd - 1 < i \<longleftrightarrow> pd = i \<or> pd < i" "i \<le> pd - 1 \<longleftrightarrow> i < pd" for i
        using pos by auto
      then show ?thesis
        using p le 2 by (auto simp: upper_part_def nth_list_update)
    qed
    have v: "?xs ! a = v"
      using p le by (auto simp: nth_list_update)
    have side: "pb \<le> Suc (pc - 1)" "pc - 1 \<le> pd - 1" "pd - 1 < e" "e \<le> length ?xs"
      using p le pos by simp_all
    obtain pc' pd' sw' ys where r: "scan_down cmp ?xs a pb (pc - 1) (pd - 1) True = Some (pc', pd', sw', ys)" "upper_part cmp v ys pc' pd' e"
      "pb \<le> Suc pc'" "pc' \<le> pc - 1" "pc' \<le> pd'" "pd' \<le> pd - 1" "reorders (Suc pc') (Suc (pd - 1)) ?xs ys" "pb \<le> pc' \<longrightarrow> cmp (ys ! pc') v < 0"
      using Suc.hyps(1) [OF k b v p(3) side, of True] by blast
    have "reorders (Suc pc') (Suc pd) xs ?xs"
      using p le r(4) pos by (intro reorders_swap) auto
    then have sh: "reorders (Suc pc') (Suc pd) xs ys"
      using reorders_mono [OF r(7), of "Suc pc'" "Suc pd"] by (auto intro: reorders_trans)
    have "pc' \<le> pc" "pd' \<le> pd"
      using r(4,6) by simp_all
    then show ?thesis
      unfolding s using r(1,2,3,5,8) sh by blast
  next
    case 3
    then have "scan_down cmp xs a pb pc pd sw = Some (pc, pd, sw, xs)"
      using le c by (subst scan_down.simps) simp
    then show ?thesis
      using p 3 by simp
  qed
qed

lemma split_loop_ok:
  assumes "lower_part cmp v xs a pa pb" and "upper_part cmp v xs pc pd e" and "a < pa" and "pa \<le> pb" and "pb \<le> Suc pc" and "pc \<le> pd" and "pd < e"
    and "e \<le> length xs"
  shows "\<exists>pa' pb' pc' pd' sw' ys. split_loop cmp xs a pa pb pc pd sw = Some (pa', pb', pc', pd', sw', ys) \<and> lower_part cmp v ys a pa' pb' \<and>
    upper_part cmp v ys pc' pd' e \<and> a < pa' \<and> pa' \<le> pb' \<and> pb' = Suc pc' \<and> pc' \<le> pd' \<and> pd' < e \<and> reorders (a + 1) e xs ys"
  using assms
proof (induction "Suc pc - pb" arbitrary: xs pa pb pc pd sw rule: less_induct)
  case less
  note p = less.prems
  have len: "pc < length xs"
    using p by simp
  obtain pa1 pb1 sw1 x1 where u: "scan_up cmp xs a pa pb pc sw = Some (pa1, pb1, sw1, x1)" "lower_part cmp v x1 a pa1 pb1" "a < pa1" "pa1 \<le> pb1"
    "pb \<le> pb1" "pb1 \<le> Suc pc" "reorders pa pb1 xs x1" "pb1 \<le> pc \<longrightarrow> cmp (x1 ! pb1) v > 0"
    using scan_up_ok [OF p(1,3,4,5) len, of sw] by blast
  have v1: "x1 ! a = v"
    using u(2) by (simp add: lower_part_def)
  have a1: "upper_part cmp v x1 pc pd e"
    by (rule upper_cong [OF p(2) u(7,6) p(6,7,8)])
  have l1: "e \<le> length x1" "a < pb1"
    using p(8) reorders_length [OF u(7)] u(3,4) by simp_all
  obtain pc2 pd2 sw2 x2 where d: "scan_down cmp x1 a pb1 pc pd sw1 = Some (pc2, pd2, sw2, x2)" "upper_part cmp v x2 pc2 pd2 e" "pb1 \<le> Suc pc2" "pc2 \<le> pc"
    "pc2 \<le> pd2" "pd2 \<le> pd" "reorders (Suc pc2) (Suc pd) x1 x2" "pb1 \<le> pc2 \<longrightarrow> cmp (x2 ! pc2) v < 0"
    using scan_down_ok [OF a1 v1 l1(2) u(6) p(6,7) l1(1), of sw1] by blast
  have l2: "length x2 = length xs"
    using reorders_length [OF u(7)] reorders_length [OF d(7)] by simp
  have b2: "lower_part cmp v x2 a pa1 pb1"
    by (rule lower_cong [OF u(2) d(7)]) (use d l1 u p reorders_length [OF u(7)] in simp_all)
  have s2: "reorders (a + 1) e xs x2"
    using reorders_trans [OF reorders_mono [OF u(7), of "a + 1" e] reorders_mono [OF d(7), of "a + 1" e]] p u d by simp
  show ?case
  proof (cases "pc2 < pb1")
    case True
    then have "split_loop cmp xs a pa pb pc pd sw = Some (pa1, pb1, pc2, pd2, sw2, x2)"
      using u(1) d(1) by (subst split_loop.simps) simp
    moreover have "pb1 = Suc pc2" "pd2 < e"
      using True d(3,6) p(7) by simp_all
    ultimately show ?thesis
      using b2 d(2,5) u(3,4) s2 by blast
  next
    case False
    have up: "cmp (x2 ! pb1) v > 0"
      using u(8) False d(4) reorders_outside [OF d(7), of pb1] l2 len reorders_length [OF u(7)] by auto
    have dn: "cmp (x2 ! pc2) v < 0"
      using d(8) False by simp
    have lt: "pb1 < pc2"
      using up dn False by (cases "pb1 = pc2") auto
    let ?xs = "x2[pb1 := x2 ! pc2, pc2 := x2 ! pb1]"
    have b3: "lower_part cmp v ?xs a pa1 (pb1 + 1)"
      using b2 dn lt l2 len d(4) u(3,4) by (auto simp: lower_part_def nth_list_update less_Suc_eq)
    have a3: "upper_part cmp v ?xs (pc2 - 1) pd2 e"
    proof -
      have "pc2 - 1 < i \<longleftrightarrow> pc2 = i \<or> pc2 < i" for i
        using lt by auto
      then show ?thesis
        using d(2) up lt l2 len d(4,5) by (auto simp: upper_part_def nth_list_update)
    qed
    have s: "split_loop cmp xs a pa pb pc pd sw = split_loop cmp ?xs a pa1 (pb1 + 1) (pc2 - 1) pd2 True"
      using u(1) d(1,4) False l2 len by (subst split_loop.simps) (simp add: swapfunc_Some)
    have side: "Suc (pc2 - 1) - (pb1 + 1) < Suc pc - pb" "pa1 \<le> pb1 + 1" "pb1 + 1 \<le> Suc (pc2 - 1)" "pc2 - 1 \<le> pd2" "pd2 < e" "e \<le> length ?xs"
      using lt u(4,5) d(4,5,6) p(7,8) l2 by simp_all
    obtain pa' pb' pc' pd' sw' ys where r: "split_loop cmp ?xs a pa1 (pb1 + 1) (pc2 - 1) pd2 True = Some (pa', pb', pc', pd', sw', ys)"
      "lower_part cmp v ys a pa' pb'" "upper_part cmp v ys pc' pd' e" "a < pa'" "pa' \<le> pb'" "pb' = Suc pc'" "pc' \<le> pd'" "pd' < e" "reorders (a + 1) e ?xs ys"
      using less.hyps [OF side(1) b3 a3 u(3) side(2-6), of True] by blast
    have "reorders (a + 1) e x2 ?xs"
      using lt u(3,4) d(5,6) p(7,8) l2 by (intro reorders_swap) simp_all
    then have "reorders (a + 1) e xs ys"
      using s2 r(9) by (blast intro: reorders_trans)
    then show ?thesis
      using r s by auto
  qed
qed

lemma med3_in:
  assumes "a < length xs" and "b < length xs" and "c < length xs"
  shows "\<exists>m\<in>{a, b, c}. med3 cmp xs a b c = Some m"
  using assms by (simp add: med3_def)

lemma choose_pivot_in:
  assumes "7 \<le> n" and "a + n \<le> length xs"
  shows "\<exists>m. choose_pivot cmp xs a n = Some m \<and> a \<le> m \<and> m < a + n"
proof -
  let ?d = "n div 8"
  have in_seg: "\<exists>m. med3 cmp xs i j k = Some m \<and> a \<le> m \<and> m < a + n"
    if "i \<in> {a..<a + n}" "j \<in> {a..<a + n}" "k \<in> {a..<a + n}" for i j k
    using med3_in [of i xs j k cmp] that assms(2) by auto
  have d: "8 * ?d \<le> n" "a + n div 2 - ?d \<in> {a..<a + n}" "a + (n - 1) - 2 * ?d \<in> {a..<a + n}" "a + (n - 1) - ?d \<in> {a..<a + n}"
    "a + ?d \<in> {a..<a + n}" "a + 2 * ?d \<in> {a..<a + n}" "a + n div 2 + ?d \<in> {a..<a + n}" "a + n div 2 \<in> {a..<a + n}" "a + (n - 1) \<in> {a..<a + n}"
    "a \<in> {a..<a + n}"
    using assms(1) by auto
  obtain l where l: "med3 cmp xs a (a + ?d) (a + 2 * ?d) = Some l" "a \<le> l" "l < a + n"
    using in_seg d by blast
  obtain m where m: "med3 cmp xs (a + n div 2 - ?d) (a + n div 2) (a + n div 2 + ?d) = Some m" "a \<le> m" "m < a + n"
    using in_seg d by blast
  obtain r where r: "med3 cmp xs (a + (n - 1) - 2 * ?d) (a + (n - 1) - ?d) (a + (n - 1)) = Some r" "a \<le> r" "r < a + n"
    using in_seg d by blast
  show ?thesis
    using in_seg [of l m r] in_seg [of a "a + n div 2" "a + (n - 1)"] d l m r by (auto simp: choose_pivot_def Let_def)
qed

section \<open>The equal elements in the middle\<close>

definition zones :: "'a cmp \<Rightarrow> 'a \<Rightarrow> 'a list \<Rightarrow> nat \<Rightarrow> nat \<Rightarrow> nat \<Rightarrow> nat \<Rightarrow> bool" where
  "zones cmp v xs a l h e \<longleftrightarrow> (\<forall>i\<in>{a..<l}. cmp (xs ! i) v < 0) \<and> (\<forall>i\<in>{l..<h}. xs ! i = v \<or> cmp (xs ! i) v = 0) \<and>
     (\<forall>i\<in>{h..<e}. cmp (xs ! i) v > 0)"

lemma gather_lower:
  assumes "lower_part cmp v xs a pa pb" and "a < pa" and "pa \<le> pb" and "pb \<le> length xs"
  shows "\<exists>ys. vecswap xs a (pb - min (pa - a) (pb - pa)) (min (pa - a) (pb - pa)) = Some ys \<and> reorders a pb xs ys \<and>
    zones cmp v ys a (a + (pb - pa)) pb pb"
proof -
  let ?d = "min (pa - a) (pb - pa)"
  have e: "xs ! i = v" if "a \<le> i" "i < pa" "cmp (xs ! i) v \<noteq> 0" for i
    using assms(1) that by (cases "i = a") (auto simp: lower_part_def)
  have l: "cmp (xs ! i) v < 0" if "pa \<le> i" "i < pb" for i
    using assms(1) that by (simp add: lower_part_def)
  have fit: "a + ?d \<le> pb - ?d" "pb - ?d + ?d \<le> length xs"
    using assms(2-4) by auto
  obtain ys where ys: "vecswap xs a (pb - ?d) ?d = Some ys" "reorders a (pb - ?d + ?d) xs ys"
    "\<forall>i<length xs. ys ! i = (if a \<le> i \<and> i < a + ?d then xs ! (pb - ?d + (i - a))
      else if pb - ?d \<le> i \<and> i < pb - ?d + ?d then xs ! (a + (i - (pb - ?d))) else xs ! i)"
    using vecswap_ok [OF fit] by blast
  obtain r m where rm: "pa = a + r" "pb = a + r + m"
    using assms(2,3) by (metis less_imp_le nat_le_iff_add)
  have "zones cmp v ys a (a + m) pb pb"
  proof (cases "r \<le> m")
    case True
    have y: "ys ! i = (if i < a + r then xs ! (m + i) else if a + m \<le> i then xs ! (i - m) else xs ! i)" if "a \<le> i" "i < pb" for i
      using ys(3) assms(4) True that by (simp add: rm min_absorb1)
    show ?thesis
      using True by (auto simp: zones_def y rm intro!: e l)
  next
    case False
    have y: "ys ! i = (if i < a + m then xs ! (r + i) else if a + r \<le> i then xs ! (i - r) else xs ! i)" if "a \<le> i" "i < pb" for i
      using ys(3) assms(4) False that by (simp add: rm min_absorb2)
    show ?thesis
      using False by (auto simp: zones_def y rm intro!: e l)
  qed
  then have "zones cmp v ys a (a + (pb - pa)) pb pb"
    by (simp add: rm)
  moreover have "reorders a pb xs ys"
    using ys(2) assms(2-4) by simp
  ultimately show ?thesis
    using ys(1) by blast
qed

lemma gather_upper:
  assumes "upper_part cmp v xs pc pd e" and "pc \<le> pd" and "pd < e" and "e \<le> length xs"
  shows "\<exists>ys. vecswap xs (Suc pc) (e - min (pd - pc) (e - pd - 1)) (min (pd - pc) (e - pd - 1)) = Some ys \<and> reorders (Suc pc) e xs ys \<and>
    zones cmp v ys (Suc pc) (Suc pc) (e - (pd - pc)) e"
proof -
  let ?d = "min (pd - pc) (e - pd - 1)"
  have g: "cmp (xs ! i) v > 0" if "pc < i" "i \<le> pd" for i
    using assms(1) that by (simp add: upper_part_def)
  have q: "cmp (xs ! i) v = 0" if "pd < i" "i < e" for i
    using assms(1) that by (simp add: upper_part_def)
  have fit: "Suc pc + ?d \<le> e - ?d" "e - ?d + ?d \<le> length xs"
    using assms(2-4) by auto
  obtain ys where ys: "vecswap xs (Suc pc) (e - ?d) ?d = Some ys" "reorders (Suc pc) (e - ?d + ?d) xs ys"
    "\<forall>i<length xs. ys ! i = (if Suc pc \<le> i \<and> i < Suc pc + ?d then xs ! (e - ?d + (i - Suc pc))
      else if e - ?d \<le> i \<and> i < e - ?d + ?d then xs ! (Suc pc + (i - (e - ?d))) else xs ! i)"
    using vecswap_ok [OF fit] by blast
  obtain r m where rm: "pd = pc + r" "e = pc + r + m + 1"
    using assms(2,3) by (metis Suc_eq_plus1 add_Suc_right less_iff_Suc_add nat_le_iff_add)
  have "zones cmp v ys (Suc pc) (Suc pc) (Suc pc + m) e"
  proof (cases "r \<le> m")
    case True
    have y: "ys ! i = (if i < Suc pc + r then xs ! (m + i) else if Suc pc + m \<le> i then xs ! (i - m) else xs ! i)" if "Suc pc \<le> i" "i < e" for i
      using ys(3) assms(4) True that by (simp add: rm min_absorb1 Suc_diff_Suc)
    show ?thesis
      using True by (auto simp: zones_def y rm intro!: g q)
  next
    case False
    have y: "ys ! i = (if i < Suc pc + m then xs ! (r + i) else if Suc pc + r \<le> i then xs ! (i - r) else xs ! i)" if "Suc pc \<le> i" "i < e" for i
      using ys(3) assms(4) False that by (simp add: rm min_absorb2 Suc_diff_Suc)
    show ?thesis
      using False by (auto simp: zones_def y rm intro!: g q)
  qed
  then have "zones cmp v ys (Suc pc) (Suc pc) (e - (pd - pc)) e"
    by (simp add: rm)
  moreover have "reorders (Suc pc) e xs ys"
    using ys(2) assms(2-4) by simp
  ultimately show ?thesis
    using ys(1) by blast
qed

lemma gather_ok:
  assumes "lower_part cmp v xs a pa pb" and "upper_part cmp v xs pc pd e" and "a < pa" and "pa \<le> pb" and "pb = Suc pc" and "pc \<le> pd" and "pd < e"
    and "e \<le> length xs"
  shows "\<exists>ys zs. vecswap xs a (pb - min (pa - a) (pb - pa)) (min (pa - a) (pb - pa)) = Some ys \<and>
    vecswap ys pb (e - min (pd - pc) (e - pd - 1)) (min (pd - pc) (e - pd - 1)) = Some zs \<and>
    reorders a e xs zs \<and> zones cmp v zs a (a + (pb - pa)) (e - (pd - pc)) e"
proof -
  have len: "pb \<le> length xs"
    using assms(5-8) by simp
  obtain ys where y: "vecswap xs a (pb - min (pa - a) (pb - pa)) (min (pa - a) (pb - pa)) = Some ys" "reorders a pb xs ys"
    "zones cmp v ys a (a + (pb - pa)) pb pb"
    using gather_lower [OF assms(1,3,4) len] by blast
  have ab: "upper_part cmp v ys pc pd e"
    by (rule upper_cong [OF assms(2) y(2) _ assms(6-8)]) (simp add: assms(5))
  have ly: "length ys = length xs"
    by (rule reorders_length [OF y(2)])
  obtain zs where z: "vecswap ys (Suc pc) (e - min (pd - pc) (e - pd - 1)) (min (pd - pc) (e - pd - 1)) = Some zs"
    "reorders (Suc pc) e ys zs" "zones cmp v zs (Suc pc) (Suc pc) (e - (pd - pc)) e"
    using gather_upper [OF ab assms(6,7)] assms(8) ly by auto
  have same: "zs ! i = ys ! i" if "i < pb" for i
    by (rule reorders_outside [OF z(2)]) (use that len ly assms(5) in auto)
  have "zones cmp v zs a (a + (pb - pa)) (e - (pd - pc)) e"
    unfolding zones_def
  proof (intro conjI ballI)
    fix i assume i: "i \<in> {a + (pb - pa)..<e - (pd - pc)}"
    show "zs ! i = v \<or> cmp (zs ! i) v = 0"
      using i y(3) z(3) same [of i] assms(5) by (cases "i < pb") (auto simp: zones_def)
  qed (use y(3) z(3) same assms(3-5) in \<open>auto simp: zones_def\<close>)
  moreover have "reorders a e xs zs"
    using reorders_trans [OF reorders_mono [OF y(2), of a e] reorders_mono [OF z(2), of a e]] assms(3-8) by simp
  ultimately show ?thesis
    using y(1) z(1) assms(5) by blast
qed

section \<open>Sorting\<close>

lemma reorders_elsewhere:
  "reorders p q xs ys \<Longrightarrow> b \<le> p \<or> q \<le> a \<Longrightarrow> b \<le> length xs \<Longrightarrow> (!) ys ` {a..<b} = (!) xs ` {a..<b}"
  by (rule image_cong) (auto simp: reorders_def)

lemma zones_sorted:
  assumes "consistent cmp" and "zones cmp v xs a l h e" and "(!) zs ` {a..<l} = (!) xs ` {a..<l}" and "(!) zs ` {l..<h} = (!) xs ` {l..<h}"
    and "(!) zs ` {h..<e} = (!) xs ` {h..<e}" and "seg_sorted cmp zs a l" and "seg_sorted cmp zs h e" and "l \<le> h"
  shows "seg_sorted cmp zs a e"
proof -
  have lo: "cmp (zs ! i) v < 0" if "i \<in> {a..<l}" for i
    using assms(2,3) imageI [OF that, of "(!) zs"] by (auto simp: zones_def)
  have mid: "zs ! i = v \<or> cmp (zs ! i) v = 0" if "i \<in> {l..<h}" for i
    using assms(2,4) imageI [OF that, of "(!) zs"] by (auto simp: zones_def)
  have hi: "cmp (zs ! i) v > 0" if "i \<in> {h..<e}" for i
    using assms(2,5) imageI [OF that, of "(!) zs"] by (auto simp: zones_def)
  note c = consistentD [OF assms(1)]
  have le: "cmp (zs ! i) v \<le> 0" if "i \<in> {a..<h}" for i
    using lo [of i] mid [of i] that c(3) by (cases "i < l") force+
  have ge: "cmp v (zs ! j) \<le> 0" if "j \<in> {l..<e}" for j
    using hi [of j] mid [of j] that c(1) [of v "zs ! j"] c(3) [of v] c(4) [of "zs ! j" v] by (cases "j < h") force+
  show ?thesis
    unfolding seg_sorted_def
  proof (intro allI impI)
    fix i j assume ij: "a \<le> i" "i < j" "j < e"
    consider "j < l" | "h \<le> i" | "i < h" "l \<le> j"
      by linarith
    then show "cmp (zs ! i) (zs ! j) \<le> 0"
    proof cases
      case 3
      then show ?thesis
        using c(2) [OF le [of i] ge [of j]] ij by simp
    qed (use assms(6,7) ij in \<open>auto simp: seg_sorted_def\<close>)
  qed
qed

text \<open>The two halves, sorted in either order.\<close>

lemma halves_sorted:
  assumes "zones cmp v xs a l h e" and "a \<le> l" and "l \<le> h" and "h \<le> e" and "e \<le> length xs"
    and "sorts cmp a l xs ys \<and> sorts cmp h e ys zs \<or> sorts cmp h e xs ys \<and> sorts cmp a l ys zs"
  shows "sorts cmp a e xs zs"
proof -
  have "sorts cmp a e xs zs"
    if sh: "reorders p q xs ys" "reorders r t ys zs" and s: "consistent cmp \<Longrightarrow> seg_sorted cmp ys p q" "consistent cmp \<Longrightarrow> seg_sorted cmp zs r t"
      and c: "(p, q, r, t) = (a, l, h, e) \<or> (p, q, r, t) = (h, e, a, l)" for p q r t
  proof -
    have ly: "length ys = length xs"
      using sh(1) by (rule reorders_length)
    have b: "p \<le> q" "q \<le> length xs" "r \<le> t" "t \<le> length ys" "q \<le> r \<or> t \<le> p"
      using c assms(2-5) ly by auto
    have "t \<le> p \<or> q \<le> r" "q \<le> length ys" "h \<le> p \<or> q \<le> l" "h \<le> r \<or> t \<le> l" "h \<le> length xs"
      using b c assms(3-5) ly by auto
    then have im: "(!) zs ` {p..<q} = (!) xs ` {p..<q}" "(!) zs ` {r..<t} = (!) xs ` {r..<t}" "(!) zs ` {l..<h} = (!) xs ` {l..<h}"
      using reorders_set [OF sh(1) b(1,2)] reorders_elsewhere [OF sh(2), of q p] reorders_set [OF sh(2) b(3,4)]
        reorders_elsewhere [OF sh(1), of t r] reorders_elsewhere [OF sh(1), of h l] reorders_elsewhere [OF sh(2), of h l] b(4,5) ly
      by simp_all
    have so: "seg_sorted cmp zs p q" "seg_sorted cmp zs r t" if "consistent cmp"
    proof -
      show "seg_sorted cmp zs r t"
        using s(2) that by simp
      have "zs ! i = ys ! i" if "p \<le> i" "i < q" for i
        by (rule reorders_outside [OF sh(2)]) (use that b ly in auto)
      then show "seg_sorted cmp zs p q"
        using s(1) that by (auto simp: seg_sorted_def)
    qed
    have "reorders a e xs zs"
      using reorders_trans [OF reorders_mono [OF sh(1), of a e] reorders_mono [OF sh(2), of a e]] c assms(2-4) by auto
    moreover have "seg_sorted cmp zs a e" if "consistent cmp"
      using zones_sorted [OF that assms(1)] im so [OF that] assms(3) c by auto
    ultimately show ?thesis
      by (simp add: sorts_def)
  qed
  then show ?thesis
    using assms(6) unfolding sorts_def by blast
qed

text \<open>The part of \<open>qsort\<close> after the choice of the pivot, which is at \<open>a\<close>.\<close>

lemma split_ok:
  assumes "7 \<le> n" and "a + n \<le> length xs"
  shows "\<exists>pa pb pc pd sw x y z. split_loop cmp xs a (a + 1) (a + 1) (a + (n - 1)) (a + (n - 1)) False = Some (pa, pb, pc, pd, sw, x) \<and>
    reorders a (a + n) xs x \<and> vecswap x a (pb - min (pa - a) (pb - pa)) (min (pa - a) (pb - pa)) = Some y \<and>
    vecswap y pb (a + n - min (pd - pc) (a + n - pd - 1)) (min (pd - pc) (a + n - pd - 1)) = Some z \<and> reorders a (a + n) x z \<and>
    zones cmp (xs ! a) z a (a + (pb - pa)) (a + n - (pd - pc)) (a + n) \<and>
    pb - pa < n \<and> pd - pc < n \<and> a + (pb - pa) \<le> a + n - (pd - pc) \<and> pd - pc \<le> a + n"
proof -
  have init: "lower_part cmp (xs ! a) xs a (a + 1) (a + 1)" "upper_part cmp (xs ! a) xs (a + (n - 1)) (a + (n - 1)) (a + n)"
    by (auto simp: lower_part_def upper_part_def)
  have side: "a < a + 1" "a + 1 \<le> a + 1" "a + 1 \<le> Suc (a + (n - 1))" "a + (n - 1) \<le> a + (n - 1)" "a + (n - 1) < a + n"
    using assms(1) by simp_all
  obtain pa pb pc pd sw x where s: "split_loop cmp xs a (a + 1) (a + 1) (a + (n - 1)) (a + (n - 1)) False = Some (pa, pb, pc, pd, sw, x)"
    "lower_part cmp (xs ! a) x a pa pb" "upper_part cmp (xs ! a) x pc pd (a + n)" "a < pa" "pa \<le> pb" "pb = Suc pc" "pc \<le> pd" "pd < a + n"
    "reorders (a + 1) (a + n) xs x"
    using split_loop_ok [OF init side assms(2), of False] by blast
  have lx: "a + n \<le> length x"
    using reorders_length [OF s(9)] assms(2) by simp
  obtain y z where g: "vecswap x a (pb - min (pa - a) (pb - pa)) (min (pa - a) (pb - pa)) = Some y"
    "vecswap y pb (a + n - min (pd - pc) (a + n - pd - 1)) (min (pd - pc) (a + n - pd - 1)) = Some z"
    "reorders a (a + n) x z" "zones cmp (xs ! a) z a (a + (pb - pa)) (a + n - (pd - pc)) (a + n)"
    using gather_ok [OF s(2-8) lx] by blast
  have "reorders a (a + n) xs x"
    using reorders_mono [OF s(9), of a "a + n"] by simp
  moreover have "pb - pa < n" "pd - pc < n" "a + (pb - pa) \<le> a + n - (pd - pc)" "pd - pc \<le> a + n"
    using s(4-8) by auto
  ultimately show ?thesis
    using s(1) g by blast
qed

lemma sorts_length: "sorts cmp a b xs ys \<Longrightarrow> length ys = length xs"
  unfolding sorts_def using reorders_length by blast

lemma sorts_after: "reorders a b xs ys \<Longrightarrow> sorts cmp a b ys zs \<Longrightarrow> sorts cmp a b xs zs"
  by (auto simp: sorts_def intro: reorders_trans)

lemma qsort_sorts:
  assumes "a + n \<le> length xs"
  shows "\<exists>ys. qsort cmp xs a n = Some ys \<and> sorts cmp a (a + n) xs ys"
  using assms
proof (induction n arbitrary: a xs rule: less_induct)
  case (less n)
  consider "n < 2" | "2 \<le> n" "n < 7" | "7 \<le> n"
    by linarith
  then show ?case
  proof cases
    case 1
    then show ?thesis
      by (subst qsort.simps) (simp add: sorts_short)
  next
    case 2
    then show ?thesis
      using insertion_sort_sorts [of n a xs cmp] less.prems by (subst qsort.simps) simp
  next
    case 3
    obtain m where m: "choose_pivot cmp xs a n = Some m" "a \<le> m" "m < a + n"
      using choose_pivot_in [OF 3 less.prems] by blast
    let ?xs = "xs[a := xs ! m, m := xs ! a]"
    have sw: "swapfunc xs a m = Some ?xs" "reorders a (a + n) xs ?xs"
      using m 3 less.prems by (simp_all add: swapfunc_Some reorders_swap)
    have lx: "a + n \<le> length ?xs"
      using less.prems by simp
    obtain pa pb pc pd sw x y z where p: "split_loop cmp ?xs a (a + 1) (a + 1) (a + (n - 1)) (a + (n - 1)) False = Some (pa, pb, pc, pd, sw, x)"
      "reorders a (a + n) ?xs x" "vecswap x a (pb - min (pa - a) (pb - pa)) (min (pa - a) (pb - pa)) = Some y"
      "vecswap y pb (a + n - min (pd - pc) (a + n - pd - 1)) (min (pd - pc) (a + n - pd - 1)) = Some z" "reorders a (a + n) x z"
      "zones cmp (?xs ! a) z a (a + (pb - pa)) (a + n - (pd - pc)) (a + n)"
      "pb - pa < n" "pd - pc < n" "a + (pb - pa) \<le> a + n - (pd - pc)" "pd - pc \<le> a + n"
      using split_ok [OF 3 lx] by blast
    have sx: "reorders a (a + n) xs x" "reorders a (a + n) xs z"
      using sw(2) p(2,5) by (blast intro: reorders_trans)+
    have l: "a + n \<le> length x" "a + n \<le> length z"
      using reorders_length [OF sx(1)] reorders_length [OF sx(2)] less.prems by simp_all
    show ?thesis
    proof (cases sw)
      case False
      have e: "qsort cmp xs a n = insertion_sort cmp x a (a + 1) (n - 1)"
        using 3 m(1) \<open>swapfunc xs a m = Some ?xs\<close> p(1) False by (subst qsort.simps) simp
      show ?thesis
        using insertion_sort_sorts [OF _ l(1), of cmp] 3 sx(1) unfolding e by (auto intro: sorts_after)
    next
      case True
      let ?d1 = "pb - pa" and ?d2 = "pd - pc" and ?h = "a + n - (pd - pc)"
      let ?rec = "\<lambda>xs a d. if d > 1 then qsort cmp xs a d else Some xs"
      have rec: "\<exists>ys. ?rec us i d = Some ys \<and> sorts cmp i (i + d) us ys" if "d < n" "i + d \<le> length us" for us i d
        using less.IH [OF that] by (cases "d > 1") (simp_all add: sorts_short)
      have e: "qsort cmp xs a n = (if ?d1 \<le> ?d2 then ?rec z a ?d1 \<bind> (\<lambda>xs. ?rec xs ?h ?d2) else ?rec z ?h ?d2 \<bind> (\<lambda>xs. ?rec xs a ?d1))"
        using 3 m(1) \<open>swapfunc xs a m = Some ?xs\<close> p(1,3,4) True by (subst qsort.simps) (simp add: Let_def cong: if_cong)
      have h: "?h + ?d2 = a + n" "a \<le> a + ?d1" "?h \<le> a + n"
        using p(10) by simp_all
      note half = halves_sorted [OF p(6) h(2) p(9) h(3) l(2)]
      show ?thesis
      proof (cases "?d1 \<le> ?d2")
        case True
        obtain u where u: "?rec z a ?d1 = Some u" "sorts cmp a (a + ?d1) z u"
          using rec [OF p(7), of a z] p(7) l(2) by auto
        have lu: "?h + ?d2 \<le> length u"
          using sorts_length [OF u(2)] l(2) h(1) by simp
        obtain w where w: "?rec u ?h ?d2 = Some w" "sorts cmp ?h (a + n) u w"
          using rec [OF p(8) lu] h(1) by auto
        show ?thesis
          using half [of u w] u w sx(2) True unfolding e by (auto intro: sorts_after)
      next
        case False
        obtain u where u: "?rec z ?h ?d2 = Some u" "sorts cmp ?h (a + n) z u"
          using rec [OF p(8), of ?h z] h(1) l(2) by auto
        have lu: "a + ?d1 \<le> length u"
          using sorts_length [OF u(2)] l(2) p(7) by simp
        obtain w where w: "?rec u a ?d1 = Some w" "sorts cmp a (a + ?d1) u w"
          using rec [OF p(7) lu] by auto
        show ?thesis
          using half [of u w] u w sx(2) False unfolding e by (auto intro: sorts_after)
      qed
    qed
  qed
qed

section \<open>Searching\<close>

lemma bsearch_loop_ok:
  assumes "base + lim \<le> length xs" and "\<forall>i<base. compar key (xs ! i) > 0" and "\<forall>i<length xs. base + lim \<le> i \<longrightarrow> compar key (xs ! i) < 0"
    and "\<forall>i j. i < j \<longrightarrow> j < length xs \<longrightarrow> (compar key (xs ! i) < 0 \<longrightarrow> compar key (xs ! j) < 0) \<and>
      (compar key (xs ! j) > 0 \<longrightarrow> compar key (xs ! i) > 0)"
  shows "case bsearch_loop compar key xs base lim of None \<Rightarrow> False
    | Some None \<Rightarrow> \<forall>x\<in>set xs. compar key x \<noteq> 0
    | Some (Some p) \<Rightarrow> p < length xs \<and> compar key (xs ! p) = 0"
  using assms
proof (induction lim arbitrary: base rule: less_induct)
  case (less lim)
  let ?p = "base + lim div 2"
  let ?c = "compar key (xs ! ?p)"
  show ?case
  proof (cases "lim = 0")
    case True
    have "compar key x \<noteq> 0" if x: "x \<in> set xs" for x
    proof -
      obtain i where "i < length xs" "x = xs ! i"
        using x by (metis in_set_conv_nth)
      then show ?thesis
        using less.prems(2,3) True by (cases "i < base") force+
    qed
    then show ?thesis
      using True by (simp add: bsearch_loop.simps)
  next
    case False
    have p: "?p < length xs" "lim div 2 < lim" "(lim - 1) div 2 < lim" "?p + 1 + (lim - 1) div 2 = base + lim"
      using False less.prems(1) by linarith+
    note mono = less.prems(4)
    consider "?c = 0" | "?c > 0" | "?c < 0"
      by linarith
    then show ?thesis
    proof cases
      case 1
      then show ?thesis
        using False p by (subst bsearch_loop.simps) simp
    next
      case 2
      have lower: "\<forall>i<?p + 1. compar key (xs ! i) > 0"
      proof (intro allI impI)
        fix i assume "i < ?p + 1"
        then have "i = ?p \<or> i < ?p"
          by linarith
        then show "compar key (xs ! i) > 0"
          using mono 2 p(1) by blast
      qed
      have e: "bsearch_loop compar key xs base lim = bsearch_loop compar key xs (?p + 1) ((lim - 1) div 2)"
        using False p 2 by (subst bsearch_loop.simps) simp
      show ?thesis
        unfolding e by (rule less.IH [OF p(3) _ lower _ mono]) (use less.prems(1,3) p(4) in simp_all)
    next
      case 3
      have upper: "\<forall>i<length xs. ?p \<le> i \<longrightarrow> compar key (xs ! i) < 0"
      proof (intro allI impI)
        fix i assume "i < length xs" "?p \<le> i"
        then have "i < length xs" "i = ?p \<or> ?p < i"
          by linarith+
        then show "compar key (xs ! i) < 0"
          using mono 3 by blast
      qed
      have e: "bsearch_loop compar key xs base lim = bsearch_loop compar key xs base (lim div 2)"
        using False p 3 by (subst bsearch_loop.simps) simp
      show ?thesis
        unfolding e by (rule less.IH [OF p(2) _ less.prems(2) upper mono]) (use p(1) in simp)
    qed
  qed
qed

definition finds :: "'a cmp \<Rightarrow> 'a \<Rightarrow> 'a list \<Rightarrow> bool" where
  "finds cmp key xs \<longleftrightarrow> (case bsearch cmp key xs of None \<Rightarrow> False
     | Some None \<Rightarrow> \<forall>x\<in>set xs. cmp key x \<noteq> 0
     | Some (Some i) \<Rightarrow> i < length xs \<and> cmp key (xs ! i) = 0)"

lemma bsearch_sorted:
  assumes "consistent cmp" and "sorted_wrt (\<lambda>x y. cmp x y \<le> 0) xs"
  shows "finds cmp key xs"
  unfolding finds_def bsearch_def
proof (rule bsearch_loop_ok)
  note c = consistentD [OF assms(1)]
  show "\<forall>i j. i < j \<longrightarrow> j < length xs \<longrightarrow> (cmp key (xs ! i) < 0 \<longrightarrow> cmp key (xs ! j) < 0) \<and> (cmp key (xs ! j) > 0 \<longrightarrow> cmp key (xs ! i) > 0)"
  proof (intro allI impI conjI)
    fix i j assume ij: "i < j" "j < length xs"
    have le: "cmp (xs ! i) (xs ! j) \<le> 0"
      using assms(2) ij by (simp add: sorted_wrt_iff_nth_less)
    show "cmp key (xs ! j) < 0" if "cmp key (xs ! i) < 0"
      using c(2) [of "xs ! j" key "xs ! i"] c(2) [OF _ le, of key] c(1) [of "xs ! i" key] c(1) [of key "xs ! j"] c(1) [of key "xs ! i"]
        c(2) [OF le, of key] c(4) [of key "xs ! j"] that by linarith
    show "cmp key (xs ! i) > 0" if "cmp key (xs ! j) > 0"
      using c(2) [of key "xs ! i" "xs ! j"] le that by linarith
  qed
qed simp_all

text \<open>
  C40.  \<open>qsort\<close> always ends, whatever the function that compares answers, permutes the elements of its
  array and writes nothing outside of it.  If the function is consistent, as the standard asks, the
  result is sorted, and \<open>bsearch\<close> in it finds an element equal to the key exactly when there is one.
\<close>

theorem qsort_bsearch:
  assumes "a + n \<le> length xs"
  shows "\<exists>ys. qsort cmp xs a n = Some ys \<and> take a ys = take a xs \<and> drop (a + n) ys = drop (a + n) xs \<and>
    mset (mread ys a n) = mset (mread xs a n) \<and>
    (consistent cmp \<longrightarrow> sorted_wrt (\<lambda>x y. cmp x y \<le> 0) (mread ys a n) \<and> finds cmp key (mread ys a n))"
proof -
  obtain ys where ys: "qsort cmp xs a n = Some ys" "sorts cmp a (a + n) xs ys"
    using qsort_sorts [OF assms] by blast
  have sh: "reorders a (a + n) xs ys" and l: "length ys = length xs"
    using ys(2) sorts_length [OF ys(2)] by (simp_all add: sorts_def)
  have le: "a \<le> a + n"
    by simp
  have "sorted_wrt (\<lambda>x y. cmp x y \<le> 0) (mread ys a n)" if "consistent cmp"
    using ys(2) that assms l by (simp add: sorts_def seg_sorted_def sorted_wrt_iff_nth_less)
  then show ?thesis
    using ys(1) reorders_parts [OF sh le assms] bsearch_sorted by auto
qed

theorem qsort_bsearch_witness:
  "qsort (-) [9, 3, 1, 2, 0 :: int] 1 3 = Some [9, 1, 2, 3, 0] \<and> bsearch (-) 2 [1, 2, 3 :: int] = Some (Some 1)"
proof -
  have c: "consistent ((-) :: int cmp)"
    by (auto simp: consistent_def)
  obtain ys :: "int list" where ys: "qsort (-) [9, 3, 1, 2, 0] 1 3 = Some ys" "take 1 ys = [9]" "drop 4 ys = [0]"
    "mset (mread ys 1 3) = mset [3, 1, 2]" "sorted_wrt (\<lambda>x y. x - y \<le> 0) (mread ys 1 3)"
    using qsort_bsearch [of 1 3 "[9, 3, 1, 2, 0]" "(-)"] c by (auto simp: mread_def)
  have "sorted (mread ys 1 3)"
    using ys(5) by simp
  then have "sort [3, 1, 2] = mread ys 1 3"
    using ys(4) by (intro properties_for_sort) simp_all
  then have "mread ys 1 3 = [1, 2, 3]"
    by simp
  moreover have "ys = take 1 ys @ take 3 (drop 1 ys) @ drop 3 (drop 1 ys)"
    by (simp only: append_take_drop_id)
  then have "ys = take 1 ys @ mread ys 1 3 @ drop 4 ys"
    by (simp add: mread_def)
  ultimately have "ys = [9, 1, 2, 3, 0]"
    using ys(2,3) by simp
  then show ?thesis
    using ys(1) by (simp add: bsearch_def bsearch_loop.simps)
qed

end
