(* ===== verification/Fmopen.thy ===== *)
theory Fmopen
  imports FileOps Afft ProcessCalls Errno
begin

text \<open>
  File descriptors and pipes (\<open>zlibs/modules/fmopen.c\<close>).  Each process has a table of 204 descriptors in
  the page of its address space at \<open>0xB0000000\<close>; \<open>fd_mem\<close> has the tables by the physical address of the
  page.  The pipes are one array of the module.

  The calls into the socket module are recorded as events in \<open>sock_log\<close>; \<open>net\<close> is what they answer.
  \<open>al n\<close> is what \<open>malloc(n)\<close> returns: nothing, or memory with some contents.
\<close>

section \<open>Data\<close>

datatype fd_type = TYPE_FREE | TYPE_FILE | TYPE_AFFT | TYPE_DIR | TYPE_PPRD | TYPE_PPWR | TYPE_SOCK

text \<open>The union of \<open>fd_data_t\<close>; a pipe is its index in the array.\<close>

datatype fd_union = Afft_id int | Pipe nat | Path "byte list" | Sock_id int

record fd_data =
  fd_kind :: fd_type
  fd_sid :: u32
  fd_flags :: u32
  fd_offset :: u32
  fd_ref :: fd_union

record pipe_data =
  buffer_size :: u32
  pipe_buf :: "byte list option"
  current_size :: u32
  rd_offset :: u32
  readers :: "int list"
  writers :: "int list"

datatype sock_call = Sock_close int | Sock_inc_ref int | Sock_recv int u32 | Sock_send int "byte list" | Sock_get_rw int

record fm =
  fm_fs :: filesys
  fm_afft :: "afft_map list"
  fm_sched :: sched
  open_pipes :: "pipe_data list"
  fd_mem :: "u32 \<Rightarrow> fd_data list"
  sock_log :: "sock_call list"

type_synonym net = "sock_call list \<Rightarrow> int"
type_synonym alloc = "u32 \<Rightarrow> byte list option"

definition PIPE_MAX :: nat where "PIPE_MAX = 256"
definition PIPE_MAX_REF :: nat where "PIPE_MAX_REF = 12"
definition MAX_FD :: nat where "MAX_FD = 0x1000 div 20"

definition has :: "u32 \<Rightarrow> u32 \<Rightarrow> bool" where
  "has flags b \<longleftrightarrow> flags AND b \<noteq> 0"

section \<open>Tables and pipes\<close>

text \<open>The table of the running process, through its own address space; an unmapped page is a fault.\<close>

definition fd_page :: "fm \<Rightarrow> u32 option" where
  "fd_page s = do {
     p \<leftarrow> scuba_call_phys (fm_sched s) 0xB0000000;
     if p = 0 then None else Some p
   }"

definition fm_fd_to_data :: "int \<Rightarrow> nat option" where
  "fm_fd_to_data fd = (if fd < 0 \<or> int MAX_FD \<le> fd then None else Some (nat fd))"

definition set_fd :: "fm \<Rightarrow> u32 \<Rightarrow> nat \<Rightarrow> fd_data \<Rightarrow> fm" where
  "set_fd s pg i f = s\<lparr>fd_mem := (fd_mem s)(pg := (fd_mem s pg)[i := f])\<rparr>"

definition set_pipe :: "fm \<Rightarrow> nat \<Rightarrow> pipe_data \<Rightarrow> fm" where
  "set_pipe s k p = s\<lparr>open_pipes := (open_pipes s)[k := p]\<rparr>"

definition sock_event :: "fm \<Rightarrow> sock_call \<Rightarrow> fm" where
  "sock_event s e = s\<lparr>sock_log := sock_log s @ [e]\<rparr>"

definition fm_get_free_fd :: "fm \<Rightarrow> u32 \<Rightarrow> nat option" where
  "fm_get_free_fd s pg = find (\<lambda>i. fd_kind (fd_mem s pg ! i) = TYPE_FREE) [0..<MAX_FD]"

definition fm_get_free_pipe :: "fm \<Rightarrow> nat option" where
  "fm_get_free_pipe s = find (\<lambda>i. pipe_buf (open_pipes s ! i) = None) [0..<PIPE_MAX]"

text \<open>The reference counts: lists of numbers of processes, the used places first, -1 after them.\<close>

definition push_ref :: "int \<Rightarrow> int list \<Rightarrow> int \<times> int list" where
  "push_ref pid rs = (case find (\<lambda>i. rs ! i = -1) [0..<length rs] of None \<Rightarrow> (-1, rs) | Some i \<Rightarrow> (0, rs[i := pid]))"

definition shift_out :: "nat \<Rightarrow> int list \<Rightarrow> int list" where
  "shift_out i rs = take i rs @ drop (Suc i) rs @ [-1]"

definition drop_ref :: "int \<Rightarrow> int list \<Rightarrow> int list" where
  "drop_ref pid rs = (case find (\<lambda>i. rs ! i = pid) [0..<length rs] of None \<Rightarrow> rs | Some i \<Rightarrow> shift_out i rs)"

definition fm_pipe_push_reader :: "fm \<Rightarrow> nat \<Rightarrow> int \<Rightarrow> (int \<times> fm) option" where
  "fm_pipe_push_reader s k pid = do {
     p \<leftarrow> rd (open_pipes s) k;
     let (r, rs) = push_ref pid (readers p);
     Some (r, set_pipe s k (p\<lparr>readers := rs\<rparr>))
   }"

definition fm_pipe_push_writer :: "fm \<Rightarrow> nat \<Rightarrow> int \<Rightarrow> (int \<times> fm) option" where
  "fm_pipe_push_writer s k pid = do {
     p \<leftarrow> rd (open_pipes s) k;
     let (r, rs) = push_ref pid (writers p);
     Some (r, set_pipe s k (p\<lparr>writers := rs\<rparr>))
   }"

definition my_pid :: "fm \<Rightarrow> int option" where
  "my_pid s = map_option sint (process_get_pid (fm_sched s))"

text \<open>A pipe that nobody holds gives its buffer back.\<close>

definition release :: "pipe_data \<Rightarrow> pipe_data option" where
  "release p = do {
     r \<leftarrow> rd (readers p) 0;
     w \<leftarrow> rd (writers p) 0;
     Some (if r = -1 \<and> w = -1 then p\<lparr>pipe_buf := None\<rparr> else p)
   }"

section \<open>Closing\<close>

definition fm_close_data :: "fm \<Rightarrow> u32 \<Rightarrow> nat \<Rightarrow> (int \<times> fm) option" where
  "fm_close_data s pg i = do {
     f \<leftarrow> rd (fd_mem s pg) i;
     if fd_kind f = TYPE_FREE then Some (- EBADF, s)
     else do {
       s \<leftarrow> (case (fd_kind f, fd_ref f) of
           (TYPE_SOCK, Sock_id k) \<Rightarrow> Some (sock_event s (Sock_close k))
         | (TYPE_SOCK, _) \<Rightarrow> None
         | (TYPE_PPRD, Pipe k) \<Rightarrow> do {
             p \<leftarrow> rd (open_pipes s) k;
             pid \<leftarrow> my_pid s;
             p \<leftarrow> release (p\<lparr>readers := drop_ref pid (readers p)\<rparr>);
             Some (set_pipe s k p)
           }
         | (TYPE_PPRD, _) \<Rightarrow> None
         | (TYPE_PPWR, Pipe k) \<Rightarrow> do {
             p \<leftarrow> rd (open_pipes s) k;
             pid \<leftarrow> my_pid s;
             p \<leftarrow> release (p\<lparr>writers := drop_ref pid (writers p)\<rparr>);
             Some (set_pipe s k p)
           }
         | (TYPE_PPWR, _) \<Rightarrow> None
         | _ \<Rightarrow> Some s);
       Some (0, set_fd s pg i (f\<lparr>fd_kind := TYPE_FREE\<rparr>))
     }
   }"

fun close_all :: "fm \<Rightarrow> u32 \<Rightarrow> nat list \<Rightarrow> fm option" where
  "close_all s pg [] = Some s"
| "close_all s pg (i # is) = do {
     f \<leftarrow> rd (fd_mem s pg) i;
     if fd_kind f = TYPE_FREE then close_all s pg is
     else do {
       (_, s) \<leftarrow> fm_close_data s pg i;
       close_all s pg is
     }
   }"

definition fm_atdeath :: "fm \<Rightarrow> u32 \<Rightarrow> (int \<times> fm) option" where
  "fm_atdeath s pid = do {
     dir \<leftarrow> process_get_dir (fm_sched s) pid;
     pg \<leftarrow> scuba_get_phys (kmem (fm_sched s)) dir 0xB0000000;
     if pg = 0 then Some (-1, s)
     else do {
       s \<leftarrow> close_all s pg [0..<MAX_FD];
       Some (0, s)
     }
   }"

definition fm_close :: "fm \<Rightarrow> int \<Rightarrow> (int \<times> fm) option" where
  "fm_close s fd =
     (case fm_fd_to_data fd of None \<Rightarrow> Some (- EBADF, s)
      | Some i \<Rightarrow> do { pg \<leftarrow> fd_page s; fm_close_data s pg i })"

section \<open>Opening\<close>

definition create_new_file :: "filesys \<Rightarrow> byte list \<Rightarrow> (u32 \<times> filesys) option" where
  "create_new_file fs path = (let (parent, cnt) = kfu_sep_path path in kfu_file_create fs parent cnt)"

text \<open>The first half of \<open>fm_reopen\<close>: the container the path names, or the error.\<close>

definition find_or_create :: "filesys \<Rightarrow> byte list \<Rightarrow> u32 \<Rightarrow> ((int + u32) \<times> filesys) option" where
  "find_or_create fs path flags = do {
     (sid, fs) \<leftarrow> kfu_path_to_sid fs SID_ROOT path;
     if sid = SID_NULL then
       (if \<not> has flags O_CREAT then Some (Inl (- ENOENT), fs)
        else if has flags O_DIRECTORY then Some (Inl (- ENOENT), fs)
        else do {
          (sid, fs) \<leftarrow> create_new_file fs path;
          Some (if sid = SID_NULL then Inl (- EACCES) else Inr sid, fs)
        })
     else if has flags O_EXCL then Some (Inl (- EEXIST), fs)
     else do {
       (d, fs) \<leftarrow> kfu_is_dir fs sid;
       if d then
         Some (if flags AND O_ACCMODE \<noteq> O_RDONLY \<or> has flags O_NODIR \<or> has flags O_TRUNC \<or> has flags O_APPEND \<or> has flags O_CREAT
           then Inl (- EISDIR) else Inr sid, fs)
       else Some (if has flags O_DIRECTORY then Inl (- ENOTDIR) else Inr sid, fs)
     }
   }"

text \<open>The second half: the descriptor \<open>i\<close> of the table \<open>pg\<close> is filled in.\<close>

definition fill_fd :: "fm \<Rightarrow> u32 \<Rightarrow> nat \<Rightarrow> u32 \<Rightarrow> byte list \<Rightarrow> u32 \<Rightarrow> (int \<times> fm) option" where
  "fill_fd s pg i sid path flags = do {
     f \<leftarrow> rd (fd_mem s pg) i;
     let f = f\<lparr>fd_flags := flags, fd_sid := sid\<rparr>;
     (file, fs) \<leftarrow> kfu_is_file (fm_fs s) sid;
     if file then do {
       (_, fs) \<leftarrow> (if has flags O_TRUNC then fs_cnt_set_size fs sid 0 else Some (0, fs));
       off \<leftarrow> (if has flags O_APPEND then fs_cnt_get_size fs sid else Some 0);
       Some (int i, set_fd (s\<lparr>fm_fs := fs\<rparr>) pg i (f\<lparr>fd_kind := TYPE_FILE, fd_offset := off\<rparr>))
     }
     else do {
       (dir, fs) \<leftarrow> kfu_is_dir fs sid;
       if dir then Some (int i, set_fd (s\<lparr>fm_fs := fs\<rparr>) pg i (f\<lparr>fd_kind := TYPE_DIR, fd_ref := Path path\<rparr>))
       else do {
         (afft, fs) \<leftarrow> kfu_is_afft fs sid;
         if afft then do {
           (k, fs) \<leftarrow> kfu_afft_get_id fs sid;
           let f = f\<lparr>fd_ref := Afft_id k, fd_offset := 0\<rparr>;
           Some (if k < 0 then (- EACCES, set_fd (s\<lparr>fm_fs := fs\<rparr>) pg i (f\<lparr>fd_kind := TYPE_FREE\<rparr>))
             else (int i, set_fd (s\<lparr>fm_fs := fs\<rparr>) pg i (f\<lparr>fd_kind := TYPE_AFFT\<rparr>)))
         }
         else Some (- EACCES, set_fd (s\<lparr>fm_fs := fs\<rparr>) pg i f)
       }
     }
   }"

definition fm_reopen :: "fm \<Rightarrow> int \<Rightarrow> byte list \<Rightarrow> u32 \<Rightarrow> (int \<times> fm) option" where
  "fm_reopen s fd path flags = do {
     (_, s) \<leftarrow> fm_close s fd;
     (r, fs) \<leftarrow> find_or_create (fm_fs s) path flags;
     let s = s\<lparr>fm_fs := fs\<rparr>;
     case r of Inl e \<Rightarrow> Some (e, s)
     | Inr sid \<Rightarrow> do {
         pg \<leftarrow> fd_page s;
         if fd < 0 then
           (case fm_get_free_fd s pg of None \<Rightarrow> Some (- EMFILE, s)
            | Some i \<Rightarrow> fill_fd s pg i sid path flags)
         else do {
           i \<leftarrow> fm_fd_to_data fd;
           fill_fd s pg i sid path flags
         }
       }
   }"

section \<open>Reading\<close>

text \<open>
  \<open>IoWaits k\<close>: the pipe \<open>k\<close> is empty and has writers, the caller sleeps; \<open>fm_pread_resume\<close> is what it
  does when it runs again.
\<close>

datatype io = IoDone int | IoWaits nat

definition pipe_empty :: "pipe_data \<Rightarrow> bool" where
  "pipe_empty p \<longleftrightarrow> current_size p \<le> rd_offset p"

text \<open>The bytes that are taken out of a pipe; \<open>mem_copy\<close> outside of a buffer is \<open>None\<close>.\<close>

definition pipe_take :: "pipe_data \<Rightarrow> byte list \<Rightarrow> u32 \<Rightarrow> (int \<times> byte list \<times> pipe_data) option" where
  "pipe_take p b n =
     (if pipe_empty p then Some (0, b, p)
      else do {
        let count = sint (current_size p - rd_offset p);
        let count = (if count > sint n then sint n else count);
        let c = unat (word_of_int count :: u32);
        src \<leftarrow> pipe_buf p;
        if unat (rd_offset p) + c \<le> length src \<and> c \<le> length b
        then Some (count, mwrite b 0 (mread src (unat (rd_offset p)) c), p\<lparr>rd_offset := rd_offset p + word_of_int count\<rparr>)
        else None
      })"

definition pipe_read :: "fm \<Rightarrow> nat \<Rightarrow> byte list \<Rightarrow> u32 \<Rightarrow> (io \<times> byte list \<times> fm) option" where
  "pipe_read s k b n = do {
     p \<leftarrow> rd (open_pipes s) k;
     w \<leftarrow> rd (writers p) 0;
     if pipe_empty p \<and> w \<noteq> -1 then do {
       pid \<leftarrow> process_get_pid (fm_sched s);
       (_, sch) \<leftarrow> process_sleep (fm_sched s) pid 10;
       Some (IoWaits k, b, s\<lparr>fm_sched := sch\<rparr>)
     }
     else do {
       (r, b, p) \<leftarrow> pipe_take p b n;
       Some (IoDone r, b, set_pipe s k p)
     }
   }"

text \<open>The end of a transfer: the offset moves when the call used it.\<close>

definition sync_offset :: "fm \<Rightarrow> u32 \<Rightarrow> nat \<Rightarrow> bool \<Rightarrow> int \<Rightarrow> fm option" where
  "sync_offset s pg i sync n = do {
     f \<leftarrow> rd (fd_mem s pg) i;
     Some (if sync then set_fd s pg i (f\<lparr>fd_offset := fd_offset f + word_of_int n\<rparr>) else s)
   }"

definition io_sync :: "u32 \<Rightarrow> nat \<Rightarrow> bool \<Rightarrow> (io \<times> byte list \<times> fm) option \<Rightarrow> (io \<times> byte list \<times> fm) option" where
  "io_sync pg i sync r = do {
     (x, b, s) \<leftarrow> r;
     case x of IoWaits k \<Rightarrow> Some (x, b, s)
     | IoDone n \<Rightarrow> do { s \<leftarrow> sync_offset s pg i sync n; Some (x, b, s) }
   }"

definition fm_pread :: "net \<Rightarrow> fm \<Rightarrow> int \<Rightarrow> byte list \<Rightarrow> nat \<Rightarrow> u32 \<Rightarrow> int \<Rightarrow> (io \<times> byte list \<times> fm) option" where
  "fm_pread net s fd b ptr n offset =
     (case fm_fd_to_data fd of None \<Rightarrow> Some (IoDone (- EBADF), b, s)
      | Some i \<Rightarrow> do {
          pg \<leftarrow> fd_page s;
          f \<leftarrow> rd (fd_mem s pg) i;
          let sync = (offset < 0);
          let off = (if sync then fd_offset f else word_of_int offset);
          case fd_kind f of
            TYPE_DIR \<Rightarrow> Some (IoDone (- EISDIR), b, s)
          | TYPE_SOCK \<Rightarrow> (let s = sock_event s (Sock_recv fd n) in Some (IoDone (net (sock_log s)), b, s))
          | TYPE_FILE \<Rightarrow> do {
              tmp \<leftarrow> fs_cnt_get_size (fm_fs s) (fd_sid f);
              if off > tmp then Some (IoDone (- EINVAL), b, s)
              else do {
                let n = (if off + n > tmp then tmp - off else n);
                (r, b, fs) \<leftarrow> fs_cnt_read (fm_fs s) (fd_sid f) b off n;
                io_sync pg i sync (Some (IoDone (if r \<noteq> 0 then -1 else sint n), b, s\<lparr>fm_fs := fs\<rparr>))
              }
            }
          | TYPE_AFFT \<Rightarrow>
              (case fd_ref f of
                 Afft_id k \<Rightarrow>
                   (let r = afft_read (fm_afft s) (word_of_int k) ptr off n in
                    if r < 0 then Some (IoDone (- EIO), b, s) else io_sync pg i sync (Some (IoDone r, b, s)))
               | _ \<Rightarrow> None)
          | TYPE_PPRD \<Rightarrow>
              (case fd_ref f of Pipe k \<Rightarrow> io_sync pg i sync (pipe_read s k b n) | _ \<Rightarrow> None)
          | _ \<Rightarrow> Some (IoDone (- EBADF), b, s)
        })"

text \<open>A caller that waited takes the first writer that is dead off the list, then looks again.\<close>

fun dead_writer :: "sched \<Rightarrow> int list \<Rightarrow> nat list \<Rightarrow> int list option" where
  "dead_writer sch ws [] = Some ws"
| "dead_writer sch ws (i # is) = do {
     w \<leftarrow> rd ws i;
     if w = -1 then dead_writer sch ws is
     else do {
       (r, _) \<leftarrow> process_info 0 sch (word_of_int w) PROC_INFO_STATE 0 [];
       (case r of Number st \<Rightarrow> if st > 1 then dead_writer sch ws is else Some (shift_out i ws) | Name_at _ \<Rightarrow> None)
     }
   }"

definition fm_pread_resume :: "fm \<Rightarrow> nat \<Rightarrow> nat \<Rightarrow> byte list \<Rightarrow> u32 \<Rightarrow> bool \<Rightarrow> (io \<times> byte list \<times> fm) option" where
  "fm_pread_resume s i k b n sync = do {
     pg \<leftarrow> fd_page s;
     p \<leftarrow> rd (open_pipes s) k;
     ws \<leftarrow> dead_writer (fm_sched s) (writers p) [0..<PIPE_MAX_REF];
     io_sync pg i sync (pipe_read (set_pipe s k (p\<lparr>writers := ws\<rparr>)) k b n)
   }"

section \<open>Writing\<close>

text \<open>
  \<open>realloc\<close> of the kernel copies as many bytes as the new block has: what follows the old block in
  memory goes into the rest of it, here the contents of the new block.
\<close>

definition grow_pipe :: "alloc \<Rightarrow> pipe_data \<Rightarrow> u32 \<Rightarrow> pipe_data option option" where
  "grow_pipe al p new_size =
     (if new_size > buffer_size p then do {
        old \<leftarrow> pipe_buf p;
        Some (map_option (\<lambda>m. p\<lparr>pipe_buf := Some (mwrite m 0 (take (length m) old)), buffer_size := new_size\<rparr>) (al new_size))
      }
      else Some (Some p))"

text \<open>Bytes that enter a pipe; the inner \<open>None\<close> is \<open>-ENOMEM\<close>.\<close>

definition pipe_put :: "alloc \<Rightarrow> pipe_data \<Rightarrow> byte list \<Rightarrow> u32 \<Rightarrow> pipe_data option option" where
  "pipe_put al p b n = do {
     g \<leftarrow> grow_pipe al p (current_size p + n);
     case g of None \<Rightarrow> Some None
     | Some p \<Rightarrow> do {
         dst \<leftarrow> pipe_buf p;
         if unat (current_size p) + unat n \<le> length dst \<and> unat n \<le> length b
         then Some (Some (p\<lparr>pipe_buf := Some (mwrite dst (unat (current_size p)) (take (unat n) b)), current_size := current_size p + n\<rparr>))
         else None
       }
   }"

definition fm_pwrite :: "net \<Rightarrow> alloc \<Rightarrow> fm \<Rightarrow> int \<Rightarrow> byte list \<Rightarrow> nat \<Rightarrow> u32 \<Rightarrow> int \<Rightarrow> (int \<times> fm) option" where
  "fm_pwrite net al s fd b ptr n offset =
     (case fm_fd_to_data fd of None \<Rightarrow> Some (- EBADF, s)
      | Some i \<Rightarrow> do {
          pg \<leftarrow> fd_page s;
          f \<leftarrow> rd (fd_mem s pg) i;
          let sync = (offset < 0);
          let off = (if sync then fd_offset f else word_of_int offset);
          case fd_kind f of
            TYPE_DIR \<Rightarrow> Some (- EISDIR, s)
          | TYPE_SOCK \<Rightarrow> (let s = sock_event s (Sock_send fd (take (unat n) b)) in Some (net (sock_log s), s))
          | TYPE_FILE \<Rightarrow> do {
              tmp \<leftarrow> fs_cnt_get_size (fm_fs s) (fd_sid f);
              (_, fs) \<leftarrow> (if off + n > tmp then fs_cnt_set_size (fm_fs s) (fd_sid f) (off + n) else Some (0, fm_fs s));
              (r, _, fs) \<leftarrow> fs_cnt_write fs (fd_sid f) b off n;
              let c = (if r \<noteq> 0 then 0 else sint n);
              s \<leftarrow> sync_offset (s\<lparr>fm_fs := fs\<rparr>) pg i sync c;
              Some (c, s)
            }
          | TYPE_AFFT \<Rightarrow>
              (case fd_ref f of
                 Afft_id k \<Rightarrow>
                   (let c = afft_write (fm_afft s) (word_of_int k) ptr off n in
                    if c < 0 then Some (- EIO, s) else do { s \<leftarrow> sync_offset s pg i sync c; Some (c, s) })
               | _ \<Rightarrow> None)
          | TYPE_PPWR \<Rightarrow>
              (case fd_ref f of
                 Pipe k \<Rightarrow> do {
                   p \<leftarrow> rd (open_pipes s) k;
                   r \<leftarrow> pipe_put al p b n;
                   case r of None \<Rightarrow> Some (- ENOMEM, s)
                   | Some p \<Rightarrow> do {
                       s \<leftarrow> sync_offset (set_pipe s k p) pg i sync (sint n);
                       Some (sint n, s)
                     }
                 }
               | _ \<Rightarrow> None)
          | _ \<Rightarrow> Some (- EBADF, s)
        })"

section \<open>Moving, copying, pipes\<close>

text \<open>\<open>whence\<close> is 0, 1 or 2 (\<open>SEEK_SET\<close>, \<open>SEEK_CUR\<close>, \<open>SEEK_END\<close>).  An \<open>int\<close> that overflows is \<open>None\<close>.\<close>

definition fm_lseek :: "fm \<Rightarrow> int \<Rightarrow> int \<Rightarrow> int \<Rightarrow> (int \<times> fm) option" where
  "fm_lseek s fd offset whence =
     (case fm_fd_to_data fd of None \<Rightarrow> Some (- EBADF, s)
      | Some i \<Rightarrow> do {
          pg \<leftarrow> fd_page s;
          f \<leftarrow> rd (fd_mem s pg) i;
          if fd_kind f \<noteq> TYPE_FILE then Some (- ESPIPE, s)
          else do {
            new_offset \<leftarrow>
              (if whence = 0 then Some (Some offset)
               else if whence = 1 then
                 (let x = sint (fd_offset f) + offset in if - (2 ^ 31) \<le> x \<and> x < 2 ^ 31 then Some (Some x) else None)
               else if whence = 2 then do {
                 sz \<leftarrow> fs_cnt_get_size (fm_fs s) (fd_sid f);
                 Some (Some (sint (sz + word_of_int offset)))
               }
               else Some None);
            case new_offset of None \<Rightarrow> Some (- EINVAL, s)
            | Some x \<Rightarrow>
                if x < 0 then Some (- EINVAL, s)
                else Some (x, set_fd s pg i (f\<lparr>fd_offset := word_of_int x\<rparr>))
          }
        })"

text \<open>The second half of \<open>fm_dup2\<close>: the descriptor \<open>i\<close> goes into \<open>j\<close>.\<close>

definition copy_fd :: "fm \<Rightarrow> u32 \<Rightarrow> nat \<Rightarrow> nat \<Rightarrow> int \<Rightarrow> (int \<times> fm) option" where
  "copy_fd s pg i j new_fd = do {
     f \<leftarrow> rd (fd_mem s pg) i;
     g \<leftarrow> rd (fd_mem s pg) j;
     let g = g\<lparr>fd_flags := fd_flags f, fd_kind := fd_kind f, fd_sid := fd_sid f\<rparr>;
     case (fd_kind f, fd_ref f) of
       (TYPE_DIR, Path str) \<Rightarrow> Some (new_fd, set_fd s pg j (g\<lparr>fd_ref := Path str\<rparr>))
     | (TYPE_DIR, _) \<Rightarrow> None
     | (TYPE_FILE, _) \<Rightarrow> Some (new_fd, set_fd s pg j (g\<lparr>fd_offset := fd_offset f\<rparr>))
     | (TYPE_SOCK, Sock_id k) \<Rightarrow> Some (new_fd, set_fd (sock_event s (Sock_inc_ref k)) pg j g)
     | (TYPE_SOCK, _) \<Rightarrow> None
     | (TYPE_AFFT, Afft_id k) \<Rightarrow> Some (new_fd, set_fd s pg j (g\<lparr>fd_ref := Afft_id k, fd_offset := fd_offset f\<rparr>))
     | (TYPE_AFFT, _) \<Rightarrow> None
     | (TYPE_PPRD, Pipe k) \<Rightarrow> do {
         pid \<leftarrow> my_pid s;
         (_, s) \<leftarrow> fm_pipe_push_reader s k pid;
         Some (new_fd, set_fd s pg j (g\<lparr>fd_ref := Pipe k\<rparr>))
       }
     | (TYPE_PPRD, _) \<Rightarrow> None
     | (TYPE_PPWR, Pipe k) \<Rightarrow> do {
         pid \<leftarrow> my_pid s;
         (_, s) \<leftarrow> fm_pipe_push_writer s k pid;
         Some (new_fd, set_fd s pg j (g\<lparr>fd_ref := Pipe k\<rparr>))
       }
     | (TYPE_PPWR, _) \<Rightarrow> None
     | (TYPE_FREE, _) \<Rightarrow> Some (- EBADF, set_fd s pg j g)
   }"

definition fm_dup2 :: "fm \<Rightarrow> int \<Rightarrow> int \<Rightarrow> (int \<times> fm) option" where
  "fm_dup2 s fd new_fd =
     (case fm_fd_to_data fd of None \<Rightarrow> Some (- EBADF, s)
      | Some i \<Rightarrow> do {
          pg \<leftarrow> fd_page s;
          f \<leftarrow> rd (fd_mem s pg) i;
          if fd_kind f = TYPE_FREE then Some (- EBADF, s)
          else (case fm_fd_to_data new_fd of None \<Rightarrow> Some (- EBADF, s)
            | Some j \<Rightarrow> do {
                g \<leftarrow> rd (fd_mem s pg) j;
                (r, s) \<leftarrow> (if fd_kind g \<noteq> TYPE_FREE then fm_close s new_fd else Some (0, s));
                if r < 0 then Some (- EBADF, s) else copy_fd s pg i j new_fd
              })
        })"

definition fm_dup :: "fm \<Rightarrow> int \<Rightarrow> (int \<times> fm) option" where
  "fm_dup s fd = do {
     pg \<leftarrow> fd_page s;
     case fm_get_free_fd s pg of None \<Rightarrow> Some (- EMFILE, s)
     | Some j \<Rightarrow> fm_dup2 s fd (int j)
   }"

text \<open>The result is the code and the two descriptors, as far as they were written.\<close>

definition fm_pipe :: "alloc \<Rightarrow> fm \<Rightarrow> (int \<times> int option \<times> int option \<times> fm) option" where
  "fm_pipe al s =
     (case fm_get_free_pipe s of None \<Rightarrow> Some (- EMFILE, None, None, s)
      | Some k \<Rightarrow>
         (case al 0x1000 of None \<Rightarrow> Some (- ENOMEM, None, None, s)
          | Some m \<Rightarrow> do {
              pid \<leftarrow> my_pid s;
              let refs = (replicate PIPE_MAX_REF (-1))[0 := pid];
              let s = set_pipe s k \<lparr>buffer_size = 0x1000, pipe_buf = Some (replicate (length m) 0), current_size = 0,
                rd_offset = 0, readers = refs, writers = refs\<rparr>;
              pg \<leftarrow> fd_page s;
              case fm_get_free_fd s pg of None \<Rightarrow> Some (- EMFILE, Some (-1), None, s)
              | Some i \<Rightarrow> do {
                  f \<leftarrow> rd (fd_mem s pg) i;
                  let s1 = set_fd s pg i (f\<lparr>fd_kind := TYPE_PPRD\<rparr>);
                  case fm_get_free_fd s1 pg of
                    None \<Rightarrow> Some (- EMFILE, Some (int i), Some (-1), set_fd s pg i (f\<lparr>fd_kind := TYPE_FREE\<rparr>))
                  | Some j \<Rightarrow> do {
                      g \<leftarrow> rd (fd_mem s1 pg) j;
                      let s = set_fd s1 pg i (f\<lparr>fd_kind := TYPE_PPRD, fd_flags := O_RDONLY, fd_ref := Pipe k, fd_sid := SID_NULL\<rparr>);
                      let s = set_fd s pg j (g\<lparr>fd_kind := TYPE_PPWR, fd_flags := O_WRONLY, fd_ref := Pipe k, fd_sid := SID_NULL\<rparr>);
                      Some (0, Some (int i), Some (int j), s)
                    }
                }
            }))"

section \<open>The other calls\<close>

definition kind_is :: "fm \<Rightarrow> int \<Rightarrow> fd_type \<Rightarrow> int option" where
  "kind_is s fd t =
     (case fm_fd_to_data fd of None \<Rightarrow> Some (- EBADF)
      | Some i \<Rightarrow> do {
          pg \<leftarrow> fd_page s;
          f \<leftarrow> rd (fd_mem s pg) i;
          Some (if fd_kind f = TYPE_FREE then - EBADF else of_bool (fd_kind f = t))
        })"

definition fm_isafft :: "fm \<Rightarrow> int \<Rightarrow> int option" where "fm_isafft s fd = kind_is s fd TYPE_AFFT"
definition fm_isfile :: "fm \<Rightarrow> int \<Rightarrow> int option" where "fm_isfile s fd = kind_is s fd TYPE_FILE"
definition fm_issock :: "fm \<Rightarrow> int \<Rightarrow> int option" where "fm_issock s fd = kind_is s fd TYPE_SOCK"

definition fm_fcntl :: "fm \<Rightarrow> int \<Rightarrow> int \<Rightarrow> int \<Rightarrow> (int \<times> fm) option" where
  "fm_fcntl s fd c arg =
     (case fm_fd_to_data fd of None \<Rightarrow> Some (- EBADF, s)
      | Some i \<Rightarrow> do {
          pg \<leftarrow> fd_page s;
          f \<leftarrow> rd (fd_mem s pg) i;
          if fd_kind f = TYPE_FREE then Some (- EBADF, s)
          else if c = 0 then
            (case find (\<lambda>j. fd_kind (fd_mem s pg ! j) = TYPE_FREE) [i..<MAX_FD] of
               None \<Rightarrow> Some (- EMFILE, s)
             | Some j \<Rightarrow> do {
                 (r, s) \<leftarrow> fm_dup2 s fd (int j);
                 Some (if r < 0 then - EBADF else int j, s)
               })
          else if c = 1 \<or> c = 2 then Some (0, s)
          else if c = 3 then Some (sint (fd_flags f), s)
          else if c = 4 then Some (0, set_fd s pg i (f\<lparr>fd_flags := word_of_int arg\<rparr>))
          else Some (- 0xFFFF, s)
        })"

definition fm_get_sid :: "fm \<Rightarrow> int \<Rightarrow> u32 option" where
  "fm_get_sid s fd =
     (case fm_fd_to_data fd of None \<Rightarrow> Some SID_NULL
      | Some i \<Rightarrow> do {
          pg \<leftarrow> fd_page s;
          f \<leftarrow> rd (fd_mem s pg) i;
          Some (if fd_kind f = TYPE_FREE then SID_NULL else fd_sid f)
        })"

definition fm_get_path :: "fm \<Rightarrow> int \<Rightarrow> byte list option option" where
  "fm_get_path s fd =
     (case fm_fd_to_data fd of None \<Rightarrow> Some None
      | Some i \<Rightarrow> do {
          pg \<leftarrow> fd_page s;
          f \<leftarrow> rd (fd_mem s pg) i;
          if fd_kind f \<noteq> TYPE_DIR then Some None
          else (case fd_ref f of Path str \<Rightarrow> Some (Some str) | _ \<Rightarrow> None)
        })"

fun declare_loop :: "fm \<Rightarrow> u32 \<Rightarrow> int \<Rightarrow> nat list \<Rightarrow> (int \<times> fm) option" where
  "declare_loop s pg pid [] = Some (0, s)"
| "declare_loop s pg pid (i # is) = do {
     f \<leftarrow> rd (fd_mem s pg) i;
     case (fd_kind f, fd_ref f) of
       (TYPE_PPRD, Pipe k) \<Rightarrow> do {
         (r, s) \<leftarrow> fm_pipe_push_reader s k pid;
         if r < 0 then Some (-1, s) else declare_loop s pg pid is
       }
     | (TYPE_PPRD, _) \<Rightarrow> None
     | (TYPE_PPWR, Pipe k) \<Rightarrow> do {
         (r, s) \<leftarrow> fm_pipe_push_writer s k pid;
         if r < 0 then Some (-1, s) else declare_loop s pg pid is
       }
     | (TYPE_PPWR, _) \<Rightarrow> None
     | (TYPE_SOCK, Sock_id k) \<Rightarrow> declare_loop (sock_event s (Sock_inc_ref k)) pg pid is
     | (TYPE_SOCK, _) \<Rightarrow> None
     | _ \<Rightarrow> declare_loop s pg pid is
   }"

definition fm_declare_child :: "fm \<Rightarrow> int \<Rightarrow> (int \<times> fm) option" where
  "fm_declare_child s pid = do {
     pg \<leftarrow> fd_page s;
     declare_loop s pg pid [0..<MAX_FD]
   }"

definition fm_get_fd_rw :: "net \<Rightarrow> fm \<Rightarrow> int \<Rightarrow> (int \<times> fm) option" where
  "fm_get_fd_rw net s fd =
     (case fm_fd_to_data fd of None \<Rightarrow> Some (-1, s)
      | Some i \<Rightarrow> do {
          pg \<leftarrow> fd_page s;
          f \<leftarrow> rd (fd_mem s pg) i;
          case (fd_kind f, fd_ref f) of
            (TYPE_SOCK, Sock_id k) \<Rightarrow> (let s = sock_event s (Sock_get_rw k) in Some (net (sock_log s), s))
          | (TYPE_SOCK, _) \<Rightarrow> None
          | (TYPE_FILE, _) \<Rightarrow> Some (3, s)
          | _ \<Rightarrow> Some (-1, s)
        })"

text \<open>\<open>__init\<close>: the pipes are zeroed, the terminal is opened three times.\<close>

definition kterm :: "byte list" where
  "kterm = bytes_of ''/dev/kterm''"

definition zero_pipe :: pipe_data where
  "zero_pipe = \<lparr>buffer_size = 0, pipe_buf = None, current_size = 0, rd_offset = 0, readers = replicate PIPE_MAX_REF 0,
     writers = replicate PIPE_MAX_REF 0\<rparr>"

definition fm_init :: "fm \<Rightarrow> (bool \<times> fm) option" where
  "fm_init s = do {
     let s = s\<lparr>open_pipes := replicate PIPE_MAX zero_pipe\<rparr>;
     (r, s) \<leftarrow> fm_reopen s 0 kterm O_RDONLY;
     if r < 0 then Some (True, s)
     else do {
       (r, s) \<leftarrow> fm_reopen s 1 kterm O_WRONLY;
       if r < 0 then Some (True, s)
       else do {
         (r, s) \<leftarrow> fm_reopen s 2 kterm O_WRONLY;
         Some (r < 0, s)
       }
     }
   }"

end
