(* ===== verification/FmopenPipes.thy ===== *)
theory FmopenPipes
  imports Fmopen
begin

text \<open>
  Pipes as queues of bytes, and the lists of the processes that hold them as counted references.
\<close>

section \<open>A queue of bytes\<close>

text \<open>
  What the two ends of a pipe promise each other: \<open>feed\<close> appends or refuses without a change, \<open>fetch\<close>
  takes from the front.  The first argument says who calls.
\<close>

datatype 'w op = Put 'w "byte list" | Get 'w nat

text \<open>Any interleaving of calls: what went in, what came out, the state at the end.\<close>

fun traffic :: "('w \<Rightarrow> byte list \<Rightarrow> 'q \<Rightarrow> 'q option) \<Rightarrow> ('w \<Rightarrow> nat \<Rightarrow> 'q \<Rightarrow> byte list \<times> 'q) \<Rightarrow> 'w op list \<Rightarrow> 'q \<Rightarrow>
    byte list \<times> byte list \<times> 'q" where
  "traffic feed fetch [] q = ([], [], q)"
| "traffic feed fetch (Put w bs # ops) q =
     (case feed w bs q of None \<Rightarrow> traffic feed fetch ops q
      | Some q \<Rightarrow> let (i, out, q) = traffic feed fetch ops q in (bs @ i, out, q))"
| "traffic feed fetch (Get w n # ops) q = (let (bs, q) = fetch w n q; (i, out, q) = traffic feed fetch ops q in (i, bs @ out, q))"

locale byte_queue =
  fixes feed :: "'w \<Rightarrow> byte list \<Rightarrow> 'q \<Rightarrow> 'q option"
    and fetch :: "'w \<Rightarrow> nat \<Rightarrow> 'q \<Rightarrow> byte list \<times> 'q"
    and queue :: "'q \<Rightarrow> byte list"
    and inv :: "'q \<Rightarrow> bool"
  assumes feed_law: "inv q \<Longrightarrow> feed w bs q = Some q' \<Longrightarrow> inv q' \<and> queue q' = queue q @ bs"
    and fetch_law: "inv q \<Longrightarrow> fetch w n q = (bs, q') \<Longrightarrow> inv q' \<and> queue q = bs @ queue q'"
begin

lemma fifo: "inv q \<Longrightarrow> traffic feed fetch ops q = (i, out, q') \<Longrightarrow> inv q' \<and> queue q @ i = out @ queue q'"
proof (induction ops arbitrary: q i out)
  case (Cons x ops)
  show ?case
  proof (cases x)
    case (Put w bs)
    show ?thesis
    proof (cases "feed w bs q")
      case None
      then show ?thesis
        using Cons Put by simp
    next
      case (Some q1)
      have p: "inv q1" "queue q1 = queue q @ bs"
        using feed_law [OF Cons.prems(1) Some] by simp_all
      show ?thesis
        using Cons.IH [OF p(1)] p(2) Cons.prems(2) Some Put by (auto split: prod.splits)
    qed
  next
    case (Get w n)
    obtain bs q1 where g: "fetch w n q = (bs, q1)"
      by (cases "fetch w n q") auto
    have p: "inv q1" "queue q = bs @ queue q1"
      using fetch_law [OF Cons.prems(1) g] by simp_all
    show ?thesis
      using Cons.IH [OF p(1)] p(2) g Cons.prems(2) Get by (auto split: prod.splits)
  qed
qed simp

end

section \<open>Pipes are queues\<close>

definition pipe_ok :: "pipe_data \<Rightarrow> bool" where
  "pipe_ok p \<longleftrightarrow> (case pipe_buf p of None \<Rightarrow> False
     | Some b \<Rightarrow> length b = unat (buffer_size p) \<and> rd_offset p \<le> current_size p \<and> current_size p \<le> buffer_size p)"

definition pipe_queue :: "pipe_data \<Rightarrow> byte list" where
  "pipe_queue p = (case pipe_buf p of None \<Rightarrow> []
     | Some b \<Rightarrow> mread b (unat (rd_offset p)) (unat (current_size p) - unat (rd_offset p)))"

definition alloc_ok :: "alloc \<Rightarrow> bool" where
  "alloc_ok al \<longleftrightarrow> (\<forall>n m. al n = Some m \<longrightarrow> length m = unat n)"

lemma pipe_okD:
  assumes "pipe_ok p"
  obtains b where "pipe_buf p = Some b" "length b = unat (buffer_size p)" "unat (rd_offset p) \<le> unat (current_size p)"
    "unat (current_size p) \<le> unat (buffer_size p)"
  using assms by (auto simp: pipe_ok_def word_le_nat_alt split: option.splits)

lemma length_queue: "pipe_ok p \<Longrightarrow> length (pipe_queue p) = unat (current_size p) - unat (rd_offset p)"
  by (erule pipe_okD) (simp add: pipe_queue_def)

lemma grow_pipe_ok:
  assumes "pipe_ok p" and "alloc_ok al"
  obtains (full) "grow_pipe al p m = Some None" "buffer_size p < m" "al m = None"
  | (grown) p' where "grow_pipe al p m = Some (Some p')" "pipe_ok p'" "pipe_queue p' = pipe_queue p" "m \<le> buffer_size p'"
      "p' = p\<lparr>pipe_buf := pipe_buf p', buffer_size := buffer_size p'\<rparr>"
proof -
  obtain b where b: "pipe_buf p = Some b" "length b = unat (buffer_size p)" "unat (rd_offset p) \<le> unat (current_size p)"
    "unat (current_size p) \<le> unat (buffer_size p)"
    by (rule pipe_okD [OF assms(1)])
  consider "m \<le> buffer_size p" | "buffer_size p < m" "al m = None" | x where "buffer_size p < m" "al m = Some x"
    by fastforce
  then show thesis
  proof cases
    case 1
    then show thesis
      using grown [of p] assms(1) by (simp add: grow_pipe_def not_less [symmetric])
  next
    case 2
    then show thesis
      using full b by (simp add: grow_pipe_def)
  next
    case (3 x)
    have l: "length x = unat m" "unat (buffer_size p) < unat m"
      using 3 assms(2) by (auto simp: alloc_ok_def word_less_nat_alt)
    let ?p = "p\<lparr>pipe_buf := Some (mwrite x 0 (take (length x) b)), buffer_size := m\<rparr>"
    have "mread (mwrite x 0 b) (unat (rd_offset p)) (unat (current_size p) - unat (rd_offset p)) =
        mread b (unat (rd_offset p)) (unat (current_size p) - unat (rd_offset p))"
      using l b by (intro nth_equalityI) (auto simp: nth_mwrite)
    then have "pipe_queue ?p = pipe_queue p" "pipe_ok ?p"
      using b l by (simp_all add: pipe_queue_def pipe_ok_def word_le_nat_alt)
    then show thesis
      using grown [of ?p] 3 b by (simp add: grow_pipe_def)
  qed
qed

lemma pipe_put_ok:
  assumes "pipe_ok p" and "alloc_ok al" and "unat n \<le> length bs" and "unat (current_size p) + unat n < 2 ^ 32"
  obtains (full) "pipe_put al p bs n = Some None" "buffer_size p < current_size p + n" "al (current_size p + n) = None"
  | (put) p' where "pipe_put al p bs n = Some (Some p')" "pipe_ok p'" "pipe_queue p' = pipe_queue p @ take (unat n) bs"
      "readers p' = readers p" "writers p' = writers p" "current_size p' = current_size p + n" "rd_offset p' = rd_offset p"
proof -
  have sum: "unat (current_size p + n) = unat (current_size p) + unat n"
    using assms(4) by (simp add: unat_word_ariths)
  show thesis
  proof (cases rule: grow_pipe_ok [OF assms(1,2), of "current_size p + n"])
    case 1
    then show thesis
      using full by (simp add: pipe_put_def)
  next
    case (2 p1)
    obtain b where b: "pipe_buf p1 = Some b" "length b = unat (buffer_size p1)" "unat (rd_offset p1) \<le> unat (current_size p1)"
      "unat (current_size p1) \<le> unat (buffer_size p1)"
      by (rule pipe_okD [OF 2(2)])
    have same: "current_size p1 = current_size p" "rd_offset p1 = rd_offset p" "readers p1 = readers p" "writers p1 = writers p"
      by (subst 2(5), simp)+
    have le: "unat (current_size p) + unat n \<le> length b"
      using 2(4) b(2) sum by (simp add: word_le_nat_alt)
    let ?b = "mwrite b (unat (current_size p)) (take (unat n) bs)"
    let ?p = "p1\<lparr>pipe_buf := Some ?b, current_size := current_size p + n\<rparr>"
    have "mread ?b (unat (rd_offset p)) (unat (current_size p) + unat n - unat (rd_offset p)) =
        mread b (unat (rd_offset p)) (unat (current_size p) - unat (rd_offset p)) @ take (unat n) bs"
      using le b assms(3) same by (intro nth_equalityI) (auto simp: nth_append nth_mwrite add.commute)
    then have "pipe_queue ?p = pipe_queue p1 @ take (unat n) bs"
      using b same sum by (simp add: pipe_queue_def)
    moreover have "pipe_ok ?p"
      using b le same sum assms(3) by (simp add: pipe_ok_def word_le_nat_alt)
    ultimately show thesis
      using put [of ?p] 2(1,3) b(1) le assms(3) same by (simp add: pipe_put_def)
  qed
qed

lemma pipe_take_ok:
  assumes "pipe_ok p" and "unat n \<le> length bs" and "unat n < 2 ^ 31" and "length (pipe_queue p) < 2 ^ 31"
  obtains p' where "pipe_take p bs n = Some (int (min (unat n) (length (pipe_queue p))),
      mwrite bs 0 (take (unat n) (pipe_queue p)), p')" "pipe_ok p'" "pipe_queue p' = drop (unat n) (pipe_queue p)"
    "readers p' = readers p" "writers p' = writers p" "current_size p' = current_size p" "pipe_buf p' = pipe_buf p"
    "buffer_size p' = buffer_size p"
proof -
  obtain b where b: "pipe_buf p = Some b" "length b = unat (buffer_size p)" "unat (rd_offset p) \<le> unat (current_size p)"
    "unat (current_size p) \<le> unat (buffer_size p)"
    by (rule pipe_okD [OF assms(1)])
  note q = length_queue [OF assms(1)]
  show thesis
  proof (cases "pipe_empty p")
    case True
    then have "pipe_queue p = []"
      using q by (simp add: pipe_empty_def word_le_nat_alt)
    then show thesis
      using that [of p] True assms(1) by (simp add: pipe_take_def)
  next
    case False
    let ?l = "length (pipe_queue p)" and ?m = "min (unat n) (length (pipe_queue p))"
    have d: "unat (current_size p - rd_offset p) = ?l"
      using b(3) q by (simp add: unat_sub_if')
    have s: "sint (current_size p - rd_offset p) = int ?l" "sint n = int (unat n)"
      using sint_small [of "current_size p - rd_offset p"] sint_small [of n] d assms(3,4) by simp_all
    have w: "unat (word_of_int (int ?m) :: u32) = ?m"
      using assms(3) by (simp add: unat_word_of_nat)
    have off: "unat (rd_offset p + word_of_int (int ?m)) = unat (rd_offset p) + ?m"
      using w b(3) q unsigned_less [of "current_size p", where 'a = nat] by (simp add: unat_word_ariths)
    let ?p = "p\<lparr>rd_offset := rd_offset p + word_of_int (int ?m)\<rparr>"
    have c: "(if int i < int j then int i else int j) = int (min i j)" for i j
      by simp
    have take: "mread b (unat (rd_offset p)) ?m = take (unat n) (pipe_queue p)"
      using b q by (simp add: pipe_queue_def take_mread min.commute) (simp add: mread_def min.commute)
    have "pipe_queue ?p = drop (unat n) (pipe_queue p)"
      using b q off by (auto simp: pipe_queue_def drop_mread min_def)
    moreover have "pipe_ok ?p"
      using b q off by (simp add: pipe_ok_def word_le_nat_alt)
    moreover have "pipe_take p bs n = Some (int ?m, mwrite bs 0 (take (unat n) (pipe_queue p)), ?p)"
    proof -
      have fit: "unat (rd_offset p) + ?m \<le> length b \<and> ?m \<le> length bs"
        using b q assms(2) by auto
      show ?thesis
        unfolding pipe_take_def Let_def s c w using False b(1) fit by (simp add: take del: min.bounded_iff)
    qed
    ultimately show thesis
      using that [of ?p] by simp
  qed
qed

section \<open>Pipes behind descriptors\<close>

definition fd_at :: "fm \<Rightarrow> int \<Rightarrow> u32 \<Rightarrow> nat \<Rightarrow> fd_data \<Rightarrow> bool" where
  "fd_at s fd pg i f \<longleftrightarrow> fm_fd_to_data fd = Some i \<and> fd_page s = Some pg \<and> i < length (fd_mem s pg) \<and> fd_mem s pg ! i = f"

text \<open>Only the offset of one descriptor changes.\<close>

definition moved :: "fm \<Rightarrow> u32 \<Rightarrow> nat \<Rightarrow> bool \<Rightarrow> int \<Rightarrow> fm" where
  "moved s pg i sync n = (if sync then set_fd s pg i ((fd_mem s pg ! i)\<lparr>fd_offset := fd_offset (fd_mem s pg ! i) + word_of_int n\<rparr>) else s)"

lemma sync_offset_moved: "i < length (fd_mem s pg) \<Longrightarrow> sync_offset s pg i sync n = Some (moved s pg i sync n)"
  by (simp add: sync_offset_def moved_def)

lemma fd_mem_set_pipe [simp]: "fd_mem (set_pipe s k p) = fd_mem s" "fm_sched (set_pipe s k p) = fm_sched s" "fm_fs (set_pipe s k p) = fm_fs s"
  "open_pipes (set_pipe s k p) = (open_pipes s)[k := p]" "fd_page (set_pipe s k p) = fd_page s" "my_pid (set_pipe s k p) = my_pid s"
  by (simp_all add: set_pipe_def fd_page_def my_pid_def)

lemma set_fd_fields [simp]: "open_pipes (set_fd s pg i f) = open_pipes s" "fm_sched (set_fd s pg i f) = fm_sched s" "fm_fs (set_fd s pg i f) = fm_fs s"
  "fd_page (set_fd s pg i f) = fd_page s" "my_pid (set_fd s pg i f) = my_pid s"
  "fd_mem (set_fd s pg i f) pg' = (if pg' = pg then (fd_mem s pg)[i := f] else fd_mem s pg')"
  by (simp_all add: set_fd_def fd_page_def my_pid_def)

lemma moved_fields [simp]: "open_pipes (moved s pg i sync n) = open_pipes s" "fm_sched (moved s pg i sync n) = fm_sched s"
  "fm_fs (moved s pg i sync n) = fm_fs s" "length (fd_mem (moved s pg i sync n) pg') = length (fd_mem s pg')"
  by (simp_all add: moved_def)

lemma nth_offset:
  "fd_kind (xs[i := (xs ! i)\<lparr>fd_offset := v\<rparr>] ! j) = fd_kind (xs ! j) \<and>
   fd_ref (xs[i := (xs ! i)\<lparr>fd_offset := v\<rparr>] ! j) = fd_ref (xs ! j)"
proof (cases "i = j \<and> i < length xs")
  case False
  then have "xs[i := (xs ! i)\<lparr>fd_offset := v\<rparr>] ! j = xs ! j"
    by (metis list_update_beyond not_less nth_list_update_neq)
  then show ?thesis
    by simp
qed simp

lemma moved_same [simp]:
  "fd_kind (fd_mem (moved s pg i sync n) pg' ! j) = fd_kind (fd_mem s pg' ! j)"
  "fd_ref (fd_mem (moved s pg i sync n) pg' ! j) = fd_ref (fd_mem s pg' ! j)"
  by (simp_all add: moved_def nth_offset)

lemma fm_pwrite_pipe:
  assumes "fd_at s fd pg i f" and "fd_kind f = TYPE_PPWR" and "fd_ref f = Pipe k" and "k < length (open_pipes s)"
    and "pipe_ok (open_pipes s ! k)" and "alloc_ok al" and "unat n \<le> length bs" and "unat (current_size (open_pipes s ! k)) + unat n < 2 ^ 32"
  obtains (full) "fm_pwrite net al s fd bs ptr n off = Some (- ENOMEM, s)" "al (current_size (open_pipes s ! k) + n) = None"
  | (put) p where "fm_pwrite net al s fd bs ptr n off = Some (sint n, moved (set_pipe s k p) pg i (off < 0) (sint n))" "pipe_ok p"
      "pipe_queue p = pipe_queue (open_pipes s ! k) @ take (unat n) bs" "readers p = readers (open_pipes s ! k)"
      "writers p = writers (open_pipes s ! k)" "current_size p = current_size (open_pipes s ! k) + n"
proof (cases rule: pipe_put_ok [OF assms(5-8)])
  case 1
  then show thesis
    using full assms(1-4) by (simp add: fm_pwrite_def fd_at_def Let_def)
next
  case (2 p)
  then show thesis
    using put [of p] assms(1-4) by (simp add: fm_pwrite_def fd_at_def Let_def sync_offset_moved)
qed

lemma pipe_empty_queue: "pipe_ok p \<Longrightarrow> pipe_empty p \<longleftrightarrow> pipe_queue p = []"
  using length_queue [of p] by (auto simp: pipe_empty_def word_le_nat_alt)

lemma fm_pread_pipe:
  assumes "fd_at s fd pg i f" and "fd_kind f = TYPE_PPRD" and "fd_ref f = Pipe k" and "k < length (open_pipes s)"
    and "pipe_ok (open_pipes s ! k)" and "unat n \<le> length bs" and "unat n < 2 ^ 31" and "length (pipe_queue (open_pipes s ! k)) < 2 ^ 31"
    and "writers (open_pipes s ! k) \<noteq> []"
  obtains (wait) "pipe_queue (open_pipes s ! k) = []" "hd (writers (open_pipes s ! k)) \<noteq> -1"
      "fm_pread net s fd bs ptr n off = do {
        pid \<leftarrow> process_get_pid (fm_sched s);
        (_, sch) \<leftarrow> process_sleep (fm_sched s) pid 10;
        Some (IoWaits k, bs, s\<lparr>fm_sched := sch\<rparr>) }"
  | (take) p m where "pipe_queue (open_pipes s ! k) \<noteq> [] \<or> hd (writers (open_pipes s ! k)) = -1"
      "m = min (unat n) (length (pipe_queue (open_pipes s ! k)))"
      "fm_pread net s fd bs ptr n off = Some (IoDone (int m), mwrite bs 0 (take (unat n) (pipe_queue (open_pipes s ! k))),
        moved (set_pipe s k p) pg i (off < 0) (int m))"
      "pipe_ok p" "pipe_queue p = drop (unat n) (pipe_queue (open_pipes s ! k))" "readers p = readers (open_pipes s ! k)"
      "writers p = writers (open_pipes s ! k)" "current_size p = current_size (open_pipes s ! k)"
proof -
  let ?p = "open_pipes s ! k"
  have w: "rd (writers ?p) 0 = Some (hd (writers ?p))"
    using assms(9) by (simp add: hd_conv_nth)
  have F: "fm_pread net s fd bs ptr n off = io_sync pg i (off < 0) (pipe_read s k bs n)"
    using assms(1-3) by (simp add: fm_pread_def fd_at_def Let_def)
  show thesis
  proof (cases "pipe_queue ?p = [] \<and> hd (writers ?p) \<noteq> -1")
    case True
    have "pipe_read s k bs n = do {
        pid \<leftarrow> process_get_pid (fm_sched s);
        (_, sch) \<leftarrow> process_sleep (fm_sched s) pid 10;
        Some (IoWaits k, bs, s\<lparr>fm_sched := sch\<rparr>) }"
      using True w assms(4) pipe_empty_queue [OF assms(5)] by (simp add: pipe_read_def)
    then have "io_sync pg i (off < 0) (pipe_read s k bs n) = pipe_read s k bs n"
      by (auto simp: io_sync_def split: option.splits bind_splits)
    then show thesis
      using wait True F \<open>pipe_read s k bs n = _\<close> by simp
  next
    case False
    let ?m = "min (unat n) (length (pipe_queue ?p))"
    obtain p where p: "pipe_take ?p bs n = Some (int ?m, mwrite bs 0 (List.take (unat n) (pipe_queue ?p)), p)" "pipe_ok p"
      "pipe_queue p = drop (unat n) (pipe_queue ?p)" "readers p = readers ?p" "writers p = writers ?p" "current_size p = current_size ?p"
      by (rule pipe_take_ok [OF assms(5-8)])
    have "pipe_read s k bs n = Some (IoDone (int ?m), mwrite bs 0 (List.take (unat n) (pipe_queue ?p)), set_pipe s k p)"
      using False w p(1) assms(4) pipe_empty_queue [OF assms(5)] by (auto simp: pipe_read_def)
    then have "fm_pread net s fd bs ptr n off = Some (IoDone (int ?m), mwrite bs 0 (List.take (unat n) (pipe_queue ?p)),
        moved (set_pipe s k p) pg i (off < 0) (int ?m))"
      using assms(1) unfolding F by (simp add: io_sync_def sync_offset_moved fd_at_def)
    then show thesis
      using take [OF _ refl _ p(2-6)] False by blast
  qed
qed

section \<open>The contract, over calls of any process\<close>

text \<open>The pipe that a descriptor of the running process is an end of.\<close>

definition pipe_end :: "fm \<Rightarrow> int \<Rightarrow> fd_type \<Rightarrow> nat option" where
  "pipe_end s fd t = do {
     i \<leftarrow> fm_fd_to_data fd;
     pg \<leftarrow> fd_page s;
     f \<leftarrow> rd (fd_mem s pg) i;
     (case fd_ref f of Pipe k \<Rightarrow> if fd_kind f = t then Some k else None | _ \<Rightarrow> None)
   }"

lemma pipe_end_fd:
  assumes "pipe_end s fd t = Some k"
  shows "\<exists>pg i f. fd_at s fd pg i f \<and> fd_kind f = t \<and> fd_ref f = Pipe k"
proof -
  obtain i pg f where f: "fm_fd_to_data fd = Some i" "fd_page s = Some pg" "rd (fd_mem s pg) i = Some f"
    "(case fd_ref f of Pipe k \<Rightarrow> if fd_kind f = t then Some k else None | _ \<Rightarrow> None) = Some k"
    using assms unfolding pipe_end_def Option.bind_eq_Some_conv by blast
  then have "fd_kind f = t \<and> fd_ref f = Pipe k"
    by (cases "fd_ref f") (simp_all split: if_split_asm)
  then show ?thesis
    using f(1-3) by (auto simp: fd_at_def rd_eq_Some)
qed

text \<open>
  A caller is the state of the scheduler in which it runs, and its descriptor.  Up to 2 GiB go through
  a pipe, whose sizes are of type \<open>int\<close> in part.
\<close>

type_synonym caller = "sched \<times> int"
type_synonym world = "net \<times> alloc \<times> fm"

definition pipe_feed :: "nat \<Rightarrow> caller \<Rightarrow> byte list \<Rightarrow> world \<Rightarrow> world option" where
  "pipe_feed k w bs q =
     (let (sch, fd) = w; (net, al, s) = q; s = s\<lparr>fm_sched := sch\<rparr> in
      if pipe_end s fd TYPE_PPWR = Some k \<and> unat (current_size (open_pipes s ! k)) + length bs < 2 ^ 31 then do {
        (c, s) \<leftarrow> fm_pwrite net al s fd bs 0 (of_nat (length bs)) (-1);
        if c = int (length bs) then Some (net, al, s) else None
      }
      else None)"

definition pipe_fetch :: "nat \<Rightarrow> caller \<Rightarrow> nat \<Rightarrow> world \<Rightarrow> byte list \<times> world" where
  "pipe_fetch k w n q =
     (let (sch, fd) = w; (net, al, s) = q; s' = s\<lparr>fm_sched := sch\<rparr> in
      if pipe_end s' fd TYPE_PPRD = Some k \<and> n < 2 ^ 31 then
        (case fm_pread net s' fd (replicate n 0) 0 (of_nat n) (-1) of
           Some (IoDone c, b, s') \<Rightarrow> (take (nat c) b, net, al, s')
         | _ \<Rightarrow> ([], q))
      else ([], q))"

definition queue_at :: "nat \<Rightarrow> world \<Rightarrow> byte list" where
  "queue_at k q = pipe_queue (open_pipes (snd (snd q)) ! k)"

definition pipe_inv :: "nat \<Rightarrow> world \<Rightarrow> bool" where
  "pipe_inv k q \<longleftrightarrow> (let (net, al, s) = q in alloc_ok al \<and> k < length (open_pipes s) \<and> pipe_ok (open_pipes s ! k) \<and>
     unat (current_size (open_pipes s ! k)) < 2 ^ 31 \<and> writers (open_pipes s ! k) \<noteq> [])"

lemma small_queue: "pipe_ok p \<Longrightarrow> unat (current_size p) < 2 ^ 31 \<Longrightarrow> length (pipe_queue p) < 2 ^ 31"
  using length_queue [of p] by simp

lemma pipe_feed_law:
  assumes "pipe_inv k q" and "pipe_feed k w bs q = Some q'"
  shows "pipe_inv k q' \<and> queue_at k q' = queue_at k q @ bs"
proof -
  obtain sch fd net al s where [simp]: "w = (sch, fd)" "q = (net, al, s)"
    by (metis prod.exhaust)
  let ?s = "s\<lparr>fm_sched := sch\<rparr>" and ?n = "of_nat (length bs) :: u32"
  have e: "pipe_end ?s fd TYPE_PPWR = Some k" and sz: "unat (current_size (open_pipes s ! k)) + length bs < 2 ^ 31"
    using assms(2) by (auto simp: pipe_feed_def Let_def split: if_splits)
  have i: "alloc_ok al" "k < length (open_pipes s)" "pipe_ok (open_pipes s ! k)" "writers (open_pipes s ! k) \<noteq> []"
    using assms(1) by (simp_all add: pipe_inv_def)
  have n: "unat ?n = length bs" "sint ?n = int (length bs)"
    using sz unat_word_of_nat [of "length bs", where 'a = 32] sint_small [of ?n] by simp_all
  obtain pg j f where f: "fd_at ?s fd pg j f" "fd_kind f = TYPE_PPWR" "fd_ref f = Pipe k"
    using pipe_end_fd [OF e] by blast
  have fit: "unat ?n \<le> length bs" "unat (current_size (open_pipes ?s ! k)) + unat ?n < 2 ^ 32" "k < length (open_pipes ?s)" "pipe_ok (open_pipes ?s ! k)"
    using n sz i by simp_all
  show ?thesis
  proof (cases rule: fm_pwrite_pipe [OF f fit(3,4) i(1) fit(1,2), of net 0 "-1"])
    case 1
    then show ?thesis
      using assms(2) e sz by (simp add: pipe_feed_def Let_def ENOMEM_def)
  next
    case (2 p)
    have q': "q' = (net, al, moved (set_pipe ?s k p) pg j True (int (length bs)))"
      using assms(2) e sz 2(1) n by (simp add: pipe_feed_def Let_def split: if_splits)
    have "unat (current_size p) < 2 ^ 31"
      using 2(6) sz n by (simp add: unat_word_ariths)
    then show ?thesis
      using 2 i n by (simp add: q' pipe_inv_def queue_at_def)
  qed
qed

lemma pipe_fetch_law:
  assumes "pipe_inv k q" and "pipe_fetch k w n q = (bs, q')"
  shows "pipe_inv k q' \<and> queue_at k q = bs @ queue_at k q'"
proof -
  obtain sch fd net al s where [simp]: "w = (sch, fd)" "q = (net, al, s)"
    by (metis prod.exhaust)
  let ?s = "s\<lparr>fm_sched := sch\<rparr>" and ?n = "of_nat n :: u32"
  show ?thesis
  proof (cases "pipe_end ?s fd TYPE_PPRD = Some k \<and> n < 2 ^ 31")
    case False
    then show ?thesis
      using assms by (auto simp: pipe_fetch_def Let_def)
  next
    case True
    have i: "k < length (open_pipes ?s)" "pipe_ok (open_pipes ?s ! k)" "writers (open_pipes ?s ! k) \<noteq> []"
      "length (pipe_queue (open_pipes ?s ! k)) < 2 ^ 31"
      using assms(1) small_queue by (simp_all add: pipe_inv_def)
    have m: "unat ?n = n"
      using True by (simp add: unat_word_of_nat)
    obtain pg j f where f: "fd_at ?s fd pg j f" "fd_kind f = TYPE_PPRD" "fd_ref f = Pipe k"
      using pipe_end_fd True by blast
    have fit: "unat ?n \<le> length (replicate n (0 :: byte))" "unat ?n < 2 ^ 31"
      using m True by simp_all
    show ?thesis
    proof (cases rule: fm_pread_pipe [OF f i(1,2) fit i(4,3), of net 0 "-1"])
      case 1
      have "(bs, q') = ([], q)"
        using assms(2) True 1(3) by (auto simp: pipe_fetch_def Let_def split: option.splits bind_splits)
      then show ?thesis
        using assms(1) by simp
    next
      case (2 p c)
      have r: "bs = take c (mwrite (replicate n 0) 0 (take n (pipe_queue (open_pipes s ! k))))" "q' = (net, al, moved (set_pipe ?s k p) pg j True (int c))"
        using assms(2) True 2(3) m by (simp_all add: pipe_fetch_def Let_def)
      have "bs = take n (pipe_queue (open_pipes s ! k))"
        unfolding r(1) 2(2) m by (simp add: mwrite_def min_def)
      then show ?thesis
        using 2 i assms(1) m by (simp add: r(2) pipe_inv_def queue_at_def)
    qed
  qed
qed

interpretation pipes: byte_queue "pipe_feed k" "pipe_fetch k" "queue_at k" "pipe_inv k" for k
  by unfold_locales (fact pipe_feed_law pipe_fetch_law)+

end
