(* ===== verification/FmopenRefs.thy ===== *)
theory FmopenRefs
  imports FmopenPipes
begin

text \<open>
  Who holds a pipe: the lists of readers and writers count, for each process, its descriptors, so a pipe
  gives its buffer back exactly when the last descriptor is closed.
\<close>

section \<open>Lists of references\<close>

definition packed :: "int list \<Rightarrow> int list \<Rightarrow> bool" where
  "packed us rs \<longleftrightarrow> rs = us @ replicate (PIPE_MAX_REF - length us) (-1) \<and> -1 \<notin> set us \<and> length us \<le> PIPE_MAX_REF"

definition is_packed :: "int list \<Rightarrow> bool" where
  "is_packed rs \<longleftrightarrow> (\<exists>us. packed us rs)"

lemma packed_count: "packed us rs \<Longrightarrow> pid \<noteq> -1 \<Longrightarrow> count_list rs pid = count_list us pid"
  by (simp add: packed_def)

lemma packed_head: "packed us rs \<Longrightarrow> rs \<noteq> [] \<and> (rs ! 0 = -1 \<longleftrightarrow> us = [])"
  by (cases us) (auto simp: packed_def PIPE_MAX_REF_def)

lemma packed_length: "packed us rs \<Longrightarrow> length rs = PIPE_MAX_REF"
  by (simp add: packed_def)

lemma find_first: "(\<And>x. x \<in> set xs \<Longrightarrow> \<not> P x) \<Longrightarrow> P y \<Longrightarrow> find (\<lambda>i. P ((xs @ y # zs) ! i)) [0..<length (xs @ y # zs)] = Some (length xs)"
  by (simp only: find_Some_iff) (auto intro!: exI [of _ "length xs"] simp: nth_append)

lemma find_no: "(\<And>x. x \<in> set xs \<Longrightarrow> \<not> P x) \<Longrightarrow> find (\<lambda>i. P (xs ! i)) [0..<length xs] = None"
  by (simp add: find_None_iff)

lemma push_ref_packed:
  assumes "packed us rs" and "pid \<noteq> -1" and "length us < PIPE_MAX_REF"
  shows "\<exists>rs'. push_ref pid rs = (0, rs') \<and> packed (us @ [pid]) rs'"
proof -
  obtain m where m: "PIPE_MAX_REF - length us = Suc m"
    using assms(3) by (metis Suc_diff_Suc)
  have rs: "rs = us @ -1 # replicate m (-1)"
    using assms(1) m by (simp add: packed_def)
  have "find (\<lambda>i. rs ! i = -1) [0..<length rs] = Some (length us)"
    unfolding rs by (rule find_first [of us "\<lambda>x. x = -1"]) (use assms(1) in \<open>auto simp: packed_def\<close>)
  then have "push_ref pid rs = (0, us @ pid # replicate m (-1))"
    by (simp add: push_ref_def rs)
  then show ?thesis
    using assms m by (auto simp: packed_def)
qed

lemma push_ref_full:
  assumes "packed us rs" and "length us = PIPE_MAX_REF"
  shows "push_ref pid rs = (-1, rs)"
proof -
  have "find (\<lambda>i. rs ! i = -1) [0..<length rs] = None"
    by (rule find_no [of rs "\<lambda>x. x = -1"]) (use assms in \<open>auto simp: packed_def\<close>)
  then show ?thesis
    by (simp add: push_ref_def)
qed

lemma shift_out_packed:
  assumes "packed (xs @ y # ys) rs"
  shows "packed (xs @ ys) (shift_out (length xs) rs)"
proof -
  have "shift_out (length xs) rs = xs @ ys @ replicate (PIPE_MAX_REF - length (xs @ y # ys)) (-1) @ [-1]"
    using assms by (simp add: packed_def shift_out_def)
  also have "replicate (PIPE_MAX_REF - length (xs @ y # ys)) (-1 :: int) @ [-1] = replicate (PIPE_MAX_REF - length (xs @ ys)) (-1)"
    using assms by (simp add: packed_def replicate_append_same Suc_diff_Suc Suc_diff_le flip: replicate_Suc)
  finally show ?thesis
    using assms by (auto simp: packed_def)
qed

lemma drop_ref_packed:
  assumes "packed us rs" and "pid \<noteq> -1"
  shows "packed (remove1 pid us) (drop_ref pid rs)"
proof (cases "pid \<in> set us")
  case True
  obtain xs ys where us: "us = xs @ pid # ys" "pid \<notin> set xs"
    using split_list_first [OF True] by blast
  have rs: "rs = xs @ pid # (ys @ replicate (PIPE_MAX_REF - length us) (-1))"
    using assms(1) us(1) by (simp add: packed_def)
  have "find (\<lambda>i. rs ! i = pid) [0..<length rs] = Some (length xs)"
    unfolding rs by (rule find_first [of xs "\<lambda>x. x = pid"]) (use us(2) in auto)
  then have "drop_ref pid rs = shift_out (length xs) rs"
    by (simp add: drop_ref_def)
  moreover have "remove1 pid us = xs @ ys"
    using us by (simp add: remove1_append)
  ultimately show ?thesis
    using shift_out_packed [of xs pid ys rs] assms(1) us(1) by simp
next
  case False
  have "find (\<lambda>i. rs ! i = pid) [0..<length rs] = None"
    by (rule find_no [of rs "\<lambda>x. x = pid"]) (use assms False in \<open>auto simp: packed_def\<close>)
  then show ?thesis
    using assms(1) False by (simp add: drop_ref_def remove1_idem)
qed

text \<open>The same on the lists as they are stored.\<close>

lemma push_ref_count:
  assumes "is_packed rs" and "pid \<noteq> -1" and "-1 \<in> set rs"
  obtains rs' where "push_ref pid rs = (0, rs')" "is_packed rs'"
    "\<And>q. q \<noteq> -1 \<Longrightarrow> count_list rs' q = count_list rs q + of_bool (q = pid)" "rs' ! 0 \<noteq> -1" "rs' \<noteq> []"
proof -
  obtain us where us: "packed us rs"
    using assms(1) by (auto simp: is_packed_def)
  have lt: "length us < PIPE_MAX_REF"
    using us assms(3) by (auto simp: packed_def)
  obtain rs' where rs': "push_ref pid rs = (0, rs')" "packed (us @ [pid]) rs'"
    using push_ref_packed [OF us assms(2) lt] by blast
  have "count_list rs' q = count_list rs q + of_bool (q = pid)" if "q \<noteq> -1" for q
    using packed_count [OF rs'(2) that] packed_count [OF us that] by simp
  then show thesis
    using that [OF rs'(1)] rs'(2) packed_head [OF rs'(2)] by (auto simp: is_packed_def)
qed

lemma drop_ref_count:
  assumes "is_packed rs" and "pid \<noteq> -1"
  shows "is_packed (drop_ref pid rs)" and "q \<noteq> -1 \<Longrightarrow> count_list (drop_ref pid rs) q = count_list rs q - of_bool (q = pid)"
proof -
  obtain us where us: "packed us rs"
    using assms(1) by (auto simp: is_packed_def)
  note d = drop_ref_packed [OF us assms(2)]
  show "is_packed (drop_ref pid rs)"
    using d by (auto simp: is_packed_def)
  have "count_list (remove1 pid us) q = count_list us q - of_bool (q = pid)" for q
    by (induction us) auto
  then show "q \<noteq> -1 \<Longrightarrow> count_list (drop_ref pid rs) q = count_list rs q - of_bool (q = pid)"
    using packed_count [OF us] packed_count [OF d] by simp
qed

lemma is_packed_head: "is_packed rs \<Longrightarrow> rs \<noteq> [] \<and> (rs ! 0 = -1 \<longleftrightarrow> (\<forall>q. q \<noteq> -1 \<longrightarrow> count_list rs q = 0))"
proof -
  assume "is_packed rs"
  then obtain us where us: "packed us rs"
    by (auto simp: is_packed_def)
  have "us = [] \<longleftrightarrow> (\<forall>q. q \<noteq> -1 \<longrightarrow> count_list us q = 0)"
    using us by (cases us) (auto simp: packed_def)
  then show ?thesis
    using packed_head [OF us] packed_count [OF us] by simp
qed

section \<open>Descriptors of the processes\<close>

definition ends :: "fd_type set" where
  "ends = {TYPE_PPRD, TYPE_PPWR}"

definition refers :: "fd_type \<Rightarrow> nat \<Rightarrow> fd_data \<Rightarrow> bool" where
  "refers t k f \<longleftrightarrow> fd_kind f = t \<and> fd_ref f = Pipe k"

definition holds :: "fm \<Rightarrow> u32 \<Rightarrow> fd_type \<Rightarrow> nat \<Rightarrow> nat" where
  "holds s pg t k = length (filter (refers t k) (fd_mem s pg))"

definition refs_of :: "fd_type \<Rightarrow> pipe_data \<Rightarrow> int list" where
  "refs_of t p = (if t = TYPE_PPRD then readers p else writers p)"

text \<open>A descriptor that is an end of a pipe names a pipe in use.\<close>

definition fd_ok :: "fm \<Rightarrow> fd_data \<Rightarrow> bool" where
  "fd_ok s f \<longleftrightarrow> (fd_kind f \<in> ends \<longrightarrow> (\<exists>k<PIPE_MAX. fd_ref f = Pipe k \<and> pipe_buf (open_pipes s ! k) \<noteq> None))"

text \<open>
  \<open>own\<close>: the live processes, as the page of their table and their number.  Every pipe in use counts
  the descriptors of each of them, and of nobody else.
\<close>

definition tables_ok :: "(u32 \<Rightarrow> int option) \<Rightarrow> fm \<Rightarrow> bool" where
  "tables_ok own s \<longleftrightarrow> length (open_pipes s) = PIPE_MAX \<and> -1 \<notin> ran own \<and> inj_on own (dom own) \<and>
     (\<forall>pg\<in>dom own. length (fd_mem s pg) = MAX_FD \<and> (\<forall>f\<in>set (fd_mem s pg). fd_ok s f))"

definition counted :: "(u32 \<Rightarrow> int option) \<Rightarrow> fm \<Rightarrow> nat \<Rightarrow> bool" where
  "counted own s k \<longleftrightarrow> (\<forall>t\<in>ends. is_packed (refs_of t (open_pipes s ! k)) \<and>
     (\<forall>pg pid. own pg = Some pid \<longrightarrow> count_list (refs_of t (open_pipes s ! k)) pid = holds s pg t k) \<and>
     (\<forall>q. q \<noteq> -1 \<longrightarrow> q \<notin> ran own \<longrightarrow> count_list (refs_of t (open_pipes s ! k)) q = 0))"

definition refs_ok :: "(u32 \<Rightarrow> int option) \<Rightarrow> fm \<Rightarrow> bool" where
  "refs_ok own s \<longleftrightarrow> tables_ok own s \<and> (\<forall>k<PIPE_MAX. pipe_buf (open_pipes s ! k) \<noteq> None \<longrightarrow> counted own s k)"

text \<open>Changing one descriptor.\<close>

lemma length_filter_update:
  "i < length xs \<Longrightarrow> length (filter P (xs[i := x])) + of_bool (P (xs ! i)) = length (filter P xs) + of_bool (P x)"
proof (induction xs arbitrary: i)
  case (Cons y ys)
  then show ?case
    by (cases i) (auto simp: of_bool_def split: if_splits)
qed simp

lemma holds_set_fd:
  assumes "i < length (fd_mem s pg)"
  shows "holds (set_fd s pg i g) pg' t k + of_bool (pg' = pg \<and> refers t k (fd_mem s pg ! i)) =
    holds s pg' t k + of_bool (pg' = pg \<and> refers t k g)"
  using length_filter_update [OF assms, of "refers t k" g] by (simp add: holds_def)

lemma holds_set_pipe [simp]: "holds (set_pipe s k p) pg t k' = holds s pg t k'"
  by (simp add: holds_def)

lemma holds_pos: "i < length (fd_mem s pg) \<Longrightarrow> refers t k (fd_mem s pg ! i) \<Longrightarrow> 0 < holds s pg t k"
  by (auto simp: holds_def filter_empty_conv)

lemma fd_ok_cong: "(\<And>k. pipe_buf (open_pipes s ! k) \<noteq> None \<Longrightarrow> pipe_buf (open_pipes s' ! k) \<noteq> None) \<Longrightarrow> fd_ok s f \<Longrightarrow> fd_ok s' f"
  unfolding fd_ok_def by blast

lemma tables_okD:
  assumes "tables_ok own s" and "own pg = Some pid"
  shows "length (fd_mem s pg) = MAX_FD" and "i < MAX_FD \<Longrightarrow> fd_ok s (fd_mem s pg ! i)" and "pid \<noteq> -1"
    and "own pg' = Some pid \<Longrightarrow> pg' = pg"
proof -
  show l: "length (fd_mem s pg) = MAX_FD"
    using assms by (auto simp: tables_ok_def)
  have "\<forall>f\<in>set (fd_mem s pg). fd_ok s f"
    using assms unfolding tables_ok_def by blast
  then show "i < MAX_FD \<Longrightarrow> fd_ok s (fd_mem s pg ! i)"
    using nth_mem [of i "fd_mem s pg"] l by simp
  show "pid \<noteq> -1"
    using assms by (auto simp: tables_ok_def ran_def)
  show "own pg' = Some pid \<Longrightarrow> pg' = pg"
    using assms by (auto simp: tables_ok_def dom_def inj_on_def)
qed

lemma tables_ok_set_fd:
  assumes "tables_ok own s" and "fd_ok s g"
  shows "tables_ok own (set_fd s pg i g)"
proof -
  have "fd_ok (set_fd s pg i g) f = fd_ok s f" for f
    by (simp add: fd_ok_def)
  moreover have "\<forall>f\<in>set (fd_mem (set_fd s pg i g) pg'). fd_ok s f" if "pg' \<in> dom own" for pg'
  proof -
    have "\<forall>f\<in>set (fd_mem s pg'). fd_ok s f"
      using assms(1) that unfolding tables_ok_def by blast
    then show ?thesis
      using set_update_subset_insert [of "fd_mem s pg" i g] assms(2) by auto
  qed
  ultimately show ?thesis
    using assms(1) unfolding tables_ok_def by auto
qed

text \<open>Of two ends that are not the same, the one does not see what happens to the other.\<close>

lemma counted_set_fd:
  assumes "counted own s k" and "i < length (fd_mem s pg)" and "\<And>t. t \<in> ends \<Longrightarrow> refers t k g = refers t k (fd_mem s pg ! i)"
  shows "counted own (set_fd s pg i g) k"
proof -
  have "holds (set_fd s pg i g) pg' t k = holds s pg' t k" if "t \<in> ends" for pg' t
    using holds_set_fd [OF assms(2), of g pg' t k] assms(3) [OF that] by simp
  then show ?thesis
    using assms(1) by (simp add: counted_def)
qed

lemma refs_ok_set_fd:
  assumes "refs_ok own s" and "i < length (fd_mem s pg)" and "fd_ok s g" and "\<And>t k. t \<in> ends \<Longrightarrow> refers t k g = refers t k (fd_mem s pg ! i)"
  shows "refs_ok own (set_fd s pg i g)"
  using assms tables_ok_set_fd counted_set_fd unfolding refs_ok_def by simp

lemma refs_ok_moved:
  assumes "refs_ok own s" and "own pg = Some pid" and "i < MAX_FD"
  shows "refs_ok own (moved s pg i sync n)"
proof -
  have t: "length (fd_mem s pg) = MAX_FD" "fd_ok s (fd_mem s pg ! i)"
    using assms tables_okD unfolding refs_ok_def by blast+
  then show ?thesis
    using assms(1,3) unfolding moved_def by (auto simp: refers_def fd_ok_def intro!: refs_ok_set_fd)
qed

text \<open>New contents of a pipe.\<close>

lemma refs_ok_contents:
  assumes "refs_ok own s" and "readers p = readers (open_pipes s ! k)" and "writers p = writers (open_pipes s ! k)"
    and "pipe_buf p \<noteq> None" and "pipe_buf (open_pipes s ! k) \<noteq> None"
  shows "refs_ok own (set_pipe s k p)"
proof -
  have u: "open_pipes (set_pipe s k p) ! j = (if j = k \<and> k < length (open_pipes s) then p else open_pipes s ! j)" for j
    by (cases "k < length (open_pipes s)") (auto simp: not_less list_update_beyond)
  have b: "pipe_buf (open_pipes (set_pipe s k p) ! j) \<noteq> None \<longleftrightarrow> pipe_buf (open_pipes s ! j) \<noteq> None" for j
    using assms(4,5) unfolding u by auto
  have r: "refs_of t (open_pipes (set_pipe s k p) ! j) = refs_of t (open_pipes s ! j)" for t j
    using assms(2,3) unfolding u by (auto simp: refs_of_def)
  have "fd_ok (set_pipe s k p) f = fd_ok s f" for f
    unfolding fd_ok_def b ..
  then show ?thesis
    using assms(1) unfolding refs_ok_def tables_ok_def counted_def b r by simp
qed

end
