(* ===== verification/FmopenKeep.thy ===== *)
theory FmopenKeep
  imports FmopenRefs
begin

text \<open>
  The counts of the pipes through every call on descriptors: closing, copying, a new pipe, a child, the
  end of a process.
\<close>

section \<open>One end changes together with its count\<close>

lemma countedD:
  assumes "counted own s k" and "t \<in> ends"
  shows "is_packed (refs_of t (open_pipes s ! k))"
    and "own pg = Some pid \<Longrightarrow> count_list (refs_of t (open_pipes s ! k)) pid = holds s pg t k"
    and "q \<noteq> -1 \<Longrightarrow> q \<notin> ran own \<Longrightarrow> count_list (refs_of t (open_pipes s ! k)) q = 0"
  using assms unfolding counted_def by blast+

lemma countedI:
  assumes "\<And>t. t \<in> ends \<Longrightarrow> is_packed (refs_of t (open_pipes s ! k))"
    and "\<And>t pg pid. t \<in> ends \<Longrightarrow> own pg = Some pid \<Longrightarrow> count_list (refs_of t (open_pipes s ! k)) pid = holds s pg t k"
    and "\<And>t q. t \<in> ends \<Longrightarrow> q \<noteq> -1 \<Longrightarrow> q \<notin> ran own \<Longrightarrow> count_list (refs_of t (open_pipes s ! k)) q = 0"
  shows "counted own s k"
  using assms unfolding counted_def by blast

lemma refs_okD:
  assumes "refs_ok own s"
  shows "tables_ok own s" and "length (open_pipes s) = PIPE_MAX"
    and "k < PIPE_MAX \<Longrightarrow> pipe_buf (open_pipes s ! k) \<noteq> None \<Longrightarrow> counted own s k"
  using assms unfolding refs_ok_def tables_ok_def by blast+

lemma counted_set_pipe:
  assumes "counted own s j" and "j \<noteq> k \<or> (\<forall>t\<in>ends. refs_of t p = refs_of t (open_pipes s ! k))" and "k < length (open_pipes s)"
  shows "counted own (set_pipe s k p) j"
proof -
  have "refs_of t (open_pipes (set_pipe s k p) ! j) = refs_of t (open_pipes s ! j)" if "t \<in> ends" for t
    using assms(2,3) that by (cases "j = k") simp_all
  then show ?thesis
    using assms(1) unfolding counted_def holds_set_pipe by simp
qed

lemma tables_ok_set_pipe:
  assumes "tables_ok own s" and "pipe_buf p \<noteq> None \<or> (\<forall>pg\<in>dom own. \<forall>f\<in>set (fd_mem s pg). \<forall>t\<in>ends. \<not> refers t k f)"
  shows "tables_ok own (set_pipe s k p)"
proof -
  have "fd_ok (set_pipe s k p) f" if o: "pg \<in> dom own" "f \<in> set (fd_mem s pg)" for pg f
  proof (cases "fd_kind f \<in> ends")
    case True
    have "fd_ok s f"
      using assms(1) o unfolding tables_ok_def by blast
    then obtain j where j: "j < PIPE_MAX" "fd_ref f = Pipe j" "pipe_buf (open_pipes s ! j) \<noteq> None"
      using True unfolding fd_ok_def by blast
    have "pipe_buf (open_pipes (set_pipe s k p) ! j) \<noteq> None"
    proof (cases "j = k")
      case jk: True
      then have "refers (fd_kind f) k f"
        using j(2) by (simp add: refers_def)
      then have "pipe_buf p \<noteq> None"
        using assms(2) o True by blast
      then show ?thesis
        using assms(1) j(1) jk by (simp add: tables_ok_def)
    next
      case False
      then show ?thesis
        using j(3) by simp
    qed
    then show ?thesis
      unfolding fd_ok_def using j(1,2) by blast
  next
    case False
    then show ?thesis
      by (simp add: fd_ok_def)
  qed
  then show ?thesis
    using assms(1) unfolding tables_ok_def by simp
qed

lemma refs_ok_end:
  assumes ok: "refs_ok own s" and pg: "own pg = Some pid" and i: "i < MAX_FD" and k: "k < PIPE_MAX"
    and used: "pipe_buf (open_pipes s ! k) \<noteq> None" "pipe_buf p \<noteq> None"
    and g: "fd_kind g \<in> ends \<Longrightarrow> fd_ref g = Pipe k \<or> fd_ok s g"
    and other: "\<And>t j. t \<in> ends \<Longrightarrow> j \<noteq> k \<Longrightarrow> refers t j g = refers t j (fd_mem s pg ! i)"
    and packed: "\<And>t. t \<in> ends \<Longrightarrow> is_packed (refs_of t p)"
    and count: "\<And>t q. t \<in> ends \<Longrightarrow> q \<noteq> -1 \<Longrightarrow>
      count_list (refs_of t p) q + of_bool (q = pid \<and> refers t k (fd_mem s pg ! i)) =
      count_list (refs_of t (open_pipes s ! k)) q + of_bool (q = pid \<and> refers t k g)"
  shows "refs_ok own (set_fd (set_pipe s k p) pg i g)"
proof -
  note t = refs_okD [OF ok] and d = tables_okD [OF refs_okD(1) [OF ok]]
  let ?s = "set_fd (set_pipe s k p) pg i g"
  have len: "i < length (fd_mem (set_pipe s k p) pg)" "k < length (open_pipes s)"
    using d(1) [OF pg] i t(2) k by simp_all
  have kept: "pipe_buf (open_pipes (set_pipe s k p) ! j) = None \<longleftrightarrow> pipe_buf (open_pipes s ! j) = None" for j
    using used len(2) by (cases "j = k") (simp_all del: not_None_eq)
  have "fd_ok (set_pipe s k p) g"
    using g k used(2) len(2) kept unfolding fd_ok_def by (metis fd_mem_set_pipe(4) nth_list_update_eq)
  then have tab: "tables_ok own ?s"
    using tables_ok_set_pipe [OF t(1)] used(2) by (intro tables_ok_set_fd) auto
  have "counted own ?s j" if j: "j < PIPE_MAX" "pipe_buf (open_pipes s ! j) \<noteq> None" for j
  proof (cases "j = k")
    case False
    show ?thesis
      by (rule counted_set_fd [OF counted_set_pipe [OF t(3) [OF j]] len(1)]) (use False other len in simp_all)
  next
    case True
    note c = countedD [OF t(3) [OF k used(1)]]
    have P: "open_pipes ?s ! j = p"
      using len(2) True by simp
    show ?thesis
    proof (rule countedI; unfold P)
      fix t pg' pid' assume te: "t \<in> ends" and o: "own pg' = Some pid'"
      have "pid' = pid \<longleftrightarrow> pg' = pg"
        using d(4) o pg by auto
      then show "count_list (refs_of t p) pid' = holds ?s pg' t j"
        using count [OF te d(3) [OF o]] holds_set_fd [OF len(1), of g pg' t k] c(2) [OF te o] True by simp
    next
      fix t q assume te: "t \<in> ends" and q: "q \<noteq> -1" "q \<notin> ran own"
      then have "q \<noteq> pid"
        using pg by (auto simp: ran_def)
      then show "count_list (refs_of t p) q = 0"
        using count [OF te q(1)] c(3) [OF te q] by simp
    qed (rule packed)
  qed
  then show ?thesis
    using tab kept unfolding refs_ok_def by simp
qed

text \<open>The buffer goes when both lists are empty; then no descriptor names the pipe.\<close>

lemma head_free:
  assumes "refs_ok own s" and "k < PIPE_MAX" and "pipe_buf (open_pipes s ! k) \<noteq> None" and t: "t \<in> ends"
  shows "refs_of t (open_pipes s ! k) ! 0 = -1 \<longleftrightarrow> (\<forall>pg\<in>dom own. holds s pg t k = 0)"
proof -
  note c = countedD [OF refs_okD(3) [OF assms(1-3)] t] and d = tables_okD [OF refs_okD(1) [OF assms(1)]]
  have "(\<forall>q. q \<noteq> -1 \<longrightarrow> count_list (refs_of t (open_pipes s ! k)) q = 0) \<longleftrightarrow> (\<forall>pg\<in>dom own. holds s pg t k = 0)"
  proof (intro iffI ballI allI impI)
    fix pg assume "\<forall>q. q \<noteq> -1 \<longrightarrow> count_list (refs_of t (open_pipes s ! k)) q = 0" and "pg \<in> dom own"
    then show "holds s pg t k = 0"
      using c(2) d(3) by (auto simp: dom_def)
  next
    fix q :: int assume h: "\<forall>pg\<in>dom own. holds s pg t k = 0" and q: "q \<noteq> -1"
    show "count_list (refs_of t (open_pipes s ! k)) q = 0"
    proof (cases "q \<in> ran own")
      case True
      then obtain pg where "own pg = Some q"
        by (auto simp: ran_def)
      then show ?thesis
        using h c(2) [of pg q] by auto
    qed (rule c(3) [OF q])
  qed
  then show ?thesis
    using is_packed_head [OF c(1)] by blast
qed

lemma no_holder: "holds s pg t k = 0 \<longleftrightarrow> (\<forall>f\<in>set (fd_mem s pg). \<not> refers t k f)"
  by (simp add: holds_def filter_empty_conv)

lemma unused_pipe:
  assumes "refs_ok own s" and "k < PIPE_MAX" and "pipe_buf (open_pipes s ! k) \<noteq> None"
  shows "(\<forall>t\<in>ends. refs_of t (open_pipes s ! k) ! 0 = -1) \<longleftrightarrow> (\<forall>pg\<in>dom own. \<forall>f\<in>set (fd_mem s pg). \<forall>t\<in>ends. \<not> refers t k f)"
  using head_free [OF assms] by (auto simp: no_holder)

lemma release_spec:
  "is_packed (readers p) \<Longrightarrow> is_packed (writers p) \<Longrightarrow>
    release p = Some (if readers p ! 0 = -1 \<and> writers p ! 0 = -1 then p\<lparr>pipe_buf := None\<rparr> else p)"
  using is_packed_head [of "readers p"] is_packed_head [of "writers p"] by (simp add: release_def)

lemma ends_all: "(\<forall>t\<in>ends. P (refs_of t p)) \<longleftrightarrow> P (readers p) \<and> P (writers p)"
  by (auto simp: ends_def refs_of_def)

lemma refs_ok_free:
  assumes "refs_ok own s" and "k < PIPE_MAX" and "pipe_buf (open_pipes s ! k) \<noteq> None"
    and "readers (open_pipes s ! k) ! 0 = -1" and "writers (open_pipes s ! k) ! 0 = -1"
  shows "refs_ok own (set_pipe s k ((open_pipes s ! k)\<lparr>pipe_buf := None\<rparr>))"
proof -
  let ?p = "(open_pipes s ! k)\<lparr>pipe_buf := None\<rparr>"
  note t = refs_okD [OF assms(1)]
  have k: "k < length (open_pipes s)"
    using assms(2) t(2) by simp
  have "\<forall>t\<in>ends. refs_of t (open_pipes s ! k) ! 0 = -1"
    using assms(4,5) by (simp add: ends_def refs_of_def)
  then have "tables_ok own (set_pipe s k ?p)"
    using unused_pipe [OF assms(1-3)] tables_ok_set_pipe [OF t(1)] by blast
  moreover have "counted own (set_pipe s k ?p) j" if "j < PIPE_MAX" "pipe_buf (open_pipes (set_pipe s k ?p) ! j) \<noteq> None" for j
  proof -
    have "j \<noteq> k"
      using that k by auto
    then show ?thesis
      using counted_set_pipe [OF t(3)] that k by simp
  qed
  ultimately show ?thesis
    unfolding refs_ok_def by blast
qed

section \<open>Closing\<close>

text \<open>A process that runs, with the page of its table.\<close>

definition running :: "(u32 \<Rightarrow> int option) \<Rightarrow> fm \<Rightarrow> u32 \<Rightarrow> int \<Rightarrow> bool" where
  "running own s pg pid \<longleftrightarrow> fd_page s = Some pg \<and> my_pid s = Some pid \<and> own pg = Some pid"

lemma running_frame [simp]:
  "running own (set_fd s pg' i f) pg pid = running own s pg pid" "running own (set_pipe s k p) pg pid = running own s pg pid"
  "running own (sock_event s e) pg pid = running own s pg pid" "running own (s\<lparr>fm_fs := fs\<rparr>) pg pid = running own s pg pid"
  by (simp_all add: running_def sock_event_def fd_page_def my_pid_def)

lemma refs_ok_frame [simp]:
  "refs_ok own (sock_event s e) = refs_ok own s" "refs_ok own (s\<lparr>fm_fs := fs\<rparr>) = refs_ok own s"
  "refs_ok own (s\<lparr>fm_sched := sch\<rparr>) = refs_ok own s"
  by (simp_all add: refs_ok_def tables_ok_def counted_def holds_def fd_ok_def sock_event_def)

definition drop_end :: "fd_type \<Rightarrow> int \<Rightarrow> pipe_data \<Rightarrow> pipe_data" where
  "drop_end t pid p = (if t = TYPE_PPRD then p\<lparr>readers := drop_ref pid (readers p)\<rparr> else p\<lparr>writers := drop_ref pid (writers p)\<rparr>)"

lemma refs_of_drop_end: "t \<in> ends \<Longrightarrow> t' \<in> ends \<Longrightarrow> refs_of t' (drop_end t pid p) = (if t' = t then drop_ref pid (refs_of t p) else refs_of t' p)"
  by (auto simp: ends_def refs_of_def drop_end_def)

lemma fm_close_pipe:
  assumes "fd_kind (fd_mem s pg ! i) = t" and "t \<in> ends" and "fd_ref (fd_mem s pg ! i) = Pipe k"
    and "i < length (fd_mem s pg)" and "k < length (open_pipes s)" and "my_pid s = Some pid"
  shows "fm_close_data s pg i = do {
    p \<leftarrow> release (drop_end t pid (open_pipes s ! k));
    Some (0, set_fd (set_pipe s k p) pg i ((fd_mem s pg ! i)\<lparr>fd_kind := TYPE_FREE\<rparr>))
  }"
  using assms by (auto simp: fm_close_data_def ends_def drop_end_def)

lemma fm_close_other:
  assumes "fd_kind (fd_mem s pg ! i) \<notin> ends" and "i < length (fd_mem s pg)" and "fm_close_data s pg i = Some (r, s')"
  obtains "r = - EBADF" "s' = s" "fd_kind (fd_mem s pg ! i) = TYPE_FREE"
  | s1 where "s' = set_fd s1 pg i ((fd_mem s pg ! i)\<lparr>fd_kind := TYPE_FREE\<rparr>)" "r = 0" "s1 = s \<or> (\<exists>e. s1 = sock_event s e)"
  using assms by (cases "fd_kind (fd_mem s pg ! i)"; cases "fd_ref (fd_mem s pg ! i)") (auto simp: fm_close_data_def ends_def)

lemma set_pipe_set_fd: "set_pipe (set_fd s pg i f) k p = set_fd (set_pipe s k p) pg i f"
  by (simp add: set_pipe_def set_fd_def)

lemma set_fd_mem: "fd_mem (set_fd s pg i f) = (fd_mem s)(pg := (fd_mem s pg)[i := f])"
  by (simp add: set_fd_def)

lemma set_fd_sock: "set_fd (sock_event s e) pg i f = sock_event (set_fd s pg i f) e" "fm_sched (sock_event s e) = fm_sched s"
  "fd_mem (sock_event s e) = fd_mem s" "open_pipes (sock_event s e) = open_pipes s" "fd_page (sock_event s e) = fd_page s"
  "my_pid (sock_event s e) = my_pid s"
  by (simp_all add: set_fd_def sock_event_def fd_page_def my_pid_def)

lemma set_pipe_twice: "set_pipe (set_pipe s k p) k q = set_pipe s k q"
  by (simp add: set_pipe_def)

lemma close_end_ok:
  assumes "refs_ok own s" and "running own s pg pid" and "i < MAX_FD" and "refers t k (fd_mem s pg ! i)" and "t \<in> ends"
  obtains p where "fm_close_data s pg i = Some (0, set_fd (set_pipe s k p) pg i ((fd_mem s pg ! i)\<lparr>fd_kind := TYPE_FREE\<rparr>))"
    "k < PIPE_MAX" "pipe_buf (open_pipes s ! k) \<noteq> None" "p = drop_end t pid (open_pipes s ! k)\<lparr>pipe_buf := pipe_buf p\<rparr>"
    "refs_ok own (set_fd (set_pipe s k (drop_end t pid (open_pipes s ! k))) pg i ((fd_mem s pg ! i)\<lparr>fd_kind := TYPE_FREE\<rparr>))"
    "refs_ok own (set_fd (set_pipe s k p) pg i ((fd_mem s pg ! i)\<lparr>fd_kind := TYPE_FREE\<rparr>))"
    "pipe_buf p = (if \<forall>t\<in>ends. refs_of t p ! 0 = -1 then None else pipe_buf (open_pipes s ! k))"
proof -
  let ?f = "fd_mem s pg ! i" and ?p = "open_pipes s ! k"
  let ?g = "?f\<lparr>fd_kind := TYPE_FREE\<rparr>" and ?q = "drop_end t pid ?p"
  note ok = refs_okD [OF assms(1)]
  have o: "own pg = Some pid" "my_pid s = Some pid"
    using assms(2) by (simp_all add: running_def)
  note d = tables_okD [OF ok(1) o(1)]
  have f: "fd_kind ?f = t" "fd_ref ?f = Pipe k"
    using assms(4) by (simp_all add: refers_def)
  have "fd_ok s ?f"
    by (rule d(2) [OF assms(3)])
  then have k: "k < PIPE_MAX" "pipe_buf ?p \<noteq> None"
    using f assms(5) unfolding fd_ok_def by auto
  have q: "pipe_buf ?q = pipe_buf ?p"
    by (simp add: drop_end_def)
  note c = countedD [OF ok(3) [OF k]]
  have packed: "is_packed (refs_of t' ?q)" if "t' \<in> ends" for t'
    using that c(1) drop_ref_count(1) [OF _ d(3)] refs_of_drop_end [OF assms(5) that] assms(5) by simp
  have in_use: "0 < count_list (refs_of t ?p) pid"
    using c(2) [OF assms(5) o(1)] holds_pos [of i s pg t k] assms(3,4) d(1) by simp
  let ?s = "set_fd (set_pipe s k ?q) pg i ?g"
  have s1: "refs_ok own ?s"
  proof (rule refs_ok_end [OF assms(1) o(1) assms(3) k])
    show "fd_kind ?g \<in> ends \<Longrightarrow> fd_ref ?g = Pipe k \<or> fd_ok s ?g"
      by (simp add: ends_def)
    show "refers t' j ?g = refers t' j ?f" if "t' \<in> ends" "j \<noteq> k" for t' j
      using that f by (auto simp: refers_def ends_def)
    show "count_list (refs_of t' ?q) r + of_bool (r = pid \<and> refers t' k ?f) = count_list (refs_of t' ?p) r + of_bool (r = pid \<and> refers t' k ?g)"
      if "t' \<in> ends" "r \<noteq> -1" for t' r
      using that in_use drop_ref_count(2) [OF c(1) [OF assms(5)] d(3) that(2)] refs_of_drop_end [OF assms(5) that(1)] f
      by (auto simp: refers_def ends_def)
  qed (use packed k q in auto)
  have rw: "is_packed (readers ?q)" "is_packed (writers ?q)"
    using packed [of TYPE_PPRD] packed [of TYPE_PPWR] by (simp_all add: ends_def refs_of_def)
  let ?r = "if readers ?q ! 0 = -1 \<and> writers ?q ! 0 = -1 then ?q\<lparr>pipe_buf := None\<rparr> else ?q"
  have "fm_close_data s pg i = Some (0, set_fd (set_pipe s k ?r) pg i ?g)"
    using fm_close_pipe [OF f(1) assms(5) f(2) _ _ o(2)] assms(3) d(1) k(1) ok(2) release_spec [OF rw] by simp
  moreover have "refs_ok own (set_fd (set_pipe s k ?r) pg i ?g)"
  proof (cases "readers ?q ! 0 = -1 \<and> writers ?q ! 0 = -1")
    case True
    have P: "open_pipes ?s ! k = ?q"
      using k(1) ok(2) by simp
    show ?thesis
      using refs_ok_free [OF s1 k(1)] True q k(2) unfolding P set_pipe_set_fd set_pipe_twice by simp
  next
    case False
    show ?thesis
      unfolding if_not_P [OF False] by (rule s1)
  qed
  ultimately show thesis
    using that [of ?r] k s1 q by (auto simp: ends_def refs_of_def)
qed

lemma close_data_ok:
  assumes "refs_ok own s" and "running own s pg pid" and "i < MAX_FD" and "fm_close_data s pg i = Some (r, s')"
  shows "refs_ok own s'" and "running own s' pg pid" and "fm_sched s' = fm_sched s"
    and "\<forall>pg'. length (fd_mem s' pg') = length (fd_mem s pg')"
    and "fd_mem s' = (fd_mem s)(pg := (fd_mem s pg)[i := (fd_mem s pg ! i)\<lparr>fd_kind := TYPE_FREE\<rparr>])"
proof -
  have o: "own pg = Some pid"
    using assms(2) by (simp add: running_def)
  note d = tables_okD [OF refs_okD(1) [OF assms(1)] o]
  have i: "i < length (fd_mem s pg)"
    using assms(3) d(1) by simp
  have "refs_ok own s' \<and> running own s' pg pid \<and> fm_sched s' = fm_sched s \<and>
      fd_mem s' = (fd_mem s)(pg := (fd_mem s pg)[i := (fd_mem s pg ! i)\<lparr>fd_kind := TYPE_FREE\<rparr>])"
  proof (cases "fd_kind (fd_mem s pg ! i) \<in> ends")
    case True
    then obtain k where "refers (fd_kind (fd_mem s pg ! i)) k (fd_mem s pg ! i)"
      using d(2) [OF assms(3)] unfolding fd_ok_def refers_def by auto
    from close_end_ok [OF assms(1-3) this True] obtain p where
      p: "fm_close_data s pg i = Some (0, set_fd (set_pipe s k p) pg i ((fd_mem s pg ! i)\<lparr>fd_kind := TYPE_FREE\<rparr>))"
      "refs_ok own (set_fd (set_pipe s k p) pg i ((fd_mem s pg ! i)\<lparr>fd_kind := TYPE_FREE\<rparr>))"
      by metis
    then show ?thesis
      using assms(2,4) by (simp add: set_fd_mem)
  next
    case False
    let ?g = "(fd_mem s pg ! i)\<lparr>fd_kind := TYPE_FREE\<rparr>"
    have r: "refs_ok own (set_fd s pg i ?g)"
      by (rule refs_ok_set_fd [OF assms(1) i]) (use False in \<open>auto simp: fd_ok_def refers_def ends_def\<close>)
    show ?thesis
    proof (cases rule: fm_close_other [OF False i assms(4)])
      case 1
      then have "(fd_mem s pg)[i := ?g] = fd_mem s pg"
        by (intro list_update_same_conv [THEN iffD2, OF i]) simp
      then show ?thesis
        using 1 assms(1,2) by (simp del: fd_data.update_convs add: fun_upd_idem)
    next
      case (2 s1)
      then show ?thesis
        using r assms(2) by (auto simp: set_fd_mem set_fd_sock)
    qed
  qed
  then show "refs_ok own s'" "running own s' pg pid" "fm_sched s' = fm_sched s"
    "\<forall>pg'. length (fd_mem s' pg') = length (fd_mem s pg')"
    "fd_mem s' = (fd_mem s)(pg := (fd_mem s pg)[i := (fd_mem s pg ! i)\<lparr>fd_kind := TYPE_FREE\<rparr>])"
    by simp_all
qed

end
