(* ===== verification/FmopenCalls.thy ===== *)
theory FmopenCalls
  imports FmopenKeep
begin

text \<open>
  The remaining calls on descriptors and the counts of the pipes.
\<close>

section \<open>Copying a descriptor\<close>

text \<open>A descriptor can be copied when the list of its end has a free place.\<close>

definition room :: "fm \<Rightarrow> fd_data \<Rightarrow> bool" where
  "room s f \<longleftrightarrow> (\<forall>t\<in>ends. \<forall>k. refers t k f \<longrightarrow> -1 \<in> set (refs_of t (open_pipes s ! k)))"

lemma drop_ref_room: "-1 \<in> set rs \<Longrightarrow> -1 \<in> set (drop_ref pid rs)"
  by (simp add: drop_ref_def shift_out_def split: option.splits)

lemma close_room:
  assumes "refs_ok own s" and "running own s pg pid" and "i < MAX_FD" and "fm_close_data s pg i = Some (r, s')" and "room s f"
  shows "room s' f"
proof -
  have o: "own pg = Some pid"
    using assms(2) by (simp add: running_def)
  note ok = refs_okD [OF assms(1)]
  note d = tables_okD [OF ok(1) o]
  have i: "i < length (fd_mem s pg)"
    using assms(3) d(1) by simp
  show ?thesis
  proof (cases "fd_kind (fd_mem s pg ! i) \<in> ends")
    case True
    then obtain k where "refers (fd_kind (fd_mem s pg ! i)) k (fd_mem s pg ! i)"
      using d(2) [OF assms(3)] unfolding fd_ok_def refers_def by auto
    from close_end_ok [OF assms(1-3) this True] obtain p where
      p: "fm_close_data s pg i = Some (0, set_fd (set_pipe s k p) pg i ((fd_mem s pg ! i)\<lparr>fd_kind := TYPE_FREE\<rparr>))" "k < PIPE_MAX"
      "p = drop_end (fd_kind (fd_mem s pg ! i)) pid (open_pipes s ! k)\<lparr>pipe_buf := pipe_buf p\<rparr>"
      by metis
    have "refs_of t p = refs_of t (drop_end (fd_kind (fd_mem s pg ! i)) pid (open_pipes s ! k))" for t
      by (subst p(3)) (simp add: refs_of_def)
    then have "-1 \<in> set (refs_of t p)" if "t \<in> ends" "-1 \<in> set (refs_of t (open_pipes s ! k))" for t
      using refs_of_drop_end [OF True that(1)] that drop_ref_room [of "refs_of t (open_pipes s ! k)" pid] by auto
    then have "-1 \<in> set (refs_of t (open_pipes s' ! j))" if "t \<in> ends" "-1 \<in> set (refs_of t (open_pipes s ! j))" for t j
      using that p(1,2) assms(4) ok(2) by (cases "j = k") auto
    then show ?thesis
      using assms(5) unfolding room_def by blast
  next
    case False
    then have "open_pipes s' = open_pipes s"
      by (rule fm_close_other [OF _ i assms(4)]) (auto simp: set_fd_sock)
    then show ?thesis
      using assms(5) by (simp add: room_def)
  qed
qed

definition push_end :: "fd_type \<Rightarrow> int \<Rightarrow> pipe_data \<Rightarrow> pipe_data" where
  "push_end t pid p = (if t = TYPE_PPRD then p\<lparr>readers := snd (push_ref pid (readers p))\<rparr> else p\<lparr>writers := snd (push_ref pid (writers p))\<rparr>)"

lemma refs_of_push_end: "t \<in> ends \<Longrightarrow> t' \<in> ends \<Longrightarrow> refs_of t' (push_end t pid p) = (if t' = t then snd (push_ref pid (refs_of t p)) else refs_of t' p)"
  by (auto simp: ends_def refs_of_def push_end_def)

lemma pipe_buf_push_end [simp]: "pipe_buf (push_end t pid p) = pipe_buf p"
  by (simp add: push_end_def)

lemma push_reader: "k < length (open_pipes s) \<Longrightarrow> fm_pipe_push_reader s k pid =
    Some (fst (push_ref pid (refs_of TYPE_PPRD (open_pipes s ! k))), set_pipe s k (push_end TYPE_PPRD pid (open_pipes s ! k)))"
  by (simp add: fm_pipe_push_reader_def push_end_def refs_of_def split: prod.splits)

lemma push_writer: "k < length (open_pipes s) \<Longrightarrow> fm_pipe_push_writer s k pid =
    Some (fst (push_ref pid (refs_of TYPE_PPWR (open_pipes s ! k))), set_pipe s k (push_end TYPE_PPWR pid (open_pipes s ! k)))"
  by (simp add: fm_pipe_push_writer_def push_end_def refs_of_def split: prod.splits)

lemma push_end_count:
  assumes "is_packed (refs_of t p)" and "pid \<noteq> -1" and "-1 \<in> set (refs_of t p)" and "t \<in> ends" and "t' \<in> ends"
  shows "fst (push_ref pid (refs_of t p)) = 0"
    and "is_packed (refs_of t' p) \<Longrightarrow> is_packed (refs_of t' (push_end t pid p))"
    and "q \<noteq> -1 \<Longrightarrow> count_list (refs_of t' (push_end t pid p)) q = count_list (refs_of t' p) q + of_bool (q = pid \<and> t' = t)"
proof -
  obtain rs where rs: "push_ref pid (refs_of t p) = (0, rs)" "is_packed rs"
    "\<And>q. q \<noteq> -1 \<Longrightarrow> count_list rs q = count_list (refs_of t p) q + of_bool (q = pid)"
    by (rule push_ref_count [OF assms(1-3)]) (rule that)
  show "fst (push_ref pid (refs_of t p)) = 0"
    using rs by simp
  show "is_packed (refs_of t' p) \<Longrightarrow> is_packed (refs_of t' (push_end t pid p))"
    using rs refs_of_push_end [OF assms(4,5)] by simp
  show "q \<noteq> -1 \<Longrightarrow> count_list (refs_of t' (push_end t pid p)) q = count_list (refs_of t' p) q + of_bool (q = pid \<and> t' = t)"
    using rs refs_of_push_end [OF assms(4,5)] by simp
qed

text \<open>A descriptor that was free becomes an end of a pipe in use.\<close>

lemma open_end_ok:
  assumes "refs_ok own s" and "own pg = Some pid" and "i < MAX_FD" and "fd_kind (fd_mem s pg ! i) \<notin> ends" and "k < PIPE_MAX"
    and "pipe_buf (open_pipes s ! k) \<noteq> None" and "refers t k g" and "t \<in> ends" and "-1 \<in> set (refs_of t (open_pipes s ! k))"
  shows "refs_ok own (set_fd (set_pipe s k (push_end t pid (open_pipes s ! k))) pg i g)"
proof -
  note ok = refs_okD [OF assms(1)]
  note c = countedD [OF ok(3) [OF assms(5,6)]] and d = tables_okD [OF ok(1) assms(2)]
  note p = push_end_count [OF c(1) [OF assms(8)] d(3) assms(9,8)]
  have old: "\<not> refers t' j (fd_mem s pg ! i)" if "t' \<in> ends" for t' j
    using assms(4) that by (auto simp: refers_def)
  have new: "refers t' j g \<longleftrightarrow> t' = t \<and> j = k" for t' j
    using assms(7) by (auto simp: refers_def)
  show ?thesis
  proof (rule refs_ok_end [OF assms(1-3,5,6)])
    show "fd_kind g \<in> ends \<Longrightarrow> fd_ref g = Pipe k \<or> fd_ok s g"
      using assms(7) by (simp add: refers_def)
    show "refers t' j g = refers t' j (fd_mem s pg ! i)" if "t' \<in> ends" "j \<noteq> k" for t' j
      using old new that by simp
    show "is_packed (refs_of t' (push_end t pid (open_pipes s ! k)))" if "t' \<in> ends" for t'
      by (rule p(2) [OF that c(1) [OF that]])
    show "count_list (refs_of t' (push_end t pid (open_pipes s ! k))) q + of_bool (q = pid \<and> refers t' k (fd_mem s pg ! i)) =
        count_list (refs_of t' (open_pipes s ! k)) q + of_bool (q = pid \<and> refers t' k g)" if "t' \<in> ends" "q \<noteq> -1" for t' q
      using p(3) [OF that] old [OF that(1)] new by simp
  qed (use assms(6) in simp)
qed

lemma refs_ok_plain:
  assumes "refs_ok own s" and "i < length (fd_mem s pg)" and "fd_kind (fd_mem s pg ! i) \<notin> ends" and "fd_kind g \<notin> ends"
  shows "refs_ok own (set_fd s pg i g)"
  by (rule refs_ok_set_fd [OF assms(1,2)]) (use assms(3,4) in \<open>auto simp: fd_ok_def refers_def\<close>)

lemma to_data_less: "fm_fd_to_data fd = Some i \<Longrightarrow> i < MAX_FD"
  by (auto simp: fm_fd_to_data_def split: if_splits)

lemma close_ok:
  assumes "refs_ok own s" and "running own s pg pid" and "fm_close s fd = Some (r, s')"
  shows "refs_ok own s' \<and> running own s' pg pid \<and> fm_sched s' = fm_sched s"
proof (cases "fm_fd_to_data fd")
  case None
  then show ?thesis
    using assms by (simp add: fm_close_def)
next
  case (Some i)
  then have "fm_close_data s pg i = Some (r, s')"
    using assms(2,3) by (simp add: fm_close_def running_def)
  from close_data_ok [OF assms(1,2) to_data_less [OF Some] this] show ?thesis
    by simp
qed

text \<open>The second half of \<open>fm_dup2\<close>: the target is free.\<close>

lemma copy_ok:
  assumes "refs_ok own s" and "running own s pg pid" and "i < MAX_FD" and "j < MAX_FD" and "fd_kind (fd_mem s pg ! j) = TYPE_FREE"
    and "room s (fd_mem s pg ! i)"
    and "copy_fd s pg i j new_fd = Some (r, s')"
  shows "refs_ok own s' \<and> running own s' pg pid \<and> fm_sched s' = fm_sched s"
proof -
  note ok = refs_okD [OF assms(1)]
  have o: "own pg = Some pid" "my_pid s = Some pid"
    using assms(2) by (simp_all add: running_def)
  note d = tables_okD [OF ok(1) o(1)]
  have j: "j < length (fd_mem s pg)" "fd_kind (fd_mem s pg ! j) \<notin> ends"
    using assms(4,5) d(1) by (simp_all add: ends_def)
  let ?f = "fd_mem s pg ! i"
  let ?g = "(fd_mem s pg ! j)\<lparr>fd_flags := fd_flags ?f, fd_kind := fd_kind ?f, fd_sid := fd_sid ?f\<rparr>"
  have i: "i < length (fd_mem s pg)"
    using assms(3) d(1) by simp
  show ?thesis
  proof (cases "fd_kind ?f \<in> ends")
    case True
    have "fd_ok s ?f"
      by (rule d(2) [OF assms(3)])
    then obtain k where k: "k < PIPE_MAX" "fd_ref ?f = Pipe k" "pipe_buf (open_pipes s ! k) \<noteq> None"
      using True unfolding fd_ok_def by blast
    have g: "refers (fd_kind ?f) k (?g\<lparr>fd_ref := Pipe k\<rparr>)"
      by (simp add: refers_def)
    have "-1 \<in> set (refs_of (fd_kind ?f) (open_pipes s ! k))"
      using assms(6) True k(2) by (auto simp: room_def refers_def)
    note r = open_end_ok [OF assms(1) o(1) assms(4) j(2) k(1,3) g True this]
    have "s' = set_fd (set_pipe s k (push_end (fd_kind ?f) pid (open_pipes s ! k))) pg j (?g\<lparr>fd_ref := Pipe k\<rparr>)"
      using assms(7) True k(1,2) o(2) ok(2) i j(1) by (auto simp: copy_fd_def Let_def ends_def push_reader push_writer)
    then show ?thesis
      using r assms(2) by simp
  next
    case False
    have p: "refs_ok own (set_fd s pg j g')" if "fd_kind g' = fd_kind ?f" for g'
      by (rule refs_ok_plain [OF assms(1) j]) (use that False in simp)
    show ?thesis
      using False assms(2,7) i j(1) by (cases "fd_kind ?f"; cases "fd_ref ?f") (auto simp: copy_fd_def Let_def ends_def set_fd_sock p)
  qed
qed

lemma dup2_ok:
  assumes "refs_ok own s" and "running own s pg pid" and "fm_dup2 s fd new_fd = Some (r, s')"
    and "\<And>i. fm_fd_to_data fd = Some i \<Longrightarrow> room s (fd_mem s pg ! i)"
  shows "refs_ok own s' \<and> running own s' pg pid \<and> fm_sched s' = fm_sched s"
proof (cases "fm_fd_to_data fd")
  case None
  then show ?thesis
    using assms(1-3) by (simp add: fm_dup2_def)
next
  case fd: (Some i)
  have o: "own pg = Some pid" "fd_page s = Some pg"
    using assms(2) by (simp_all add: running_def)
  note d = tables_okD [OF refs_okD(1) [OF assms(1)] o(1)]
  have i: "i < MAX_FD"
    by (rule to_data_less [OF fd])
  show ?thesis
  proof (cases "fd_kind (fd_mem s pg ! i) = TYPE_FREE \<or> fm_fd_to_data new_fd = None")
    case True
    then show ?thesis
      using assms(1-3) fd o(2) i d(1) by (auto simp: fm_dup2_def split: if_splits)
  next
    case False
    then obtain j where j: "fm_fd_to_data new_fd = Some j" "j < MAX_FD"
      using to_data_less by blast
    have U: "fm_dup2 s fd new_fd = do {
        (r, s) \<leftarrow> (if fd_kind (fd_mem s pg ! j) \<noteq> TYPE_FREE then fm_close_data s pg j else Some (0, s));
        if r < 0 then Some (- EBADF, s) else copy_fd s pg i j new_fd }"
      using False fd j o(2) i d(1) by (simp add: fm_dup2_def fm_close_def)
    obtain r1 s1 where s1: "(if fd_kind (fd_mem s pg ! j) \<noteq> TYPE_FREE then fm_close_data s pg j else Some (0, s)) = Some (r1, s1)"
      using assms(3) unfolding U Option.bind_eq_Some_conv by auto
    have k: "refs_ok own s1 \<and> running own s1 pg pid \<and> fm_sched s1 = fm_sched s \<and> room s1 (fd_mem s pg ! i) \<and>
        length (fd_mem s1 pg) = MAX_FD \<and> fd_kind (fd_mem s1 pg ! j) = TYPE_FREE \<and> (i \<noteq> j \<longrightarrow> fd_mem s1 pg ! i = fd_mem s pg ! i)"
    proof (cases "fd_kind (fd_mem s pg ! j) = TYPE_FREE")
      case True
      then show ?thesis
        using s1 assms(1,2) assms(4) [OF fd] d(1) by simp
    next
      case False
      then have c: "fm_close_data s pg j = Some (r1, s1)"
        using s1 by simp
      show ?thesis
        using close_data_ok [OF assms(1,2) j(2) c] close_room [OF assms(1,2) j(2) c assms(4) [OF fd]] j(2) d(1) by simp
    qed
    have run: "fd_page s1 = Some pg"
      using k by (simp add: running_def)
    have room: "room s1 (fd_mem s1 pg ! i)"
      using k by (cases "i = j") (auto simp: room_def refers_def ends_def)
    show ?thesis
    proof (cases "r1 < 0")
      case True
      then have "s' = s1"
        using assms(3) s1 False unfolding U by simp
      then show ?thesis
        using k by simp
    next
      case nn: False
      have t: "refs_ok own s' \<and> running own s' pg pid \<and> fm_sched s' = fm_sched s1"
      proof (rule copy_ok [OF _ _ i j(2) _ room])
        show "refs_ok own s1" "running own s1 pg pid" "fd_kind (fd_mem s1 pg ! j) = TYPE_FREE"
          using k by simp_all
        show "copy_fd s1 pg i j new_fd = Some (r, s')"
          using assms(3) s1 nn False unfolding U by simp
      qed
      then show ?thesis
        using k by simp
    qed
  qed
qed

section \<open>A new pipe\<close>

lemma free_fd:
  "fm_get_free_fd s pg = Some i \<Longrightarrow> i < MAX_FD \<and> fd_kind (fd_mem s pg ! i) = TYPE_FREE"
  by (auto simp: fm_get_free_fd_def find_Some_iff)

lemma free_pipe: "fm_get_free_pipe s = Some k \<Longrightarrow> k < PIPE_MAX \<and> pipe_buf (open_pipes s ! k) = None"
  by (auto simp: fm_get_free_pipe_def find_Some_iff)

definition fresh_pipe :: "byte list \<Rightarrow> int list \<Rightarrow> int list \<Rightarrow> pipe_data" where
  "fresh_pipe m rs ws = \<lparr>buffer_size = 0x1000, pipe_buf = Some (replicate (length m) 0), current_size = 0, rd_offset = 0,
    readers = rs, writers = ws\<rparr>"

text \<open>The state after \<open>fm_pipe\<close>, as two ends of a pipe that nobody held.\<close>

lemma fm_pipe_done:
  assumes "running own s pg pid" and "fm_pipe al s = Some (0, x, y, s')" and "length (fd_mem s pg) = MAX_FD" and "length (open_pipes s) = PIPE_MAX"
  obtains k m i j f g where "fm_get_free_pipe s = Some k" "al 0x1000 = Some m" "x = Some (int i)" "y = Some (int j)" "i < MAX_FD" "j < MAX_FD"
    "i \<noteq> j" "fd_kind (fd_mem s pg ! i) = TYPE_FREE" "fd_kind (fd_mem s pg ! j) = TYPE_FREE" "refers TYPE_PPRD k f" "refers TYPE_PPWR k g"
    "s' = set_fd (set_fd (set_pipe s k (fresh_pipe m ((replicate PIPE_MAX_REF (-1))[0 := pid]) ((replicate PIPE_MAX_REF (-1))[0 := pid]))) pg i f) pg j g"
proof -
  have o: "fd_page s = Some pg" "my_pid s = Some pid"
    using assms(1) by (simp_all add: running_def)
  obtain k where k: "fm_get_free_pipe s = Some k"
    using assms(2) by (cases "fm_get_free_pipe s") (auto simp: fm_pipe_def EMFILE_def)
  obtain m where m: "al 0x1000 = Some m"
    using assms(2) k by (cases "al 0x1000") (auto simp: fm_pipe_def ENOMEM_def)
  let ?p = "fresh_pipe m ((replicate PIPE_MAX_REF (-1))[0 := pid]) ((replicate PIPE_MAX_REF (-1))[0 := pid])"
  let ?s = "set_pipe s k ?p"
  obtain i where i: "fm_get_free_fd ?s pg = Some i"
    using assms(2) k m o by (cases "fm_get_free_fd ?s pg") (auto simp: fm_pipe_def EMFILE_def Let_def fresh_pipe_def)
  note fi = free_fd [OF i]
  let ?f = "fd_mem s pg ! i"
  let ?s1 = "set_fd ?s pg i (?f\<lparr>fd_kind := TYPE_PPRD\<rparr>)"
  obtain j where j: "fm_get_free_fd ?s1 pg = Some j"
    using assms(2,3) k m o i fi by (cases "fm_get_free_fd ?s1 pg") (auto simp: fm_pipe_def EMFILE_def Let_def fresh_pipe_def)
  note fj = free_fd [OF j]
  have ij: "i \<noteq> j"
    using fj fi assms(3) by auto
  then have kj: "fd_kind (fd_mem s pg ! j) = TYPE_FREE"
    using fj by simp
  let ?g = "fd_mem s pg ! j"
  let ?f' = "?f\<lparr>fd_kind := TYPE_PPRD, fd_flags := O_RDONLY, fd_ref := Pipe k, fd_sid := SID_NULL\<rparr>"
  let ?g' = "?g\<lparr>fd_kind := TYPE_PPWR, fd_flags := O_WRONLY, fd_ref := Pipe k, fd_sid := SID_NULL\<rparr>"
  have tw: "set_fd (set_fd ?s pg i h) pg i h' = set_fd ?s pg i h'" for h h'
    by (simp add: set_fd_def)
  have "x = Some (int i)" "y = Some (int j)" "s' = set_fd (set_fd ?s pg i ?f') pg j ?g'"
    using assms(2,3) k m o i fi j fj ij by (auto simp: fm_pipe_def Let_def tw simp flip: fresh_pipe_def)
  then show thesis
    using that [of k m i j ?f' ?g'] k m fi fj kj ij by (simp add: refers_def)
qed

lemma pipe_new_ok:
  assumes "refs_ok own s" and "running own s pg pid" and "fm_pipe al s = Some (0, x, y, s')"
  shows "refs_ok own s' \<and> running own s' pg pid \<and> fm_sched s' = fm_sched s"
proof -
  note ok = refs_okD [OF assms(1)]
  have o: "own pg = Some pid"
    using assms(2) by (simp add: running_def)
  note d = tables_okD [OF ok(1) o]
  obtain k m i j f g where p: "fm_get_free_pipe s = Some k" "i < MAX_FD" "j < MAX_FD"
    "i \<noteq> j" "fd_kind (fd_mem s pg ! i) = TYPE_FREE" "fd_kind (fd_mem s pg ! j) = TYPE_FREE" "refers TYPE_PPRD k f" "refers TYPE_PPWR k g"
    "s' = set_fd (set_fd (set_pipe s k (fresh_pipe m ((replicate PIPE_MAX_REF (-1))[0 := pid]) ((replicate PIPE_MAX_REF (-1))[0 := pid]))) pg i f) pg j g"
    by (rule fm_pipe_done [OF assms(2,3) d(1) ok(2)])
  let ?E = "replicate PIPE_MAX_REF (-1 :: int)"
  let ?s0 = "set_pipe s k (fresh_pipe m ?E ?E)"
  note k = free_pipe [OF p(1)]
  have kl: "k < length (open_pipes s)"
    using k ok(2) by simp
  have E: "is_packed ?E" "\<And>q. q \<noteq> -1 \<Longrightarrow> count_list ?E q = 0"
    by (auto simp: is_packed_def packed_def intro!: exI [of _ "[]"])
  have none: "\<not> refers t k h" if "pg' \<in> dom own" "h \<in> set (fd_mem s pg')" "t \<in> ends" for pg' h t
  proof
    assume "refers t k h"
    moreover have "fd_ok s h"
      using ok(1) that(1,2) unfolding tables_ok_def by blast
    ultimately show False
      using that(3) k by (auto simp: fd_ok_def refers_def)
  qed
  have s0: "refs_ok own ?s0"
  proof -
    have "tables_ok own ?s0"
      by (rule tables_ok_set_pipe [OF ok(1)]) (simp add: fresh_pipe_def)
    moreover have "counted own ?s0 n" if n: "n < PIPE_MAX" "pipe_buf (open_pipes ?s0 ! n) \<noteq> None" for n
    proof (cases "n = k")
      case True
      have r: "refs_of t (open_pipes ?s0 ! n) = ?E" for t
        using True kl by (simp add: refs_of_def fresh_pipe_def)
      show ?thesis
      proof (rule countedI; unfold r)
        fix t pg' pid' assume t: "t \<in> ends" and o': "own pg' = Some pid'"
        have "pg' \<in> dom own"
          using o' by blast
        then have "holds ?s0 pg' t n = 0"
          using none [of pg' _ t] t True by (auto simp: holds_def filter_empty_conv)
        then show "count_list ?E pid' = holds ?s0 pg' t n"
          using E(2) tables_okD(3) [OF ok(1) o'] by simp
      qed (use E in auto)
    next
      case False
      then show ?thesis
        using counted_set_pipe [OF ok(3)] n kl by simp
    qed
    ultimately show ?thesis
      unfolding refs_ok_def by blast
  qed
  have pushed: "snd (push_ref pid ?E) = ?E[0 := pid]"
    by (simp add: push_ref_def PIPE_MAX_REF_def upt_rec)
  let ?p1 = "fresh_pipe m (?E[0 := pid]) ?E"
  have i1: "set_fd (set_pipe ?s0 k (push_end TYPE_PPRD pid (open_pipes ?s0 ! k))) pg i f = set_fd (set_pipe s k ?p1) pg i f"
    using kl by (simp add: push_end_def pushed set_pipe_twice) (simp add: fresh_pipe_def pushed)
  have s1: "refs_ok own (set_fd (set_pipe s k ?p1) pg i f)"
    unfolding i1 [symmetric]
    by (rule open_end_ok [OF s0 o p(2)]) (use p(5,7) k kl in \<open>auto simp: ends_def fresh_pipe_def refs_of_def PIPE_MAX_REF_def\<close>)
  let ?s1 = "set_fd (set_pipe s k ?p1) pg i f"
  have i2: "set_fd (set_pipe ?s1 k (push_end TYPE_PPWR pid (open_pipes ?s1 ! k))) pg j g = s'"
    using kl unfolding p(9) set_pipe_set_fd by (simp add: push_end_def pushed set_pipe_twice) (simp add: fresh_pipe_def pushed)
  have "refs_ok own s'"
    unfolding i2 [symmetric]
    by (rule open_end_ok [OF s1 o p(3)]) (use p(4,6,8) k kl in \<open>auto simp: ends_def fresh_pipe_def refs_of_def PIPE_MAX_REF_def\<close>)
  then show ?thesis
    using assms(2) p(9) by simp
qed

end
