(* ===== verification/FmopenSteps.thy ===== *)
theory FmopenSteps
  imports FmopenCalls
begin

text \<open>
  The life of the pipes as a relation of steps: calls of running processes, children, deaths and switches.
\<close>

section \<open>A child\<close>

text \<open>The pipes after some references of the process \<open>pid\<close> were added, \<open>extra t k\<close> to each list.\<close>

definition added :: "int \<Rightarrow> (fd_type \<Rightarrow> nat \<Rightarrow> nat) \<Rightarrow> fm \<Rightarrow> fm \<Rightarrow> bool" where
  "added pid extra s s' \<longleftrightarrow> fd_mem s' = fd_mem s \<and> fm_sched s' = fm_sched s \<and> length (open_pipes s') = length (open_pipes s) \<and>
     (\<forall>k. pipe_buf (open_pipes s' ! k) = pipe_buf (open_pipes s ! k)) \<and>
     (\<forall>k<PIPE_MAX. \<forall>t\<in>ends. pipe_buf (open_pipes s ! k) \<noteq> None \<longrightarrow> is_packed (refs_of t (open_pipes s ! k)) \<longrightarrow>
        is_packed (refs_of t (open_pipes s' ! k)) \<and>
        (\<forall>q. q \<noteq> -1 \<longrightarrow> count_list (refs_of t (open_pipes s' ! k)) q = count_list (refs_of t (open_pipes s ! k)) q + of_bool (q = pid) * extra t k))"

lemma added_refl: "added pid (\<lambda>t k. 0) s s"
  by (simp add: added_def)

lemma added_trans: "added pid e s s1 \<Longrightarrow> added pid e' s1 s2 \<Longrightarrow> added pid (\<lambda>t k. e t k + e' t k) s s2"
  unfolding added_def by (simp add: algebra_simps)

lemma added_push:
  assumes "k < length (open_pipes s)" and "t \<in> ends" and "pid \<noteq> -1" and "\<not> fst (push_ref pid (refs_of t (open_pipes s ! k))) < 0"
    and "pipe_buf (open_pipes s ! k) \<noteq> None" and "is_packed (refs_of t (open_pipes s ! k))"
  shows "added pid (\<lambda>t' j. of_bool (t' = t \<and> j = k)) s (set_pipe s k (push_end t pid (open_pipes s ! k)))"
proof -
  have room: "-1 \<in> set (refs_of t (open_pipes s ! k))"
    using assms(4) by (auto simp: push_ref_def find_Some_iff split: option.splits) (metis nth_mem)
  note p = push_end_count [OF assms(6,3) room assms(2)]
  let ?s = "set_pipe s k (push_end t pid (open_pipes s ! k))"
  have "pipe_buf (open_pipes ?s ! j) = pipe_buf (open_pipes s ! j)" for j
    using assms(1) by (cases "j = k") simp_all
  moreover have "is_packed (refs_of t' (open_pipes ?s ! j))"
    if "t' \<in> ends" "is_packed (refs_of t' (open_pipes s ! j))" for t' j
    using p(2) [OF that(1)] that(2) assms(1) by (cases "j = k") simp_all
  moreover have "count_list (refs_of t' (open_pipes ?s ! j)) q = count_list (refs_of t' (open_pipes s ! j)) q + of_bool (q = pid) * of_bool (t' = t \<and> j = k)"
    if "t' \<in> ends" "q \<noteq> -1" for t' j q
    using p(3) [OF that] assms(1) by (cases "j = k") simp_all
  ultimately show ?thesis
    unfolding added_def by simp
qed

lemma added_sock: "added pid (\<lambda>t k. 0) s (sock_event s e)"
  by (simp add: added_def sock_event_def)

lemma declare_loop_added:
  assumes "declare_loop s pg pid is = Some (0, s')" and "pid \<noteq> -1" and "length (open_pipes s) = PIPE_MAX"
    and "\<forall>i\<in>set is. i < length (fd_mem s pg) \<and> fd_ok s (fd_mem s pg ! i)"
    and "\<forall>k<PIPE_MAX. \<forall>t\<in>ends. pipe_buf (open_pipes s ! k) \<noteq> None \<longrightarrow> is_packed (refs_of t (open_pipes s ! k))"
  shows "added pid (\<lambda>t k. length (filter (\<lambda>i. refers t k (fd_mem s pg ! i)) is)) s s'"
  using assms
proof (induction "is" arbitrary: s)
  case Nil
  then show ?case
    by (simp add: added_refl)
next
  case (Cons i "is")
  let ?f = "fd_mem s pg ! i"
  have i: "i < length (fd_mem s pg)" "fd_ok s ?f"
    using Cons.prems(4) by simp_all
  have "\<exists>s1. added pid (\<lambda>t k. of_bool (t \<in> ends \<and> refers t k ?f)) s s1 \<and> declare_loop s1 pg pid is = Some (0, s')"
  proof (cases "fd_kind ?f \<in> ends")
    case True
    then obtain k where k: "k < PIPE_MAX" "fd_ref ?f = Pipe k" "pipe_buf (open_pipes s ! k) \<noteq> None"
      using i(2) unfolding fd_ok_def by blast
    let ?s = "set_pipe s k (push_end (fd_kind ?f) pid (open_pipes s ! k))"
    have kl: "k < length (open_pipes s)"
      using k(1) Cons.prems(3) by simp
    have l: "\<not> fst (push_ref pid (refs_of (fd_kind ?f) (open_pipes s ! k))) < 0 \<and> declare_loop ?s pg pid is = Some (0, s')"
      using Cons.prems(1) True i(1) k(2) kl by (auto simp: ends_def push_reader push_writer split: if_splits)
    have "is_packed (refs_of (fd_kind ?f) (open_pipes s ! k))"
      using Cons.prems(5) k(1,3) True by blast
    from added_push [OF kl True Cons.prems(2) conjunct1 [OF l] k(3) this]
    have "added pid (\<lambda>t k. of_bool (t \<in> ends \<and> refers t k ?f)) s ?s"
      by (rule back_subst) (use k(2) True in \<open>auto simp: refers_def fun_eq_iff intro!: arg_cong [where f = "\<lambda>e. added pid e s ?s"]\<close>)
    then show ?thesis
      using l by blast
  next
    case False
    then have z: "(\<lambda>t k. of_bool (t \<in> ends \<and> refers t k ?f)) = (\<lambda>t k. 0 :: nat)"
      by (auto simp: refers_def fun_eq_iff)
    show ?thesis
      using False Cons.prems(1) i(1) unfolding z
      by (cases "fd_kind ?f"; cases "fd_ref ?f") (auto simp: ends_def intro: added_refl added_sock)
  qed
  then obtain s1 where s1: "added pid (\<lambda>t k. of_bool (t \<in> ends \<and> refers t k ?f)) s s1" "declare_loop s1 pg pid is = Some (0, s')"
    by blast
  have m: "fd_mem s1 = fd_mem s" "length (open_pipes s1) = PIPE_MAX" "\<And>k. pipe_buf (open_pipes s1 ! k) = pipe_buf (open_pipes s ! k)"
    using s1(1) Cons.prems(3) by (simp_all add: added_def)
  have "\<forall>j\<in>set is. j < length (fd_mem s1 pg) \<and> fd_ok s1 (fd_mem s1 pg ! j)"
    using Cons.prems(4) by (simp add: m fd_ok_def)
  moreover have "\<forall>k<PIPE_MAX. \<forall>t\<in>ends. pipe_buf (open_pipes s1 ! k) \<noteq> None \<longrightarrow> is_packed (refs_of t (open_pipes s1 ! k))"
    using s1(1) Cons.prems(5) unfolding added_def by simp
  ultimately have "added pid (\<lambda>t k. length (filter (\<lambda>i. refers t k (fd_mem s1 pg ! i)) is)) s1 s'"
    by (rule Cons.IH [OF s1(2) Cons.prems(2) m(2)])
  from added_trans [OF s1(1) this] show ?case
    unfolding added_def m(1) by (simp add: of_bool_def)
qed

lemma filter_index: "length (filter (\<lambda>i. P (xs ! i)) [0..<length xs]) = length (filter P xs)"
proof -
  have "filter P xs = map ((!) xs) (filter (\<lambda>i. P (xs ! i)) [0..<length xs])"
    using filter_map [of P "(!) xs" "[0..<length xs]"] by (simp add: map_nth comp_def)
  then show ?thesis
    by simp
qed

lemma child_ok:
  assumes "refs_ok own s" and "running own s pg pid" and "fm_declare_child (s\<lparr>fd_mem := (fd_mem s)(cpg := fd_mem s pg)\<rparr>) cpid = Some (0, s')"
    and "cpg \<notin> dom own" and "cpid \<notin> ran own" and "cpid \<noteq> -1"
  shows "refs_ok (own(cpg \<mapsto> cpid)) s'" and "running (own(cpg \<mapsto> cpid)) s' pg pid" and "fm_sched s' = fm_sched s"
proof -
  note ok = refs_okD [OF assms(1)]
  have o: "own pg = Some pid" "fd_page s = Some pg"
    using assms(2) by (simp_all add: running_def)
  note d = tables_okD [OF ok(1) o(1)]
  have ne: "pg \<noteq> cpg"
    using assms(4) o(1) by auto
  let ?s = "s\<lparr>fd_mem := (fd_mem s)(cpg := fd_mem s pg)\<rparr>"
  have okf: "fd_ok ?s f = fd_ok s f" for f
    by (simp add: fd_ok_def)
  have pgs: "fd_page ?s = Some pg"
    using o(2) by (simp add: fd_page_def)
  have l: "declare_loop ?s pg cpid [0..<MAX_FD] = Some (0, s')"
    using assms(3) pgs by (simp add: fm_declare_child_def)
  have a: "added cpid (\<lambda>t k. length (filter (\<lambda>i. refers t k (fd_mem ?s pg ! i)) [0..<MAX_FD])) ?s s'"
  proof (rule declare_loop_added [OF l assms(6)])
    show "length (open_pipes ?s) = PIPE_MAX"
      using ok(2) by simp
    show "\<forall>i\<in>set [0..<MAX_FD]. i < length (fd_mem ?s pg) \<and> fd_ok ?s (fd_mem ?s pg ! i)"
      using d(1,2) ne by (simp add: okf)
    show "\<forall>k<PIPE_MAX. \<forall>t\<in>ends. pipe_buf (open_pipes ?s ! k) \<noteq> None \<longrightarrow> is_packed (refs_of t (open_pipes ?s ! k))"
      using ok(3) unfolding counted_def by simp
  qed
  have e: "length (filter (\<lambda>i. refers t k (fd_mem ?s pg ! i)) [0..<MAX_FD]) = holds s pg t k" for t k
    using filter_index [of "refers t k" "fd_mem s pg"] d(1) ne by (simp add: holds_def)
  have m: "fd_mem s' = (fd_mem s)(cpg := fd_mem s pg)" "\<And>k. pipe_buf (open_pipes s' ! k) = pipe_buf (open_pipes s ! k)"
    "length (open_pipes s') = PIPE_MAX" "fm_sched s' = fm_sched s"
    using a ok(2) unfolding added_def by simp_all
  have okf': "fd_ok s' f = fd_ok s f" for f
    by (simp add: fd_ok_def m(2))
  have "tables_ok (own(cpg \<mapsto> cpid)) s'"
  proof -
    have "inj_on (own(cpg \<mapsto> cpid)) (dom (own(cpg \<mapsto> cpid)))"
      using ok(1) assms(4,5) unfolding tables_ok_def inj_on_def dom_def ran_def by (auto split: if_splits)
    moreover have "-1 \<notin> ran (own(cpg \<mapsto> cpid))"
      using ok(1) assms(4,6) unfolding tables_ok_def by (simp add: ran_map_upd domIff)
    moreover have "length (fd_mem s' p) = MAX_FD \<and> (\<forall>f\<in>set (fd_mem s' p). fd_ok s' f)" if "p \<in> dom (own(cpg \<mapsto> cpid))" for p
    proof (cases "p = cpg")
      case True
      then show ?thesis
        using ok(1) o(1) unfolding tables_ok_def m(1) okf' by auto
    next
      case False
      then show ?thesis
        using ok(1) that unfolding tables_ok_def m(1) okf' by auto
    qed
    ultimately show ?thesis
      using m(3) unfolding tables_ok_def by blast
  qed
  moreover have "counted (own(cpg \<mapsto> cpid)) s' k" if k: "k < PIPE_MAX" "pipe_buf (open_pipes s' ! k) \<noteq> None" for k
  proof -
    have u: "pipe_buf (open_pipes s ! k) \<noteq> None"
      using k(2) m(2) by simp
    note c = countedD [OF ok(3) [OF k(1) u]]
    have n: "is_packed (refs_of t (open_pipes s' ! k))"
      "q \<noteq> -1 \<Longrightarrow> count_list (refs_of t (open_pipes s' ! k)) q = count_list (refs_of t (open_pipes s ! k)) q + of_bool (q = cpid) * holds s pg t k"
      if "t \<in> ends" for t q
      using a k(1) that u c(1) [OF that] unfolding added_def e by simp_all
    show ?thesis
    proof (rule countedI)
      fix t pg' pid' assume t: "t \<in> ends" and o': "(own(cpg \<mapsto> cpid)) pg' = Some pid'"
      show "count_list (refs_of t (open_pipes s' ! k)) pid' = holds s' pg' t k"
      proof (cases "pg' = cpg")
        case True
        then show ?thesis
          using n(2) [OF t assms(6)] c(3) [OF t assms(6,5)] o' m(1) by (simp add: holds_def)
      next
        case False
        then have old: "own pg' = Some pid'"
          using o' by simp
        then have "pid' \<noteq> cpid" "pid' \<noteq> -1"
          using assms(5) tables_okD(3) [OF ok(1)] by (auto simp: ran_def)
        then show ?thesis
          using n(2) [OF t] c(2) [OF t old] False m(1) by (simp add: holds_def)
      qed
    next
      fix t and q :: int assume t: "t \<in> ends" and q: "q \<noteq> -1" "q \<notin> ran (own(cpg \<mapsto> cpid))"
      have "q \<noteq> cpid" "q \<notin> ran own"
        using q(2) assms(4) by (auto simp: ran_map_upd domIff)
      then show "count_list (refs_of t (open_pipes s' ! k)) q = 0"
        using n(2) [OF t q(1)] c(3) [OF t q(1)] by simp
    qed (rule n(1))
  qed
  ultimately show "refs_ok (own(cpg \<mapsto> cpid)) s'"
    unfolding refs_ok_def by blast
  show "running (own(cpg \<mapsto> cpid)) s' pg pid"
    using assms(2) ne m(4) by (simp add: running_def fd_page_def my_pid_def)
  show "fm_sched s' = fm_sched s"
    by (rule m(4))
qed

section \<open>The end of a process\<close>

lemma close_all_ok:
  assumes "refs_ok own s" and "running own s pg pid" and "\<forall>i\<in>set is. i < MAX_FD" and "close_all s pg is = Some s'"
  shows "refs_ok own s' \<and> running own s' pg pid \<and> fm_sched s' = fm_sched s \<and>
    (\<forall>i<MAX_FD. i \<in> set is \<or> fd_kind (fd_mem s pg ! i) = TYPE_FREE \<longrightarrow> fd_kind (fd_mem s' pg ! i) = TYPE_FREE)"
  using assms
proof (induction "is" arbitrary: s)
  case (Cons i "is")
  have o: "own pg = Some pid"
    using Cons.prems(2) by (simp add: running_def)
  note d = tables_okD [OF refs_okD(1) [OF Cons.prems(1)] o]
  have i: "i < MAX_FD" "\<forall>i\<in>set is. i < MAX_FD"
    using Cons.prems(3) by simp_all
  show ?case
  proof (cases "fd_kind (fd_mem s pg ! i) = TYPE_FREE")
    case True
    then show ?thesis
      using Cons.IH [OF Cons.prems(1,2) i(2)] Cons.prems(4) i(1) d(1) by auto
  next
    case False
    then obtain r s1 where s1: "fm_close_data s pg i = Some (r, s1)" "close_all s1 pg is = Some s'"
      using Cons.prems(4) i(1) d(1) by (auto split: bind_splits)
    note c = close_data_ok [OF Cons.prems(1,2) i(1) s1(1)]
    have "fd_kind (fd_mem s1 pg ! j) = (if j = i then TYPE_FREE else fd_kind (fd_mem s pg ! j))" for j
      using c(5) i(1) d(1) by simp
    then show ?thesis
      using Cons.IH [OF c(1,2) i(2) s1(2)] c(3) by auto
  qed
qed simp

text \<open>The table of a process, through its own page directory.\<close>

definition table_of :: "sched \<Rightarrow> u32 \<Rightarrow> u32 option" where
  "table_of sch pid = do { dir \<leftarrow> process_get_dir sch pid; scuba_get_phys (kmem sch) dir 0xB0000000 }"

lemma fm_atdeath_table:
  "fm_atdeath s pid = do {
     pg \<leftarrow> table_of (fm_sched s) pid;
     if pg = 0 then Some (-1, s) else do { s \<leftarrow> close_all s pg [0..<MAX_FD]; Some (0, s) } }"
  by (simp add: fm_atdeath_def table_of_def)

lemma death_ok:
  assumes "refs_ok own s" and "running own s pg pid" and "fm_atdeath s (word_of_int pid) = Some (0, s')"
    and "table_of (fm_sched s) (word_of_int pid) = Some pg"
  shows "refs_ok (own(pg := None)) s'" and "fm_sched s' = fm_sched s"
proof -
  have o: "own pg = Some pid"
    using assms(2) by (simp add: running_def)
  have c: "close_all s pg [0..<MAX_FD] = Some s'"
    using assms(3,4) by (auto simp: fm_atdeath_table split: if_splits bind_splits)
  have all: "refs_ok own s'" "fm_sched s' = fm_sched s" "\<forall>i<MAX_FD. fd_kind (fd_mem s' pg ! i) = TYPE_FREE"
    using close_all_ok [OF assms(1,2) _ c] by simp_all
  note ok = refs_okD [OF all(1)]
  note d = tables_okD [OF ok(1) o]
  have none: "holds s' pg t k = 0" if "t \<in> ends" for t k
    using all(3) d(1) that by (auto simp: holds_def filter_empty_conv refers_def ends_def in_set_conv_nth)
  have own: "p \<in> dom own \<and> own p = Some q" if "(own(pg := None)) p = Some q" for p q
    using that by (auto split: if_splits)
  have "tables_ok (own(pg := None)) s'"
    using ok(1) unfolding tables_ok_def inj_on_def by (auto simp: ran_def)
  moreover have "counted (own(pg := None)) s' k" if k: "k < PIPE_MAX" "pipe_buf (open_pipes s' ! k) \<noteq> None" for k
  proof -
    note c = countedD [OF ok(3) [OF k]]
    show ?thesis
    proof (rule countedI)
      fix t p q assume t: "t \<in> ends" and pq: "(own(pg := None)) p = Some q"
      show "count_list (refs_of t (open_pipes s' ! k)) q = holds s' p t k"
        using c(2) [OF t] own [OF pq] by blast
    next
      fix t and q :: int assume t: "t \<in> ends" and q: "q \<noteq> -1" "q \<notin> ran (own(pg := None))"
      show "count_list (refs_of t (open_pipes s' ! k)) q = 0"
      proof (cases "q = pid")
        case True
        then show ?thesis
          using c(2) [OF t o] none [OF t] by simp
      next
        case False
        then have "q \<notin> ran own"
          using q(2) o by (auto simp: ran_def split: if_splits) (metis option.inject)
        then show ?thesis
          by (rule c(3) [OF t q(1)])
      qed
    qed (rule c(1))
  qed
  ultimately show "refs_ok (own(pg := None)) s'"
    unfolding refs_ok_def by blast
  show "fm_sched s' = fm_sched s"
    by (rule all(2))
qed

section \<open>Reading and writing\<close>

lemma io_sync_cases:
  assumes "io_sync pg i sync r = Some (x, b, s')"
  obtains s where "r = Some (x, b, s)" "s' = s \<or> (i < length (fd_mem s pg) \<and> (\<exists>n. s' = moved s pg i sync n))"
proof -
  obtain s where s: "r = Some (x, b, s)" "(case x of IoWaits k \<Rightarrow> s' = s | IoDone n \<Rightarrow> sync_offset s pg i sync n = Some s')"
    using assms by (auto simp: io_sync_def split: bind_splits io.splits)
  have "s' = moved s pg i sync n \<and> i < length (fd_mem s pg)" if "sync_offset s pg i sync n = Some s'" for n
    using that sync_offset_moved [of i s pg sync n] by (auto simp: sync_offset_def rd_eq_Some split: bind_splits)
  then show thesis
    using that [OF s(1)] s(2) by (cases x) auto
qed

lemma sync_ok:
  assumes "refs_ok own s" and "own pg = Some pid" and "i < MAX_FD" and "io_sync pg i sync (Some (x, b, s)) = Some (y, b', s')"
  shows "refs_ok own s'"
proof (rule io_sync_cases [OF assms(4)])
  fix s1 assume "Some (x, b, s) = Some (y, b', s1)" and "s' = s1 \<or> (i < length (fd_mem s1 pg) \<and> (\<exists>n. s' = moved s1 pg i sync n))"
  then show ?thesis
    using assms(1) refs_ok_moved [where own = own, OF assms(1-3)] by auto
qed

lemma pipe_take_refs: "pipe_take p b n = Some (r, b', p') \<Longrightarrow> readers p' = readers p \<and> writers p' = writers p \<and> pipe_buf p' = pipe_buf p"
  by (auto simp: pipe_take_def Let_def split: if_splits bind_splits)

lemma pipe_read_ok:
  assumes "refs_ok own s" and "k < PIPE_MAX" and "pipe_buf (open_pipes s ! k) \<noteq> None" and "pipe_read s k b n = Some (x, b', s')"
  shows "refs_ok own s'"
proof -
  have k: "k < length (open_pipes s)"
    using assms(2) refs_okD(2) [OF assms(1)] by simp
  consider sch where "s' = s\<lparr>fm_sched := sch\<rparr>" | r p where "pipe_take (open_pipes s ! k) b n = Some (r, b', p)" "s' = set_pipe s k p"
    using assms(4) k by (auto simp: pipe_read_def split: if_splits bind_splits)
  then show ?thesis
  proof cases
    case 1
    then show ?thesis
      using assms(1) by simp
  next
    case (2 r p)
    then show ?thesis
      using refs_ok_contents [OF assms(1)] pipe_take_refs assms(3) by simp
  qed
qed

lemma grow_pipe_refs: "grow_pipe al p m = Some (Some p') \<Longrightarrow> readers p' = readers p \<and> writers p' = writers p"
  by (auto simp: grow_pipe_def split: if_splits bind_splits)

lemma pipe_put_refs: "pipe_put al p b n = Some (Some p') \<Longrightarrow> readers p' = readers p \<and> writers p' = writers p \<and> pipe_buf p' \<noteq> None"
  using grow_pipe_refs [of al p "current_size p + n"] by (auto simp: pipe_put_def split: if_splits bind_splits option.splits)

lemma refs_ok_start:
  assumes "refs_ok own s" and "running own s pg pid" and "fm_fd_to_data fd = Some i"
  shows "own pg = Some pid" and "fd_page s = Some pg" and "i < MAX_FD" and "length (fd_mem s pg) = MAX_FD" and "fd_ok s (fd_mem s pg ! i)"
proof -
  show o: "own pg = Some pid" "fd_page s = Some pg"
    using assms(2) by (simp_all add: running_def)
  show "i < MAX_FD"
    by (rule to_data_less [OF assms(3)])
  then show "length (fd_mem s pg) = MAX_FD" "fd_ok s (fd_mem s pg ! i)"
    using tables_okD [OF refs_okD(1) [OF assms(1)] o(1)] by simp_all
qed

lemma fd_ok_pipe: "fd_ok s f \<Longrightarrow> fd_kind f \<in> ends \<Longrightarrow> fd_ref f = Pipe k \<Longrightarrow> k < PIPE_MAX \<and> pipe_buf (open_pipes s ! k) \<noteq> None"
  by (auto simp: fd_ok_def)

lemma pread_ok:
  assumes "refs_ok own s" and "running own s pg pid" and "fm_pread net s fd b ptr n offset = Some (x, b', s')"
  shows "refs_ok own s'"
proof (cases "fm_fd_to_data fd")
  case None
  then show ?thesis
    using assms by (simp add: fm_pread_def)
next
  case (Some i)
  note r = refs_ok_start [OF assms(1,2) Some]
  let ?f = "fd_mem s pg ! i"
  note R = assms(3) [unfolded fm_pread_def Some, simplified r(2-4) Let_def, simplified]
  have sy: "refs_ok own s'" if "io_sync pg i sync (Some (y, c, s\<lparr>fm_fs := fs\<rparr>)) = Some (x, b', s')" for sync y c fs
    by (rule sync_ok [where own = own, OF _ r(1,3) that]) (simp add: assms(1))
  have sy': "refs_ok own s'" if "io_sync pg i sync (Some (y, c, s)) = Some (x, b', s')" for sync y c
    by (rule sync_ok [where own = own, OF assms(1) r(1,3) that])
  show ?thesis
  proof (cases "fd_kind ?f")
    case TYPE_FILE
    then show ?thesis
      using R r(3,4) assms(1) by (auto simp: split: if_splits bind_splits intro: sy)
  next
    case TYPE_AFFT
    then show ?thesis
      using R r(3,4) assms(1) by (cases "fd_ref ?f") (auto split: if_splits intro: sy')
  next
    case TYPE_PPRD
    then obtain k where k: "fd_ref ?f = Pipe k" "io_sync pg i (offset < 0) (pipe_read s k b n) = Some (x, b', s')"
      using R r(3,4) by (cases "fd_ref ?f") auto
    note p = fd_ok_pipe [OF r(5) _ k(1)]
    show ?thesis
    proof (rule io_sync_cases [OF k(2)])
      fix s1 assume "pipe_read s k b n = Some (x, b', s1)" and t: "s' = s1 \<or> (i < length (fd_mem s1 pg) \<and> (\<exists>m. s' = moved s1 pg i (offset < 0) m))"
      then have "refs_ok own s1"
        using pipe_read_ok [OF assms(1)] p TYPE_PPRD by (auto simp: ends_def)
      then show ?thesis
        using t refs_ok_moved [where own = own, OF _ r(1,3)] by blast
    qed
  qed (use R r(3,4) assms(1) in auto)
qed

lemma sync_offset_ok:
  assumes "refs_ok own s" and "own pg = Some pid" and "i < MAX_FD" and "sync_offset s pg i sync n = Some s'"
  shows "refs_ok own s'"
proof -
  have "i < length (fd_mem s pg)"
    using tables_okD(1) [OF refs_okD(1) [OF assms(1)] assms(2)] assms(3) by simp
  then have "s' = moved s pg i sync n"
    using assms(4) sync_offset_moved by simp
  then show ?thesis
    using refs_ok_moved [OF assms(1-3)] by simp
qed

lemma pwrite_ok:
  assumes "refs_ok own s" and "running own s pg pid" and "fm_pwrite net al s fd b ptr n offset = Some (x, s')"
  shows "refs_ok own s'"
proof (cases "fm_fd_to_data fd")
  case None
  then show ?thesis
    using assms by (simp add: fm_pwrite_def)
next
  case (Some i)
  note r = refs_ok_start [OF assms(1,2) Some]
  let ?f = "fd_mem s pg ! i"
  note R = assms(3) [unfolded fm_pwrite_def Some, simplified r(2-4) Let_def, simplified]
  note sy = sync_offset_ok [where own = own, OF _ r(1,3)]
  show ?thesis
  proof (cases "fd_kind ?f")
    case TYPE_FILE
    then obtain fs c where "sync_offset (s\<lparr>fm_fs := fs\<rparr>) pg i (offset < 0) c = Some s'"
      using R r(3,4) by (auto split: if_splits bind_splits)
    then show ?thesis
      using sy [of "s\<lparr>fm_fs := fs\<rparr>"] assms(1) by simp
  next
    case TYPE_AFFT
    then have "s' = s \<or> (\<exists>c. sync_offset s pg i (offset < 0) c = Some s')"
      using R r(3,4) by (cases "fd_ref ?f") (auto split: if_splits bind_splits)
    then show ?thesis
      using sy [of s] assms(1) by blast
  next
    case TYPE_PPWR
    then obtain k where k: "fd_ref ?f = Pipe k"
      using R r(3,4) by (cases "fd_ref ?f") auto
    have p: "k < PIPE_MAX" "pipe_buf (open_pipes s ! k) \<noteq> None"
      using fd_ok_pipe [OF r(5) _ k] TYPE_PPWR by (auto simp: ends_def)
    have "k < length (open_pipes s)"
      using p(1) refs_okD(2) [OF assms(1)] by simp
    then consider "s' = s" | q where "pipe_put al (open_pipes s ! k) b n = Some (Some q)" "sync_offset (set_pipe s k q) pg i (offset < 0) (sint n) = Some s'"
      using R r(3,4) TYPE_PPWR k by (auto split: bind_splits option.splits)
    then show ?thesis
    proof cases
      case (2 q)
      then show ?thesis
        using sy [OF refs_ok_contents [OF assms(1)]] pipe_put_refs [OF 2(1)] p(2) by blast
    qed (simp add: assms(1))
  qed (use R r(3,4) assms(1) in auto)
qed

text \<open>Opening closes the descriptor first, so the one that is filled in names no pipe, nor does it after.\<close>

lemma fill_ok:
  assumes "refs_ok own s" and "own pg = Some pid" and "i < MAX_FD" and "fd_kind (fd_mem s pg ! i) = TYPE_FREE"
    and "fill_fd s pg i sid path flags = Some (r, s')"
  shows "refs_ok own s'"
proof -
  have i: "i < length (fd_mem s pg)"
    using tables_okD(1) [OF refs_okD(1) [OF assms(1)] assms(2)] assms(3) by simp
  have p: "refs_ok own (set_fd (s\<lparr>fm_fs := fs\<rparr>) pg i g)" if "fd_kind g \<notin> ends" for fs g
    by (rule refs_ok_plain) (use that assms(1,4) i in \<open>simp_all add: ends_def\<close>)
  show ?thesis
    using assms(4,5) i unfolding fill_fd_def Let_def
    by (auto simp: ends_def split: if_splits bind_splits intro!: p)
qed

lemma reopen_ok:
  assumes "refs_ok own s" and "running own s pg pid" and "fm_reopen s fd path flags = Some (r, s')"
  shows "refs_ok own s'"
proof -
  obtain c s1 q fs where s1: "fm_close s fd = Some (c, s1)" "find_or_create (fm_fs s1) path flags = Some (q, fs)"
    using assms(3) by (auto simp: fm_reopen_def split: bind_splits)
  let ?s = "s1\<lparr>fm_fs := fs\<rparr>"
  have f: "fd_page ?s = fd_page s1" "my_pid ?s = my_pid s1"
    by (simp_all add: fd_page_def my_pid_def)
  have k: "refs_ok own ?s" "running own ?s pg pid" "fd_page ?s = Some pg" "own pg = Some pid"
    using close_ok [OF assms(1,2) s1(1)] by (simp_all add: running_def f)
  note R = assms(3) [unfolded fm_reopen_def s1(1) Let_def, simplified, unfolded s1(2), simplified]
  consider "s' = ?s" | i where "fd < 0" "fm_get_free_fd ?s pg = Some i" "fill_fd ?s pg i (projr q) path flags = Some (r, s')"
    | i where "fm_fd_to_data fd = Some i" "fill_fd ?s pg i (projr q) path flags = Some (r, s')"
    using R k(3) by (cases q) (auto split: if_splits option.splits bind_splits)
  then show ?thesis
  proof cases
    case (2 i)
    then show ?thesis
      using fill_ok [OF k(1,4)] free_fd by blast
  next
    case (3 i)
    have i: "i < MAX_FD"
      by (rule to_data_less [OF 3(1)])
    have "fm_close_data s pg i = Some (c, s1)"
      using s1(1) 3(1) assms(2) by (simp add: fm_close_def running_def)
    from close_data_ok(5) [OF assms(1,2) i this] have "fd_kind (fd_mem ?s pg ! i) = TYPE_FREE"
      using refs_ok_start(4) [OF assms(1,2) 3(1)] i by simp
    then show ?thesis
      by (rule fill_ok [OF k(1,4) i _ 3(2)])
  qed (use k(1) in simp)
qed

lemma lseek_ok:
  assumes "refs_ok own s" and "running own s pg pid" and "fm_lseek s fd off whence = Some (r, s')"
  shows "refs_ok own s'"
proof (cases "fm_fd_to_data fd")
  case None
  then show ?thesis
    using assms by (simp add: fm_lseek_def)
next
  case (Some i)
  note r = refs_ok_start [OF assms(1,2) Some]
  have p: "refs_ok own (set_fd s pg i ((fd_mem s pg ! i)\<lparr>fd_offset := x\<rparr>))" for x
    by (rule refs_ok_set_fd [OF assms(1)]) (use r in \<open>auto simp: fd_ok_def refers_def\<close>)
  show ?thesis
    using assms(1,3) Some r(2,3,4) p unfolding fm_lseek_def Let_def
    by (auto split: if_splits bind_splits option.splits)
qed

lemma dup_ok:
  assumes "refs_ok own s" and "running own s pg pid" and "fm_dup s fd = Some (r, s')"
    and "\<And>i. fm_fd_to_data fd = Some i \<Longrightarrow> room s (fd_mem s pg ! i)"
  shows "refs_ok own s'"
  using assms(1,2,3) dup2_ok [OF assms(1,2) _ assms(4)]
  by (auto simp: fm_dup_def running_def split: bind_splits option.splits)

lemma fcntl_ok:
  assumes "refs_ok own s" and "running own s pg pid" and "fm_fcntl s fd c arg = Some (r, s')"
    and "\<And>i. fm_fd_to_data fd = Some i \<Longrightarrow> room s (fd_mem s pg ! i)"
  shows "refs_ok own s'"
proof (cases "fm_fd_to_data fd")
  case None
  then show ?thesis
    using assms by (simp add: fm_fcntl_def)
next
  case (Some i)
  note r = refs_ok_start [OF assms(1,2) Some]
  have p: "refs_ok own (set_fd s pg i ((fd_mem s pg ! i)\<lparr>fd_flags := x\<rparr>))" for x
    by (rule refs_ok_set_fd [OF assms(1)]) (use r in \<open>auto simp: fd_ok_def refers_def\<close>)
  have d: "refs_ok own s1" if "fm_dup2 s fd j = Some (q, s1)" for j q s1
    using dup2_ok [OF assms(1,2) that assms(4)] by blast
  show ?thesis
    using assms(1,3) Some r(2,3,4) p d unfolding fm_fcntl_def
    by (auto split: if_splits bind_splits option.splits)
qed

lemma get_fd_rw_ok:
  assumes "refs_ok own s" and "running own s pg pid" and "fm_get_fd_rw net s fd = Some (r, s')"
  shows "refs_ok own s'"
proof (cases "fm_fd_to_data fd")
  case None
  then show ?thesis
    using assms by (simp add: fm_get_fd_rw_def)
next
  case (Some i)
  note r = refs_ok_start [OF assms(1,2) Some]
  then show ?thesis
    using assms(1,3) Some unfolding fm_get_fd_rw_def
    by (cases "fd_kind (fd_mem s pg ! i)"; cases "fd_ref (fd_mem s pg ! i)") (auto simp: Let_def)
qed

text \<open>A reader that woke up finds nobody dead on the list, as the living are those that are counted.\<close>

definition alive :: "sched \<Rightarrow> int \<Rightarrow> bool" where
  "alive sch q \<longleftrightarrow> (\<exists>st x. process_info 0 sch (word_of_int q) PROC_INFO_STATE 0 [] = Some (Number st, x) \<and> st > 1)"

lemma dead_writer_none:
  assumes "\<forall>i\<in>set is. i < length ws" and "\<forall>w\<in>set ws. w = -1 \<or> alive sch w"
  shows "dead_writer sch ws is = Some ws"
  using assms(1)
proof (induction "is")
  case (Cons i "is")
  then show ?case
    using assms(2) nth_mem [of i ws] by (fastforce simp: alive_def)
qed simp

lemma counted_members:
  assumes "counted own s k" and "t \<in> ends" and "q \<in> set (refs_of t (open_pipes s ! k))"
  shows "q = -1 \<or> q \<in> ran own"
  using countedD(3) [OF assms(1,2), of q] assms(3) by (auto simp: count_list_0_iff)

lemma resume_ok:
  assumes "refs_ok own s" and "running own s pg pid" and "i < MAX_FD" and "refers TYPE_PPRD k (fd_mem s pg ! i)"
    and "\<forall>q\<in>ran own. alive (fm_sched s) q" and "fm_pread_resume s i k b n sync = Some (x, b', s')"
  shows "refs_ok own s'"
proof -
  have o: "own pg = Some pid" "fd_page s = Some pg"
    using assms(2) by (simp_all add: running_def)
  note ok = refs_okD [OF assms(1)]
  have "fd_ok s (fd_mem s pg ! i)"
    by (rule tables_okD(2) [OF ok(1) o(1) assms(3)])
  then have k: "k < PIPE_MAX" "pipe_buf (open_pipes s ! k) \<noteq> None"
    using fd_ok_pipe assms(4) by (auto simp: refers_def ends_def)
  let ?p = "open_pipes s ! k"
  have kl: "k < length (open_pipes s)"
    using k(1) ok(2) by simp
  note c = ok(3) [OF k]
  have "length (writers ?p) = PIPE_MAX_REF"
    using countedD(1) [OF c, of TYPE_PPWR] packed_length by (auto simp: ends_def refs_of_def is_packed_def)
  moreover have "\<forall>w\<in>set (writers ?p). w = -1 \<or> alive (fm_sched s) w"
    using counted_members [OF c, of TYPE_PPWR] assms(5) by (auto simp: ends_def refs_of_def)
  ultimately have "dead_writer (fm_sched s) (writers ?p) [0..<PIPE_MAX_REF] = Some (writers ?p)"
    by (intro dead_writer_none) simp_all
  moreover have "set_pipe s k (?p\<lparr>writers := writers ?p\<rparr>) = s"
    by (simp add: set_pipe_def)
  ultimately have "io_sync pg i sync (pipe_read s k b n) = Some (x, b', s')"
    using assms(6) o(2) kl by (simp add: fm_pread_resume_def)
  then show ?thesis
  proof (rule io_sync_cases)
    fix s1 assume "pipe_read s k b n = Some (x, b', s1)" and t: "s' = s1 \<or> (i < length (fd_mem s1 pg) \<and> (\<exists>m. s' = moved s1 pg i sync m))"
    then have "refs_ok own s1"
      using pipe_read_ok [OF assms(1) k] by blast
    then show ?thesis
      using t refs_ok_moved [where own = own, OF _ o(1) assms(3)] by blast
  qed
qed

section \<open>Steps\<close>

text \<open>
  The processes with a table and the state of the module, and the calls that change it.  A copy of a
  descriptor needs a free place in the list of its end, and a pipe and a child are made without an
  error: the code loses count in the other cases.  The page of a child is a copy of its parent's, as
  \<open>fork\<close> makes it; a process that dies gives its own descriptors back.
\<close>

type_synonym owners = "u32 \<Rightarrow> int option"

inductive fm_step :: "owners \<times> fm \<Rightarrow> owners \<times> fm \<Rightarrow> bool" where
  switch: "fm_step (own, s) (own, s\<lparr>fm_sched := sch\<rparr>)"
| closing: "running own s pg pid \<Longrightarrow> fm_close s fd = Some (r, s') \<Longrightarrow> fm_step (own, s) (own, s')"
| opens: "running own s pg pid \<Longrightarrow> fm_reopen s fd path flags = Some (r, s') \<Longrightarrow> fm_step (own, s) (own, s')"
| seeking: "running own s pg pid \<Longrightarrow> fm_lseek s fd off whence = Some (r, s') \<Longrightarrow> fm_step (own, s) (own, s')"
| dup: "running own s pg pid \<Longrightarrow> (\<And>i. fm_fd_to_data fd = Some i \<Longrightarrow> room s (fd_mem s pg ! i)) \<Longrightarrow>
    fm_dup s fd = Some (r, s') \<Longrightarrow> fm_step (own, s) (own, s')"
| control: "running own s pg pid \<Longrightarrow> (\<And>i. fm_fd_to_data fd = Some i \<Longrightarrow> room s (fd_mem s pg ! i)) \<Longrightarrow>
    fm_fcntl s fd c arg = Some (r, s') \<Longrightarrow> fm_step (own, s) (own, s')"
| ready: "running own s pg pid \<Longrightarrow> fm_get_fd_rw net s fd = Some (r, s') \<Longrightarrow> fm_step (own, s) (own, s')"
| copying: "running own s pg pid \<Longrightarrow> (\<And>i. fm_fd_to_data fd = Some i \<Longrightarrow> room s (fd_mem s pg ! i)) \<Longrightarrow>
    fm_dup2 s fd new_fd = Some (r, s') \<Longrightarrow> fm_step (own, s) (own, s')"
| piping: "running own s pg pid \<Longrightarrow> fm_pipe al s = Some (0, x, y, s') \<Longrightarrow> fm_step (own, s) (own, s')"
| take_out: "running own s pg pid \<Longrightarrow> fm_pread net s fd b ptr n off = Some (v, b', s') \<Longrightarrow> fm_step (own, s) (own, s')"
| resume: "running own s pg pid \<Longrightarrow> i < MAX_FD \<Longrightarrow> refers TYPE_PPRD k (fd_mem s pg ! i) \<Longrightarrow> \<forall>q\<in>ran own. alive (fm_sched s) q \<Longrightarrow>
    fm_pread_resume s i k b n sync = Some (v, b', s') \<Longrightarrow> fm_step (own, s) (own, s')"
| put_in: "running own s pg pid \<Longrightarrow> fm_pwrite net al s fd b ptr n off = Some (r, s') \<Longrightarrow> fm_step (own, s) (own, s')"
| child: "running own s pg pid \<Longrightarrow> cpg \<notin> dom own \<Longrightarrow> cpid \<notin> ran own \<Longrightarrow> cpid \<noteq> -1 \<Longrightarrow>
    fm_declare_child (s\<lparr>fd_mem := (fd_mem s)(cpg := fd_mem s pg)\<rparr>) cpid = Some (0, s') \<Longrightarrow> fm_step (own, s) (own(cpg \<mapsto> cpid), s')"
| death: "running own s pg pid \<Longrightarrow> table_of (fm_sched s) (word_of_int pid) = Some pg \<Longrightarrow>
    fm_atdeath s (word_of_int pid) = Some (0, s') \<Longrightarrow> fm_step (own, s) (own(pg := None), s')"

lemma step_keeps: "fm_step x y \<Longrightarrow> refs_ok (fst x) (snd x) \<Longrightarrow> refs_ok (fst y) (snd y)"
proof (induction rule: fm_step.induct)
  case (closing own s pg pid fd r s')
  then show ?case
    using close_ok [of own s pg pid fd r s'] by simp
next
  case (opens own s pg pid fd path flags r s')
  then show ?case
    using reopen_ok [of own s pg pid fd path flags r s'] by simp
next
  case (seeking own s pg pid fd off whence r s')
  then show ?case
    using lseek_ok [of own s pg pid fd off whence r s'] by simp
next
  case (dup own s pg pid fd r s')
  then show ?case
    using dup_ok [of own s pg pid fd r s'] by simp
next
  case (control own s pg pid fd c arg r s')
  then show ?case
    using fcntl_ok [of own s pg pid fd c arg r s'] by simp
next
  case (ready own s pg pid net fd r s')
  then show ?case
    using get_fd_rw_ok [of own s pg pid net fd r s'] by simp
next
  case (copying own s pg pid fd new_fd r s')
  then show ?case
    using dup2_ok [of own s pg pid fd new_fd r s'] by simp
next
  case (piping own s pg pid al x y s')
  then show ?case
    using pipe_new_ok [of own s pg pid al x y s'] by simp
next
  case (take_out own s pg pid net fd b ptr n off v b' s')
  then show ?case
    using pread_ok [of own s pg pid net fd b ptr n off v b' s'] by simp
next
  case (resume own s pg pid i k b n sync v b' s')
  then show ?case
    using resume_ok [of own s pg pid i k b n sync v b' s'] by simp
next
  case (put_in own s pg pid net al fd b ptr n off r s')
  then show ?case
    using pwrite_ok [of own s pg pid net al fd b ptr n off r s'] by simp
next
  case (child own s pg pid cpg cpid s')
  have "refs_ok (own(cpg \<mapsto> cpid)) s'"
    by (rule child_ok(1) [OF _ child(1,5,2-4)]) (use child(6) in simp)
  then show ?case
    by (simp only: fst_conv snd_conv)
next
  case (death own s pg pid s')
  have "refs_ok (own(pg := None)) s'"
    by (rule death_ok(1) [OF _ death(1,3,2)]) (use death(4) in simp)
  then show ?case
    by (simp only: fst_conv snd_conv)
qed simp

lemma steps_keep: "fm_step\<^sup>*\<^sup>* x y \<Longrightarrow> refs_ok (fst x) (snd x) \<Longrightarrow> refs_ok (fst y) (snd y)"
  by (induction rule: rtranclp_induct) (auto intro: step_keeps)

end
