(* ===== verification/FmopenFiles.thy ===== *)
theory FmopenFiles
  imports FmopenPipes
begin

text \<open>
  Descriptors of files: reading, writing, moving and opening, over the abstract store of containers.
\<close>

section \<open>Reading and writing\<close>

lemma store_off:
  assumes "stores fs F" and "F sid = Some (meta, xs)"
  shows "length xs < 2 ^ 31" and "unat (word_of_nat (length xs) :: u32) = length xs"
  using store_get_size(2) [OF assms] by (simp_all add: cnt_max_def unat_word_of_nat)

definition file_at :: "fm \<Rightarrow> store \<Rightarrow> int \<Rightarrow> u32 \<Rightarrow> nat \<Rightarrow> fd_data \<Rightarrow> byte list \<Rightarrow> byte list \<Rightarrow> bool" where
  "file_at s F fd pg i f meta xs \<longleftrightarrow> stores (fm_fs s) F \<and> F (fd_sid f) = Some (meta, xs) \<and> fd_at s fd pg i f \<and> fd_kind f = TYPE_FILE"

lemma file_atD:
  assumes "file_at s F fd pg i f meta xs"
  shows "stores (fm_fs s) F" and "F (fd_sid f) = Some (meta, xs)" and "fm_fd_to_data fd = Some i" and "fd_page s = Some pg"
    and "i < length (fd_mem s pg)" and "fd_mem s pg ! i = f" and "fd_kind f = TYPE_FILE"
  using assms by (simp_all add: file_at_def fd_at_def)

lemma sub_clip: "unat off \<le> l \<Longrightarrow> l < 2 ^ 32 \<Longrightarrow> unat (word_of_nat l - off) = l - unat off" for off :: u32
  by (simp add: unat_sub_if' unat_word_of_nat take_bit_nat_eq_self)

lemma file_read:
  assumes "file_at s F fd pg i f meta xs" and "unat (fd_offset f) + unat n < 2 ^ 32" and "unat n \<le> length b" and "offset < 0"
  shows "fm_pread net s fd b ptr n offset =
    (if length xs < unat (fd_offset f) then Some (IoDone (- EINVAL), b, s)
     else let m = min (unat n) (length xs - unat (fd_offset f)) in
       Some (IoDone (int m), mwrite b 0 (mread xs (unat (fd_offset f)) m), moved s pg i True (int m)))"
proof -
  note a = file_atD [OF assms(1)]
  note l = store_off [OF a(1,2)]
  let ?o = "fd_offset f"
  have sz: "fs_cnt_get_size (fm_fs s) (fd_sid f) = Some (word_of_nat (length xs))"
    by (rule store_get_size(1) [OF a(1,2)])
  have gt: "?o > word_of_nat (length xs) \<longleftrightarrow> length xs < unat ?o"
    using l by (simp add: word_less_nat_alt)
  show ?thesis
  proof (cases "length xs < unat ?o")
    case True
    then show ?thesis
      using a sz gt assms(4) by (simp add: fm_pread_def Let_def)
  next
    case False
    let ?m = "min (unat n) (length xs - unat ?o)"
    let ?n = "if ?o + n > word_of_nat (length xs) then word_of_nat (length xs) - ?o else n"
    have sum: "unat (?o + n) = unat ?o + unat n"
      using assms(2) by (simp add: unat_word_ariths)
    have big: "?o + n > word_of_nat (length xs) \<longleftrightarrow> length xs < unat ?o + unat n"
      using l sum by (simp add: word_less_nat_alt)
    have m: "unat ?n = ?m"
      using False big sub_clip [of ?o "length xs"] l by auto
    then have sm: "sint ?n = int ?m"
      using sint_small [of ?n] l(1) by simp
    have "unat ?o + unat ?n \<le> length xs" "unat ?n \<le> length b"
      using False assms(3) unfolding m by auto
    from store_read [OF a(1,2) this]
    have r: "fs_cnt_read (fm_fs s) (fd_sid f) b ?o ?n = Some (0, mwrite b 0 (mread xs (unat ?o) ?m), fm_fs s)"
      unfolding m .
    have "fm_pread net s fd b ptr n offset = io_sync pg i True (Some (IoDone (int ?m), mwrite b 0 (mread xs (unat ?o) ?m), s\<lparr>fm_fs := fm_fs s\<rparr>))"
      using a sz gt False assms(4) r sm by (simp add: fm_pread_def Let_def split del: if_split cong: if_cong)
    also have "\<dots> = Some (IoDone (int ?m), mwrite b 0 (mread xs (unat ?o) ?m), moved s pg i True (int ?m))"
      using a(5) by (simp add: io_sync_def sync_offset_moved)
    finally show ?thesis
      using False by (simp add: Let_def)
  qed
qed

text \<open>What a write of \<open>bs\<close> at \<open>off\<close> makes of a file; a gap has any contents.\<close>

definition overwritten :: "byte list \<Rightarrow> nat \<Rightarrow> byte list \<Rightarrow> byte list \<Rightarrow> bool" where
  "overwritten xs off bs ys \<longleftrightarrow> length ys = max (length xs) (off + length bs) \<and> take (min off (length xs)) ys = take (min off (length xs)) xs \<and>
     mread ys off (length bs) = bs \<and> drop (off + length bs) ys = drop (off + length bs) xs"

lemma overwritten_mwrite:
  assumes "length zs = max (length xs) (off + length bs)" and "take (length xs) zs = xs"
  shows "overwritten xs off bs (mwrite zs off bs)"
proof -
  have n: "zs ! j = xs ! j" if "j < length xs" for j
    using assms(2) that by (metis nth_take)
  have "take (min off (length xs)) (mwrite zs off bs) = take (min off (length xs)) xs"
    using assms(1) n by (intro nth_equalityI) (auto simp: nth_mwrite)
  moreover have "drop (off + length bs) (mwrite zs off bs) = drop (off + length bs) xs"
    using assms(1) n by (intro nth_equalityI) (auto simp: nth_mwrite)
  moreover have "mread (mwrite zs off bs) off (length bs) = bs"
    using assms(1) by (intro nth_equalityI) (auto simp: nth_mwrite)
  ultimately show ?thesis
    using assms(1) by (simp add: overwritten_def)
qed

lemma file_write:
  assumes "file_at s F fd pg i f meta xs" and "unat (fd_offset f) + unat n \<le> cnt_max" and "unat n \<le> length b" and "offset < 0"
    and "fs_room (fm_fs s) (sid_dev (fd_sid f)) (2 * new_cores (unat (fd_offset f) + unat n) + k)"
  obtains fs' ys where "fm_pwrite net al s fd b ptr n offset = Some (int (unat n), moved (s\<lparr>fm_fs := fs'\<rparr>) pg i True (int (unat n)))"
    "stores fs' (F(fd_sid f \<mapsto> (meta, ys)))" "overwritten xs (unat (fd_offset f)) (take (unat n) b) ys"
    "fs_room fs' (sid_dev (fd_sid f)) k"
proof -
  note a = file_atD [OF assms(1)]
  note l = store_off [OF a(1,2)]
  let ?o = "fd_offset f" and ?bs = "take (unat n) b"
  have sum: "unat (?o + n) = unat ?o + unat n"
    using assms(2) by (simp add: cnt_max_def unat_word_ariths)
  have sn: "sint n = int (unat n)"
    using sint_small [of n] assms(2) by (simp add: cnt_max_def)
  have lb: "length ?bs = unat n"
    using assms(3) by simp
  have sz: "fs_cnt_get_size (fm_fs s) (fd_sid f) = Some (word_of_nat (length xs))"
    by (rule store_get_size(1) [OF a(1,2)])
  have big: "?o + n > word_of_nat (length xs) \<longleftrightarrow> length xs < unat ?o + unat n"
    using l sum by (simp add: word_less_nat_alt)
  have mono: "fs_room (fm_fs s) (sid_dev (fd_sid f)) k"
    by (rule fs_room_mono [OF assms(5)]) simp
  obtain fs1 zs where z: "(if ?o + n > word_of_nat (length xs) then fs_cnt_set_size (fm_fs s) (fd_sid f) (?o + n) else Some (0, fm_fs s)) = Some (0, fs1)"
    "stores fs1 (F(fd_sid f \<mapsto> (meta, zs)))" "length zs = max (length xs) (unat ?o + unat n)" "take (length xs) zs = xs"
    "fs_room fs1 (sid_dev (fd_sid f)) k"
  proof (cases "length xs < unat ?o + unat n")
    case True
    have "fs_room (fm_fs s) (sid_dev (fd_sid f)) (2 * new_cores (unat (?o + n)) + k)" "unat (?o + n) \<le> cnt_max"
      using assms(2,5) sum by simp_all
    from store_set_size [OF a(1,2) this(2,1)] show thesis
      using that True big sum by (auto simp: max_def min_def)
  next
    case False
    have "F(fd_sid f \<mapsto> (meta, xs)) = F"
      using a(2) by auto
    then show thesis
      using that [of "fm_fs s" xs] False big a(1) mono by (simp add: max_def)
  qed
  have cell: "(F(fd_sid f \<mapsto> (meta, zs))) (fd_sid f) = Some (meta, zs)"
    by simp
  have fit: "unat ?o + unat n \<le> length zs"
    using z(3) by simp
  obtain fs2 where w: "fs_cnt_write fs1 (fd_sid f) b ?o n = Some (0, b, fs2)" "stores fs2 (F(fd_sid f \<mapsto> (meta, mwrite zs (unat ?o) ?bs)))"
    "fs_room fs2 (sid_dev (fd_sid f)) k"
    using store_write [OF z(2) cell fit assms(3)] z(5) unfolding fun_upd_upd by blast
  have "fm_pwrite net al s fd b ptr n offset = Some (int (unat n), moved (s\<lparr>fm_fs := fs2\<rparr>) pg i True (int (unat n)))"
    using a sz z(1) w(1) sn assms(4) by (simp add: fm_pwrite_def Let_def sync_offset_moved split del: if_split cong: if_cong)
  moreover have "overwritten xs (unat ?o) ?bs (mwrite zs (unat ?o) ?bs)"
    by (rule overwritten_mwrite) (use z(3,4) lb in simp_all)
  ultimately show thesis
    using that w(2,3) by blast
qed

section \<open>Moving\<close>

lemma lseek_set:
  assumes "fd_at s fd pg i f" and "fd_kind f = TYPE_FILE"
  shows "fm_lseek s fd x 0 = Some (if x < 0 then (- EINVAL, s) else (x, set_fd s pg i (f\<lparr>fd_offset := word_of_int x\<rparr>)))"
  using assms by (simp add: fm_lseek_def fd_at_def)

lemma lseek_end:
  assumes "file_at s F fd pg i f meta xs" and "- (2 ^ 31) \<le> int (length xs) + x" and "int (length xs) + x < 2 ^ 31"
  shows "fm_lseek s fd x 2 =
    (let e = int (length xs) + x in Some (if e < 0 then (- EINVAL, s) else (e, set_fd s pg i (f\<lparr>fd_offset := word_of_int e\<rparr>))))"
proof -
  note a = file_atD [OF assms(1)]
  have e: "(word_of_nat (length xs) :: u32) + word_of_int x = word_of_int (int (length xs) + x)"
    by simp
  have "sint (word_of_int (int (length xs) + x) :: u32) = int (length xs) + x"
    using assms(2,3) by (simp add: signed_of_int signed_take_bit_int_eq_self del: of_int_add)
  then show ?thesis
    using a store_get_size(1) [OF a(1,2)] by (simp add: fm_lseek_def Let_def e del: of_int_add of_int_of_nat_eq)
qed

text \<open>Writing, going back and reading again.\<close>

lemma file_at_set_fd:
  assumes "stores (fm_fs s) F" and "F (fd_sid f) = Some (meta, xs)" and "fd_kind f = TYPE_FILE" and "fm_fd_to_data fd = Some i"
    and "fd_page s = Some pg" and "i < length (fd_mem s pg)"
  shows "file_at (set_fd s pg i f) F fd pg i f meta xs"
  using assms by (simp add: file_at_def fd_at_def)

lemma fs_frame [simp]: "fd_page (s\<lparr>fm_fs := fs\<rparr>) = fd_page s" "set_fd s pg i f\<lparr>fm_fs := fs\<rparr> = set_fd (s\<lparr>fm_fs := fs\<rparr>) pg i f"
  by (simp_all add: fd_page_def set_fd_def)

lemma set_fd_twice: "set_fd (set_fd s pg i f) pg i g = set_fd s pg i g"
  by (simp add: set_fd_def)

lemma write_seek_read:
  assumes "file_at s F fd pg i f meta xs" and "unat (fd_offset f) + unat n \<le> cnt_max" and "unat n \<le> length b" and "length b' = unat n"
    and "fs_room (fm_fs s) (sid_dev (fd_sid f)) (2 * new_cores (unat (fd_offset f) + unat n))"
  shows "\<exists>s1 s2 s3. fm_pwrite net al s fd b ptr n (-1) = Some (int (unat n), s1) \<and>
    fm_lseek s1 fd (int (unat (fd_offset f))) 0 = Some (int (unat (fd_offset f)), s2) \<and>
    fm_pread net s2 fd b' ptr n (-1) = Some (IoDone (int (unat n)), take (unat n) b, s3)"
proof -
  note a = file_atD [OF assms(1)]
  let ?o = "fd_offset f"
  have room: "fs_room (fm_fs s) (sid_dev (fd_sid f)) (2 * new_cores (unat ?o + unat n) + 0)"
    using assms(5) by simp
  obtain fs' ys where w: "fm_pwrite net al s fd b ptr n (-1) = Some (int (unat n), moved (s\<lparr>fm_fs := fs'\<rparr>) pg i True (int (unat n)))"
    "stores fs' (F(fd_sid f \<mapsto> (meta, ys)))" "overwritten xs (unat ?o) (take (unat n) b) ys"
    by (rule file_write [OF assms(1-3) _ room, of "-1" net al ptr]) simp
  let ?s = "s\<lparr>fm_fs := fs'\<rparr>" and ?F = "F(fd_sid f \<mapsto> (meta, ys))"
  let ?f = "f\<lparr>fd_offset := ?o + word_of_int (int (unat n))\<rparr>"
  have m: "moved ?s pg i True (int (unat n)) = set_fd ?s pg i ?f"
    using a(6) by (simp add: moved_def)
  have at: "file_at (set_fd ?s pg i g) ?F fd pg i g meta ys" if "fd_sid g = fd_sid f" "fd_kind g = fd_kind f" for g
    by (rule file_at_set_fd) (use w(2) a that in simp_all)
  have "fd_at (set_fd ?s pg i ?f) fd pg i ?f"
    using at [of ?f] by (simp add: file_at_def)
  from lseek_set [OF this, of "int (unat ?o)"]
  have l: "fm_lseek (set_fd ?s pg i ?f) fd (int (unat ?o)) 0 = Some (int (unat ?o), set_fd ?s pg i f)"
    using a(7) by (simp add: set_fd_twice)
  have len: "length ys \<ge> unat ?o + unat n" "mread ys (unat ?o) (unat n) = take (unat n) b"
    using w(3) assms(3) by (auto simp: overwritten_def)
  have "unat ?o + unat n < 2 ^ 32"
    using assms(2) by (simp add: cnt_max_def)
  from file_read [OF at [OF refl refl] this, of b' "-1" net ptr]
  have "fm_pread net (set_fd ?s pg i f) fd b' ptr n (-1) =
      Some (IoDone (int (unat n)), take (unat n) b, moved (set_fd ?s pg i f) pg i True (int (unat n)))"
    using len assms(3,4) by (simp add: Let_def min_absorb1 le_diff_conv2 mwrite_all)
  then show ?thesis
    using w(1) l unfolding m by blast
qed

section \<open>Opening\<close>

text \<open>The error that a call to open has, by what the path names: nothing, or a container that is a directory or not.\<close>

definition open_error :: "bool option \<Rightarrow> u32 \<Rightarrow> int option" where
  "open_error found flags = (case found of
     None \<Rightarrow> if has flags O_CREAT \<and> \<not> has flags O_DIRECTORY then None else Some ENOENT
   | Some dir \<Rightarrow>
       if has flags O_EXCL then Some EEXIST
       else if dir \<and> (flags AND O_ACCMODE \<noteq> O_RDONLY \<or> has flags O_NODIR \<or> has flags O_TRUNC \<or> has flags O_APPEND \<or> has flags O_CREAT) then Some EISDIR
       else if \<not> dir \<and> has flags O_DIRECTORY then Some ENOTDIR
       else None)"

definition found_at :: "store \<Rightarrow> u32 \<Rightarrow> bool option" where
  "found_at F sid = (if sid = 0 then None else map_option (\<lambda>c. fst c ! 0 = chr_D) (F sid))"

lemma find_or_create_error:
  assumes "tree_of F G" and "stores fs F" and "G SID_ROOT \<noteq> None" and "\<forall>c\<in>set cs. name_ok c" and "locate G cs = 0 \<or> F (locate G cs) \<noteq> None"
    and "open_error (found_at F (locate G cs)) flags = Some e"
  shows "\<exists>fs'. find_or_create fs (abs_path cs) flags = Some (Inl (- e), fs') \<and> stores fs' F"
proof -
  let ?sid = "locate G cs"
  obtain fs1 where p: "kfu_path_to_sid fs SID_ROOT (abs_path cs) = Some (?sid, fs1)" "stores fs1 F"
    using path_to_sid_locate [OF assms(1-4)] by blast
  show ?thesis
  proof (cases "?sid = 0")
    case True
    then show ?thesis
      using p assms(6) by (auto simp: find_or_create_def open_error_def found_at_def SID_NULL_def split: if_splits)
  next
    case False
    then obtain meta xs where c: "F ?sid = Some (meta, xs)"
      using assms(5) by auto
    obtain fs2 where d: "kfu_is_dir fs1 ?sid = Some (meta ! 0 = chr_D, fs2)" "stores fs2 F"
      using is_dir_store [OF p(2) c False] by blast
    have "find_or_create fs (abs_path cs) flags = Some (Inl (- e), if has flags O_EXCL then fs1 else fs2)"
      using p(1) d(1) c False assms(6)
      by (cases "meta ! 0 = chr_D") (auto simp: find_or_create_def open_error_def found_at_def SID_NULL_def split: if_splits)
    then show ?thesis
      using p(2) d(2) by auto
  qed
qed

lemma find_file:
  assumes "tree_of F G" and "stores fs F" and "G SID_ROOT \<noteq> None" and "\<forall>c\<in>set cs. name_ok c" and "locate G cs \<noteq> 0"
    and "F (locate G cs) = Some (meta, xs)" and "open_error (found_at F (locate G cs)) flags = None"
  shows "\<exists>fs'. find_or_create fs (abs_path cs) flags = Some (Inr (locate G cs), fs') \<and> stores fs' F \<and> (\<forall>dev k. fs_room fs dev k \<longrightarrow> fs_room fs' dev k)"
proof -
  let ?sid = "locate G cs"
  obtain fs1 where p: "kfu_path_to_sid fs SID_ROOT (abs_path cs) = Some (?sid, fs1)" "stores fs1 F"
    "\<forall>dev k. fs_room fs dev k \<longrightarrow> fs_room fs1 dev k"
    using path_to_sid_locate [OF assms(1-4)] by blast
  obtain fs2 where d: "kfu_is_dir fs1 ?sid = Some (meta ! 0 = chr_D, fs2)" "stores fs2 F" "\<forall>dev k. fs_room fs1 dev k \<longrightarrow> fs_room fs2 dev k"
    using is_dir_store [OF p(2) assms(6,5)] by blast
  have "find_or_create fs (abs_path cs) flags = Some (Inr ?sid, fs2)"
    using p(1) d(1) assms(5,6,7)
    by (cases "meta ! 0 = chr_D") (auto simp: find_or_create_def open_error_def found_at_def SID_NULL_def split: if_splits)
  then show ?thesis
    using p d by blast
qed

lemma is_file_store:
  assumes "stores fs F" and "F sid = Some (meta, xs)" and "sid \<noteq> 0"
  shows "\<exists>fs'. kfu_is_file fs sid = Some (meta ! 0 = chr_F, fs') \<and> stores fs' F \<and> (\<forall>dev k. fs_room fs dev k \<longrightarrow> fs_room fs' dev k)"
  using store_meta [OF assms(1,2)] assms(3) by (auto simp: kfu_is_file_def SID_NULL_def)

lemma fill_file:
  assumes "stores (fm_fs s) F" and "F sid = Some (meta, xs)" and "sid \<noteq> 0" and "meta ! 0 = chr_F" and "i < length (fd_mem s pg)"
    and "fs_room (fm_fs s) (sid_dev sid) (2 * new_cores 0)"
  obtains fs' ys f where "fill_fd s pg i sid path flags = Some (int i, set_fd (s\<lparr>fm_fs := fs'\<rparr>) pg i f)" "stores fs' (F(sid \<mapsto> (meta, ys)))"
    "ys = (if has flags O_TRUNC then [] else xs)" "fd_kind f = TYPE_FILE" "fd_sid f = sid" "fd_flags f = flags"
    "unat (fd_offset f) = (if has flags O_APPEND then length ys else 0)"
proof -
  let ?ys = "if has flags O_TRUNC then [] else xs"
  obtain fs1 where f1: "kfu_is_file (fm_fs s) sid = Some (True, fs1)" "stores fs1 F" "fs_room fs1 (sid_dev sid) (2 * new_cores 0)"
    using is_file_store [OF assms(1-3)] assms(4,6) by auto
  obtain fs2 where f2: "(if has flags O_TRUNC then fs_cnt_set_size fs1 sid 0 else Some (0, fs1)) = Some (0, fs2)" "stores fs2 (F(sid \<mapsto> (meta, ?ys)))"
  proof (cases "has flags O_TRUNC")
    case True
    have "fs_room fs1 (sid_dev sid) (2 * new_cores (unat (0 :: u32)) + 0)"
      using f1(3) by simp
    from store_set_size [OF f1(2) assms(2) _ this] show thesis
      using that True by auto
  next
    case False
    then show thesis
      using that [of fs1] f1(2) fun_upd_triv [of F sid] assms(2) by simp
  qed
  have c: "(F(sid \<mapsto> (meta, ?ys))) sid = Some (meta, ?ys)"
    by simp
  let ?off = "if has flags O_APPEND then word_of_nat (length ?ys) else 0 :: u32"
  let ?f = "(fd_mem s pg ! i)\<lparr>fd_flags := flags, fd_sid := sid, fd_kind := TYPE_FILE, fd_offset := ?off\<rparr>"
  have o: "(if has flags O_APPEND then fs_cnt_get_size fs2 sid else Some 0) = Some ?off"
    using store_get_size(1) [OF f2(2) c] by simp
  have "fill_fd s pg i sid path flags = Some (int i, set_fd (s\<lparr>fm_fs := fs2\<rparr>) pg i ?f)"
    using assms(5) f1(1) f2(1) o by (simp add: fill_fd_def Let_def split del: if_split)
  then show thesis
    by (rule that [OF _ f2(2)]) (use store_off(2) [OF f2(2) c] in simp_all)
qed

lemma free_fd_frame: "fm_get_free_fd (s\<lparr>fm_fs := fs\<rparr>) pg = fm_get_free_fd s pg"
  by (simp add: fm_get_free_fd_def)

lemma close_none: "fm_close s (-1) = Some (- EBADF, s)"
  by (simp add: fm_close_def fm_fd_to_data_def)

lemma open_file:
  assumes "tree_of F G" and "stores (fm_fs s) F" and "G SID_ROOT \<noteq> None" and "\<forall>c\<in>set cs. name_ok c" and "locate G cs = sid" and "sid \<noteq> 0"
    and "F sid = Some (meta, xs)" and "meta ! 0 = chr_F" and "open_error (Some False) flags = None"
    and "fd_page s = Some pg" and "length (fd_mem s pg) = MAX_FD" and "fm_get_free_fd s pg = Some i"
    and "fs_room (fm_fs s) (sid_dev sid) (2 * new_cores 0)"
  shows "\<exists>s' f. fm_reopen s (-1) (abs_path cs) flags = Some (int i, s') \<and>
    file_at s' (F(sid \<mapsto> (meta, if has flags O_TRUNC then [] else xs))) (int i) pg i f meta (if has flags O_TRUNC then [] else xs) \<and>
    fd_sid f = sid \<and> fd_flags f = flags \<and>
    unat (fd_offset f) = (if has flags O_APPEND \<and> \<not> has flags O_TRUNC then length xs else 0)"
proof -
  have none: "open_error (found_at F sid) flags = None"
    using assms(6-9) by (simp add: found_at_def chr_defs)
  obtain fs1 where f: "find_or_create (fm_fs s) (abs_path cs) flags = Some (Inr sid, fs1)" "stores fs1 F"
    "\<forall>dev k. fs_room (fm_fs s) dev k \<longrightarrow> fs_room fs1 dev k"
    using find_file [OF assms(1-4), unfolded assms(5), OF assms(6,7) none] by blast
  have i: "i < MAX_FD"
    using assms(12) by (auto simp: fm_get_free_fd_def find_Some_iff)
  let ?s = "s\<lparr>fm_fs := fs1\<rparr>" and ?ys = "if has flags O_TRUNC then [] else xs"
  have pre: "stores (fm_fs ?s) F" "i < length (fd_mem ?s pg)" "fs_room (fm_fs ?s) (sid_dev sid) (2 * new_cores 0)"
    using f(2,3) assms(11,13) i by simp_all
  obtain fs' ys g where
    g: "fill_fd ?s pg i sid (abs_path cs) flags = Some (int i, set_fd (?s\<lparr>fm_fs := fs'\<rparr>) pg i g)" "stores fs' (F(sid \<mapsto> (meta, ys)))"
      "ys = ?ys" "fd_kind g = TYPE_FILE" "fd_sid g = sid" "fd_flags g = flags" "unat (fd_offset g) = (if has flags O_APPEND then length ys else 0)"
    by (rule fill_file [OF pre(1) assms(7,6,8) pre(2,3)])
  have "fm_reopen s (-1) (abs_path cs) flags = Some (int i, set_fd (s\<lparr>fm_fs := fs'\<rparr>) pg i g)"
    using f(1) assms(10,12) g(1) by (simp add: fm_reopen_def close_none free_fd_frame del: fs_frame(2))
  moreover have "file_at (set_fd (s\<lparr>fm_fs := fs'\<rparr>) pg i g) (F(sid \<mapsto> (meta, ?ys))) (int i) pg i g meta ?ys"
    by (rule file_at_set_fd) (use g assms(10,11) i in \<open>simp_all add: fm_fd_to_data_def\<close>)
  ultimately show ?thesis
    using g(3,5-7) by auto
qed

lemma open_create:
  assumes "tree_of F G" and "stores (fm_fs s) F" and "G SID_ROOT \<noteq> None" and "\<forall>c\<in>set cs. name_ok c" and "name_ok name"
    and "locate G (cs @ [name]) = 0" and "G (locate G cs) = Some es" and "grown es name \<le> cnt_max"
    and "fs_room (fm_fs s) (sid_dev (locate G cs)) (2 * new_cores (grown es name) + 2 * new_cores 0 + 2)" and "sid_dev (locate G cs) \<noteq> 0"
    and "has flags O_CREAT" and "\<not> has flags O_DIRECTORY"
    and "fd_page s = Some pg" and "length (fd_mem s pg) = MAX_FD" and "fm_get_free_fd s pg = Some i"
  shows "\<exists>sid s' F' f meta. fm_reopen s (-1) (abs_path (cs @ [name])) flags = Some (int i, s') \<and> F sid = None \<and>
    file_at s' F' (int i) pg i f meta [] \<and> fd_sid f = sid \<and> fd_flags f = flags \<and> fd_offset f = 0 \<and>
    tree_of F' (G(locate G cs \<mapsto> es @ [(sid, name)])) \<and> (\<forall>x. x \<noteq> sid \<longrightarrow> x \<noteq> locate G cs \<longrightarrow> F' x = F x)"
proof -
  have names: "\<forall>c\<in>set (cs @ [name]). name_ok c"
    using assms(4,5) by simp
  obtain fs1 where p: "kfu_path_to_sid (fm_fs s) SID_ROOT (abs_path (cs @ [name])) = Some (0, fs1)" "stores fs1 F"
    "\<forall>dev k. fs_room (fm_fs s) dev k \<longrightarrow> fs_room fs1 dev k"
    using path_to_sid_locate [OF assms(1-3) names] assms(6) by auto
  have room: "fs_room fs1 (sid_dev (locate G cs)) (2 * new_cores (grown es name) + 2 * new_cores 0 + 2)"
    using p(3) assms(9) by blast
  from file_create_ok [OF assms(1) p(2) assms(3,4,7,5,8) room assms(10)] obtain sid fs2 F' where
    c: "kfu_file_create fs1 (abs_path cs) name = Some (sid, fs2)" "F sid = None" "sid \<noteq> 0" "sid_dev sid = sid_dev (locate G cs)"
      "stores fs2 F'" "F' sid = Some (meta_str ([chr_F, chr_dash] @ take 61 name), [])"
      "\<forall>x. x \<noteq> sid \<longrightarrow> x \<noteq> locate G cs \<longrightarrow> F' x = F x" "tree_of F' (G(locate G cs \<mapsto> es @ [(sid, name)]))"
      "fs_room fs2 (sid_dev (locate G cs)) (2 * new_cores 0)"
    by blast
  let ?meta = "meta_str ([chr_F, chr_dash] @ take 61 name)" and ?s = "s\<lparr>fm_fs := fs2\<rparr>"
  have find: "find_or_create (fm_fs s) (abs_path (cs @ [name])) flags = Some (Inr sid, fs2)"
    using p(1) c(1,3) assms(11,12) sep_path_snoc [OF assms(5), of cs]
    by (simp add: find_or_create_def create_new_file_def SID_NULL_def)
  have i: "i < MAX_FD"
    using assms(15) by (auto simp: fm_get_free_fd_def find_Some_iff)
  have pre: "stores (fm_fs ?s) F'" "i < length (fd_mem ?s pg)" "fs_room (fm_fs ?s) (sid_dev sid) (2 * new_cores 0)" "?meta ! 0 = chr_F"
    using c(4,5,9) assms(14) i by (simp_all add: meta_str_def)
  obtain fs' ys f where
    f: "fill_fd ?s pg i sid (abs_path (cs @ [name])) flags = Some (int i, set_fd (?s\<lparr>fm_fs := fs'\<rparr>) pg i f)" "stores fs' (F'(sid \<mapsto> (?meta, ys)))"
      "ys = (if has flags O_TRUNC then [] else [])" "fd_kind f = TYPE_FILE" "fd_sid f = sid" "fd_flags f = flags"
      "unat (fd_offset f) = (if has flags O_APPEND then length ys else 0)"
    by (rule fill_file [OF pre(1) c(6,3) pre(4,2,3)])
  have same: "F'(sid \<mapsto> (?meta, ys)) = F'" "ys = []" "fd_offset f = 0"
    using fun_upd_triv [of F' sid] c(6) f(3,7) by (simp_all add: unat_eq_0 split: if_splits)
  have "fm_reopen s (-1) (abs_path (cs @ [name])) flags = Some (int i, set_fd (?s\<lparr>fm_fs := fs'\<rparr>) pg i f)"
    using find assms(13,15) f(1) by (simp add: fm_reopen_def close_none free_fd_frame del: fs_frame(2))
  moreover have "file_at (set_fd (?s\<lparr>fm_fs := fs'\<rparr>) pg i f) F' (int i) pg i f ?meta []"
    by (rule file_at_set_fd) (use f(2,4,5) same c(6) assms(13,14) i in \<open>simp_all add: fm_fd_to_data_def\<close>)
  ultimately show ?thesis
    using c(2,7,8) f(5,6) same(3) by blast
qed

end
