(* ===== verification/FmopenProps.thy ===== *)
theory FmopenProps
  imports FmopenSteps FmopenFiles FsProps ProcessProps
begin

text \<open>
  What descriptors and pipes guarantee, with a small system for the witnesses.
\<close>

section \<open>A concrete system\<close>

text \<open>
  The running process 2 of \<open>demo_sched\<close>, whose table is the page at 0x2000, on the disk that the
  start-up leaves.
\<close>

definition fd_kmem :: scuba where
  "fd_kmem = (kmem demo_sched)\<lparr>objs := [0 \<mapsto> Dir \<lparr>entries = (replicate 1024 zero_entry)[704 := zero_entry\<lparr>de_present := True, de_frame := 1\<rparr>],
       dir_pid = 0\<rparr>, 0x1000 \<mapsto> Table ((replicate 1024 zero_page)[0 := zero_page\<lparr>pg_present := True, pg_frame := 2\<rparr>])]\<rparr>"

definition fd_sched :: sched where
  "fd_sched = demo_sched\<lparr>kmem := fd_kmem\<rparr>"

definition free_fd_entry :: fd_data where
  "free_fd_entry = \<lparr>fd_kind = TYPE_FREE, fd_sid = 0, fd_flags = 0, fd_offset = 0, fd_ref = Pipe 0\<rparr>"

definition demo_fm :: "filesys \<Rightarrow> fm" where
  "demo_fm fs = \<lparr>fm_fs = fs, fm_afft = [], fm_sched = fd_sched, open_pipes = replicate PIPE_MAX zero_pipe,
     fd_mem = (\<lambda>_. replicate MAX_FD free_fd_entry), sock_log = []\<rparr>"

definition demo_own :: owners where
  "demo_own = [0x2000 \<mapsto> 2]"

lemma fd_sched_simps [simp]: "plist fd_sched = demo_procs" "proc_current fd_sched = 2" "kmem fd_sched = fd_kmem"
  by (simp_all add: fd_sched_def)

lemma fd_sched_pid: "process_get_pid fd_sched = Some 2"
  by (simp add: process_get_pid_def cur_def demo_procs_def)

lemma demo_place: "i_pid_to_place demo_procs 2 = Some 2"
  using pid_to_place_at [of demo_procs 2] demo_sched_ok by (simp add: sched_ok_def PROCESS_MAX_def)

lemma fd_table: "scuba_get_phys fd_kmem 0 0xB0000000 = Some 0x2000"
  by (simp add: scuba_get_phys_def fd_kmem_def rd_dir.simps rd_table.simps table_index_def page_index_def frame_addr_def zero_page_def)

lemma fd_sched_page: "scuba_call_phys fd_sched 0xB0000000 = Some 0x2000"
  using demo_place by (simp add: scuba_call_phys_def current_dir_def fd_sched_pid process_get_dir_def fd_table demo_procs_def)

lemma demo_running: "fm_sched s = fd_sched \<Longrightarrow> running demo_own s 0x2000 2"
  by (simp add: running_def demo_own_def fd_page_def my_pid_def fd_sched_page fd_sched_pid)

lemma demo_fm_simps [simp]: "fm_fs (demo_fm fs) = fs" "fm_sched (demo_fm fs) = fd_sched" "open_pipes (demo_fm fs) = replicate PIPE_MAX zero_pipe"
  "fd_mem (demo_fm fs) pg = replicate MAX_FD free_fd_entry"
  by (simp_all add: demo_fm_def)

lemma demo_refs: "refs_ok demo_own (demo_fm fs)"
  by (auto simp: refs_ok_def tables_ok_def demo_own_def zero_pipe_def fd_ok_def free_fd_entry_def ends_def)

text \<open>The same with a pipe of four bytes: descriptor 0 reads it, descriptor 1 writes it.\<close>

definition demo_end :: "fd_type \<Rightarrow> fd_data" where
  "demo_end t = free_fd_entry\<lparr>fd_kind := t, fd_ref := Pipe 0\<rparr>"

definition demo_refs_list :: "int list" where
  "demo_refs_list = 2 # replicate 11 (-1)"

definition demo_pipe :: pipe_data where
  "demo_pipe = \<lparr>buffer_size = 4, pipe_buf = Some [0, 0, 0, 0], current_size = 0, rd_offset = 0, readers = demo_refs_list,
     writers = demo_refs_list\<rparr>"

definition pipe_fm :: "filesys \<Rightarrow> fm" where
  "pipe_fm fs = (demo_fm fs)\<lparr>open_pipes := demo_pipe # replicate 255 zero_pipe,
     fd_mem := \<lambda>_. demo_end TYPE_PPRD # demo_end TYPE_PPWR # replicate 202 free_fd_entry\<rparr>"

lemma pipe_fm_simps [simp]: "fm_fs (pipe_fm fs) = fs" "fm_sched (pipe_fm fs) = fd_sched" "open_pipes (pipe_fm fs) = demo_pipe # replicate 255 zero_pipe"
  "fd_mem (pipe_fm fs) pg = demo_end TYPE_PPRD # demo_end TYPE_PPWR # replicate 202 free_fd_entry"
  by (simp_all add: pipe_fm_def)

lemma demo_end_simps [simp]: "fd_kind (demo_end t) = t" "fd_ref (demo_end t) = Pipe 0" "fd_kind free_fd_entry = TYPE_FREE"
  by (simp_all add: demo_end_def free_fd_entry_def)

lemma demo_pipe_simps [simp]: "pipe_buf demo_pipe = Some [0, 0, 0, 0]" "readers demo_pipe = demo_refs_list" "writers demo_pipe = demo_refs_list"
  "current_size demo_pipe = 0" "rd_offset demo_pipe = 0" "buffer_size demo_pipe = 4" "pipe_queue demo_pipe = []" "pipe_ok demo_pipe"
  by (simp_all add: demo_pipe_def pipe_queue_def pipe_ok_def mread_def)

lemma pipe_fm_page [simp]: "fd_page (pipe_fm fs) = Some 0x2000"
  by (simp add: fd_page_def fd_sched_page)

lemma demo_packed: "is_packed demo_refs_list" "count_list demo_refs_list 2 = 1" "q \<noteq> -1 \<Longrightarrow> q \<noteq> 2 \<Longrightarrow> count_list demo_refs_list q = 0"
proof -
  show "is_packed demo_refs_list"
    unfolding is_packed_def packed_def by (rule exI [of _ "[2]"]) (simp add: demo_refs_list_def PIPE_MAX_REF_def)
qed (simp_all add: demo_refs_list_def)

lemma pipe_fm_refs: "refs_ok demo_own (pipe_fm fs)"
proof -
  have used: "pipe_buf ((demo_pipe # replicate 255 zero_pipe) ! k) \<noteq> None \<longleftrightarrow> k = 0" if "k < PIPE_MAX" for k
    using that by (cases k) (auto simp: PIPE_MAX_def zero_pipe_def)
  have "tables_ok demo_own (pipe_fm fs)"
    by (auto simp: tables_ok_def demo_own_def fd_ok_def ends_def PIPE_MAX_def MAX_FD_def)
  moreover have "counted demo_own (pipe_fm fs) 0"
    using demo_packed by (intro countedI) (auto simp: ends_def refs_of_def demo_own_def holds_def refers_def split: if_splits)
  ultimately show ?thesis
    using used unfolding refs_ok_def by (auto simp del: not_None_eq)
qed

lemma demo_fd: "fm_fd_to_data 0 = Some 0" "fm_fd_to_data 1 = Some 1" "fm_fd_to_data (-1) = None"
  by (simp_all add: fm_fd_to_data_def MAX_FD_def)

section \<open>References\<close>

text \<open>
  C5.  Through any sequence of calls of the running process (open, close, seek, dup, dup2, fcntl, pipe,
  read, write), children, deaths and switches between processes, the lists of readers and writers of
  every pipe in use count, for each live process, the descriptors it has for that end; so no descriptor
  of a live process names a pipe that gave its buffer back.  The conditions on the steps: an end that is
  copied has a free place in its list (at most twelve references to an end), \<open>fm_pipe\<close> and
  \<open>fm_declare_child\<close> succeed, a reader that resumes finds every process with a table alive, and a dying
  process gives back its descriptors itself, while it is the running one.
\<close>

theorem pipe_references_invariant:
  assumes "fm_step\<^sup>*\<^sup>* (own, s) (own', s')" and "refs_ok own s"
  shows "refs_ok own' s' \<and> (\<forall>pg\<in>dom own'. \<forall>f\<in>set (fd_mem s' pg). \<forall>t\<in>ends. \<forall>k. refers t k f \<longrightarrow> pipe_buf (open_pipes s' ! k) \<noteq> None)"
proof -
  have r: "refs_ok own' s'"
    using steps_keep [OF assms(1)] assms(2) by simp
  moreover have "pipe_buf (open_pipes s' ! k) \<noteq> None"
    if "pg \<in> dom own'" "f \<in> set (fd_mem s' pg)" "t \<in> ends" "refers t k f" for pg f t k
  proof -
    have "fd_ok s' f"
      using refs_okD(1) [OF r] that(1,2) unfolding tables_ok_def by blast
    then show ?thesis
      using that(3,4) by (auto simp: fd_ok_def refers_def)
  qed
  ultimately show ?thesis
    by blast
qed

theorem pipe_references_invariant_witness:
  "\<exists>fs s'. filesys_init_root zeros = Some fs \<and> fm_close (pipe_fm fs) 0 = Some (0, s') \<and> refs_ok demo_own s'"
proof -
  obtain fs F G tmp dev where b: "filesys_init_root zeros = Some fs" "stores fs F"
    using filesys_init_root_ok [of zeros] by auto
  have run: "running demo_own (pipe_fm fs) 0x2000 2"
    by (simp add: demo_running)
  have "0 < MAX_FD" "refers TYPE_PPRD 0 (fd_mem (pipe_fm fs) 0x2000 ! 0)" "TYPE_PPRD \<in> ends"
    by (simp_all add: refers_def MAX_FD_def ends_def)
  then obtain p where "fm_close_data (pipe_fm fs) 0x2000 0 = Some (0, p)"
    using close_end_ok [OF pipe_fm_refs run] by metis
  then have c: "fm_close (pipe_fm fs) 0 = Some (0, p)"
    by (simp add: fm_close_def demo_fd)
  have "fm_step\<^sup>*\<^sup>* (demo_own, pipe_fm fs) (demo_own, p)"
    by (rule r_into_rtranclp) (rule fm_step.closing [OF run c])
  from pipe_references_invariant [OF this pipe_fm_refs] c b(1) show ?thesis
    by blast
qed

text \<open>
  C16.  Closing an end of a pipe succeeds, and the pipe gives its buffer back exactly when no
  descriptor of a live process is left for either end.
\<close>

theorem fm_close_frees_exactly:
  assumes "refs_ok own s" and "running own s pg pid" and "fm_fd_to_data fd = Some i" and "t \<in> ends" and "refers t k (fd_mem s pg ! i)"
  shows "\<exists>s'. fm_close s fd = Some (0, s') \<and> refs_ok own s' \<and>
    (pipe_buf (open_pipes s' ! k) = None \<longleftrightarrow> (\<forall>pg\<in>dom own. \<forall>f\<in>set (fd_mem s' pg). \<forall>t\<in>ends. \<not> refers t k f))"
proof (rule close_end_ok [OF assms(1,2) to_data_less [OF assms(3)] assms(5,4)])
  fix p
  let ?g = "(fd_mem s pg ! i)\<lparr>fd_kind := TYPE_FREE\<rparr>" and ?q = "drop_end t pid (open_pipes s ! k)"
  let ?s1 = "set_fd (set_pipe s k ?q) pg i ?g" and ?s2 = "set_fd (set_pipe s k p) pg i ?g"
  assume p: "fm_close_data s pg i = Some (0, ?s2)" "k < PIPE_MAX" "pipe_buf (open_pipes s ! k) \<noteq> None"
    "p = ?q\<lparr>pipe_buf := pipe_buf p\<rparr>" "refs_ok own ?s1" "refs_ok own ?s2"
    "pipe_buf p = (if \<forall>t\<in>ends. refs_of t p ! 0 = -1 then None else pipe_buf (open_pipes s ! k))"
  have k: "k < length (open_pipes s)"
    using p(2) refs_okD(2) [OF assms(1)] by simp
  have c: "fm_close s fd = Some (0, ?s2)"
    using assms(2,3) p(1) by (simp add: fm_close_def running_def)
  have P: "open_pipes ?s1 ! k = ?q" "open_pipes ?s2 ! k = p" "fd_mem ?s2 = fd_mem ?s1"
    using k by (simp_all add: set_fd_mem)
  have r: "refs_of t p = refs_of t ?q" for t
    by (subst p(4)) (simp add: refs_of_def)
  have "pipe_buf (open_pipes ?s1 ! k) \<noteq> None"
    unfolding P using p(3) by (simp add: drop_end_def)
  from unused_pipe [OF p(5,2) this]
  have "(\<forall>t\<in>ends. refs_of t p ! 0 = -1) \<longleftrightarrow> (\<forall>pg\<in>dom own. \<forall>f\<in>set (fd_mem ?s2 pg). \<forall>t\<in>ends. \<not> refers t k f)"
    unfolding P(1,3) r .
  moreover have "pipe_buf p = None \<longleftrightarrow> (\<forall>t\<in>ends. refs_of t p ! 0 = -1)"
    using p(3,7) by presburger
  ultimately show ?thesis
    using c p(6) P(2) by (intro exI [of _ ?s2]) simp
qed

theorem fm_close_frees_exactly_witness:
  "\<exists>fs s'. filesys_init_root zeros = Some fs \<and> fm_close (pipe_fm fs) 1 = Some (0, s') \<and> refs_ok demo_own s'"
proof -
  obtain fs F G tmp dev where b: "filesys_init_root zeros = Some fs" "stores fs F"
    using filesys_init_root_ok [of zeros] by auto
  show ?thesis
    using fm_close_frees_exactly [OF pipe_fm_refs demo_running demo_fd(2), of fs TYPE_PPWR 0] b(1) by (auto simp: ends_def refers_def)
qed

section \<open>Pipes\<close>

text \<open>
  C12.  A pipe is a first-in first-out stream: over any interleaving of writes and reads by any
  processes, through any descriptors that are its ends, what was in the pipe followed by what went in is
  what came out followed by what is in the pipe at the end.
\<close>

theorem pipe_fifo:
  assumes "pipe_inv k q" and "traffic (pipe_feed k) (pipe_fetch k) ops q = (went_in, came_out, q')"
  shows "pipe_inv k q' \<and> queue_at k q @ went_in = came_out @ queue_at k q'"
  using assms by (rule pipes.fifo)

lemma pipe_fm_inv: "alloc_ok al \<Longrightarrow> pipe_inv 0 (net, al, pipe_fm fs)"
  by (simp add: pipe_inv_def PIPE_MAX_def) (simp add: demo_refs_list_def)

lemma demo_feed: "\<exists>s. pipe_feed 0 (fd_sched, 1) [7, 8] (net, \<lambda>_. None, pipe_fm fs) = Some (net, \<lambda>_. None, s)"
proof -
  have same: "(pipe_fm fs)\<lparr>fm_sched := fd_sched\<rparr> = pipe_fm fs"
    by (simp add: pipe_fm_def demo_fm_def)
  have "pipe_end (pipe_fm fs) 1 TYPE_PPWR = Some 0"
    by (simp add: pipe_end_def demo_fd)
  moreover have "\<exists>s. fm_pwrite net (\<lambda>_. None) (pipe_fm fs) 1 [7, 8] 0 2 (-1) = Some (2, s)"
    by (simp add: demo_fd fm_pwrite_def pipe_put_def grow_pipe_def sync_offset_def Let_def)
  ultimately show ?thesis
    by (auto simp: pipe_feed_def same Let_def)
qed

theorem pipe_fifo_witness:
  "\<exists>fs out q'. filesys_init_root zeros = Some fs \<and>
    traffic (pipe_feed 0) (pipe_fetch 0) [Put (fd_sched, 1) [7, 8], Get (fd_sched, 0) 1] (\<lambda>_. 0, \<lambda>_. None, pipe_fm fs) = ([7, 8], out, q') \<and>
    [7, 8] = out @ queue_at 0 q'"
proof -
  obtain fs F G tmp dev where b: "filesys_init_root zeros = Some fs" "stores fs F"
    using filesys_init_root_ok [of zeros] by auto
  let ?q = "(\<lambda>_ :: sock_call list. 0 :: int, \<lambda>_ :: u32. None :: byte list option, pipe_fm fs)"
  obtain s where s: "pipe_feed 0 (fd_sched, 1) [7, 8] ?q = Some (\<lambda>_. 0, \<lambda>_. None, s)"
    using demo_feed by blast
  obtain out q' where t: "traffic (pipe_feed 0) (pipe_fetch 0) [Put (fd_sched, 1) [7, 8], Get (fd_sched, 0) 1] ?q = ([7, 8], out, q')"
    using s by (cases "pipe_fetch 0 (fd_sched, 0) 1 (\<lambda>_. 0, \<lambda>_. None, s)") simp
  have "pipe_inv 0 ?q"
    by (rule pipe_fm_inv) (simp add: alloc_ok_def)
  from pipe_fifo [OF this t] have "[7, 8] = out @ queue_at 0 q'"
    by (simp add: queue_at_def [of 0 ?q])
  then show ?thesis
    using b(1) t by blast
qed

text \<open>
  C13.  A read of a pipe sleeps exactly when the pipe is empty and a live process has a descriptor to
  write to it; else it takes the first bytes, as many as there are up to the number asked for, which is
  0, the end of the file, when nobody can write any more.
\<close>

lemma writer_left:
  assumes "refs_ok own s" and "k < PIPE_MAX" and "pipe_buf (open_pipes s ! k) \<noteq> None"
  shows "writers (open_pipes s ! k) \<noteq> [] \<and>
    (hd (writers (open_pipes s ! k)) \<noteq> -1 \<longleftrightarrow> (\<exists>pg\<in>dom own. \<exists>f\<in>set (fd_mem s pg). refers TYPE_PPWR k f))"
proof -
  have t: "TYPE_PPWR \<in> ends" "refs_of TYPE_PPWR (open_pipes s ! k) = writers (open_pipes s ! k)"
    by (simp_all add: ends_def refs_of_def)
  have "writers (open_pipes s ! k) \<noteq> []"
    using is_packed_head [OF countedD(1) [OF refs_okD(3) [OF assms] t(1)]] t(2) by simp
  then show ?thesis
    using head_free [OF assms t(1)] unfolding t(2) by (auto simp: no_holder hd_conv_nth)
qed

theorem fm_pread_pipe_spec:
  assumes "refs_ok own s" and "running own s pg pid" and "fm_fd_to_data fd = Some i" and "refers TYPE_PPRD k (fd_mem s pg ! i)"
    and "pipe_ok (open_pipes s ! k)" and "unat n \<le> length b" and "unat n < 2 ^ 31" and "length (pipe_queue (open_pipes s ! k)) < 2 ^ 31"
  shows "let q = pipe_queue (open_pipes s ! k) in
    if q = [] \<and> (\<exists>pg\<in>dom own. \<exists>f\<in>set (fd_mem s pg). refers TYPE_PPWR k f)
    then fm_pread net s fd b ptr n off = do {
        pid \<leftarrow> process_get_pid (fm_sched s);
        (_, sch) \<leftarrow> process_sleep (fm_sched s) pid 10;
        Some (IoWaits k, b, s\<lparr>fm_sched := sch\<rparr>) }
    else \<exists>s'. fm_pread net s fd b ptr n off = Some (IoDone (int (min (unat n) (length q))), mwrite b 0 (take (unat n) q), s') \<and>
        refs_ok own s' \<and> pipe_ok (open_pipes s' ! k) \<and> pipe_queue (open_pipes s' ! k) = drop (unat n) q"
proof -
  note r = refs_ok_start [OF assms(1-3)]
  have f: "fd_at s fd pg i (fd_mem s pg ! i)" "fd_kind (fd_mem s pg ! i) = TYPE_PPRD" "fd_ref (fd_mem s pg ! i) = Pipe k"
    using r assms(3,4) by (simp_all add: fd_at_def refers_def)
  have k: "k < PIPE_MAX" "pipe_buf (open_pipes s ! k) \<noteq> None"
    using fd_ok_pipe [OF r(5) _ f(3)] f(2) by (simp_all add: ends_def)
  note w = writer_left [OF assms(1) k]
  have kl: "k < length (open_pipes s)"
    using k(1) refs_okD(2) [OF assms(1)] by simp
  show ?thesis
  proof (cases rule: fm_pread_pipe [OF f kl assms(5-8) conjunct1 [OF w], of net ptr off])
    case 1
    then show ?thesis
      using conjunct2 [OF w] by (simp add: Let_def)
  next
    case (2 p m)
    have "refs_ok own (moved (set_pipe s k p) pg i (off < 0) (int m))"
      using pread_ok [OF assms(1,2) 2(3)] .
    moreover have no: "\<not> (pipe_queue (open_pipes s ! k) = [] \<and> (\<exists>pg\<in>dom own. \<exists>f\<in>set (fd_mem s pg). refers TYPE_PPWR k f))"
      using 2(1) w by blast
    ultimately show ?thesis
      unfolding Let_def if_not_P [OF no] using 2 kl by (intro exI [of _ "moved (set_pipe s k p) pg i (off < 0) (int m)"]) simp
  qed
qed

theorem fm_pread_pipe_spec_witness:
  "\<exists>fs. filesys_init_root zeros = Some fs \<and> fm_pread (\<lambda>_. 0) (pipe_fm fs) 0 [0] 0 1 (-1) = do {
     pid \<leftarrow> process_get_pid fd_sched;
     (_, sch) \<leftarrow> process_sleep fd_sched pid 10;
     Some (IoWaits 0, [0], (pipe_fm fs)\<lparr>fm_sched := sch\<rparr>) }"
proof -
  obtain fs F G tmp dev where b: "filesys_init_root zeros = Some fs" "stores fs F"
    using filesys_init_root_ok [of zeros] by auto
  show ?thesis
    using fm_pread_pipe_spec [OF pipe_fm_refs demo_running demo_fd(1), of fs 0 1 "[0]" "\<lambda>_. 0" 0 "-1"] b(1)
    by (simp add: refers_def Let_def demo_own_def)
qed

section \<open>Files\<close>

lemma demo_free_fd: "fm_get_free_fd (demo_fm fs) 0x2000 = Some 0"
  by (simp add: fm_get_free_fd_def MAX_FD_def upt_rec [of 0])

lemma demo_fm_page: "fd_page (demo_fm fs) = Some 0x2000"
  by (simp add: fd_page_def fd_sched_page)

text \<open>The disk of the start-up with a file \<open>/A\<close>.\<close>

lemma boot_file:
  obtains fs F G sid meta where "stores fs F" "tree_of F G" "G SID_ROOT \<noteq> None" "locate G [[chr_A]] = sid" "sid \<noteq> 0"
    "F sid = Some (meta, [])" "meta ! 0 = chr_F" "fs_room fs 1 500" "sid_dev sid = 1"
proof -
  obtain fs F G tmp dev meta where b: "filesys_init_root zeros = Some fs" "stores fs F" "tree_of F G"
    "G SID_ROOT = Some (boot_entries tmp dev)" "length (dir_bytes (boot_entries tmp dev)) = 49" "fs_room fs 1 1000" "sid_dev SID_ROOT = 1"
    by (rule boot_state)
  have loc: "locate G [] = SID_ROOT"
    by (simp add: locate_def)
  have nm: "name_ok [chr_A]" "[chr_A] \<notin> snd ` set (boot_entries tmp dev)"
    by (simp_all add: chr_defs bytes_of_def name_ok_def)
  have gr: "grown (boot_entries tmp dev) [chr_A] \<le> cnt_max"
    using b(5) by (simp add: cnt_max_def)
  have room: "fs_room fs (sid_dev (locate G [])) (2 * new_cores (grown (boot_entries tmp dev) [chr_A]) + 500 + 2)"
    unfolding loc b(7) by (rule fs_room_mono [OF b(6)]) (simp add: new_cores_def b(5))
  have G: "G SID_ROOT \<noteq> None" "G (locate G []) = Some (boot_entries tmp dev)" "sid_dev (locate G []) \<noteq> 0"
    using b(4,7) loc by simp_all
  from file_create_ok [OF b(3,2) G(1) _ G(2) nm(1) gr room G(3)] obtain sid fs' F' where
    c: "F sid = None" "sid \<noteq> 0" "sid_dev sid = 1" "stores fs' F'" "F' sid = Some (meta_str ([chr_F, chr_dash] @ take 61 [chr_A]), [])"
      "tree_of F' (G(SID_ROOT \<mapsto> boot_entries tmp dev @ [(sid, [chr_A])]))" "fs_room fs' 1 500"
    using loc b(7) by auto
  have "locate (G(SID_ROOT \<mapsto> boot_entries tmp dev @ [(sid, [chr_A])])) [[chr_A]] = sid"
    using nm(2) by (auto simp: locate_def)
  then show thesis
    using that [OF c(4,6) _ _ c(2,5) _ c(7,3)] by (simp add: meta_str_def)
qed

text \<open>
  C10.  Opening a path that does not exist with \<open>O_CREAT\<close>, for a directory that exists: an empty file is
  created, the directory lists it, and the first free descriptor is at its start; every other
  container is as it was.
\<close>

theorem fm_reopen_creates:
  assumes "tree_of F G" and "stores (fm_fs s) F" and "G SID_ROOT \<noteq> None" and "\<forall>c\<in>set cs. name_ok c" and "name_ok name"
    and "locate G (cs @ [name]) = 0" and "G (locate G cs) = Some es" and "grown es name \<le> cnt_max"
    and "fs_room (fm_fs s) (sid_dev (locate G cs)) (2 * new_cores (grown es name) + 2 * new_cores 0 + 2)" and "sid_dev (locate G cs) \<noteq> 0"
    and "has flags O_CREAT" and "\<not> has flags O_DIRECTORY"
    and "fd_page s = Some pg" and "length (fd_mem s pg) = MAX_FD" and "fm_get_free_fd s pg = Some i"
  shows "\<exists>sid s' F' f meta. fm_reopen s (-1) (abs_path (cs @ [name])) flags = Some (int i, s') \<and> F sid = None \<and>
    file_at s' F' (int i) pg i f meta [] \<and> fd_sid f = sid \<and> fd_flags f = flags \<and> fd_offset f = 0 \<and>
    tree_of F' (G(locate G cs \<mapsto> es @ [(sid, name)])) \<and> (\<forall>x. x \<noteq> sid \<longrightarrow> x \<noteq> locate G cs \<longrightarrow> F' x = F x)"
  using assms by (rule open_create)

theorem fm_reopen_creates_witness:
  "\<exists>fs s'. filesys_init_root zeros = Some fs \<and> fm_reopen (demo_fm fs) (-1) [chr_slash, chr_A] O_CREAT = Some (0, s')"
proof -
  obtain fs F G tmp dev meta where b: "filesys_init_root zeros = Some fs" "stores fs F" "tree_of F G"
    "G SID_ROOT = Some (boot_entries tmp dev)" "length (dir_bytes (boot_entries tmp dev)) = 49" "fs_room fs 1 1000" "sid_dev SID_ROOT = 1"
    by (rule boot_state)
  have loc: "locate G [] = SID_ROOT" "locate G ([] @ [[chr_A]]) = 0"
    using b(4) by (simp_all add: locate_def bytes_of_def chr_defs SID_NULL_def)
  have "fs_room (fm_fs (demo_fm fs)) (sid_dev (locate G [])) (2 * new_cores (grown (boot_entries tmp dev) [chr_A]) + 2 * new_cores 0 + 2)"
    unfolding loc(1) b(7) demo_fm_simps by (rule fs_room_mono [OF b(6)]) (simp add: new_cores_def b(5))
  from fm_reopen_creates [OF b(3) _ _ _ _ loc(2) _ _ this _ _ _ demo_fm_page _ demo_free_fd, of O_CREAT]
  obtain s' where "fm_reopen (demo_fm fs) (-1) [chr_slash, chr_A] O_CREAT = Some (0, s')"
    using b(2,4,5,7) loc(1) by (auto simp: abs_path_def name_ok_def chr_defs cnt_max_def has_def O_CREAT_def O_DIRECTORY_def)
  then show ?thesis
    using b(1) by blast
qed

text \<open>
  C18.  Opening the path of a file, with flags that ask for no error, gives the first free descriptor of
  that file; \<open>O_TRUNC\<close> empties it, \<open>O_APPEND\<close> puts the offset at its end, which is the start
  otherwise, and no other container changes.
\<close>

theorem fm_reopen_existing:
  assumes "tree_of F G" and "stores (fm_fs s) F" and "G SID_ROOT \<noteq> None" and "\<forall>c\<in>set cs. name_ok c" and "locate G cs = sid" and "sid \<noteq> 0"
    and "F sid = Some (meta, xs)" and "meta ! 0 = chr_F" and "open_error (Some False) flags = None"
    and "fd_page s = Some pg" and "length (fd_mem s pg) = MAX_FD" and "fm_get_free_fd s pg = Some i"
    and "fs_room (fm_fs s) (sid_dev sid) (2 * new_cores 0)"
  shows "\<exists>s' f. fm_reopen s (-1) (abs_path cs) flags = Some (int i, s') \<and>
    file_at s' (F(sid \<mapsto> (meta, if has flags O_TRUNC then [] else xs))) (int i) pg i f meta (if has flags O_TRUNC then [] else xs) \<and>
    fd_sid f = sid \<and> fd_flags f = flags \<and>
    unat (fd_offset f) = (if has flags O_APPEND \<and> \<not> has flags O_TRUNC then length xs else 0)"
  using assms by (rule open_file)

theorem fm_reopen_existing_witness:
  "\<exists>fs F s' f meta. stores fs F \<and> fm_reopen (demo_fm fs) (-1) [chr_slash, chr_A] (O_WRONLY OR O_TRUNC) = Some (0, s') \<and>
    file_at s' F 0 0x2000 0 f meta [] \<and> fd_offset f = 0"
proof -
  obtain fs F G sid meta where b: "stores fs F" "tree_of F G" "G SID_ROOT \<noteq> None" "locate G [[chr_A]] = sid" "sid \<noteq> 0"
    "F sid = Some (meta, [])" "meta ! 0 = chr_F" "fs_room fs 1 500" "sid_dev sid = 1"
    by (rule boot_file)
  have room: "fs_room (fm_fs (demo_fm fs)) (sid_dev sid) (2 * new_cores 0)"
    unfolding b(9) demo_fm_simps by (rule fs_room_mono [OF b(8)]) (simp add: new_cores_def)
  have flags: "open_error (Some False) (O_WRONLY OR O_TRUNC) = None" "has (O_WRONLY OR O_TRUNC) O_TRUNC"
    by (simp_all add: open_error_def has_def O_WRONLY_def O_TRUNC_def O_EXCL_def O_DIRECTORY_def)
  have same: "F(sid \<mapsto> (meta, [])) = F"
    using fun_upd_triv [of F sid] b(6) by simp
  have st: "stores (fm_fs (demo_fm fs)) F" "\<forall>c\<in>set [[chr_A]]. name_ok c" "length (fd_mem (demo_fm fs) 0x2000) = MAX_FD"
    using b(1) by (simp_all add: name_ok_def chr_defs)
  from fm_reopen_existing [OF b(2) st(1) b(3) st(2) b(4-7) flags(1) demo_fm_page st(3) demo_free_fd room]
  obtain s' f where "fm_reopen (demo_fm fs) (-1) [chr_slash, chr_A] (O_WRONLY OR O_TRUNC) = Some (0, s')"
    "file_at s' F 0 0x2000 0 f meta []" "fd_offset f = 0"
    using flags(2) same by (auto simp: abs_path_def unat_eq_0)
  then show ?thesis
    using b(1) by blast
qed

text \<open>
  C27.  Opening fails as the flags and the kind of what the path names demand: \<open>ENOENT\<close>, \<open>EEXIST\<close>,
  \<open>EISDIR\<close> or \<open>ENOTDIR\<close>; no container and no descriptor changes.
\<close>

theorem fm_reopen_error:
  assumes "tree_of F G" and "stores (fm_fs s) F" and "G SID_ROOT \<noteq> None" and "\<forall>c\<in>set cs. name_ok c" and "locate G cs = 0 \<or> F (locate G cs) \<noteq> None"
    and "open_error (found_at F (locate G cs)) flags = Some e"
  shows "\<exists>fs'. fm_reopen s (-1) (abs_path cs) flags = Some (- e, s\<lparr>fm_fs := fs'\<rparr>) \<and> stores fs' F"
  using find_or_create_error [OF assms] by (auto simp: fm_reopen_def close_none)

theorem fm_reopen_error_witness:
  "\<exists>fs s'. filesys_init_root zeros = Some fs \<and> fm_reopen (demo_fm fs) (-1) [chr_slash] O_WRONLY = Some (- EISDIR, s')"
proof -
  obtain fs F G tmp dev meta where b: "filesys_init_root zeros = Some fs" "stores fs F" "tree_of F G" "G SID_ROOT = Some (boot_entries tmp dev)"
    "is_directory F SID_ROOT (boot_entries tmp dev)"
    by (rule boot_state)
  have loc: "locate G [] = SID_ROOT"
    by (simp add: locate_def)
  have "found_at F SID_ROOT = Some True"
    using b(5) by (auto simp: is_directory_def found_at_def)
  then have "open_error (found_at F (locate G [])) O_WRONLY = Some EISDIR"
    by (simp add: loc open_error_def has_def O_WRONLY_def O_RDONLY_def O_ACCMODE_def O_EXCL_def)
  from fm_reopen_error [OF b(3) _ _ _ _ this, of "demo_fm fs"] obtain fs' where
    "fm_reopen (demo_fm fs) (-1) (abs_path []) O_WRONLY = Some (- EISDIR, (demo_fm fs)\<lparr>fm_fs := fs'\<rparr>)"
    using b(2,4,5) by (auto simp: loc is_directory_def)
  then show ?thesis
    using b(1) by (auto simp: abs_path_def)
qed

text \<open>
  C23.  What is written to the descriptor of a file is read back after going back with \<open>fm_lseek\<close>: the
  file grows as needed, past the end too, and all of the bytes are transferred.
\<close>

theorem fm_write_seek_read:
  assumes "file_at s F fd pg i f meta xs" and "unat (fd_offset f) + unat n \<le> cnt_max" and "unat n \<le> length b" and "length b' = unat n"
    and "fs_room (fm_fs s) (sid_dev (fd_sid f)) (2 * new_cores (unat (fd_offset f) + unat n))"
  shows "\<exists>s1 s2 s3. fm_pwrite net al s fd b ptr n (-1) = Some (int (unat n), s1) \<and>
    fm_lseek s1 fd (int (unat (fd_offset f))) 0 = Some (int (unat (fd_offset f)), s2) \<and>
    fm_pread net s2 fd b' ptr n (-1) = Some (IoDone (int (unat n)), take (unat n) b, s3)"
  using assms by (rule write_seek_read)

theorem fm_write_seek_read_witness:
  "\<exists>s s1 s2 s3. fm_pwrite (\<lambda>_. 0) (\<lambda>_. None) s 0 [7, 8] 0 2 (-1) = Some (2, s1) \<and> fm_lseek s1 0 3 0 = Some (3, s2) \<and>
    fm_pread (\<lambda>_. 0) s2 0 [0, 0] 0 2 (-1) = Some (IoDone 2, [7, 8], s3)"
proof -
  obtain fs F G sid meta where b: "stores fs F" "tree_of F G" "G SID_ROOT \<noteq> None" "locate G [[chr_A]] = sid" "sid \<noteq> 0"
    "F sid = Some (meta, [])" "meta ! 0 = chr_F" "fs_room fs 1 500" "sid_dev sid = 1"
    by (rule boot_file)
  let ?f = "free_fd_entry\<lparr>fd_kind := TYPE_FILE, fd_sid := sid, fd_offset := 3\<rparr>"
  let ?s = "set_fd (demo_fm fs) 0x2000 0 ?f"
  have at: "file_at ?s F 0 0x2000 0 ?f meta []"
    by (rule file_at_set_fd) (use b(1,6) demo_fm_page in \<open>simp_all add: demo_fd MAX_FD_def\<close>)
  have "fs_room fs 1 (2 * new_cores 5)"
    by (rule fs_room_mono [OF b(8)]) (simp add: new_cores_def)
  then have room: "fs_room (fm_fs ?s) (sid_dev (fd_sid ?f)) (2 * new_cores (unat (fd_offset ?f) + unat (2 :: u32)))"
    using b(9) by simp
  have fit: "unat (fd_offset ?f) + unat (2 :: u32) \<le> cnt_max" "unat (2 :: u32) \<le> length [7 :: byte, 8]" "length [0 :: byte, 0] = unat (2 :: u32)"
    by (simp_all add: cnt_max_def)
  show ?thesis
    using fm_write_seek_read [OF at fit room, of "\<lambda>_. 0" "\<lambda>_. None" 0] by auto
qed

end
