(* ===== verification/Fu.thy ===== *)
theory Fu
  imports FileOps Errno
begin

text \<open>
  The directories and files as programs see them (\<open>zlibs/modules/filesys.c\<close>): the module reads and
  writes the containers of the kernel.  It can take an element out of a directory, which leaves bytes
  behind that \<open>dir_bytes\<close> does not have.

  As in \<open>Directory\<close>, a buffer from \<open>malloc\<close> is zeros, and a C string is the list of its characters;
  reading outside of a buffer is \<open>None\<close>.
\<close>

section \<open>Kinds of containers\<close>

definition kind_of :: "filesys \<Rightarrow> byte \<Rightarrow> u32 \<Rightarrow> (bool \<times> filesys) option" where
  "kind_of fs c sid =
     (if sid = SID_NULL then Some (False, fs)
      else do {
        (name, fs) \<leftarrow> fs_cnt_meta fs sid None;
        case name of None \<Rightarrow> Some (False, fs) | Some name \<Rightarrow> Some (name ! 0 = c, fs)
      })"

definition fu_is_dir :: "filesys \<Rightarrow> u32 \<Rightarrow> (bool \<times> filesys) option" where
  "fu_is_dir fs dir_sid = kind_of fs chr_D dir_sid"

definition fu_is_file :: "filesys \<Rightarrow> u32 \<Rightarrow> (bool \<times> filesys) option" where
  "fu_is_file fs dir_sid = kind_of fs chr_F dir_sid"

definition fu_is_afft :: "filesys \<Rightarrow> u32 \<Rightarrow> (bool \<times> filesys) option" where
  "fu_is_afft fs file_sid = kind_of fs chr_A file_sid"

section \<open>Directories\<close>

definition word_at :: "byte list \<Rightarrow> nat \<Rightarrow> u32 option" where
  "word_at buf p = (if p + 4 \<le> length buf then Some (get32 buf p) else None)"

definition fu_dir_get_size :: "filesys \<Rightarrow> u32 \<Rightarrow> (int \<times> filesys) option" where
  "fu_dir_get_size fs dir_sid = do {
     (d, fs) \<leftarrow> fu_is_dir fs dir_sid;
     if \<not> d then Some (- ENOTDIR, fs)
     else do {
       sz \<leftarrow> fs_cnt_get_size fs dir_sid;
       if sz = UINT32_MAX \<or> sz < 4 then Some (- EIO, fs)
       else do {
         (r, buf, fs) \<leftarrow> fs_cnt_read fs dir_sid (replicate 4 0) 0 4;
         Some (if r \<noteq> 0 then - EIO else sint (get32 buf 0), fs)
       }
     }
   }"

text \<open>The offset of the name, 0 after the last element or an error, and the element.\<close>

definition fu_dir_get_elm :: "byte list \<Rightarrow> u32 \<Rightarrow> u32 \<Rightarrow> (int \<times> u32) option" where
  "fu_dir_get_elm buf bsize index =
     (if bsize < 4 then Some (- EIO, SID_NULL)
      else do {
        count \<leftarrow> word_at buf 0;
        if count \<le> index then Some (0, SID_NULL)
        else do {
          let offset = 4 + index * (4 * 2);
          if bsize < offset + 4 * 2 then Some (- EIO, SID_NULL)
          else do {
            sid \<leftarrow> word_at buf (unat offset);
            name_offset \<leftarrow> word_at buf (unat (offset + 4));
            let offset = 4 + count * (4 * 2) + name_offset;
            Some (if bsize < offset then - EIO else sint offset, sid)
          }
        }
      })"

text \<open>The elements from \<open>i\<close> on, \<open>n\<close> of them; the inner \<open>None\<close> is an error.\<close>

fun elm_loop :: "byte list \<Rightarrow> u32 \<Rightarrow> nat \<Rightarrow> nat \<Rightarrow> entry list option option" where
  "elm_loop buf bsize i 0 = Some (Some [])"
| "elm_loop buf bsize i (Suc n) = do {
     (offset, sid) \<leftarrow> fu_dir_get_elm buf bsize (word_of_nat i);
     if offset \<le> 0 then Some None
     else do {
       name \<leftarrow> cstr_at buf (nat offset);
       es \<leftarrow> elm_loop buf bsize (Suc i) n;
       Some (map_option (\<lambda>es. (sid, name) # es) es)
     }
   }"

text \<open>\<open>want\<close> is false when the callers pass null pointers for the results.\<close>

definition fu_dir_get_content :: "filesys \<Rightarrow> u32 \<Rightarrow> bool \<Rightarrow> (int \<times> entry list \<times> filesys) option" where
  "fu_dir_get_content fs dir_sid want = do {
     (d, fs) \<leftarrow> fu_is_dir fs dir_sid;
     if \<not> d then Some (- ENOTDIR, [], fs)
     else do {
       sz \<leftarrow> fs_cnt_get_size fs dir_sid;
       if sz = UINT32_MAX \<or> sz < 4 then Some (- EIO, [], fs)
       else do {
         (r, buf, fs) \<leftarrow> fs_cnt_read fs dir_sid (replicate (unat sz) 0) 0 sz;
         if r \<noteq> 0 then Some (- EIO, [], fs)
         else do {
           count \<leftarrow> word_at buf 0;
           if count = 0 \<or> \<not> want then Some (sint count, [], fs)
           else do {
             es \<leftarrow> elm_loop buf sz 0 (unat count);
             Some (case es of None \<Rightarrow> (- EIO, [], fs) | Some es \<Rightarrow> (sint count, es, fs))
           }
         }
       }
     }
   }"

definition fu_add_to_dir :: "filesys \<Rightarrow> u32 \<Rightarrow> u32 \<Rightarrow> byte list \<Rightarrow> (int \<times> filesys) option" where
  "fu_add_to_dir fs dir_sid element_sid name = do {
     (d, fs) \<leftarrow> fu_is_dir fs dir_sid;
     if \<not> d then Some (- ENOTDIR, fs)
     else if chr_slash \<in> set name then Some (- EINVAL, fs)
     else do {
       sz \<leftarrow> fs_cnt_get_size fs dir_sid;
       if sz = UINT32_MAX \<or> sz < 4 then Some (- EIO, fs)
       else do {
         let new_size = sz + 4 + 4 + word_of_nat (length name) + 1;
         (r, fs) \<leftarrow> fs_cnt_set_size fs dir_sid new_size;
         if r \<noteq> 0 then Some (- EIO, fs)
         else do {
           (r, buf, fs) \<leftarrow> fs_cnt_read fs dir_sid (replicate (unat new_size) 0) 0 sz;
           if r \<noteq> 0 then Some (- EIO, fs)
           else do {
             count \<leftarrow> word_at buf 0;
             let lo = 4 + count * (4 * 2);
             let buf = (if count > 0 then move_names buf (unat lo) (unat sz) else buf);
             if unat lo + 8 > length buf then None
             else do {
               let buf = put32 buf (unat lo) element_sid;
               let name_offset = sz - 4 - count * (4 * 2);
               let buf = put32 buf (unat (lo + 4)) name_offset;
               let count = count + 1;
               let buf = put32 buf 0 count;
               let p = unat (4 + count * 4 * 2 + name_offset);
               if p + length name + 1 > length buf then None
               else do {
                 let buf = mwrite buf p (name @ [0]);
                 (r, buf, fs) \<leftarrow> fs_cnt_write fs dir_sid buf 0 new_size;
                 Some (if r \<noteq> 0 then - EIO else 0, fs)
               }
             }
           }
         }
       }
     }
   }"

text \<open>The arrays \<open>ids\<close> and \<open>name_offsets\<close>.\<close>

definition read_table :: "byte list \<Rightarrow> nat \<Rightarrow> (u32 \<times> u32) list option" where
  "read_table buf count =
     (if 4 + count * 8 \<le> length buf then Some (map (\<lambda>i. (get32 buf (4 + i * 8), get32 buf (4 + i * 8 + 4))) [0..<count]) else None)"

text \<open>The entries after the one that goes move one place down, \<open>n\<close> of them.\<close>

fun shift_entries :: "(u32 \<times> u32) list \<Rightarrow> nat \<Rightarrow> nat \<Rightarrow> byte list \<Rightarrow> byte list" where
  "shift_entries tab i 0 buf = buf"
| "shift_entries tab i (Suc n) buf =
     (let (sid, off) = tab ! Suc i in
      shift_entries (tab[i := (sid, off)]) (Suc i) n (put32 (put32 buf (4 + i * 8) sid) (4 + i * 8 + 4) off))"

definition fu_remove_from_dir :: "filesys \<Rightarrow> u32 \<Rightarrow> u32 \<Rightarrow> (int \<times> filesys) option" where
  "fu_remove_from_dir fs dir_sid element_sid = do {
     (d, fs) \<leftarrow> fu_is_dir fs dir_sid;
     if \<not> d then Some (- ENOTDIR, fs)
     else do {
       sz \<leftarrow> fs_cnt_get_size fs dir_sid;
       if sz = UINT32_MAX then Some (- EIO, fs)
       else do {
         (r, buf, fs) \<leftarrow> fs_cnt_read fs dir_sid (replicate (unat sz) 0) 0 sz;
         if r \<noteq> 0 then Some (- EIO, fs)
         else do {
           count \<leftarrow> word_at buf 0;
           if count = 0 then Some (- ENOENT, fs)
           else do {
             tab \<leftarrow> read_table buf (unat count);
             case find (\<lambda>i. fst (tab ! i) = element_sid) [0..<unat count] of
               None \<Rightarrow> Some (- ENOENT, fs)
             | Some index \<Rightarrow> do {
                 let buf = shift_entries tab index (unat count - 1 - index) buf;
                 let name_offset = unat (4 + count * 4 * 2);
                 let buf = mwrite buf (name_offset - 8) (mread buf name_offset (length buf - name_offset));
                 let buf = put32 buf 0 (count - 1);
                 (r, _, fs) \<leftarrow> fs_cnt_write fs dir_sid buf 0 (sz - 4 * 2);
                 Some (if r \<noteq> 0 then - EIO else 0, fs)
               }
           }
         }
       }
     }
   }"

section \<open>Paths\<close>

text \<open>\<open>path_to_sid_cmp\<close>: the name is not the first \<open>len\<close> bytes of the path.\<close>

fun path_to_sid_cmp :: "byte list \<Rightarrow> byte list \<Rightarrow> nat \<Rightarrow> bool" where
  "path_to_sid_cmp path name 0 \<longleftrightarrow> name \<noteq> []"
| "path_to_sid_cmp path [] (Suc n) \<longleftrightarrow> True"
| "path_to_sid_cmp [] (c # name) (Suc n) \<longleftrightarrow> True"
| "path_to_sid_cmp (p # path) (c # name) (Suc n) \<longleftrightarrow> p \<noteq> c \<or> path_to_sid_cmp path name n"

text \<open>
  The loop over the elements from \<open>j\<close> on, \<open>n\<close> of them: \<open>Inl r\<close> is the result, \<open>Inr sid\<close> the
  directory to go on in.
\<close>

fun sid_scan :: "filesys \<Rightarrow> byte list \<Rightarrow> u32 \<Rightarrow> byte list \<Rightarrow> nat \<Rightarrow> nat \<Rightarrow> nat \<Rightarrow> ((u32 + u32) \<times> filesys) option" where
  "sid_scan fs buf bsize path len j 0 = Some (Inl SID_NULL, fs)"
| "sid_scan fs buf bsize path len j (Suc n) = do {
     (offset, sid) \<leftarrow> fu_dir_get_elm buf bsize (word_of_nat j);
     if offset \<le> 0 then Some (Inl SID_NULL, fs)
     else do {
       name \<leftarrow> cstr_at buf (nat offset);
       if path = name then Some (Inl sid, fs)
       else if path_to_sid_cmp path name len then sid_scan fs buf bsize path len (Suc j) n
       else do {
         (d, fs) \<leftarrow> fu_is_dir fs sid;
         if d then Some (Inr sid, fs) else sid_scan fs buf bsize path len (Suc j) n
       }
     }
   }"

partial_function (option) rec_path_to_sid :: "filesys \<Rightarrow> u32 \<Rightarrow> byte list \<Rightarrow> (u32 \<times> filesys) option" where
  "rec_path_to_sid fs parent path =
     (let path = dropWhile (\<lambda>c. c = chr_slash) path; path_len = length (takeWhile (\<lambda>c. c \<noteq> chr_slash) path) in
      if path_len = 0 then Some (parent, fs)
      else do {
        sz \<leftarrow> fs_cnt_get_size fs parent;
        if sz = UINT32_MAX \<or> sz < 4 then Some (SID_NULL, fs)
        else do {
          (r, buf, fs) \<leftarrow> fs_cnt_read fs parent (replicate (unat sz) 0) 0 sz;
          if r \<noteq> 0 then Some (SID_NULL, fs)
          else do {
            (found, fs) \<leftarrow> sid_scan fs buf sz path path_len 0 (unat (get32 buf 0));
            case found of Inl r \<Rightarrow> Some (r, fs)
            | Inr sid \<Rightarrow> rec_path_to_sid fs sid (drop path_len path)
          }
        }
      })"

definition fu_path_to_sid :: "filesys \<Rightarrow> u32 \<Rightarrow> byte list \<Rightarrow> (u32 \<times> filesys) option" where
  "fu_path_to_sid fs from path = (if path = [chr_slash] then Some (from, fs) else rec_path_to_sid fs from path)"

text \<open>The code of \<open>fu_sep_path\<close> is that of \<open>kfu_sep_path\<close>.\<close>

definition fu_sep_path :: "byte list \<Rightarrow> byte list \<times> byte list" where
  "fu_sep_path fullpath =
     (let path = rev (dropWhile (\<lambda>c. c = chr_slash) (rev fullpath));
          tail = rev (takeWhile (\<lambda>c. c \<noteq> chr_slash) (rev path));
          i = int (length path) - int (length tail) - 1;
          parent = (if i < 0 then [] else if i = 0 then [chr_slash] else take (nat i) fullpath)
      in (parent, drop (nat (i + 1)) fullpath))"

section \<open>Creation\<close>

definition fu_dir_create :: "filesys \<Rightarrow> int \<Rightarrow> byte list \<Rightarrow> (u32 \<times> filesys) option" where
  "fu_dir_create fs device_id path = do {
     (head_sid, fs) \<leftarrow> fu_path_to_sid fs SID_ROOT path;
     if head_sid \<noteq> SID_NULL then Some (SID_NULL, fs)
     else do {
       let (parent, name) = fu_sep_path path;
       (ok, parent_sid, fs) \<leftarrow> (if parent \<noteq> [] then do {
           (parent_sid, fs) \<leftarrow> fu_path_to_sid fs SID_ROOT parent;
           (d, fs) \<leftarrow> fu_is_dir fs parent_sid;
           Some (d, parent_sid, fs)
         }
         else Some (True, SID_ROOT, fs));
       if \<not> ok then Some (SID_NULL, fs)
       else do {
         let name = rev (dropWhile (\<lambda>c. c = chr_slash) (rev name));
         if name = [] then Some (SID_NULL, fs)
         else do {
           let meta = [chr_D, chr_dash] @ take (META_MAXLEN - 3) name;
           (head_sid, fs) \<leftarrow> fs_cnt_init fs (if device_id > 0 then word_of_int device_id else sid_dev parent_sid) meta;
           if head_sid = SID_NULL then Some (SID_NULL, fs)
           else do {
             (r, fs) \<leftarrow> (if parent \<noteq> [] then fu_add_to_dir fs parent_sid head_sid name else Some (0, fs));
             if r \<noteq> 0 then Some (SID_NULL, fs)
             else do {
               (_, fs) \<leftarrow> fs_cnt_set_size fs head_sid 4;
               (_, _, fs) \<leftarrow> fs_cnt_write fs head_sid [0, 0, 0, 0] 0 4;
               (r, fs) \<leftarrow> fu_add_to_dir fs head_sid parent_sid [chr_dot, chr_dot];
               if r \<noteq> 0 then Some (SID_NULL, fs)
               else do {
                 (r, fs) \<leftarrow> fu_add_to_dir fs head_sid head_sid [chr_dot];
                 Some (if r \<noteq> 0 then SID_NULL else head_sid, fs)
               }
             }
           }
         }
       }
     }
   }"

text \<open>What \<open>fu_file_create\<close> and \<open>fu_afft_create\<close> share: the new container under its parent.\<close>

definition create_under :: "filesys \<Rightarrow> byte \<Rightarrow> int \<Rightarrow> byte list \<Rightarrow> (u32 \<times> filesys) option" where
  "create_under fs c device_id path = do {
     (head_sid, fs) \<leftarrow> fu_path_to_sid fs SID_ROOT path;
     if head_sid \<noteq> SID_NULL then Some (SID_NULL, fs)
     else do {
       let (parent, name) = fu_sep_path path;
       if parent = [] then Some (SID_NULL, fs)
       else do {
         (parent_sid, fs) \<leftarrow> fu_path_to_sid fs SID_ROOT parent;
         (d, fs) \<leftarrow> fu_is_dir fs parent_sid;
         if \<not> d then Some (SID_NULL, fs)
         else do {
           let meta = [c, chr_dash] @ take (META_MAXLEN - 3) name;
           (head_sid, fs) \<leftarrow> fs_cnt_init fs (if device_id > 0 then word_of_int device_id else sid_dev parent_sid) meta;
           if head_sid = SID_NULL then Some (SID_NULL, fs)
           else do {
             (r, fs) \<leftarrow> fu_add_to_dir fs parent_sid head_sid name;
             Some (if r \<noteq> 0 then SID_NULL else head_sid, fs)
           }
         }
       }
     }
   }"

definition fu_file_create :: "filesys \<Rightarrow> int \<Rightarrow> byte list \<Rightarrow> (u32 \<times> filesys) option" where
  "fu_file_create fs device_id path = create_under fs chr_F device_id path"

definition fu_afft_create :: "filesys \<Rightarrow> int \<Rightarrow> byte list \<Rightarrow> u32 \<Rightarrow> (u32 \<times> filesys) option" where
  "fu_afft_create fs device_id path afft_id = do {
     (head_sid, fs) \<leftarrow> create_under fs chr_A device_id path;
     if head_sid = SID_NULL then Some (SID_NULL, fs)
     else do {
       (_, fs) \<leftarrow> fs_cnt_set_size fs head_sid 4;
       (r, _, fs) \<leftarrow> fs_cnt_write fs head_sid (le32 afft_id) 0 4;
       Some (if r \<noteq> 0 then SID_NULL else head_sid, fs)
     }
   }"

section \<open>Files\<close>

definition fu_file_set_size :: "filesys \<Rightarrow> u32 \<Rightarrow> u32 \<Rightarrow> (int \<times> filesys) option" where
  "fu_file_set_size fs file_sid sz = do {
     (f, fs) \<leftarrow> fu_is_file fs file_sid;
     if \<not> f then Some (- EINVAL, fs)
     else do {
       (r, fs) \<leftarrow> fs_cnt_set_size fs file_sid sz;
       Some (if r \<noteq> 0 then - EIO else 0, fs)
     }
   }"

definition fu_file_get_size :: "filesys \<Rightarrow> u32 \<Rightarrow> (u32 \<times> filesys) option" where
  "fu_file_get_size fs file_sid = do {
     (f, fs) \<leftarrow> fu_is_file fs file_sid;
     if \<not> f then Some (UINT32_MAX, fs)
     else do {
       sz \<leftarrow> fs_cnt_get_size fs file_sid;
       Some (sz, fs)
     }
   }"

definition fu_file_read :: "filesys \<Rightarrow> u32 \<Rightarrow> byte list \<Rightarrow> u32 \<Rightarrow> u32 \<Rightarrow> (bool \<times> byte list \<times> filesys) option" where
  "fu_file_read fs file_sid buf offset sz = do {
     (f, fs) \<leftarrow> fu_is_file fs file_sid;
     if \<not> f then Some (True, buf, fs)
     else do {
       (r, buf, fs) \<leftarrow> fs_cnt_read fs file_sid buf offset sz;
       Some (r \<noteq> 0, buf, fs)
     }
   }"

definition fu_file_write :: "filesys \<Rightarrow> u32 \<Rightarrow> byte list \<Rightarrow> u32 \<Rightarrow> u32 \<Rightarrow> (bool \<times> filesys) option" where
  "fu_file_write fs file_sid buf offset sz = do {
     (f, fs) \<leftarrow> fu_is_file fs file_sid;
     if \<not> f then Some (True, fs)
     else do {
       (r, _, fs) \<leftarrow> fs_cnt_write fs file_sid buf offset sz;
       Some (r \<noteq> 0, fs)
     }
   }"

definition fu_afft_get_id :: "filesys \<Rightarrow> u32 \<Rightarrow> (int \<times> filesys) option" where
  "fu_afft_get_id fs file_sid = do {
     (a, fs) \<leftarrow> fu_is_afft fs file_sid;
     if \<not> a then Some (-1, fs)
     else do {
       sz \<leftarrow> fs_cnt_get_size fs file_sid;
       if sz \<noteq> 4 then Some (-1, fs)
       else do {
         (r, buf, fs) \<leftarrow> fs_cnt_read fs file_sid (replicate 4 0) 0 4;
         Some (if r \<noteq> 0 then -1 else sint (get32 buf 0), fs)
       }
     }
   }"

definition fu_get_vdisk_info :: "filesys \<Rightarrow> u32 list" where
  "fu_get_vdisk_info fs = word_of_nat (vdisk_count fs) # concat (map (\<lambda>i. case fs_vdisk fs (word_of_nat i) of None \<Rightarrow> []
     | Some d \<Rightarrow> [word_of_nat (i + 1), word_of_nat (used_count d), word_of_nat (vsize d)]) [0..<256])"

end
