(* ===== verification/FuDir.thy ===== *)
theory FuDir
  imports Fu
begin

text \<open>
  A directory after elements came and went: the table of entries, then an area in which the names
  stand anywhere.  Reading inverts this layout; adding appends an entry, removing takes one out.
\<close>

section \<open>The layout\<close>

definition tab_bytes :: "(u32 \<times> u32) list \<Rightarrow> byte list" where
  "tab_bytes T = concat (map (\<lambda>(s, off). le32 s @ le32 off) T)"

definition named :: "byte list \<Rightarrow> u32 \<times> u32 \<Rightarrow> entry \<Rightarrow> bool" where
  "named D e f \<longleftrightarrow> fst e = fst f \<and> cstr_at D (unat (snd e)) = Some (snd f)"

definition laid_out :: "byte list \<Rightarrow> (u32 \<times> u32) list \<Rightarrow> byte list \<Rightarrow> entry list \<Rightarrow> bool" where
  "laid_out xs T D es \<longleftrightarrow> xs = le32 (word_of_nat (length T)) @ tab_bytes T @ D \<and> list_all2 (named D) T es"

lemma tab_bytes_simps [simp]: "tab_bytes [] = []" "tab_bytes ((s, off) # T) = le32 s @ le32 off @ tab_bytes T"
  "tab_bytes (T @ T') = tab_bytes T @ tab_bytes T'"
  by (simp_all add: tab_bytes_def)

lemma length_tab_bytes [simp]: "length (tab_bytes T) = 8 * length T"
  by (induction T) auto

lemma laid_out_length:
  assumes "laid_out xs T D es"
  shows "length xs = 4 + 8 * length T + length D" and "length T = length es"
  using assms by (auto simp: laid_out_def dest: list_all2_lengthD)

lemma split_at: "i < length T \<Longrightarrow> T = take i T @ (fst (T ! i), snd (T ! i)) # drop (Suc i) T"
  by (simp add: id_take_nth_drop [symmetric])

lemma get32_entry:
  assumes "i < length T" and "length h = 4"
  shows "get32 (h @ tab_bytes T @ D) (4 + i * 8) = fst (T ! i)" and "get32 (h @ tab_bytes T @ D) (8 + i * 8) = snd (T ! i)"
proof -
  let ?a = "h @ tab_bytes (take i T)" and ?z = "tab_bytes (drop (Suc i) T) @ D"
  have t: "tab_bytes T = tab_bytes (take i T) @ le32 (fst (T ! i)) @ le32 (snd (T ! i)) @ tab_bytes (drop (Suc i) T)"
    by (subst split_at [OF assms(1)], subst tab_bytes_simps(3), subst tab_bytes_simps(2)) simp
  have l: "length ?a = 4 + i * 8" "length (?a @ le32 (fst (T ! i))) = 8 + i * 8"
    using assms by simp_all
  show "get32 (h @ tab_bytes T @ D) (4 + i * 8) = fst (T ! i)"
    using get32_at [OF l(1), of "fst (T ! i)" "le32 (snd (T ! i)) @ ?z"] unfolding t by simp
  show "get32 (h @ tab_bytes T @ D) (8 + i * 8) = snd (T ! i)"
    using get32_at [OF l(2), of "snd (T ! i)" ?z] unfolding t by simp
qed

lemma put32_entry:
  assumes "i < length T" and "length h = 4"
  shows "put32 (put32 (h @ tab_bytes T @ D) (4 + i * 8) s) (8 + i * 8) off = h @ tab_bytes (T[i := (s, off)]) @ D"
proof -
  let ?a = "h @ tab_bytes (take i T)" and ?z = "tab_bytes (drop (Suc i) T) @ D"
  have t: "tab_bytes T = tab_bytes (take i T) @ le32 (fst (T ! i)) @ le32 (snd (T ! i)) @ tab_bytes (drop (Suc i) T)"
    by (subst split_at [OF assms(1)], subst tab_bytes_simps(3), subst tab_bytes_simps(2)) simp
  have l: "length ?a = 4 + i * 8" "length (?a @ le32 s) = 8 + i * 8"
    using assms by simp_all
  have "put32 (h @ tab_bytes T @ D) (4 + i * 8) s = ?a @ le32 s @ le32 (snd (T ! i)) @ ?z"
    using mwrite_mid [OF l(1), of "le32 (fst (T ! i))" "le32 s" "le32 (snd (T ! i)) @ ?z"] unfolding t by (simp add: put32_def)
  moreover have "put32 \<dots> (8 + i * 8) off = (?a @ le32 s) @ le32 off @ ?z"
    using mwrite_mid [OF l(2), of "le32 (snd (T ! i))" "le32 off" ?z] by (simp add: put32_def)
  moreover have "tab_bytes (T[i := (s, off)]) = tab_bytes (take i T) @ le32 s @ le32 off @ tab_bytes (drop (Suc i) T)"
    using assms(1) by (simp add: upd_conv_take_nth_drop)
  ultimately show ?thesis
    by simp
qed

lemma put32_count: "length h = 4 \<Longrightarrow> put32 (h @ ys) 0 n = le32 n @ ys"
  using mwrite_mid [of "[]" 0 h "le32 n" ys] by (simp add: put32_def)

section \<open>Reading\<close>

lemma word_lt_nat: "n < 2 ^ 32 \<Longrightarrow> m < 2 ^ 32 \<Longrightarrow> (word_of_nat n :: u32) < word_of_nat m \<longleftrightarrow> n < m"
  by (simp add: word_less_nat_alt unat_word_of_nat take_bit_nat_eq_self)

lemma sint_nat:
  assumes "n < 2 ^ 31"
  shows "sint (word_of_nat n :: u32) = int n"
proof -
  have u: "unat (word_of_nat n :: u32) = n"
    by (rule unat_word_of_nat) (use assms in simp)
  show ?thesis
    using sint_small [of "word_of_nat n"] assms unfolding u by simp
qed

lemma cstr_at_less: "cstr_at D p = Some nm \<Longrightarrow> p < length D"
  by (rule ccontr) (simp add: cstr_at_def not_less)

lemma cstr_at_append: "cstr_at D p = Some nm \<Longrightarrow> cstr_at (D @ E) p = Some nm"
  by (auto simp: cstr_at_def takeWhile_append1 split: if_splits)

lemma cstr_at_shift: "cstr_at (xs @ D) (length xs + p) = cstr_at D p"
  by (simp add: cstr_at_def)

lemma get_elm:
  assumes "laid_out xs T D es" and "length xs < 2 ^ 31" and "i < length es"
  shows "\<exists>off. fu_dir_get_elm xs (word_of_nat (length xs)) (word_of_nat i) = Some (int off, fst (es ! i)) \<and>
    0 < off \<and> cstr_at xs off = Some (snd (es ! i))"
proof -
  note l = laid_out_length [OF assms(1)]
  let ?n = "length T" and ?off = "unat (snd (T ! i))"
  have xs: "xs = le32 (word_of_nat ?n) @ tab_bytes T @ D" and nm: "named D (T ! i) (es ! i)"
    using assms(1,3) by (auto simp: laid_out_def list_all2_conv_all_nth)
  have c: "cstr_at D ?off = Some (snd (es ! i))" "fst (T ! i) = fst (es ! i)"
    using nm by (simp_all add: named_def)
  have i: "i < ?n" "4 + i * 8 + 8 \<le> length xs" "4 + ?n * 8 + ?off < length xs"
    using assms(3) l cstr_at_less [OF c(1)] by simp_all
  have count: "word_at xs 0 = Some (word_of_nat ?n)"
    using get32_at [of "[]" 0 "word_of_nat ?n" "tab_bytes T @ D"] l(1) by (simp add: word_at_def xs [symmetric])
  have w: "4 + word_of_nat i * (4 * 2) = (word_of_nat (4 + i * 8) :: u32)"
    "word_of_nat (4 + i * 8) + 4 = (word_of_nat (8 + i * 8) :: u32)"
    "word_of_nat (4 + i * 8) + 4 * 2 = (word_of_nat (12 + i * 8) :: u32)"
    "4 + word_of_nat ?n * (4 * 2) + snd (T ! i) = (word_of_nat (4 + ?n * 8 + ?off) :: u32)"
    by simp_all
  have u: "unat (word_of_nat (4 + i * 8) :: u32) = 4 + i * 8" "unat (word_of_nat (8 + i * 8) :: u32) = 8 + i * 8"
    by (rule unat_word_of_nat, use i(2) assms(2) in simp)+
  have e: "word_at xs (4 + i * 8) = Some (fst (T ! i))" "word_at xs (8 + i * 8) = Some (snd (T ! i))"
    using get32_entry [OF i(1), of "le32 (word_of_nat ?n)" D] i(2) by (simp_all add: word_at_def xs [symmetric])
  have lt: "\<not> (word_of_nat (length xs) :: u32) < 4" "\<not> (word_of_nat ?n :: u32) \<le> word_of_nat i"
    "\<not> (word_of_nat (length xs) :: u32) < word_of_nat (12 + i * 8)" "\<not> (word_of_nat (length xs) :: u32) < word_of_nat (4 + ?n * 8 + ?off)"
    using word_lt_nat [of "length xs" 4] word_lt_nat [of i ?n] word_lt_nat [of "length xs" "12 + i * 8"]
      word_lt_nat [of "length xs" "4 + ?n * 8 + ?off"] i assms(2) l(1) by (simp_all add: not_le del: of_nat_add of_nat_mult)
  have s: "sint (word_of_nat (4 + ?n * 8 + ?off) :: u32) = int (4 + ?n * 8 + ?off)"
    by (rule sint_nat) (use i(3) assms(2) in simp)
  have "fu_dir_get_elm xs (word_of_nat (length xs)) (word_of_nat i) = Some (int (4 + ?n * 8 + ?off), fst (es ! i))"
    unfolding fu_dir_get_elm_def count Let_def w u e Option.bind.simps s using lt c(2)
    by (simp del: of_nat_add of_nat_mult)
  moreover have "cstr_at xs (4 + ?n * 8 + ?off) = Some (snd (es ! i))"
    using cstr_at_shift [of "le32 (word_of_nat ?n) @ tab_bytes T" D ?off] c(1) by (simp add: xs [symmetric] mult.commute)
  ultimately show ?thesis
    by (intro exI [of _ "4 + ?n * 8 + ?off"]) simp
qed

lemma get_elm_end:
  assumes "laid_out xs T D es" and "length xs < 2 ^ 31"
  shows "get32 xs 0 = word_of_nat (length es)" and "word_at xs 0 = Some (word_of_nat (length es))" and "unat (word_of_nat (length es) :: u32) = length es"
proof -
  note l = laid_out_length [OF assms(1)]
  show g: "get32 xs 0 = word_of_nat (length es)"
    using assms(1) get32_at [of "[]" 0 "word_of_nat (length es)"] l(2) by (simp add: laid_out_def)
  then show "word_at xs 0 = Some (word_of_nat (length es))"
    using l(1) by (simp add: word_at_def)
  show "unat (word_of_nat (length es) :: u32) = length es"
    by (rule unat_word_of_nat) (use l assms(2) in simp)
qed

lemma elm_loop_reads:
  assumes "laid_out xs T D es" and "length xs < 2 ^ 31" and "i + n = length es"
  shows "elm_loop xs (word_of_nat (length xs)) i n = Some (Some (drop i es))"
  using assms(3)
proof (induction n arbitrary: i)
  case (Suc n)
  have i: "i < length es" "Suc i + n = length es"
    using Suc.prems by simp_all
  obtain off where "fu_dir_get_elm xs (word_of_nat (length xs)) (word_of_nat i) = Some (int off, fst (es ! i))" "0 < off"
    "cstr_at xs off = Some (snd (es ! i))"
    using get_elm [OF assms(1,2) i(1)] by blast
  then show ?case
    using Suc.IH [OF i(2)] i(1) by (simp add: Cons_nth_drop_Suc [symmetric])
qed simp

section \<open>Adding\<close>

lemma make_room:
  fixes h D :: "byte list" and T :: "(u32 \<times> u32) list" and l :: nat
  assumes "length h = 4"
  defines "buf0 \<equiv> (h @ tab_bytes T @ D) @ replicate (9 + l) 0"
  obtains E J where "length E = 4" "length J = 4 + length D" "T \<noteq> [] \<Longrightarrow> drop 4 J = D"
    "(if T \<noteq> [] then move_names buf0 (4 + 8 * length T) (4 + 8 * length T + length D) else buf0) = (h @ tab_bytes T) @ E @ J @ replicate (Suc l) 0"
proof (cases "T = []")
  case True
  let ?r = "D @ replicate 8 (0 :: byte)"
  have "?r = take 4 ?r @ drop 4 ?r"
    by (simp only: append_take_drop_id)
  moreover have "buf0 = h @ ?r @ replicate (Suc l) 0"
    unfolding buf0_def True using replicate_add [of 8 "Suc l" "0 :: byte"] by simp
  ultimately have "buf0 = h @ take 4 ?r @ drop 4 ?r @ replicate (Suc l) 0"
    by (metis append.assoc)
  then show thesis
    using that [of "take 4 ?r" "drop 4 ?r"] True by simp
next
  case False
  let ?lo = "4 + 8 * length T" and ?rest = "D @ replicate (9 + l) (0 :: byte)"
  have b0: "buf0 = (h @ tab_bytes T) @ ?rest"
    by (simp add: buf0_def)
  have "move_names buf0 ?lo (?lo + length D) = mwrite buf0 (?lo + 8) (mread buf0 ?lo (length D))"
    by (subst move_names_mwrite) (simp_all add: buf0_def assms(1))
  also have "mread buf0 ?lo (length D) = D"
    unfolding b0 by (simp add: mread_def assms(1))
  also have "mwrite buf0 (?lo + 8) D = (h @ tab_bytes T) @ take 8 ?rest @ D @ replicate (Suc l) 0"
    unfolding b0 by (simp add: mwrite_def assms(1))
  finally have m: "move_names buf0 ?lo (?lo + length D) = (h @ tab_bytes T) @ take 4 ?rest @ (take 4 (drop 4 ?rest) @ D) @ replicate (Suc l) 0"
    using take_add [of 4 4 ?rest] by simp
  show thesis
    by (rule that [of "take 4 ?rest" "take 4 (drop 4 ?rest) @ D"]) (use m False in simp_all)
qed

lemma add_bytes:
  fixes T :: "(u32 \<times> u32) list" and D name :: "byte list" and sid :: u32
  defines "c \<equiv> length T" and "N \<equiv> length D"
    and "xs \<equiv> le32 (word_of_nat (length T)) @ tab_bytes T @ D"
  defines "buf0 \<equiv> xs @ replicate (9 + length name) 0"
  defines "buf1 \<equiv> (if 0 < c then move_names buf0 (4 + 8 * c) (length xs) else buf0)"
  defines "buf2 \<equiv> put32 (put32 (put32 buf1 (4 + 8 * c) sid) (8 + 8 * c) (word_of_nat N)) 0 (word_of_nat (Suc c))"
  assumes "list_all2 (named D) T es" and "0 \<notin> set name" and "N < 2 ^ 32"
  shows "\<exists>D'. laid_out (mwrite buf2 (4 + 8 * Suc c + N) (name @ [0])) (T @ [(sid, word_of_nat N)]) D' (es @ [(sid, name)])"
    and "length buf1 = length buf0" and "length buf2 = length buf0"
proof -
  let ?h = "le32 (word_of_nat c)"
  have h4: "length (le32 (word_of_nat (length T)) :: byte list) = 4"
    by simp
  obtain E J0 where r: "length E = 4" "length J0 = 4 + length D" "T \<noteq> [] \<Longrightarrow> drop 4 J0 = D"
    "(if T \<noteq> [] then move_names buf0 (4 + 8 * length T) (4 + 8 * length T + length D) else buf0) =
      (?h @ tab_bytes T) @ E @ J0 @ replicate (Suc (length name)) 0"
    using make_room [where T = T and D = D and l = "length name", OF h4] unfolding buf0_def xs_def c_def by metis
  have b1: "buf1 = (?h @ tab_bytes T) @ E @ J0 @ replicate (Suc (length name)) 0"
    unfolding r(4) [symmetric] by (simp add: buf1_def xs_def c_def add.assoc)
  define E' where "E' = take 4 J0"
  define J where "J = drop 4 J0"
  have ej: "J0 = E' @ J" "length E' = 4" "length J = N" "T \<noteq> [] \<Longrightarrow> J = D"
    using r(2,3) by (simp_all add: E'_def J_def N_def)
  let ?Z = "replicate (Suc (length name)) (0 :: byte)"
  show "length buf1 = length buf0"
    using r(1,2) b1 by (simp add: buf0_def xs_def c_def)
  have "put32 buf1 (4 + 8 * c) sid = (?h @ tab_bytes T @ le32 sid) @ E' @ J @ ?Z"
    using mwrite_mid [of "?h @ tab_bytes T" "4 + 8 * c" E "le32 sid" "E' @ J @ ?Z"] r(1) b1 ej by (simp add: put32_def c_def)
  moreover have "put32 \<dots> (8 + 8 * c) (word_of_nat N) = ?h @ (tab_bytes (T @ [(sid, word_of_nat N)]) @ J @ ?Z)"
    using mwrite_mid [of "?h @ tab_bytes T @ le32 sid" "8 + 8 * c" E' "le32 (word_of_nat N)" "J @ ?Z"] ej by (simp add: put32_def c_def)
  moreover have "put32 \<dots> 0 (word_of_nat (Suc c)) = le32 (word_of_nat (Suc c)) @ tab_bytes (T @ [(sid, word_of_nat N)]) @ J @ ?Z"
    by (rule put32_count) simp
  ultimately have b2: "buf2 = le32 (word_of_nat (Suc c)) @ tab_bytes (T @ [(sid, word_of_nat N)]) @ J @ ?Z"
    by (simp only: buf2_def)
  then show "length buf2 = length buf0"
    using ej(3) by (simp add: buf0_def xs_def c_def N_def)
  have "mwrite buf2 (4 + 8 * Suc c + N) (name @ [0]) = le32 (word_of_nat (Suc c)) @ tab_bytes (T @ [(sid, word_of_nat N)]) @ J @ name @ [0]"
    unfolding b2 using ej(3) mwrite_mid [of "le32 (word_of_nat (Suc c)) @ tab_bytes (T @ [(sid, word_of_nat N)]) @ J" "4 + 8 * Suc c + N" ?Z "name @ [0]" "[]"]
    by (simp add: c_def)
  moreover have "list_all2 (named (J @ name @ [0])) T es"
  proof (cases "T = []")
    case False
    then show ?thesis
      using assms(7) ej(4) by (auto simp: list_all2_conv_all_nth named_def cstr_at_append)
  qed (use assms(7) in simp)
  moreover have "named (J @ name @ [0]) (sid, word_of_nat N) (sid, name)"
  proof -
    have "unat (word_of_nat N :: u32) = N"
      by (rule unat_word_of_nat) (use assms(9) in simp)
    then show ?thesis
      using cstr_at_mid [OF ej(3) assms(8), of "[]"] by (simp add: named_def)
  qed
  ultimately show "\<exists>D'. laid_out (mwrite buf2 (4 + 8 * Suc c + N) (name @ [0])) (T @ [(sid, word_of_nat N)]) D' (es @ [(sid, name)])"
    by (intro exI [of _ "J @ name @ [0]"]) (auto simp: laid_out_def c_def list_all2_appendI)
qed

section \<open>Removing\<close>

lemma shift_entries_bytes:
  assumes "i + n + 1 = length T" and "length h = 4"
  shows "shift_entries T i n (h @ tab_bytes T @ D) = h @ tab_bytes (take i T @ drop (Suc i) T @ [last T]) @ D"
  using assms(1)
proof (induction n arbitrary: i T)
  case 0
  then have i: "i = length T - 1" "T \<noteq> []"
    by auto
  then have "take i T = butlast T" "drop (Suc i) T = []"
    by (simp_all add: butlast_conv_take)
  then show ?case
    using i(2) by simp
next
  case (Suc n)
  obtain s off where e: "T ! Suc i = (s, off)"
    by fastforce
  let ?T = "T[i := (s, off)]"
  have i: "i < length T" "Suc i + n + 1 = length ?T" "Suc i < length T"
    using Suc.prems by simp_all
  have "shift_entries T i (Suc n) (h @ tab_bytes T @ D) = shift_entries ?T (Suc i) n (h @ tab_bytes ?T @ D)"
    using e put32_entry [OF i(1) assms(2), of D s off] by (simp add: add.commute)
  also have "\<dots> = h @ tab_bytes (take (Suc i) ?T @ drop (Suc (Suc i)) ?T @ [last ?T]) @ D"
    by (rule Suc.IH [OF i(2)])
  also have "take (Suc i) ?T @ drop (Suc (Suc i)) ?T @ [last ?T] = take i T @ drop (Suc i) T @ [last T]"
  proof -
    have "T \<noteq> []"
      using i(1) by auto
    then have "last ?T = last T"
      using i(3) by (simp add: last_conv_nth)
    then show ?thesis
      using i e by (simp add: take_Suc_conv_app_nth Cons_nth_drop_Suc [symmetric])
  qed
  finally show ?case .
qed

lemma remove_bytes:
  fixes T :: "(u32 \<times> u32) list" and D :: "byte list" and i :: nat
  defines "c \<equiv> length T" and "xs \<equiv> le32 (word_of_nat (length T)) @ tab_bytes T @ D"
  defines "buf1 \<equiv> shift_entries T i (c - 1 - i) xs"
  defines "buf2 \<equiv> mwrite buf1 (4 + 8 * c - 8) (mread buf1 (4 + 8 * c) (length buf1 - (4 + 8 * c)))"
  assumes "list_all2 (named D) T es" and "i < length T"
  shows "\<exists>T' D'. laid_out (mwrite xs 0 (take (length xs - 8) (put32 buf2 0 (word_of_nat (c - 1))))) T' D' (take i es @ drop (Suc i) es)"
    and "length (put32 buf2 0 (word_of_nat (c - 1))) = length xs"
proof -
  let ?T = "take i T @ drop (Suc i) T" and ?h = "le32 (word_of_nat c)"
  have l: "length ?T = c - 1" "0 < c"
    using assms(6) by (auto simp: c_def)
  obtain E where E: "tab_bytes [last T] = E" "length E = 8"
    by simp
  have "i + (c - 1 - i) + 1 = length T"
    using assms(6) by (simp add: c_def)
  from shift_entries_bytes [OF this, of ?h D] have b1: "buf1 = (?h @ tab_bytes ?T) @ E @ D"
    using E(1) by (simp add: buf1_def xs_def c_def)
  have p: "4 + 8 * c - 8 = length (?h @ tab_bytes ?T)" "4 + 8 * c = length (?h @ tab_bytes ?T) + 8"
    using l by simp_all
  have m: "mread buf1 (4 + 8 * c) (length buf1 - (4 + 8 * c)) = D"
    unfolding b1 p(2) using E(2) by (simp add: mread_def)
  have b2: "buf2 = ?h @ tab_bytes ?T @ D @ drop (length D) (E @ D)"
  proof -
    have "buf2 = mwrite buf1 (4 + 8 * c - 8) D"
      unfolding buf2_def m ..
    then show ?thesis
      unfolding p(1) b1 using E(2) by (simp add: mwrite_def)
  qed
  then have b3: "put32 buf2 0 (word_of_nat (c - 1)) = (le32 (word_of_nat (c - 1)) @ tab_bytes ?T @ D) @ drop (length D) (E @ D)"
    using put32_count [of ?h] by simp
  have lt: "length (tab_bytes (take i T)) + length (tab_bytes (drop (Suc i) T)) = 8 * (c - 1)" "length (tab_bytes ?T) = 8 * (c - 1)"
    using l(1) by (simp_all only: length_tab_bytes length_append add_mult_distrib2 [symmetric])
  have d8: "length (drop (length D) (E @ D)) = 8"
    using E(2) by (simp del: drop_append)
  show len: "length (put32 buf2 0 (word_of_nat (c - 1))) = length xs"
    unfolding b3 length_append d8 lt using l(2) by (simp add: xs_def c_def) (cases T; simp)
  have "length xs - 8 = length (le32 (word_of_nat (c - 1)) @ tab_bytes ?T @ D)"
    unfolding length_append length_tab_bytes l(1) [unfolded length_append] using l(2) by (cases T) (simp_all add: xs_def c_def)
  then have "take (length xs - 8) (put32 buf2 0 (word_of_nat (c - 1))) = le32 (word_of_nat (c - 1)) @ tab_bytes ?T @ D"
    unfolding b3 by (simp only: append_eq_conv_conj [symmetric] append_take_drop_id) (metis append_eq_conv_conj)
  moreover have "mwrite xs 0 (take (length xs - 8) (put32 buf2 0 (word_of_nat (c - 1)))) =
      take (length xs - 8) (put32 buf2 0 (word_of_nat (c - 1))) @ drop (length xs - 8) xs"
    using len by (simp add: mwrite_def)
  ultimately have "mwrite xs 0 (take (length xs - 8) (put32 buf2 0 (word_of_nat (c - 1)))) =
      le32 (word_of_nat (length ?T)) @ tab_bytes ?T @ D @ drop (length xs - 8) xs"
    unfolding l(1) by (simp only: append_assoc)
  moreover have "list_all2 (named (D @ drop (length xs - 8) xs)) ?T (take i es @ drop (Suc i) es)"
  proof -
    have "list_all2 (named (D @ drop (length xs - 8) xs)) T es"
      using assms(5) by (auto simp: list_all2_conv_all_nth named_def cstr_at_append)
    then show ?thesis
      by (intro list_all2_appendI) (simp_all add: list_all2_takeI list_all2_dropI)
  qed
  ultimately show "\<exists>T' D'. laid_out (mwrite xs 0 (take (length xs - 8) (put32 buf2 0 (word_of_nat (c - 1))))) T' D' (take i es @ drop (Suc i) es)"
    unfolding laid_out_def by blast
qed

end
