(* ===== verification/FuStore.thy ===== *)
theory FuStore
  imports FuDir
begin

text \<open>
  The directory operations of \<open>zlibs/modules/filesys.c\<close> on the store: \<open>dir_at F sid es\<close> says that a
  directory, whatever the layout of its names, has the entries \<open>es\<close>.  A directory as the kernel
  lays it out is one of these.
\<close>

definition dir_at :: "store \<Rightarrow> u32 \<Rightarrow> entry list \<Rightarrow> bool" where
  "dir_at F sid es \<longleftrightarrow> sid \<noteq> 0 \<and>
     (\<exists>meta xs T D. F sid = Some (meta, xs) \<and> meta ! 0 = chr_D \<and> length xs \<le> cnt_max \<and> laid_out xs T D es)"

section \<open>The directories of the kernel\<close>

fun ent_tab :: "nat \<Rightarrow> entry list \<Rightarrow> (u32 \<times> u32) list" where
  "ent_tab off [] = []"
| "ent_tab off ((s, nm) # es) = (s, word_of_nat off) # ent_tab (off + length nm + 1) es"

lemma ent_tab_bytes: "tab_bytes (ent_tab off es) = ent_table off es" "length (ent_tab off es) = length es"
  by (induction off es rule: ent_tab.induct) simp_all

lemma ent_tab_named:
  assumes "ent_ok es" and "length (pre @ ent_names es) < 2 ^ 32"
  shows "list_all2 (named (pre @ ent_names es)) (ent_tab (length pre) es) es"
  using assms
proof (induction es arbitrary: pre)
  case (Cons e es)
  obtain s nm where e: "e = (s, nm)"
    by fastforce
  have n: "pre @ ent_names (e # es) = (pre @ nm @ [0]) @ ent_names es" "0 \<notin> set nm" "ent_ok es"
    using Cons.prems(1) by (auto simp: e ent_ok_def)
  have u: "unat (word_of_nat (length pre) :: u32) = length pre"
    by (rule unat_word_of_nat) (use Cons.prems(2) in simp)
  have "list_all2 (named ((pre @ nm @ [0]) @ ent_names es)) (ent_tab (length (pre @ nm @ [0])) es) es"
    by (rule Cons.IH [OF n(3)]) (use Cons.prems(2) n(1) in simp)
  moreover have "named (pre @ ent_names (e # es)) (s, word_of_nat (length pre)) (s, nm)"
    using cstr_at_mid [OF refl n(2), of pre "ent_names es"] u by (simp add: named_def e)
  ultimately show ?case
    by (simp add: e)
qed simp

lemma laid_out_dir_bytes:
  assumes "ent_ok es" and "length (dir_bytes es) < 2 ^ 32"
  shows "laid_out (dir_bytes es) (ent_tab 0 es) (ent_names es) es"
  using ent_tab_named [OF assms(1), of "[]"] assms(2) by (simp add: laid_out_def dir_bytes_def ent_tab_bytes length_dir_bytes)

lemma directory_at: "stores fs F \<Longrightarrow> is_directory F sid es \<Longrightarrow> dir_at F sid es"
  using store_get_size(2) laid_out_dir_bytes unfolding is_directory_def dir_at_def cnt_max_def by fastforce

section \<open>Reading\<close>

lemma fu_is_dir_kernel: "fu_is_dir fs sid = kfu_is_dir fs sid"
  by (simp add: fu_is_dir_def kind_of_def kfu_is_dir_def)

text \<open>What every operation reads first.\<close>

lemma dir_at_read:
  assumes "stores fs F" and "dir_at F dir es"
  obtains meta xs T D where "F dir = Some (meta, xs)" "meta ! 0 = chr_D" "laid_out xs T D es" "length xs \<le> cnt_max" "length xs < 2 ^ 31" "4 \<le> length xs" "dir \<noteq> 0"
    "fs_cnt_get_size fs dir = Some (word_of_nat (length xs))" "(word_of_nat (length xs) :: u32) \<noteq> UINT32_MAX"
    "\<not> (word_of_nat (length xs) :: u32) < 4" "unat (word_of_nat (length xs) :: u32) = length xs"
    "fs_cnt_read fs dir (replicate (length xs) 0) 0 (word_of_nat (length xs)) = Some (0, xs, fs)"
proof -
  from assms(2) obtain meta xs T D where d: "dir \<noteq> 0" "F dir = Some (meta, xs)" "meta ! 0 = chr_D" "length xs \<le> cnt_max" "laid_out xs T D es"
    unfolding dir_at_def by blast
  note size = store_get_size [OF assms(1) d(2)]
  have l: "length xs < 2 ^ 31" "4 \<le> length xs"
    using d(4) laid_out_length [OF d(5)] by (simp_all add: cnt_max_def)
  have u: "unat (word_of_nat (length xs) :: u32) = length xs"
    by (rule unat_word_of_nat) (use l(1) in simp)
  have "\<not> (word_of_nat (length xs) :: u32) < 4"
    using u l(2) by (simp add: word_less_nat_alt)
  moreover have "fs_cnt_read fs dir (replicate (length xs) 0) 0 (word_of_nat (length xs)) = Some (0, xs, fs)"
    by (rule containers.read_all [OF assms(1) d(2) u]) simp
  ultimately show thesis
    using that [OF d(2,3,5,4) l d(1) size(1) size_not_max [OF size(2)] _ u] by blast
qed

lemma dir_at_obtain:
  assumes "stores fs F" and "dir_at F dir es"
  obtains fs' meta xs T D where "F dir = Some (meta, xs)" "meta ! 0 = chr_D" "laid_out xs T D es" "length xs \<le> cnt_max" "length xs < 2 ^ 31" "4 \<le> length xs" "dir \<noteq> 0"
    "kfu_is_dir fs dir = Some (True, fs')" "stores fs' F" "\<And>dev k. fs_room fs dev k \<Longrightarrow> fs_room fs' dev k"
    "fs_cnt_get_size fs' dir = Some (word_of_nat (length xs))" "(word_of_nat (length xs) :: u32) \<noteq> UINT32_MAX"
    "\<not> (word_of_nat (length xs) :: u32) < 4" "unat (word_of_nat (length xs) :: u32) = length xs"
    "fs_cnt_read fs' dir (replicate (length xs) 0) 0 (word_of_nat (length xs)) = Some (0, xs, fs')"
proof -
  from assms(2) obtain meta xs where d: "dir \<noteq> 0" "F dir = Some (meta, xs)" "meta ! 0 = chr_D"
    unfolding dir_at_def by blast
  from is_dir_store [OF assms(1) d(2,1)] obtain fs' where
    fs': "kfu_is_dir fs dir = Some (True, fs')" "stores fs' F" "\<forall>dev k. fs_room fs dev k \<longrightarrow> fs_room fs' dev k"
    using d(3) by auto
  show thesis
    by (rule dir_at_read [OF fs'(2) assms(2)], rule that [OF _ _ _ _ _ _ _ fs'(1,2)]) (use fs'(3) in blast)+
qed

lemma count_word:
  assumes "laid_out xs T D es" and "length xs < 2 ^ 31"
  shows "sint (word_of_nat (length es) :: u32) = int (length es)" and "(word_of_nat (length es) :: u32) = 0 \<longleftrightarrow> es = []"
    and "(0 :: u32) < word_of_nat (length es) \<longleftrightarrow> es \<noteq> []"
proof -
  have u: "unat (word_of_nat (length es) :: u32) = length es"
    by (rule get_elm_end [OF assms])
  show "sint (word_of_nat (length es) :: u32) = int (length es)"
    by (rule sint_nat) (use laid_out_length [OF assms(1)] assms(2) in simp)
  show z: "(word_of_nat (length es) :: u32) = 0 \<longleftrightarrow> es = []"
    using u by (metis length_0_conv unat_eq_zero)
  then show "(0 :: u32) < word_of_nat (length es) \<longleftrightarrow> es \<noteq> []"
    by (simp add: word_gt_0)
qed

lemma fu_get_content_at:
  assumes "stores fs F" and "dir_at F dir es"
  shows "\<exists>fs'. fu_dir_get_content fs dir want = Some (int (length es), (if want then es else []), fs') \<and> stores fs' F \<and>
    (\<forall>dev k. fs_room fs dev k \<longrightarrow> fs_room fs' dev k)"
proof -
  obtain fs' meta xs T D where d: "laid_out xs T D es" "length xs < 2 ^ 31"
    "kfu_is_dir fs dir = Some (True, fs')" "stores fs' F" "\<And>dev k. fs_room fs dev k \<Longrightarrow> fs_room fs' dev k"
    "fs_cnt_get_size fs' dir = Some (word_of_nat (length xs))" "(word_of_nat (length xs) :: u32) \<noteq> UINT32_MAX"
    "\<not> (word_of_nat (length xs) :: u32) < 4" "unat (word_of_nat (length xs) :: u32) = length xs"
    "fs_cnt_read fs' dir (replicate (length xs) 0) 0 (word_of_nat (length xs)) = Some (0, xs, fs')"
    by (rule dir_at_obtain [OF assms]) blast
  note e = get_elm_end [OF d(1,2)] and c = count_word [OF d(1,2)]
  have "elm_loop xs (word_of_nat (length xs)) 0 (length es) = Some (Some es)"
    using elm_loop_reads [OF d(1,2), of 0 "length es"] by simp
  then have "fu_dir_get_content fs dir want = Some (int (length es), (if want then es else []), fs')"
    using d(3,6-10) e c by (auto simp: fu_dir_get_content_def fu_is_dir_kernel)
  then show ?thesis
    using d(4,5) by blast
qed

text \<open>The reader of the kernel finds the same entries.\<close>

lemma dir_read_loop_reads:
  assumes "laid_out xs T D es" and "length xs < 2 ^ 31" and "i + n = length es"
  shows "dir_read_loop xs (word_of_nat (length es)) i n = Some (drop i es)"
  using assms(3)
proof (induction n arbitrary: i)
  case (Suc n)
  note l = laid_out_length [OF assms(1)] and e = get_elm_end [OF assms(1,2)]
  have i: "i < length es" "Suc i + n = length es" "i < length T"
    using Suc.prems l by simp_all
  have xs: "xs = le32 (word_of_nat (length T)) @ tab_bytes T @ D" and nm: "named D (T ! i) (es ! i)"
    using assms(1) i(3) by (auto simp: laid_out_def list_all2_conv_all_nth)
  have g: "get32 xs (4 + i * 8) = fst (es ! i)" "get32 xs (4 + i * 8 + 4) = snd (T ! i)"
    using get32_entry [OF i(3), of "le32 (word_of_nat (length T))" D] nm by (simp_all add: xs [symmetric] named_def)
  have "cstr_at xs (4 + length es * 8 + unat (snd (T ! i))) = Some (snd (es ! i))"
    using cstr_at_shift [of "le32 (word_of_nat (length T)) @ tab_bytes T" D "unat (snd (T ! i))"] nm
    unfolding append_assoc xs [symmetric] by (simp add: l(2) named_def mult.commute)
  then show ?case
    using Suc.IH [OF i(2)] i(1) l g e(3) by (simp add: Cons_nth_drop_Suc [symmetric])
qed simp

lemma kfu_get_content_at:
  assumes "stores fs F" and "dir_at F dir es"
  shows "\<exists>fs'. kfu_get_dir_content fs dir want = Some (int (length es), (if want then es else []), fs') \<and> stores fs' F \<and>
    (\<forall>dev k. fs_room fs dev k \<longrightarrow> fs_room fs' dev k)"
proof -
  obtain fs' meta xs T D where d: "laid_out xs T D es" "length xs < 2 ^ 31" "4 \<le> length xs"
    "kfu_is_dir fs dir = Some (True, fs')" "stores fs' F" "\<And>dev k. fs_room fs dev k \<Longrightarrow> fs_room fs' dev k"
    "fs_cnt_get_size fs' dir = Some (word_of_nat (length xs))" "(word_of_nat (length xs) :: u32) \<noteq> UINT32_MAX"
    "unat (word_of_nat (length xs) :: u32) = length xs"
    "fs_cnt_read fs' dir (replicate (length xs) 0) 0 (word_of_nat (length xs)) = Some (0, xs, fs')"
    by (rule dir_at_obtain [OF assms]) blast
  note e = get_elm_end [OF d(1,2)] and c = count_word [OF d(1,2)]
  have "dir_read_loop xs (word_of_nat (length es)) 0 (length es) = Some es"
    using dir_read_loop_reads [OF d(1,2), of 0 "length es"] by simp
  then have "kfu_get_dir_content fs dir want = Some (int (length es), (if want then es else []), fs')"
    using d(3,4,7-10) e c by (auto simp: kfu_get_dir_content_def)
  then show ?thesis
    using d(5,6) by blast
qed

section \<open>Adding\<close>

lemma unat_nat32: "n < 2 ^ 31 \<Longrightarrow> unat (word_of_nat n :: u32) = n"
  by (rule unat_word_of_nat) simp

lemma fu_add_at:
  assumes "stores fs F" and "dir_at F dir es" and "F dir = Some (meta, xs)" and "0 \<notin> set name" and "chr_slash \<notin> set name"
    and "length xs + 9 + length name \<le> cnt_max" and "fs_room fs (sid_dev dir) (2 * new_cores (length xs + 9 + length name) + k)"
  shows "\<exists>fs' ys. fu_add_to_dir fs dir sid name = Some (0, fs') \<and> length ys = length xs + 9 + length name \<and>
    stores fs' (F(dir \<mapsto> (meta, ys))) \<and> dir_at (F(dir \<mapsto> (meta, ys))) dir (es @ [(sid, name)]) \<and> fs_room fs' (sid_dev dir) k"
proof -
  obtain fs0 T D where d: "meta ! 0 = chr_D" "laid_out xs T D es" "length xs < 2 ^ 31" "4 \<le> length xs" "dir \<noteq> 0"
    "kfu_is_dir fs dir = Some (True, fs0)" "stores fs0 F" "fs_room fs0 (sid_dev dir) (2 * new_cores (length xs + 9 + length name) + k)"
    "fs_cnt_get_size fs0 dir = Some (word_of_nat (length xs))" "(word_of_nat (length xs) :: u32) \<noteq> UINT32_MAX"
    "\<not> (word_of_nat (length xs) :: u32) < 4" "unat (word_of_nat (length xs) :: u32) = length xs"
    by (rule dir_at_obtain [OF assms(1,2)]) (use assms(3,7) in auto)
  define n where "n = length xs + 9 + length name"
  define nw :: u32 where "nw = word_of_nat n"
  let ?m = "word_of_nat (length xs) :: u32" and ?c = "length es" and ?cw = "word_of_nat (length es) :: u32"
  have n31: "n < 2 ^ 31"
    using assms(6) by (simp add: n_def cnt_max_def)
  note l = laid_out_length [OF d(2)] and ge = get_elm_end [OF d(2,3)] and cw = count_word [OF d(2,3)]
  have un: "unat nw = n"
    unfolding nw_def by (rule unat_nat32 [OF n31])
  have nw: "?m + 4 + 4 + word_of_nat (length name) + 1 = nw"
    by (simp add: nw_def n_def)
  obtain fs1 where fs1: "fs_cnt_set_size fs0 dir nw = Some (0, fs1)"
    "\<And>buf. length buf = unat nw \<Longrightarrow> fs_cnt_read fs1 dir buf 0 ?m = Some (0, mwrite buf 0 xs, fs1)"
    "\<And>ys. length ys = unat nw \<Longrightarrow> \<exists>s2. fs_cnt_write fs1 dir ys 0 nw = Some (0, ys, s2) \<and>
       stores s2 (F(dir \<mapsto> (meta, ys))) \<and> fs_room s2 (sid_dev dir) k"
    by (rule containers.rewrite [OF d(7) assms(3) _ d(12), of nw k]) (use un assms(6) d(8) in \<open>auto simp: n_def\<close>)
  have b0: "mwrite (replicate n 0) 0 xs = xs @ replicate (9 + length name) 0"
    by (simp add: mwrite_def n_def del: replicate_append_same)
  have xs: "xs = le32 (word_of_nat (length T)) @ tab_bytes T @ D" and nm: "list_all2 (named D) T es"
    using d(2) by (simp_all add: laid_out_def)
  have N: "length D < 2 ^ 32"
    using l(1) d(3) by simp
  let ?buf0 = "xs @ replicate (9 + length name) 0"
  have read: "fs_cnt_read fs1 dir (replicate n 0) 0 ?m = Some (0, ?buf0, fs1)"
    using fs1(2) [of "replicate n 0"] un b0 by simp
  have rd0: "word_at ?buf0 0 = Some ?cw"
  proof -
    have "get32 ?buf0 0 = get32 xs 0"
      using d(4) by (simp add: get32_def mread_def)
    then show ?thesis
      using ge(1) d(4) by (simp add: word_at_def)
  qed
  have small: "8 + 8 * ?c < 2 ^ 31" "4 + 8 * ?c < 2 ^ 31" "4 + 8 * Suc ?c + length D < 2 ^ 31"
    using n31 l by (simp_all add: n_def)
  have lo: "unat (4 + ?cw * (4 * 2)) = 4 + 8 * ?c" "unat (4 + ?cw * (4 * 2) + 4) = 8 + 8 * ?c"
    using unat_nat32 [OF small(2)] unat_nat32 [OF small(1)] by (simp_all add: mult.commute add.commute)
  have off: "?m - 4 - ?cw * (4 * 2) = word_of_nat (length D)"
    unfolding l(1) l(2) by (simp add: algebra_simps)
  have pos: "unat (4 + word_of_nat (Suc ?c) * 4 * 2 + word_of_nat (length D) :: u32) = 4 + 8 * Suc ?c + length D"
    using unat_nat32 [OF small(3)] by (simp add: algebra_simps)
  have pos0: "0 < ?cw \<longleftrightarrow> 0 < ?c"
    using cw(3) by simp
  have suc: "?cw + 1 = word_of_nat (Suc ?c)"
    by simp
  define buf1 where "buf1 = (if 0 < ?c then move_names ?buf0 (4 + 8 * ?c) (length xs) else ?buf0)"
  define buf2 where "buf2 = put32 (put32 (put32 buf1 (4 + 8 * ?c) sid) (8 + 8 * ?c) (word_of_nat (length D))) 0 (word_of_nat (Suc ?c))"
  define ys where "ys = mwrite buf2 (4 + 8 * Suc ?c + length D) (name @ [0])"
  note bytes = add_bytes(1) [OF nm assms(4) N, of sid] add_bytes(2) [OF nm assms(4) N] add_bytes(3) [OF nm assms(4) N, of sid]
  note add = bytes [folded xs, unfolded l(2), folded buf1_def, folded buf2_def, folded ys_def]
  have ly: "length ys = n"
    using add(3) l(1,2) by (simp add: ys_def n_def)
  obtain fs2 where fs2: "fs_cnt_write fs1 dir ys 0 nw = Some (0, ys, fs2)" "stores fs2 (F(dir \<mapsto> (meta, ys)))" "fs_room fs2 (sid_dev dir) k"
    using fs1(3) [of ys] ly un by auto
  have lens: "(4 + 8 * ?c + 8 > length buf1) = False" "(4 + 8 * Suc ?c + length D + length name + 1 > length buf2) = False"
    using add(2,3) l(1,2) by simp_all
  have tests: "(?m = UINT32_MAX \<or> ?m < 4) = False" "(chr_slash \<in> set name) = False" "((0 :: int) \<noteq> 0) = False"
    using d(10,11) assms(5) by simp_all
  have "fu_add_to_dir fs dir sid name = Some (0, fs2)"
    unfolding fu_add_to_dir_def fu_is_dir_kernel
    by (simp only: d(6,9) fs1(1) un nw read rd0 fs2(1) tests if_False if_True Option.bind.simps prod.case Let_def
        not_True_eq_False lo off pos pos0 d(12) buf1_def [symmetric] suc buf2_def [symmetric] lens ys_def [symmetric])
  moreover have "dir_at (F(dir \<mapsto> (meta, ys))) dir (es @ [(sid, name)])"
    using add(1) d(1,5) ly assms(6) unfolding dir_at_def n_def by auto
  ultimately show ?thesis
    using fs2(2,3) ly n_def by blast
qed

section \<open>Removing\<close>

definition drop_entry :: "u32 \<Rightarrow> entry list \<Rightarrow> entry list" where
  "drop_entry sid es = takeWhile (\<lambda>e. fst e \<noteq> sid) es @ tl (dropWhile (\<lambda>e. fst e \<noteq> sid) es)"

lemma takeWhile_short: "\<exists>x\<in>set xs. P x \<Longrightarrow> length (takeWhile (\<lambda>x. \<not> P x) xs) < length xs"
  by (induction xs) auto

lemma find_index:
  "find (\<lambda>i. P (xs ! i)) [0..<length xs] = (if \<exists>x\<in>set xs. P x then Some (length (takeWhile (\<lambda>x. \<not> P x) xs)) else None)"
proof (cases "\<exists>x\<in>set xs. P x")
  case True
  let ?k = "length (takeWhile (\<lambda>x. \<not> P x) xs)"
  have k: "?k < length xs"
    by (rule takeWhile_short [OF True])
  then have "P (xs ! ?k)"
    using nth_length_takeWhile by blast
  moreover have "\<not> P (xs ! j)" if "j < ?k" for j
    using that by (metis nth_mem set_takeWhileD takeWhile_nth)
  ultimately have "find (\<lambda>i. P (xs ! i)) [0..<length xs] = Some ?k"
    unfolding find_Some_iff using k by (intro exI [of _ ?k]) simp
  then show ?thesis
    using True by simp
next
  case False
  then show ?thesis
    by (simp add: find_None_iff)
qed

lemma drop_entry_at:
  assumes "\<exists>e\<in>set es. fst e = sid"
  defines "i \<equiv> length (takeWhile (\<lambda>e. fst e \<noteq> sid) es)"
  shows "take i es @ drop (Suc i) es = drop_entry sid es" and "i < length es"
  using takeWhile_short [OF assms(1)]
  by (simp_all add: drop_entry_def i_def takeWhile_eq_take [symmetric] dropWhile_eq_drop drop_Suc tl_drop)

lemma read_table_reads:
  assumes "laid_out xs T D es"
  shows "read_table xs (length es) = Some T"
proof -
  note l = laid_out_length [OF assms]
  have xs: "xs = le32 (word_of_nat (length T)) @ tab_bytes T @ D"
    using assms by (simp add: laid_out_def)
  have "(get32 xs (4 + i * 8), get32 xs (4 + i * 8 + 4)) = T ! i" if "i < length T" for i
    using get32_entry [OF that, of "le32 (word_of_nat (length T))" D] unfolding xs [symmetric] by simp
  then have "map (\<lambda>i. (get32 xs (4 + i * 8), get32 xs (4 + i * 8 + 4))) [0..<length T] = T"
    by (intro nth_equalityI) simp_all
  then show ?thesis
    using l by (simp add: read_table_def)
qed

lemma find_entry:
  assumes "laid_out xs T D es"
  shows "find (\<lambda>i. fst (T ! i) = sid) [0..<length es] =
    (if \<exists>e\<in>set es. fst e = sid then Some (length (takeWhile (\<lambda>e. fst e \<noteq> sid) es)) else None)"
proof -
  have "list_all2 (named D) T es" and l: "length T = length es"
    using assms laid_out_length [OF assms] by (simp_all add: laid_out_def)
  then have "\<forall>i\<in>set [0..<length es]. fst (T ! i) = fst (es ! i)"
    by (simp add: list_all2_conv_all_nth named_def)
  then have "find (\<lambda>i. fst (T ! i) = sid) [0..<length es] = find (\<lambda>i. fst (es ! i) = sid) [0..<length es]"
    by (intro find_cong) simp_all
  then show ?thesis
    using find_index [of "\<lambda>e. fst e = sid" es] by simp
qed

lemma fu_remove_at:
  assumes "stores fs F" and "dir_at F dir es" and "F dir = Some (meta, xs)" and "\<exists>e\<in>set es. fst e = sid"
  shows "\<exists>fs' ys. fu_remove_from_dir fs dir sid = Some (0, fs') \<and> length ys = length xs \<and>
    stores fs' (F(dir \<mapsto> (meta, ys))) \<and> dir_at (F(dir \<mapsto> (meta, ys))) dir (drop_entry sid es) \<and>
    (\<forall>dev k. fs_room fs dev k \<longrightarrow> fs_room fs' dev k)"
proof -
  obtain fs0 T D where d: "meta ! 0 = chr_D" "laid_out xs T D es" "length xs < 2 ^ 31" "length xs \<le> cnt_max" "dir \<noteq> 0"
    "kfu_is_dir fs dir = Some (True, fs0)" "stores fs0 F" "\<forall>dev k. fs_room fs dev k \<longrightarrow> fs_room fs0 dev k"
    "fs_cnt_get_size fs0 dir = Some (word_of_nat (length xs))" "(word_of_nat (length xs) :: u32) \<noteq> UINT32_MAX"
    "unat (word_of_nat (length xs) :: u32) = length xs" "fs_cnt_read fs0 dir (replicate (length xs) 0) 0 (word_of_nat (length xs)) = Some (0, xs, fs0)"
    by (rule dir_at_obtain [OF assms(1,2)]) (use assms(3) in auto)
  let ?m = "word_of_nat (length xs) :: u32" and ?c = "length es" and ?cw = "word_of_nat (length es) :: u32"
  let ?i = "length (takeWhile (\<lambda>e. fst e \<noteq> sid) es)"
  note l = laid_out_length [OF d(2)] and ge = get_elm_end [OF d(2,3)] and cw = count_word [OF d(2,3)]
  note drop = drop_entry_at [OF assms(4)]
  have xs: "xs = le32 (word_of_nat (length T)) @ tab_bytes T @ D" and nm: "list_all2 (named D) T es" and iT: "?i < length T"
    using d(2) drop(2) l(2) by (simp_all add: laid_out_def)
  have pos: "unat (4 + ?cw * 4 * 2) = 4 + 8 * ?c"
    using unat_nat32 [of "4 + 8 * ?c"] l d(3) by (simp add: mult.commute)
  have pred: "?cw - 1 = word_of_nat (?c - 1)"
    using drop(2) by (cases es) simp_all
  have m8: "?m - 4 * 2 = word_of_nat (length xs - 8)" "unat (word_of_nat (length xs - 8) :: u32) = length xs - 8"
    using unat_nat32 [of "length xs - 8"] l drop(2) d(3) by (cases es; simp)+
  define buf1 where "buf1 = shift_entries T ?i (?c - 1 - ?i) xs"
  define buf2 where "buf2 = mwrite buf1 (4 + 8 * ?c - 8) (mread buf1 (4 + 8 * ?c) (length buf1 - (4 + 8 * ?c)))"
  define buf3 where "buf3 = put32 buf2 0 (word_of_nat (?c - 1))"
  note bytes = remove_bytes [OF nm iT, folded xs, unfolded l(2), folded buf1_def, folded buf2_def, folded buf3_def]
  obtain fs1 where fs1: "fs_cnt_write fs0 dir buf3 0 (word_of_nat (length xs - 8)) = Some (0, buf3, fs1)"
    "stores fs1 (F(dir \<mapsto> (meta, mwrite xs 0 (take (length xs - 8) buf3))))" "\<forall>dev k. fs_room fs0 dev k \<longrightarrow> fs_room fs1 dev k"
    using store_write [OF d(7) assms(3), of 0 "word_of_nat (length xs - 8)" buf3] m8(2) bytes(2) by auto
  have found: "find (\<lambda>i. fst (T ! i) = sid) [0..<?c] = Some ?i"
    using find_entry [OF d(2), of sid] assms(4) by simp
  have tests: "(?m = UINT32_MAX) = False" "((0 :: int) \<noteq> 0) = False" "(?cw = 0) = False"
    using d(10) cw(2) drop(2) by auto
  have "fu_remove_from_dir fs dir sid = Some (0, fs1)"
    unfolding fu_remove_from_dir_def fu_is_dir_kernel
    by (simp only: d(6,9,11,12) ge(2,3) read_table_reads [OF d(2)] found tests if_False if_True Option.bind.simps prod.case Let_def
        option.case not_True_eq_False pos buf1_def [symmetric] buf2_def [symmetric] pred buf3_def [symmetric] m8(1) fs1(1))
  moreover have "dir_at (F(dir \<mapsto> (meta, mwrite xs 0 (take (length xs - 8) buf3)))) dir (drop_entry sid es)"
    using bytes(1) d(1,4,5) bytes(2) unfolding dir_at_def drop(1) by auto
  ultimately show ?thesis
    using fs1(2,3) d(8) bytes(2) by (intro exI [of _ fs1] exI [of _ "mwrite xs 0 (take (length xs - 8) buf3)"]) simp
qed

lemma fu_remove_missing:
  assumes "stores fs F" and "dir_at F dir es" and "\<forall>e\<in>set es. fst e \<noteq> sid"
  shows "\<exists>fs'. fu_remove_from_dir fs dir sid = Some (- ENOENT, fs') \<and> stores fs' F \<and> (\<forall>dev k. fs_room fs dev k \<longrightarrow> fs_room fs' dev k)"
proof -
  obtain fs0 xs T D where d: "laid_out xs T D es" "length xs < 2 ^ 31"
    "kfu_is_dir fs dir = Some (True, fs0)" "stores fs0 F" "\<forall>dev k. fs_room fs dev k \<longrightarrow> fs_room fs0 dev k"
    "fs_cnt_get_size fs0 dir = Some (word_of_nat (length xs))" "(word_of_nat (length xs) :: u32) \<noteq> UINT32_MAX"
    "unat (word_of_nat (length xs) :: u32) = length xs" "fs_cnt_read fs0 dir (replicate (length xs) 0) 0 (word_of_nat (length xs)) = Some (0, xs, fs0)"
    by (rule dir_at_obtain [OF assms(1,2)]) blast
  have "fu_remove_from_dir fs dir sid = Some (- ENOENT, fs0)"
    using d(3,6-9) get_elm_end [OF d(1,2)] read_table_reads [OF d(1)] find_entry [OF d(1), of sid] assms(3)
    by (auto simp: fu_remove_from_dir_def fu_is_dir_kernel)
  then show ?thesis
    using d(4,5) by blast
qed

end
