(* ===== verification/FuPaths.thy ===== *)
theory FuPaths
  imports FuStore
begin

text \<open>
  Paths as programs give them: any number of slashes between the components, before the first and
  after the last.  \<open>components\<close> is what the path names, \<open>walk\<close> what it means in the tree of
  directories; \<open>fu_path_to_sid\<close> computes it for every path.
\<close>

section \<open>What a path means\<close>

function components :: "byte list \<Rightarrow> byte list list" where
  "components path =
     (let p = dropWhile (\<lambda>c. c = chr_slash) path in
      if p = [] then [] else takeWhile (\<lambda>c. c \<noteq> chr_slash) p # components (dropWhile (\<lambda>c. c \<noteq> chr_slash) p))"
  by auto

lemma next_component_shorter:
  assumes "p' = dropWhile (\<lambda>c. c = chr_slash) path" and "p' \<noteq> []"
  shows "length (dropWhile (\<lambda>c. c \<noteq> chr_slash) p') < length path"
proof -
  obtain x p where p: "p' = x # p"
    using assms(2) by (auto simp: neq_Nil_conv)
  have "hd p' \<noteq> chr_slash"
    using hd_dropWhile [of "\<lambda>c. c = chr_slash" path] assms by simp
  then have "length (dropWhile (\<lambda>c. c \<noteq> chr_slash) p') \<le> length p"
    using p by (simp add: length_dropWhile_le)
  moreover have "length (x # p) \<le> length path"
    using length_dropWhile_le [of "\<lambda>c. c = chr_slash" path] assms p by simp
  ultimately show ?thesis
    by simp
qed

termination components
  by (relation "measure length") (simp, simp only: in_measure next_component_shorter not_False_eq_True)

declare components.simps [simp del]

definition trailing :: "byte list \<Rightarrow> bool" where
  "trailing path \<longleftrightarrow> path \<noteq> [] \<and> last path = chr_slash"

text \<open>The last component is looked up whatever it is, unless a slash follows; all others are directories.\<close>

definition lookup_name :: "tree \<Rightarrow> u32 \<Rightarrow> (entry \<Rightarrow> bool) \<Rightarrow> u32 option" where
  "lookup_name G d P = (case G d of None \<Rightarrow> None | Some es \<Rightarrow> map_option fst (find P es))"

fun walk :: "tree \<Rightarrow> u32 \<Rightarrow> byte list list \<Rightarrow> bool \<Rightarrow> u32" where
  "walk G d [] tr = d"
| "walk G d (c # cs) tr =
     (if cs = [] \<and> \<not> tr then (case lookup_name G d (\<lambda>(s, nm). nm = c) of None \<Rightarrow> SID_NULL | Some s \<Rightarrow> s)
      else case lookup_name G d (\<lambda>(s, nm). nm = c \<and> G s \<noteq> None) of None \<Rightarrow> SID_NULL | Some s \<Rightarrow> walk G s cs tr)"

definition tree_at :: "store \<Rightarrow> tree \<Rightarrow> bool" where
  "tree_at F G \<longleftrightarrow>
     (\<forall>d es. G d = Some es \<longrightarrow> dir_at F d es \<and> (\<forall>(s, nm)\<in>set es. name_ok nm \<and> s \<noteq> 0 \<and> F s \<noteq> None)) \<and>
     (\<forall>s meta xs. F s = Some (meta, xs) \<longrightarrow> G s = None \<longrightarrow> meta ! 0 \<noteq> chr_D)"

lemma tree_atD:
  assumes "tree_at F G" and "G d = Some es"
  shows "dir_at F d es" and "(s, nm) \<in> set es \<Longrightarrow> name_ok nm \<and> s \<noteq> 0 \<and> F s \<noteq> None"
  using assms unfolding tree_at_def by blast+

lemma tree_at_not: "tree_at F G \<Longrightarrow> F s = Some (meta, xs) \<Longrightarrow> meta ! 0 = chr_D \<longleftrightarrow> G s \<noteq> None"
  unfolding tree_at_def dir_at_def by fastforce

lemma tree_of_at: "stores fs F \<Longrightarrow> tree_of F G \<Longrightarrow> tree_at F G"
  using directory_at unfolding tree_of_def tree_at_def by blast

section \<open>The lookup\<close>

lemma path_to_sid_cmp_iff: "n \<le> length path \<Longrightarrow> path_to_sid_cmp path name n \<longleftrightarrow> name \<noteq> take n path"
  by (induction path name n rule: path_to_sid_cmp.induct) auto

text \<open>What the loop over the entries finds.\<close>

fun scan_of :: "tree \<Rightarrow> byte list \<Rightarrow> byte list \<Rightarrow> entry list \<Rightarrow> u32 + u32" where
  "scan_of G path c [] = Inl SID_NULL"
| "scan_of G path c ((s, nm) # es) =
     (if path = nm then Inl s else if nm = c \<and> G s \<noteq> None then Inr s else scan_of G path c es)"

lemma sid_scan_finds:
  assumes "tree_at F G" and "laid_out xs T D es" and "length xs < 2 ^ 31" and "len \<le> length path"
    and "\<forall>(s, nm)\<in>set es. s \<noteq> 0 \<and> F s \<noteq> None" and "stores fs F" and "j + n = length es"
  shows "\<exists>fs'. sid_scan fs xs (word_of_nat (length xs)) path len j n = Some (scan_of G path (take len path) (drop j es), fs') \<and>
    stores fs' F \<and> (\<forall>dev k. fs_room fs dev k \<longrightarrow> fs_room fs' dev k)"
  using assms(6,7)
proof (induction n arbitrary: fs j)
  case (Suc n)
  have j: "j < length es" "Suc j + n = length es"
    using Suc.prems(2) by simp_all
  obtain s nm where e: "es ! j = (s, nm)" "drop j es = (s, nm) # drop (Suc j) es"
    using Cons_nth_drop_Suc [OF j(1)] by (metis surj_pair)
  obtain off where g: "fu_dir_get_elm xs (word_of_nat (length xs)) (word_of_nat j) = Some (int off, s)" "0 < off" "cstr_at xs off = Some nm"
    using get_elm [OF assms(2,3) j(1)] e(1) by auto
  have "s \<noteq> 0 \<and> F s \<noteq> None"
    using assms(5) nth_mem [OF j(1)] e(1) by fastforce
  then obtain meta ys where s: "s \<noteq> 0" "F s = Some (meta, ys)"
    by fastforce
  obtain fs1 where fs1: "kfu_is_dir fs s = Some (G s \<noteq> None, fs1)" "stores fs1 F" "\<forall>dev k. fs_room fs dev k \<longrightarrow> fs_room fs1 dev k"
    using is_dir_store [OF Suc.prems(1) s(2,1)] tree_at_not [OF assms(1) s(2)] by auto
  show ?case
  proof (cases "path = nm \<or> nm \<noteq> take len path \<or> G s \<noteq> None")
    case True
    then show ?thesis
      using Suc.IH [OF Suc.prems(1) j(2)] Suc.prems(1) fs1 g e(2)
      by (auto simp: path_to_sid_cmp_iff [OF assms(4)] fu_is_dir_kernel)
  next
    case False
    then show ?thesis
      using Suc.IH [OF fs1(2) j(2)] fs1 g e(2) by (auto simp: path_to_sid_cmp_iff [OF assms(4)] fu_is_dir_kernel)
  qed
qed (use assms in auto)

lemma scan_of_last:
  "scan_of G c c es = Inl (case find (\<lambda>(s, nm). nm = c) es of None \<Rightarrow> SID_NULL | Some (s, _) \<Rightarrow> s)"
  by (induction es) auto

lemma scan_of_dir:
  "\<forall>(s, nm)\<in>set es. nm \<noteq> path \<Longrightarrow>
    scan_of G path c es = (case find (\<lambda>(s, nm). nm = c \<and> G s \<noteq> None) es of None \<Rightarrow> Inl SID_NULL | Some (s, _) \<Rightarrow> Inr s)"
  by (induction es) (auto split: if_splits)

lemma components_next:
  assumes "dropWhile (\<lambda>c. c = chr_slash) path = p" and "p \<noteq> []"
  defines "c \<equiv> takeWhile (\<lambda>c. c \<noteq> chr_slash) p" and "rest \<equiv> dropWhile (\<lambda>c. c \<noteq> chr_slash) p"
  shows "components path = c # components rest" and "c \<noteq> []" and "p = c @ rest"
    and "rest = [] \<longleftrightarrow> components rest = [] \<and> \<not> trailing path" and "rest \<noteq> [] \<Longrightarrow> trailing rest = trailing path \<and> chr_slash \<in> set p"
proof -
  show "components path = c # components rest"
    using assms(1,2) by (subst components.simps) (simp add: c_def rest_def)
  show p: "p = c @ rest"
    by (simp add: c_def rest_def)
  have "hd p \<noteq> chr_slash"
    using hd_dropWhile [of "\<lambda>c. c = chr_slash" path] assms(1,2) by simp
  then show "c \<noteq> []"
    using assms(2) by (cases p) (simp_all add: c_def)
  then have "last c \<noteq> chr_slash"
    using last_in_set [of c] set_takeWhileD [of "last c" "\<lambda>c. c \<noteq> chr_slash" p] unfolding c_def by blast
  have "path = takeWhile (\<lambda>c. c = chr_slash) path @ p"
    using assms(1) takeWhile_dropWhile_id by metis
  then have lp: "path \<noteq> []" "last path = last p"
    using assms(2) by (metis append_is_Nil_conv, metis last_appendR)
  have hr: "rest \<noteq> [] \<Longrightarrow> hd rest = chr_slash"
    using hd_dropWhile [of "\<lambda>c. c \<noteq> chr_slash" p] by (simp add: rest_def)
  show "rest \<noteq> [] \<Longrightarrow> trailing rest = trailing path \<and> chr_slash \<in> set p"
  proof
    assume r: "rest \<noteq> []"
    then show "trailing rest = trailing path"
      using lp p by (simp add: trailing_def)
    show "chr_slash \<in> set p"
      using hr [OF r] hd_in_set [OF r] p by (metis Un_iff set_append)
  qed
  show "rest = [] \<longleftrightarrow> components rest = [] \<and> \<not> trailing path"
  proof (cases "rest = []")
    case True
    then show ?thesis
      using p lp \<open>last c \<noteq> chr_slash\<close> by (simp add: trailing_def components.simps)
  next
    case False
    have "trailing path" if "components rest = []"
    proof -
      have "dropWhile (\<lambda>c. c = chr_slash) rest = []"
        by (rule ccontr) (use that in \<open>simp add: components.simps [of rest] Let_def split: if_splits\<close>)
      then have "last rest = chr_slash"
        using last_in_set [OF False] by (simp add: dropWhile_eq_Nil_conv)
      then show ?thesis
        using False lp p by (simp add: trailing_def)
    qed
    then show ?thesis
      using False by blast
  qed
qed

lemma rec_path_walks:
  assumes "tree_at F G" and "stores fs F" and "G d \<noteq> None"
  shows "\<exists>fs'. rec_path_to_sid fs d path = Some (walk G d (components path) (trailing path), fs') \<and> stores fs' F \<and>
    (\<forall>dev k. fs_room fs dev k \<longrightarrow> fs_room fs' dev k)"
  using assms(2,3)
proof (induction "length path" arbitrary: path fs d rule: less_induct)
  case less
  define p where "p = dropWhile (\<lambda>c. c = chr_slash) path"
  show ?case
  proof (cases "p = []")
    case True
    then show ?thesis
      using less.prems by (subst rec_path_to_sid.simps) (subst components.simps, simp add: Let_def True p_def [symmetric])
  next
    case False
    define c rest where "c = takeWhile (\<lambda>c. c \<noteq> chr_slash) p" and "rest = dropWhile (\<lambda>c. c \<noteq> chr_slash) p"
    note n = components_next [OF p_def [symmetric] False, folded c_def rest_def]
    obtain es where es: "G d = Some es"
      using less.prems(2) by blast
    note ents = tree_atD [OF assms(1) es]
    obtain xs T D where r: "laid_out xs T D es" "length xs < 2 ^ 31"
      "fs_cnt_get_size fs d = Some (word_of_nat (length xs))" "(word_of_nat (length xs) :: u32) \<noteq> UINT32_MAX"
      "\<not> (word_of_nat (length xs) :: u32) < 4" "unat (word_of_nat (length xs) :: u32) = length xs"
      "fs_cnt_read fs d (replicate (length xs) 0) 0 (word_of_nat (length xs)) = Some (0, xs, fs)"
      by (rule dir_at_read [OF less.prems(1) ents(1)]) blast
    have len: "length c \<le> length p" "take (length c) p = c" "drop (length c) p = rest"
      using n(3) by simp_all
    have "\<forall>(s, nm)\<in>set es. s \<noteq> 0 \<and> F s \<noteq> None"
      using ents(2) by blast
    from sid_scan_finds [OF assms(1) r(1,2) len(1) this less.prems(1), of 0 "length es"] obtain fs1 where
      s: "sid_scan fs xs (word_of_nat (length xs)) p (length c) 0 (length es) = Some (scan_of G p c es, fs1)" "stores fs1 F"
        "\<forall>dev k. fs_room fs dev k \<longrightarrow> fs_room fs1 dev k"
      unfolding len(2) by auto
    have unfold: "rec_path_to_sid fs d path =
        (case scan_of G p c es of Inl r \<Rightarrow> Some (r, fs1) | Inr sid \<Rightarrow> rec_path_to_sid fs1 sid rest)"
      using n(2) r(3-7) s(1) get_elm_end [OF r(1,2)] by (subst rec_path_to_sid.simps) (simp add: Let_def p_def [symmetric] c_def [symmetric] len(3) split: sum.split)
    show ?thesis
    proof (cases "rest = []")
      case True
      then have pc: "p = c"
        using n(3) by simp
      have "scan_of G p c es = Inl (case find (\<lambda>(s, nm). nm = c) es of None \<Rightarrow> SID_NULL | Some (s, _) \<Rightarrow> s)"
        using scan_of_last [of G c es] by (simp only: pc)
      moreover have "walk G d (components path) (trailing path) = (case find (\<lambda>(s, nm). nm = c) es of None \<Rightarrow> SID_NULL | Some (s, _) \<Rightarrow> s)"
        using n(1,4) True es by (auto simp: lookup_name_def split: option.split)
      ultimately have "rec_path_to_sid fs d path = Some (walk G d (components path) (trailing path), fs1)"
        unfolding unfold by simp
      then show ?thesis
        using s(2,3) by blast
    next
      case rest: False
      have "\<forall>(s, nm)\<in>set es. nm \<noteq> p"
        using ents(2) n(5) rest by (auto simp: name_ok_def)
      note scan = scan_of_dir [OF this, of G c]
      have "\<not> (components rest = [] \<and> \<not> trailing path)"
        using n(4) rest by simp
      then have w: "walk G d (components path) (trailing path) = (case lookup_name G d (\<lambda>(s, nm). nm = c \<and> G s \<noteq> None) of
          None \<Rightarrow> SID_NULL | Some s \<Rightarrow> walk G s (components rest) (trailing path))"
        unfolding n(1) by (simp only: walk.simps if_False)
      show ?thesis
      proof (cases "find (\<lambda>(s, nm). nm = c \<and> G s \<noteq> None) es")
        case None
        then have "rec_path_to_sid fs d path = Some (walk G d (components path) (trailing path), fs1)"
          using unfold es unfolding scan w by (simp add: lookup_name_def)
        then show ?thesis
          using s(2,3) by blast
      next
        case (Some e)
        then have ge: "G (fst e) \<noteq> None"
          by (auto simp: find_Some_iff split_beta)
        have "length rest < length path"
          unfolding rest_def by (rule next_component_shorter [OF p_def False])
        from less.hyps [OF this s(2) ge] obtain fs2 where
          "rec_path_to_sid fs1 (fst e) rest = Some (walk G (fst e) (components rest) (trailing rest), fs2)" "stores fs2 F"
          "\<forall>dev k. fs_room fs1 dev k \<longrightarrow> fs_room fs2 dev k"
          by blast
        then show ?thesis
          using unfold n(5) rest es s(3) Some unfolding scan w by (auto simp: lookup_name_def split_beta)
      qed
    qed
  qed
qed

lemma fu_path_walks:
  assumes "tree_at F G" and "stores fs F" and "G from \<noteq> None"
  shows "\<exists>fs'. fu_path_to_sid fs from path = Some (walk G from (components path) (trailing path), fs') \<and> stores fs' F \<and>
    (\<forall>dev k. fs_room fs dev k \<longrightarrow> fs_room fs' dev k)"
proof (cases "path = [chr_slash]")
  case True
  have "components [chr_slash] = []"
    by (subst components.simps) simp
  then show ?thesis
    using assms(2) True by (simp add: fu_path_to_sid_def)
qed (use rec_path_walks [OF assms] in \<open>simp add: fu_path_to_sid_def\<close>)

section \<open>The lookup of the kernel\<close>

lemma components_path_of: "\<forall>c\<in>set cs. name_ok c \<Longrightarrow> components (path_of cs) = cs \<and> components (chr_slash # path_of cs) = cs"
proof (induction cs rule: path_of.induct)
  case 1
  then show ?case
    by (simp add: components.simps)
next
  case (2 c)
  have c: "dropWhile (\<lambda>x. x = chr_slash) c = c" "takeWhile (\<lambda>x. x \<noteq> chr_slash) c = c" "dropWhile (\<lambda>x. x \<noteq> chr_slash) c = []" "c \<noteq> []"
    using 2 by (cases c; auto simp: name_ok_def takeWhile_eq_all_conv)+
  show ?case
    by (subst (1 2) components.simps) (simp add: c Let_def components.simps [of "[]"] del: dropWhile_eq_Nil_conv)
next
  case (3 c c' cs)
  let ?p = "c @ chr_slash # path_of (c' # cs)"
  have "\<forall>x\<in>set c. x \<noteq> chr_slash" "c \<noteq> []"
    using 3(2) by (auto simp: name_ok_def)
  then have c: "dropWhile (\<lambda>x. x = chr_slash) ?p = ?p" "takeWhile (\<lambda>x. x \<noteq> chr_slash) ?p = c"
    "dropWhile (\<lambda>x. x \<noteq> chr_slash) ?p = chr_slash # path_of (c' # cs)"
    by (cases c; auto simp: takeWhile_append dropWhile_append)+
  have "components (chr_slash # path_of (c' # cs)) = c' # cs"
    using 3 by simp
  then show ?case
    using c by (subst (1 2) components.simps) (simp add: Let_def del: dropWhile_eq_Nil_conv)
qed

lemma not_trailing_abs: "\<forall>c\<in>set cs. name_ok c \<Longrightarrow> cs \<noteq> [] \<Longrightarrow> \<not> trailing (abs_path cs)"
proof (induction cs rule: path_of.induct)
  case (2 c)
  then have "last c \<noteq> chr_slash"
    using last_in_set [of c] by (metis list.set_intros(1) name_ok_def)
  then show ?case
    using 2 by (auto simp: trailing_def abs_path_def name_ok_def)
next
  case (3 c c' cs)
  then show ?case
    by (simp add: trailing_def abs_path_def split: if_splits)
qed simp

lemma walk_resolve:
  assumes "\<forall>d. G d \<noteq> Some []" and "cs \<noteq> []"
  shows "walk G d cs False = resolve G d cs"
  using assms
proof (induction G d cs rule: resolve.induct)
  case (3 G d c c' cs)
  have "open_dir G = (\<lambda>s. G s \<noteq> None)"
  proof
    fix s
    show "open_dir G s = (G s \<noteq> None)"
      using 3(2) [rule_format, of s] by (cases "G s") (simp_all add: open_dir_def)
  qed
  then show ?case
    using 3 by (auto simp: lookup_name_def split: option.splits)
qed (auto simp: lookup_name_def split: option.splits)

lemma walk_locate:
  assumes "\<forall>d. G d \<noteq> Some []" and "\<forall>c\<in>set cs. name_ok c"
  shows "walk G SID_ROOT (components (abs_path cs)) (trailing (abs_path cs)) = locate G cs"
  using components_path_of [OF assms(2)] not_trailing_abs [OF assms(2)] walk_resolve [OF assms(1)]
  by (cases "cs = []") (simp_all add: abs_path_def locate_def)

section \<open>Creation\<close>

lemma fu_sep_path_kernel: "fu_sep_path = kfu_sep_path"
  by (simp add: fun_eq_iff fu_sep_path_def kfu_sep_path_def)

text \<open>A directory with other entries, a new container or none.\<close>

lemma tree_at_set:
  assumes "tree_at F G" and "dir_at F' p es'"
    and "\<forall>(s, nm)\<in>set es'. name_ok nm \<and> s \<noteq> 0 \<and> F' s \<noteq> None"
    and "\<And>s. s \<noteq> p \<Longrightarrow> F' s \<noteq> F s \<Longrightarrow> F s = None \<and> (\<forall>meta xs. F' s = Some (meta, xs) \<longrightarrow> meta ! 0 \<noteq> chr_D)"
  shows "tree_at F' (G(p \<mapsto> es'))"
proof -
  have p: "F' p \<noteq> None"
    using assms(2) by (auto simp: dir_at_def)
  have same: "F' s = F s" if "F s \<noteq> None" "s \<noteq> p" for s
    by (rule ccontr) (use assms(4) [OF that(2)] that(1) in blast)
  then have mono: "F' s \<noteq> None" if "F s \<noteq> None" for s
    using p that by (cases "s = p") simp_all
  have "dir_at F' d e \<and> (\<forall>(s, nm)\<in>set e. name_ok nm \<and> s \<noteq> 0 \<and> F' s \<noteq> None)" if g: "(G(p \<mapsto> es')) d = Some e" for d e
  proof (cases "d = p")
    case True
    then show ?thesis
      using g assms(2,3) by simp
  next
    case False
    then have G: "G d = Some e"
      using g by simp
    note t = tree_atD [OF assms(1) G]
    have "F' d = F d"
      using t(1) False same by (auto simp: dir_at_def)
    then show ?thesis
      using t mono by (auto simp: dir_at_def)
  qed
  moreover have "meta ! 0 \<noteq> chr_D" if "F' s = Some (meta, xs)" "(G(p \<mapsto> es')) s = None" for s meta xs
  proof (cases "F' s = F s")
    case True
    then show ?thesis
      using that tree_at_not [OF assms(1), of s meta xs] by (simp split: if_splits)
  next
    case False
    then show ?thesis
      using that assms(4) by (auto split: if_splits)
  qed
  ultimately show ?thesis
    unfolding tree_at_def by blast
qed

lemma create_under_at:
  assumes "tree_at F G" and "stores fs F" and "G SID_ROOT \<noteq> None" and "name_ok name"
    and "walk G SID_ROOT (components path) (trailing path) = SID_NULL" and "fu_sep_path path = (parent, name)" and "parent \<noteq> []"
    and "walk G SID_ROOT (components parent) (trailing parent) = p" and "G p = Some es" and "F p = Some (meta, xs)"
    and "length xs + 9 + length name \<le> cnt_max" and "sid_dev p \<noteq> 0" and "c \<noteq> chr_D"
    and "fs_room fs (sid_dev p) (2 * new_cores (length xs + 9 + length name) + k + 2)" and "device_id \<le> 0"
  shows "\<exists>sid fs' ys. create_under fs c device_id path = Some (sid, fs') \<and> sid \<noteq> 0 \<and> F sid = None \<and> sid_dev sid = sid_dev p \<and>
    stores fs' (F(sid \<mapsto> (meta_str ([c, chr_dash] @ take 61 name), []), p \<mapsto> (meta, ys))) \<and>
    tree_at (F(sid \<mapsto> (meta_str ([c, chr_dash] @ take 61 name), []), p \<mapsto> (meta, ys))) (G(p \<mapsto> es @ [(sid, name)])) \<and>
    fs_room fs' (sid_dev p) k"
proof -
  let ?m = "[c, chr_dash] @ take 61 name"
  obtain fs1 where fs1: "fu_path_to_sid fs SID_ROOT path = Some (0, fs1)" "stores fs1 F" "\<forall>dev k. fs_room fs dev k \<longrightarrow> fs_room fs1 dev k"
    using fu_path_walks [OF assms(1-3), of path] assms(5) by (auto simp: SID_NULL_def)
  obtain fs2 where fs2: "fu_path_to_sid fs1 SID_ROOT parent = Some (p, fs2)" "stores fs2 F" "\<forall>dev k. fs_room fs1 dev k \<longrightarrow> fs_room fs2 dev k"
    using fu_path_walks [OF assms(1) fs1(2) assms(3), of parent] assms(8) by auto
  note ents = tree_atD [OF assms(1,9)]
  obtain fs3 where fs3: "kfu_is_dir fs2 p = Some (True, fs3)" "stores fs3 F" "\<And>dev k. fs_room fs2 dev k \<Longrightarrow> fs_room fs3 dev k"
    by (rule dir_at_obtain [OF fs2(2) ents(1)]) blast
  have room: "fs_room fs3 (sid_dev p) (Suc (Suc (2 * new_cores (length xs + 9 + length name) + k)))"
    using fs1(3) fs2(3) fs3(3) assms(14) by simp
  from store_init [OF fs3(2) room assms(12), of ?m] obtain sid fs4 where
    i: "fs_cnt_init fs3 (sid_dev p) ?m = Some (sid, fs4)" "sid \<noteq> 0" "sid_dev sid = sid_dev p" "F sid = None"
      "stores fs4 (F(sid \<mapsto> (meta_str ?m, [])))" "fs_room fs4 (sid_dev p) (2 * new_cores (length xs + 9 + length name) + k)"
    by blast
  have psid: "p \<noteq> sid"
    using assms(10) i(4) by auto
  have n: "0 \<notin> set name" "chr_slash \<notin> set name"
    using assms(4) by (simp_all add: name_ok_def)
  have dir: "dir_at (F(sid \<mapsto> (meta_str ?m, []))) p es" "(F(sid \<mapsto> (meta_str ?m, []))) p = Some (meta, xs)"
    using ents(1) psid assms(10) by (simp_all add: dir_at_def)
  from fu_add_at [OF i(5) dir n assms(11) i(6), of sid] obtain fs5 ys where
    a: "fu_add_to_dir fs4 p sid name = Some (0, fs5)" "stores fs5 (F(sid \<mapsto> (meta_str ?m, []), p \<mapsto> (meta, ys)))"
      "dir_at (F(sid \<mapsto> (meta_str ?m, []), p \<mapsto> (meta, ys))) p (es @ [(sid, name)])" "fs_room fs5 (sid_dev p) k"
    by blast
  have "create_under fs c device_id path = Some (sid, fs5)"
    using fs1(1) fs2(1) fs3(1) i(1,2) a(1) assms(6,7,15)
    by (simp add: create_under_def SID_NULL_def META_MAXLEN_def fu_is_dir_kernel)
  moreover have "tree_at (F(sid \<mapsto> (meta_str ?m, []), p \<mapsto> (meta, ys))) (G(p \<mapsto> es @ [(sid, name)]))"
    by (rule tree_at_set [OF assms(1) a(3)])
      (use ents(2) assms(4,13) i(2,4) psid in \<open>auto simp: meta_str_hd split: if_splits\<close>)
  ultimately show ?thesis
    using i a by blast
qed

lemma remove_tree_at:
  assumes "tree_at F G" and "stores fs F" and "G p = Some es" and "F p = Some (meta, xs)" and "\<exists>e\<in>set es. fst e = sid"
  shows "\<exists>fs' ys. fu_remove_from_dir fs p sid = Some (0, fs') \<and> length ys = length xs \<and> stores fs' (F(p \<mapsto> (meta, ys))) \<and>
    tree_at (F(p \<mapsto> (meta, ys))) (G(p \<mapsto> drop_entry sid es)) \<and> (\<forall>dev k. fs_room fs dev k \<longrightarrow> fs_room fs' dev k)"
proof -
  note ents = tree_atD [OF assms(1,3)]
  from fu_remove_at [OF assms(2) ents(1) assms(4,5)] obtain fs' ys where
    r: "fu_remove_from_dir fs p sid = Some (0, fs')" "length ys = length xs" "stores fs' (F(p \<mapsto> (meta, ys)))"
      "dir_at (F(p \<mapsto> (meta, ys))) p (drop_entry sid es)" "\<forall>dev k. fs_room fs dev k \<longrightarrow> fs_room fs' dev k"
    by blast
  have "set (drop_entry sid es) \<subseteq> set es"
    unfolding drop_entry_at(1) [OF assms(5), symmetric] using set_take_subset set_drop_subset by fastforce
  then have "\<forall>(s, nm)\<in>set (drop_entry sid es). name_ok nm \<and> s \<noteq> 0 \<and> (F(p \<mapsto> (meta, ys))) s \<noteq> None"
    using ents(2) by auto
  then have "tree_at (F(p \<mapsto> (meta, ys))) (G(p \<mapsto> drop_entry sid es))"
    by (rule tree_at_set [OF assms(1) r(4)]) (auto split: if_splits)
  then show ?thesis
    using r by blast
qed

end
