(* ===== verification/FuCreate.thy ===== *)
theory FuCreate
  imports FuPaths
begin

text \<open>
  Creation by programs: files and directories under a path, and what lookups find afterwards.
\<close>

section \<open>Lookups after a change\<close>

lemma walk_null: "G 0 = None \<Longrightarrow> G d = None \<Longrightarrow> cs \<noteq> [] \<Longrightarrow> walk G d cs tr = 0"
  by (cases cs) (simp_all add: lookup_name_def SID_NULL_def)

lemma walk_snoc:
  assumes "G 0 = None"
  shows "walk G d (cs @ [c]) False = (case lookup_name G (walk G d cs True) (\<lambda>(s, nm). nm = c) of None \<Rightarrow> SID_NULL | Some s \<Rightarrow> s)"
proof (induction cs arbitrary: d)
  case (Cons c' cs)
  then show ?case
    using assms by (auto simp: lookup_name_def SID_NULL_def split: option.splits)
qed simp

lemma find_stronger: "find P xs = Some x \<Longrightarrow> Q x \<Longrightarrow> find (\<lambda>x. P x \<and> Q x) xs = Some x"
  by (induction xs) (auto split: if_splits)

lemma walk_dir:
  assumes "G 0 = None" and "G (walk G d cs False) \<noteq> None"
  shows "walk G d cs True = walk G d cs False"
  using assms(2)
proof (induction cs arbitrary: d)
  case (Cons c cs)
  show ?case
  proof (cases "cs = []")
    case True
    with Cons.prems assms(1) obtain es e where e: "G d = Some es" "find (\<lambda>(s, nm). nm = c) es = Some e" "G (fst e) \<noteq> None"
      by (auto simp: lookup_name_def SID_NULL_def split: option.splits)
    have "find (\<lambda>(s, nm). nm = c \<and> G s \<noteq> None) es = Some e"
      using find_stronger [OF e(2), of "\<lambda>e. G (fst e) \<noteq> None"] e(3) by (simp add: case_prod_unfold)
    then show ?thesis
      using True e by (simp add: lookup_name_def)
  next
    case False
    then show ?thesis
      using Cons assms(1) by (auto simp: SID_NULL_def split: option.splits)
  qed
qed simp

lemma find_append: "find P (xs @ ys) = (case find P xs of None \<Rightarrow> find P ys | Some x \<Rightarrow> Some x)"
  by (induction xs) auto

lemma walk_more:
  assumes "G 0 = None" and "G p = Some es" and "G (walk G d cs True) \<noteq> None"
  shows "walk (G(p \<mapsto> es @ es')) d cs True = walk G d cs True"
  using assms(3)
proof (induction cs arbitrary: d)
  case (Cons c cs)
  obtain s where s: "lookup_name G d (\<lambda>(s, nm). nm = c \<and> G s \<noteq> None) = Some s" "walk G d (c # cs) True = walk G s cs True"
    using Cons.prems assms(1) by (auto simp: SID_NULL_def split: option.splits)
  have dom: "(G(p \<mapsto> es @ es')) x \<noteq> None \<longleftrightarrow> G x \<noteq> None" for x
    using assms(2) by simp
  have "lookup_name (G(p \<mapsto> es @ es')) d (\<lambda>(s, nm). nm = c \<and> (G(p \<mapsto> es @ es')) s \<noteq> None) = Some s"
    unfolding dom using s(1) assms(2) by (auto simp: lookup_name_def find_append split: option.splits if_splits)
  then show ?case
    using Cons.IH [of s] Cons.prems s(2) by (simp del: fun_upd_apply)
qed simp

lemma drop_entry_new: "\<forall>e\<in>set es. fst e \<noteq> sid \<Longrightarrow> drop_entry sid (es @ [(sid, name)]) = es"
  by (simp add: drop_entry_def takeWhile_append2 dropWhile_append2)

section \<open>A file of a program\<close>

lemma tree_null: "tree_at F G \<Longrightarrow> G 0 = None"
  using tree_atD(1) [of F G 0] by (cases "G 0") (auto simp: dir_at_def)

lemma parent_walk:
  assumes "tree_at F G" and "\<forall>c\<in>set cs. name_ok c" and "walk G SID_ROOT cs False = p" and "G p = Some es"
  shows "walk G SID_ROOT (components (abs_path cs)) (trailing (abs_path cs)) = p" and "walk G SID_ROOT cs True = p"
proof -
  show "walk G SID_ROOT cs True = p"
    using walk_dir [where G = G, OF tree_null [OF assms(1)], of SID_ROOT cs] assms(3,4) by simp
  then show "walk G SID_ROOT (components (abs_path cs)) (trailing (abs_path cs)) = p"
    using components_path_of [OF assms(2)] assms(3) by (cases "trailing (abs_path cs)") (simp_all add: abs_path_def)
qed

lemma fu_create_file:
  assumes "tree_at F G" and "stores fs F" and "G SID_ROOT \<noteq> None" and "\<forall>c\<in>set cs. name_ok c" and "name_ok name"
    and "walk G SID_ROOT (cs @ [name]) False = SID_NULL" and "walk G SID_ROOT cs False = p" and "G p = Some es" and "F p = Some (meta, xs)"
    and "length xs + 9 + length name \<le> cnt_max" and "sid_dev p \<noteq> 0"
    and "fs_room fs (sid_dev p) (2 * new_cores (length xs + 9 + length name) + k + 2)"
  shows "\<exists>sid fs' ys. fu_file_create fs 0 (abs_path (cs @ [name])) = Some (sid, fs') \<and> sid \<noteq> 0 \<and> F sid = None \<and>
    stores fs' (F(sid \<mapsto> (meta_str ([chr_F, chr_dash] @ take 61 name), []), p \<mapsto> (meta, ys))) \<and>
    tree_at (F(sid \<mapsto> (meta_str ([chr_F, chr_dash] @ take 61 name), []), p \<mapsto> (meta, ys))) (G(p \<mapsto> es @ [(sid, name)])) \<and>
    fs_room fs' (sid_dev p) k \<and> walk (G(p \<mapsto> es @ [(sid, name)])) SID_ROOT (cs @ [name]) False = sid"
proof -
  have z: "G 0 = None"
    by (rule tree_null [OF assms(1)])
  have names: "\<forall>c\<in>set (cs @ [name]). name_ok c"
    using assms(4,5) by simp
  have path: "components (abs_path (cs @ [name])) = cs @ [name]" "\<not> trailing (abs_path (cs @ [name]))" "components (abs_path cs) = cs"
    using components_path_of [OF names] components_path_of [OF assms(4)] not_trailing_abs [OF names] by (simp_all add: abs_path_def)
  note parent = parent_walk(1) [OF assms(1,4,7,8)] and dir = parent_walk(2) [OF assms(1,4,7,8)]
  have none: "walk G SID_ROOT (components (abs_path (cs @ [name]))) (trailing (abs_path (cs @ [name]))) = SID_NULL"
    unfolding path(1) using path(2) assms(6) by simp
  have sep: "fu_sep_path (abs_path (cs @ [name])) = (abs_path cs, name)"
    unfolding fu_sep_path_kernel by (rule sep_path_snoc [OF assms(5)])
  have ne: "abs_path cs \<noteq> []" "chr_F \<noteq> chr_D" "(0 :: int) \<le> 0"
    by (simp_all add: abs_path_def chr_defs)
  from create_under_at [OF assms(1-3,5) none sep ne(1) parent assms(8-11) ne(2) assms(12) ne(3)] obtain sid fs' ys where
    c: "create_under fs chr_F 0 (abs_path (cs @ [name])) = Some (sid, fs')" "sid \<noteq> 0" "F sid = None"
      "stores fs' (F(sid \<mapsto> (meta_str ([chr_F, chr_dash] @ take 61 name), []), p \<mapsto> (meta, ys)))"
      "tree_at (F(sid \<mapsto> (meta_str ([chr_F, chr_dash] @ take 61 name), []), p \<mapsto> (meta, ys))) (G(p \<mapsto> es @ [(sid, name)]))"
      "fs_room fs' (sid_dev p) k"
    by blast
  have "find (\<lambda>(s, nm). nm = name) es = None"
  proof (rule ccontr)
    assume "find (\<lambda>(s, nm). nm = name) es \<noteq> None"
    then obtain s nm where s: "find (\<lambda>(s, nm). nm = name) es = Some (s, nm)"
      by fastforce
    then have "(s, nm) \<in> set es"
      by (metis find_Some_iff nth_mem)
    moreover have "s = SID_NULL"
      using assms(6,8) dir s unfolding walk_snoc [where G = G, OF z] by (simp add: lookup_name_def)
    ultimately show False
      using tree_atD(2) [OF assms(1,8)] by (auto simp: SID_NULL_def)
  qed
  moreover have "G (walk G SID_ROOT cs True) \<noteq> None"
    using dir assms(8) by simp
  note walk_more [where G = G, OF z assms(8) this, of "[(sid, name)]"]
  moreover have "(G(p \<mapsto> es @ [(sid, name)])) 0 = None"
    using z assms(8) by auto
  note walk_snoc [where G = "G(p \<mapsto> es @ [(sid, name)])", OF this, of SID_ROOT cs name]
  ultimately have "walk (G(p \<mapsto> es @ [(sid, name)])) SID_ROOT (cs @ [name]) False = sid"
    using dir by (simp add: lookup_name_def find_append)
  then show ?thesis
    using c by (auto simp: fu_file_create_def)
qed

section \<open>A directory of a program\<close>

lemma fu_dir_setup:
  assumes "stores fs F" and "F sid = Some (meta, [])" and "meta ! 0 = chr_D" and "sid \<noteq> 0" and "fs_room fs (sid_dev sid) (k + 6)"
  shows "\<exists>fs1 b fs2 fs3 fs4 ys. fs_cnt_set_size fs sid 4 = Some (0, fs1) \<and> fs_cnt_write fs1 sid [0, 0, 0, 0] 0 4 = Some (0, b, fs2) \<and>
    fu_add_to_dir fs2 sid p [chr_dot, chr_dot] = Some (0, fs3) \<and> fu_add_to_dir fs3 sid sid [chr_dot] = Some (0, fs4) \<and>
    stores fs4 (F(sid \<mapsto> (meta, ys))) \<and> dir_at (F(sid \<mapsto> (meta, ys))) sid [(p, [chr_dot, chr_dot]), (sid, [chr_dot])] \<and>
    fs_room fs4 (sid_dev sid) k"
proof -
  have nc: "new_cores 4 = 1" "new_cores (4 + 9 + length [chr_dot, chr_dot]) = 1" "new_cores (15 + 9 + length [chr_dot]) = 1"
    by (simp_all add: new_cores_def)
  have room0: "fs_room fs (sid_dev sid) (2 * new_cores (unat (4 :: u32)) + (k + 4))"
    by (rule fs_room_mono [OF assms(5)]) (simp add: nc)
  obtain fs1 zs where z: "fs_cnt_set_size fs sid 4 = Some (0, fs1)" "length zs = 4" "stores fs1 (F(sid \<mapsto> (meta, zs)))" "fs_room fs1 (sid_dev sid) (k + 4)"
    using store_set_size [OF assms(1,2) _ room0] by (auto simp: cnt_max_def)
  have Fz: "(F(sid \<mapsto> (meta, zs))) sid = Some (meta, zs)"
    by simp
  obtain fs2 where w: "fs_cnt_write fs1 sid [0, 0, 0, 0] 0 4 = Some (0, [0, 0, 0, 0], fs2)" "stores fs2 (F(sid \<mapsto> (meta, [0, 0, 0, 0])))" "fs_room fs2 (sid_dev sid) (k + 4)"
    using store_write [OF z(3) Fz, of 0 4 "[0, 0, 0, 0]", unfolded fun_upd_upd] z(2,4) by (auto simp: mwrite_all simp del: fun_upd_apply)
  let ?F0 = "F(sid \<mapsto> (meta, [0, 0, 0, 0]))"
  have "laid_out [0, 0, 0, 0] [] [] []"
    by (simp add: laid_out_def le32_def)
  then have d0: "dir_at ?F0 sid []" "?F0 sid = Some (meta, [0, 0, 0, 0])"
    using assms(3,4) by (auto simp: dir_at_def cnt_max_def)
  have n: "0 \<notin> set [chr_dot, chr_dot]" "chr_slash \<notin> set [chr_dot, chr_dot]" "0 \<notin> set [chr_dot]" "chr_slash \<notin> set [chr_dot]"
    by (simp_all add: chr_defs)
  have room1: "fs_room fs2 (sid_dev sid) (2 * new_cores (length [0 :: byte, 0, 0, 0] + 9 + length [chr_dot, chr_dot]) + (k + 2))"
    by (rule fs_room_mono [OF w(3)]) (simp add: nc [simplified])
  obtain fs3 ys where a: "fu_add_to_dir fs2 sid p [chr_dot, chr_dot] = Some (0, fs3)" "length ys = 15" "stores fs3 (F(sid \<mapsto> (meta, ys)))"
    "dir_at (F(sid \<mapsto> (meta, ys))) sid [(p, [chr_dot, chr_dot])]" "fs_room fs3 (sid_dev sid) (k + 2)"
    using fu_add_at [OF w(2) d0 n(1,2) _ room1, of p, unfolded fun_upd_upd] by (auto simp: cnt_max_def simp del: fun_upd_apply)
  have Fy: "(F(sid \<mapsto> (meta, ys))) sid = Some (meta, ys)"
    by simp
  have room2: "fs_room fs3 (sid_dev sid) (2 * new_cores (length ys + 9 + length [chr_dot]) + k)"
    unfolding a(2) by (rule fs_room_mono [OF a(5)]) (simp add: nc [simplified])
  obtain fs4 ys' where "fu_add_to_dir fs3 sid sid [chr_dot] = Some (0, fs4)" "stores fs4 (F(sid \<mapsto> (meta, ys')))"
    "dir_at (F(sid \<mapsto> (meta, ys'))) sid [(p, [chr_dot, chr_dot]), (sid, [chr_dot])]" "fs_room fs4 (sid_dev sid) k"
    using fu_add_at [OF a(3,4) Fy n(3,4) _ room2, of sid, unfolded fun_upd_upd] a(2) by (auto simp: cnt_max_def simp del: fun_upd_apply)
  then show ?thesis
    using z(1) w(1) a(1) by blast
qed

lemma fu_create_dir:
  assumes "tree_at F G" and "stores fs F" and "G SID_ROOT \<noteq> None" and "\<forall>c\<in>set cs. name_ok c" and "name_ok name"
    and "walk G SID_ROOT (cs @ [name]) False = SID_NULL" and "walk G SID_ROOT cs False = p" and "G p = Some es" and "F p = Some (meta, xs)"
    and "length xs + 9 + length name \<le> cnt_max" and "sid_dev p \<noteq> 0"
    and "fs_room fs (sid_dev p) (2 * new_cores (length xs + 9 + length name) + k + 8)"
  shows "\<exists>sid fs' F'. fu_dir_create fs 0 (abs_path (cs @ [name])) = Some (sid, fs') \<and> sid \<noteq> 0 \<and> F sid = None \<and>
    stores fs' F' \<and> (\<forall>s. s \<noteq> sid \<longrightarrow> s \<noteq> p \<longrightarrow> F' s = F s) \<and>
    tree_at F' (G(sid \<mapsto> [(p, [chr_dot, chr_dot]), (sid, [chr_dot])], p \<mapsto> es @ [(sid, name)])) \<and> fs_room fs' (sid_dev p) k"
proof -
  let ?m = "[chr_D, chr_dash] @ take 61 name" and ?sub = "\<lambda>sid. [(p, [chr_dot, chr_dot]), (sid, [chr_dot])]"
  have names: "\<forall>c\<in>set (cs @ [name]). name_ok c"
    using assms(4,5) by simp
  have path: "components (abs_path (cs @ [name])) = cs @ [name]" "\<not> trailing (abs_path (cs @ [name]))" "components (abs_path cs) = cs"
    using components_path_of [OF names] components_path_of [OF assms(4)] not_trailing_abs [OF names] by (simp_all add: abs_path_def)
  obtain fs1 where fs1: "fu_path_to_sid fs SID_ROOT (abs_path (cs @ [name])) = Some (SID_NULL, fs1)" "stores fs1 F" "\<forall>dev k. fs_room fs dev k \<longrightarrow> fs_room fs1 dev k"
    using fu_path_walks [OF assms(1-3), of "abs_path (cs @ [name])"] assms(6) path(2) unfolding path(1)
    by (cases "trailing (abs_path (cs @ [name]))") auto
  have parent: "walk G SID_ROOT (components (abs_path cs)) (trailing (abs_path cs)) = p"
    by (rule parent_walk [OF assms(1,4,7,8)])
  then obtain fs2 where fs2: "fu_path_to_sid fs1 SID_ROOT (abs_path cs) = Some (p, fs2)" "stores fs2 F" "\<forall>dev k. fs_room fs1 dev k \<longrightarrow> fs_room fs2 dev k"
    using fu_path_walks [OF assms(1) fs1(2) assms(3), of "abs_path cs"] by auto
  note ents = tree_atD [OF assms(1,8)]
  obtain fs3 where fs3: "kfu_is_dir fs2 p = Some (True, fs3)" "stores fs3 F" "\<And>dev k. fs_room fs2 dev k \<Longrightarrow> fs_room fs3 dev k"
    by (rule dir_at_obtain [OF fs2(2) ents(1)]) blast
  have room: "fs_room fs3 (sid_dev p) (Suc (Suc (2 * new_cores (length xs + 9 + length name) + (k + 6))))"
    using fs1(3) fs2(3) fs3(3) [of "sid_dev p" "2 * new_cores (length xs + 9 + length name) + k + 8"] assms(12) by (simp add: ac_simps)
  from store_init [OF fs3(2) room assms(11), of ?m] obtain sid fs4 where
    i: "fs_cnt_init fs3 (sid_dev p) ?m = Some (sid, fs4)" "sid \<noteq> 0" "sid_dev sid = sid_dev p" "F sid = None"
      "stores fs4 (F(sid \<mapsto> (meta_str ?m, [])))" "fs_room fs4 (sid_dev p) (2 * new_cores (length xs + 9 + length name) + (k + 6))"
    by blast
  have psid: "p \<noteq> sid"
    using assms(9) i(4) by auto
  have n: "0 \<notin> set name" "chr_slash \<notin> set name" "name \<noteq> []"
    using assms(5) by (simp_all add: name_ok_def)
  have dir: "dir_at (F(sid \<mapsto> (meta_str ?m, []))) p es" "(F(sid \<mapsto> (meta_str ?m, []))) p = Some (meta, xs)"
    using ents(1) psid assms(9) by (simp_all add: dir_at_def)
  from fu_add_at [OF i(5) dir n(1,2) assms(10) i(6), of sid] obtain fs5 ys where
    a: "fu_add_to_dir fs4 p sid name = Some (0, fs5)" "stores fs5 (F(sid \<mapsto> (meta_str ?m, []), p \<mapsto> (meta, ys)))"
      "dir_at (F(sid \<mapsto> (meta_str ?m, []), p \<mapsto> (meta, ys))) p (es @ [(sid, name)])" "fs_room fs5 (sid_dev p) (k + 6)"
    by blast
  have new: "(F(sid \<mapsto> (meta_str ?m, []), p \<mapsto> (meta, ys))) sid = Some (meta_str ?m, [])" "meta_str ?m ! 0 = chr_D"
    using psid by (simp_all add: meta_str_hd)
  from fu_dir_setup [OF a(2) new i(2) a(4) [folded i(3)], of p] obtain fs6 b fs7 fs8 fs9 zs where
    s: "fs_cnt_set_size fs5 sid 4 = Some (0, fs6)" "fs_cnt_write fs6 sid [0, 0, 0, 0] 0 4 = Some (0, b, fs7)"
      "fu_add_to_dir fs7 sid p [chr_dot, chr_dot] = Some (0, fs8)" "fu_add_to_dir fs8 sid sid [chr_dot] = Some (0, fs9)"
      "stores fs9 (F(sid \<mapsto> (meta_str ?m, []), p \<mapsto> (meta, ys), sid \<mapsto> (meta_str ?m, zs)))"
      "dir_at (F(sid \<mapsto> (meta_str ?m, []), p \<mapsto> (meta, ys), sid \<mapsto> (meta_str ?m, zs))) sid (?sub sid)" "fs_room fs9 (sid_dev sid) k"
    by blast
  let ?F1 = "F(sid \<mapsto> (meta_str ?m, zs))" and ?F2 = "F(sid \<mapsto> (meta_str ?m, zs), p \<mapsto> (meta, ys))"
  have F2: "F(sid \<mapsto> (meta_str ?m, []), p \<mapsto> (meta, ys), sid \<mapsto> (meta_str ?m, zs)) = ?F2"
    using psid by (auto simp: fun_eq_iff)
  have tidy: "rev (dropWhile (\<lambda>c. c = chr_slash) (rev name)) = name"
    using n(2,3) by (cases name rule: rev_cases) auto
  have sep: "fu_sep_path (abs_path (cs @ [name])) = (abs_path cs, name)"
    unfolding fu_sep_path_kernel by (rule sep_path_snoc [OF assms(5)])
  have "fu_dir_create fs 0 (abs_path (cs @ [name])) = Some (sid, fs9)"
    using fs1(1) fs2(1) fs3(1) i(1,2) a(1) s(1-4) sep tidy n(3)
    by (simp add: fu_dir_create_def SID_NULL_def META_MAXLEN_def fu_is_dir_kernel abs_path_def)
  moreover have "dir_at ?F1 sid (?sub sid)"
    using s(6) unfolding F2 using psid by (simp add: dir_at_def)
  then have "tree_at ?F1 (G(sid \<mapsto> ?sub sid))"
    by (rule tree_at_set [OF assms(1)]) (use i(2,4) psid assms(9) ents(1) in \<open>auto simp: name_ok_def chr_defs dir_at_def split: if_splits\<close>)
  then have "tree_at ?F2 (G(sid \<mapsto> ?sub sid, p \<mapsto> es @ [(sid, name)]))"
  proof (rule tree_at_set)
    show "dir_at ?F2 p (es @ [(sid, name)])"
      using a(3) by (simp add: dir_at_def)
    show "\<forall>(s, nm)\<in>set (es @ [(sid, name)]). name_ok nm \<and> s \<noteq> 0 \<and> ?F2 s \<noteq> None"
      using ents(2) assms(5) i(2) by auto
  qed (auto split: if_splits)
  ultimately show ?thesis
    using i(2-4) s(5,7) unfolding F2 by (intro exI [of _ sid] exI [of _ fs9] exI [of _ ?F2]) simp
qed

section \<open>A path that ends with a slash\<close>

lemma components_slash: "components (path @ [chr_slash]) = components path"
proof (induction path rule: components.induct)
  case (1 path)
  define p where "p = dropWhile (\<lambda>c. c = chr_slash) path"
  show ?case
  proof (cases "p = []")
    case True
    then have "dropWhile (\<lambda>c. c = chr_slash) (path @ [chr_slash]) = []"
      by (simp add: p_def)
    then show ?thesis
      using True by (simp add: components.simps [of "path @ [chr_slash]"] components.simps [of path] p_def)
  next
    case False
    then have d: "dropWhile (\<lambda>c. c = chr_slash) (path @ [chr_slash]) = p @ [chr_slash]"
      by (simp add: p_def dropWhile_append)
    have t: "takeWhile (\<lambda>c. c \<noteq> chr_slash) (p @ [chr_slash]) = takeWhile (\<lambda>c. c \<noteq> chr_slash) p"
      "dropWhile (\<lambda>c. c \<noteq> chr_slash) (p @ [chr_slash]) = dropWhile (\<lambda>c. c \<noteq> chr_slash) p @ [chr_slash]"
      by (induction p) auto
    show ?thesis
      unfolding components.simps [of "path @ [chr_slash]"] components.simps [of path] Let_def d t p_def [symmetric]
      using 1 [OF p_def False] False by simp
  qed
qed

lemma sep_path_slash:
  assumes "path \<noteq> []" and "last path \<noteq> chr_slash" and "kfu_sep_path path = (parent, name)"
  shows "kfu_sep_path (path @ [chr_slash]) = (parent, name @ [chr_slash])"
proof -
  have "dropWhile (\<lambda>c. c = chr_slash) (rev path) = rev path"
    using assms(1,2) by (cases path rule: rev_cases) simp_all
  moreover have "length (takeWhile (\<lambda>c. c \<noteq> chr_slash) (rev path)) \<le> length path"
    using length_takeWhile_le [of "\<lambda>c. c \<noteq> chr_slash" "rev path"] by simp
  ultimately show ?thesis
    using assms(3) unfolding kfu_sep_path_def by (auto simp: Let_def)
qed

text \<open>
  The name that \<open>fu_sep_path\<close> gives keeps the slash, \<open>fu_add_to_dir\<close> refuses it, and the container that
  was already made for the file stays on the disk without a name.
\<close>

theorem fu_file_create_leaks:
  assumes "tree_at F G" and "stores fs F" and "G SID_ROOT \<noteq> None" and "\<forall>c\<in>set cs. name_ok c" and "name_ok name"
    and "walk G SID_ROOT (cs @ [name]) True = SID_NULL" and "walk G SID_ROOT cs False = p" and "G p \<noteq> None"
    and "sid_dev p \<noteq> 0" and "fs_room fs (sid_dev p) (Suc (Suc k))"
  shows "\<exists>sid fs'. fu_file_create fs 0 (abs_path (cs @ [name]) @ [chr_slash]) = Some (SID_NULL, fs') \<and> F sid = None \<and>
    stores fs' (F(sid \<mapsto> (meta_str ([chr_F, chr_dash] @ take 61 (name @ [chr_slash])), [])))"
proof -
  let ?path = "abs_path (cs @ [name])" and ?m = "[chr_F, chr_dash] @ take 61 (name @ [chr_slash])"
  have z: "G 0 = None"
    by (rule tree_null [OF assms(1)])
  have names: "\<forall>c\<in>set (cs @ [name]). name_ok c"
    using assms(4,5) by simp
  have path: "components ?path = cs @ [name]" "\<not> trailing ?path" "components (abs_path cs) = cs" "?path \<noteq> []"
    using components_path_of [OF names] components_path_of [OF assms(4)] not_trailing_abs [OF names] by (simp_all add: abs_path_def)
  have tr: "trailing (?path @ [chr_slash]) = True"
    by (simp add: trailing_def)
  have sep: "fu_sep_path (?path @ [chr_slash]) = (abs_path cs, name @ [chr_slash])"
    unfolding fu_sep_path_kernel by (rule sep_path_slash [OF path(4) _ sep_path_snoc [OF assms(5)]]) (use path(2,4) in \<open>simp add: trailing_def\<close>)
  obtain fs1 where fs1: "fu_path_to_sid fs SID_ROOT (?path @ [chr_slash]) = Some (SID_NULL, fs1)" "stores fs1 F" "\<forall>dev k. fs_room fs dev k \<longrightarrow> fs_room fs1 dev k"
    using fu_path_walks [OF assms(1-3), of "?path @ [chr_slash]"] assms(6) unfolding components_slash path(1) tr by auto
  obtain es where es: "G p = Some es"
    using assms(8) by blast
  obtain fs2 where fs2: "fu_path_to_sid fs1 SID_ROOT (abs_path cs) = Some (p, fs2)" "stores fs2 F" "\<forall>dev k. fs_room fs1 dev k \<longrightarrow> fs_room fs2 dev k"
    using fu_path_walks [OF assms(1) fs1(2) assms(3), of "abs_path cs"] parent_walk(1) [OF assms(1,4,7) es] by auto
  note dir = tree_atD(1) [OF assms(1) es]
  obtain fs3 where fs3: "kfu_is_dir fs2 p = Some (True, fs3)" "stores fs3 F" "\<And>dev k. fs_room fs2 dev k \<Longrightarrow> fs_room fs3 dev k"
    by (rule dir_at_obtain [OF fs2(2) dir]) blast
  have room: "fs_room fs3 (sid_dev p) (Suc (Suc k))"
    using fs1(3) fs2(3) fs3(3) assms(10) by simp
  from store_init [OF fs3(2) room assms(9), of ?m] obtain sid fs4 where
    i: "fs_cnt_init fs3 (sid_dev p) ?m = Some (sid, fs4)" "sid \<noteq> 0" "F sid = None" "stores fs4 (F(sid \<mapsto> (meta_str ?m, [])))"
    by blast
  have "p \<noteq> sid"
    using dir i(3) by (auto simp: dir_at_def)
  then have "dir_at (F(sid \<mapsto> (meta_str ?m, []))) p es"
    using dir by (simp add: dir_at_def)
  then obtain fs5 where fs5: "kfu_is_dir fs4 p = Some (True, fs5)" "stores fs5 (F(sid \<mapsto> (meta_str ?m, [])))"
    by (rule dir_at_obtain [OF i(4)]) blast
  have "fu_add_to_dir fs4 p sid (name @ [chr_slash]) = Some (- EINVAL, fs5)"
    using fs5(1) by (simp add: fu_add_to_dir_def fu_is_dir_kernel)
  then have "fu_file_create fs 0 (?path @ [chr_slash]) = Some (SID_NULL, fs5)"
    using fs1(1) fs2(1) fs3(1) i(1,2) sep
    by (simp add: fu_file_create_def create_under_def SID_NULL_def META_MAXLEN_def fu_is_dir_kernel abs_path_def EINVAL_def)
  then show ?thesis
    using i(3) fs5(2) by blast
qed

end
