(* ===== verification/FuProps.thy ===== *)
theory FuProps
  imports FuCreate FsProps
begin

text \<open>
  The properties of the file system as programs see it (\<open>zlibs/modules/filesys.c\<close>).
\<close>

lemma boot_tree:
  obtains fs F G tmp dev meta where "filesys_init_root zeros = Some fs" "stores fs F" "tree_at F G"
    "G SID_ROOT = Some (boot_entries tmp dev)" "F SID_ROOT = Some (meta, dir_bytes (boot_entries tmp dev))" "length (dir_bytes (boot_entries tmp dev)) = 49"
    "fs_room fs 1 1000" "sid_dev SID_ROOT = 1" "G tmp = Some [(SID_ROOT, [chr_dot, chr_dot]), (tmp, [chr_dot])]" "tmp \<noteq> SID_ROOT" "tmp \<noteq> dev"
proof -
  obtain fs F G tmp dev where b: "filesys_init_root zeros = Some fs" "stores fs F" "tree_of F G" "G SID_ROOT = Some (boot_entries tmp dev)"
    "G tmp = Some [(SID_ROOT, [chr_dot, chr_dot]), (tmp, [chr_dot])]" "tmp \<noteq> SID_ROOT" "tmp \<noteq> dev" "fs_room fs 1 1000"
    using filesys_init_root_ok [of zeros] by auto
  obtain meta where "F SID_ROOT = Some (meta, dir_bytes (boot_entries tmp dev))"
    using tree_ofD(1) [OF b(3,4)] by (auto simp: is_directory_def)
  moreover have "length (dir_bytes (boot_entries tmp dev)) = 49" "sid_dev SID_ROOT = 1"
    by (simp_all add: length_dir_bytes boot_names SID_ROOT_def SID_FORMAT_def sid_dev_def SID_DISK_def)
  ultimately show ?thesis
    using that b tree_of_at [OF b(2,3)] by blast
qed

section \<open>The properties\<close>

text \<open>
  C2.  A file that a program creates is found under its path; taking it out of its directory again
  gives the tree of directories as it was, and no other container changes.
\<close>

theorem fu_file_create_remove:
  assumes "tree_at F G" and "stores fs F" and "G SID_ROOT \<noteq> None" and "\<forall>c\<in>set cs. name_ok c" and "name_ok name"
    and "walk G SID_ROOT (cs @ [name]) False = SID_NULL" and "walk G SID_ROOT cs False = p" and "G p = Some es" and "F p = Some (meta, xs)"
    and "length xs + 9 + length name \<le> cnt_max" and "sid_dev p \<noteq> 0"
    and "fs_room fs (sid_dev p) (2 * new_cores (length xs + 9 + length name) + 2)"
  shows "\<exists>sid fs1 F1 fs2 fs3 F3. fu_file_create fs 0 (abs_path (cs @ [name])) = Some (sid, fs1) \<and> F sid = None \<and>
    stores fs1 F1 \<and> tree_at F1 (G(p \<mapsto> es @ [(sid, name)])) \<and> F1 sid = Some (meta_str ([chr_F, chr_dash] @ take 61 name), []) \<and>
    fu_path_to_sid fs1 SID_ROOT (abs_path (cs @ [name])) = Some (sid, fs2) \<and>
    fu_remove_from_dir fs2 p sid = Some (0, fs3) \<and> stores fs3 F3 \<and> tree_at F3 G \<and> (\<forall>s. s \<noteq> sid \<longrightarrow> s \<noteq> p \<longrightarrow> F3 s = F s)"
proof -
  let ?m = "meta_str ([chr_F, chr_dash] @ take 61 name)"
  have "fs_room fs (sid_dev p) (2 * new_cores (length xs + 9 + length name) + 0 + 2)"
    using assms(12) by simp
  from fu_create_file [OF assms(1-11) this] obtain sid fs1 ys where
    c: "fu_file_create fs 0 (abs_path (cs @ [name])) = Some (sid, fs1)" "F sid = None" "stores fs1 (F(sid \<mapsto> (?m, []), p \<mapsto> (meta, ys)))"
      "tree_at (F(sid \<mapsto> (?m, []), p \<mapsto> (meta, ys))) (G(p \<mapsto> es @ [(sid, name)]))"
      "walk (G(p \<mapsto> es @ [(sid, name)])) SID_ROOT (cs @ [name]) False = sid"
    by blast
  have psid: "p \<noteq> sid"
    using c(2) assms(9) by auto
  have names: "\<forall>c\<in>set (cs @ [name]). name_ok c"
    using assms(4,5) by simp
  have path: "components (abs_path (cs @ [name])) = cs @ [name]" "\<not> trailing (abs_path (cs @ [name]))"
    using components_path_of [OF names] not_trailing_abs [OF names] by (simp_all add: abs_path_def)
  have root: "(G(p \<mapsto> es @ [(sid, name)])) SID_ROOT \<noteq> None"
    using assms(3) by simp
  have w: "walk (G(p \<mapsto> es @ [(sid, name)])) SID_ROOT (components (abs_path (cs @ [name]))) (trailing (abs_path (cs @ [name]))) = sid"
    unfolding path(1) using path(2) c(5) by (cases "trailing (abs_path (cs @ [name]))") (simp_all del: fun_upd_apply)
  from fu_path_walks [OF c(4,3) root, of "abs_path (cs @ [name])", unfolded w] obtain fs2 where
    f: "fu_path_to_sid fs1 SID_ROOT (abs_path (cs @ [name])) = Some (sid, fs2)" "stores fs2 (F(sid \<mapsto> (?m, []), p \<mapsto> (meta, ys)))"
    by blast
  have "\<exists>e\<in>set (es @ [(sid, name)]). fst e = sid"
    by simp
  from remove_tree_at [OF c(4) f(2) _ _ this, of p meta ys] obtain fs3 zs where
    r: "fu_remove_from_dir fs2 p sid = Some (0, fs3)" "stores fs3 (F(sid \<mapsto> (?m, []), p \<mapsto> (meta, ys), p \<mapsto> (meta, zs)))"
      "tree_at (F(sid \<mapsto> (?m, []), p \<mapsto> (meta, ys), p \<mapsto> (meta, zs))) (G(p \<mapsto> es @ [(sid, name)], p \<mapsto> drop_entry sid (es @ [(sid, name)])))"
    by auto
  have "\<forall>e\<in>set es. fst e \<noteq> sid"
    using tree_atD(2) [OF assms(1,8), of sid] c(2) by fastforce
  then have "G(p \<mapsto> es @ [(sid, name)], p \<mapsto> drop_entry sid (es @ [(sid, name)])) = G"
    using assms(8) by (auto simp: drop_entry_new fun_eq_iff)
  then show ?thesis
    using c f(1) r psid by (intro exI conjI) (assumption | simp)+
qed

theorem fu_file_create_remove_witness:
  "\<exists>fs sid fs1 fs2 fs3. filesys_init_root zeros = Some fs \<and> fu_file_create fs 0 [chr_slash, chr_A] = Some (sid, fs1) \<and>
    fu_path_to_sid fs1 SID_ROOT [chr_slash, chr_A] = Some (sid, fs2) \<and> fu_remove_from_dir fs2 SID_ROOT sid = Some (0, fs3)"
proof -
  obtain fs F G tmp dev meta where b: "filesys_init_root zeros = Some fs" "stores fs F" "tree_at F G"
    "G SID_ROOT = Some (boot_entries tmp dev)" "F SID_ROOT = Some (meta, dir_bytes (boot_entries tmp dev))" "length (dir_bytes (boot_entries tmp dev)) = 49"
    "fs_room fs 1 1000" "sid_dev SID_ROOT = 1"
    by (rule boot_tree)
  have room: "fs_room fs (sid_dev SID_ROOT) (2 * new_cores (length (dir_bytes (boot_entries tmp dev)) + 9 + length [chr_A]) + 2)"
    unfolding b(6,8) by (rule fs_room_mono [OF b(7)]) (simp add: new_cores_def)
  have w: "walk G SID_ROOT ([] @ [[chr_A]]) False = SID_NULL"
    using b(4) by (simp add: lookup_name_def bytes_of_def chr_defs SID_NULL_def)
  from fu_file_create_remove [OF b(3,2) _ _ _ w _ b(4,5) _ _ room] b(1,4,6,8) show ?thesis
    by (auto simp: abs_path_def name_ok_def chr_defs cnt_max_def)
qed

text \<open>
  C20.  Taking an element out of a directory removes the first entry that names it and no other, in
  order, whatever the layout of the names; an element that the directory does not have is refused
  without a change.
\<close>

theorem fu_remove_from_dir_exact:
  assumes "tree_at F G" and "stores fs F" and "G p = Some es" and "F p = Some (meta, xs)"
  shows "if \<exists>e\<in>set es. fst e = sid
    then \<exists>fs' ys. fu_remove_from_dir fs p sid = Some (0, fs') \<and> length ys = length xs \<and> stores fs' (F(p \<mapsto> (meta, ys))) \<and>
      tree_at (F(p \<mapsto> (meta, ys))) (G(p \<mapsto> drop_entry sid es))
    else \<exists>fs'. fu_remove_from_dir fs p sid = Some (- ENOENT, fs') \<and> stores fs' F"
proof (cases "\<exists>e\<in>set es. fst e = sid")
  case True
  then show ?thesis
    using remove_tree_at [OF assms True] by auto
next
  case False
  then have "\<forall>e\<in>set es. fst e \<noteq> sid"
    by blast
  from fu_remove_missing [OF assms(2) tree_atD(1) [OF assms(1,3)] this] False show ?thesis
    by auto
qed

theorem fu_remove_from_dir_exact_witness:
  "\<exists>fs F tmp dev fs' ys meta. filesys_init_root zeros = Some fs \<and> fu_remove_from_dir fs SID_ROOT tmp = Some (0, fs') \<and>
    stores fs' (F(SID_ROOT \<mapsto> (meta, ys))) \<and>
    dir_at (F(SID_ROOT \<mapsto> (meta, ys))) SID_ROOT [(SID_ROOT, [chr_dot, chr_dot]), (SID_ROOT, [chr_dot]), (dev, bytes_of ''dev'')]"
proof -
  obtain fs F G tmp dev meta where b: "filesys_init_root zeros = Some fs" "stores fs F" "tree_at F G"
    "G SID_ROOT = Some (boot_entries tmp dev)" "F SID_ROOT = Some (meta, dir_bytes (boot_entries tmp dev))" "tmp \<noteq> SID_ROOT" "tmp \<noteq> dev"
    by (rule boot_tree)
  have "\<exists>e\<in>set (boot_entries tmp dev). fst e = tmp"
    by simp
  with fu_remove_from_dir_exact [OF b(3,2,4,5), of tmp] obtain fs' ys where
    r: "fu_remove_from_dir fs SID_ROOT tmp = Some (0, fs')" "stores fs' (F(SID_ROOT \<mapsto> (meta, ys)))"
      "tree_at (F(SID_ROOT \<mapsto> (meta, ys))) (G(SID_ROOT \<mapsto> drop_entry tmp (boot_entries tmp dev)))"
    by (simp only: if_True) blast
  have "drop_entry tmp (boot_entries tmp dev) = [(SID_ROOT, [chr_dot, chr_dot]), (SID_ROOT, [chr_dot]), (dev, bytes_of ''dev'')]"
    using b(6,7) by (simp add: drop_entry_def)
  then have "dir_at (F(SID_ROOT \<mapsto> (meta, ys))) SID_ROOT [(SID_ROOT, [chr_dot, chr_dot]), (SID_ROOT, [chr_dot]), (dev, bytes_of ''dev'')]"
    using tree_atD(1) [OF r(3), of SID_ROOT] by simp
  then show ?thesis
    using b(1) r(1,2) by blast
qed

text \<open>
  C8.  The reader of the kernel and the one of programs agree on every directory: whatever the layout
  of the names, which removals change, both return its entries, in order, with their names.
\<close>

theorem dir_readers_agree:
  assumes "stores fs F" and "dir_at F dir es"
  shows "(\<exists>fs'. kfu_get_dir_content fs dir want = Some (int (length es), (if want then es else []), fs') \<and> stores fs' F) \<and>
    (\<exists>fs'. fu_dir_get_content fs dir want = Some (int (length es), (if want then es else []), fs') \<and> stores fs' F)"
  using kfu_get_content_at [OF assms] fu_get_content_at [OF assms] by blast

theorem dir_readers_agree_witness:
  "\<exists>fs tmp dev fs1 fs2. filesys_init_root zeros = Some fs \<and> kfu_get_dir_content fs SID_ROOT True = Some (4, boot_entries tmp dev, fs1) \<and>
    fu_dir_get_content fs SID_ROOT True = Some (4, boot_entries tmp dev, fs2)"
proof -
  obtain fs F G tmp dev where b: "filesys_init_root zeros = Some fs" "stores fs F" "tree_at F G" "G SID_ROOT = Some (boot_entries tmp dev)"
    by (rule boot_tree)
  show ?thesis
    using dir_readers_agree [OF b(2) tree_atD(1) [OF b(3,4)], of True] b(1) by auto
qed

text \<open>
  The lookup of programs and the one of the kernel agree on absolute paths: both return what the
  path means in the tree of directories, and both end.
\<close>

lemma path_lookups_agree:
  assumes "tree_of F G" and "stores fs F" and "G SID_ROOT \<noteq> None" and "\<forall>d. G d \<noteq> Some []" and "\<forall>c\<in>set cs. name_ok c"
  shows "\<exists>fs' fs''. kfu_path_to_sid fs SID_ROOT (abs_path cs) = Some (locate G cs, fs') \<and> stores fs' F \<and>
    fu_path_to_sid fs SID_ROOT (abs_path cs) = Some (locate G cs, fs'') \<and> stores fs'' F"
  using path_to_sid_locate [OF assms(1-3,5)] fu_path_walks [OF tree_of_at [OF assms(2,1)] assms(2,3), of "abs_path cs"]
  unfolding walk_locate [OF assms(4,5)] by blast

text \<open>
  C26.  For every path, with any number of slashes anywhere, the lookup of programs ends and returns
  what its components mean in the tree of directories: a slash at the end asks for a directory, a path
  without a component is the directory it starts from.
\<close>

theorem fu_path_to_sid_ok:
  assumes "tree_at F G" and "stores fs F" and "G from \<noteq> None"
  shows "\<exists>fs'. fu_path_to_sid fs from path = Some (walk G from (components path) (trailing path), fs') \<and> stores fs' F"
  using fu_path_walks [OF assms, of path] by blast

theorem fu_path_to_sid_ok_witness:
  "\<exists>fs fs'. filesys_init_root zeros = Some fs \<and>
    fu_path_to_sid fs SID_ROOT (chr_slash # chr_slash # bytes_of ''tmp'' @ [chr_slash, chr_slash, chr_dot, chr_dot, chr_slash]) = Some (SID_ROOT, fs')"
proof -
  obtain fs F G tmp dev where b: "filesys_init_root zeros = Some fs" "stores fs F" "tree_at F G" "G SID_ROOT = Some (boot_entries tmp dev)"
    "G tmp = Some [(SID_ROOT, [chr_dot, chr_dot]), (tmp, [chr_dot])]"
    by (rule boot_tree)
  let ?path = "chr_slash # chr_slash # bytes_of ''tmp'' @ [chr_slash, chr_slash, chr_dot, chr_dot, chr_slash]"
  have path: "components ?path = [bytes_of ''tmp'', [chr_dot, chr_dot]]" "trailing ?path = True"
    by (simp_all add: components.simps Let_def bytes_of_def chr_defs trailing_def)
  have "walk G SID_ROOT [bytes_of ''tmp'', [chr_dot, chr_dot]] True = SID_ROOT"
    using b(4,5) by (simp add: lookup_name_def bytes_of_def chr_defs)
  then show ?thesis
    using fu_path_to_sid_ok [OF b(3,2), of SID_ROOT ?path] b(1,4) unfolding path by (simp del: walk.simps) blast
qed

text \<open>
  C11.  A directory that a program creates has the entries \<open>..\<close> and \<open>.\<close>, its parent lists it last, and
  nothing else changes in the tree or in any other container.
\<close>

theorem fu_dir_create_ok:
  assumes "tree_at F G" and "stores fs F" and "G SID_ROOT \<noteq> None" and "\<forall>c\<in>set cs. name_ok c" and "name_ok name"
    and "walk G SID_ROOT (cs @ [name]) False = SID_NULL" and "walk G SID_ROOT cs False = p" and "G p = Some es" and "F p = Some (meta, xs)"
    and "length xs + 9 + length name \<le> cnt_max" and "sid_dev p \<noteq> 0"
    and "fs_room fs (sid_dev p) (2 * new_cores (length xs + 9 + length name) + k + 8)"
  shows "\<exists>sid fs' F'. fu_dir_create fs 0 (abs_path (cs @ [name])) = Some (sid, fs') \<and> sid \<noteq> 0 \<and> F sid = None \<and>
    stores fs' F' \<and> (\<forall>s. s \<noteq> sid \<longrightarrow> s \<noteq> p \<longrightarrow> F' s = F s) \<and>
    tree_at F' (G(sid \<mapsto> [(p, [chr_dot, chr_dot]), (sid, [chr_dot])], p \<mapsto> es @ [(sid, name)])) \<and> fs_room fs' (sid_dev p) k"
  using assms by (rule fu_create_dir)

theorem fu_dir_create_ok_witness:
  "\<exists>fs sid fs'. filesys_init_root zeros = Some fs \<and> fu_dir_create fs 0 [chr_slash, chr_A] = Some (sid, fs') \<and> sid \<noteq> 0"
proof -
  obtain fs F G tmp dev meta where b: "filesys_init_root zeros = Some fs" "stores fs F" "tree_at F G"
    "G SID_ROOT = Some (boot_entries tmp dev)" "F SID_ROOT = Some (meta, dir_bytes (boot_entries tmp dev))" "length (dir_bytes (boot_entries tmp dev)) = 49"
    "fs_room fs 1 1000" "sid_dev SID_ROOT = 1"
    by (rule boot_tree)
  have room: "fs_room fs (sid_dev SID_ROOT) (2 * new_cores (length (dir_bytes (boot_entries tmp dev)) + 9 + length [chr_A]) + 0 + 8)"
    unfolding b(6,8) by (rule fs_room_mono [OF b(7)]) (simp add: new_cores_def)
  have w: "walk G SID_ROOT ([] @ [[chr_A]]) False = SID_NULL"
    using b(4) by (simp add: lookup_name_def bytes_of_def chr_defs SID_NULL_def)
  from fu_dir_create_ok [OF b(3,2) _ _ _ w _ b(4,5) _ _ room] b(1,4,6,8) show ?thesis
    by (auto simp: abs_path_def name_ok_def chr_defs cnt_max_def)
qed

end
