(* ===== verification/Spec2Isabelle.thy ===== *)
theory Spec2Isabelle
  imports FsProps SnowflakeProps CStringProps KString Afft ProcessCalls KernelProps ScubaProps SortProps FmopenProps FuProps
begin

text \<open>
  A verification library for profanOS, an i386 kernel with its own file system, memory managers,
  scheduler and C library.

  The program.  \<^bold>\<open>File system\<close> (\<open>src/kernel/filesys\<close>): a table of disks in memory, whose sectors hold
  containers (header, locators, cores); directories, files, device functions and links are kinds of
  containers.  \<^bold>\<open>Memory\<close> (\<open>src/kernel/system/snowflake.c\<close>, \<open>scubasuit.c\<close>): a first-fit allocator of physical
  memory that keeps its blocks in an array it allocates from itself, and the page directories and
  tables built on it.  \<^bold>\<open>Processes\<close> (\<open>process.c\<close>): a table of 200 processes, a round-robin queue of those
  that can run, a list of those that sleep, the calls that create, stop and wait.  \<^bold>\<open>Strings\<close>
  (\<open>src/zlibs/libc\<close> and \<open>src/kernel/kpart/minilib.c\<close>): blocks of memory, C strings, sorting.  \<^bold>\<open>Device
  functions\<close> (\<open>src/kernel/kpart/afft.c\<close>).  \<^bold>\<open>Descriptors\<close> (\<open>src/zlibs/modules/fmopen.c\<close>): for each process a
  table of descriptors of files, directories, device functions, sockets and pipes.  The descriptors use the
  file system (\<open>fm_fs\<close> of \<open>fm\<close>), the device functions and the processes (\<open>fm_sched\<close>), the processes use virtual memory (\<open>kmem\<close> of \<open>sched\<close>), virtual memory
  uses the allocator (\<open>heap\<close> of \<open>scuba\<close>), the paths of the file system create files whose contents
  number device functions.

  Conventions.  An operation returns its result and the new state in an option; \<open>None\<close> is the one
  outcome in which the code does not come back to its caller: \<open>sys_fatal\<close>, a null or stray pointer, an
  index out of range, a loop that does not end.  Error codes are results.  Integers keep their
  width (\<open>byte\<close>, \<open>u32\<close>) where the code computes with them and may wrap; \<open>int\<close> stands for a C \<open>int\<close> whose range
  the code cannot leave.  What \<open>malloc\<close> or uninitialised memory holds is an argument.

  Theories.
  \<^item> \<open>Prelude\<close>: the types, reading and writing lists by index, little-endian words, and the rules of
    the option monad that the proofs share.
  \<^item> \<open>Vdisk\<close> (\<open>vdisk.c\<close>), \<open>Filesys\<close> (\<open>filesys.c\<close>, \<open>fstools.c\<close>), \<open>Container\<close> (\<open>ctr_init.c\<close>, \<open>ctr_del.c\<close>), \<open>ContainerRw\<close>
    (\<open>ctr_rw.c\<close>), \<open>ContainerSize\<close> (\<open>ctr_size.c\<close>), \<open>Directory\<close> (\<open>usg_dir.c\<close>), \<open>Paths\<close> (\<open>usg_ptsid.c\<close>, \<open>usg_file.c\<close>,
    \<open>usg_afft.c\<close>): the operations, each against \<open>fs_view\<close>, the map from sectors in use to their bytes.
    \<open>ContainerIo\<close>, \<open>ContainerStore\<close> and \<open>FileOps\<close> raise this to the abstract store, a map from containers
    to meta string and contents, of which each operation is one update; \<open>layout_of\<close> names the sectors of each
    container (\<open>stored_set\<close>), which deletion frees.  A path means the way of its parts (\<open>path_parts\<close>, a
    specification apart from the recursion of the code) through a tree of directories; \<open>FsProps\<close> has C1, C3, C4, C6, C7 and C9.
  \<^item> \<open>Fu\<close> (\<open>zlibs/modules/filesys.c\<close>): directories, paths and files as programs see them, over the same
    containers.  \<open>FuDir\<close>: a directory whose names stand anywhere, the layout that removing an element leaves;
    \<open>FuStore\<close>: its operations on the abstract store (\<open>dir_at\<close>); \<open>FuPaths\<close>: what a path means (\<open>components\<close>, \<open>walk\<close>)
    in a tree of such directories (\<open>tree_at\<close>); \<open>FuCreate\<close>: creation.  \<open>FuProps\<close> has C2, C8, C11, C20 and C26.
  \<^item> \<open>Snowflake\<close> (\<open>snowflake.c\<close>), \<open>SnowflakeOps\<close>: the array of blocks as the list of blocks in the order of
    their addresses (\<open>snow_ok\<close>); \<open>SnowflakeProps\<close> has C14, C15 and C17.
  \<^item> \<open>CMem\<close>, \<open>CString\<close>, \<open>CStringW\<close> (\<open>string.c\<close>, \<open>strings.c\<close>, \<open>ctype.c\<close>): flat memory, the functions that read, the
    functions that write; \<open>CStringFacts\<close>, \<open>CStringSearch\<close>, \<open>CStringOps\<close>: what they do to strings;
    \<open>CStringProps\<close> has C19, C21, C22, C24 and C25.  \<open>KString\<close>: \<open>minilib.c\<close>.  \<open>Afft\<close> (\<open>afft.c\<close>): the table of device functions.
  \<^item> \<open>Sort\<close> (\<open>funcs/qsort.c\<close>, \<open>bsearch\<close> of \<open>stdlib.c\<close>): arrays of elements; \<open>SortProps\<close>: the partition and C40.
  \<^item> \<open>Scuba\<close> (\<open>scubasuit.c\<close>): the objects in physical memory that the kernel reads as page directories
    and tables, and its bytes.  \<open>ScubaHeap\<close>: it only adds blocks to the allocator.  \<open>ScubaSpace\<close>,
    \<open>ScubaRange\<close>: an address space (\<open>space_ok\<close>) and what an operation does to its translation;
    \<open>ScubaProps\<close> has C37 to C39.
  \<^item> \<open>Process\<close> (the lists and the switch), \<open>ProcessCalls\<close> (start-up, creation, fork, sleep, wake-up, kill,
    wait, information): \<open>process.c\<close>.  \<open>ProcessLists\<close>, \<open>ProcessInv\<close>: the invariant \<open>sched_ok\<close>, the queue being
    the processes that can run and the list of sleepers those with a wake-up time.  \<open>ProcessSched\<close>,
    \<open>ProcessSwitch\<close>, \<open>ProcessOps\<close>, \<open>ProcessWake\<close>, \<open>ProcessKill\<close>, \<open>ProcessWait\<close>, \<open>ProcessCreate\<close>: every operation
    keeps it, and its effect on the table; \<open>ProcessProps\<close> has C28 to C34.
  \<^item> \<open>Errno\<close>: error numbers and flags.  \<open>Fmopen\<close> (\<open>fmopen.c\<close>): descriptors and pipes.  \<open>FmopenPipes\<close>: a pipe as a queue of bytes, the interface
    \<open>byte_queue\<close>.  \<open>FmopenRefs\<close>, \<open>FmopenKeep\<close>, \<open>FmopenCalls\<close>, \<open>FmopenSteps\<close>: the lists of readers and writers count
    the descriptors of the live processes (\<open>refs_ok\<close>), through every call and as a step relation.
    \<open>FmopenFiles\<close>: descriptors of files over the abstract store.  \<open>FmopenProps\<close> has C5, C10, C12, C13, C16, C18,
    C23 and C27.
  \<^item> \<open>KernelFrame\<close>, \<open>KernelRun\<close>: the timer and the calls of the running process as a step relation from
    the start-up on; \<open>KernelProps\<close> has C35 and C36.

  Bounds.  \<open>process_kill\<close> takes as fuel the depth of its recursion over the children.  Each level kills a
  process that was alive, so \<open>PROCESS_MAX\<close> levels and one more are enough, and C32 and C36 show that it
  returns; C32 says who dies when the caller does not descend from its victim.  A sleep ends at the tick asked for while
  \<open>ms * 1000\<close> and the counter of ticks stay below 2^32 (C30).  Pipes count at most twelve references to an
  end (C5).  The loops of the C strings, of \<open>qsort\<close> and of \<open>map_identity\<close> are partial functions, so a theorem that
  one returns is a theorem that it ends.  Sizes given to the allocator are at most 2^31.

  Outside the model.  The registers, the stack and the interrupt frame of a process are values; the
  assembly that switches stacks, so the control flow of a call that gives up the processor, is
  split where it blocks (\<open>process_wait\<close> and \<open>process_wait_resume\<close>).  The page tables of an address space are
  objects of their own in \<open>scuba\<close>: a user program that overwrites one is not modelled, nor are
  caches of translations.  A table of descriptors is a list of its own for each page, so the copy that
  \<open>fork\<close> makes of the page is part of the step that declares a child; the death of a process is the one
  it runs itself.  Calls into the socket module are events, their answers a parameter.  The function that a module runs at the death of a process is an event of a
  trace.  Not modelled at all: the processor tables, interrupt glue, ports and the drivers (device
  input and output); the console and the rescue shell (drawing and printing); the loading of
  modules and the dispatch of system calls (pointers into loaded code); the buddy allocator
  (vendored), streams, formatted input and output (variadic) and floating point of the
  libraries; sockets and sound modules; the user programs.
\<close>

end
